(* ===== verification/Prelude.thy ===== *)
theory Prelude
  imports Complex_Main "HOL-Library.Multiset"
begin

text \<open>
  Shared vocabulary of the development: the outcome type of fallible C++ code, the width
  conversions the sources perform on integers, and generic list lemmas.

  \<^item> An outcome of type \<open>'a res\<close> is \<open>Inr x\<close> for a call that returns \<open>x\<close> and \<open>Inl f\<close> for a
    call that does not: \<open>f\<close> is a C++ exception raised by the RPC layer (\<open>Rpc\<close>) or by its serialization (\<open>Msgpack\<close>), the exception
    of opening a shared memory object that does not exist (\<open>Interprocess\<close>), a failed \<open>assert\<close> (\<open>Abort\<close>),
    or an operation whose behaviour the C++ standard leaves undefined (\<open>Undefined\<close>), such as
    dereferencing the end iterator of a container or a null pointer.
  \<^item> \<open>long\<close> values are mathematical integers (signed overflow is undefined in C++; the bounds
    lemmas state when results stay within \<open>in_long\<close>); conversions to narrower types, which the
    compilers used by the project define modulo the width, are written out.
\<close>

section \<open>Collections of simplification rules\<close>

named_theorems run_simps \<open>rules that run a fallible operation to its outcome\<close>
named_theorems wf_intros \<open>introduction rules for well-formedness predicates\<close>

section \<open>Outcomes\<close>

datatype rpc_error =
    NoSuchFunction string nat
  | WrongArity string nat nat
  | NameAlreadyBound string
  | BadServerIndex nat

datatype undefined_behaviour =
    EndDereference
  | EndIncrement
  | NullPointer
  | Uninitialised
  | BufferOverflow
  | DivisionByZero
  | OutOfRange
  | SignedOverflow

datatype msgpack_error = type_error | parse_error | insufficient_bytes | size_overflow | container_size_overflow | bad_alloc

datatype fault = Rpc rpc_error | Msgpack msgpack_error | Interprocess | Abort | Undefined undefined_behaviour

type_synonym 'a res = "fault + 'a"

definition rbind :: "'a res \<Rightarrow> ('a \<Rightarrow> 'b res) \<Rightarrow> 'b res" where
  "rbind m f = (case m of Inl e \<Rightarrow> Inl e | Inr x \<Rightarrow> f x)"

lemma rbind_simps [simp]:
  "rbind (Inr x) f = f x"
  "rbind (Inl e) f = Inl e"
  by (simp_all add: rbind_def)

lemma rbind_Inr_iff: "rbind m f = Inr y \<longleftrightarrow> (\<exists>x. m = Inr x \<and> f x = Inr y)"
  by (cases m) auto

lemma rbind_Inl_iff: "rbind m f = Inl e \<longleftrightarrow> m = Inl e \<or> (\<exists>x. m = Inr x \<and> f x = Inl e)"
  by (cases m) auto

lemma rbind_assoc: "rbind (rbind m f) g = rbind m (\<lambda>x. rbind (f x) g)"
  by (cases m) auto

lemma rbind_cong [fundef_cong]:
  "m = m' \<Longrightarrow> (\<And>x. m' = Inr x \<Longrightarrow> f x = f' x) \<Longrightarrow> rbind m f = rbind m' f'"
  by (cases m') auto

text \<open>A \<open>for\<close> loop over a vector whose body may fail: it stops at the first fault.\<close>

fun rfold :: "('a \<Rightarrow> 's \<Rightarrow> 's res) \<Rightarrow> 'a list \<Rightarrow> 's \<Rightarrow> 's res" where
  "rfold f [] s = Inr s"
| "rfold f (x # xs) s = rbind (f x s) (rfold f xs)"

lemma rfold_append: "rfold f (xs @ ys) s = rbind (rfold f xs s) (rfold f ys)"
  by (induction xs arbitrary: s) (auto simp: rbind_assoc intro!: rbind_cong)

lemma rfold_invariant:
  assumes "rfold f xs s = Inr t" and "P s"
    and "\<And>x s s'. x \<in> set xs \<Longrightarrow> P s \<Longrightarrow> f x s = Inr s' \<Longrightarrow> P s'"
  shows "P t"
  using assms by (induction xs arbitrary: s) (auto simp: rbind_Inr_iff)

lemma rfold_total:
  assumes "P s"
    and "\<And>x s. x \<in> set xs \<Longrightarrow> P s \<Longrightarrow> \<exists>s'. f x s = Inr s' \<and> P s'"
  shows "\<exists>t. rfold f xs s = Inr t \<and> P t"
  using assms
proof (induction xs arbitrary: s)
  case (Cons x xs)
  then obtain s' where "f x s = Inr s'" and "P s'" by force
  with Cons show ?case by simp
qed simp

lemma rfold_cong [fundef_cong]:
  "xs = ys \<Longrightarrow> s = t \<Longrightarrow> (\<And>x u. x \<in> set ys \<Longrightarrow> f x u = g x u) \<Longrightarrow> rfold f xs s = rfold g ys t"
  by (induction xs arbitrary: s t ys) (auto intro!: rbind_cong)

lemma rfold_pure:
  assumes "\<And>x s. x \<in> set xs \<Longrightarrow> f x s = Inr (g x s)"
  shows "rfold f xs s = Inr (fold g xs s)"
  using assms by (induction xs arbitrary: s) auto

section \<open>Integer widths\<close>

definition to_int32 :: "int \<Rightarrow> int" where
  "to_int32 x = (x + 2 ^ 31) mod 2 ^ 32 - 2 ^ 31"

definition to_uint8 :: "int \<Rightarrow> nat" where
  "to_uint8 x = nat (x mod 2 ^ 8)"

definition to_uint16 :: "nat \<Rightarrow> nat" where
  "to_uint16 x = x mod 2 ^ 16"

definition to_size_t :: "int \<Rightarrow> nat" where
  "to_size_t x = nat (x mod 2 ^ 64)"

definition in_long :: "int \<Rightarrow> bool" where
  "in_long x \<longleftrightarrow> - (2 ^ 63) \<le> x \<and> x < 2 ^ 63"

lemma to_int32_id [simp]: "- (2 ^ 31) \<le> x \<Longrightarrow> x < 2 ^ 31 \<Longrightarrow> to_int32 x = x"
  by (simp add: to_int32_def)

lemma to_int32_range: "- (2 ^ 31) \<le> to_int32 x \<and> to_int32 x < 2 ^ 31"
proof -
  have "0 \<le> (x + 2 ^ 31) mod 2 ^ 32" and "(x + 2 ^ 31) mod 2 ^ 32 < 2 ^ 32"
    by simp_all
  then show ?thesis by (simp add: to_int32_def)
qed

lemma to_uint16_id [simp]: "n < 65536 \<Longrightarrow> to_uint16 n = n"
  by (simp add: to_uint16_def)

lemma to_size_t_id: "0 \<le> x \<Longrightarrow> x < 2 ^ 64 \<Longrightarrow> to_size_t x = nat x"
  by (simp add: to_size_t_def)

section \<open>Lists\<close>

lemma length_takeWhile_less: "x \<in> set xs \<Longrightarrow> \<not> P x \<Longrightarrow> length (takeWhile P xs) < length xs"
  by (induction xs) auto

lemma sorted_wrt_filter_imp: "sorted_wrt R xs \<Longrightarrow> sorted_wrt R (filter P xs)"
  by (induction xs) auto

lemma sum_list_filter_split:
  fixes f :: "'a \<Rightarrow> 'b::comm_monoid_add"
  shows "sum_list (map f xs) = sum_list (map f (filter P xs)) + sum_list (map f (filter (\<lambda>x. \<not> P x) xs))"
  by (induction xs) (auto simp: ac_simps)

section \<open>Numbers as text\<close>

text \<open>\<open>std::to_string\<close> on unsigned numbers.\<close>

fun to_string :: "nat \<Rightarrow> string" where
  "to_string n = (if n < 10 then [char_of (48 + n)] else to_string (n div 10) @ [char_of (48 + n mod 10)])"

declare to_string.simps [simp del]

text \<open>The same on signed numbers.\<close>

definition int_string :: "int \<Rightarrow> string" where
  "int_string v = (if v < 0 then ''-'' @ to_string (nat (- v)) else to_string (nat v))"

end
