(* ===== verification/Ordered_Containers.thy ===== *)
theory Ordered_Containers
  imports Prelude
begin

text \<open>
  The parts of \<open>std::map\<close>, \<open>std::multimap\<close> and \<open>std::unordered_map\<close> the sources use, as
  lists of key/value pairs. A tree container is the list of its elements in iteration order,
  with its comparator \<open>lt\<close> as an argument; an iterator is a position, and the position
  \<open>length xs\<close> is \<open>end()\<close>, which cannot be dereferenced or incremented. The iteration order of an
  unordered map is unspecified: the list is one such order, and the lemmas on it are about
  lookups only.

  The locale \<open>strict_weak_order\<close> is what the standard demands of a comparator; the lemmas on
  the ordered containers are proved once in it and reached through its interpretations on the
  comparators of the program.
\<close>

section \<open>Operations\<close>

definition equivalent :: "('k \<Rightarrow> 'k \<Rightarrow> bool) \<Rightarrow> 'k \<Rightarrow> 'k \<Rightarrow> bool" where
  "equivalent lt a b \<longleftrightarrow> \<not> lt a b \<and> \<not> lt b a"

fun om_find :: "('k \<Rightarrow> 'k \<Rightarrow> bool) \<Rightarrow> 'k \<Rightarrow> ('k \<times> 'v) list \<Rightarrow> ('k \<times> 'v) option" where
  "om_find lt k [] = None"
| "om_find lt k (x # xs) = (if equivalent lt (fst x) k then Some x else om_find lt k xs)"

fun om_insert :: "('k \<Rightarrow> 'k \<Rightarrow> bool) \<Rightarrow> 'k \<Rightarrow> 'v \<Rightarrow> ('k \<times> 'v) list \<Rightarrow> ('k \<times> 'v) list" where
  "om_insert lt k v [] = [(k, v)]"
| "om_insert lt k v (x # xs) =
     (if lt k (fst x) then (k, v) # x # xs
      else if lt (fst x) k then x # om_insert lt k v xs
      else x # xs)"

definition om_erase :: "('k \<Rightarrow> 'k \<Rightarrow> bool) \<Rightarrow> 'k \<Rightarrow> ('k \<times> 'v) list \<Rightarrow> ('k \<times> 'v) list" where
  "om_erase lt k xs = filter (\<lambda>x. \<not> equivalent lt (fst x) k) xs"

text \<open>Erasing the element a call to \<open>find\<close> returned.\<close>

fun om_erase_found :: "('k \<Rightarrow> 'k \<Rightarrow> bool) \<Rightarrow> 'k \<Rightarrow> ('k \<times> 'v) list \<Rightarrow> ('k \<times> 'v) list" where
  "om_erase_found lt k [] = []"
| "om_erase_found lt k (x # xs) =
     (if equivalent lt (fst x) k then xs else x # om_erase_found lt k xs)"

definition om_lower_bound :: "('k \<Rightarrow> 'k \<Rightarrow> bool) \<Rightarrow> 'k \<Rightarrow> ('k \<times> 'v) list \<Rightarrow> nat" where
  "om_lower_bound lt k xs = length (takeWhile (\<lambda>x. lt (fst x) k) xs)"

fun mm_emplace :: "('k \<Rightarrow> 'k \<Rightarrow> bool) \<Rightarrow> 'k \<Rightarrow> 'v \<Rightarrow> ('k \<times> 'v) list \<Rightarrow> ('k \<times> 'v) list" where
  "mm_emplace lt k v [] = [(k, v)]"
| "mm_emplace lt k v (x # xs) =
     (if lt k (fst x) then (k, v) # x # xs else x # mm_emplace lt k v xs)"

definition um_find :: "'k \<Rightarrow> ('k \<times> 'v) list \<Rightarrow> 'v option" where
  "um_find k xs = map_of xs k"

definition um_insert :: "'k \<Rightarrow> 'v \<Rightarrow> ('k \<times> 'v) list \<Rightarrow> ('k \<times> 'v) list" where
  "um_insert k v xs = (case map_of xs k of None \<Rightarrow> (k, v) # xs | Some _ \<Rightarrow> xs)"

definition um_erase :: "'k \<Rightarrow> ('k \<times> 'v) list \<Rightarrow> ('k \<times> 'v) list" where
  "um_erase k xs = filter (\<lambda>x. fst x \<noteq> k) xs"

text \<open>Iterators: dereferencing and incrementing \<open>end()\<close> is undefined.\<close>

definition it_deref :: "('k \<times> 'v) list \<Rightarrow> nat \<Rightarrow> ('k \<times> 'v) res" where
  "it_deref xs i = (if i < length xs then Inr (xs ! i) else Inl (Undefined EndDereference))"

definition it_next :: "('k \<times> 'v) list \<Rightarrow> nat \<Rightarrow> nat res" where
  "it_next xs i = (if i < length xs then Inr (Suc i) else Inl (Undefined EndIncrement))"

section \<open>Unordered maps\<close>

lemma um_find_insert: "um_find k (um_insert k' v xs) =
    (if k = k' \<and> um_find k xs = None then Some v else um_find k xs)"
  by (auto simp: um_find_def um_insert_def split: option.split)

lemma map_of_filter_neq: "map_of (filter (\<lambda>x. fst x \<noteq> k) xs) k' = (if k' = k then None else map_of xs k')"
  by (induction xs) auto

lemma um_find_erase: "um_find k' (um_erase k xs) = (if k' = k then None else um_find k' xs)"
  by (simp add: um_find_def um_erase_def map_of_filter_neq)

lemma keys_um_erase: "fst ` set (um_erase k xs) = fst ` set xs - {k}"
  by (auto simp: um_erase_def)

lemma keys_um_insert: "fst ` set (um_insert k v xs) = insert k (fst ` set xs)"
  by (auto simp: um_insert_def map_of_eq_None_iff split: option.splits)
     (metis fst_conv imageI map_of_SomeD)

lemma distinct_um_erase: "distinct (map fst xs) \<Longrightarrow> distinct (map fst (um_erase k xs))"
  by (simp add: um_erase_def distinct_map_filter)

lemma distinct_um_insert: "distinct (map fst xs) \<Longrightarrow> distinct (map fst (um_insert k v xs))"
  by (auto simp: um_insert_def map_of_eq_None_iff split: option.splits)

section \<open>Ordered maps\<close>

definition om_sorted :: "('k \<Rightarrow> 'k \<Rightarrow> bool) \<Rightarrow> ('k \<times> 'v) list \<Rightarrow> bool" where
  "om_sorted lt xs \<longleftrightarrow> sorted_wrt (\<lambda>x y. lt (fst x) (fst y)) xs"

definition mm_sorted :: "('k \<Rightarrow> 'k \<Rightarrow> bool) \<Rightarrow> ('k \<times> 'v) list \<Rightarrow> bool" where
  "mm_sorted lt xs \<longleftrightarrow> sorted_wrt (\<lambda>x y. \<not> lt (fst y) (fst x)) xs"

lemma mset_mm_emplace: "mset (mm_emplace lt k v xs) = add_mset (k, v) (mset xs)"
  by (induction xs) auto

lemma set_mm_emplace: "set (mm_emplace lt k v xs) = insert (k, v) (set xs)"
  by (induction xs) auto

lemma length_mm_emplace [simp]: "length (mm_emplace lt k v xs) = Suc (length xs)"
  by (induction xs) auto

lemma set_om_insert_subset: "set (om_insert lt k v xs) \<subseteq> insert (k, v) (set xs)"
  by (induction xs) auto

lemma set_om_erase_subset: "set (om_erase lt k xs) \<subseteq> set xs"
  by (auto simp: om_erase_def)

lemma set_om_erase: "set (om_erase lt k xs) = {x \<in> set xs. \<not> equivalent lt (fst x) k}"
  by (auto simp: om_erase_def)

lemma om_find_Some_mem: "om_find lt k xs = Some x \<Longrightarrow> x \<in> set xs \<and> equivalent lt (fst x) k"
  by (induction xs) (auto split: if_splits)

lemma om_find_None_iff: "om_find lt k xs = None \<longleftrightarrow> (\<forall>x\<in>set xs. \<not> equivalent lt (fst x) k)"
  by (induction xs) auto

lemma om_sorted_erase: "om_sorted lt xs \<Longrightarrow> om_sorted lt (om_erase lt k xs)"
  by (simp add: om_sorted_def om_erase_def sorted_wrt_filter_imp)

locale strict_weak_order =
  fixes lt :: "'k \<Rightarrow> 'k \<Rightarrow> bool"
  assumes irrefl: "\<not> lt a a"
    and trans: "lt a b \<Longrightarrow> lt b c \<Longrightarrow> lt a c"
    and negtrans: "lt a c \<Longrightarrow> lt a b \<or> lt b c"
begin

lemma asym: "lt a b \<Longrightarrow> \<not> lt b a"
  using irrefl trans by blast

lemma equivalent_refl: "equivalent lt a a"
  by (simp add: equivalent_def irrefl)

lemma equivalent_sym: "equivalent lt a b \<Longrightarrow> equivalent lt b a"
  by (simp add: equivalent_def)

lemma equivalent_trans: "equivalent lt a b \<Longrightarrow> equivalent lt b c \<Longrightarrow> equivalent lt a c"
  using negtrans by (auto simp: equivalent_def)

lemma set_om_insert:
  "om_find lt k xs = None \<Longrightarrow> set (om_insert lt k v xs) = insert (k, v) (set xs)"
  by (induction xs) (auto simp: equivalent_def split: if_splits)

lemma om_insert_present:
  "om_sorted lt xs \<Longrightarrow> om_find lt k xs \<noteq> None \<Longrightarrow> om_insert lt k v xs = xs"
proof (induction xs)
  case (Cons x xs)
  have "\<not> lt k (fst x)"
  proof
    assume less: "lt k (fst x)"
    with Cons.prems obtain y where "y \<in> set xs" "equivalent lt (fst y) k"
      by (auto simp: om_find_None_iff equivalent_def)
    with Cons.prems(1) less show False
      using trans by (auto simp: om_sorted_def equivalent_def)
  qed
  with Cons show ?case
    by (auto simp: om_sorted_def equivalent_def split: if_splits)
qed simp

lemma om_sorted_insert: "om_sorted lt xs \<Longrightarrow> om_sorted lt (om_insert lt k v xs)"
proof (induction xs)
  case (Cons x xs)
  then show ?case
    using set_om_insert_subset[of lt k v xs] trans
    by (fastforce simp: om_sorted_def)
qed (simp add: om_sorted_def)

text \<open>A sorted list has at most one element per equivalence class, so erasing the found element
  and erasing the class are the same.\<close>

lemma om_sorted_unique:
  "om_sorted lt xs \<Longrightarrow> x \<in> set xs \<Longrightarrow> y \<in> set xs \<Longrightarrow> equivalent lt (fst x) (fst y) \<Longrightarrow> x = y"
  by (induction xs) (auto simp: om_sorted_def equivalent_def)

lemma om_erase_found_eq: "om_sorted lt xs \<Longrightarrow> om_erase_found lt k xs = om_erase lt k xs"
proof (induction xs)
  case (Cons x xs)
  show ?case
  proof (cases "equivalent lt (fst x) k")
    case True
    have "\<not> equivalent lt (fst y) k" if "y \<in> set xs" for y
    proof
      assume "equivalent lt (fst y) k"
      with True have "equivalent lt (fst x) (fst y)"
        using equivalent_sym equivalent_trans by blast
      with Cons.prems that show False
        by (auto simp: om_sorted_def equivalent_def)
    qed
    with True show ?thesis by (simp add: om_erase_def filter_id_conv)
  next
    case False
    with Cons show ?thesis by (simp add: om_sorted_def om_erase_def)
  qed
qed (simp add: om_erase_def)

lemma om_find_erase:
  "om_find lt k (om_erase lt k' xs) = (if equivalent lt k k' then None else om_find lt k xs)"
proof (induction xs)
  case Nil
  then show ?case by (simp add: om_erase_def)
next
  case (Cons x xs)
  have "equivalent lt (fst x) k' \<longleftrightarrow> equivalent lt k k'" if "equivalent lt (fst x) k"
    using that equivalent_sym equivalent_trans by blast
  with Cons show ?case
    by (cases "equivalent lt (fst x) k'") (auto simp: om_erase_def)
qed

lemma om_find_insert_same:
  "om_find lt k xs = None \<Longrightarrow> om_find lt k (om_insert lt k v xs) = Some (k, v)"
  by (induction xs) (auto simp: irrefl equivalent_def split: if_splits)

lemma om_find_insert_other:
  "\<not> equivalent lt k k' \<Longrightarrow> om_find lt k (om_insert lt k' v xs) = om_find lt k xs"
  using equivalent_sym by (induction xs) auto

lemma om_find_sorted:
  "om_sorted lt xs \<Longrightarrow> x \<in> set xs \<Longrightarrow> equivalent lt (fst x) k \<Longrightarrow> om_find lt k xs = Some x"
proof -
  assume *: "om_sorted lt xs" "x \<in> set xs" "equivalent lt (fst x) k"
  then obtain y where y: "om_find lt k xs = Some y"
    using om_find_None_iff[of lt k xs] by fastforce
  then have "y \<in> set xs" "equivalent lt (fst y) k"
    by (auto dest: om_find_Some_mem)
  with * have "equivalent lt (fst x) (fst y)"
    using equivalent_sym equivalent_trans by blast
  with * y \<open>y \<in> set xs\<close> show ?thesis
    using om_sorted_unique by blast
qed

lemma mm_sorted_emplace: "mm_sorted lt xs \<Longrightarrow> mm_sorted lt (mm_emplace lt k v xs)"
proof (induction xs)
  case (Cons x xs)
  then have IH: "mm_sorted lt (mm_emplace lt k v xs)"
    and le: "\<forall>y\<in>set xs. \<not> lt (fst y) (fst x)"
    by (auto simp: mm_sorted_def)
  show ?case
  proof (cases "lt k (fst x)")
    case True
    have "\<not> lt (fst y) k" if "y \<in> set xs" for y
      using le that True trans[of "fst y" k "fst x"] by blast
    with True Cons.prems asym[OF True] show ?thesis by (auto simp: mm_sorted_def)
  next
    case False
    with IH le show ?thesis by (auto simp: mm_sorted_def set_mm_emplace)
  qed
qed (simp add: mm_sorted_def)

lemma om_sorted_imp_mm_sorted: "om_sorted lt xs \<Longrightarrow> mm_sorted lt xs"
  unfolding om_sorted_def mm_sorted_def by (erule sorted_wrt_mono_rel[rotated]) (rule asym)

lemma sorted_dropWhile_not_less:
  "om_sorted lt xs \<Longrightarrow> x \<in> set (dropWhile (\<lambda>y. lt (fst y) k) xs) \<Longrightarrow> \<not> lt (fst x) k"
  using trans by (induction xs) (auto simp: om_sorted_def split: if_splits)

lemma lower_bound_before:
  "om_sorted lt xs \<Longrightarrow> i < om_lower_bound lt k xs \<Longrightarrow> lt (fst (xs ! i)) k"
  unfolding om_lower_bound_def
  by (metis (no_types, lifting) nth_mem set_takeWhileD takeWhile_nth)

lemma lower_bound_after:
  assumes "om_sorted lt xs" and "om_lower_bound lt k xs \<le> i" and "i < length xs"
  shows "\<not> lt (fst (xs ! i)) k"
proof
  assume less: "lt (fst (xs ! i)) k"
  let ?n = "om_lower_bound lt k xs"
  have n: "?n < length xs" using assms by simp
  then have "\<not> lt (fst (xs ! ?n)) k"
    using nth_length_takeWhile[of "\<lambda>x. lt (fst x) k" xs] by (simp add: om_lower_bound_def)
  moreover have "?n = i \<or> lt (fst (xs ! ?n)) (fst (xs ! i))"
    using assms by (auto simp: om_sorted_def sorted_wrt_iff_nth_less order_le_less)
  ultimately show False using less trans by auto
qed

end

end
