(* ===== verification/Data_Structure.thy ===== *)
theory Data_Structure
  imports Ordered_Containers
begin

text \<open>
  The data model of HFetch: \<open>src/src/common/enumerations.h\<close>, \<open>constants.h\<close> and
  \<open>data_structure.h\<close>. Enumerations are datatypes, structs are records with one field per member.

  \<^item> A \<open>Layer*\<close> is represented by the chain of layers from the node it points to
    (\<open>layer_ptr\<close>): the head is the node, the tail is \<open>next\<close> and \<open>[]\<close> is \<open>nullptr\<close>. The static
    pointers \<open>Layer::FIRST\<close> and \<open>Layer::LAST\<close> are the whole chain and its last element.
  \<^item> \<open>CharStruct\<close> values are strings without NUL and shorter than \<open>MAX_STRING_LENGTH\<close>; the
    constructor that copies a longer string overruns its buffer and is \<open>Undefined\<close>.
  \<^item> \<open>double\<close> and \<open>float\<close> values are real numbers.
  \<^item> \<open>std::hash\<close> on \<open>std::string\<close> and \<open>size_t\<close>, whose values the standard leaves open, are
    arguments of the hash functions.
\<close>

unbundle bit_operations_syntax

section \<open>Enumerations and constants\<close>

datatype ServerStatus = SERVER_SUCCESS | SERVER_FAILED

datatype EventType = FILE_OPEN | FILE_CLOSE | FILE_READ | FILE_WRITE

datatype ScoreType = FREQUENCY_SCORE | LRF_SCORE

datatype EventSource = APPLICATION | HARDWARE

datatype DataPlacementEngineType = MAX_BW

datatype IOClientType = LOCAL_POSIX_FILE | SIMPLE_MEMORY | SHARED_POSIX_FILE

definition RPC_PORT :: nat where "RPC_PORT = 8080"
definition MAX_STRING_LENGTH :: nat where "MAX_STRING_LENGTH = 256"
definition MAX_PREFETCH_EVENTS :: nat where "MAX_PREFETCH_EVENTS = 1"
definition LAMDA_FOR_SCORE :: real where "LAMDA_FOR_SCORE = 1 / 2"
definition FILE_SEPARATOR :: string where "FILE_SEPARATOR = ''/''"
definition MB :: nat where "MB = 1024 * 1024"
definition DEFAULT_SCORE_TYPE :: ScoreType where "DEFAULT_SCORE_TYPE = LRF_SCORE"
definition SEGMENT_SIZE :: int where "SEGMENT_SIZE = 16 * 1024 * 1024"

section \<open>Fixed-size strings\<close>

definition CharStruct :: "string \<Rightarrow> string res" where
  "CharStruct data' =
     (let s = takeWhile (\<lambda>c. c \<noteq> CHR 0x00) data'
      in if length s < MAX_STRING_LENGTH then Inr s else Inl (Undefined BufferOverflow))"

section \<open>Segments\<close>

record Segment =
  seg_start :: int
  seg_end :: int

definition Segment_default :: Segment where
  "Segment_default = \<lparr>seg_start = 0, seg_end = 0\<rparr>"

definition Segment_less :: "Segment \<Rightarrow> Segment \<Rightarrow> bool" where
  "Segment_less this o' \<longleftrightarrow> seg_start o' > seg_start this"

definition Segment_GetSize :: "Segment \<Rightarrow> int" where
  "Segment_GetSize this = seg_end this - seg_start this + 1"

definition Segment_Contains :: "Segment \<Rightarrow> Segment \<Rightarrow> bool" where
  "Segment_Contains this o' \<longleftrightarrow>
     (seg_start this \<le> seg_start o' \<and> seg_end this \<ge> seg_end o') \<or>
     (seg_start this \<le> seg_end o' \<and> seg_end this \<ge> seg_end o')"

definition Segment_Substract :: "Segment \<Rightarrow> Segment \<Rightarrow> Segment list" where
  "Segment_Substract this o' =
     (let myinstance = this;
          (left_over, myinstance) =
            (if seg_start this < seg_start o' \<and> seg_end this \<ge> seg_end o'
             then ([myinstance\<lparr>seg_end := seg_start o' - 1\<rparr>],
                   myinstance\<lparr>seg_start := seg_start o'\<rparr>)
             else ([], myinstance))
      in if seg_start this \<le> seg_end o' \<and> seg_end this > seg_end o'
         then left_over @ [myinstance\<lparr>seg_start := seg_end o' + 1\<rparr>]
         else left_over)"

definition Segment_Intersect :: "Segment \<Rightarrow> Segment \<Rightarrow> Segment" where
  "Segment_Intersect this o' =
     \<lparr>seg_start = (if seg_start this < seg_start o' then seg_start o' else seg_start this),
      seg_end = (if seg_end this < seg_end o' then seg_end this else seg_end o')\<rparr>"

section \<open>Scores\<close>

record SegmentScore =
  frequency :: nat
  lrf :: real
  score_type :: ScoreType

definition SegmentScore_default :: SegmentScore where
  "SegmentScore_default = \<lparr>frequency = 0, lrf = 0, score_type = DEFAULT_SCORE_TYPE\<rparr>"

definition GetScore :: "SegmentScore \<Rightarrow> real" where
  "GetScore s = (case score_type s of FREQUENCY_SCORE \<Rightarrow> real (frequency s) | LRF_SCORE \<Rightarrow> lrf s)"

definition SegmentScore_less :: "SegmentScore \<Rightarrow> SegmentScore \<Rightarrow> bool" where
  "SegmentScore_less this o' \<longleftrightarrow> GetScore o' < GetScore this"

definition SegmentScore_eq :: "SegmentScore \<Rightarrow> SegmentScore \<Rightarrow> bool" where
  "SegmentScore_eq this o' \<longleftrightarrow> GetScore o' = GetScore this"

definition SegmentScore_Contains :: "SegmentScore \<Rightarrow> SegmentScore \<Rightarrow> bool" where
  "SegmentScore_Contains this o' \<longleftrightarrow> GetScore this = GetScore o'"

section \<open>Events\<close>

record Event =
  ev_filename :: string
  ev_segment :: Segment
  event_type :: EventType
  ev_source :: EventSource
  layer_index :: nat
  ev_time :: int

section \<open>Layers\<close>

record Layer =
  layer_id :: nat
  capacity_mb :: real
  layer_loc :: string
  bandwidth_mbps :: real
  direct_io :: "bool option"
  io_client_type :: IOClientType

type_synonym layer_ptr = "Layer list"

definition Layer_eq :: "Layer \<Rightarrow> Layer \<Rightarrow> bool" where
  "Layer_eq this o' \<longleftrightarrow> layer_id this = layer_id o'"

text \<open>The constructor \<open>Layer(uint8_t)\<close> walks the chain from \<open>Layer::FIRST\<close> and copies every
  member of the layer with that id except \<open>direct_io\<close>, which stays indeterminate. When no layer
  has the id, every member stays indeterminate.\<close>

fun Layer_of_id :: "layer_ptr \<Rightarrow> nat \<Rightarrow> Layer res" where
  "Layer_of_id [] i = Inl (Undefined Uninitialised)"
| "Layer_of_id (current # next') i =
     (if layer_id current = i then Inr (current\<lparr>direct_io := None\<rparr>) else Layer_of_id next' i)"

text \<open>Reading \<open>*Layer::LAST\<close> and \<open>layer->next\<close>.\<close>

definition Layer_LAST :: "layer_ptr \<Rightarrow> Layer res" where
  "Layer_LAST first = (if first = [] then Inl (Undefined NullPointer) else Inr (last first))"

text \<open>The \<open>next\<close> member of a copied \<open>Layer\<close> is the pointer stored in the node it was copied from.\<close>

fun Layer_next :: "layer_ptr \<Rightarrow> Layer \<Rightarrow> layer_ptr" where
  "Layer_next [] l = []"
| "Layer_next (current # next') l =
     (if layer_id current = layer_id l then next' else Layer_next next' l)"

section \<open>Files\<close>

record PosixFile =
  pf_filename :: string
  pf_segment :: Segment
  pf_layer :: Layer
  pf_data :: string

definition PosixFile_GetSize :: "PosixFile \<Rightarrow> int" where
  "PosixFile_GetSize f = Segment_GetSize (pf_segment f)"

section \<open>Hashes\<close>

definition hash_CharStruct :: "(string \<Rightarrow> nat) \<Rightarrow> string \<Rightarrow> nat" where
  "hash_CharStruct hash_string k = hash_string k"

definition hash_Segment :: "(nat \<Rightarrow> nat) \<Rightarrow> Segment \<Rightarrow> nat" where
  "hash_Segment hash_size_t k =
     hash_size_t (to_size_t (seg_start k)) XOR hash_size_t (to_size_t (seg_end k))"

section \<open>Lemmas on segments\<close>

definition seg_set :: "Segment \<Rightarrow> int set" where
  "seg_set s = {seg_start s .. seg_end s}"

definition seg_sets :: "Segment list \<Rightarrow> int set" where
  "seg_sets xs = (\<Union>s\<in>set xs. seg_set s)"

lemmas segment_defs =
  Segment_Contains_def Segment_Substract_def Segment_Intersect_def Segment_GetSize_def
  seg_set_def seg_sets_def

lemma seg_sets_simps [simp]:
  "seg_sets [] = {}"
  "seg_sets (x # xs) = seg_set x \<union> seg_sets xs"
  "seg_sets (xs @ ys) = seg_sets xs \<union> seg_sets ys"
  by (auto simp: seg_sets_def)

lemma seg_set_empty_iff: "seg_set s = {} \<longleftrightarrow> Segment_GetSize s \<le> 0"
  by (auto simp: seg_set_def Segment_GetSize_def)

lemma seg_set_Intersect: "seg_set (Segment_Intersect a b) = seg_set a \<inter> seg_set b"
  by (auto simp: segment_defs)

lemma card_seg_set: "int (card (seg_set s)) = max 0 (Segment_GetSize s)"
  by (simp add: segment_defs)

lemma Segment_Contains_iff:
  "Segment_GetSize o' > 0 \<Longrightarrow> Segment_Contains s o' \<longleftrightarrow> seg_end o' \<in> seg_set s"
  by (auto simp: segment_defs)

lemma Contains_overlap:
  "Segment_GetSize a > 0 \<Longrightarrow> Segment_GetSize b > 0 \<Longrightarrow> Segment_Contains a b \<Longrightarrow>
    seg_set a \<inter> seg_set b \<noteq> {}"
  by (fastforce simp: segment_defs)

text \<open>Two non-empty segments overlap exactly when one contains the end of the other.\<close>

lemma overlap_iff_Contains:
  "Segment_GetSize a > 0 \<Longrightarrow> Segment_GetSize b > 0 \<Longrightarrow>
    seg_set a \<inter> seg_set b \<noteq> {} \<longleftrightarrow> Segment_Contains a b \<or> Segment_Contains b a"
  by (fastforce simp: segment_defs)

lemma Substract_disjoint_from: "s \<in> set (Segment_Substract a b) \<Longrightarrow> seg_set s \<inter> seg_set b = {}"
  by (auto simp: segment_defs Let_def split: if_splits)

lemma Substract_subset: "s \<in> set (Segment_Substract a b) \<Longrightarrow>
    seg_set a \<inter> seg_set b \<noteq> {} \<Longrightarrow> seg_set s \<subseteq> seg_set a"
  by (auto simp: segment_defs Let_def split: if_splits)

lemma Substract_nonempty: "s \<in> set (Segment_Substract a b) \<Longrightarrow> Segment_GetSize s > 0"
  by (auto simp: segment_defs Let_def split: if_splits)

definition straddles_end :: "Segment \<Rightarrow> Segment \<Rightarrow> bool" where
  "straddles_end a b \<longleftrightarrow> seg_start a < seg_start b \<and> seg_end a < seg_end b"

lemma Substract_exact:
  "seg_set a \<inter> seg_set b \<noteq> {} \<Longrightarrow> \<not> straddles_end a b \<Longrightarrow>
    seg_sets (Segment_Substract a b) = seg_set a - seg_set b"
  by (auto simp: segment_defs straddles_end_def Let_def)

lemma Substract_loses:
  "seg_set a \<inter> seg_set b \<noteq> {} \<Longrightarrow> straddles_end a b \<Longrightarrow>
    Segment_Substract a b = [] \<and> seg_set a - seg_set b = {seg_start a ..< seg_start b}"
  by (auto simp: segment_defs straddles_end_def Let_def)

interpretation seg_order: strict_weak_order Segment_less
  by unfold_locales (auto simp: Segment_less_def)

interpretation score_order: strict_weak_order SegmentScore_less
  by unfold_locales (auto simp: SegmentScore_less_def)

interpretation greater_order: strict_weak_order "(>) :: real \<Rightarrow> real \<Rightarrow> bool"
  by unfold_locales auto

section \<open>Lemmas on layers\<close>

text \<open>A chain as \<open>BuildLayers\<close> makes it: distinct ids.\<close>

definition layers_wf :: "layer_ptr \<Rightarrow> bool" where
  "layers_wf ls \<longleftrightarrow> ls \<noteq> [] \<and> distinct (map layer_id ls)"

lemma CharStruct_fits:
  "CHR 0x00 \<notin> set s \<Longrightarrow> length s < MAX_STRING_LENGTH \<Longrightarrow> CharStruct s = Inr s"
proof -
  assume "CHR 0x00 \<notin> set s" and len: "length s < MAX_STRING_LENGTH"
  then have all: "takeWhile (\<lambda>c. c \<noteq> CHR 0x00) s = s"
    by (auto simp: takeWhile_eq_all_conv)
  show ?thesis unfolding CharStruct_def Let_def all using len by simp
qed

lemma Layer_of_id_mem:
  "distinct (map layer_id ls) \<Longrightarrow> l \<in> set ls \<Longrightarrow> Layer_of_id ls (layer_id l) = Inr (l\<lparr>direct_io := None\<rparr>)"
  by (induction ls) (auto simp: image_iff)

lemma Layer_of_id_LAST:
  "layers_wf ls \<Longrightarrow> Layer_of_id ls (layer_id (last ls)) = Inr ((last ls)\<lparr>direct_io := None\<rparr>)"
  by (simp add: layers_wf_def Layer_of_id_mem)

lemma Layer_of_id_id: "Layer_of_id ls i = Inr l \<Longrightarrow> layer_id l = i"
  by (induction ls) (auto split: if_splits)

lemma Layer_of_id_total_iff: "(\<exists>l. Layer_of_id ls i = Inr l) \<longleftrightarrow> i \<in> layer_id ` set ls"
  by (induction ls) auto

section \<open>Properties\<close>



end
