(* ===== verification/Rpc_Lib.thy ===== *)
theory Rpc_Lib
  imports Data_Structure
begin

text \<open>
  The RPC layer: \<open>src/src/common/distributed_ds/communication/rpc_lib.h\<close> on top of the dispatcher
  of rpclib (\<open>src/external/rpclib/lib/rpc/dispatcher.cc\<close>, \<open>include/rpc/dispatcher.inl\<close>).

  A dispatcher is its table \<open>funcs_\<close> from names to the number of arguments of the bound functor;
  the functor itself is passed to \<open>dispatch_call\<close> as the outcome it would produce, so that one
  definition serves handlers of every type. Every server runs the same constructors, so one table
  stands for all of them. The transport is reliable: a call reaches the server it names, or fails
  with the exception the client raises.
\<close>

section \<open>The dispatcher\<close>

type_synonym registry = "(string \<times> nat) list"

definition enforce_arg_count :: "string \<Rightarrow> nat \<Rightarrow> nat \<Rightarrow> unit res" where
  "enforce_arg_count func found expected =
     (if found \<noteq> expected then Inl (Rpc (WrongArity func found expected)) else Inr ())"

definition enforce_unique_name :: "string \<Rightarrow> registry \<Rightarrow> unit res" where
  "enforce_unique_name func funcs =
     (if um_find func funcs \<noteq> None then Inl (Rpc (NameAlreadyBound func)) else Inr ())"

definition dispatcher_bind :: "string \<Rightarrow> nat \<Rightarrow> registry \<Rightarrow> registry res" where
  "dispatcher_bind name args_count funcs =
     rbind (enforce_unique_name name funcs) (\<lambda>_. Inr (um_insert name args_count funcs))"

definition dispatch_call :: "registry \<Rightarrow> string \<Rightarrow> nat \<Rightarrow> 'r res \<Rightarrow> 'r res" where
  "dispatch_call funcs name args_size handler =
     (case um_find name funcs of
        None \<Rightarrow> Inl (Rpc (NoSuchFunction name args_size))
      | Some args_count \<Rightarrow> rbind (enforce_arg_count name args_count args_size) (\<lambda>_. handler))"

section \<open>The RPC object\<close>

text \<open>\<open>RPC::bind\<close> hands a function to the dispatcher; a constructor binds a list of them.\<close>

definition RPC_bind :: "string \<Rightarrow> nat \<Rightarrow> registry \<Rightarrow> registry res" where
  "RPC_bind str args_count funcs = dispatcher_bind str args_count funcs"

definition RPC_bind_all :: "(string \<times> nat) list \<Rightarrow> registry \<Rightarrow> registry res" where
  "RPC_bind_all bs = rfold (\<lambda>(name, n). RPC_bind name n) bs"

text \<open>\<open>RPC::call\<close> connects to \<open>server_list->at(server_index)\<close>, which throws when the index is
  outside the list, and returns what the remote dispatcher answers.\<close>

definition RPC_call :: "nat \<Rightarrow> registry \<Rightarrow> nat \<Rightarrow> string \<Rightarrow> nat \<Rightarrow> 'r res \<Rightarrow> 'r res" where
  "RPC_call server_list_size funcs server_index func_name nargs handler =
     (if server_index < server_list_size
      then dispatch_call funcs func_name nargs handler
      else Inl (Rpc (BadServerIndex server_index)))"

text \<open>The port a client connects to: \<open>server_port + server_index\<close> narrowed to \<open>int16_t\<close> and read
  back as the \<open>uint16_t\<close> the client expects.\<close>

definition RPC_client_port :: "nat \<Rightarrow> nat" where
  "RPC_client_port server_index = to_uint16 (RPC_PORT + server_index)"

definition RPC_server_port :: "nat \<Rightarrow> nat" where
  "RPC_server_port my_server = to_uint16 (RPC_PORT + my_server)"

text \<open>
  The pattern of every distributed operation: run the body on this server when it owns the data,
  otherwise call the same method, bound under \<open>name\<close>, on the owner. The remote handler takes the
  same decision again with its own \<open>my_server\<close>.
\<close>

function at_server ::
  "nat \<Rightarrow> registry \<Rightarrow> string \<Rightarrow> nat \<Rightarrow> nat \<Rightarrow> nat \<Rightarrow> (nat \<Rightarrow> 'r res) \<Rightarrow> 'r res" where
  "at_server nsrv funcs name nargs key_int my_server body =
     (if key_int = my_server then body my_server
      else RPC_call nsrv funcs key_int name nargs
             (at_server nsrv funcs name nargs key_int key_int body))"
  by pat_completeness auto
termination
  by (relation "measure (\<lambda>(nsrv, funcs, name, nargs, k, me, body). if k = me then 0 else 1)") auto

declare at_server.simps [simp del]

lemma at_server_local: "at_server nsrv funcs name nargs me me body = body me"
  by (simp add: at_server.simps)

lemma at_server_remote:
  "k \<noteq> me \<Longrightarrow> at_server nsrv funcs name nargs k me body =
     RPC_call nsrv funcs k name nargs (body k)"
  by (subst at_server.simps) (simp add: at_server_local)

text \<open>A call whose name is bound with the right number of arguments always reaches the owner.\<close>

lemma at_server_bound:
  assumes "k < nsrv" and "um_find name funcs = Some nargs"
  shows "at_server nsrv funcs name nargs k me body = body k"
  using assms
  by (cases "k = me")
    (simp_all add: at_server_local at_server_remote RPC_call_def dispatch_call_def enforce_arg_count_def)

lemma at_server_unbound:
  assumes "k < nsrv" and "k \<noteq> me" and "um_find name funcs = None"
  shows "at_server nsrv funcs name nargs k me body = Inl (Rpc (NoSuchFunction name nargs))"
  using assms by (simp add: at_server_remote RPC_call_def dispatch_call_def)

lemma at_server_wrong_arity:
  assumes "k < nsrv" and "k \<noteq> me" and "um_find name funcs = Some n" and "n \<noteq> nargs"
  shows "at_server nsrv funcs name nargs k me body = Inl (Rpc (WrongArity name n nargs))"
  using assms by (simp add: at_server_remote RPC_call_def dispatch_call_def enforce_arg_count_def)

lemma RPC_bind_all_fresh:
  "RPC_bind_all bs funcs = Inr funcs' \<Longrightarrow> um_find k funcs \<noteq> None \<Longrightarrow> map_of bs k = None"
proof (induction bs arbitrary: funcs)
  case (Cons b bs)
  obtain nm n where b: "b = (nm, n)" by force
  from Cons.prems(1) b have "RPC_bind_all bs (um_insert nm n funcs) = Inr funcs'"
    and "um_find nm funcs = None"
    by (auto simp: RPC_bind_all_def RPC_bind_def dispatcher_bind_def enforce_unique_name_def
        split: if_splits)
  with Cons.IH[of "um_insert nm n funcs"] Cons.prems(2) b show ?case
    by (auto simp: um_find_insert)
qed simp

lemma RPC_bind_all_find:
  "RPC_bind_all bs funcs = Inr funcs' \<Longrightarrow>
    um_find k funcs' = (case map_of bs k of Some n \<Rightarrow> Some n | None \<Rightarrow> um_find k funcs)"
proof (induction bs arbitrary: funcs)
  case Nil
  then show ?case by (simp add: RPC_bind_all_def)
next
  case (Cons b bs)
  obtain nm n where b: "b = (nm, n)" by force
  from Cons.prems b have rest: "RPC_bind_all bs (um_insert nm n funcs) = Inr funcs'"
    and new: "um_find nm funcs = None"
    by (auto simp: RPC_bind_all_def RPC_bind_def dispatcher_bind_def enforce_unique_name_def
        split: if_splits)
  have "map_of bs nm = None"
    by (rule RPC_bind_all_fresh[OF rest]) (simp add: um_find_insert new)
  with Cons.IH[OF rest] new b show ?case
    by (auto simp: um_find_insert split: option.splits)
qed

lemma RPC_bind_all_ok:
  "distinct (map fst bs) \<Longrightarrow> (\<forall>b\<in>set bs. um_find (fst b) funcs = None) \<Longrightarrow>
    \<exists>funcs'. RPC_bind_all bs funcs = Inr funcs'"
proof (induction bs arbitrary: funcs)
  case Nil
  then show ?case by (simp add: RPC_bind_all_def)
next
  case (Cons b bs)
  obtain nm n where b: "b = (nm, n)" by force
  have "\<forall>b'\<in>set bs. um_find (fst b') (um_insert nm n funcs) = None"
    using Cons.prems b by (force simp: um_find_insert)
  with Cons.IH[of "um_insert nm n funcs"] Cons.prems b show ?case
    by (auto simp: RPC_bind_all_def RPC_bind_def dispatcher_bind_def enforce_unique_name_def)
qed

text \<open>What every distributed object is constructed with: the number of servers, the prefix of the
  names it binds, and the RPC object (the size of its server list and the dispatcher table).\<close>

record rpc_obj =
  num_servers :: nat
  func_prefix :: string
  rpc_size :: nat
  rpc_funcs :: registry

definition bound_in :: "(string \<Rightarrow> registry) \<Rightarrow> 'a rpc_obj_scheme \<Rightarrow> bool" where
  "bound_in bindings d \<longleftrightarrow> (\<forall>b\<in>set (bindings (func_prefix d)). um_find (fst b) (rpc_funcs d) = Some (snd b))"

section \<open>The server list\<close>

text \<open>
  The constructor of \<open>RPC\<close> gathers the host names of the servers at the first one into one
  buffer, separated by commas, broadcasts it and splits it. \<open>MPI_Gatherv\<close> writes the name of
  rank \<open>i\<close> at displacement \<open>displs[i]\<close>.
\<close>

fun displs_from :: "nat \<Rightarrow> nat list \<Rightarrow> nat list" where
  "displs_from d [] = []"
| "displs_from d (c # cs) = d # displs_from (d + c + 1) cs"

definition total_len :: "nat list \<Rightarrow> nat" where
  "total_len recvcounts = sum_list (map (\<lambda>c. c + 1) recvcounts)"

definition buf_write :: "string \<Rightarrow> nat \<Rightarrow> string \<Rightarrow> string" where
  "buf_write buf off s = take off buf @ s @ drop (off + length s) buf"

fun MPI_Gatherv :: "string list \<Rightarrow> nat list \<Rightarrow> string \<Rightarrow> string" where
  "MPI_Gatherv (s # ss) (d # ds) buf = MPI_Gatherv ss ds (buf_write buf d s)"
| "MPI_Gatherv _ _ buf = buf"

definition RPC_gather_names :: "string list \<Rightarrow> string" where
  "RPC_gather_names processor_names =
     (let recvcounts = map length processor_names;
          n = total_len recvcounts;
          totalstring = replicate (n - 1) CHR '','' @ [CHR 0x00]
      in MPI_Gatherv processor_names (displs_from 0 recvcounts) totalstring)"

fun split_on :: "char \<Rightarrow> string \<Rightarrow> string list" where
  "split_on c [] = [[]]"
| "split_on c (x # xs) =
     (if x = c then [] # split_on c xs
      else (case split_on c xs of [] \<Rightarrow> [[x]] | t # ts \<Rightarrow> (x # t) # ts))"

definition RPC_server_list :: "string list \<Rightarrow> string list res" where
  "RPC_server_list processor_names =
     (let final_server_list = takeWhile (\<lambda>c. c \<noteq> CHR 0x00) (RPC_gather_names processor_names)
      in rfold (\<lambda>element server_list. rbind (CharStruct element) (\<lambda>cs. Inr (server_list @ [cs])))
           (split_on CHR '','' final_server_list) [])"

fun join_commas :: "string list \<Rightarrow> string" where
  "join_commas [] = []"
| "join_commas [s] = s"
| "join_commas (s # t # ss) = s @ CHR '','' # join_commas (t # ss)"

lemma split_on_nonempty: "split_on c xs \<noteq> []"
  by (induction xs) (auto split: list.splits)

lemma split_on_plain: "c \<notin> set s \<Longrightarrow> split_on c s = [s]"
  by (induction s) auto

lemma split_on_append: "c \<notin> set s \<Longrightarrow> split_on c (s @ c # t) = s # split_on c t"
  by (induction s) auto

lemma split_join_commas:
  "ss \<noteq> [] \<Longrightarrow> (\<forall>s\<in>set ss. CHR '','' \<notin> set s) \<Longrightarrow> split_on CHR '','' (join_commas ss) = ss"
  by (induction ss rule: join_commas.induct) (auto simp: split_on_plain split_on_append)

lemma gather_tail:
  "MPI_Gatherv ss (displs_from (length pre) (map length ss))
      (pre @ replicate (total_len (map length ss) - 1) CHR '','' @ [CHR 0x00]) =
   pre @ join_commas ss @ [CHR 0x00]" if "ss \<noteq> []" for ss
  using that
proof (induction ss arbitrary: pre rule: join_commas.induct)
  case (2 s)
  then show ?case by (simp add: buf_write_def total_len_def)
next
  case (3 s t ss)
  let ?k = "total_len (map length (t # ss))"
  have pos: "total_len (map length (s # t # ss)) - 1 = length s + 1 + (?k - 1)"
    by (simp add: total_len_def)
  have rep: "replicate (length s + 1 + m) CHR '','' =
      replicate (length s) CHR '','' @ CHR '','' # replicate m CHR '',''" for m
    by (simp add: replicate_add replicate_app_Cons_same)
  have buf: "buf_write (pre @ replicate (length s + 1 + (?k - 1)) CHR '','' @ [CHR 0x00])
      (length pre) s = (pre @ s @ [CHR '','']) @ replicate (?k - 1) CHR '','' @ [CHR 0x00]"
    by (simp only: rep buf_write_def) simp
  have "displs_from (length pre) (map length (s # t # ss)) =
      length pre # displs_from (length (pre @ s @ [CHR '',''])) (map length (t # ss))" by simp
  with "3.IH"[of "pre @ s @ [CHR '','']"] pos buf show ?case by simp
qed simp

lemma RPC_gather_names_join:
  "ss \<noteq> [] \<Longrightarrow> RPC_gather_names ss = join_commas ss @ [CHR 0x00]"
  using gather_tail[of ss "[]"] by (simp add: RPC_gather_names_def Let_def)

lemma set_join_commas: "set (join_commas ss) \<subseteq> insert CHR '','' (\<Union>s\<in>set ss. set s)"
  by (induction ss rule: join_commas.induct) auto

definition host_names_ok :: "string list \<Rightarrow> bool" where
  "host_names_ok ss \<longleftrightarrow> ss \<noteq> [] \<and>
     (\<forall>s\<in>set ss. CHR '','' \<notin> set s \<and> CHR 0x00 \<notin> set s \<and> length s < MAX_STRING_LENGTH)"

lemma push_all_CharStruct:
  "(\<forall>s\<in>set ss. CHR 0x00 \<notin> set s \<and> length s < MAX_STRING_LENGTH) \<Longrightarrow>
    rfold (\<lambda>element acc. rbind (CharStruct element) (\<lambda>cs. Inr (acc @ [cs]))) ss acc = Inr (acc @ ss)"
  by (induction ss arbitrary: acc) (auto simp: CharStruct_fits)

section \<open>Properties\<close>

text \<open>The server list every process builds from the gathered and broadcast host names is the
  list of host names in rank order, for host names without commas that fit a CharStruct.\<close>

theorem RPC_server_list_roundtrip:
  assumes "host_names_ok names"
  shows "RPC_server_list names = Inr names"
proof -
  have ne: "names \<noteq> []" using assms by (simp add: host_names_ok_def)
  have "CHR 0x00 \<notin> set (join_commas names)"
    using assms set_join_commas[of names] by (auto simp: host_names_ok_def)
  then have "takeWhile (\<lambda>c. c \<noteq> CHR 0x00) (RPC_gather_names names) = join_commas names"
    by (subst RPC_gather_names_join[OF ne], subst takeWhile_append2) auto
  then show ?thesis
    using assms by (simp add: RPC_server_list_def host_names_ok_def split_join_commas push_all_CharStruct)
qed

theorem RPC_server_list_roundtrip_witness:
  "RPC_server_list [''node1'', ''node2''] = Inr [''node1'', ''node2'']"
  by (rule RPC_server_list_roundtrip) (simp add: host_names_ok_def MAX_STRING_LENGTH_def)

end
