(* ===== verification/Distributed_HashMap.thy ===== *)
theory Distributed_HashMap
  imports Rpc_Lib
begin

text \<open>
  \<open>src/src/common/distributed_ds/hashmap/DistributedHashMap.h\<close>: a hash map partitioned over the
  servers by key hash. The state is the family of the maps in the shared memory of each server,
  \<open>nat \<Rightarrow> ('k \<times> 'v) list\<close>; \<open>my_server\<close>, the server a call is made on, is an argument of each
  operation. The record \<open>dist\<close> holds what every distributed container is constructed with; its
  operations run under the mutex of the owner's shared memory, so each is one atomic step.

  The locale \<open>kv_store\<close> is the contract the clients rely on (the file segment auditor, the memory
  client, the library's metadata manager): after a put, a get returns the value put last, and other
  keys are not touched.
\<close>

section \<open>Routing\<close>

record 'k dist = rpc_obj +
  keyHash :: "'k \<Rightarrow> nat"

definition key_int :: "'k dist \<Rightarrow> 'k \<Rightarrow> nat res" where
  "key_int d key =
     (if num_servers d = 0 then Inl (Undefined DivisionByZero)
      else Inr (to_uint16 (keyHash d key mod num_servers d)))"

definition owner :: "'k dist \<Rightarrow> 'k \<Rightarrow> nat" where
  "owner d key = to_uint16 (keyHash d key mod num_servers d)"

definition dist_wf :: "(string \<Rightarrow> registry) \<Rightarrow> 'k dist \<Rightarrow> bool" where
  "dist_wf bindings d \<longleftrightarrow> 0 < num_servers d \<and> num_servers d \<le> rpc_size d \<and> bound_in bindings d"

lemma key_int_owner: "dist_wf b d \<Longrightarrow> key_int d k = Inr (owner d k)"
  by (simp add: dist_wf_def key_int_def owner_def)

lemma owner_less: "dist_wf b d \<Longrightarrow> owner d k < num_servers d"
  unfolding dist_wf_def owner_def to_uint16_def
  by (meson mod_less_divisor mod_less_eq_dividend order_le_less_trans)

lemma at_owner:
  assumes "dist_wf bs d" and "(func_prefix d @ nm, n) \<in> set (bs (func_prefix d))"
  shows "at_server (rpc_size d) (rpc_funcs d) (func_prefix d @ nm) n (owner d k) me body =
    body (owner d k)"
proof (rule at_server_bound)
  show "owner d k < rpc_size d"
    using owner_less[OF assms(1), of k] assms(1) by (simp add: dist_wf_def)
  show "um_find (func_prefix d @ nm) (rpc_funcs d) = Some n"
    using assms by (fastforce simp: dist_wf_def bound_in_def)
qed

section \<open>Operations\<close>

type_synonym ('k, 'v) hash_store = "nat \<Rightarrow> ('k \<times> 'v) list"

definition DHM_bindings :: "string \<Rightarrow> registry" where
  "DHM_bindings p = [(p @ ''_Put'', 2), (p @ ''_Get'', 1), (p @ ''_Erase'', 1), (p @ ''_GetAllData'', 0)]"

definition DHM_init :: "('k, 'v) hash_store" where
  "DHM_init = (\<lambda>_. [])"

definition DHM_Put_local :: "'k \<Rightarrow> 'v \<Rightarrow> ('k \<times> 'v) list \<Rightarrow> ('k \<times> 'v) list" where
  "DHM_Put_local key data m =
     um_insert key data (if um_find key m \<noteq> None then um_erase key m else m)"

definition DHM_Put ::
  "'k dist \<Rightarrow> nat \<Rightarrow> 'k \<Rightarrow> 'v \<Rightarrow> ('k, 'v) hash_store \<Rightarrow> (bool \<times> ('k, 'v) hash_store) res" where
  "DHM_Put d my_server key data st =
     rbind (key_int d key) (\<lambda>i.
       at_server (rpc_size d) (rpc_funcs d) (func_prefix d @ ''_Put'') 2 i my_server
         (\<lambda>s. Inr (True, st(s := DHM_Put_local key data (st s)))))"

definition DHM_Get :: "'k dist \<Rightarrow> nat \<Rightarrow> 'k \<Rightarrow> ('k, 'v) hash_store \<Rightarrow> 'v option res" where
  "DHM_Get d my_server key st =
     rbind (key_int d key) (\<lambda>i.
       at_server (rpc_size d) (rpc_funcs d) (func_prefix d @ ''_Get'') 1 i my_server
         (\<lambda>s. Inr (um_find key (st s))))"

definition DHM_Erase ::
  "'k dist \<Rightarrow> nat \<Rightarrow> 'k \<Rightarrow> ('k, 'v) hash_store \<Rightarrow> (bool \<times> ('k, 'v) hash_store) res" where
  "DHM_Erase d my_server key st =
     rbind (key_int d key) (\<lambda>i.
       at_server (rpc_size d) (rpc_funcs d) (func_prefix d @ ''_Erase'') 1 i my_server
         (\<lambda>s. Inr (um_find key (st s) \<noteq> None, st(s := um_erase key (st s)))))"

definition DHM_GetAllDataInServer :: "nat \<Rightarrow> ('k, 'v) hash_store \<Rightarrow> ('k \<times> 'v) list" where
  "DHM_GetAllDataInServer my_server st = st my_server"

definition DHM_GetAllData :: "'k dist \<Rightarrow> nat \<Rightarrow> ('k, 'v) hash_store \<Rightarrow> ('k \<times> 'v) list res" where
  "DHM_GetAllData d my_server st =
     rfold (\<lambda>i final_values.
         if i \<noteq> my_server
         then rbind (RPC_call (rpc_size d) (rpc_funcs d) i (func_prefix d @ ''_GetAllData'') 0
                       (Inr (DHM_GetAllDataInServer i st)))
                (\<lambda>server. Inr (final_values @ server))
         else Inr final_values)
       [0..<num_servers d] (DHM_GetAllDataInServer my_server st)"

section \<open>The contract of a key/value store\<close>

locale kv_store =
  fixes invar :: "'s \<Rightarrow> bool"
    and lookup :: "'s \<Rightarrow> 'k \<Rightarrow> 'v option"
    and put :: "'k \<Rightarrow> 'v \<Rightarrow> 's \<Rightarrow> (bool \<times> 's) res"
    and get :: "'k \<Rightarrow> 's \<Rightarrow> 'v option res"
    and erase :: "'k \<Rightarrow> 's \<Rightarrow> (bool \<times> 's) res"
  assumes get_lookup: "invar s \<Longrightarrow> get k s = Inr (lookup s k)"
    and put_ok: "invar s \<Longrightarrow> \<exists>s'. put k v s = Inr (True, s') \<and> invar s' \<and> lookup s' = (lookup s)(k \<mapsto> v)"
    and erase_ok: "invar s \<Longrightarrow> \<exists>s'. erase k s = Inr (lookup s k \<noteq> None, s') \<and> invar s' \<and>
      lookup s' = (lookup s)(k := None)"
begin

lemma putE:
  assumes "invar s" and "put k v s = Inr (b, s')"
  shows "b" and "invar s'" and "lookup s' = (lookup s)(k \<mapsto> v)"
  using put_ok[OF assms(1), of k v] assms(2) by auto

lemma eraseE:
  assumes "invar s" and "erase k s = Inr (b, s')"
  shows "b \<longleftrightarrow> lookup s k \<noteq> None" and "invar s'" and "lookup s' = (lookup s)(k := None)"
  using erase_ok[OF assms(1), of k] assms(2) by auto

lemma get_after_put:
  assumes "invar s" and "put k v s = Inr (b, s')"
  shows "get k' s' = (if k' = k then Inr (Some v) else get k' s)"
  using putE[OF assms] assms(1) by (simp add: get_lookup)

lemma get_after_erase:
  assumes "invar s" and "erase k s = Inr (b, s')"
  shows "get k' s' = (if k' = k then Inr None else get k' s)"
  using eraseE[OF assms] assms(1) by (simp add: get_lookup)

text \<open>A run of puts succeeds and leaves the last value put under each key.\<close>

lemma put_run:
  assumes "invar s"
  shows "\<exists>s'. rfold (\<lambda>(k, v) s. rbind (put k v s) (\<lambda>r. Inr (snd r))) kvs s = Inr s' \<and> invar s' \<and>
    lookup s' = lookup s ++ map_of (rev kvs)"
  using assms
proof (induction kvs arbitrary: s)
  case Nil
  then show ?case by simp
next
  case (Cons kv kvs)
  obtain k v where kv: "kv = (k, v)" by force
  obtain s1 where s1: "put k v s = Inr (True, s1)" "invar s1" "lookup s1 = (lookup s)(k \<mapsto> v)"
    using put_ok[OF Cons.prems] by blast
  obtain s2 where "rfold (\<lambda>(k, v) s. rbind (put k v s) (\<lambda>r. Inr (snd r))) kvs s1 = Inr s2"
    and "invar s2" and "lookup s2 = lookup s1 ++ map_of (rev kvs)"
    using Cons.IH[OF s1(2)] by blast
  with s1 kv show ?case
    by (auto simp: map_add_def fun_eq_iff split: option.splits)
qed

end

section \<open>The hash map is a key/value store\<close>

definition dhm_invar :: "'k dist \<Rightarrow> ('k, 'v) hash_store \<Rightarrow> bool" where
  "dhm_invar d st \<longleftrightarrow> dist_wf DHM_bindings d \<and>
     (\<forall>s. distinct (map fst (st s)) \<and> (\<forall>x\<in>set (st s). owner d (fst x) = s))"

definition dhm_lookup :: "'k dist \<Rightarrow> ('k, 'v) hash_store \<Rightarrow> 'k \<Rightarrow> 'v option" where
  "dhm_lookup d st k = um_find k (st (owner d k))"

lemma dhm_invar_wf: "dhm_invar d st \<Longrightarrow> dist_wf DHM_bindings d"
  by (simp add: dhm_invar_def)

lemma dhm_invar_init: "dist_wf DHM_bindings d \<Longrightarrow> dhm_invar d DHM_init"
  by (simp add: dhm_invar_def DHM_init_def)

lemma dhm_lookup_init [simp]: "dhm_lookup d DHM_init = Map.empty"
  by (simp add: fun_eq_iff dhm_lookup_def DHM_init_def um_find_def)

lemma um_find_Put_local:
  "um_find k' (DHM_Put_local k v m) = (if k' = k then Some v else um_find k' m)"
  by (auto simp: DHM_Put_local_def um_find_insert um_find_erase)

lemma DHM_Put_run:
  "dist_wf DHM_bindings d \<Longrightarrow> DHM_Put d me k v st =
    Inr (True, st(owner d k := DHM_Put_local k v (st (owner d k))))"
  by (simp add: DHM_Put_def key_int_owner at_owner DHM_bindings_def)

lemma DHM_Get_run: "dist_wf DHM_bindings d \<Longrightarrow> DHM_Get d me k st = Inr (dhm_lookup d st k)"
  by (simp add: DHM_Get_def key_int_owner at_owner DHM_bindings_def dhm_lookup_def)

lemma DHM_Erase_run:
  "dist_wf DHM_bindings d \<Longrightarrow> DHM_Erase d me k st =
    Inr (dhm_lookup d st k \<noteq> None, st(owner d k := um_erase k (st (owner d k))))"
  by (simp add: DHM_Erase_def key_int_owner at_owner DHM_bindings_def dhm_lookup_def)

lemma dhm_invar_upd:
  assumes "dhm_invar d st" and "distinct (map fst m)" and "fst ` set m \<subseteq> insert k (fst ` set (st (owner d k)))"
  shows "dhm_invar d (st(owner d k := m))"
proof -
  have "owner d (fst x) = owner d k" if "x \<in> set m" for x
  proof -
    have "fst x \<in> insert k (fst ` set (st (owner d k)))" using that assms(3) by blast
    then show ?thesis using assms(1) by (fastforce simp: dhm_invar_def)
  qed
  with assms(1,2) show ?thesis by (simp add: dhm_invar_def)
qed

lemma dhm_invar_Put_local:
  assumes "dhm_invar d st"
  shows "dhm_invar d (st(owner d k := DHM_Put_local k v (st (owner d k))))"
proof (rule dhm_invar_upd[OF assms])
  have "distinct (map fst (st (owner d k)))" using assms by (simp add: dhm_invar_def)
  then show "distinct (map fst (DHM_Put_local k v (st (owner d k))))"
    by (simp add: DHM_Put_local_def distinct_um_insert distinct_um_erase)
qed (auto simp: DHM_Put_local_def keys_um_insert um_erase_def)

lemma dhm_lookup_Put_local:
  "dhm_lookup d (st(owner d k := DHM_Put_local k v (st (owner d k)))) = (dhm_lookup d st)(k \<mapsto> v)"
  by (auto simp: dhm_lookup_def um_find_Put_local)

interpretation dhm: kv_store "dhm_invar d" "dhm_lookup d" "DHM_Put d me" "DHM_Get d me" "DHM_Erase d me"
  for d me
proof unfold_locales
  fix k :: 'a and v :: 'b and s :: "('a, 'b) hash_store"
  assume inv: "dhm_invar d s"
  note wf = dhm_invar_wf[OF inv]
  show "DHM_Get d me k s = Inr (dhm_lookup d s k)"
    by (rule DHM_Get_run[OF wf])
  show "\<exists>s'. DHM_Put d me k v s = Inr (True, s') \<and> dhm_invar d s' \<and>
      dhm_lookup d s' = (dhm_lookup d s)(k \<mapsto> v)"
    using inv by (simp add: DHM_Put_run[OF wf] dhm_invar_Put_local dhm_lookup_Put_local)
  have "dhm_invar d (s(owner d k := um_erase k (s (owner d k))))"
    using inv by (auto simp: dhm_invar_def distinct_um_erase um_erase_def distinct_map_filter)
  moreover have "dhm_lookup d (s(owner d k := um_erase k (s (owner d k)))) = (dhm_lookup d s)(k := None)"
    by (auto simp: dhm_lookup_def um_find_erase)
  ultimately show "\<exists>s'. DHM_Erase d me k s = Inr (dhm_lookup d s k \<noteq> None, s') \<and> dhm_invar d s' \<and>
      dhm_lookup d s' = (dhm_lookup d s)(k := None)"
    by (simp add: DHM_Erase_run[OF wf])
qed

section \<open>Collecting all entries\<close>

lemma GetAllData_loop:
  assumes "\<forall>i\<in>set is. i < rpc_size d" and "um_find nm (rpc_funcs d) = Some 0"
  shows "rfold (\<lambda>i acc. if i \<noteq> me
       then rbind (RPC_call (rpc_size d) (rpc_funcs d) i nm 0 (Inr (f i))) (\<lambda>server. Inr (acc @ server))
       else Inr acc) is acc =
     Inr (acc @ concat (map f (filter (\<lambda>i. i \<noteq> me) is)))"
  using assms
  by (induction "is" arbitrary: acc)
    (auto simp: RPC_call_def dispatch_call_def enforce_arg_count_def)

lemma DHM_GetAllData_run:
  "dist_wf DHM_bindings d \<Longrightarrow> DHM_GetAllData d me st =
    Inr (st me @ concat (map st (filter (\<lambda>i. i \<noteq> me) [0..<num_servers d])))"
  unfolding DHM_GetAllData_def DHM_GetAllDataInServer_def
  by (subst GetAllData_loop) (auto simp: dist_wf_def bound_in_def DHM_bindings_def)

text \<open>Concatenating the per-server lists in any order of distinct servers.\<close>

lemma map_of_concat_owner:
  assumes "dhm_invar d st" and "distinct is" and "owner d k \<in> set is"
  shows "map_of (concat (map st is)) k = dhm_lookup d st k"
  using assms(2,3)
proof (induction "is")
  case (Cons i js)
  show ?case
  proof (cases "i = owner d k")
    case True
    have "map_of (concat (map st js)) k = None"
      unfolding map_of_eq_None_iff
    proof
      assume "k \<in> fst ` set (concat (map st js))"
      then obtain j where "j \<in> set js" "k \<in> fst ` set (st j)" by auto
      then have "owner d k = j" using assms(1) by (auto simp: dhm_invar_def)
      with True Cons.prems \<open>j \<in> set js\<close> show False by simp
    qed
    with True show ?thesis
      by (auto simp: map_add_def dhm_lookup_def um_find_def split: option.splits)
  next
    case False
    then have "map_of (st i) k = None"
      using assms(1) by (auto simp: dhm_invar_def map_of_eq_None_iff)
    with False Cons show ?thesis by (auto simp: map_add_def split: option.splits)
  qed
qed simp

lemma distinct_concat_owner:
  assumes "dhm_invar d st" and "distinct is"
  shows "distinct (map fst (concat (map st is)))"
  using assms(2)
proof (induction "is")
  case (Cons i js)
  have "owner d (fst x) = j" if "x \<in> set (st j)" for x j
    using that assms(1) by (auto simp: dhm_invar_def)
  then have "\<forall>x\<in>set (st i). \<forall>j\<in>set js. \<forall>y\<in>set (st j). fst x \<noteq> fst y"
    using Cons.prems by (metis distinct.simps(2))
  then have "fst ` set (st i) \<inter> fst ` set (concat (map st js)) = {}"
    by (auto simp del: split_paired_All)
  moreover have "distinct (map fst (st i))" using assms(1) by (simp add: dhm_invar_def)
  ultimately show ?case using Cons by auto
qed simp

lemma DHM_all_data:
  assumes "dhm_invar d st" and "me < num_servers d"
  shows "\<exists>xs. DHM_GetAllData d me st = Inr xs \<and> distinct (map fst xs) \<and> map_of xs = dhm_lookup d st"
proof -
  let ?is = "me # filter (\<lambda>i. i \<noteq> me) [0..<num_servers d]"
  have "DHM_GetAllData d me st = Inr (concat (map st ?is))"
    by (simp add: DHM_GetAllData_run[OF dhm_invar_wf[OF assms(1)]])
  moreover have "distinct ?is" by simp
  moreover have "owner d k \<in> set ?is" for k
    using owner_less[OF dhm_invar_wf[OF assms(1)], of k] by auto
  ultimately show ?thesis
    using map_of_concat_owner[OF assms(1)] distinct_concat_owner[OF assms(1)] by blast
qed

section \<open>Properties\<close>

text \<open>C15: a get on any server after a put on any server returns the value put under that key, and the
  value found before under every other key; no operation raises.\<close>

theorem DHM_read_your_writes:
  assumes "dhm_invar d st" and "DHM_Put d me k v st = Inr (b, st')"
  shows "DHM_Get d me' k' st' = (if k' = k then Inr (Some v) else DHM_Get d me' k' st)"
proof -
  have "dhm_invar d st'" and "dhm_lookup d st' = (dhm_lookup d st)(k \<mapsto> v)"
    using dhm.putE[OF assms] by simp_all
  then show ?thesis
    using assms(1) by (simp add: dhm.get_lookup)
qed

definition example_dist :: "string dist" where
  "example_dist = \<lparr>num_servers = 2, func_prefix = ''P'', rpc_size = 2,
     rpc_funcs = DHM_bindings ''P'', keyHash = length\<rparr>"

lemma example_dist_wf: "dist_wf DHM_bindings example_dist"
  by (simp add: dist_wf_def bound_in_def example_dist_def DHM_bindings_def um_find_def)

theorem DHM_read_your_writes_witness:
  "DHM_Get example_dist 1 ''abc'' (snd (projr (DHM_Put example_dist 0 ''abc'' (7::nat) DHM_init))) =
     Inr (Some 7)"
proof -
  let ?st = "DHM_init :: (string, nat) hash_store"
  let ?st' = "snd (projr (DHM_Put example_dist 0 ''abc'' 7 ?st))"
  have put: "DHM_Put example_dist 0 ''abc'' 7 ?st = Inr (True, ?st')"
    by (simp add: DHM_Put_run[OF example_dist_wf])
  show ?thesis
    using DHM_read_your_writes[OF dhm_invar_init[OF example_dist_wf] put, of 1 "''abc''"] by simp
qed

text \<open>\<open>GetAllData\<close> called on any server returns every entry of the whole map exactly once.\<close>

theorem DHM_GetAllData_complete:
  assumes "dhm_invar d st" and "me < num_servers d"
  shows "\<exists>xs. DHM_GetAllData d me st = Inr xs \<and> distinct (map fst xs) \<and> map_of xs = dhm_lookup d st"
  by (rule DHM_all_data[OF assms])

theorem DHM_GetAllData_complete_witness:
  "\<exists>xs. DHM_GetAllData example_dist 1 (DHM_init :: (string, nat) hash_store) = Inr xs \<and>
     distinct (map fst xs) \<and> map_of xs = dhm_lookup example_dist DHM_init"
  by (rule DHM_GetAllData_complete[OF dhm_invar_init[OF example_dist_wf]]) (simp add: example_dist_def)

end
