(* ===== verification/Distributed_Map.thy ===== *)
theory Distributed_Map
  imports Distributed_HashMap
begin

text \<open>
  \<open>src/src/common/distributed_ds/map/DistributedMap.h\<close>: an ordered map partitioned over the servers
  by key hash. The state gives each server its \<open>boost::interprocess::map\<close>, the list of its entries
  in iteration order; the comparator \<open>lt\<close> and the method \<open>Contains\<close> of the key type are arguments,
  as they are of the template. HFetch instantiates it with \<open>Segment\<close> keys, whose comparator looks
  at the start offset only.
\<close>

section \<open>Operations\<close>

type_synonym ('k, 'v) map_store = "nat \<Rightarrow> ('k \<times> 'v) list"

definition DM_bindings :: "string \<Rightarrow> registry" where
  "DM_bindings p = [(p @ ''_Put'', 2), (p @ ''_Get'', 1), (p @ ''_Erase'', 1),
     (p @ ''_GetAllData'', 0), (p @ ''_Contains'', 1)]"

definition DM_init :: "('k, 'v) map_store" where
  "DM_init = (\<lambda>_. [])"

definition DM_Put_local :: "('k \<Rightarrow> 'k \<Rightarrow> bool) \<Rightarrow> 'k \<Rightarrow> 'v \<Rightarrow> ('k \<times> 'v) list \<Rightarrow> ('k \<times> 'v) list" where
  "DM_Put_local lt key data m =
     om_insert lt key data (if om_find lt key m \<noteq> None then om_erase_found lt key m else m)"

definition DM_Put ::
  "('k \<Rightarrow> 'k \<Rightarrow> bool) \<Rightarrow> 'k dist \<Rightarrow> nat \<Rightarrow> 'k \<Rightarrow> 'v \<Rightarrow> ('k, 'v) map_store \<Rightarrow>
   (bool \<times> ('k, 'v) map_store) res" where
  "DM_Put lt d my_server key data st =
     rbind (key_int d key) (\<lambda>i.
       at_server (rpc_size d) (rpc_funcs d) (func_prefix d @ ''_Put'') 2 i my_server
         (\<lambda>s. Inr (True, st(s := DM_Put_local lt key data (st s)))))"

definition DM_Get ::
  "('k \<Rightarrow> 'k \<Rightarrow> bool) \<Rightarrow> 'k dist \<Rightarrow> nat \<Rightarrow> 'k \<Rightarrow> ('k, 'v) map_store \<Rightarrow> 'v option res" where
  "DM_Get lt d my_server key st =
     rbind (key_int d key) (\<lambda>i.
       at_server (rpc_size d) (rpc_funcs d) (func_prefix d @ ''_Get'') 1 i my_server
         (\<lambda>s. Inr (map_option snd (om_find lt key (st s)))))"

definition DM_Erase ::
  "('k \<Rightarrow> 'k \<Rightarrow> bool) \<Rightarrow> 'k dist \<Rightarrow> nat \<Rightarrow> 'k \<Rightarrow> ('k, 'v) map_store \<Rightarrow>
   (bool \<times> ('k, 'v) map_store) res" where
  "DM_Erase lt d my_server key st =
     rbind (key_int d key) (\<lambda>i.
       at_server (rpc_size d) (rpc_funcs d) (func_prefix d @ ''_Erase'') 1 i my_server
         (\<lambda>s. Inr (length (om_erase lt key (st s)) < length (st s), st(s := om_erase lt key (st s)))))"

definition DM_ContainsInServer ::
  "('k \<Rightarrow> 'k \<Rightarrow> bool) \<Rightarrow> ('k \<Rightarrow> 'k \<Rightarrow> bool) \<Rightarrow> 'k \<Rightarrow> ('k \<times> 'v) list \<Rightarrow> ('k \<times> 'v) list" where
  "DM_ContainsInServer lt contains key m =
     (if length m = 0 then []
      else if length m = 1 then m
      else
        let lower_bound = om_lower_bound lt key m
        in if lower_bound = length m then []
           else
             let lower_bound =
                   (if lower_bound \<noteq> 0
                    then (if \<not> contains key (fst (m ! (lower_bound - 1)))
                          then lower_bound else lower_bound - 1)
                    else lower_bound)
             in takeWhile (\<lambda>x. contains key (fst x) \<or> contains (fst x) key) (drop lower_bound m))"

definition DM_collect ::
  "'k dist \<Rightarrow> nat \<Rightarrow> string \<Rightarrow> nat \<Rightarrow> (nat \<Rightarrow> ('k \<times> 'v) list) \<Rightarrow> ('k \<times> 'v) list res" where
  "DM_collect d my_server name nargs in_server =
     rfold (\<lambda>i final_values.
         if i \<noteq> my_server
         then rbind (RPC_call (rpc_size d) (rpc_funcs d) i (func_prefix d @ name) nargs
                       (Inr (in_server i)))
                (\<lambda>server. Inr (final_values @ server))
         else Inr final_values)
       [0..<num_servers d] (in_server my_server)"

definition DM_Contains ::
  "('k \<Rightarrow> 'k \<Rightarrow> bool) \<Rightarrow> ('k \<Rightarrow> 'k \<Rightarrow> bool) \<Rightarrow> 'k dist \<Rightarrow> nat \<Rightarrow> 'k \<Rightarrow> ('k, 'v) map_store \<Rightarrow>
   ('k \<times> 'v) list res" where
  "DM_Contains lt contains d my_server key st =
     DM_collect d my_server ''_Contains'' 1 (\<lambda>s. DM_ContainsInServer lt contains key (st s))"

definition DM_GetAllDataInServer :: "nat \<Rightarrow> ('k, 'v) map_store \<Rightarrow> ('k \<times> 'v) list" where
  "DM_GetAllDataInServer my_server st = st my_server"

definition DM_GetAllData :: "'k dist \<Rightarrow> nat \<Rightarrow> ('k, 'v) map_store \<Rightarrow> ('k \<times> 'v) list res" where
  "DM_GetAllData d my_server st =
     DM_collect d my_server ''_GetAllData'' 0 (\<lambda>s. DM_GetAllDataInServer s st)"

section \<open>Running the operations\<close>

definition dm_servers :: "'k dist \<Rightarrow> nat \<Rightarrow> nat list" where
  "dm_servers d me = me # filter (\<lambda>i. i \<noteq> me) [0..<num_servers d]"

lemma DM_collect_run:
  assumes "num_servers d \<le> rpc_size d" and "um_find (func_prefix d @ name) (rpc_funcs d) = Some nargs"
  shows "DM_collect d me name nargs f = Inr (concat (map f (dm_servers d me)))"
proof -
  have "rfold (\<lambda>i acc. if i \<noteq> me
       then rbind (RPC_call (rpc_size d) (rpc_funcs d) i (func_prefix d @ name) nargs (Inr (f i)))
              (\<lambda>server. Inr (acc @ server))
       else Inr acc) is acc =
     Inr (acc @ concat (map f (filter (\<lambda>i. i \<noteq> me) is)))" if "\<forall>i\<in>set is. i < rpc_size d" for "is" acc
    using that assms(2)
    by (induction "is" arbitrary: acc) (auto simp: RPC_call_def dispatch_call_def enforce_arg_count_def)
  with assms(1) show ?thesis by (auto simp: DM_collect_def dm_servers_def)
qed

lemma DM_Put_run [run_simps]:
  "dist_wf DM_bindings d \<Longrightarrow> DM_Put lt d me k v st =
    Inr (True, st(owner d k := DM_Put_local lt k v (st (owner d k))))"
  by (simp add: DM_Put_def key_int_owner at_owner DM_bindings_def)

lemma DM_Get_run [run_simps]:
  "dist_wf DM_bindings d \<Longrightarrow> DM_Get lt d me k st = Inr (map_option snd (om_find lt k (st (owner d k))))"
  by (simp add: DM_Get_def key_int_owner at_owner DM_bindings_def)

lemma DM_Erase_run [run_simps]:
  "dist_wf DM_bindings d \<Longrightarrow> DM_Erase lt d me k st =
    Inr (length (om_erase lt k (st (owner d k))) < length (st (owner d k)),
         st(owner d k := om_erase lt k (st (owner d k))))"
  by (simp add: DM_Erase_def key_int_owner at_owner DM_bindings_def)

lemma DM_Contains_run [run_simps]:
  "dist_wf DM_bindings d \<Longrightarrow> DM_Contains lt con d me k st =
    Inr (concat (map (\<lambda>s. DM_ContainsInServer lt con k (st s)) (dm_servers d me)))"
  by (simp add: DM_Contains_def DM_collect_run dist_wf_def bound_in_def DM_bindings_def)

lemma DM_GetAllData_run [run_simps]:
  "dist_wf DM_bindings d \<Longrightarrow> DM_GetAllData d me st = Inr (concat (map st (dm_servers d me)))"
  unfolding DM_GetAllData_def DM_GetAllDataInServer_def
  by (simp add: DM_collect_run dist_wf_def bound_in_def DM_bindings_def)

lemma set_dm_servers: "me < num_servers d \<Longrightarrow> set (dm_servers d me) = {0..<num_servers d}"
  by (auto simp: dm_servers_def)

section \<open>The invariant\<close>

definition dm_invar :: "('k \<Rightarrow> 'k \<Rightarrow> bool) \<Rightarrow> 'k dist \<Rightarrow> ('k, 'v) map_store \<Rightarrow> bool" where
  "dm_invar lt d st \<longleftrightarrow> (\<forall>s. om_sorted lt (st s) \<and> (\<forall>x\<in>set (st s). owner d (fst x) = s))"

definition dm_set :: "('k, 'v) map_store \<Rightarrow> ('k \<times> 'v) set" where
  "dm_set st = (\<Union>s. set (st s))"

lemma dm_invar_init: "dm_invar lt d DM_init"
  by (simp add: dm_invar_def DM_init_def om_sorted_def)

lemma dm_set_init [simp]: "dm_set DM_init = {}"
  by (simp add: dm_set_def DM_init_def)

lemma dm_set_owner: "dm_invar lt d st \<Longrightarrow> x \<in> dm_set st \<longleftrightarrow> x \<in> set (st (owner d (fst x)))"
  by (auto simp: dm_set_def dm_invar_def)

context strict_weak_order
begin

lemma Put_local_eq:
  "om_sorted lt m \<Longrightarrow> DM_Put_local lt k v m = om_insert lt k v (om_erase lt k m)"
  using om_find_None_iff[of lt k m]
  by (auto simp: DM_Put_local_def om_erase_found_eq om_erase_def filter_id_conv)

lemma om_sorted_Put_local: "om_sorted lt m \<Longrightarrow> om_sorted lt (DM_Put_local lt k v m)"
  by (simp add: Put_local_eq om_sorted_insert om_sorted_erase)

lemma set_Put_local:
  assumes "om_sorted lt m"
  shows "set (DM_Put_local lt k v m) = insert (k, v) {x \<in> set m. \<not> equivalent lt (fst x) k}"
proof -
  have "om_find lt k (om_erase lt k m) = None"
    by (simp add: om_find_erase equivalent_refl)
  then show ?thesis using assms by (simp add: Put_local_eq set_om_insert om_erase_def)
qed

lemma dm_invar_Put:
  "dm_invar lt d st \<Longrightarrow> dm_invar lt d (st(owner d k := DM_Put_local lt k v (st (owner d k))))"
  by (auto simp: dm_invar_def om_sorted_Put_local set_Put_local)

lemma dm_invar_Erase:
  "dm_invar lt d st \<Longrightarrow> dm_invar lt d (st(owner d k := om_erase lt k (st (owner d k))))"
  using om_sorted_erase[of lt "st (owner d k)" k] set_om_erase_subset[of lt k "st (owner d k)"]
  by (auto simp: dm_invar_def)

text \<open>The entries after a put and an erase: those of the equivalence class on the owning server are
  replaced; a class can have members on other servers, which stay.\<close>

lemma dm_set_Put:
  "dm_invar lt d st \<Longrightarrow> dm_set (st(owner d k := DM_Put_local lt k v (st (owner d k)))) =
    insert (k, v) {x \<in> dm_set st. \<not> (equivalent lt (fst x) k \<and> owner d (fst x) = owner d k)}"
  unfolding set_eq_iff
  by (auto simp: dm_set_owner[OF dm_invar_Put] dm_set_owner dm_invar_def set_Put_local split: if_splits)

lemma dm_set_Erase:
  "dm_invar lt d st \<Longrightarrow> dm_set (st(owner d k := om_erase lt k (st (owner d k)))) =
    {x \<in> dm_set st. \<not> (equivalent lt (fst x) k \<and> owner d (fst x) = owner d k)}"
  unfolding set_eq_iff
  by (auto simp: dm_set_owner[OF dm_invar_Erase] dm_set_owner set_om_erase split: if_splits)

lemma Get_after_Put:
  assumes "dist_wf DM_bindings d" and "dm_invar lt d st" and "DM_Put lt d me k v st = Inr (b, st')"
  shows "DM_Get lt d me' k st' = Inr (Some v)"
proof -
  let ?m = "st (owner d k)"
  have m: "om_sorted lt ?m" using assms(2) by (simp add: dm_invar_def)
  have "st' = st(owner d k := DM_Put_local lt k v ?m)"
    using assms(1,3) by (simp add: DM_Put_run)
  moreover have "om_find lt k (DM_Put_local lt k v ?m) = Some (k, v)"
    using m by (simp add: Put_local_eq om_find_insert_same om_find_erase equivalent_refl)
  ultimately show ?thesis using assms(1) by (simp add: DM_Get_run)
qed

end

section \<open>Overlap queries on segment maps\<close>

definition overlaps :: "Segment \<Rightarrow> Segment \<Rightarrow> bool" where
  "overlaps a b \<longleftrightarrow> seg_set a \<inter> seg_set b \<noteq> {}"

definition segmap_wf :: "(Segment \<times> 'v) list \<Rightarrow> bool" where
  "segmap_wf m \<longleftrightarrow> (\<forall>x\<in>set m. Segment_GetSize (fst x) > 0) \<and>
     sorted_wrt (\<lambda>x y. seg_end (fst x) < seg_start (fst y)) m"

lemma segmap_wf_sorted: "segmap_wf m \<Longrightarrow> om_sorted Segment_less m"
proof -
  assume wf: "segmap_wf m"
  then have "sorted_wrt (\<lambda>x y. seg_end (fst x) < seg_start (fst y)) m" by (simp add: segmap_wf_def)
  with wf show ?thesis
    unfolding om_sorted_def Segment_less_def segmap_wf_def Segment_GetSize_def
    by (elim conjE sorted_wrt_mono_rel[rotated]) force
qed

lemma filter_eq_takeWhile:
  "sorted_wrt (\<lambda>x y. P y \<longrightarrow> P x) xs \<Longrightarrow> filter P xs = takeWhile P xs"
  by (induction xs) (auto simp: filter_empty_conv)

text \<open>Among disjoint segments that start before a key only the last can overlap it.\<close>

lemma filter_overlaps_before:
  assumes "segmap_wf xs" and "\<forall>x\<in>set xs. seg_start (fst x) < seg_start key"
  shows "filter (\<lambda>x. overlaps (fst x) key) xs =
    (if xs \<noteq> [] \<and> overlaps (fst (last xs)) key then [last xs] else [])"
  using assms
proof (induction xs)
  case (Cons x xs)
  have IH: "filter (\<lambda>x. overlaps (fst x) key) xs =
    (if xs \<noteq> [] \<and> overlaps (fst (last xs)) key then [last xs] else [])"
    using Cons by (simp add: segmap_wf_def)
  show ?case
  proof (cases xs)
    case (Cons y ys)
    with Cons.prems have "seg_end (fst x) < seg_start key"
      by (force simp: segmap_wf_def)
    then have "\<not> overlaps (fst x) key" by (simp add: overlaps_def seg_set_def)
    with IH Cons show ?thesis by simp
  qed simp
qed simp

lemma filter_overlaps_after:
  assumes "segmap_wf xs" and "\<forall>x\<in>set xs. seg_start key \<le> seg_start (fst x)" and "Segment_GetSize key > 0"
  shows "filter (\<lambda>x. overlaps (fst x) key) xs =
    takeWhile (\<lambda>x. Segment_Contains key (fst x) \<or> Segment_Contains (fst x) key) xs"
proof -
  have start: "overlaps (fst x) key \<longleftrightarrow> seg_start (fst x) \<le> seg_end key" if "x \<in> set xs" for x
    using assms that by (auto simp: overlaps_def seg_set_def segmap_wf_def Segment_GetSize_def)
  have "sorted_wrt (\<lambda>x y. overlaps (fst y) key \<longrightarrow> overlaps (fst x) key) xs"
    using segmap_wf_sorted[OF assms(1)] start
    unfolding om_sorted_def Segment_less_def
    by (auto elim!: sorted_wrt_mono_rel[rotated])
  then have "filter (\<lambda>x. overlaps (fst x) key) xs = takeWhile (\<lambda>x. overlaps (fst x) key) xs"
    by (rule filter_eq_takeWhile)
  also have "\<dots> = takeWhile (\<lambda>x. Segment_Contains key (fst x) \<or> Segment_Contains (fst x) key) xs"
    using assms overlap_iff_Contains by (intro takeWhile_cong) (auto simp: overlaps_def segmap_wf_def)
  finally show ?thesis .
qed

text \<open>The search position of \<open>ContainsInServer\<close>, with the map cut at the lower bound of the key.\<close>

definition seg_cut :: "Segment \<Rightarrow> (Segment \<times> 'v) list \<Rightarrow> (Segment \<times> 'v) list \<Rightarrow> (Segment \<times> 'v) list \<Rightarrow> bool" where
  "seg_cut key m pre post \<longleftrightarrow> m = pre @ post \<and> om_lower_bound Segment_less key m = length pre \<and>
     (\<forall>x\<in>set pre. seg_start (fst x) < seg_start key) \<and>
     (\<forall>x\<in>set post. seg_start key \<le> seg_start (fst x)) \<and> segmap_wf pre \<and> segmap_wf post"

lemma seg_cut_exists:
  assumes "segmap_wf m"
  obtains pre post where "seg_cut key m pre post"
proof
  let ?pre = "takeWhile (\<lambda>x. Segment_less (fst x) key) m"
  let ?post = "dropWhile (\<lambda>x. Segment_less (fst x) key) m"
  have "segmap_wf (?pre @ ?post)" using assms by simp
  then have "segmap_wf ?pre" "segmap_wf ?post"
    unfolding segmap_wf_def sorted_wrt_append set_append by blast+
  moreover have "\<forall>x\<in>set ?pre. seg_start (fst x) < seg_start key"
    by (auto simp: Segment_less_def dest: set_takeWhileD)
  moreover have "\<forall>x\<in>set ?post. seg_start key \<le> seg_start (fst x)"
  proof
    fix x assume "x \<in> set ?post"
    from seg_order.sorted_dropWhile_not_less[OF segmap_wf_sorted[OF assms] this]
    show "seg_start key \<le> seg_start (fst x)" by (simp add: Segment_less_def)
  qed
  ultimately show "seg_cut key m ?pre ?post"
    by (simp add: seg_cut_def om_lower_bound_def)
qed

lemma ContainsInServer_cut:
  assumes "seg_cut key m pre post" and "2 \<le> length m"
  shows "DM_ContainsInServer Segment_less Segment_Contains key m =
    (if post = [] then []
     else takeWhile (\<lambda>x. Segment_Contains key (fst x) \<or> Segment_Contains (fst x) key)
       (if pre \<noteq> [] \<and> Segment_Contains key (fst (last pre)) then last pre # post else post))"
proof -
  have m: "m = pre @ post" and lb: "om_lower_bound Segment_less key m = length pre"
    using assms(1) by (auto simp: seg_cut_def)
  have dropm: "drop (length pre) m = post" and lenm: "length pre = length m \<longleftrightarrow> post = []"
    using m by auto
  have prev: "m ! (length pre - Suc 0) = last pre" "drop (length pre - Suc 0) m = last pre # post"
    if "pre \<noteq> []"
  proof -
    have m': "m = butlast pre @ last pre # post" and l: "length (butlast pre) = length pre - Suc 0"
      using m that by simp_all
    show "m ! (length pre - Suc 0) = last pre"
      unfolding m' l[symmetric] by (rule nth_append_length)
    show "drop (length pre - Suc 0) m = last pre # post"
      unfolding m' l[symmetric] by simp
  qed
  have nil: "pre = [] \<Longrightarrow> m = post" using m by simp
  have "length m \<noteq> 0" and "length m \<noteq> 1" using assms(2) by auto
  then show ?thesis
    unfolding DM_ContainsInServer_def Let_def lb lenm
    using nil by (cases "pre = []") (simp_all add: prev dropm)
qed

lemma overlap_prev_iff:
  assumes "seg_start a < seg_start key" and "Segment_GetSize key > 0" and "Segment_GetSize a > 0"
  shows "Segment_Contains key a \<longleftrightarrow> overlaps a key \<and> seg_end a \<le> seg_end key"
  using assms by (auto simp: overlaps_def segment_defs)

lemma filter_overlaps_cut:
  assumes cut: "seg_cut key m pre post" and key: "Segment_GetSize key > 0"
  shows "filter (\<lambda>x. overlaps (fst x) key) m =
    (if pre \<noteq> [] \<and> overlaps (fst (last pre)) key then [last pre] else []) @
    takeWhile (\<lambda>x. Segment_Contains key (fst x) \<or> Segment_Contains (fst x) key) post"
proof -
  have m: "m = pre @ post" using cut by (simp add: seg_cut_def)
  show ?thesis
    unfolding m filter_append using cut key
    by (simp add: filter_overlaps_before filter_overlaps_after seg_cut_def)
qed

lemma ContainsInServer_exact_cut:
  assumes cut: "seg_cut key m pre post" and key: "Segment_GetSize key > 0" and len: "2 \<le> length m"
  shows "DM_ContainsInServer Segment_less Segment_Contains key m =
      filter (\<lambda>x. overlaps (fst x) key) m \<longleftrightarrow>
    \<not> (pre \<noteq> [] \<and> overlaps (fst (last pre)) key \<and>
       (seg_end key < seg_end (fst (last pre)) \<or> post = []))"
proof -
  have prev: "Segment_Contains key (fst (last pre)) \<longleftrightarrow>
      overlaps (fst (last pre)) key \<and> seg_end (fst (last pre)) \<le> seg_end key" if "pre \<noteq> []"
    using overlap_prev_iff[of "fst (last pre)" key] key cut that by (simp add: seg_cut_def segmap_wf_def)
  show ?thesis
    unfolding ContainsInServer_cut[OF cut len] filter_overlaps_cut[OF cut key]
    using prev by (cases "post = []") auto
qed

text \<open>The segments the query of one server misses: the one that starts before the key, when it reaches past
  the end of the key or no stored segment starts inside or behind the key.\<close>

definition query_misses :: "(Segment \<times> 'v) list \<Rightarrow> Segment \<Rightarrow> Segment \<Rightarrow> bool" where
  "query_misses m key k \<longleftrightarrow> 2 \<le> length m \<and> seg_start k < seg_start key \<and>
     (seg_end key < seg_end k \<or> (\<forall>y\<in>set m. seg_start (fst y) < seg_start key))"

lemma ContainsInServer_mem:
  assumes wf: "segmap_wf m" and key: "Segment_GetSize key > 0" and len: "2 \<le> length m"
  shows "x \<in> set (DM_ContainsInServer Segment_less Segment_Contains key m) \<longleftrightarrow>
    x \<in> set m \<and> overlaps (fst x) key \<and> \<not> query_misses m key (fst x)"
proof -
  obtain pre post where cut: "seg_cut key m pre post" using seg_cut_exists[OF wf] .
  let ?T = "takeWhile (\<lambda>x. Segment_Contains key (fst x) \<or> Segment_Contains (fst x) key) post"
  have m: "set m = set pre \<union> set post" and before: "\<forall>x\<in>set pre. seg_start (fst x) < seg_start key"
    and after: "\<forall>x\<in>set post. seg_start key \<le> seg_start (fst x)"
    using cut by (auto simp: seg_cut_def)
  have T: "x \<in> set ?T \<longleftrightarrow> x \<in> set post \<and> overlaps (fst x) key"
  proof -
    have "set ?T = set (filter (\<lambda>x. overlaps (fst x) key) post)"
      using filter_overlaps_after[of post key] cut key by (simp add: seg_cut_def)
    then show ?thesis by auto
  qed
  have pre: "x \<in> set pre \<and> overlaps (fst x) key \<longleftrightarrow> pre \<noteq> [] \<and> overlaps (fst (last pre)) key \<and> x = last pre"
  proof -
    have "x \<in> set (filter (\<lambda>x. overlaps (fst x) key) pre) \<longleftrightarrow>
        pre \<noteq> [] \<and> overlaps (fst (last pre)) key \<and> x = last pre"
      using filter_overlaps_before[of pre key] cut by (auto simp: seg_cut_def simp del: set_filter)
    then show ?thesis by (simp only: set_filter mem_Collect_eq)
  qed
  have prev: "Segment_Contains key (fst (last pre)) \<longleftrightarrow>
      overlaps (fst (last pre)) key \<and> seg_end (fst (last pre)) \<le> seg_end key" if "pre \<noteq> []"
    using overlap_prev_iff[of "fst (last pre)" key] key cut that by (simp add: seg_cut_def segmap_wf_def)
  have post: "(\<forall>y\<in>set m. seg_start (fst y) < seg_start key) \<longleftrightarrow> post = []"
    using before after unfolding m by (cases post) force+
  have rhs: "x \<in> set m \<and> overlaps (fst x) key \<and> \<not> query_misses m key (fst x) \<longleftrightarrow>
      x \<in> set ?T \<or> (post \<noteq> [] \<and> pre \<noteq> [] \<and> Segment_Contains key (fst (last pre)) \<and> x = last pre)"
  proof (cases "x \<in> set post")
    case True
    then have "\<not> query_misses m key (fst x)" using after by (auto simp: query_misses_def)
    moreover have "x \<noteq> last pre" if "pre \<noteq> []"
      using True after before last_in_set[OF that] by force
    ultimately show ?thesis using True T m by blast
  next
    case False
    then have "x \<in> set m \<and> overlaps (fst x) key \<longleftrightarrow> pre \<noteq> [] \<and> overlaps (fst (last pre)) key \<and> x = last pre"
      using pre m by blast
    moreover have "x = last pre \<Longrightarrow> pre \<noteq> [] \<Longrightarrow> query_misses m key (fst x) \<longleftrightarrow>
        seg_end key < seg_end (fst (last pre)) \<or> post = []"
      using before last_in_set[of pre] by (simp add: query_misses_def len post)
    ultimately show ?thesis using False T prev by (cases "pre = []") auto
  qed
  show ?thesis
    unfolding rhs ContainsInServer_cut[OF cut len] by (cases "post = []") auto
qed

section \<open>Properties\<close>

text \<open>C23: on a server holding at least two disjoint non-empty segments, the overlap query
  \<open>ContainsInServer\<close> returns exactly the stored segments that share an offset with the key, in
  order, if and only if no segment that starts before the key and overlaps it either reaches past
  the end of the key or is the last one (all segments start before the key).\<close>

theorem ContainsInServer_exact_iff:
  assumes "segmap_wf m" and "Segment_GetSize key > 0" and "2 \<le> length m"
  shows "DM_ContainsInServer Segment_less Segment_Contains key m =
      filter (\<lambda>x. overlaps (fst x) key) m \<longleftrightarrow>
    \<not> (\<exists>x\<in>set m. overlaps (fst x) key \<and> seg_start (fst x) < seg_start key \<and>
       (seg_end key < seg_end (fst x) \<or> (\<forall>y\<in>set m. seg_start (fst y) < seg_start key)))"
proof -
  obtain pre post where cut: "seg_cut key m pre post" using seg_cut_exists[OF assms(1)] .
  have only_last: "x = last pre" if "x \<in> set pre" "overlaps (fst x) key" for x
  proof -
    have "segmap_wf pre" "\<forall>x\<in>set pre. seg_start (fst x) < seg_start key"
      using cut by (auto simp: seg_cut_def)
    note only = filter_overlaps_before[OF this]
    have "x \<in> set (filter (\<lambda>x. overlaps (fst x) key) pre)" using that by simp
    then show ?thesis unfolding only by (simp split: if_splits)
  qed
  have mem: "x \<in> set m \<and> seg_start (fst x) < seg_start key \<longleftrightarrow> x \<in> set pre" for x
    using cut by (force simp: seg_cut_def)
  have post_nil: "post = [] \<longleftrightarrow> (\<forall>y\<in>set m. seg_start (fst y) < seg_start key)"
    using cut by (cases post) (force simp: seg_cut_def)+
  have "pre \<noteq> [] \<and> overlaps (fst (last pre)) key \<and> (seg_end key < seg_end (fst (last pre)) \<or> post = []) \<longleftrightarrow>
      (\<exists>x\<in>set pre. overlaps (fst x) key \<and> (seg_end key < seg_end (fst x) \<or> post = []))"
    using only_last last_in_set[of pre] by force
  then show ?thesis
    unfolding ContainsInServer_exact_cut[OF cut assms(2,3)] post_nil[symmetric] using mem by blast
qed

definition example_segmap :: "(Segment \<times> nat) list" where
  "example_segmap = [(\<lparr>seg_start = 0, seg_end = 9\<rparr>, 1), (\<lparr>seg_start = 10, seg_end = 19\<rparr>, 2),
     (\<lparr>seg_start = 20, seg_end = 29\<rparr>, 3)]"

theorem ContainsInServer_exact_iff_witness:
  "DM_ContainsInServer Segment_less Segment_Contains \<lparr>seg_start = 5, seg_end = 14\<rparr> example_segmap =
     filter (\<lambda>x. overlaps (fst x) \<lparr>seg_start = 5, seg_end = 14\<rparr>) example_segmap \<and>
   DM_ContainsInServer Segment_less Segment_Contains \<lparr>seg_start = 22, seg_end = 25\<rparr> example_segmap \<noteq>
     filter (\<lambda>x. overlaps (fst x) \<lparr>seg_start = 22, seg_end = 25\<rparr>) example_segmap"
proof -
  have wf: "segmap_wf example_segmap" and len: "2 \<le> length example_segmap"
    by (simp_all add: segmap_wf_def example_segmap_def Segment_GetSize_def)
  have "Segment_GetSize \<lparr>seg_start = 5, seg_end = 14\<rparr> > 0"
    and "Segment_GetSize \<lparr>seg_start = 22, seg_end = 25\<rparr> > 0"
    by (simp_all add: Segment_GetSize_def)
  from ContainsInServer_exact_iff[OF wf this(1) len] ContainsInServer_exact_iff[OF wf this(2) len]
  show ?thesis by (simp add: example_segmap_def overlaps_def seg_set_def)
qed

text \<open>An entry put through any server is found by a get for its key through any other server.\<close>

theorem DM_Get_after_Put:
  assumes "dist_wf DM_bindings d" and "dm_invar Segment_less d st"
    and "DM_Put Segment_less d me key v st = Inr (b, st')"
  shows "DM_Get Segment_less d me' key st' = Inr (Some v)"
  by (rule seg_order.Get_after_Put[OF assms])

definition example_seg_dist :: "Segment dist" where
  "example_seg_dist = \<lparr>num_servers = 2, func_prefix = ''0_OFFSET'',
     rpc_size = 2, rpc_funcs = DM_bindings ''0_OFFSET'', keyHash = hash_Segment (\<lambda>n. n)\<rparr>"

lemma example_seg_dist_wf: "dist_wf DM_bindings example_seg_dist"
  by (simp add: dist_wf_def bound_in_def example_seg_dist_def DM_bindings_def um_find_def)

theorem DM_Get_after_Put_witness:
  "\<exists>st'. DM_Put Segment_less example_seg_dist 0 \<lparr>seg_start = 3, seg_end = 8\<rparr> (1::nat) DM_init = Inr (True, st') \<and>
     DM_Get Segment_less example_seg_dist 1 \<lparr>seg_start = 3, seg_end = 8\<rparr> st' = Inr (Some 1)"
proof -
  let ?k = "\<lparr>seg_start = 3, seg_end = 8\<rparr>"
  obtain st' where put: "DM_Put Segment_less example_seg_dist 0 ?k (1::nat) DM_init = Inr (True, st')"
    by (simp add: DM_Put_run[OF example_seg_dist_wf])
  show ?thesis
    using put DM_Get_after_Put[OF example_seg_dist_wf dm_invar_init put] by blast
qed

end
