(* ===== verification/Distributed_Queue.thy ===== *)
theory Distributed_Queue
  imports Rpc_Lib
begin

text \<open>
  \<open>src/src/common/distributed_ds/queue/DistributedMessageQueue.h\<close> and
  \<open>priority_queue/DistributedPriorityQueue.h\<close>: one queue per server, addressed by the server index.
  A call for another server goes through RPC with the arguments the source passes, which are one
  fewer than the bound functions take.

  The locale \<open>fifo_queue\<close> is the contract the server's worker loop relies on. A
  \<open>std::priority_queue\<close> is the list of its elements; which of several equivalent maximal elements
  \<open>top\<close> returns is unspecified, and the model takes the first.
\<close>

section \<open>Message queue\<close>

type_synonym 'a queue_store = "nat \<Rightarrow> 'a list"

definition DMQ_bindings :: "string \<Rightarrow> registry" where
  "DMQ_bindings p = [(p @ ''_Push'', 2), (p @ ''_Pop'', 1), (p @ ''_WaitForElement'', 1), (p @ ''_Size'', 1)]"

definition DMQ_init :: "'a queue_store" where
  "DMQ_init = (\<lambda>_. [])"

definition DMQ_Push ::
  "rpc_obj \<Rightarrow> nat \<Rightarrow> 'a \<Rightarrow> nat \<Rightarrow> 'a queue_store \<Rightarrow> (bool \<times> 'a queue_store) res" where
  "DMQ_Push d my_server data key st =
     at_server (rpc_size d) (rpc_funcs d) (func_prefix d @ ''_Push'') 1 key my_server
       (\<lambda>s. Inr (True, st(s := st s @ [data])))"

definition DMQ_Pop ::
  "rpc_obj \<Rightarrow> nat \<Rightarrow> nat \<Rightarrow> 'a queue_store \<Rightarrow> ('a option \<times> 'a queue_store) res" where
  "DMQ_Pop d my_server key st =
     at_server (rpc_size d) (rpc_funcs d) (func_prefix d @ ''_Pop'') 0 key my_server
       (\<lambda>s. Inr (if length (st s) > 0 then (Some (hd (st s)), st(s := tl (st s))) else (None, st)))"

definition DMQ_Size :: "rpc_obj \<Rightarrow> nat \<Rightarrow> nat \<Rightarrow> 'a queue_store \<Rightarrow> nat res" where
  "DMQ_Size d my_server key st =
     at_server (rpc_size d) (rpc_funcs d) (func_prefix d @ ''_Size'') 0 key my_server
       (\<lambda>s. Inr (length (st s)))"

text \<open>\<open>WaitForElement\<close> polls the queue, which other threads and processes change meanwhile: its
  argument is the sequence of states it observes. \<open>None\<close> means that it is still waiting after the
  last of them.\<close>

fun DMQ_wait_loop :: "nat \<Rightarrow> 'a queue_store list \<Rightarrow> bool option" where
  "DMQ_wait_loop s [] = None"
| "DMQ_wait_loop s (st # sts) = (if length (st s) = 0 then DMQ_wait_loop s sts else Some True)"

definition DMQ_WaitForElement :: "rpc_obj \<Rightarrow> nat \<Rightarrow> nat \<Rightarrow> 'a queue_store list \<Rightarrow> bool option res" where
  "DMQ_WaitForElement d my_server key observed =
     at_server (rpc_size d) (rpc_funcs d) (func_prefix d @ ''_WaitForElement'') 0 key my_server
       (\<lambda>s. Inr (DMQ_wait_loop s observed))"

section \<open>The contract of a first-in first-out queue\<close>

fun pop_times :: "('s \<Rightarrow> ('a option \<times> 's) res) \<Rightarrow> nat \<Rightarrow> 's \<Rightarrow> ('a list \<times> 's) res" where
  "pop_times pop 0 s = Inr ([], s)"
| "pop_times pop (Suc n) s = rbind (pop s) (\<lambda>(r, s').
     case r of None \<Rightarrow> Inr ([], s')
     | Some x \<Rightarrow> rbind (pop_times pop n s') (\<lambda>(xs, s''). Inr (x # xs, s'')))"

definition push_list :: "('a \<Rightarrow> 's \<Rightarrow> (bool \<times> 's) res) \<Rightarrow> 'a list \<Rightarrow> 's \<Rightarrow> 's res" where
  "push_list push = rfold (\<lambda>x s. rbind (push x s) (\<lambda>r. Inr (snd r)))"

locale fifo_queue =
  fixes contents :: "'s \<Rightarrow> 'a list"
    and push :: "'a \<Rightarrow> 's \<Rightarrow> (bool \<times> 's) res"
    and pop :: "'s \<Rightarrow> ('a option \<times> 's) res"
    and size :: "'s \<Rightarrow> nat res"
  assumes push_ok: "\<exists>s'. push x s = Inr (True, s') \<and> contents s' = contents s @ [x]"
    and pop_empty: "contents s = [] \<Longrightarrow> pop s = Inr (None, s)"
    and pop_first: "contents s = x # xs \<Longrightarrow> \<exists>s'. pop s = Inr (Some x, s') \<and> contents s' = xs"
    and size_ok: "size s = Inr (length (contents s))"
begin

lemma push_list_ok: "\<exists>s'. push_list push xs s = Inr s' \<and> contents s' = contents s @ xs"
proof (induction xs arbitrary: s)
  case Nil
  then show ?case by (simp add: push_list_def)
next
  case (Cons x xs)
  obtain s1 where s1: "push x s = Inr (True, s1)" "contents s1 = contents s @ [x]"
    using push_ok by blast
  with Cons[of s1] show ?case by (auto simp: push_list_def)
qed

lemma pop_times_ok:
  "contents s = xs @ ys \<Longrightarrow> \<exists>s'. pop_times pop (length xs) s = Inr (xs, s') \<and> contents s' = ys"
proof (induction xs arbitrary: s)
  case (Cons x xs)
  then obtain s1 where "pop s = Inr (Some x, s1)" "contents s1 = xs @ ys"
    using pop_first[of s x "xs @ ys"] by auto
  with Cons.IH[of s1] show ?case by auto
qed simp

lemma pop_after_push:
  assumes "push_list push (xs @ ys) s = Inr s1" and "contents s = []"
  shows "\<exists>s2. pop_times pop (length xs) s1 = Inr (xs, s2) \<and> contents s2 = ys \<and> size s2 = Inr (length ys)"
proof -
  have "contents s1 = xs @ ys" using push_list_ok[of "xs @ ys" s] assms by auto
  then show ?thesis using pop_times_ok[of s1 xs ys] size_ok by metis
qed

end

interpretation dmq: fifo_queue "\<lambda>st. st me" "\<lambda>x. DMQ_Push d me x me" "DMQ_Pop d me me" "DMQ_Size d me me"
  for d me
  by unfold_locales
    (auto simp: DMQ_Push_def DMQ_Pop_def DMQ_Size_def at_server_local)

section \<open>Priority queue\<close>

definition DPQ_bindings :: "string \<Rightarrow> registry" where
  "DPQ_bindings p = [(p @ ''_Push'', 2), (p @ ''_Pop'', 1), (p @ ''_Top'', 1), (p @ ''_Size'', 1)]"

fun pq_top :: "('a \<Rightarrow> 'a \<Rightarrow> bool) \<Rightarrow> 'a \<Rightarrow> 'a list \<Rightarrow> 'a" where
  "pq_top lt x [] = x"
| "pq_top lt x (y # ys) = pq_top lt (if lt x y then y else x) ys"

definition pq_pop :: "('a \<Rightarrow> 'a \<Rightarrow> bool) \<Rightarrow> 'a list \<Rightarrow> 'a list" where
  "pq_pop lt q = remove1 (pq_top lt (hd q) (tl q)) q"

definition DPQ_Push ::
  "rpc_obj \<Rightarrow> nat \<Rightarrow> 'a \<Rightarrow> nat \<Rightarrow> 'a queue_store \<Rightarrow> (bool \<times> 'a queue_store) res" where
  "DPQ_Push d my_server data key st =
     at_server (rpc_size d) (rpc_funcs d) (func_prefix d @ ''_Push'') 1 key my_server
       (\<lambda>s. Inr (True, st(s := st s @ [data])))"

definition DPQ_Pop ::
  "('a \<Rightarrow> 'a \<Rightarrow> bool) \<Rightarrow> rpc_obj \<Rightarrow> nat \<Rightarrow> nat \<Rightarrow> 'a queue_store \<Rightarrow> ('a option \<times> 'a queue_store) res" where
  "DPQ_Pop lt d my_server key st =
     at_server (rpc_size d) (rpc_funcs d) (func_prefix d @ ''_Pop'') 0 key my_server
       (\<lambda>s. Inr (if length (st s) > 0
                 then (Some (pq_top lt (hd (st s)) (tl (st s))), st(s := pq_pop lt (st s)))
                 else (None, st)))"

text \<open>The remote branch of \<open>Top\<close> names the function bound for \<open>Pop\<close>.\<close>

definition DPQ_Top ::
  "('a \<Rightarrow> 'a \<Rightarrow> bool) \<Rightarrow> rpc_obj \<Rightarrow> nat \<Rightarrow> nat \<Rightarrow> 'a queue_store \<Rightarrow> 'a option res" where
  "DPQ_Top lt d my_server key st =
     (if key = my_server
      then Inr (if length (st my_server) > 0 then Some (pq_top lt (hd (st my_server)) (tl (st my_server))) else None)
      else RPC_call (rpc_size d) (rpc_funcs d) key (func_prefix d @ ''_Pop'') 0
             (rbind (DPQ_Pop lt d key key st) (\<lambda>r. Inr (fst r))))"

definition DPQ_Size :: "rpc_obj \<Rightarrow> nat \<Rightarrow> nat \<Rightarrow> 'a queue_store \<Rightarrow> nat res" where
  "DPQ_Size d my_server key st =
     at_server (rpc_size d) (rpc_funcs d) (func_prefix d @ ''_Size'') 0 key my_server
       (\<lambda>s. Inr (length (st s)))"

lemma pq_top_mem: "pq_top lt x ys \<in> insert x (set ys)"
  by (induction ys arbitrary: x) (auto split: if_splits)

context strict_weak_order
begin

lemma pq_top_max: "y \<in> insert x (set ys) \<Longrightarrow> \<not> lt (pq_top lt x ys) y"
proof (induction ys arbitrary: x y)
  case Nil
  then show ?case by (simp add: irrefl)
next
  case (Cons z zs)
  let ?x = "if lt x z then z else x"
  have top: "\<not> lt (pq_top lt ?x zs) ?x" by (rule Cons.IH) simp
  show ?case
  proof (cases "y \<in> set zs")
    case True
    with Cons.IH[of y ?x] show ?thesis by simp
  next
    case False
    with Cons.prems have "y = x \<or> y = z" by auto
    then have "\<not> lt ?x y" using irrefl asym by auto
    with top show ?thesis using negtrans[of "pq_top lt ?x zs" y ?x] by auto
  qed
qed

lemma mset_pq_pop:
  "q \<noteq> [] \<Longrightarrow> mset q = add_mset (pq_top lt (hd q) (tl q)) (mset (pq_pop lt q))"
  using pq_top_mem[of lt "hd q" "tl q"] by (cases q) (auto simp: pq_pop_def)

text \<open>Popping a priority queue until it is empty gives its elements from the largest down.\<close>

lemma DPQ_pop_all:
  "length (st me) = n \<Longrightarrow> \<exists>xs st'. pop_times (DPQ_Pop lt d me me) n st = Inr (xs, st') \<and> st' me = [] \<and>
    mset xs = mset (st me) \<and> sorted_wrt (\<lambda>a b. \<not> lt a b) xs"
proof (induction n arbitrary: st)
  case (Suc n)
  let ?t = "pq_top lt (hd (st me)) (tl (st me))"
  let ?st = "st(me := pq_pop lt (st me))"
  have ne: "st me \<noteq> []" using Suc.prems by (cases "st me") simp_all
  have pop: "DPQ_Pop lt d me me st = Inr (Some ?t, ?st)"
    using ne by (simp add: DPQ_Pop_def at_server_local)
  have m: "mset (st me) = add_mset ?t (mset (pq_pop lt (st me)))" by (rule mset_pq_pop[OF ne])
  have "size (mset (st me)) = Suc (size (mset (pq_pop lt (st me))))" unfolding m by simp
  with Suc.prems have "length (?st me) = n" by simp
  with Suc.IH[of ?st] obtain xs st' where run: "pop_times (DPQ_Pop lt d me me) n ?st = Inr (xs, st')" "st' me = []"
      "mset xs = mset (pq_pop lt (st me))" "sorted_wrt (\<lambda>a b. \<not> lt a b) xs"
    unfolding fun_upd_same by blast
  have "set xs \<subseteq> set (st me)"
    using run(3) m by (metis set_mset_add_mset_insert set_mset_mset subset_insertI)
  moreover have "set (st me) = insert (hd (st me)) (set (tl (st me)))"
    using ne by (cases "st me") auto
  ultimately have "\<forall>y\<in>set xs. \<not> lt ?t y" using pq_top_max by blast
  with pop run m show ?case by auto
qed simp

end

section \<open>Properties\<close>

text \<open>Events pushed on a server's message queue by that server are popped in the order they were
  pushed, and the size reported afterwards counts the events left.\<close>

theorem DMQ_fifo:
  assumes "push_list (\<lambda>x. DMQ_Push d me x me) (xs @ ys) DMQ_init = Inr st"
  shows "\<exists>st'. pop_times (DMQ_Pop d me me) (length xs) st = Inr (xs, st') \<and> st' me = ys \<and>
    DMQ_Size d me me st' = Inr (length ys)"
  using dmq.pop_after_push[OF assms] by (simp add: DMQ_init_def)

definition example_queue :: rpc_obj where
  "example_queue = \<lparr>num_servers = 2, func_prefix = ''Q'', rpc_size = 2, rpc_funcs = DMQ_bindings ''Q''\<rparr>"

theorem DMQ_fifo_witness:
  "\<exists>st st'. push_list (\<lambda>x. DMQ_Push example_queue 0 x 0) ([1, 2] @ [3::nat]) DMQ_init = Inr st \<and>
     pop_times (DMQ_Pop example_queue 0 0) (length [1::nat, 2]) st = Inr ([1, 2], st') \<and> st' 0 = [3]"
proof -
  obtain st where "push_list (\<lambda>x. DMQ_Push example_queue 0 x 0) ([1, 2] @ [3::nat]) DMQ_init = Inr st"
    using dmq.push_list_ok[of example_queue 0 "[1, 2] @ [3::nat]" DMQ_init] by blast
  from DMQ_fifo[OF this] this show ?thesis by blast
qed

text \<open>Every operation of \<open>DistributedMessageQueue\<close> addressed to another server raises an arity error
  and changes nothing: the remote branch passes one argument fewer than the function bound under
  that name takes.\<close>

theorem DMQ_remote_wrong_arity:
  assumes "bound_in DMQ_bindings d" and "key < rpc_size d" and "key \<noteq> me"
  shows "DMQ_Push d me x key st = Inl (Rpc (WrongArity (func_prefix d @ ''_Push'') 2 1)) \<and>
    DMQ_Pop d me key st = Inl (Rpc (WrongArity (func_prefix d @ ''_Pop'') 1 0)) \<and>
    DMQ_Size d me key st = Inl (Rpc (WrongArity (func_prefix d @ ''_Size'') 1 0)) \<and>
    DMQ_WaitForElement d me key sts = Inl (Rpc (WrongArity (func_prefix d @ ''_WaitForElement'') 1 0))"
  using assms
  by (simp add: bound_in_def DMQ_bindings_def DMQ_Push_def DMQ_Pop_def DMQ_Size_def
      DMQ_WaitForElement_def at_server_wrong_arity)

theorem DMQ_remote_wrong_arity_witness:
  "DMQ_Push example_queue 0 (5::nat) 1 DMQ_init = Inl (Rpc (WrongArity ''Q_Push'' 2 1))"
proof -
  have "bound_in DMQ_bindings example_queue" "1 < rpc_size example_queue" "(1::nat) \<noteq> 0"
    by (simp_all add: bound_in_def example_queue_def DMQ_bindings_def um_find_def)
  from DMQ_remote_wrong_arity[OF this, THEN conjunct1, of "5::nat" DMQ_init] show ?thesis
    by (simp add: example_queue_def)
qed

text \<open>Draining a server's priority queue of segment scores returns all its elements, and no element
  is followed by a larger one in the order of the comparator.\<close>

theorem DPQ_drain_sorted:
  "\<exists>xs st'. pop_times (DPQ_Pop SegmentScore_less d me me) (length (st me)) st = Inr (xs, st') \<and>
    st' me = [] \<and> mset xs = mset (st me) \<and> sorted_wrt (\<lambda>a b. \<not> SegmentScore_less a b) xs"
  by (rule score_order.DPQ_pop_all) simp

end
