(* ===== verification/Global_Counters.thy ===== *)
theory Global_Counters
  imports Rpc_Lib
begin

text \<open>
  \<open>src/src/common/distributed_ds/sequencer/global_sequence.h\<close> and \<open>clock/global_clock.h\<close>: a
  64-bit counter and a start time in the shared memory of each server, reached from other servers
  by RPC. The time read from \<open>high_resolution_clock::now()\<close>, in nanoseconds, is an argument.
\<close>

section \<open>Sequences\<close>

definition GlobalSequence_bindings :: "string \<Rightarrow> registry" where
  "GlobalSequence_bindings p = [(p @ ''_GetNextSequence'', 0)]"

definition GlobalSequence_init :: "nat \<Rightarrow> nat" where
  "GlobalSequence_init = (\<lambda>_. 0)"

definition GetNextSequence :: "nat \<Rightarrow> (nat \<Rightarrow> nat) \<Rightarrow> nat \<times> (nat \<Rightarrow> nat)" where
  "GetNextSequence my_server st =
     (let v = (st my_server + 1) mod 2 ^ 64 in (v, st(my_server := v)))"

definition GetNextSequenceServer ::
  "rpc_obj \<Rightarrow> nat \<Rightarrow> nat \<Rightarrow> (nat \<Rightarrow> nat) \<Rightarrow> (nat \<times> (nat \<Rightarrow> nat)) res" where
  "GetNextSequenceServer d my_server server st =
     (if my_server = server
      then (let v = (st my_server + 1) mod 2 ^ 64 in Inr (v, st(my_server := v)))
      else RPC_call (rpc_size d) (rpc_funcs d) server (func_prefix d @ ''_GetNextSequence'') 0
             (Inr (GetNextSequence server st)))"

lemma GetNextSequenceServer_run:
  assumes "bound_in GlobalSequence_bindings d" and "server < rpc_size d"
  shows "GetNextSequenceServer d me server st =
    Inr ((st server + 1) mod 2 ^ 64, st(server := (st server + 1) mod 2 ^ 64))"
  using assms
  by (auto simp: GetNextSequenceServer_def GetNextSequence_def RPC_call_def dispatch_call_def
      enforce_arg_count_def bound_in_def GlobalSequence_bindings_def Let_def)

text \<open>The values handed out by a sequence of calls made on the given servers.\<close>

fun sequence_run ::
  "rpc_obj \<Rightarrow> nat \<Rightarrow> nat list \<Rightarrow> (nat \<Rightarrow> nat) \<Rightarrow> (nat list \<times> (nat \<Rightarrow> nat)) res" where
  "sequence_run d server [] st = Inr ([], st)"
| "sequence_run d server (me # mes) st =
     rbind (GetNextSequenceServer d me server st) (\<lambda>(v, st').
       rbind (sequence_run d server mes st') (\<lambda>(vs, st''). Inr (v # vs, st'')))"

lemma sequence_run_values:
  assumes "bound_in GlobalSequence_bindings d" and "server < rpc_size d"
    and "st server + length mes < 2 ^ 64"
  shows "\<exists>st'. sequence_run d server mes st =
    Inr ([Suc (st server)..<Suc (st server + length mes)], st') \<and> st' server = st server + length mes"
  using assms(3)
proof (induction mes arbitrary: st)
  case (Cons me mes)
  let ?st = "st(server := Suc (st server))"
  have step: "GetNextSequenceServer d me server st = Inr (Suc (st server), ?st)"
    using Cons.prems by (simp add: GetNextSequenceServer_run[OF assms(1,2)])
  have "?st server + length mes < 2 ^ 64" using Cons.prems by simp
  with Cons.IH[of ?st] obtain st' where rest: "sequence_run d server mes ?st =
      Inr ([Suc (Suc (st server))..<Suc (Suc (st server) + length mes)], st')"
    and "st' server = Suc (st server) + length mes"
    unfolding fun_upd_same by blast
  moreover have "[Suc (st server)..<Suc (st server + length (me # mes))] =
      Suc (st server) # [Suc (Suc (st server))..<Suc (Suc (st server) + length mes)]"
    by (simp add: upt_conv_Cons del: upt_Suc)
  ultimately show ?case using step by (simp del: upt_Suc)
qed simp

section \<open>Clock\<close>

definition GlobalClock_bindings :: "string \<Rightarrow> registry" where
  "GlobalClock_bindings p = [(p @ ''_GetTime'', 0)]"

text \<open>\<open>duration_cast\<close> from nanoseconds to microseconds rounds towards zero.\<close>

definition duration_us :: "int \<Rightarrow> int" where
  "duration_us ns = (if 0 \<le> ns then ns div 1000 else - ((- ns) div 1000))"

definition GetTime :: "(nat \<Rightarrow> int) \<Rightarrow> nat \<Rightarrow> int \<Rightarrow> int" where
  "GetTime start my_server t2 = duration_us (t2 - start my_server)"

definition GetTimeServer :: "rpc_obj \<Rightarrow> (nat \<Rightarrow> int) \<Rightarrow> nat \<Rightarrow> nat \<Rightarrow> int \<Rightarrow> int res" where
  "GetTimeServer d start my_server server t2 =
     (if my_server = server then Inr (duration_us (t2 - start my_server))
      else RPC_call (rpc_size d) (rpc_funcs d) server (func_prefix d @ ''GetTime'') 0
             (Inr (GetTime start server t2)))"

lemma duration_us_mono: "a \<le> b \<Longrightarrow> duration_us a \<le> duration_us b"
proof -
  assume ab: "a \<le> b"
  consider "0 \<le> a" | "a < 0" "0 \<le> b" | "b < 0" by linarith
  then show ?thesis
  proof cases
    case 1
    with ab show ?thesis by (simp add: duration_us_def zdiv_mono1)
  next
    case 2
    then have "0 \<le> (- a) div 1000" and "0 \<le> b div 1000"
      by (simp_all add: pos_imp_zdiv_nonneg_iff)
    with 2 show ?thesis by (simp add: duration_us_def)
  next
    case 3
    with ab have "(- b) div 1000 \<le> (- a) div 1000" by (intro zdiv_mono1) simp_all
    with 3 ab show ?thesis by (simp add: duration_us_def)
  qed
qed

section \<open>Properties\<close>

text \<open>Calls of \<open>GetNextSequenceServer\<close> for one server, made on any mix of servers, return consecutive
  and hence distinct numbers, as long as the 64-bit counter does not wrap.\<close>

theorem sequence_consecutive:
  assumes "bound_in GlobalSequence_bindings d" and "server < rpc_size d"
    and "st server + length callers < 2 ^ 64"
  shows "\<exists>vs st'. sequence_run d server callers st = Inr (vs, st') \<and> distinct vs \<and>
    vs = [Suc (st server)..<Suc (st server + length callers)]"
  using sequence_run_values[where st = st, OF assms] distinct_upt by blast

definition example_sequence :: rpc_obj where
  "example_sequence = \<lparr>num_servers = 3, func_prefix = ''FILE_INDEX'', rpc_size = 3,
     rpc_funcs = GlobalSequence_bindings ''FILE_INDEX''\<rparr>"

theorem sequence_consecutive_witness:
  "\<exists>vs st'. sequence_run example_sequence 0 [2, 0, 1] GlobalSequence_init = Inr (vs, st') \<and> distinct vs \<and>
     vs = [Suc (GlobalSequence_init 0)..<Suc (GlobalSequence_init 0 + length [2::nat, 0, 1])]"
  by (rule sequence_consecutive)
    (simp_all add: bound_in_def example_sequence_def GlobalSequence_bindings_def um_find_def
      GlobalSequence_init_def)

text \<open>Asking the clock of another server for the time fails on the remote side: the name in the call
  lacks the underscore of the name the constructor binds.\<close>

theorem clock_remote_unbound:
  assumes "rpc_funcs d = GlobalClock_bindings (func_prefix d)" and "server < rpc_size d" and "server \<noteq> me"
  shows "GetTimeServer d start me server t2 =
    Inl (Rpc (NoSuchFunction (func_prefix d @ ''GetTime'') 0))"
  using assms
  by (simp add: GetTimeServer_def RPC_call_def dispatch_call_def um_find_def GlobalClock_bindings_def)

theorem clock_remote_unbound_witness:
  "GetTimeServer \<lparr>num_servers = 2, func_prefix = ''GLOBAL_CLOCK'', rpc_size = 2,
       rpc_funcs = GlobalClock_bindings ''GLOBAL_CLOCK''\<rparr> (\<lambda>_. 0) 0 1 5000 =
     Inl (Rpc (NoSuchFunction ''GLOBAL_CLOCKGetTime'' 0))"
proof -
  let ?d = "\<lparr>num_servers = 2, func_prefix = ''GLOBAL_CLOCK'', rpc_size = 2,
       rpc_funcs = GlobalClock_bindings ''GLOBAL_CLOCK''\<rparr>"
  have "rpc_funcs ?d = GlobalClock_bindings (func_prefix ?d)" "1 < rpc_size ?d" "(1::nat) \<noteq> 0" by simp_all
  from clock_remote_unbound[OF this, of "\<lambda>_. 0" 5000] show ?thesis by simp
qed

end
