(* ===== verification/Configuration.thy ===== *)
theory Configuration
  imports Distributed_Map Distributed_Queue Global_Counters
begin

text \<open>
  \<open>src/src/common/configuration_manager.h\<close>: the layer hierarchy built from the input arguments, and
  the record \<open>env\<close> of everything the processes share and do not change after start-up: the fields of
  the singleton \<open>ConfigurationManager\<close> the code reads, the RPC object, the values of \<open>std::hash\<close>,
  and the answer of the \<open>du\<close> program the file clients run.

  Members the sources leave uninitialised are \<open>None\<close>: \<open>parse_opts\<close> does not set \<open>is_local\<close> for
  layers given with \<open>-l\<close>, nor \<open>direct_io\<close> for the default layers.
\<close>

section \<open>Building the layers\<close>

record LayerInfo =
  mount_point :: string
  info_capacity_mb :: real
  info_bandwidth :: real
  is_memory :: bool
  is_local :: "bool option"
  info_direct_io :: "bool option"

definition layer_client_type :: "LayerInfo \<Rightarrow> IOClientType res" where
  "layer_client_type info =
     (if is_memory info then Inr SIMPLE_MEMORY
      else case is_local info of
             None \<Rightarrow> Inl (Undefined Uninitialised)
           | Some True \<Rightarrow> Inr LOCAL_POSIX_FILE
           | Some False \<Rightarrow> Inr SHARED_POSIX_FILE)"

definition build_layer :: "nat \<Rightarrow> LayerInfo \<Rightarrow> Layer res" where
  "build_layer order info =
     rbind (layer_client_type info) (\<lambda>t.
       Inr \<lparr>layer_id = to_uint8 (int order + 1), capacity_mb = info_capacity_mb info,
            layer_loc = mount_point info, bandwidth_mbps = info_bandwidth info,
            direct_io = info_direct_io info, io_client_type = t\<rparr>)"

fun build_layers_from :: "nat \<Rightarrow> LayerInfo list \<Rightarrow> layer_ptr res" where
  "build_layers_from order [] = Inr []"
| "build_layers_from order (info # infos) =
     rbind (build_layer order info) (\<lambda>l.
       rbind (build_layers_from (Suc order) infos) (\<lambda>ls. Inr (l # ls)))"

definition BuildLayers :: "LayerInfo list \<Rightarrow> layer_ptr res" where
  "BuildLayers infos = build_layers_from 0 infos"

definition layer_info_ok :: "LayerInfo \<Rightarrow> bool" where
  "layer_info_ok info \<longleftrightarrow> is_memory info \<or> is_local info \<noteq> None"

lemma layer_client_type_ok: "layer_info_ok info \<longleftrightarrow> (\<exists>t. layer_client_type info = Inr t)"
  by (auto simp: layer_info_ok_def layer_client_type_def split: option.splits bool.splits)

lemma build_layers_from_ok:
  assumes "\<forall>i\<in>set infos. layer_info_ok i"
  shows "\<exists>ls. build_layers_from order infos = Inr ls \<and> length ls = length infos \<and>
    map layer_id ls = map (\<lambda>i. to_uint8 (int i + 1)) [order..<order + length infos] \<and>
    map capacity_mb ls = map info_capacity_mb infos \<and> map layer_loc ls = map mount_point infos"
  using assms
proof (induction infos arbitrary: order)
  case (Cons info infos)
  obtain t where t: "layer_client_type info = Inr t"
    using Cons.prems layer_client_type_ok by auto
  obtain ls where "build_layers_from (Suc order) infos = Inr ls" "length ls = length infos"
    "map layer_id ls = map (\<lambda>i. to_uint8 (int i + 1)) [Suc order..<Suc order + length infos]"
    "map capacity_mb ls = map info_capacity_mb infos" "map layer_loc ls = map mount_point infos"
    using Cons.IH[of "Suc order"] Cons.prems by (auto simp del: upt_Suc)
  with t show ?case by (simp add: build_layer_def upt_conv_Cons del: upt_Suc)
qed simp

lemma to_uint8_small: "i < 255 \<Longrightarrow> to_uint8 (int i + 1) = Suc i"
  by (simp add: to_uint8_def)

section \<open>The environment\<close>

type_synonym file_system = "(string \<times> string) list"

record env =
  layers :: layer_ptr
  env_servers :: nat
  max_num_files :: nat
  hash_string :: "string \<Rightarrow> nat"
  hash_size_t :: "nat \<Rightarrow> nat"
  hash_uint8 :: "nat \<Rightarrow> nat"
  env_rpc_size :: nat
  env_funcs :: registry
  du_kb :: "file_system \<Rightarrow> string \<Rightarrow> int"

definition obj_of :: "env \<Rightarrow> string \<Rightarrow> rpc_obj" where
  "obj_of e p = \<lparr>num_servers = env_servers e, func_prefix = p, rpc_size = env_rpc_size e,
     rpc_funcs = env_funcs e\<rparr>"

definition dist_of :: "env \<Rightarrow> string \<Rightarrow> ('k \<Rightarrow> nat) \<Rightarrow> 'k dist" where
  "dist_of e p h = \<lparr>num_servers = env_servers e, func_prefix = p, rpc_size = env_rpc_size e,
     rpc_funcs = env_funcs e, keyHash = h\<rparr>"

text \<open>The names of the distributed objects the server constructs, as their constructors pass them.\<close>

definition file_active_status_d :: "env \<Rightarrow> string dist" where
  "file_active_status_d e = dist_of e ''FILE_ACTIVE_STATUS'' (hash_CharStruct (hash_string e))"

definition layer_score_map_d :: "env \<Rightarrow> nat dist" where
  "layer_score_map_d e = dist_of e ''LAYER_SCORE_MAP'' (hash_uint8 e)"

definition valid_buffered_dataset_d :: "env \<Rightarrow> string dist" where
  "valid_buffered_dataset_d e = dist_of e ''VALID_SEQ'' (hash_CharStruct (hash_string e))"

definition offset_map_d :: "env \<Rightarrow> nat \<Rightarrow> Segment dist" where
  "offset_map_d e i = dist_of e (to_string i @ ''_OFFSET'') (hash_Segment (hash_size_t e))"

definition data_map_d :: "env \<Rightarrow> string dist" where
  "data_map_d e = dist_of e ''DATA_MAP'' (hash_CharStruct (hash_string e))"

text \<open>The names the constructors of \<open>MemoryClient\<close> and \<open>LocalFileClient\<close> bind.\<close>

definition client_bindings :: "string \<Rightarrow> registry" where
  "client_bindings p = [(p @ ''_Read'', 2), (p @ ''_Write'', 2), (p @ ''_Delete'', 1)]"

definition env_wf :: "env \<Rightarrow> bool" where
  "env_wf e \<longleftrightarrow> 0 < env_servers e \<and> env_servers e \<le> env_rpc_size e \<and> layers_wf (layers e) \<and>
     0 < max_num_files e \<and>
     (\<forall>p\<in>{''FILE_ACTIVE_STATUS'', ''LAYER_SCORE_MAP'', ''VALID_SEQ'', ''DATA_MAP'',
           ''LAYER_CHANGED'', ''LAYER_CAPACITY'', ''L_LAYER_CHANGED'', ''L_LAYER_CAPACITY''}.
        bound_in DHM_bindings (obj_of e p)) \<and>
     (\<forall>i < max_num_files e. bound_in DM_bindings (obj_of e (to_string i @ ''_OFFSET''))) \<and>
     (\<forall>p\<in>{''FILE_INDEX'', ''FILE_NUM_SEQ''}. bound_in GlobalSequence_bindings (obj_of e p)) \<and>
     bound_in DMQ_bindings (obj_of e ''APPLICATION_QUEUE'') \<and>
     (\<forall>p\<in>{''MEMORY_CLIENT'', ''LOCAL_FILE_CLIENT''}. bound_in client_bindings (obj_of e p))"

lemma bound_in_dist_of: "bound_in b (dist_of e p h) \<longleftrightarrow> bound_in b (obj_of e p)"
  by (simp add: bound_in_def dist_of_def obj_of_def)

lemma dist_wf_dist_of:
  "dist_wf b (dist_of e p h) \<longleftrightarrow>
    0 < env_servers e \<and> env_servers e \<le> env_rpc_size e \<and> bound_in b (obj_of e p)"
  unfolding dist_wf_def bound_in_dist_of by (simp add: dist_of_def)

lemma env_wf_dists [run_simps]:
  assumes "env_wf e"
  shows "dist_wf DHM_bindings (file_active_status_d e)" "dist_wf DHM_bindings (layer_score_map_d e)"
    "dist_wf DHM_bindings (valid_buffered_dataset_d e)" "dist_wf DHM_bindings (data_map_d e)"
    "i < max_num_files e \<Longrightarrow> dist_wf DM_bindings (offset_map_d e i)"
  using assms
  by (simp_all add: env_wf_def dist_wf_dist_of file_active_status_d_def layer_score_map_d_def
      valid_buffered_dataset_d_def data_map_d_def offset_map_d_def)

lemma env_wf_sequences:
  "env_wf e \<Longrightarrow> bound_in GlobalSequence_bindings (obj_of e ''FILE_INDEX'')"
  "env_wf e \<Longrightarrow> bound_in GlobalSequence_bindings (obj_of e ''FILE_NUM_SEQ'')"
  by (simp_all add: env_wf_def)

lemma env_wf_clients:
  assumes "env_wf e"
  shows "um_find ''MEMORY_CLIENT_Read'' (env_funcs e) = Some 2"
    "um_find ''MEMORY_CLIENT_Write'' (env_funcs e) = Some 2"
    "um_find ''MEMORY_CLIENT_Delete'' (env_funcs e) = Some 1"
    "um_find ''LOCAL_FILE_CLIENT_Read'' (env_funcs e) = Some 2"
    "um_find ''LOCAL_FILE_CLIENT_Write'' (env_funcs e) = Some 2"
    "um_find ''LOCAL_FILE_CLIENT_Delete'' (env_funcs e) = Some 1"
  using assms by (simp_all add: env_wf_def bound_in_def client_bindings_def obj_of_def)

lemma to_string_nonempty: "to_string n \<noteq> []"
  by (subst to_string.simps) simp

text \<open>A concrete environment: two servers, a memory layer above a shared file layer.\<close>

definition example_layers :: layer_ptr where
  "example_layers =
     [\<lparr>layer_id = 1, capacity_mb = 64, layer_loc = ''/ramfs'', bandwidth_mbps = 80000,
       direct_io = None, io_client_type = SIMPLE_MEMORY\<rparr>,
      \<lparr>layer_id = 2, capacity_mb = 1024, layer_loc = ''/pfs'', bandwidth_mbps = 100,
       direct_io = None, io_client_type = SHARED_POSIX_FILE\<rparr>]"

definition example_funcs :: registry where
  "example_funcs =
     concat (map DHM_bindings [''FILE_ACTIVE_STATUS'', ''LAYER_SCORE_MAP'', ''VALID_SEQ'', ''DATA_MAP'',
       ''LAYER_CHANGED'', ''LAYER_CAPACITY'', ''L_LAYER_CHANGED'', ''L_LAYER_CAPACITY'']) @
     concat (map (\<lambda>i. DM_bindings (to_string i @ ''_OFFSET'')) [0..<2]) @
     concat (map GlobalSequence_bindings [''FILE_INDEX'', ''FILE_NUM_SEQ'']) @
     DMQ_bindings ''APPLICATION_QUEUE'' @
     concat (map client_bindings [''MEMORY_CLIENT'', ''LOCAL_FILE_CLIENT''])"

definition example_env :: env where
  "example_env = \<lparr>layers = example_layers, env_servers = 2, max_num_files = 2,
     hash_string = length, hash_size_t = id, hash_uint8 = id, env_rpc_size = 2,
     env_funcs = example_funcs, du_kb = (\<lambda>_ _. 4)\<rparr>"

definition binds :: "registry \<Rightarrow> registry \<Rightarrow> bool" where
  "binds funcs bs \<longleftrightarrow> list_all (\<lambda>b. um_find (fst b) funcs = Some (snd b)) bs"

lemma bound_in_binds: "bound_in b (obj_of e p) \<longleftrightarrow> binds (env_funcs e) (b p)"
  by (simp add: bound_in_def binds_def obj_of_def list_all_iff)

lemma example_funcs_binds:
  "list_all (\<lambda>p. binds example_funcs (DHM_bindings p))
     [''FILE_ACTIVE_STATUS'', ''LAYER_SCORE_MAP'', ''VALID_SEQ'', ''DATA_MAP'',
      ''LAYER_CHANGED'', ''LAYER_CAPACITY'', ''L_LAYER_CHANGED'', ''L_LAYER_CAPACITY'']"
  "list_all (\<lambda>i. binds example_funcs (DM_bindings (to_string i @ ''_OFFSET''))) [0..<2]"
  "list_all (\<lambda>p. binds example_funcs (GlobalSequence_bindings p)) [''FILE_INDEX'', ''FILE_NUM_SEQ'']"
  "binds example_funcs (DMQ_bindings ''APPLICATION_QUEUE'')"
  "list_all (\<lambda>p. binds example_funcs (client_bindings p)) [''MEMORY_CLIENT'', ''LOCAL_FILE_CLIENT'']"
  by code_simp+

lemma example_env_wf: "env_wf example_env"
proof -
  have "layers_wf example_layers" by (simp add: layers_wf_def example_layers_def)
  moreover have "\<forall>i < 2. binds example_funcs (DM_bindings (to_string i @ ''_OFFSET''))"
    using example_funcs_binds(2) by (simp add: list_all_iff)
  ultimately show ?thesis
    using example_funcs_binds(1,3,4,5)
    by (simp add: env_wf_def bound_in_binds example_env_def del: append.simps)
qed

section \<open>Properties\<close>

text \<open>For at most 255 layer descriptions whose placement is initialised, \<open>BuildLayers\<close> returns a chain
  with one layer per description, in order, with ids 1, 2, ... that are pairwise distinct.\<close>

theorem BuildLayers_ids:
  assumes "infos \<noteq> []" and "length infos \<le> 255" and "\<forall>i\<in>set infos. layer_info_ok i"
  shows "\<exists>ls. BuildLayers infos = Inr ls \<and> layers_wf ls \<and> map layer_id ls = [1..<Suc (length infos)] \<and>
    map capacity_mb ls = map info_capacity_mb infos \<and> map layer_loc ls = map mount_point infos"
proof -
  obtain ls where ls: "BuildLayers infos = Inr ls" "length ls = length infos"
    "map layer_id ls = map (\<lambda>i. to_uint8 (int i + 1)) [0..<length infos]"
    "map capacity_mb ls = map info_capacity_mb infos" "map layer_loc ls = map mount_point infos"
    using build_layers_from_ok[OF assms(3), of 0] by (auto simp: BuildLayers_def)
  have "map (\<lambda>i. to_uint8 (int i + 1)) [0..<length infos] = map Suc [0..<length infos]"
    using assms(2) by (intro map_cong) (auto simp: to_uint8_small)
  then have ids: "map layer_id ls = [1..<Suc (length infos)]"
    using ls(3) by (simp add: map_Suc_upt del: upt_Suc)
  then have "distinct (map layer_id ls)" by (simp del: upt_Suc)
  moreover have "ls \<noteq> []" using ls(2) assms(1) by auto
  ultimately have "layers_wf ls" by (simp add: layers_wf_def)
  with ls ids show ?thesis by blast
qed

definition example_infos :: "LayerInfo list" where
  "example_infos =
     [\<lparr>mount_point = ''/ramfs'', info_capacity_mb = 64, info_bandwidth = 80000, is_memory = True,
       is_local = Some True, info_direct_io = None\<rparr>,
      \<lparr>mount_point = ''/pfs'', info_capacity_mb = 1024, info_bandwidth = 100, is_memory = False,
       is_local = Some False, info_direct_io = None\<rparr>]"

theorem BuildLayers_ids_witness:
  "\<exists>ls. BuildLayers example_infos = Inr ls \<and> layers_wf ls \<and>
     map layer_id ls = [1..<Suc (length example_infos)] \<and>
     map capacity_mb ls = map info_capacity_mb example_infos \<and>
     map layer_loc ls = map mount_point example_infos"
  by (rule BuildLayers_ids) (auto simp: example_infos_def layer_info_ok_def)

end
