(* ===== verification/Io_Clients.thy ===== *)
theory Io_Clients
  imports Configuration
begin

text \<open>
  \<open>src/src/common/io_clients/\<close>: the three clients that store file data. \<open>SharedFileClient\<close> works on
  a file system all servers see, \<open>LocalFileClient\<close> on the file system of the server the file name
  hashes to, \<open>MemoryClient\<close> on named shared memory objects of that server, with the metadata in a
  distributed hash map.

  A file system maps paths to contents; opening for writing always succeeds. Calls on a null
  \<open>FILE*\<close>, reads past a buffer and copies of uninitialised bytes are \<open>Undefined\<close>. \<open>fseek\<close> returns
  its status, zero on success, as in C.
\<close>

section \<open>C file operations\<close>

definition file_path :: "Layer \<Rightarrow> string \<Rightarrow> string" where
  "file_path l name = layer_loc l @ FILE_SEPARATOR @ name"

definition file_write :: "string \<Rightarrow> nat \<Rightarrow> string \<Rightarrow> string" where
  "file_write c pos bs =
     (if bs = [] then c
      else take pos (c @ replicate (pos - length c) CHR 0x00) @ bs @ drop (pos + length bs) c)"

definition fs_put :: "string \<Rightarrow> string \<Rightarrow> file_system \<Rightarrow> file_system" where
  "fs_put path c fs = um_insert path c (um_erase path fs)"

text \<open>Reading \<open>n\<close> bytes at an offset of a NUL-terminated buffer.\<close>

definition cstr_bytes :: "string \<Rightarrow> int \<Rightarrow> int \<Rightarrow> string res" where
  "cstr_bytes s off n =
     (if n < 0 then Inl (Undefined OutOfRange)
      else if off < 0 \<or> off + n > int (length s) + 1 then Inl (Undefined BufferOverflow)
      else Inr (take (nat n) (drop (nat off) (s @ [CHR 0x00]))))"

definition fseek_status :: nat where
  "fseek_status = 0"

section \<open>The shared file client\<close>

record file_client =
  files :: file_system
  hasChanged :: "(nat, bool) hash_store"
  layerCapacity :: "(nat, real) hash_store"

definition changed_d :: "env \<Rightarrow> string \<Rightarrow> nat dist" where
  "changed_d e name = dist_of e (name @ ''LAYER_CHANGED'') (hash_uint8 e)"

definition capacity_d :: "env \<Rightarrow> string \<Rightarrow> nat dist" where
  "capacity_d e name = dist_of e (name @ ''LAYER_CAPACITY'') (hash_uint8 e)"

definition SharedFileClient_Read :: "file_system \<Rightarrow> PosixFile \<Rightarrow> PosixFile \<Rightarrow> (ServerStatus \<times> PosixFile) res" where
  "SharedFileClient_Read fs source destination =
     (case um_find (file_path (pf_layer source) (pf_filename source)) fs of
        None \<Rightarrow> Inl (Undefined NullPointer)
      | Some c \<Rightarrow>
          let size = seg_end (pf_segment source) - seg_start (pf_segment source);
              data = take (nat size) (drop (nat (seg_start (pf_segment source))) c)
          in if size < 0 then Inl (Undefined OutOfRange)
             else if length data < nat size then Inl (Undefined Uninitialised)
             else Inr (SERVER_SUCCESS, destination\<lparr>pf_data := data\<rparr>))"

definition mark_changed :: "env \<Rightarrow> string \<Rightarrow> nat \<Rightarrow> Layer \<Rightarrow> bool \<Rightarrow> file_client \<Rightarrow> file_client res" where
  "mark_changed e name me l b fc =
     rbind (DHM_Put (changed_d e name) me (layer_id l) b (hasChanged fc))
       (\<lambda>(_, m). Inr (fc\<lparr>hasChanged := m\<rparr>))"

definition SharedFileClient_Write ::
  "env \<Rightarrow> string \<Rightarrow> nat \<Rightarrow> PosixFile \<Rightarrow> PosixFile \<Rightarrow> file_client \<Rightarrow> (ServerStatus \<times> file_client) res" where
  "SharedFileClient_Write e name me source destination fc =
     (let path = file_path (pf_layer destination) (pf_filename destination);
          seg = pf_segment destination;
          c = (case um_find path (files fc) of None \<Rightarrow> [] | Some c \<Rightarrow> c)
      in rbind (cstr_bytes (pf_data source) 0 (seg_end seg - seg_start seg)) (\<lambda>bs.
         rbind (mark_changed e name me (pf_layer destination) True
                  (fc\<lparr>files := fs_put path (file_write c (nat (seg_start seg)) bs) (files fc)\<rparr>))
           (\<lambda>fc'. Inr (SERVER_SUCCESS, fc'))))"

definition SharedFileClient_Delete ::
  "env \<Rightarrow> string \<Rightarrow> nat \<Rightarrow> PosixFile \<Rightarrow> file_client \<Rightarrow> (ServerStatus \<times> file_client) res" where
  "SharedFileClient_Delete e name me file fc0 =
     rbind (mark_changed e name me (pf_layer file) True fc0) (\<lambda>fc.
       let path = file_path (pf_layer file) (pf_filename file); seg = pf_segment file
       in case um_find path (files fc) of
            None \<Rightarrow> Inl (Undefined NullPointer)
          | Some c \<Rightarrow>
              let end' = fseek_status
              in if to_size_t (seg_end seg - seg_start seg + 1 - int end') = 0
                 then Inr (SERVER_SUCCESS, fc\<lparr>files := um_erase path (files fc)\<rparr>)
                 else
                   let data = take end' c
                   in rbind (if seg_start seg > 0
                             then (if nat (seg_start seg - 1) \<le> length data
                                   then Inr (take (nat (seg_start seg - 1)) data)
                                   else Inl (Undefined BufferOverflow))
                             else Inr []) (\<lambda>front.
                      rbind (if to_size_t (seg_end seg) < end'
                             then (if end' + 1 \<le> length data
                                   then Inr (drop (nat (seg_end seg)) data)
                                   else Inl (Undefined BufferOverflow))
                             else Inr []) (\<lambda>back.
                      rbind (mark_changed e name me (pf_layer file) True
                               (fc\<lparr>files := fs_put path (front @ back) (files fc)\<rparr>))
                        (\<lambda>fc'. Inr (SERVER_SUCCESS, fc')))))"

text \<open>The usage of a layer: the cached value while nothing changed, else what \<open>du -s\<close> prints (in units
  of 1024 bytes) minus 4.\<close>

definition SharedFileClient_GetCurrentUsage ::
  "env \<Rightarrow> string \<Rightarrow> nat \<Rightarrow> Layer \<Rightarrow> file_client \<Rightarrow> (real \<times> file_client) res" where
  "SharedFileClient_GetCurrentUsage e name me layer fc =
     rbind (DHM_Get (capacity_d e name) me (layer_id layer) (layerCapacity fc)) (\<lambda>capacity_iter.
     rbind (case capacity_iter of
              None \<Rightarrow> Inr None
            | Some c \<Rightarrow> rbind (DHM_Get (changed_d e name) me (layer_id layer) (hasChanged fc))
                (\<lambda>changed_iter. Inr (if changed_iter = None \<or> changed_iter = Some False then Some c else None)))
       (\<lambda>cached. case cached of
          Some c \<Rightarrow> Inr (c, fc)
        | None \<Rightarrow>
            let size = real_of_int (du_kb e (files fc) (layer_loc layer) - 4)
            in rbind (DHM_Put (capacity_d e name) me (layer_id layer) size (layerCapacity fc)) (\<lambda>(_, m).
               rbind (mark_changed e name me layer False (fc\<lparr>layerCapacity := m\<rparr>)) (\<lambda>fc'.
                 Inr (size, fc')))))"

section \<open>The memory client\<close>

record memory_client =
  data_map :: "(string, PosixFile) hash_store"
  shm :: "nat \<Rightarrow> (string \<times> string) list"

text \<open>The server a file name belongs to: \<open>std::hash(filename) % CONF->num_servers\<close>.\<close>

definition client_server :: "env \<Rightarrow> string \<Rightarrow> nat res" where
  "client_server e name =
     (if env_servers e = 0 then Inl (Undefined DivisionByZero)
      else Inr (hash_CharStruct (hash_string e) name mod env_servers e))"

definition shm_open :: "nat \<Rightarrow> string \<Rightarrow> memory_client \<Rightarrow> string res" where
  "shm_open s name mc = (case um_find name (shm mc s) of None \<Rightarrow> Inl Interprocess | Some str \<Rightarrow> Inr str)"

definition shm_remove :: "nat \<Rightarrow> string \<Rightarrow> memory_client \<Rightarrow> memory_client" where
  "shm_remove s name mc = mc\<lparr>shm := (shm mc)(s := um_erase name (shm mc s))\<rparr>"

definition shm_store :: "nat \<Rightarrow> string \<Rightarrow> string \<Rightarrow> memory_client \<Rightarrow> memory_client" where
  "shm_store s name str mc = mc\<lparr>shm := (shm mc)(s := fs_put name str (shm mc s))\<rparr>"

definition data_map_put :: "env \<Rightarrow> nat \<Rightarrow> string \<Rightarrow> PosixFile \<Rightarrow> memory_client \<Rightarrow> memory_client res" where
  "data_map_put e me name f mc =
     rbind (DHM_Put (data_map_d e) me name f (data_map mc)) (\<lambda>(_, m). Inr (mc\<lparr>data_map := m\<rparr>))"

definition memory_read_local ::
  "env \<Rightarrow> nat \<Rightarrow> PosixFile \<Rightarrow> PosixFile \<Rightarrow> memory_client \<Rightarrow> (ServerStatus \<times> PosixFile) res" where
  "memory_read_local e me source destination mc =
     rbind (DHM_Get (data_map_d e) me (pf_filename source) (data_map mc)) (\<lambda>iter.
       case iter of
         None \<Rightarrow> Inr (SERVER_FAILED, destination)
       | Some f \<Rightarrow>
           rbind (shm_open me (pf_filename f) mc) (\<lambda>str.
           rbind (cstr_bytes str (seg_start (pf_segment source)) (PosixFile_GetSize source)) (\<lambda>bs.
             Inr (SERVER_SUCCESS, destination\<lparr>pf_data := bs\<rparr>))))"

text \<open>The RPC passes \<open>destination\<close> by value: the data the remote handler reads into its copy is not
  returned.\<close>

definition MemoryClient_Read ::
  "env \<Rightarrow> nat \<Rightarrow> PosixFile \<Rightarrow> PosixFile \<Rightarrow> memory_client \<Rightarrow> (ServerStatus \<times> PosixFile) res" where
  "MemoryClient_Read e me source destination mc =
     rbind (client_server e (pf_filename source)) (\<lambda>hash_val.
       if hash_val = me then memory_read_local e me source destination mc
       else rbind (RPC_call (env_rpc_size e) (env_funcs e) hash_val ''MEMORY_CLIENT_Read'' 2
                     (memory_read_local e hash_val source destination mc))
              (\<lambda>(status, _). Inr (status, destination)))"

text \<open>A new shared memory object holding the first \<open>GetSize\<close> bytes of the source's data, with the
  destination, less its data, as its metadata.\<close>

definition memory_create ::
  "env \<Rightarrow> nat \<Rightarrow> PosixFile \<Rightarrow> PosixFile \<Rightarrow> memory_client \<Rightarrow> memory_client res" where
  "memory_create e me source destination mc =
     rbind (cstr_bytes (pf_data source) 0 (PosixFile_GetSize source)) (\<lambda>bs.
       data_map_put e me (pf_filename destination) (destination\<lparr>pf_data := []\<rparr>)
         (shm_store me (pf_filename destination) bs (shm_remove me (pf_filename destination) mc)))"

text \<open>Overwriting part of an existing object, through a heap buffer of the old size.\<close>

definition memory_overwrite ::
  "nat \<Rightarrow> PosixFile \<Rightarrow> PosixFile \<Rightarrow> memory_client \<Rightarrow> memory_client res" where
  "memory_overwrite me source old mc =
     rbind (shm_open me (pf_filename old) mc) (\<lambda>str.
     rbind (cstr_bytes (pf_data source) 0 (PosixFile_GetSize source)) (\<lambda>bs.
       let n = PosixFile_GetSize old; off = seg_start (pf_segment source)
       in if int (length str) > n \<or> off < 0 \<or> off + int (length bs) > n
          then Inl (Undefined BufferOverflow)
          else if int (length (file_write str (nat off) bs)) < n \<or> int (length str) < off
          then Inl (Undefined Uninitialised)
          else Inr (shm_store me (pf_filename old) (file_write str (nat off) bs) mc)))"

text \<open>Growing an existing object: the first \<open>start + 1\<close> old bytes, then the new ones, in a buffer of
  \<open>new_size\<close> bytes, all of which are stored.\<close>

definition memory_extend ::
  "env \<Rightarrow> nat \<Rightarrow> PosixFile \<Rightarrow> PosixFile \<Rightarrow> PosixFile \<Rightarrow> memory_client \<Rightarrow> memory_client res" where
  "memory_extend e me source destination old mc =
     rbind (shm_open me (pf_filename old) mc) (\<lambda>str.
     rbind (cstr_bytes (pf_data source) 0 (PosixFile_GetSize source)) (\<lambda>bs.
       let off = seg_start (pf_segment source);
           new_size = PosixFile_GetSize old - off + 1 + PosixFile_GetSize source
       in rbind (cstr_bytes str 0 (off + 1)) (\<lambda>front.
            if int (length front) > new_size \<or> off < 0 \<or> off + int (length bs) > new_size
            then Inl (Undefined BufferOverflow)
            else let data = file_write front (nat off) bs
                 in if int (length data) < new_size then Inl (Undefined Uninitialised)
                    else data_map_put e me (pf_filename destination)
                           (old\<lparr>pf_segment := (pf_segment old)\<lparr>seg_end := new_size\<rparr>, pf_data := []\<rparr>)
                           (shm_store me (pf_filename destination) data
                             (shm_remove me (pf_filename old) mc)))))"

definition memory_write_local ::
  "env \<Rightarrow> nat \<Rightarrow> PosixFile \<Rightarrow> PosixFile \<Rightarrow> memory_client \<Rightarrow> (ServerStatus \<times> memory_client) res" where
  "memory_write_local e me source destination mc =
     rbind (DHM_Get (data_map_d e) me (pf_filename destination) (data_map mc)) (\<lambda>iter.
     rbind (case iter of
              Some old \<Rightarrow>
                if PosixFile_GetSize old = PosixFile_GetSize source \<and> seg_start (pf_segment source) = 0
                then memory_create e me source destination mc
                else if PosixFile_GetSize old \<ge> seg_end (pf_segment source)
                then memory_overwrite me source old mc
                else memory_extend e me source destination old mc
            | None \<Rightarrow> memory_create e me source destination mc)
       (\<lambda>mc'. Inr (SERVER_SUCCESS, mc')))"

definition MemoryClient_Write ::
  "env \<Rightarrow> nat \<Rightarrow> PosixFile \<Rightarrow> PosixFile \<Rightarrow> memory_client \<Rightarrow> (ServerStatus \<times> memory_client) res" where
  "MemoryClient_Write e me source destination mc =
     rbind (client_server e (pf_filename source)) (\<lambda>hash_val.
       at_server (env_rpc_size e) (env_funcs e) ''MEMORY_CLIENT_Write'' 2 hash_val me
         (\<lambda>s. memory_write_local e s source destination mc))"

text \<open>Deleting part of an object copies its remainder into a heap buffer that is one byte too short
  for it, and leaves the object itself as it is.\<close>

definition memory_delete_local ::
  "env \<Rightarrow> nat \<Rightarrow> PosixFile \<Rightarrow> memory_client \<Rightarrow> (ServerStatus \<times> memory_client) res" where
  "memory_delete_local e me file mc =
     rbind (DHM_Get (data_map_d e) me (pf_filename file) (data_map mc)) (\<lambda>iter.
       case iter of
         None \<Rightarrow> Inr (SERVER_SUCCESS, mc)
       | Some old \<Rightarrow>
           if PosixFile_GetSize old = PosixFile_GetSize file \<and> seg_start (pf_segment file) = 0
           then rbind (DHM_Erase (data_map_d e) me (pf_filename file) (data_map mc)) (\<lambda>(_, m).
                  Inr (SERVER_SUCCESS, shm_remove me (pf_filename old) (mc\<lparr>data_map := m\<rparr>)))
           else if PosixFile_GetSize old \<ge> seg_end (pf_segment file)
           then rbind (shm_open me (pf_filename old) mc) (\<lambda>str.
                  let room = PosixFile_GetSize old - PosixFile_GetSize file;
                      off = seg_start (pf_segment file);
                      rest = PosixFile_GetSize old - seg_end (pf_segment file)
                  in rbind (if off > 0 then cstr_bytes str 0 off else Inr []) (\<lambda>front.
                     rbind (cstr_bytes str (seg_end (pf_segment file)) rest) (\<lambda>back.
                       if room < 0 \<or> int (length front) > room \<or> off < 0 \<or>
                          (back \<noteq> [] \<and> off + int (length back) > room)
                       then Inl (Undefined BufferOverflow)
                       else rbind (data_map_put e me (pf_filename file)
                              (old\<lparr>pf_segment := (pf_segment old)\<lparr>seg_end := room\<rparr>\<rparr>) mc)
                              (\<lambda>mc'. Inr (SERVER_SUCCESS, mc')))))
           else Inr (SERVER_SUCCESS, mc))"

definition MemoryClient_Delete ::
  "env \<Rightarrow> nat \<Rightarrow> PosixFile \<Rightarrow> memory_client \<Rightarrow> (ServerStatus \<times> memory_client) res" where
  "MemoryClient_Delete e me file mc =
     rbind (client_server e (pf_filename file)) (\<lambda>hash_val.
       at_server (env_rpc_size e) (env_funcs e) ''MEMORY_CLIENT_Delete'' 1 hash_val me
         (\<lambda>s. memory_delete_local e s file mc))"

definition MemoryClient_GetCurrentUsage :: "env \<Rightarrow> nat \<Rightarrow> Layer \<Rightarrow> memory_client \<Rightarrow> real res" where
  "MemoryClient_GetCurrentUsage e me layer mc =
     rbind (DHM_GetAllData (data_map_d e) me (data_map mc)) (\<lambda>datas.
       Inr (foldl (\<lambda>total data. total + real_of_int (PosixFile_GetSize (snd data))) 0 datas))"

section \<open>The local file client\<close>

text \<open>A subclass of the shared file client whose metadata maps are prefixed \<open>L_\<close> and whose files live
  on the server the file name hashes to.\<close>

record local_client =
  local_files :: "nat \<Rightarrow> file_system"
  local_changed :: "(nat, bool) hash_store"
  local_capacity :: "(nat, real) hash_store"

definition local_view :: "nat \<Rightarrow> local_client \<Rightarrow> file_client" where
  "local_view s lc =
     \<lparr>files = local_files lc s, hasChanged = local_changed lc, layerCapacity = local_capacity lc\<rparr>"

definition local_update :: "nat \<Rightarrow> file_client \<Rightarrow> local_client \<Rightarrow> local_client" where
  "local_update s fc lc =
     \<lparr>local_files = (local_files lc)(s := files fc), local_changed = hasChanged fc,
      local_capacity = layerCapacity fc\<rparr>"

definition LocalFileClient_Read ::
  "env \<Rightarrow> nat \<Rightarrow> PosixFile \<Rightarrow> PosixFile \<Rightarrow> local_client \<Rightarrow> (ServerStatus \<times> PosixFile) res" where
  "LocalFileClient_Read e me source destination lc =
     rbind (client_server e (pf_filename source)) (\<lambda>hash_val.
       if hash_val = me then SharedFileClient_Read (local_files lc me) source destination
       else rbind (RPC_call (env_rpc_size e) (env_funcs e) hash_val ''LOCAL_FILE_CLIENT_Read'' 2
                     (SharedFileClient_Read (local_files lc hash_val) source destination))
              (\<lambda>(status, _). Inr (status, destination)))"

definition LocalFileClient_Write ::
  "env \<Rightarrow> nat \<Rightarrow> PosixFile \<Rightarrow> PosixFile \<Rightarrow> local_client \<Rightarrow> (ServerStatus \<times> local_client) res" where
  "LocalFileClient_Write e me source destination lc =
     rbind (client_server e (pf_filename source)) (\<lambda>hash_val.
       at_server (env_rpc_size e) (env_funcs e) ''LOCAL_FILE_CLIENT_Write'' 2 hash_val me
         (\<lambda>s. rbind (SharedFileClient_Write e ''L_'' s source destination (local_view s lc))
            (\<lambda>(status, fc). Inr (status, local_update s fc lc))))"

definition LocalFileClient_Delete ::
  "env \<Rightarrow> nat \<Rightarrow> PosixFile \<Rightarrow> local_client \<Rightarrow> (ServerStatus \<times> local_client) res" where
  "LocalFileClient_Delete e me file lc =
     rbind (client_server e (pf_filename file)) (\<lambda>hash_val.
       at_server (env_rpc_size e) (env_funcs e) ''LOCAL_FILE_CLIENT_Delete'' 1 hash_val me
         (\<lambda>s. rbind (SharedFileClient_Delete e ''L_'' s file (local_view s lc))
            (\<lambda>(status, fc). Inr (status, local_update s fc lc))))"

definition LocalFileClient_GetCurrentUsage ::
  "env \<Rightarrow> nat \<Rightarrow> Layer \<Rightarrow> local_client \<Rightarrow> (real \<times> local_client) res" where
  "LocalFileClient_GetCurrentUsage e me layer lc =
     rbind (SharedFileClient_GetCurrentUsage e ''L_'' me layer (local_view me lc))
       (\<lambda>(size, fc). Inr (size, local_update me fc lc))"

section \<open>The client factory\<close>

text \<open>\<open>IOClientFactory::GetClient\<close> selects one of the three singletons; the virtual calls of \<open>IOClient\<close>
  on its result are the case distinctions below.\<close>

record io_state =
  shared_client :: file_client
  local_file_client :: local_client
  memory_store :: memory_client

definition client_Read ::
  "env \<Rightarrow> nat \<Rightarrow> IOClientType \<Rightarrow> PosixFile \<Rightarrow> PosixFile \<Rightarrow> io_state \<Rightarrow> (ServerStatus \<times> PosixFile) res" where
  "client_Read e me t source destination io =
     (case t of
        SHARED_POSIX_FILE \<Rightarrow> SharedFileClient_Read (files (shared_client io)) source destination
      | LOCAL_POSIX_FILE \<Rightarrow> LocalFileClient_Read e me source destination (local_file_client io)
      | SIMPLE_MEMORY \<Rightarrow> MemoryClient_Read e me source destination (memory_store io))"

definition client_Write ::
  "env \<Rightarrow> nat \<Rightarrow> IOClientType \<Rightarrow> PosixFile \<Rightarrow> PosixFile \<Rightarrow> io_state \<Rightarrow> (ServerStatus \<times> io_state) res" where
  "client_Write e me t source destination io =
     (case t of
        SHARED_POSIX_FILE \<Rightarrow>
          rbind (SharedFileClient_Write e [] me source destination (shared_client io))
            (\<lambda>(status, c). Inr (status, io\<lparr>shared_client := c\<rparr>))
      | LOCAL_POSIX_FILE \<Rightarrow>
          rbind (LocalFileClient_Write e me source destination (local_file_client io))
            (\<lambda>(status, c). Inr (status, io\<lparr>local_file_client := c\<rparr>))
      | SIMPLE_MEMORY \<Rightarrow>
          rbind (MemoryClient_Write e me source destination (memory_store io))
            (\<lambda>(status, c). Inr (status, io\<lparr>memory_store := c\<rparr>)))"

definition client_Delete ::
  "env \<Rightarrow> nat \<Rightarrow> IOClientType \<Rightarrow> PosixFile \<Rightarrow> io_state \<Rightarrow> (ServerStatus \<times> io_state) res" where
  "client_Delete e me t file io =
     (case t of
        SHARED_POSIX_FILE \<Rightarrow>
          rbind (SharedFileClient_Delete e [] me file (shared_client io))
            (\<lambda>(status, c). Inr (status, io\<lparr>shared_client := c\<rparr>))
      | LOCAL_POSIX_FILE \<Rightarrow>
          rbind (LocalFileClient_Delete e me file (local_file_client io))
            (\<lambda>(status, c). Inr (status, io\<lparr>local_file_client := c\<rparr>))
      | SIMPLE_MEMORY \<Rightarrow>
          rbind (MemoryClient_Delete e me file (memory_store io))
            (\<lambda>(status, c). Inr (status, io\<lparr>memory_store := c\<rparr>)))"

definition client_GetCurrentUsage ::
  "env \<Rightarrow> nat \<Rightarrow> IOClientType \<Rightarrow> Layer \<Rightarrow> io_state \<Rightarrow> (real \<times> io_state) res" where
  "client_GetCurrentUsage e me t layer io =
     (case t of
        SHARED_POSIX_FILE \<Rightarrow>
          rbind (SharedFileClient_GetCurrentUsage e [] me layer (shared_client io))
            (\<lambda>(size, c). Inr (size, io\<lparr>shared_client := c\<rparr>))
      | LOCAL_POSIX_FILE \<Rightarrow>
          rbind (LocalFileClient_GetCurrentUsage e me layer (local_file_client io))
            (\<lambda>(size, c). Inr (size, io\<lparr>local_file_client := c\<rparr>))
      | SIMPLE_MEMORY \<Rightarrow>
          rbind (MemoryClient_GetCurrentUsage e me layer (memory_store io))
            (\<lambda>size. Inr (size, io)))"

section \<open>The contract of a storage client\<close>

text \<open>What \<open>DataManager\<close> relies on: a file written as a whole object can be read back, up to the number
  of bytes \<open>len\<close> the client keeps of it, and objects stored under other keys are not affected.\<close>

locale io_client =
  fixes invar :: "'s \<Rightarrow> bool"
    and accepts :: "'s \<Rightarrow> PosixFile \<Rightarrow> bool"
    and key :: "PosixFile \<Rightarrow> string"
    and len :: "PosixFile \<Rightarrow> nat"
    and wr :: "PosixFile \<Rightarrow> PosixFile \<Rightarrow> 's \<Rightarrow> (ServerStatus \<times> 's) res"
    and rd :: "PosixFile \<Rightarrow> PosixFile \<Rightarrow> 's \<Rightarrow> (ServerStatus \<times> PosixFile) res"
  assumes write_ok: "invar s \<Longrightarrow> accepts s f \<Longrightarrow> \<exists>s'. wr f f s = Inr (SERVER_SUCCESS, s') \<and> invar s' \<and>
      (\<forall>d. rd f d s' = Inr (SERVER_SUCCESS, d\<lparr>pf_data := take (len f) (pf_data f)\<rparr>)) \<and>
      (\<forall>g. key g \<noteq> key f \<longrightarrow> accepts s' g = accepts s g \<and> (\<forall>d. rd g d s' = rd g d s))"
begin

lemma write_read:
  assumes "invar s" and "accepts s f" and "wr f f s = Inr (status, s')"
  shows "status = SERVER_SUCCESS" and "invar s'"
    and "rd f d s' = Inr (SERVER_SUCCESS, d\<lparr>pf_data := take (len f) (pf_data f)\<rparr>)"
    and "key g \<noteq> key f \<Longrightarrow> rd g d s' = rd g d s"
  using write_ok[OF assms(1,2)] assms(3) by auto

text \<open>Writing a list of files with distinct keys keeps each of them readable.\<close>

lemma write_all:
  assumes "invar s" and "\<forall>f\<in>set fs. accepts s f" and "distinct (map key fs)"
  shows "\<exists>s'. rfold (\<lambda>f s. rbind (wr f f s) (\<lambda>r. Inr (snd r))) fs s = Inr s' \<and> invar s' \<and>
    (\<forall>f\<in>set fs. \<forall>d. rd f d s' = Inr (SERVER_SUCCESS, d\<lparr>pf_data := take (len f) (pf_data f)\<rparr>)) \<and>
    (\<forall>g d. key g \<notin> key ` set fs \<longrightarrow> rd g d s' = rd g d s)"
  using assms
proof (induction fs arbitrary: s)
  case (Cons f fs)
  obtain s1 where s1: "wr f f s = Inr (SERVER_SUCCESS, s1)" "invar s1"
    "\<forall>d. rd f d s1 = Inr (SERVER_SUCCESS, d\<lparr>pf_data := take (len f) (pf_data f)\<rparr>)"
    "\<forall>g. key g \<noteq> key f \<longrightarrow> accepts s1 g = accepts s g \<and> (\<forall>d. rd g d s1 = rd g d s)"
    using write_ok[OF Cons.prems(1), of f] Cons.prems(2) by auto
  have "accepts s1 g" if "g \<in> set fs" for g
  proof -
    have "key g \<noteq> key f" using that Cons.prems(3) by (metis distinct.simps(2) image_eqI list.simps(9) set_map)
    then show ?thesis using that s1(4) Cons.prems(2) by simp
  qed
  then obtain s2 where s2: "rfold (\<lambda>f s. rbind (wr f f s) (\<lambda>r. Inr (snd r))) fs s1 = Inr s2" "invar s2"
    "\<forall>f\<in>set fs. \<forall>d. rd f d s2 = Inr (SERVER_SUCCESS, d\<lparr>pf_data := take (len f) (pf_data f)\<rparr>)"
    "\<forall>g d. key g \<notin> key ` set fs \<longrightarrow> rd g d s2 = rd g d s1"
    using Cons.IH[OF s1(2)] Cons.prems(3) by auto
  with s1 Cons.prems(3) show ?case by (intro exI[of _ s2]) auto
qed simp

end

section \<open>The memory client keeps the contract\<close>

definition whole_object :: "PosixFile \<Rightarrow> bool" where
  "whole_object f \<longleftrightarrow> seg_start (pf_segment f) = 0 \<and> PosixFile_GetSize f = int (length (pf_data f))"

definition memory_invar :: "env \<Rightarrow> memory_client \<Rightarrow> bool" where
  "memory_invar e mc \<longleftrightarrow> env_wf e \<and> dhm_invar (data_map_d e) (data_map mc) \<and>
     (\<forall>k f. dhm_lookup (data_map_d e) (data_map mc) k = Some f \<longrightarrow> pf_filename f = k)"

definition memory_accepts :: "env \<Rightarrow> nat \<Rightarrow> memory_client \<Rightarrow> PosixFile \<Rightarrow> bool" where
  "memory_accepts e me mc f \<longleftrightarrow> whole_object f \<and> client_server e (pf_filename f) = Inr me \<and>
     (\<forall>old. dhm_lookup (data_map_d e) (data_map mc) (pf_filename f) = Some old \<longrightarrow>
        PosixFile_GetSize old = PosixFile_GetSize f)"

lemma cstr_bytes_all: "cstr_bytes s 0 (int (length s)) = Inr s"
  by (simp add: cstr_bytes_def)

lemma data_map_put_run:
  assumes "memory_invar e mc" and "pf_filename f = name"
  shows "\<exists>mc'. data_map_put e me name f mc = Inr mc' \<and> memory_invar e mc' \<and> shm mc' = shm mc \<and>
    dhm_lookup (data_map_d e) (data_map mc') = (dhm_lookup (data_map_d e) (data_map mc))(name \<mapsto> f)"
proof -
  obtain m where "DHM_Put (data_map_d e) me name f (data_map mc) = Inr (True, m)"
    "dhm_invar (data_map_d e) m"
    "dhm_lookup (data_map_d e) m = (dhm_lookup (data_map_d e) (data_map mc))(name \<mapsto> f)"
    using dhm.put_ok[of "data_map_d e" "data_map mc" me name f] assms(1) by (auto simp: memory_invar_def)
  with assms show ?thesis
    by (auto simp: data_map_put_def memory_invar_def)
qed

lemma um_find_fs_put: "um_find k (fs_put p c fs) = (if k = p then Some c else um_find k fs)"
  by (auto simp: fs_put_def um_find_insert um_find_erase)

lemma um_find_shm_store:
  "um_find k (shm (shm_store me name bs mc) s) =
    (if s = me \<and> k = name then Some bs else um_find k (shm mc s))"
  by (simp add: shm_store_def um_find_fs_put)

lemma um_find_shm_remove:
  "um_find k (shm (shm_remove me name mc) s) =
    (if s = me \<and> k = name then None else um_find k (shm mc s))"
  by (simp add: shm_remove_def um_find_erase)

lemma memory_invar_shm [simp]:
  "memory_invar e (shm_store me name bs mc) = memory_invar e mc"
  "memory_invar e (shm_remove me name mc) = memory_invar e mc"
  "data_map (shm_store me name bs mc) = data_map mc"
  "data_map (shm_remove me name mc) = data_map mc"
  by (simp_all add: memory_invar_def shm_store_def shm_remove_def)

lemma memory_Get: "memory_invar e mc \<Longrightarrow> DHM_Get (data_map_d e) me k (data_map mc) =
    Inr (dhm_lookup (data_map_d e) (data_map mc) k)"
  by (simp add: memory_invar_def dhm.get_lookup)

lemma memory_create_ok:
  assumes "memory_invar e mc" and "whole_object f"
  shows "\<exists>mc'. memory_create e me f f mc = Inr mc' \<and> memory_invar e mc' \<and>
    dhm_lookup (data_map_d e) (data_map mc') =
      (dhm_lookup (data_map_d e) (data_map mc))(pf_filename f \<mapsto> f\<lparr>pf_data := []\<rparr>) \<and>
    (\<forall>s k. um_find k (shm mc' s) =
      (if s = me \<and> k = pf_filename f then Some (pf_data f) else um_find k (shm mc s)))"
proof -
  let ?mc = "shm_store me (pf_filename f) (pf_data f) (shm_remove me (pf_filename f) mc)"
  obtain mc' where mc': "data_map_put e me (pf_filename f) (f\<lparr>pf_data := []\<rparr>) ?mc = Inr mc'"
    "memory_invar e mc'" "shm mc' = shm ?mc"
    "dhm_lookup (data_map_d e) (data_map mc') =
       (dhm_lookup (data_map_d e) (data_map ?mc))(pf_filename f \<mapsto> f\<lparr>pf_data := []\<rparr>)"
    using data_map_put_run[of e ?mc "f\<lparr>pf_data := []\<rparr>" "pf_filename f" me] assms(1) by auto
  from assms(2) have "memory_create e me f f mc = Inr mc'"
    using mc'(1) by (simp add: memory_create_def whole_object_def cstr_bytes_all)
  with mc' show ?thesis by (auto simp: um_find_shm_store um_find_shm_remove)
qed

lemma memory_read_local_cong:
  assumes "memory_invar e mc" and "memory_invar e mc'"
    and "dhm_lookup (data_map_d e) (data_map mc') (pf_filename g) =
      dhm_lookup (data_map_d e) (data_map mc) (pf_filename g)"
    and "um_find (pf_filename g) (shm mc' s) = um_find (pf_filename g) (shm mc s)"
  shows "memory_read_local e s g d mc' = memory_read_local e s g d mc"
proof (cases "dhm_lookup (data_map_d e) (data_map mc) (pf_filename g)")
  case None
  with assms show ?thesis by (simp add: memory_read_local_def memory_Get)
next
  case (Some f)
  then have "pf_filename f = pf_filename g" using assms(1) by (simp add: memory_invar_def)
  with Some assms show ?thesis by (simp add: memory_read_local_def memory_Get shm_open_def)
qed

lemma memory_read_back:
  assumes "memory_invar e mc" and "whole_object f"
    and "dhm_lookup (data_map_d e) (data_map mc) (pf_filename f) = Some (f\<lparr>pf_data := []\<rparr>)"
    and "um_find (pf_filename f) (shm mc me) = Some (pf_data f)"
  shows "memory_read_local e me f d mc = Inr (SERVER_SUCCESS, d\<lparr>pf_data := pf_data f\<rparr>)"
  using assms
  by (simp add: memory_read_local_def memory_Get shm_open_def whole_object_def cstr_bytes_all)

lemma memory_write_ok:
  assumes "memory_invar e mc" and "memory_accepts e me mc f"
  shows "\<exists>mc'. MemoryClient_Write e me f f mc = Inr (SERVER_SUCCESS, mc') \<and> memory_invar e mc' \<and>
    (\<forall>d. MemoryClient_Read e me f d mc' = Inr (SERVER_SUCCESS, d\<lparr>pf_data := pf_data f\<rparr>)) \<and>
    (\<forall>g. pf_filename g \<noteq> pf_filename f \<longrightarrow> memory_accepts e me mc' g = memory_accepts e me mc g \<and>
       (\<forall>d. MemoryClient_Read e me g d mc' = MemoryClient_Read e me g d mc))"
proof -
  have whole: "whole_object f" and srv: "client_server e (pf_filename f) = Inr me"
    using assms(2) by (simp_all add: memory_accepts_def)
  obtain mc' where mc': "memory_create e me f f mc = Inr mc'" "memory_invar e mc'"
    "dhm_lookup (data_map_d e) (data_map mc') =
       (dhm_lookup (data_map_d e) (data_map mc))(pf_filename f \<mapsto> f\<lparr>pf_data := []\<rparr>)"
    "\<forall>s k. um_find k (shm mc' s) =
       (if s = me \<and> k = pf_filename f then Some (pf_data f) else um_find k (shm mc s))"
    using memory_create_ok[OF assms(1) whole, of me] by blast
  have "memory_write_local e me f f mc = Inr (SERVER_SUCCESS, mc')"
    using assms mc'(1)
    by (auto simp: memory_write_local_def memory_Get memory_accepts_def whole_object_def split: option.split)
  then have "MemoryClient_Write e me f f mc = Inr (SERVER_SUCCESS, mc')"
    using srv by (simp add: MemoryClient_Write_def at_server_local)
  moreover have "MemoryClient_Read e me f d mc' = Inr (SERVER_SUCCESS, d\<lparr>pf_data := pf_data f\<rparr>)" for d
    using srv mc'(3,4) memory_read_back[OF mc'(2) whole] by (simp add: MemoryClient_Read_def)
  moreover have "memory_accepts e me mc' g = memory_accepts e me mc g \<and>
      MemoryClient_Read e me g d mc' = MemoryClient_Read e me g d mc" if "pf_filename g \<noteq> pf_filename f" for g d
  proof
    show "memory_accepts e me mc' g = memory_accepts e me mc g"
      using that mc'(3) by (simp add: memory_accepts_def)
    have rd: "memory_read_local e s g d mc' = memory_read_local e s g d mc" for s
      using that mc'(3,4) by (intro memory_read_local_cong[OF assms(1) mc'(2)]) simp_all
    show "MemoryClient_Read e me g d mc' = MemoryClient_Read e me g d mc"
      unfolding MemoryClient_Read_def rd ..
  qed
  ultimately show ?thesis using mc'(2) by blast
qed

interpretation memory: io_client "memory_invar e" "memory_accepts e me" pf_filename
    "\<lambda>f. nat (PosixFile_GetSize f)" "MemoryClient_Write e me" "MemoryClient_Read e me" for e me
proof unfold_locales
  fix mc f
  assume "memory_invar e mc" and acc: "memory_accepts e me mc f"
  moreover have "take (nat (PosixFile_GetSize f)) (pf_data f) = pf_data f"
    using acc by (simp add: memory_accepts_def whole_object_def)
  ultimately show "\<exists>s'. MemoryClient_Write e me f f mc = Inr (SERVER_SUCCESS, s') \<and> memory_invar e s' \<and>
      (\<forall>d. MemoryClient_Read e me f d s' =
         Inr (SERVER_SUCCESS, d\<lparr>pf_data := take (nat (PosixFile_GetSize f)) (pf_data f)\<rparr>)) \<and>
      (\<forall>g. pf_filename g \<noteq> pf_filename f \<longrightarrow> memory_accepts e me s' g = memory_accepts e me mc g \<and>
         (\<forall>d. MemoryClient_Read e me g d s' = MemoryClient_Read e me g d mc))"
    using memory_write_ok by metis
qed

section \<open>The file clients keep the contract\<close>

definition file_invar :: "env \<Rightarrow> string \<Rightarrow> file_client \<Rightarrow> bool" where
  "file_invar e name fc \<longleftrightarrow> env_wf e \<and> name \<in> {[], ''L_''} \<and>
     dhm_invar (changed_d e name) (hasChanged fc) \<and> dhm_invar (capacity_d e name) (layerCapacity fc)"

definition file_accepts :: "PosixFile \<Rightarrow> bool" where
  "file_accepts f \<longleftrightarrow> 0 \<le> seg_start (pf_segment f) \<and> pf_data f \<noteq> [] \<and>
     PosixFile_GetSize f = int (length (pf_data f))"

definition posix_path :: "PosixFile \<Rightarrow> string" where
  "posix_path f = file_path (pf_layer f) (pf_filename f)"

lemma client_dists_wf:
  assumes "env_wf e" and "name \<in> {[], ''L_''}"
  shows "dist_wf DHM_bindings (changed_d e name)" and "dist_wf DHM_bindings (capacity_d e name)"
  using assms by (auto simp: env_wf_def dist_wf_dist_of changed_d_def capacity_d_def)

lemma mark_changed_ok:
  assumes "file_invar e name fc"
  shows "\<exists>m. mark_changed e name me l b fc = Inr (fc\<lparr>hasChanged := m\<rparr>) \<and>
    file_invar e name (fc\<lparr>hasChanged := m\<rparr>)"
proof -
  obtain m where "DHM_Put (changed_d e name) me (layer_id l) b (hasChanged fc) = Inr (True, m)"
    and "dhm_invar (changed_d e name) m"
    using assms dhm.put_ok[of "changed_d e name" "hasChanged fc" me "layer_id l" b]
    by (auto simp: file_invar_def)
  then show ?thesis using assms by (auto simp: mark_changed_def file_invar_def)
qed

lemma file_write_read_back:
  assumes "bs \<noteq> [] \<or> n = 0" and "length bs = n"
  shows "take n (drop pos (file_write c pos bs)) = bs"
proof -
  have "length (take pos (c @ replicate (pos - length c) CHR 0x00)) = pos" by simp
  then have "drop pos (take pos (c @ replicate (pos - length c) CHR 0x00) @ bs @ drop (pos + length bs) c) =
      bs @ drop (pos + length bs) c"
    by (metis append_eq_conv_conj)
  with assms show ?thesis by (auto simp: file_write_def)
qed

lemma cstr_bytes_prefix: "n \<le> length s \<Longrightarrow> cstr_bytes s 0 (int n) = Inr (take n s)"
  by (simp add: cstr_bytes_def)

lemma file_accepts_size:
  assumes "file_accepts f"
  shows "seg_end (pf_segment f) - seg_start (pf_segment f) = int (length (pf_data f) - 1)"
    and "length (pf_data f) - 1 \<le> length (pf_data f)"
  using assms by (auto simp: file_accepts_def PosixFile_GetSize_def Segment_GetSize_def Suc_leI)

lemma SharedFileClient_Read_cong:
  "um_find (posix_path g) fs' = um_find (posix_path g) fs \<Longrightarrow>
    SharedFileClient_Read fs' g d = SharedFileClient_Read fs g d"
  by (simp add: SharedFileClient_Read_def posix_path_def)

lemma SharedFileClient_read_back:
  assumes "file_accepts f" and "um_find (posix_path f) fs =
      Some (file_write c (nat (seg_start (pf_segment f))) (take (length (pf_data f) - 1) (pf_data f)))"
  shows "SharedFileClient_Read fs f d =
    Inr (SERVER_SUCCESS, d\<lparr>pf_data := take (length (pf_data f) - 1) (pf_data f)\<rparr>)"
proof -
  let ?n = "length (pf_data f) - 1"
  have "take ?n (drop (nat (seg_start (pf_segment f)))
      (file_write c (nat (seg_start (pf_segment f))) (take ?n (pf_data f)))) = take ?n (pf_data f)"
    by (rule file_write_read_back) auto
  then show ?thesis
    using assms(2) unfolding SharedFileClient_Read_def posix_path_def file_accepts_size(1)[OF assms(1)]
    by (simp add: Let_def)
qed

lemma file_write_ok:
  assumes "file_invar e name fc" and "file_accepts f"
  shows "\<exists>fc'. SharedFileClient_Write e name me f f fc = Inr (SERVER_SUCCESS, fc') \<and> file_invar e name fc' \<and>
    (\<forall>d. SharedFileClient_Read (files fc') f d =
       Inr (SERVER_SUCCESS, d\<lparr>pf_data := take (length (pf_data f) - 1) (pf_data f)\<rparr>)) \<and>
    (\<forall>g. posix_path g \<noteq> posix_path f \<longrightarrow>
       (\<forall>d. SharedFileClient_Read (files fc') g d = SharedFileClient_Read (files fc) g d))"
proof -
  let ?c = "case um_find (posix_path f) (files fc) of None \<Rightarrow> [] | Some c \<Rightarrow> c"
  let ?bs = "take (length (pf_data f) - 1) (pf_data f)"
  let ?fs = "fs_put (posix_path f) (file_write ?c (nat (seg_start (pf_segment f))) ?bs) (files fc)"
  have bytes: "cstr_bytes (pf_data f) 0 (seg_end (pf_segment f) - seg_start (pf_segment f)) = Inr ?bs"
    unfolding file_accepts_size(1)[OF assms(2)] by (rule cstr_bytes_prefix) simp
  have "file_invar e name (fc\<lparr>files := ?fs\<rparr>)" using assms(1) by (simp add: file_invar_def)
  from mark_changed_ok[OF this, of me "pf_layer f" True] obtain m where
    m: "mark_changed e name me (pf_layer f) True (fc\<lparr>files := ?fs\<rparr>) = Inr (fc\<lparr>files := ?fs, hasChanged := m\<rparr>)"
    "file_invar e name (fc\<lparr>files := ?fs, hasChanged := m\<rparr>)" by auto
  have "SharedFileClient_Write e name me f f fc = Inr (SERVER_SUCCESS, fc\<lparr>files := ?fs, hasChanged := m\<rparr>)"
    using m(1) bytes by (simp add: SharedFileClient_Write_def posix_path_def Let_def)
  moreover have "SharedFileClient_Read ?fs f d = Inr (SERVER_SUCCESS, d\<lparr>pf_data := ?bs\<rparr>)" for d
    by (rule SharedFileClient_read_back[OF assms(2)]) (simp add: um_find_fs_put)
  moreover have "SharedFileClient_Read ?fs g d = SharedFileClient_Read (files fc) g d"
    if "posix_path g \<noteq> posix_path f" for g d
    using that by (intro SharedFileClient_Read_cong) (simp add: um_find_fs_put)
  ultimately show ?thesis using m(2) by (intro exI[of _ "fc\<lparr>files := ?fs, hasChanged := m\<rparr>"]) simp
qed

interpretation shared: io_client "file_invar e []" "\<lambda>_. file_accepts" posix_path
    "\<lambda>f. length (pf_data f) - 1" "SharedFileClient_Write e [] me"
    "\<lambda>source destination fc. SharedFileClient_Read (files fc) source destination" for e me
  using file_write_ok by unfold_locales metis

definition local_invar :: "env \<Rightarrow> local_client \<Rightarrow> bool" where
  "local_invar e lc \<longleftrightarrow> file_invar e ''L_'' (local_view 0 lc)"

definition local_accepts :: "env \<Rightarrow> nat \<Rightarrow> PosixFile \<Rightarrow> bool" where
  "local_accepts e me f \<longleftrightarrow> file_accepts f \<and> client_server e (pf_filename f) = Inr me"

lemma local_invar_view: "local_invar e lc \<Longrightarrow> file_invar e ''L_'' (local_view s lc)"
  by (simp add: local_invar_def file_invar_def local_view_def)

lemma local_invar_update: "file_invar e ''L_'' fc \<Longrightarrow> local_invar e (local_update s fc lc)"
  by (simp add: local_invar_def file_invar_def local_view_def local_update_def)

interpretation local_disk: io_client "local_invar e" "\<lambda>_. local_accepts e me" posix_path
    "\<lambda>f. length (pf_data f) - 1" "LocalFileClient_Write e me" "LocalFileClient_Read e me" for e me
proof unfold_locales
  fix lc f
  assume inv: "local_invar e lc" and acc: "local_accepts e me f"
  obtain fc where fc: "SharedFileClient_Write e ''L_'' me f f (local_view me lc) = Inr (SERVER_SUCCESS, fc)"
    "file_invar e ''L_'' fc"
    "\<forall>d. SharedFileClient_Read (files fc) f d =
       Inr (SERVER_SUCCESS, d\<lparr>pf_data := take (length (pf_data f) - 1) (pf_data f)\<rparr>)"
    "\<forall>g. posix_path g \<noteq> posix_path f \<longrightarrow>
       (\<forall>d. SharedFileClient_Read (files fc) g d = SharedFileClient_Read (local_files lc me) g d)"
    using file_write_ok[OF local_invar_view[OF inv], of f me me] acc
    by (auto simp: local_accepts_def local_view_def)
  let ?lc = "local_update me fc lc"
  have "LocalFileClient_Write e me f f lc = Inr (SERVER_SUCCESS, ?lc)"
    using fc(1) acc by (simp add: LocalFileClient_Write_def local_accepts_def at_server_local)
  moreover have "LocalFileClient_Read e me f d ?lc =
      Inr (SERVER_SUCCESS, d\<lparr>pf_data := take (length (pf_data f) - 1) (pf_data f)\<rparr>)" for d
    using fc(3) acc by (simp add: LocalFileClient_Read_def local_accepts_def local_update_def)
  moreover have "LocalFileClient_Read e me g d ?lc = LocalFileClient_Read e me g d lc"
    if "posix_path g \<noteq> posix_path f" for g d
    using fc(4) that
    by (cases "client_server e (pf_filename g)") (auto simp: LocalFileClient_Read_def local_update_def)
  ultimately show "\<exists>s'. LocalFileClient_Write e me f f lc = Inr (SERVER_SUCCESS, s') \<and> local_invar e s' \<and>
      (\<forall>d. LocalFileClient_Read e me f d s' =
         Inr (SERVER_SUCCESS, d\<lparr>pf_data := take (length (pf_data f) - 1) (pf_data f)\<rparr>)) \<and>
      (\<forall>g. posix_path g \<noteq> posix_path f \<longrightarrow> local_accepts e me g = local_accepts e me g \<and>
         (\<forall>d. LocalFileClient_Read e me g d s' = LocalFileClient_Read e me g d lc))"
    using local_invar_update[OF fc(2)] by blast
qed

section \<open>Properties\<close>

definition io_init :: io_state where
  "io_init = \<lparr>shared_client = \<lparr>files = [], hasChanged = DHM_init, layerCapacity = DHM_init\<rparr>,
     local_file_client = \<lparr>local_files = (\<lambda>_. []), local_changed = DHM_init, local_capacity = DHM_init\<rparr>,
     memory_store = \<lparr>data_map = DHM_init, shm = (\<lambda>_. [])\<rparr>\<rparr>"

lemma io_init_invars:
  assumes "env_wf e"
  shows "memory_invar e (memory_store io_init)" and "file_invar e [] (shared_client io_init)"
    and "local_invar e (local_file_client io_init)"
proof -
  show "memory_invar e (memory_store io_init)"
    using assms env_wf_dists(4)[OF assms] by (simp add: io_init_def memory_invar_def dhm_invar_init)
  show "file_invar e [] (shared_client io_init)"
    using assms client_dists_wf[OF assms, of "[]"] by (simp add: io_init_def file_invar_def dhm_invar_init)
  show "local_invar e (local_file_client io_init)"
    using assms client_dists_wf[OF assms, of "''L_''"]
    by (simp add: io_init_def file_invar_def local_invar_def local_view_def dhm_invar_init)
qed

definition example_file :: PosixFile where
  "example_file = \<lparr>pf_filename = ''ab'', pf_segment = \<lparr>seg_start = 0, seg_end = 3\<rparr>,
     pf_layer = hd example_layers, pf_data = ''wxyz''\<rparr>"

lemma example_file_accepted:
  "memory_accepts example_env 0 (memory_store io_init) example_file" "file_accepts example_file"
  by (simp_all add: memory_accepts_def whole_object_def file_accepts_def client_server_def io_init_def
      DHM_init_def dhm_lookup_def um_find_def example_env_def example_file_def hash_CharStruct_def
      PosixFile_GetSize_def Segment_GetSize_def)

text \<open>Writing a whole object through the memory client on the server that owns its name succeeds,
  reading it there returns exactly the bytes written, and every file of another name reads as before.\<close>

theorem memory_write_then_read:
  assumes "memory_invar e mc" and "memory_accepts e me mc f"
  shows "\<exists>mc'. MemoryClient_Write e me f f mc = Inr (SERVER_SUCCESS, mc') \<and> memory_invar e mc' \<and>
    MemoryClient_Read e me f d mc' = Inr (SERVER_SUCCESS, d\<lparr>pf_data := pf_data f\<rparr>) \<and>
    (\<forall>g. pf_filename g \<noteq> pf_filename f \<longrightarrow> MemoryClient_Read e me g d mc' = MemoryClient_Read e me g d mc)"
proof -
  have "take (nat (PosixFile_GetSize f)) (pf_data f) = pf_data f"
    using assms(2) by (simp add: memory_accepts_def whole_object_def)
  with memory.write_ok[OF assms] show ?thesis by auto
qed

theorem memory_write_then_read_witness:
  "\<exists>mc'. MemoryClient_Write example_env 0 example_file example_file (memory_store io_init) =
       Inr (SERVER_SUCCESS, mc') \<and> memory_invar example_env mc' \<and>
     MemoryClient_Read example_env 0 example_file (example_file\<lparr>pf_data := []\<rparr>) mc' =
       Inr (SERVER_SUCCESS, example_file) \<and>
     (\<forall>g. pf_filename g \<noteq> pf_filename example_file \<longrightarrow>
        MemoryClient_Read example_env 0 g (example_file\<lparr>pf_data := []\<rparr>) mc' =
        MemoryClient_Read example_env 0 g (example_file\<lparr>pf_data := []\<rparr>) (memory_store io_init))"
  using memory_write_then_read[OF io_init_invars(1)[OF example_env_wf] example_file_accepted(1),
      of "example_file\<lparr>pf_data := []\<rparr>"]
  by simp

text \<open>C37: writing a file through the shared file client and reading the same segment back succeeds but
  returns all bytes except the last one: both operations transfer \<open>end - start\<close> bytes of a segment whose
  size is \<open>end - start + 1\<close>. Files at other paths read as before.\<close>

theorem file_write_then_read_drops_last:
  assumes "file_invar e [] fc" and "file_accepts f"
  shows "\<exists>fc'. SharedFileClient_Write e [] me f f fc = Inr (SERVER_SUCCESS, fc') \<and> file_invar e [] fc' \<and>
    SharedFileClient_Read (files fc') f d = Inr (SERVER_SUCCESS, d\<lparr>pf_data := butlast (pf_data f)\<rparr>) \<and>
    (\<forall>g. posix_path g \<noteq> posix_path f \<longrightarrow>
       SharedFileClient_Read (files fc') g d = SharedFileClient_Read (files fc) g d)"
  using shared.write_ok[OF assms, of me] unfolding butlast_conv_take by blast

theorem file_write_then_read_drops_last_witness:
  "\<exists>fc'. SharedFileClient_Write example_env [] 0 example_file example_file (shared_client io_init) =
       Inr (SERVER_SUCCESS, fc') \<and> file_invar example_env [] fc' \<and>
     SharedFileClient_Read (files fc') example_file example_file =
       Inr (SERVER_SUCCESS, example_file\<lparr>pf_data := butlast (pf_data example_file)\<rparr>) \<and>
     (\<forall>g. posix_path g \<noteq> posix_path example_file \<longrightarrow>
        SharedFileClient_Read (files fc') g example_file =
        SharedFileClient_Read (files (shared_client io_init)) g example_file)"
  by (rule file_write_then_read_drops_last[OF io_init_invars(2)[OF example_env_wf] example_file_accepted(2)])

text \<open>A read of a name owned by another server, through the memory client or the local file client,
  leaves the destination of the caller unchanged whatever the status: the RPC passes it by value.\<close>

theorem remote_read_returns_no_data:
  assumes "client_server e (pf_filename source) = Inr s" and "s \<noteq> me"
    and "MemoryClient_Read e me source destination mc = Inr (status, d) \<or>
      LocalFileClient_Read e me source destination lc = Inr (status, d)"
  shows "d = destination"
  using assms
  by (auto simp: MemoryClient_Read_def LocalFileClient_Read_def rbind_Inr_iff split: prod.splits)

theorem remote_read_returns_no_data_witness:
  "\<exists>d mc. MemoryClient_Read example_env 1 example_file (example_file\<lparr>pf_data := []\<rparr>) mc = Inr (SERVER_SUCCESS, d) \<and>
     d = example_file\<lparr>pf_data := []\<rparr>"
proof -
  let ?f = "example_file\<lparr>pf_data := []\<rparr>"
  obtain mc where "memory_invar example_env mc"
    and rd: "MemoryClient_Read example_env 0 example_file ?f mc = Inr (SERVER_SUCCESS, ?f\<lparr>pf_data := pf_data example_file\<rparr>)"
    using memory_write_ok[OF io_init_invars(1)[OF example_env_wf] example_file_accepted(1)] by blast
  have srv: "client_server example_env (pf_filename example_file) = Inr 0"
    using example_file_accepted(1) by (simp add: memory_accepts_def)
  have "MemoryClient_Read example_env 1 example_file ?f mc = Inr (SERVER_SUCCESS, ?f)"
    using rd srv env_wf_clients(1)[OF example_env_wf]
    by (simp add: MemoryClient_Read_def RPC_call_def dispatch_call_def enforce_arg_count_def example_env_def)
  with remote_read_returns_no_data[OF srv, of 1 ?f mc SERVER_SUCCESS ?f] show ?thesis by blast
qed

text \<open>Deleting a non-empty segment of an existing file through the shared file client never removes the
  file, whatever its size: it is emptied when the segment starts at offset 0 or 1, and otherwise more bytes
  are written than were read into the buffer. The code takes the return value of \<open>fseek\<close> for the size.\<close>

theorem file_delete_empties:
  assumes "file_invar e [] fc" and "um_find (posix_path f) (files fc) = Some c"
    and "0 \<le> seg_start (pf_segment f)" and "0 < PosixFile_GetSize f" and "PosixFile_GetSize f < 2 ^ 64"
  shows "if seg_start (pf_segment f) \<le> 1
    then \<exists>fc'. SharedFileClient_Delete e [] me f fc = Inr (SERVER_SUCCESS, fc') \<and>
      um_find (posix_path f) (files fc') = Some []
    else SharedFileClient_Delete e [] me f fc = Inl (Undefined BufferOverflow)"
proof -
  obtain m where m: "mark_changed e [] me (pf_layer f) True fc = Inr (fc\<lparr>hasChanged := m\<rparr>)"
    and inv: "file_invar e [] (fc\<lparr>hasChanged := m\<rparr>)"
    using mark_changed_ok[OF assms(1)] by blast
  have size: "to_size_t (PosixFile_GetSize f) \<noteq> 0"
    using assms(4,5) by (simp add: to_size_t_id)
  let ?fc = "fc\<lparr>hasChanged := m, files := fs_put (posix_path f) [] (files fc)\<rparr>"
  have "file_invar e [] ?fc" using inv by (simp add: file_invar_def)
  then obtain m' where m': "mark_changed e [] me (pf_layer f) True ?fc = Inr (?fc\<lparr>hasChanged := m'\<rparr>)"
    using mark_changed_ok by blast
  have "SharedFileClient_Delete e [] me f fc = Inr (SERVER_SUCCESS, ?fc\<lparr>hasChanged := m'\<rparr>)"
    if "seg_start (pf_segment f) \<le> 1"
    using that m m' assms(2,3) size
    by (simp add: SharedFileClient_Delete_def Let_def fseek_status_def posix_path_def PosixFile_GetSize_def
        Segment_GetSize_def)
  moreover have "SharedFileClient_Delete e [] me f fc = Inl (Undefined BufferOverflow)"
    if "\<not> seg_start (pf_segment f) \<le> 1"
    using that m assms(2,3) size
    by (simp add: SharedFileClient_Delete_def Let_def fseek_status_def posix_path_def PosixFile_GetSize_def
        Segment_GetSize_def)
  ultimately show ?thesis by (simp add: um_find_fs_put)
qed

theorem file_delete_empties_witness:
  "\<exists>fc fc'. um_find (posix_path example_file) (files fc) = Some ''wxy'' \<and>
     SharedFileClient_Delete example_env [] 0 example_file fc = Inr (SERVER_SUCCESS, fc') \<and>
     um_find (posix_path example_file) (files fc') = Some []"
proof -
  let ?fc = "(shared_client io_init)\<lparr>files := [(posix_path example_file, ''wxy'')]\<rparr>"
  have "file_invar example_env [] ?fc"
    using io_init_invars(2)[OF example_env_wf] by (simp add: file_invar_def)
  moreover have found: "um_find (posix_path example_file) (files ?fc) = Some ''wxy''" by (simp add: um_find_def)
  moreover have "seg_start (pf_segment example_file) = 0" and "PosixFile_GetSize example_file = 4"
    by (simp_all add: example_file_def PosixFile_GetSize_def Segment_GetSize_def)
  ultimately obtain fc' where "SharedFileClient_Delete example_env [] 0 example_file ?fc = Inr (SERVER_SUCCESS, fc')"
    and "um_find (posix_path example_file) (files fc') = Some []"
    using file_delete_empties[of example_env ?fc example_file "''wxy''" 0] by auto
  with found show ?thesis by blast
qed

text \<open>The usage the memory client reports is the sum of the sizes of all objects in its metadata map,
  each counted once.\<close>

theorem memory_usage_is_sum:
  assumes "memory_invar e mc" and "me < env_servers e"
  shows "\<exists>xs. distinct (map fst xs) \<and> map_of xs = dhm_lookup (data_map_d e) (data_map mc) \<and>
    MemoryClient_GetCurrentUsage e me layer mc = Inr (\<Sum>x\<leftarrow>xs. real_of_int (PosixFile_GetSize (snd x)))"
proof -
  obtain xs where "DHM_GetAllData (data_map_d e) me (data_map mc) = Inr xs" "distinct (map fst xs)"
    "map_of xs = dhm_lookup (data_map_d e) (data_map mc)"
    using DHM_all_data[of "data_map_d e" "data_map mc" me] assms
    by (auto simp: memory_invar_def data_map_d_def dist_of_def)
  moreover have "foldl (\<lambda>t x. t + real_of_int (PosixFile_GetSize (snd x))) a xs =
      a + (\<Sum>x\<leftarrow>xs. real_of_int (PosixFile_GetSize (snd x)))" for a and xs :: "(string \<times> PosixFile) list"
    by (induction xs arbitrary: a) simp_all
  ultimately show ?thesis by (auto simp: MemoryClient_GetCurrentUsage_def)
qed

theorem memory_usage_is_sum_witness:
  "\<exists>xs. distinct (map fst xs) \<and>
     map_of xs = dhm_lookup (data_map_d example_env) (data_map (memory_store io_init)) \<and>
     MemoryClient_GetCurrentUsage example_env 1 (hd example_layers) (memory_store io_init) =
       Inr (\<Sum>x\<leftarrow>xs. real_of_int (PosixFile_GetSize (snd x)))"
  by (rule memory_usage_is_sum[OF io_init_invars(1)[OF example_env_wf]]) (simp add: example_env_def)

end
