(* ===== verification/File_Segment_Auditor.thy ===== *)
theory File_Segment_Auditor
  imports Io_Clients
begin

text \<open>
  \<open>src/src/server/file_segment_auditor.h\<close> and \<open>file_segment_auditor.cpp\<close>: the component that keeps,
  for every file, the map from its segments to where they are buffered and how hot they are.

  \<^item> A \<open>shared_ptr<SegmentMap>\<close> in \<open>file_segment_map\<close> is the index of the entry of \<open>offsetMaps\<close> it
    was copied from; \<open>file_segment_map\<close> is a member of each server's own auditor, the other maps are
    distributed.
  \<^item> \<open>uint32_t\<close> and \<open>size_t\<close> counters wrap at their width.
  \<^item> The methods return \<open>SERVER_SUCCESS\<close> on every path, so the model returns the new state only.

  The refinement lemmas read a segment map as a function of single offsets: \<open>seg_val st o v\<close> says that
  offset \<open>o\<close> is described by \<open>v\<close>.
\<close>

section \<open>State\<close>

type_synonym seg_info = "PosixFile \<times> SegmentScore"
type_synonym score_map = "(real \<times> (PosixFile \<times> PosixFile)) list"

record auditor =
  file_segment_map :: "nat \<Rightarrow> (string \<times> nat) list"
  valid_buffered_dataset :: "(string, nat) hash_store"
  offsetMaps :: "nat \<Rightarrow> (Segment, seg_info) map_store"
  file_active_status :: "(string, nat) hash_store"
  layer_score_map :: "(nat, score_map) hash_store"
  file_seq :: "nat \<Rightarrow> nat"

definition auditor_init :: auditor where
  "auditor_init = \<lparr>file_segment_map = (\<lambda>_. []), valid_buffered_dataset = DHM_init,
     offsetMaps = (\<lambda>_. DM_init), file_active_status = DHM_init, layer_score_map = DHM_init,
     file_seq = GlobalSequence_init\<rparr>"

text \<open>The constructor: the first server puts an empty score map for every layer of the chain.\<close>

definition FileSegmentAuditor :: "env \<Rightarrow> nat \<Rightarrow> auditor res" where
  "FileSegmentAuditor e me =
     rfold (\<lambda>current a. rbind (DHM_Put (layer_score_map_d e) me (layer_id current) [] (layer_score_map a))
              (\<lambda>(_, m). Inr (a\<lparr>layer_score_map := m\<rparr>)))
       (layers e) auditor_init"

section \<open>Segment maps\<close>

text \<open>\<open>offsetMaps[sequence]\<close>, an array of \<open>max_num_files\<close> pointers.\<close>

definition offset_index :: "env \<Rightarrow> nat \<Rightarrow> nat res" where
  "offset_index e i = (if i < max_num_files e then Inr i else Inl (Undefined OutOfRange))"

definition segmap_put ::
  "env \<Rightarrow> nat \<Rightarrow> nat \<Rightarrow> Segment \<Rightarrow> seg_info \<Rightarrow> (Segment, seg_info) map_store \<Rightarrow>
   (Segment, seg_info) map_store res" where
  "segmap_put e i me key v st = rbind (DM_Put Segment_less (offset_map_d e i) me key v st) (\<lambda>r. Inr (snd r))"

text \<open>The part the loops of \<open>UpdateOnMove\<close> and \<open>IncreaseFileSegmentFrequency\<close> share: an element is
  erased, what is left of it outside the segment is put back with its old value, and its intersection
  with the segment is put with the new value.\<close>

definition replace_segment ::
  "env \<Rightarrow> nat \<Rightarrow> nat \<Rightarrow> Segment \<Rightarrow> Segment \<Rightarrow> seg_info \<Rightarrow> seg_info \<Rightarrow> (Segment, seg_info) map_store \<Rightarrow>
   (Segment, seg_info) map_store res" where
  "replace_segment e i me seg key v v' st =
     rbind (DM_Erase Segment_less (offset_map_d e i) me key st) (\<lambda>(_, st1).
     rbind (rfold (\<lambda>left_over. segmap_put e i me left_over v) (Segment_Substract key seg) st1) (\<lambda>st2.
       segmap_put e i me (Segment_Intersect seg key) v' st2))"

text \<open>The entries of a layer's score map under the previous score that belong to the element are erased
  and the new pair of files is emplaced; nothing happens when the layer has no score map.\<close>

definition erase_scored :: "real \<Rightarrow> string \<Rightarrow> Segment \<Rightarrow> score_map \<Rightarrow> score_map" where
  "erase_scored previous_score name seg mm =
     filter (\<lambda>x. \<not> (fst x = previous_score \<and> pf_filename (fst (snd x)) = name \<and>
                    pf_segment (fst (snd x)) = seg)) mm"

definition update_layer_score ::
  "env \<Rightarrow> nat \<Rightarrow> nat \<Rightarrow> real \<Rightarrow> string \<Rightarrow> Segment \<Rightarrow> real \<Rightarrow> (PosixFile \<times> PosixFile) res \<Rightarrow> auditor \<Rightarrow> auditor res" where
  "update_layer_score e me lid previous_score name seg score pair a =
     rbind (DHM_Get (layer_score_map_d e) me lid (layer_score_map a)) (\<lambda>layer_score_iter.
       case layer_score_iter of
         None \<Rightarrow> Inr a
       | Some mm \<Rightarrow>
           rbind pair (\<lambda>p.
           rbind (DHM_Put (layer_score_map_d e) me lid
                    (mm_emplace (>) score p (erase_scored previous_score name seg mm)) (layer_score_map a))
             (\<lambda>(_, m). Inr (a\<lparr>layer_score_map := m\<rparr>))))"

definition set_offset_map :: "nat \<Rightarrow> (Segment, seg_info) map_store \<Rightarrow> auditor \<Rightarrow> auditor" where
  "set_offset_map i st a = a\<lparr>offsetMaps := (offsetMaps a)(i := st)\<rparr>"

section \<open>Events\<close>

definition MarkFileSegmentsActive :: "env \<Rightarrow> nat \<Rightarrow> Event \<Rightarrow> auditor \<Rightarrow> auditor res" where
  "MarkFileSegmentsActive e me event a =
     rbind (DHM_Get (file_active_status_d e) me (ev_filename event) (file_active_status a)) (\<lambda>iter.
     rbind (DHM_Put (file_active_status_d e) me (ev_filename event)
              (case iter of Some n \<Rightarrow> (n + 1) mod 2 ^ 32 | None \<Rightarrow> 1) (file_active_status a))
       (\<lambda>(_, m). Inr (a\<lparr>file_active_status := m\<rparr>)))"

definition MarkFileSegmentsInactive :: "env \<Rightarrow> nat \<Rightarrow> Event \<Rightarrow> auditor \<Rightarrow> auditor res" where
  "MarkFileSegmentsInactive e me event a =
     rbind (DHM_Get (file_active_status_d e) me (ev_filename event) (file_active_status a)) (\<lambda>iter.
       case iter of
         None \<Rightarrow> Inr a
       | Some n \<Rightarrow>
           rbind (DHM_Put (file_active_status_d e) me (ev_filename event) ((n + 2 ^ 32 - 1) mod 2 ^ 32)
                    (file_active_status a))
             (\<lambda>(_, m). Inr (a\<lparr>file_active_status := m\<rparr>)))"

definition bump_score :: "int \<Rightarrow> SegmentScore \<Rightarrow> SegmentScore" where
  "bump_score time s =
     s\<lparr>frequency := (frequency s + 1) mod 2 ^ 64,
       lrf := lrf s + (1 / 2) powr (LAMDA_FOR_SCORE * real_of_int time / 1000000)\<rparr>"

text \<open>\<open>PosixFile()\<close> followed by the assignments of its members: the constructor reads \<open>*Layer::LAST\<close>.\<close>

definition new_posix_file :: "env \<Rightarrow> string \<Rightarrow> Segment \<Rightarrow> nat \<Rightarrow> PosixFile res" where
  "new_posix_file e name seg lid =
     rbind (Layer_LAST (layers e)) (\<lambda>_.
     rbind (Layer_of_id (layers e) lid) (\<lambda>l.
       Inr \<lparr>pf_filename = name, pf_segment = seg, pf_layer = l, pf_data = []\<rparr>))"

definition increase_element ::
  "env \<Rightarrow> nat \<Rightarrow> nat \<Rightarrow> Event \<Rightarrow> Segment \<times> seg_info \<Rightarrow> auditor \<Rightarrow> auditor res" where
  "increase_element e i me event elements a =
     (let key = fst elements; file = fst (snd elements); score = snd (snd elements);
          common = Segment_Intersect (ev_segment event) key;
          new_score = bump_score (ev_time event) score
      in rbind (replace_segment e i me (ev_segment event) key (file, score) (file, new_score) (offsetMaps a i))
           (\<lambda>st. update_layer_score e me (layer_id (pf_layer file)) (GetScore score) (ev_filename event) key
              (GetScore new_score)
              (rbind (new_posix_file e (ev_filename event) common (layer_index event)) (\<lambda>sub_source.
                 Inr (sub_source, file\<lparr>pf_segment := common\<rparr>)))
              (set_offset_map i st a)))"

definition IncreaseFileSegmentFrequency :: "env \<Rightarrow> nat \<Rightarrow> Event \<Rightarrow> auditor \<Rightarrow> auditor res" where
  "IncreaseFileSegmentFrequency e me event a =
     (case um_find (ev_filename event) (file_segment_map a me) of
        None \<Rightarrow> Inr a
      | Some i \<Rightarrow>
          rbind (DM_Contains Segment_less Segment_Contains (offset_map_d e i) me (ev_segment event) (offsetMaps a i))
            (\<lambda>allDatas. rfold (increase_element e i me event) allDatas a))"

definition CreateOffsetMap :: "env \<Rightarrow> nat \<Rightarrow> Event \<Rightarrow> auditor \<Rightarrow> auditor res" where
  "CreateOffsetMap e me event a =
     (case um_find (ev_filename event) (file_segment_map a me) of
        Some _ \<Rightarrow> Inr a
      | None \<Rightarrow>
          rbind (DHM_Get (valid_buffered_dataset_d e) me (ev_filename event) (valid_buffered_dataset a)) (\<lambda>iter.
            case iter of
              Some sequence \<Rightarrow>
                rbind (offset_index e sequence) (\<lambda>i.
                  Inr (a\<lparr>file_segment_map := (file_segment_map a)(me :=
                           um_insert (ev_filename event) i (file_segment_map a me))\<rparr>))
            | None \<Rightarrow>
                rbind (GetNextSequenceServer (obj_of e ''FILE_INDEX'') me 0 (file_seq a)) (\<lambda>(s, fs).
                  if max_num_files e = 0 then Inl (Undefined DivisionByZero)
                  else
                    let sequence = s mod max_num_files e
                    in rbind (DHM_Put (valid_buffered_dataset_d e) me (ev_filename event) sequence
                                (valid_buffered_dataset a)) (\<lambda>(_, vb).
                       rbind (offset_index e sequence) (\<lambda>i.
                       rbind (new_posix_file e (ev_filename event) (ev_segment event) (layer_index event)) (\<lambda>file.
                       rbind (segmap_put e i me (ev_segment event) (file, SegmentScore_default) (offsetMaps a i))
                         (\<lambda>st. Inr ((set_offset_map i st a)
                            \<lparr>valid_buffered_dataset := vb, file_seq := fs,
                             file_segment_map := (file_segment_map a)(me :=
                               um_insert (ev_filename event) i (file_segment_map a me))\<rparr>))))))))"

definition update_event :: "env \<Rightarrow> nat \<Rightarrow> Event \<Rightarrow> auditor \<Rightarrow> auditor res" where
  "update_event e me event a =
     (case event_type event of
        FILE_OPEN \<Rightarrow>
          rbind (if um_find (ev_filename event) (file_segment_map a me) = None
                 then CreateOffsetMap e me event a else Inr a)
            (MarkFileSegmentsActive e me event)
      | FILE_CLOSE \<Rightarrow> MarkFileSegmentsInactive e me event a
      | FILE_READ \<Rightarrow> IncreaseFileSegmentFrequency e me event a
      | FILE_WRITE \<Rightarrow> Inr a)"

definition Update :: "env \<Rightarrow> nat \<Rightarrow> Event list \<Rightarrow> auditor \<Rightarrow> auditor res" where
  "Update e me events = rfold (update_event e me) events"

section \<open>Moves\<close>

definition moved_info :: "PosixFile \<Rightarrow> PosixFile \<Rightarrow> Segment \<Rightarrow> seg_info \<Rightarrow> seg_info" where
  "moved_info source destination key v =
     (let common = Segment_Intersect (pf_segment source) key
      in (destination\<lparr>pf_segment :=
            \<lparr>seg_start = seg_start common - seg_start (pf_segment source),
             seg_end = seg_end common - seg_start (pf_segment source)\<rparr>\<rparr>, snd v))"

definition move_element ::
  "env \<Rightarrow> nat \<Rightarrow> nat \<Rightarrow> PosixFile \<Rightarrow> PosixFile \<Rightarrow> Segment \<times> seg_info \<Rightarrow> auditor \<Rightarrow> auditor res" where
  "move_element e i me source destination elements a =
     (let key = fst elements; v = snd elements;
          common = Segment_Intersect (pf_segment source) key;
          v' = moved_info source destination key v
      in rbind (replace_segment e i me (pf_segment source) key v v' (offsetMaps a i)) (\<lambda>st.
           update_layer_score e me (layer_id (pf_layer (fst v'))) (GetScore (snd v)) (pf_filename source) key
             (GetScore (snd v'))
             (Inr (source\<lparr>pf_segment := common\<rparr>, (fst v')\<lparr>pf_segment := common\<rparr>))
             (set_offset_map i st a)))"

definition UpdateOnMove :: "env \<Rightarrow> nat \<Rightarrow> PosixFile \<Rightarrow> PosixFile \<Rightarrow> auditor \<Rightarrow> auditor res" where
  "UpdateOnMove e me source destination a =
     (case um_find (pf_filename source) (file_segment_map a me) of
        None \<Rightarrow> Inr a
      | Some i \<Rightarrow>
          rbind (DM_Get Segment_less (offset_map_d e i) me (pf_segment source) (offsetMaps a i)) (\<lambda>_.
          rbind (DM_Contains Segment_less Segment_Contains (offset_map_d e i) me (pf_segment source)
                   (offsetMaps a i))
            (\<lambda>allDatas. rfold (move_element e i me source destination) allDatas a)))"

section \<open>Queries\<close>

definition sort_by_score :: "(Segment \<times> seg_info) list \<Rightarrow> (SegmentScore \<times> (Segment \<times> PosixFile)) list" where
  "sort_by_score allData =
     foldl (\<lambda>mm data. mm_emplace SegmentScore_less (snd (snd data)) (fst data, fst (snd data)) mm) [] allData"

definition FetchHeatMap ::
  "env \<Rightarrow> nat \<Rightarrow> PosixFile \<Rightarrow> auditor \<Rightarrow> (Segment \<times> SegmentScore \<times> PosixFile) list res" where
  "FetchHeatMap e me file a =
     (case um_find (pf_filename file) (file_segment_map a me) of
        None \<Rightarrow> Inr []
      | Some i \<Rightarrow>
          rbind (DM_GetAllData (offset_map_d e i) me (offsetMaps a i)) (\<lambda>allData.
            Inr (map (\<lambda>x. (fst (snd x), fst x, snd (snd x))) (sort_by_score allData))))"

definition FetchLayerScores :: "env \<Rightarrow> nat \<Rightarrow> auditor \<Rightarrow> (nat \<times> score_map) list res" where
  "FetchLayerScores e me a =
     rbind (DHM_GetAllData (layer_score_map_d e) me (layer_score_map a)) (\<lambda>allDatas.
       Inr (foldl (\<lambda>m data. om_insert (<) (fst data) (snd data) m) [] allDatas))"

definition locate_step ::
  "Segment \<Rightarrow> (PosixFile \<times> PosixFile) list \<times> int \<Rightarrow> Segment \<times> seg_info \<Rightarrow>
   (PosixFile \<times> PosixFile) list \<times> int" where
  "locate_step seg acc data =
     (let values = fst acc; original_start = snd acc;
          common = Segment_Intersect seg (fst data);
          file = fst (snd data)
      in (values @ [(file\<lparr>pf_segment := \<lparr>seg_start = seg_start common - seg_start (fst data),
                                          seg_end = seg_end common - seg_start (fst data)\<rparr>\<rparr>,
                     file\<lparr>pf_segment := \<lparr>seg_start = original_start,
                                          seg_end = original_start + seg_end common - seg_start common\<rparr>\<rparr>)],
          original_start + (seg_end common - seg_start common)))"

definition GetDataLocation :: "env \<Rightarrow> nat \<Rightarrow> PosixFile \<Rightarrow> auditor \<Rightarrow> (PosixFile \<times> PosixFile) list res" where
  "GetDataLocation e me file a =
     rbind (DHM_Get (valid_buffered_dataset_d e) me (pf_filename file) (valid_buffered_dataset a)) (\<lambda>iter.
       case iter of
         None \<Rightarrow> Inr []
       | Some sequence \<Rightarrow>
           rbind (offset_index e sequence) (\<lambda>i.
           rbind (DM_Contains Segment_less Segment_Contains (offset_map_d e i) me (pf_segment file)
                    (offsetMaps a i)) (\<lambda>allData.
             Inr (fst (foldl (locate_step (pf_segment file)) ([], 0) allData)))))"

definition CheckIfFileActive :: "env \<Rightarrow> nat \<Rightarrow> PosixFile \<Rightarrow> auditor \<Rightarrow> bool res" where
  "CheckIfFileActive e me file a =
     rbind (DHM_Get (file_active_status_d e) me (pf_filename file) (file_active_status a)) (\<lambda>iter.
       Inr (case iter of Some n \<Rightarrow> n \<noteq> 0 | None \<Rightarrow> False))"

definition CallCreateOffsetRPC :: "env \<Rightarrow> nat \<Rightarrow> Event \<Rightarrow> auditor \<Rightarrow> auditor res" where
  "CallCreateOffsetRPC e server event a =
     RPC_call (env_rpc_size e) (env_funcs e) server ''FILE_SEGMENT_AUDITOR_CreateOffsetMap'' 1
       (CreateOffsetMap e server event a)"

section \<open>Segment maps as tilings\<close>

text \<open>The segments of a file are non-empty and pairwise disjoint, over all servers.\<close>

definition seg_tiling :: "(Segment, 'v) map_store \<Rightarrow> bool" where
  "seg_tiling st \<longleftrightarrow> (\<forall>x\<in>dm_set st. Segment_GetSize (fst x) > 0) \<and>
     (\<forall>x\<in>dm_set st. \<forall>y\<in>dm_set st. overlaps (fst x) (fst y) \<longrightarrow> x = y)"

definition seg_store_wf :: "Segment dist \<Rightarrow> (Segment, 'v) map_store \<Rightarrow> bool" where
  "seg_store_wf d st \<longleftrightarrow> dm_invar Segment_less d st \<and> seg_tiling st"

text \<open>What describes an offset.\<close>

definition seg_val :: "(Segment, 'v) map_store \<Rightarrow> int \<Rightarrow> 'v \<Rightarrow> bool" where
  "seg_val st off v \<longleftrightarrow> (\<exists>k. (k, v) \<in> dm_set st \<and> off \<in> seg_set k)"

lemma seg_store_wf_init: "seg_store_wf d DM_init"
  by (simp add: seg_store_wf_def dm_invar_init seg_tiling_def)

lemma same_start_overlaps:
  "equivalent Segment_less a b \<Longrightarrow> Segment_GetSize a > 0 \<Longrightarrow> Segment_GetSize b > 0 \<Longrightarrow> overlaps a b"
  by (auto simp: equivalent_def Segment_less_def overlaps_def seg_set_def Segment_GetSize_def)

lemma overlaps_sym: "overlaps a b \<longleftrightarrow> overlaps b a"
  by (auto simp: overlaps_def)

lemma seg_tilingD:
  assumes "seg_tiling st" and "x \<in> dm_set st"
  shows "Segment_GetSize (fst x) > 0" and "y \<in> dm_set st \<Longrightarrow> overlaps (fst x) (fst y) \<Longrightarrow> x = y"
  using assms by (simp_all add: seg_tiling_def)

lemma seg_tiling_subset: "seg_tiling st \<Longrightarrow> dm_set st' \<subseteq> dm_set st \<Longrightarrow> seg_tiling st'"
  unfolding seg_tiling_def by blast

lemma seg_tiling_insert:
  assumes "seg_tiling st" and "Segment_GetSize c > 0" and "\<forall>x\<in>dm_set st. \<not> overlaps (fst x) c"
    and "dm_set st' = insert (c, v) (dm_set st)"
  shows "seg_tiling st'"
proof -
  have "\<forall>x\<in>dm_set st. \<not> overlaps c (fst x)" using assms(3) by (simp add: overlaps_def Int_commute)
  with assms(1-3) show ?thesis by (simp add: seg_tiling_def assms(4))
qed

lemma erase_store:
  assumes "seg_store_wf d st" and "(k, v) \<in> dm_set st"
  defines "st' \<equiv> st(owner d k := om_erase Segment_less k (st (owner d k)))"
  shows "dm_set st' = dm_set st - {(k, v)}" and "seg_store_wf d st'"
proof -
  have inv: "dm_invar Segment_less d st" and til: "seg_tiling st"
    using assms(1) by (simp_all add: seg_store_wf_def)
  have same: "x = (k, v)" if "x \<in> dm_set st" "equivalent Segment_less (fst x) k" for x
  proof (rule seg_tilingD(2)[OF til that(1) assms(2)])
    show "overlaps (fst x) (fst (k, v))"
      using same_start_overlaps[OF that(2)] seg_tilingD(1)[OF til that(1)] seg_tilingD(1)[OF til assms(2)]
      by simp
  qed
  have "dm_set st' = {x \<in> dm_set st. \<not> (equivalent Segment_less (fst x) k \<and> owner d (fst x) = owner d k)}"
    unfolding st'_def by (rule seg_order.dm_set_Erase[OF inv])
  then show set: "dm_set st' = dm_set st - {(k, v)}"
  proof -
    have "equivalent Segment_less (fst x) k \<and> owner d (fst x) = owner d k \<longleftrightarrow> x = (k, v)" if "x \<in> dm_set st" for x
      using same[OF that] seg_order.equivalent_refl[of k] by (metis fst_conv)
    then show "dm_set st' = {x \<in> dm_set st. \<not> (equivalent Segment_less (fst x) k \<and> owner d (fst x) = owner d k)} \<Longrightarrow>
      dm_set st' = dm_set st - {(k, v)}" by blast
  qed
  have "seg_tiling st'" by (rule seg_tiling_subset[OF til]) (simp add: set)
  with seg_order.dm_invar_Erase[OF inv] show "seg_store_wf d st'"
    by (simp add: seg_store_wf_def st'_def)
qed

lemma put_store:
  fixes v :: 'v
  assumes "seg_store_wf d st" and "Segment_GetSize c > 0" and "\<forall>x\<in>dm_set st. \<not> overlaps (fst x) c"
  defines "st' \<equiv> st(owner d c := DM_Put_local Segment_less c v (st (owner d c)))"
  shows "dm_set st' = insert (c, v) (dm_set st)" and "seg_store_wf d st'"
proof -
  have inv: "dm_invar Segment_less d st" and til: "seg_tiling st"
    using assms(1) by (simp_all add: seg_store_wf_def)
  have new: "\<not> equivalent Segment_less (fst x) c" if "x \<in> dm_set st" for x
    using same_start_overlaps[of "fst x" c] seg_tilingD(1)[OF til that] assms(2,3) that by blast
  have "dm_set st' =
      insert (c, v) {x \<in> dm_set st. \<not> (equivalent Segment_less (fst x) c \<and> owner d (fst x) = owner d c)}"
    unfolding st'_def by (rule seg_order.dm_set_Put[OF inv])
  then show set: "dm_set st' = insert (c, v) (dm_set st)" using new by auto
  have "seg_tiling st'" by (rule seg_tiling_insert[OF til assms(2,3) set])
  with seg_order.dm_invar_Put[OF inv] show "seg_store_wf d st'"
    by (simp add: seg_store_wf_def st'_def)
qed

lemma segmap_put_run:
  "env_wf e \<Longrightarrow> i < max_num_files e \<Longrightarrow> segmap_put e i me k v st =
    Inr (st(owner (offset_map_d e i) k := DM_Put_local Segment_less k v (st (owner (offset_map_d e i) k))))"
  by (simp add: segmap_put_def DM_Put_run env_wf_dists)

lemma segmap_put_store:
  assumes "env_wf e" and "i < max_num_files e" and "seg_store_wf (offset_map_d e i) st"
    and "Segment_GetSize c > 0" and "\<forall>x\<in>dm_set st. \<not> overlaps (fst x) c"
  shows "\<exists>st'. segmap_put e i me c v st = Inr st' \<and> seg_store_wf (offset_map_d e i) st' \<and>
    dm_set st' = insert (c, v) (dm_set st)"
  unfolding segmap_put_run[OF assms(1,2)] using put_store[OF assms(3-5), of v] by blast

lemma segmap_erase_store:
  assumes "env_wf e" and "i < max_num_files e" and "seg_store_wf (offset_map_d e i) st" and "(k, v) \<in> dm_set st"
  shows "\<exists>b st'. DM_Erase Segment_less (offset_map_d e i) me k st = Inr (b, st') \<and>
    seg_store_wf (offset_map_d e i) st' \<and> dm_set st' = dm_set st - {(k, v)}"
  unfolding DM_Erase_run[OF env_wf_dists(5)[OF assms(1,2)]] using erase_store[OF assms(3,4)] by blast

lemma put_all_store:
  assumes "env_wf e" and "i < max_num_files e"
    and "seg_store_wf (offset_map_d e i) st" and "\<forall>c\<in>set cs. Segment_GetSize c > 0"
    and "\<forall>c\<in>set cs. \<forall>x\<in>dm_set st. \<not> overlaps (fst x) c" and "sorted_wrt (\<lambda>a b. \<not> overlaps a b) cs"
  shows "\<exists>st'. rfold (\<lambda>c. segmap_put e i me c v) cs st = Inr st' \<and> seg_store_wf (offset_map_d e i) st' \<and>
    dm_set st' = dm_set st \<union> (\<lambda>c. (c, v)) ` set cs"
  using assms(3-6)
proof (induction cs arbitrary: st)
  case (Cons c cs)
  obtain st1 where st1: "segmap_put e i me c v st = Inr st1" "seg_store_wf (offset_map_d e i) st1"
    "dm_set st1 = insert (c, v) (dm_set st)"
    using segmap_put_store[OF assms(1,2) Cons.prems(1), of c me v] Cons.prems(2,3) by auto
  have "\<forall>c'\<in>set cs. \<forall>x\<in>dm_set st1. \<not> overlaps (fst x) c'"
    using Cons.prems(3,4) unfolding st1(3) by simp
  with Cons.IH[OF st1(2)] Cons.prems(2,4) obtain st' where
    "rfold (\<lambda>c. segmap_put e i me c v) cs st1 = Inr st'" "seg_store_wf (offset_map_d e i) st'"
    "dm_set st' = dm_set st1 \<union> (\<lambda>c. (c, v)) ` set cs" by auto
  with st1 show ?case by simp
qed simp

section \<open>Replacing a segment\<close>

definition seg_pieces :: "Segment \<Rightarrow> Segment \<Rightarrow> 'v \<Rightarrow> 'v \<Rightarrow> (Segment \<times> 'v) set" where
  "seg_pieces seg k v v' = insert (Segment_Intersect seg k, v') ((\<lambda>c. (c, v)) ` set (Segment_Substract k seg))"

lemma Substract_pieces_disjoint: "overlaps a b \<Longrightarrow> sorted_wrt (\<lambda>a b. \<not> overlaps a b) (Segment_Substract a b)"
  by (auto simp: segment_defs overlaps_def Let_def)

lemma pieces_within:
  assumes "overlaps k seg"
  shows "c \<in> set (Segment_Substract k seg) \<Longrightarrow> seg_set c \<subseteq> seg_set k"
    and "seg_set (Segment_Intersect seg k) \<subseteq> seg_set k"
  using assms Substract_subset[of c k seg] by (auto simp: overlaps_def seg_set_Intersect)

lemma Intersect_size: "overlaps k seg \<Longrightarrow> Segment_GetSize (Segment_Intersect seg k) > 0"
  using seg_set_empty_iff[of "Segment_Intersect seg k"] by (force simp: overlaps_def seg_set_Intersect)

lemma replace_segment_store:
  assumes env: "env_wf e" and i: "i < max_num_files e" and wf: "seg_store_wf (offset_map_d e i) st"
    and mem: "(k, v) \<in> dm_set st" and ov: "overlaps k seg"
  shows "\<exists>st'. replace_segment e i me seg k v v' st = Inr st' \<and> seg_store_wf (offset_map_d e i) st' \<and>
    dm_set st' = (dm_set st - {(k, v)}) \<union> seg_pieces seg k v v'"
proof -
  let ?d = "offset_map_d e i" and ?cs = "Segment_Substract k seg" and ?c = "Segment_Intersect seg k"
  obtain b st1 where st1: "DM_Erase Segment_less ?d me k st = Inr (b, st1)" "seg_store_wf ?d st1"
    "dm_set st1 = dm_set st - {(k, v)}"
    using segmap_erase_store[OF env i wf mem, of me] by blast
  have away: "\<not> overlaps (fst x) c" if "x \<in> dm_set st1" "seg_set c \<subseteq> seg_set k" for x c
    using wf that mem unfolding st1(3) seg_store_wf_def seg_tiling_def overlaps_def by fastforce
  obtain st2 where st2: "rfold (\<lambda>c. segmap_put e i me c v) ?cs st1 = Inr st2" "seg_store_wf ?d st2"
    "dm_set st2 = dm_set st1 \<union> (\<lambda>c. (c, v)) ` set ?cs"
    using put_all_store[OF env i st1(2), of ?cs me v] away Substract_nonempty
      Substract_pieces_disjoint[OF ov] pieces_within(1)[OF ov] by metis
  have "\<not> overlaps (fst x) ?c" if "x \<in> dm_set st2" for x
  proof (cases "x \<in> dm_set st1")
    case True
    then show ?thesis using away pieces_within(2)[OF ov] by blast
  next
    case False
    then have "fst x \<in> set ?cs" using that st2(3) by auto
    then show ?thesis
      using Substract_disjoint_from[of "fst x" k seg] by (auto simp: overlaps_def seg_set_Intersect)
  qed
  then obtain st3 where st3: "segmap_put e i me ?c v' st2 = Inr st3" "seg_store_wf ?d st3"
    "dm_set st3 = insert (?c, v') (dm_set st2)"
    using segmap_put_store[OF env i st2(2) Intersect_size[OF ov], of me v'] by blast
  have "replace_segment e i me seg k v v' st = Inr st3"
    using st1(1) st2(1) st3(1) by (simp add: replace_segment_def)
  moreover have "dm_set st3 = (dm_set st - {(k, v)}) \<union> seg_pieces seg k v v'"
    unfolding st3(3) st2(3) st1(3) seg_pieces_def by blast
  ultimately show ?thesis using st3(2) by blast
qed

text \<open>Read offset by offset, replacing a segment writes the new value to the offsets it shares with the
  segment and keeps the other ones, except that the leading offsets of an element the segment starts inside
  and reaches past are lost.\<close>

lemma pieces_val:
  assumes "overlaps k seg"
  shows "(\<exists>c. (c, w) \<in> seg_pieces seg k v v' \<and> off \<in> seg_set c) \<longleftrightarrow>
    off \<in> seg_set k \<and> (if off \<in> seg_set seg then w = v' else w = v \<and> \<not> straddles_end k seg)"
proof -
  have "off \<in> seg_sets (Segment_Substract k seg) \<longleftrightarrow>
      off \<in> seg_set k \<and> off \<notin> seg_set seg \<and> \<not> straddles_end k seg"
    using Substract_exact[of k seg] Substract_loses[of k seg] assms
    by (cases "straddles_end k seg") (simp_all add: overlaps_def)
  moreover have "(\<exists>c. (c, w) \<in> seg_pieces seg k v v' \<and> off \<in> seg_set c) \<longleftrightarrow>
      w = v' \<and> off \<in> seg_set (Segment_Intersect seg k) \<or> w = v \<and> off \<in> seg_sets (Segment_Substract k seg)"
    by (auto simp: seg_pieces_def seg_sets_def)
  ultimately show ?thesis by (auto simp: seg_set_Intersect)
qed

lemma segmap_put_total:
  assumes "env_wf e" and "i < max_num_files e" and "dm_invar Segment_less (offset_map_d e i) st"
  shows "\<exists>st'. segmap_put e i me c v st = Inr st' \<and> dm_invar Segment_less (offset_map_d e i) st'"
  unfolding segmap_put_run[OF assms(1,2)] using seg_order.dm_invar_Put[OF assms(3)] by blast

lemma replace_segment_total:
  assumes "env_wf e" and "i < max_num_files e" and "dm_invar Segment_less (offset_map_d e i) st"
  shows "\<exists>st'. replace_segment e i me seg k v v' st = Inr st' \<and> dm_invar Segment_less (offset_map_d e i) st'"
proof -
  let ?d = "offset_map_d e i"
  let ?I = "dm_invar Segment_less ?d"
  obtain b st1 where st1: "DM_Erase Segment_less ?d me k st = Inr (b, st1)" "?I st1"
    unfolding DM_Erase_run[OF env_wf_dists(5)[OF assms(1,2)]]
    using seg_order.dm_invar_Erase[OF assms(3)] by blast
  have "\<exists>t. rfold (\<lambda>c. segmap_put e i me c v) (Segment_Substract k seg) st1 = Inr t \<and> ?I t"
    using st1(2) segmap_put_total[OF assms(1,2)] by (intro rfold_total[where P = ?I]) blast+
  then obtain st2 where st2: "rfold (\<lambda>c. segmap_put e i me c v) (Segment_Substract k seg) st1 = Inr st2" "?I st2"
    by blast
  obtain st3 where "segmap_put e i me (Segment_Intersect seg k) v' st2 = Inr st3" "?I st3"
    using segmap_put_total[OF assms(1,2) st2(2)] by blast
  with st1(1) st2(1) show ?thesis by (simp add: replace_segment_def)
qed

section \<open>Score maps\<close>

text \<open>Every layer of the hierarchy, and no other, has a score map, in descending order of scores.\<close>

definition score_invar :: "env \<Rightarrow> auditor \<Rightarrow> bool" where
  "score_invar e a \<longleftrightarrow> env_wf e \<and> dhm_invar (layer_score_map_d e) (layer_score_map a) \<and>
     dom (dhm_lookup (layer_score_map_d e) (layer_score_map a)) = layer_id ` set (layers e) \<and>
     (\<forall>l mm. dhm_lookup (layer_score_map_d e) (layer_score_map a) l = Some mm \<longrightarrow> mm_sorted (>) mm)"

lemma score_invar_frame [simp]:
  "score_invar e (set_offset_map i st a) = score_invar e a"
  "score_invar e (a\<lparr>file_active_status := m\<rparr>) = score_invar e a"
  "score_invar e (a\<lparr>valid_buffered_dataset := vb, file_seq := fs, file_segment_map := fm\<rparr>) = score_invar e a"
  "score_invar e (a\<lparr>file_segment_map := fm\<rparr>) = score_invar e a"
  by (simp_all add: score_invar_def set_offset_map_def)

lemma mm_sorted_erase_scored: "mm_sorted lt mm \<Longrightarrow> mm_sorted lt (erase_scored p n s mm)"
  by (simp add: mm_sorted_def erase_scored_def sorted_wrt_filter_imp)

lemma layer_Get: "score_invar e a \<Longrightarrow> DHM_Get (layer_score_map_d e) me l (layer_score_map a) =
    Inr (dhm_lookup (layer_score_map_d e) (layer_score_map a) l)"
  by (simp add: score_invar_def dhm.get_lookup)

lemma layer_Put:
  assumes "score_invar e a" and "l \<in> layer_id ` set (layers e)" and "mm_sorted (>) mm"
  shows "\<exists>m. DHM_Put (layer_score_map_d e) me l mm (layer_score_map a) = Inr (True, m) \<and>
    score_invar e (a\<lparr>layer_score_map := m\<rparr>)"
proof -
  obtain m where "DHM_Put (layer_score_map_d e) me l mm (layer_score_map a) = Inr (True, m)"
    "dhm_invar (layer_score_map_d e) m"
    "dhm_lookup (layer_score_map_d e) m = (dhm_lookup (layer_score_map_d e) (layer_score_map a))(l \<mapsto> mm)"
    using dhm.put_ok[of "layer_score_map_d e" "layer_score_map a" me l mm] assms(1)
    by (auto simp: score_invar_def)
  with assms show ?thesis by (auto simp: score_invar_def)
qed

lemma update_layer_score_ok:
  assumes "score_invar e a" and "\<exists>p. pair = Inr p"
  shows "\<exists>m. update_layer_score e me l prev n seg score pair a = Inr (a\<lparr>layer_score_map := m\<rparr>) \<and>
    score_invar e (a\<lparr>layer_score_map := m\<rparr>)"
proof (cases "dhm_lookup (layer_score_map_d e) (layer_score_map a) l")
  case None
  with assms(1) show ?thesis
    by (intro exI[of _ "layer_score_map a"]) (simp add: update_layer_score_def layer_Get)
next
  case (Some mm)
  obtain p where p: "pair = Inr p" using assms(2) by blast
  have "l \<in> layer_id ` set (layers e)" and "mm_sorted (>) mm"
    using assms(1) Some by (auto simp: score_invar_def)
  then have "mm_sorted (>) (mm_emplace (>) score p (erase_scored prev n seg mm))"
    by (intro greater_order.mm_sorted_emplace mm_sorted_erase_scored)
  with layer_Put[OF assms(1) \<open>l \<in> _\<close>] obtain m where "DHM_Put (layer_score_map_d e) me l
      (mm_emplace (>) score p (erase_scored prev n seg mm)) (layer_score_map a) = Inr (True, m)"
    "score_invar e (a\<lparr>layer_score_map := m\<rparr>)" by metis
  then show ?thesis
    using Some p by (intro exI[of _ m]) (simp add: update_layer_score_def layer_Get[OF assms(1)])
qed

lemma update_layer_score_frame:
  "update_layer_score e me l prev n seg score pair a = Inr a' \<Longrightarrow> \<exists>m. a' = a\<lparr>layer_score_map := m\<rparr>"
  by (cases a) (auto simp: update_layer_score_def rbind_Inr_iff split: option.splits prod.splits)

section \<open>The loop over the overlapping elements\<close>

text \<open>\<open>IncreaseFileSegmentFrequency\<close> and \<open>UpdateOnMove\<close> run the same loop: each element is replaced, with
  \<open>upd\<close> computing the new value, then a step \<open>rescore\<close> updates a layer's score map.\<close>

lemma bex_pair: "(\<exists>x\<in>S. Q (fst x) (snd x)) \<longleftrightarrow> (\<exists>k v. (k, v) \<in> S \<and> Q k v)"
  by force

lemma split_by_member:
  assumes "X \<subseteq> D"
  shows "(\<exists>k. (k, w) \<in> D \<and> (k, w) \<notin> X \<and> P k) \<or> (\<exists>k v. (k, v) \<in> X \<and> P k \<and> Q k v) \<longleftrightarrow>
    (\<exists>k v. (k, v) \<in> D \<and> P k \<and> (if (k, v) \<in> X then Q k v else w = v))"
  using assms by (simp del: split_paired_Ex add: if_bool_eq_disj) blast

lemma collapse_by_overlap:
  assumes "\<And>k v. (k, v) \<in> X \<longleftrightarrow> (k, v) \<in> D \<and> ov k" and "\<And>k v. (k, v) \<in> X \<Longrightarrow> \<not> S k"
    and "\<And>k. P k \<Longrightarrow> b \<Longrightarrow> ov k"
  shows "(\<exists>k v. (k, v) \<in> D \<and> P k \<and> (if (k, v) \<in> X then if b then w = u k v else w = v \<and> \<not> S k else w = v)) \<longleftrightarrow>
    (if b then \<exists>k v. (k, v) \<in> D \<and> P k \<and> w = u k v else \<exists>k. (k, w) \<in> D \<and> P k)"
proof (cases b)
  case True
  then have "(k, v) \<in> D \<and> P k \<and> (if (k, v) \<in> X then if b then w = u k v else w = v \<and> \<not> S k else w = v) \<longleftrightarrow>
      (k, v) \<in> D \<and> P k \<and> w = u k v" for k v
    using assms(1,3) by auto
  with True show ?thesis by (simp only: if_True)
next
  case False
  then have "(k, v) \<in> D \<and> P k \<and> (if (k, v) \<in> X then if b then w = u k v else w = v \<and> \<not> S k else w = v) \<longleftrightarrow>
      (k, v) \<in> D \<and> P k \<and> w = v" for k v
    using assms(2) by auto
  with False show ?thesis by simp
qed

locale segment_update =
  fixes e :: env and i :: nat and me :: nat and seg :: Segment
    and upd :: "Segment \<Rightarrow> seg_info \<Rightarrow> seg_info"
    and rescore :: "Segment \<times> seg_info \<Rightarrow> auditor \<Rightarrow> auditor res"
    and body :: "Segment \<times> seg_info \<Rightarrow> auditor \<Rightarrow> auditor res"
    and ready :: bool
  assumes body_eq: "body x a =
      rbind (replace_segment e i me seg (fst x) (snd x) (upd (fst x) (snd x)) (offsetMaps a i))
        (\<lambda>st. rescore x (set_offset_map i st a))"
    and rescore_frame: "rescore x a = Inr a' \<Longrightarrow> \<exists>m. a' = a\<lparr>layer_score_map := m\<rparr>"
    and rescore_ok: "ready \<Longrightarrow> score_invar e a \<Longrightarrow> \<exists>a'. rescore x a = Inr a' \<and> score_invar e a'"
begin

lemma body_step:
  assumes "env_wf e" and "i < max_num_files e" and "seg_store_wf (offset_map_d e i) (offsetMaps a i)"
    and "x \<in> dm_set (offsetMaps a i)" and "overlaps (fst x) seg" and "body x a = Inr a'"
  shows "seg_store_wf (offset_map_d e i) (offsetMaps a' i)"
    and "dm_set (offsetMaps a' i) =
      (dm_set (offsetMaps a i) - {x}) \<union> seg_pieces seg (fst x) (snd x) (upd (fst x) (snd x))"
    and "\<exists>st m. a' = (set_offset_map i st a)\<lparr>layer_score_map := m\<rparr>"
proof -
  obtain st where st: "replace_segment e i me seg (fst x) (snd x) (upd (fst x) (snd x)) (offsetMaps a i) = Inr st"
    "seg_store_wf (offset_map_d e i) st"
    "dm_set st = (dm_set (offsetMaps a i) - {x}) \<union> seg_pieces seg (fst x) (snd x) (upd (fst x) (snd x))"
    using replace_segment_store[OF assms(1-3), of "fst x" "snd x" seg me "upd (fst x) (snd x)"] assms(4,5)
    by auto
  obtain m where "a' = (set_offset_map i st a)\<lparr>layer_score_map := m\<rparr>"
    using assms(6) st(1) rescore_frame[of x "set_offset_map i st a" a'] by (auto simp: body_eq)
  then show "seg_store_wf (offset_map_d e i) (offsetMaps a' i)"
    and "dm_set (offsetMaps a' i) =
      (dm_set (offsetMaps a i) - {x}) \<union> seg_pieces seg (fst x) (snd x) (upd (fst x) (snd x))"
    and "\<exists>st m. a' = (set_offset_map i st a)\<lparr>layer_score_map := m\<rparr>"
    using st(2,3) by (auto simp: set_offset_map_def)
qed

text \<open>The whole loop: every element is replaced by its pieces, and nothing but the segment map and the
  score maps changes.\<close>

lemma loop_pieces:
  assumes "env_wf e" and "i < max_num_files e" and "seg_store_wf (offset_map_d e i) (offsetMaps a i)"
    and "distinct xs" and "set xs \<subseteq> dm_set (offsetMaps a i)" and "\<forall>x\<in>set xs. overlaps (fst x) seg"
    and "rfold body xs a = Inr a'"
  shows "seg_store_wf (offset_map_d e i) (offsetMaps a' i) \<and>
    dm_set (offsetMaps a' i) = (dm_set (offsetMaps a i) - set xs) \<union>
      (\<Union>x\<in>set xs. seg_pieces seg (fst x) (snd x) (upd (fst x) (snd x))) \<and>
    (\<exists>st m. a' = (set_offset_map i st a)\<lparr>layer_score_map := m\<rparr>)"
  using assms(3-7)
proof (induction xs arbitrary: a)
  case Nil
  then show ?case
    by (auto simp: set_offset_map_def intro!: exI[of _ "offsetMaps a' i"] exI[of _ "layer_score_map a'"])
next
  case (Cons x xs)
  obtain a1 where a1: "body x a = Inr a1" "rfold body xs a1 = Inr a'"
    using Cons.prems(5) by (auto simp: rbind_Inr_iff)
  let ?P = "\<lambda>x. seg_pieces seg (fst x) (snd x) (upd (fst x) (snd x))"
  have x: "x \<in> dm_set (offsetMaps a i)" "overlaps (fst x) seg" using Cons.prems by auto
  note step = body_step[OF assms(1,2) Cons.prems(1) x a1(1)]
  obtain st m where fr: "a1 = (set_offset_map i st a)\<lparr>layer_score_map := m\<rparr>" using step(3) by blast
  have sub: "set xs \<subseteq> dm_set (offsetMaps a1 i)" using Cons.prems(2,3) unfolding step(2) by auto
  have IH: "seg_store_wf (offset_map_d e i) (offsetMaps a' i)"
    "dm_set (offsetMaps a' i) = (dm_set (offsetMaps a1 i) - set xs) \<union> (\<Union>x\<in>set xs. ?P x)"
    "\<exists>st m. a' = (set_offset_map i st a1)\<lparr>layer_score_map := m\<rparr>"
    using Cons.IH[OF step(1) _ sub _ a1(2)] Cons.prems(2,4) by simp_all
  have fresh: "y \<notin> ?P x" if y: "y \<in> set xs" for y
  proof
    assume "y \<in> ?P x"
    then have "seg_set (fst y) \<subseteq> seg_set (fst x)" and "seg_set (fst y) \<noteq> {}"
      using pieces_within(1)[OF x(2), of "fst y"] pieces_within(2)[OF x(2)]
        Substract_nonempty[of "fst y" "fst x" seg] Intersect_size[OF x(2)]
      by (auto simp: seg_pieces_def seg_set_empty_iff)
    then have "overlaps (fst x) (fst y)" by (auto simp: overlaps_def)
    moreover have "y \<in> dm_set (offsetMaps a i)" using y Cons.prems(3) by auto
    ultimately have "x = y"
      using Cons.prems(1) x(1) seg_tilingD(2)[of "offsetMaps a i" x y] by (simp add: seg_store_wf_def)
    with y Cons.prems(2) show False by simp
  qed
  have "dm_set (offsetMaps a' i) = (dm_set (offsetMaps a i) - set (x # xs)) \<union> (\<Union>x\<in>set (x # xs). ?P x)"
    unfolding IH(2) step(2) using fresh by auto
  moreover have "\<exists>st m. a' = (set_offset_map i st a)\<lparr>layer_score_map := m\<rparr>"
    using IH(3) by (auto simp: fr set_offset_map_def)
  ultimately show ?case using IH(1) by blast
qed

text \<open>Offset by offset: the loop applies \<open>upd\<close> to the offsets of the segment in the elements it is given, and
  leaves the other offsets alone but for those it loses.\<close>

lemma loop_pointwise:
  assumes "env_wf e" and "i < max_num_files e" and "seg_store_wf (offset_map_d e i) (offsetMaps a i)"
    and "distinct xs" and "set xs \<subseteq> dm_set (offsetMaps a i)" and "\<forall>x\<in>set xs. overlaps (fst x) seg"
    and "rfold body xs a = Inr a'"
  shows "seg_val (offsetMaps a' i) off w \<longleftrightarrow>
    (\<exists>k v. (k, v) \<in> dm_set (offsetMaps a i) \<and> off \<in> seg_set k \<and>
       (if (k, v) \<in> set xs
        then if off \<in> seg_set seg then w = upd k v else w = v \<and> \<not> straddles_end k seg
        else w = v))"
proof -
  let ?D = "dm_set (offsetMaps a i)"
  have D: "dm_set (offsetMaps a' i) = (?D - set xs) \<union>
      (\<Union>x\<in>set xs. seg_pieces seg (fst x) (snd x) (upd (fst x) (snd x)))"
    using loop_pieces[OF assms] by simp
  have val: "(\<exists>c. (c, w) \<in> seg_pieces seg (fst x) (snd x) (upd (fst x) (snd x)) \<and> off \<in> seg_set c) \<longleftrightarrow>
      off \<in> seg_set (fst x) \<and>
      (if off \<in> seg_set seg then w = upd (fst x) (snd x) else w = snd x \<and> \<not> straddles_end (fst x) seg)"
    if "x \<in> set xs" for x
    using that assms(6) by (intro pieces_val) blast
  have "seg_val (offsetMaps a' i) off w \<longleftrightarrow>
      (\<exists>k. (k, w) \<in> ?D \<and> (k, w) \<notin> set xs \<and> off \<in> seg_set k) \<or>
      (\<exists>x\<in>set xs. off \<in> seg_set (fst x) \<and>
        (if off \<in> seg_set seg then w = upd (fst x) (snd x) else w = snd x \<and> \<not> straddles_end (fst x) seg))"
    unfolding seg_val_def D using val by blast
  also have "\<dots> \<longleftrightarrow> (\<exists>k v. (k, v) \<in> ?D \<and> off \<in> seg_set k \<and>
       (if (k, v) \<in> set xs
        then if off \<in> seg_set seg then w = upd k v else w = v \<and> \<not> straddles_end k seg
        else w = v))"
    unfolding bex_pair[of "set xs" "\<lambda>k v. off \<in> seg_set k \<and>
      (if off \<in> seg_set seg then w = upd k v else w = v \<and> \<not> straddles_end k seg)"]
    by (rule split_by_member[OF assms(5)])
  finally show ?thesis .
qed

text \<open>When the elements are all those the segment overlaps and none is cut by its loss, the loop applies
  \<open>upd\<close> to the offsets of the segment and leaves the others alone.\<close>

lemma loop_refines:
  assumes "env_wf e" and "i < max_num_files e" and "seg_store_wf (offset_map_d e i) (offsetMaps a i)"
    and "distinct xs" and "set xs = {x \<in> dm_set (offsetMaps a i). overlaps (fst x) seg}"
    and "\<forall>x\<in>set xs. \<not> straddles_end (fst x) seg" and "rfold body xs a = Inr a'"
  shows "seg_store_wf (offset_map_d e i) (offsetMaps a' i)"
    and "seg_val (offsetMaps a' i) off w \<longleftrightarrow>
      (if off \<in> seg_set seg
       then \<exists>k v. (k, v) \<in> dm_set (offsetMaps a i) \<and> off \<in> seg_set k \<and> w = upd k v
       else seg_val (offsetMaps a i) off w)"
proof -
  have xs: "set xs \<subseteq> dm_set (offsetMaps a i)" "\<forall>x\<in>set xs. overlaps (fst x) seg"
    unfolding assms(5) by simp_all
  show "seg_store_wf (offset_map_d e i) (offsetMaps a' i)"
    using loop_pieces[OF assms(1-4) xs assms(7)] by simp
  have mem: "(k, v) \<in> set xs \<longleftrightarrow> (k, v) \<in> dm_set (offsetMaps a i) \<and> overlaps k seg" for k v
    unfolding assms(5) by simp
  have kept: "(k, v) \<in> set xs \<Longrightarrow> \<not> straddles_end k seg" for k v using assms(6) by force
  have ov: "off \<in> seg_set k \<Longrightarrow> off \<in> seg_set seg \<Longrightarrow> overlaps k seg" for k
    by (auto simp: overlaps_def)
  show "seg_val (offsetMaps a' i) off w \<longleftrightarrow>
      (if off \<in> seg_set seg
       then \<exists>k v. (k, v) \<in> dm_set (offsetMaps a i) \<and> off \<in> seg_set k \<and> w = upd k v
       else seg_val (offsetMaps a i) off w)"
    unfolding loop_pointwise[OF assms(1-4) xs assms(7)] seg_val_def[of "offsetMaps a i"]
    by (rule collapse_by_overlap[OF mem kept ov])
qed

text \<open>The loop ends without a fault on any list of elements.\<close>

lemma loop_total:
  assumes "ready" and "i < max_num_files e" and "score_invar e a"
    and "dm_invar Segment_less (offset_map_d e i) (offsetMaps a i)"
  shows "\<exists>a'. rfold body xs a = Inr a' \<and> score_invar e a' \<and>
    dm_invar Segment_less (offset_map_d e i) (offsetMaps a' i) \<and>
    (\<exists>st m. a' = (set_offset_map i st a)\<lparr>layer_score_map := m\<rparr>)"
proof -
  let ?P = "\<lambda>b. score_invar e b \<and> dm_invar Segment_less (offset_map_d e i) (offsetMaps b i) \<and>
    (\<exists>st m. b = (set_offset_map i st a)\<lparr>layer_score_map := m\<rparr>)"
  have env: "env_wf e" using assms(3) by (simp add: score_invar_def)
  have "\<exists>b'. body x b = Inr b' \<and> ?P b'" if "?P b" for x b
  proof -
    from that obtain st0 m0 where b: "score_invar e b"
      "dm_invar Segment_less (offset_map_d e i) (offsetMaps b i)"
      "b = (set_offset_map i st0 a)\<lparr>layer_score_map := m0\<rparr>" by blast
    obtain st where st: "replace_segment e i me seg (fst x) (snd x) (upd (fst x) (snd x)) (offsetMaps b i) = Inr st"
      "dm_invar Segment_less (offset_map_d e i) st"
      using replace_segment_total[OF env assms(2) b(2)] by blast
    obtain b' where b': "rescore x (set_offset_map i st b) = Inr b'" "score_invar e b'"
      using rescore_ok[OF assms(1), of "set_offset_map i st b" x] b(1) by auto
    obtain m where "b' = (set_offset_map i st b)\<lparr>layer_score_map := m\<rparr>"
      using rescore_frame[OF b'(1)] by blast
    with st b b' show ?thesis by (auto simp: body_eq set_offset_map_def)
  qed
  moreover have "?P a"
    using assms(3,4) by (auto simp: set_offset_map_def intro!: exI[of _ "offsetMaps a i"] exI[of _ "layer_score_map a"])
  ultimately show ?thesis by (intro rfold_total[where P = ?P])
qed

end

lemma new_posix_file_ok:
  "env_wf e \<Longrightarrow> l \<in> layer_id ` set (layers e) \<Longrightarrow> \<exists>f. new_posix_file e n seg l = Inr f"
  using Layer_of_id_total_iff[of "layers e" l]
  by (auto simp: new_posix_file_def Layer_LAST_def env_wf_def layers_wf_def)

interpretation increase: segment_update e i me "ev_segment event"
    "\<lambda>k v. (fst v, bump_score (ev_time event) (snd v))"
    "\<lambda>x. update_layer_score e me (layer_id (pf_layer (fst (snd x)))) (GetScore (snd (snd x)))
       (ev_filename event) (fst x) (GetScore (bump_score (ev_time event) (snd (snd x))))
       (rbind (new_posix_file e (ev_filename event) (Segment_Intersect (ev_segment event) (fst x)) (layer_index event))
          (\<lambda>sub_source. Inr (sub_source, (fst (snd x))\<lparr>pf_segment := Segment_Intersect (ev_segment event) (fst x)\<rparr>)))"
    "increase_element e i me event" "layer_index event \<in> layer_id ` set (layers e)"
  for e i me event
proof unfold_locales
  show "layer_index event \<in> layer_id ` set (layers e) \<Longrightarrow> score_invar e a \<Longrightarrow>
    \<exists>a'. update_layer_score e me (layer_id (pf_layer (fst (snd x)))) (GetScore (snd (snd x)))
       (ev_filename event) (fst x) (GetScore (bump_score (ev_time event) (snd (snd x))))
       (rbind (new_posix_file e (ev_filename event) (Segment_Intersect (ev_segment event) (fst x)) (layer_index event))
          (\<lambda>sub_source. Inr (sub_source, (fst (snd x))\<lparr>pf_segment := Segment_Intersect (ev_segment event) (fst x)\<rparr>)))
       a = Inr a' \<and> score_invar e a'" for a x
    using update_layer_score_ok[of e a] new_posix_file_ok[of e "layer_index event"]
    by (metis rbind_simps(1) score_invar_def)
qed (auto simp: increase_element_def Let_def dest: update_layer_score_frame)

interpretation move: segment_update e i me "pf_segment source" "moved_info source destination"
    "\<lambda>x. let v' = moved_info source destination (fst x) (snd x);
            common = Segment_Intersect (pf_segment source) (fst x)
         in update_layer_score e me (layer_id (pf_layer (fst v'))) (GetScore (snd (snd x))) (pf_filename source)
              (fst x) (GetScore (snd v'))
              (Inr (source\<lparr>pf_segment := common\<rparr>, (fst v')\<lparr>pf_segment := common\<rparr>))"
    "move_element e i me source destination" True
  for e i me source destination
proof unfold_locales
  fix x a
  assume "score_invar e a"
  from update_layer_score_ok[OF this]
  show "\<exists>a'. (let v' = moved_info source destination (fst x) (snd x);
            common = Segment_Intersect (pf_segment source) (fst x)
         in update_layer_score e me (layer_id (pf_layer (fst v'))) (GetScore (snd (snd x))) (pf_filename source)
              (fst x) (GetScore (snd v'))
              (Inr (source\<lparr>pf_segment := common\<rparr>, (fst v')\<lparr>pf_segment := common\<rparr>))) a = Inr a' \<and> score_invar e a'"
    unfolding Let_def by blast
qed (auto simp: move_element_def Let_def dest: update_layer_score_frame)

end
