(* ===== verification/Auditor_Properties.thy ===== *)
theory Auditor_Properties
  imports File_Segment_Auditor
begin

text \<open>
  The invariant of the file segment auditor, that every operation returns and keeps it, and the
  functional properties of the operations: reads and moves as pointwise updates of the file's offsets,
  the count of opens and closes, the heat map, the layer scores and data locations.
\<close>

section \<open>The invariant\<close>

definition auditor_invar :: "env \<Rightarrow> auditor \<Rightarrow> bool" where
  "auditor_invar e a \<longleftrightarrow> score_invar e a \<and>
     dhm_invar (valid_buffered_dataset_d e) (valid_buffered_dataset a) \<and>
     dhm_invar (file_active_status_d e) (file_active_status a) \<and>
     (\<forall>i < max_num_files e. dm_invar Segment_less (offset_map_d e i) (offsetMaps a i)) \<and>
     (\<forall>s. \<forall>x\<in>set (file_segment_map a s). snd x < max_num_files e) \<and>
     (\<forall>k n. dhm_lookup (valid_buffered_dataset_d e) (valid_buffered_dataset a) k = Some n \<longrightarrow>
        n < max_num_files e)"

lemma auditor_env: "auditor_invar e a \<Longrightarrow> env_wf e"
  by (simp add: auditor_invar_def score_invar_def)

lemma auditor_index:
  "auditor_invar e a \<Longrightarrow> um_find n (file_segment_map a me) = Some i \<Longrightarrow> i < max_num_files e"
  unfolding auditor_invar_def um_find_def by (metis map_of_SomeD snd_conv)

lemma auditor_store: "auditor_invar e a \<Longrightarrow> i < max_num_files e \<Longrightarrow>
    dm_invar Segment_less (offset_map_d e i) (offsetMaps a i)"
  by (simp add: auditor_invar_def)

text \<open>Changing one segment map and the score maps keeps the invariant when the new values satisfy it.\<close>

lemma auditor_invar_loop:
  assumes "auditor_invar e a" and "a' = (set_offset_map i st a)\<lparr>layer_score_map := m\<rparr>"
    and "score_invar e a'" and "dm_invar Segment_less (offset_map_d e i) (offsetMaps a' i)"
  shows "auditor_invar e a'"
  using assms by (auto simp: auditor_invar_def set_offset_map_def)

lemma auditor_invar_active:
  assumes "auditor_invar e a"
  shows "\<exists>m. DHM_Put (file_active_status_d e) me n v (file_active_status a) = Inr (True, m) \<and>
    auditor_invar e (a\<lparr>file_active_status := m\<rparr>) \<and>
    dhm_lookup (file_active_status_d e) m = (dhm_lookup (file_active_status_d e) (file_active_status a))(n \<mapsto> v)"
proof -
  have "dhm_invar (file_active_status_d e) (file_active_status a)"
    using assms by (simp add: auditor_invar_def)
  from dhm.put_ok[OF this, of me n v] show ?thesis
    using assms by (auto simp: auditor_invar_def)
qed

lemma active_Get: "auditor_invar e a \<Longrightarrow> DHM_Get (file_active_status_d e) me n (file_active_status a) =
    Inr (dhm_lookup (file_active_status_d e) (file_active_status a) n)"
  by (simp add: auditor_invar_def dhm.get_lookup)

lemma valid_Get: "auditor_invar e a \<Longrightarrow> DHM_Get (valid_buffered_dataset_d e) me n (valid_buffered_dataset a) =
    Inr (dhm_lookup (valid_buffered_dataset_d e) (valid_buffered_dataset a) n)"
  by (simp add: auditor_invar_def dhm.get_lookup)

section \<open>Opening and closing\<close>

text \<open>What an event does to the count of one file.\<close>

definition active_spec :: "string \<Rightarrow> Event \<Rightarrow> nat option \<Rightarrow> nat option" where
  "active_spec n event c =
     (if ev_filename event \<noteq> n then c
      else case event_type event of
             FILE_OPEN \<Rightarrow> Some (case c of Some k \<Rightarrow> (k + 1) mod 2 ^ 32 | None \<Rightarrow> 1)
           | FILE_CLOSE \<Rightarrow> map_option (\<lambda>k. (k + 2 ^ 32 - 1) mod 2 ^ 32) c
           | _ \<Rightarrow> c)"

definition active_count :: "env \<Rightarrow> auditor \<Rightarrow> string \<Rightarrow> nat option" where
  "active_count e a n = dhm_lookup (file_active_status_d e) (file_active_status a) n"

lemma MarkActive_ok:
  assumes "auditor_invar e a" and "event_type event = FILE_OPEN"
  shows "\<exists>a'. MarkFileSegmentsActive e me event a = Inr a' \<and> auditor_invar e a' \<and>
    (\<forall>n. active_count e a' n = active_spec n event (active_count e a n))"
proof -
  let ?v = "case active_count e a (ev_filename event) of Some n \<Rightarrow> (n + 1) mod 2 ^ 32 | None \<Rightarrow> 1"
  obtain m where "DHM_Put (file_active_status_d e) me (ev_filename event) ?v (file_active_status a) = Inr (True, m)"
    "auditor_invar e (a\<lparr>file_active_status := m\<rparr>)"
    "dhm_lookup (file_active_status_d e) m =
       (dhm_lookup (file_active_status_d e) (file_active_status a))(ev_filename event \<mapsto> ?v)"
    using auditor_invar_active[OF assms(1)] by blast
  with assms show ?thesis
    by (intro exI[of _ "a\<lparr>file_active_status := m\<rparr>"])
      (simp add: MarkFileSegmentsActive_def active_Get active_count_def active_spec_def)
qed

lemma MarkInactive_ok:
  assumes "auditor_invar e a" and "event_type event = FILE_CLOSE"
  shows "\<exists>a'. MarkFileSegmentsInactive e me event a = Inr a' \<and> auditor_invar e a' \<and>
    (\<forall>n. active_count e a' n = active_spec n event (active_count e a n))"
proof (cases "active_count e a (ev_filename event)")
  case None
  with assms show ?thesis
    by (intro exI[of _ a]) (simp add: MarkFileSegmentsInactive_def active_Get active_count_def active_spec_def)
next
  case (Some k)
  let ?v = "(k + 2 ^ 32 - 1) mod 2 ^ 32"
  obtain m where "DHM_Put (file_active_status_d e) me (ev_filename event) ?v (file_active_status a) = Inr (True, m)"
    "auditor_invar e (a\<lparr>file_active_status := m\<rparr>)"
    "dhm_lookup (file_active_status_d e) m =
       (dhm_lookup (file_active_status_d e) (file_active_status a))(ev_filename event \<mapsto> ?v)"
    using auditor_invar_active[OF assms(1)] by blast
  with assms Some show ?thesis
    by (intro exI[of _ "a\<lparr>file_active_status := m\<rparr>"])
      (simp add: MarkFileSegmentsInactive_def active_Get active_count_def active_spec_def)
qed

definition opens :: "string \<Rightarrow> Event list \<Rightarrow> nat" where
  "opens n events = length (filter (\<lambda>ev. ev_filename ev = n \<and> event_type ev = FILE_OPEN) events)"

definition closes :: "string \<Rightarrow> Event list \<Rightarrow> nat" where
  "closes n events = length (filter (\<lambda>ev. ev_filename ev = n \<and> event_type ev = FILE_CLOSE) events)"

lemma opens_snoc: "opens n (events @ [ev]) =
    opens n events + (if ev_filename ev = n \<and> event_type ev = FILE_OPEN then 1 else 0)"
  by (simp add: opens_def)

lemma closes_snoc: "closes n (events @ [ev]) =
    closes n events + (if ev_filename ev = n \<and> event_type ev = FILE_CLOSE then 1 else 0)"
  by (simp add: closes_def)

lemma uint32_dec: "0 < k \<Longrightarrow> k < 2 ^ 32 \<Longrightarrow> (k + 2 ^ 32 - 1) mod 2 ^ 32 = (k::nat) - 1"
proof -
  assume k: "0 < k" "k < 2 ^ 32"
  then have "k + 2 ^ 32 - 1 = (k - 1) + 2 ^ 32" by simp
  then show ?thesis using k by (simp only: mod_add_self2) simp
qed

lemma active_spec_run:
  assumes "opens n events < 2 ^ 32" and "\<forall>k \<le> length events. closes n (take k events) \<le> opens n (take k events)"
  shows "fold (active_spec n) events None =
    (if opens n events = 0 then None else Some (opens n events - closes n events))"
  using assms
proof (induction events rule: rev_induct)
  case Nil
  then show ?case by (simp add: opens_def)
next
  case (snoc ev events)
  have "closes n (take k events) \<le> opens n (take k events)" if "k \<le> length events" for k
    using snoc.prems(2)[rule_format, of k] that by simp
  moreover have "closes n (events @ [ev]) \<le> opens n (events @ [ev])"
    using snoc.prems(2)[rule_format, of "Suc (length events)"] by simp
  moreover have "opens n events < 2 ^ 32" using snoc.prems(1) by (simp add: opens_def split: if_splits)
  moreover have "closes n events \<le> opens n events" using snoc.prems(2)[rule_format, of "length events"] by simp
  ultimately have IH: "fold (active_spec n) events None =
      (if opens n events = 0 then None else Some (opens n events - closes n events))"
    and le: "closes n events \<le> opens n events" "closes n (events @ [ev]) \<le> opens n (events @ [ev])"
    and bound: "opens n events < 2 ^ 32"
    using snoc.IH by blast+
  have step: "fold (active_spec n) (events @ [ev]) None =
      active_spec n ev (if opens n events = 0 then None else Some (opens n events - closes n events))"
    using IH by simp
  show ?case
  proof (cases "ev_filename ev = n")
    case False
    then show ?thesis unfolding step by (simp add: active_spec_def opens_snoc closes_snoc)
  next
    case True
    have dec: "(opens n events - closes n events + 2 ^ 32 - 1) mod 2 ^ 32 = opens n events - closes n events - 1"
      if "event_type ev = FILE_CLOSE"
      using le True that bound by (intro uint32_dec) (simp_all add: opens_snoc closes_snoc)
    show ?thesis
      unfolding step using True le bound snoc.prems(1) dec
      by (cases "event_type ev") (auto simp: active_spec_def opens_snoc closes_snoc)
  qed
qed

section \<open>Creating an offset map\<close>

lemma auditor_invar_known:
  assumes "auditor_invar e a" and "i < max_num_files e"
  shows "auditor_invar e (a\<lparr>file_segment_map := (file_segment_map a)(me := um_insert n i (file_segment_map a me))\<rparr>)"
proof -
  have "set (um_insert n i xs) \<subseteq> insert (n, i) (set xs)" for xs :: "(string \<times> nat) list"
    by (auto simp: um_insert_def split: option.splits)
  then have "\<forall>x\<in>set (um_insert n i (file_segment_map a me)). snd x < max_num_files e"
    using assms unfolding auditor_invar_def by fastforce
  with assms(1) show ?thesis by (simp add: auditor_invar_def)
qed

text \<open>A file seen for the first time by any server takes the next sequence number, modulo the number of
  offset maps, and starts with the segment of the event and a zero score.\<close>

lemma CreateOffsetMap_new:
  assumes inv: "auditor_invar e a" and l: "layer_index event \<in> layer_id ` set (layers e)"
    and new: "um_find (ev_filename event) (file_segment_map a me) = None"
      "dhm_lookup (valid_buffered_dataset_d e) (valid_buffered_dataset a) (ev_filename event) = None"
  defines "i \<equiv> (file_seq a 0 + 1) mod 2 ^ 64 mod max_num_files e"
  shows "\<exists>a' st file. CreateOffsetMap e me event a = Inr a' \<and> auditor_invar e a' \<and>
    new_posix_file e (ev_filename event) (ev_segment event) (layer_index event) = Inr file \<and>
    segmap_put e i me (ev_segment event) (file, SegmentScore_default) (offsetMaps a i) = Inr st \<and>
    offsetMaps a' = (offsetMaps a)(i := st) \<and> file_active_status a' = file_active_status a \<and>
    um_find (ev_filename event) (file_segment_map a' me) = Some i \<and>
    dhm_lookup (valid_buffered_dataset_d e) (valid_buffered_dataset a') (ev_filename event) = Some i"
proof -
  note env = auditor_env[OF inv]
  have i: "i < max_num_files e" using env by (simp add: i_def env_wf_def)
  obtain fs where seq: "GetNextSequenceServer (obj_of e ''FILE_INDEX'') me 0 (file_seq a) =
      Inr ((file_seq a 0 + 1) mod 2 ^ 64, fs)"
    using GetNextSequenceServer_run[OF env_wf_sequences(1)[OF env], of 0 me "file_seq a"] env
    by (auto simp: obj_of_def env_wf_def)
  obtain vb where vb: "DHM_Put (valid_buffered_dataset_d e) me (ev_filename event) i (valid_buffered_dataset a) =
      Inr (True, vb)" "dhm_invar (valid_buffered_dataset_d e) vb"
    "dhm_lookup (valid_buffered_dataset_d e) vb =
      (dhm_lookup (valid_buffered_dataset_d e) (valid_buffered_dataset a))(ev_filename event \<mapsto> i)"
    using dhm.put_ok[of "valid_buffered_dataset_d e" "valid_buffered_dataset a" me "ev_filename event" i] inv
    by (auto simp: auditor_invar_def)
  obtain f0 where nf: "new_posix_file e (ev_filename event) (ev_segment event) (layer_index event) = Inr f0"
    using new_posix_file_ok[OF env l] by blast
  obtain st where st: "segmap_put e i me (ev_segment event) (f0, SegmentScore_default) (offsetMaps a i) = Inr st"
    "dm_invar Segment_less (offset_map_d e i) st"
    using segmap_put_total[OF env i auditor_store[OF inv i]] by blast
  let ?b = "(set_offset_map i st a)\<lparr>valid_buffered_dataset := vb, file_seq := fs\<rparr>"
  let ?a = "?b\<lparr>file_segment_map := (file_segment_map ?b)(me :=
      um_insert (ev_filename event) i (file_segment_map ?b me))\<rparr>"
  have "score_invar e ?b" using inv by (simp add: auditor_invar_def score_invar_def set_offset_map_def)
  then have "auditor_invar e ?b"
    using inv vb(2,3) st(2) i by (auto simp: auditor_invar_def set_offset_map_def)
  then have "auditor_invar e ?a" by (rule auditor_invar_known[OF _ i])
  moreover have "CreateOffsetMap e me event a = Inr ?a"
    using new seq vb(1) nf st(1) i env
    by (simp add: CreateOffsetMap_def valid_Get[OF inv] Let_def offset_index_def env_wf_def
        set_offset_map_def i_def)
  moreover have "um_find (ev_filename event) (file_segment_map ?a me) = Some i"
    using new(1) by (simp add: um_find_insert set_offset_map_def)
  ultimately show ?thesis
    using nf st(1) vb(3) by (intro exI[of _ ?a] exI[of _ st] exI[of _ f0]) (simp add: set_offset_map_def)
qed

lemma CreateOffsetMap_ok:
  assumes inv: "auditor_invar e a" and l: "layer_index event \<in> layer_id ` set (layers e)"
  shows "\<exists>a'. CreateOffsetMap e me event a = Inr a' \<and> auditor_invar e a' \<and>
    file_active_status a' = file_active_status a"
proof (cases "um_find (ev_filename event) (file_segment_map a me) = None \<and>
    dhm_lookup (valid_buffered_dataset_d e) (valid_buffered_dataset a) (ev_filename event) = None")
  case True
  with CreateOffsetMap_new[OF inv l] show ?thesis by blast
next
  case False
  show ?thesis
  proof (cases "um_find (ev_filename event) (file_segment_map a me)")
    case None
    then obtain s where s: "dhm_lookup (valid_buffered_dataset_d e) (valid_buffered_dataset a) (ev_filename event) = Some s"
      using False by auto
    then have "s < max_num_files e" using inv by (simp add: auditor_invar_def)
    with None s auditor_invar_known[OF inv, of s me "ev_filename event"] show ?thesis
      by (simp add: CreateOffsetMap_def valid_Get[OF inv] offset_index_def)
  next
    case (Some i)
    with inv show ?thesis by (simp add: CreateOffsetMap_def)
  qed
qed

section \<open>Reads and moves\<close>

text \<open>The overlap query returns every stored entry at most once.\<close>

lemma om_sorted_distinct: "om_sorted Segment_less m \<Longrightarrow> distinct m"
  unfolding om_sorted_def
  by (induction m) (auto simp: Segment_less_def)

lemma ContainsInServer_sub:
  "set (DM_ContainsInServer lt con k m) \<subseteq> set m"
  "distinct m \<Longrightarrow> distinct (DM_ContainsInServer lt con k m)"
  by (auto simp: DM_ContainsInServer_def Let_def dest!: set_takeWhileD in_set_dropD split: if_splits)

lemma Contains_entries:
  assumes "env_wf e" and "i < max_num_files e" and "dm_invar Segment_less (offset_map_d e i) st"
    and "DM_Contains Segment_less con (offset_map_d e i) me k st = Inr xs"
  shows "distinct xs" and "set xs \<subseteq> dm_set st"
proof -
  let ?d = "offset_map_d e i" and ?f = "\<lambda>s. DM_ContainsInServer Segment_less con k (st s)"
  have xs: "xs = concat (map ?f (dm_servers ?d me))"
    using assms(4) by (simp add: DM_Contains_run[OF env_wf_dists(5)[OF assms(1,2)]])
  show "set xs \<subseteq> dm_set st"
    using ContainsInServer_sub(1) unfolding xs dm_set_def by fastforce
  have "distinct (concat (map ?f ss))" if "distinct ss" for ss
    using that
  proof (induction ss)
    case (Cons s ss)
    have "distinct (?f s)"
      using assms(3) by (intro ContainsInServer_sub(2) om_sorted_distinct) (simp add: dm_invar_def)
    moreover have "x \<notin> set (?f s')" if "x \<in> set (?f s)" "s' \<in> set ss" for x s'
    proof
      assume "x \<in> set (?f s')"
      then have "owner ?d (fst x) = s'" and "owner ?d (fst x) = s"
        using that(1) ContainsInServer_sub(1)[of Segment_less con k "st s"]
          ContainsInServer_sub(1)[of Segment_less con k "st s'"] assms(3)
        unfolding dm_invar_def by blast+
      with that(2) Cons.prems show False by simp
    qed
    ultimately show ?case using Cons by auto
  qed simp
  moreover have "distinct (dm_servers ?d me)" by (simp add: dm_servers_def)
  ultimately show "distinct xs" unfolding xs by blast
qed

text \<open>The entries of a tiling on one server are sorted and pairwise disjoint, so the overlap query returns
  the overlapping ones it does not miss, when a server that holds a single segment holds one that overlaps.\<close>

definition missed :: "(Segment, 'v) map_store \<Rightarrow> Segment \<Rightarrow> Segment \<times> 'v \<Rightarrow> bool" where
  "missed st key x \<longleftrightarrow> (\<exists>s. x \<in> set (st s) \<and> query_misses (st s) key (fst x))"

lemma tiling_segmap_wf:
  assumes inv: "dm_invar Segment_less d st" and til: "seg_tiling st"
  shows "segmap_wf (st s)"
proof -
  have mem: "x \<in> dm_set st" if "x \<in> set (st s)" for x using that by (auto simp: dm_set_def)
  have size: "0 < Segment_GetSize (fst x)" if "x \<in> set (st s)" for x
    using til mem[OF that] by (simp add: seg_tiling_def)
  have "seg_end (fst x) < seg_start (fst y)"
    if "x \<in> set (st s)" "y \<in> set (st s)" "Segment_less (fst x) (fst y)" for x y
  proof (rule ccontr)
    assume "\<not> seg_end (fst x) < seg_start (fst y)"
    then have "seg_start (fst y) \<in> seg_set (fst x) \<inter> seg_set (fst y)"
      using size[OF that(2)] that(3) by (simp add: seg_set_def Segment_GetSize_def Segment_less_def)
    then have "x = y" using til mem that(1,2) unfolding seg_tiling_def overlaps_def by blast
    with that(3) show False by (simp add: Segment_less_def)
  qed
  moreover have "sorted_wrt (\<lambda>x y. Segment_less (fst x) (fst y)) (st s)"
    using inv by (simp add: dm_invar_def om_sorted_def)
  ultimately have "sorted_wrt (\<lambda>x y. seg_end (fst x) < seg_start (fst y)) (st s)"
    by (blast intro: sorted_wrt_mono_rel[rotated])
  with size show ?thesis by (simp add: segmap_wf_def)
qed

lemma ContainsInServer_tiling:
  assumes inv: "dm_invar Segment_less d st" and til: "seg_tiling st" and key: "0 < Segment_GetSize key"
    and single: "\<forall>x. st s = [x] \<longrightarrow> overlaps (fst x) key"
  shows "x \<in> set (DM_ContainsInServer Segment_less Segment_Contains key (st s)) \<longleftrightarrow>
    x \<in> set (st s) \<and> overlaps (fst x) key \<and> \<not> query_misses (st s) key (fst x)"
proof (cases "2 \<le> length (st s)")
  case True
  then show ?thesis by (rule ContainsInServer_mem[OF tiling_segmap_wf[OF inv til] key])
next
  case False
  then have "st s = [] \<or> (\<exists>y. st s = [y])" by (cases "st s") (auto simp: Suc_le_eq)
  with single show ?thesis by (auto simp: DM_ContainsInServer_def query_misses_def)
qed

lemma Contains_tiling:
  assumes env: "env_wf e" "i < max_num_files e" and inv: "dm_invar Segment_less (offset_map_d e i) st"
    and til: "seg_tiling st" and key: "0 < Segment_GetSize key"
    and single: "\<forall>s x. st s = [x] \<longrightarrow> overlaps (fst x) key" and me: "me < env_servers e"
  shows "\<exists>xs. DM_Contains Segment_less Segment_Contains (offset_map_d e i) me key st = Inr xs \<and> distinct xs \<and>
    set xs = {x \<in> dm_set st. overlaps (fst x) key \<and> \<not> missed st key x}"
proof -
  let ?d = "offset_map_d e i" and ?f = "\<lambda>s. DM_ContainsInServer Segment_less Segment_Contains key (st s)"
  let ?xs = "concat (map ?f (dm_servers ?d me))"
  have run: "DM_Contains Segment_less Segment_Contains ?d me key st = Inr ?xs"
    by (simp add: DM_Contains_run[OF env_wf_dists(5)[OF env]])
  have n: "num_servers ?d = env_servers e" by (simp add: offset_map_d_def dist_of_def)
  have at: "x \<in> set (?f s) \<longleftrightarrow> x \<in> set (st s) \<and> overlaps (fst x) key \<and> \<not> query_misses (st s) key (fst x)" for s x
    by (rule ContainsInServer_tiling[OF inv til key]) (use single in blast)
  have home: "x \<in> set (st s) \<Longrightarrow> s = owner ?d (fst x)" for x s using inv by (auto simp: dm_invar_def)
  have own: "owner ?d k < env_servers e" for k using owner_less[OF env_wf_dists(5)[OF env], of k] n by simp
  have "x \<in> set ?xs \<longleftrightarrow> x \<in> dm_set st \<and> overlaps (fst x) key \<and> \<not> missed st key x" for x
  proof -
    have "x \<in> set ?xs \<longleftrightarrow> (\<exists>s<env_servers e. x \<in> set (?f s))"
      using set_dm_servers[of me ?d] me n by auto
    also have "\<dots> \<longleftrightarrow> x \<in> set (?f (owner ?d (fst x)))" unfolding at using home own by blast
    also have "\<dots> \<longleftrightarrow> x \<in> dm_set st \<and> overlaps (fst x) key \<and> \<not> missed st key x"
      unfolding at missed_def dm_set_def using home by blast
    finally show ?thesis .
  qed
  then have "set ?xs = {x \<in> dm_set st. overlaps (fst x) key \<and> \<not> missed st key x}" by blast
  with run Contains_entries(1)[OF env inv run] show ?thesis by blast
qed

lemma Increase_ok:
  assumes "auditor_invar e a" and "layer_index event \<in> layer_id ` set (layers e)"
  shows "\<exists>a'. IncreaseFileSegmentFrequency e me event a = Inr a' \<and> auditor_invar e a' \<and>
    file_active_status a' = file_active_status a"
proof (cases "um_find (ev_filename event) (file_segment_map a me)")
  case None
  with assms(1) show ?thesis by (simp add: IncreaseFileSegmentFrequency_def)
next
  case (Some i)
  note env = auditor_env[OF assms(1)] and i = auditor_index[OF assms(1) Some]
  have score: "score_invar e a" using assms(1) by (simp add: auditor_invar_def)
  obtain xs where xs: "DM_Contains Segment_less Segment_Contains (offset_map_d e i) me (ev_segment event)
      (offsetMaps a i) = Inr xs"
    by (simp add: DM_Contains_run[OF env_wf_dists(5)[OF env i]])
  obtain a' st m where a': "rfold (increase_element e i me event) xs a = Inr a'" "score_invar e a'"
    "dm_invar Segment_less (offset_map_d e i) (offsetMaps a' i)"
    "a' = (set_offset_map i st a)\<lparr>layer_score_map := m\<rparr>"
    using increase.loop_total[OF assms(2) i score auditor_store[OF assms(1) i]] by blast
  have "IncreaseFileSegmentFrequency e me event a = Inr a'"
    using Some xs a'(1) by (simp add: IncreaseFileSegmentFrequency_def)
  moreover have "file_active_status a' = file_active_status a" using a'(4) by (simp add: set_offset_map_def)
  ultimately show ?thesis using auditor_invar_loop[OF assms(1) a'(4,2,3)] by blast
qed

lemma UpdateOnMove_ok:
  assumes "auditor_invar e a"
  shows "\<exists>a'. UpdateOnMove e me source destination a = Inr a' \<and> auditor_invar e a'"
proof (cases "um_find (pf_filename source) (file_segment_map a me)")
  case None
  with assms show ?thesis by (simp add: UpdateOnMove_def)
next
  case (Some i)
  note env = auditor_env[OF assms] and i = auditor_index[OF assms Some]
  have score: "score_invar e a" using assms by (simp add: auditor_invar_def)
  obtain xs where xs: "DM_Contains Segment_less Segment_Contains (offset_map_d e i) me (pf_segment source)
      (offsetMaps a i) = Inr xs"
    by (simp add: DM_Contains_run[OF env_wf_dists(5)[OF env i]])
  obtain a' st m where a': "rfold (move_element e i me source destination) xs a = Inr a'" "score_invar e a'"
    "dm_invar Segment_less (offset_map_d e i) (offsetMaps a' i)"
    "a' = (set_offset_map i st a)\<lparr>layer_score_map := m\<rparr>"
    using move.loop_total[OF TrueI i score auditor_store[OF assms i]] by blast
  have "UpdateOnMove e me source destination a = Inr a'"
    using Some xs a'(1) by (simp add: UpdateOnMove_def DM_Get_run[OF env_wf_dists(5)[OF env i]])
  then show ?thesis using auditor_invar_loop[OF assms a'(4,2,3)] by blast
qed

text \<open>Only opens and reads look at the layer of an event.\<close>

definition names_layer :: "env \<Rightarrow> Event \<Rightarrow> bool" where
  "names_layer e event \<longleftrightarrow> (event_type event = FILE_OPEN \<or> event_type event = FILE_READ \<longrightarrow>
     layer_index event \<in> layer_id ` set (layers e))"

lemma update_event_ok:
  assumes "auditor_invar e a" and "names_layer e event"
  shows "\<exists>a'. update_event e me event a = Inr a' \<and> auditor_invar e a' \<and>
    (\<forall>n. active_count e a' n = active_spec n event (active_count e a n))"
proof (cases "event_type event")
  case FILE_OPEN
  then have layer: "layer_index event \<in> layer_id ` set (layers e)" using assms(2) by (simp add: names_layer_def)
  obtain a1 where a1: "(if um_find (ev_filename event) (file_segment_map a me) = None
      then CreateOffsetMap e me event a else Inr a) = Inr a1" "auditor_invar e a1"
    "file_active_status a1 = file_active_status a"
    using CreateOffsetMap_ok[OF assms(1) layer, of me] assms(1)
    by (cases "um_find (ev_filename event) (file_segment_map a me) = None") auto
  have "active_count e a1 = active_count e a" by (simp add: fun_eq_iff active_count_def a1(3))
  with MarkActive_ok[OF a1(2) FILE_OPEN, of me] FILE_OPEN a1(1) show ?thesis
    unfolding update_event_def by simp
next
  case FILE_CLOSE
  with MarkInactive_ok[OF assms(1) FILE_CLOSE, of me] show ?thesis by (simp add: update_event_def)
next
  case FILE_READ
  then have "layer_index event \<in> layer_id ` set (layers e)" using assms(2) by (simp add: names_layer_def)
  from Increase_ok[OF assms(1) this, of me] FILE_READ show ?thesis
    by (auto simp: update_event_def active_count_def active_spec_def)
next
  case FILE_WRITE
  with assms(1) show ?thesis by (simp add: update_event_def active_spec_def)
qed

lemma Update_ok:
  assumes "auditor_invar e a" and "\<forall>ev\<in>set events. names_layer e ev"
  shows "\<exists>a'. Update e me events a = Inr a' \<and> auditor_invar e a' \<and>
    (\<forall>n. active_count e a' n = fold (active_spec n) events (active_count e a n))"
  using assms
proof (induction events arbitrary: a)
  case Nil
  then show ?case by (simp add: Update_def)
next
  case (Cons ev events)
  obtain a1 where a1: "update_event e me ev a = Inr a1" "auditor_invar e a1"
    "\<forall>n. active_count e a1 n = active_spec n ev (active_count e a n)"
    using update_event_ok[OF Cons.prems(1), of ev me] Cons.prems(2) by auto
  with Cons.IH[OF a1(2)] Cons.prems(2) show ?case by (auto simp: Update_def)
qed

lemma names_layers: "\<forall>ev\<in>set events. layer_index ev \<in> layer_id ` set (layers e) \<Longrightarrow>
    \<forall>ev\<in>set events. names_layer e ev"
  by (simp add: names_layer_def)

text \<open>An open of a file no server knows that names no layer faults.\<close>

lemma Update_unknown_layer:
  assumes inv: "auditor_invar e a" and ty: "event_type event = FILE_OPEN"
    and new: "um_find (ev_filename event) (file_segment_map a me) = None"
      "dhm_lookup (valid_buffered_dataset_d e) (valid_buffered_dataset a) (ev_filename event) = None"
    and layer: "layer_index event \<notin> layer_id ` set (layers e)"
  shows "\<exists>f. Update e me [event] a = Inl f"
proof -
  have "Layer_of_id (layers e) (layer_index event) \<noteq> Inr l" for l
    using Layer_of_id_total_iff[of "layers e" "layer_index event"] layer by blast
  then have "new_posix_file e n seg (layer_index event) \<noteq> Inr x" for n seg x
    by (auto simp: new_posix_file_def rbind_Inr_iff)
  then have "CreateOffsetMap e me event a \<noteq> Inr a'" for a'
    using new by (auto simp: CreateOffsetMap_def valid_Get[OF inv] Let_def rbind_Inr_iff split: if_splits)
  then have "Update e me [event] a \<noteq> Inr a'" for a'
    using ty new(1) by (auto simp: Update_def update_event_def rbind_Inr_iff)
  then show ?thesis by (cases "Update e me [event] a") auto
qed

lemma FileSegmentAuditor_ok:
  assumes "env_wf e"
  shows "\<exists>a. FileSegmentAuditor e me = Inr a \<and> auditor_invar e a \<and>
    (\<exists>m. a = auditor_init\<lparr>layer_score_map := m\<rparr>) \<and>
    (\<forall>l\<in>set (layers e). dhm_lookup (layer_score_map_d e) (layer_score_map a) (layer_id l) = Some [])"
proof -
  let ?put = "\<lambda>l a. rbind (DHM_Put (layer_score_map_d e) me (layer_id l) ([] :: score_map) (layer_score_map a))
      (\<lambda>(_, m). Inr (a\<lparr>layer_score_map := m\<rparr>))"
  have run: "\<exists>m. rfold ?put ls a = Inr (a\<lparr>layer_score_map := m\<rparr>) \<and> dhm_invar (layer_score_map_d e) m \<and>
      dhm_lookup (layer_score_map_d e) m = (\<lambda>k. if k \<in> layer_id ` set ls then Some []
        else dhm_lookup (layer_score_map_d e) (layer_score_map a) k)"
    if "dhm_invar (layer_score_map_d e) (layer_score_map a)" for ls a
    using that
  proof (induction ls arbitrary: a)
    case Nil
    then show ?case by (intro exI[of _ "layer_score_map a"]) simp
  next
    case (Cons l ls)
    obtain m1 where m1: "DHM_Put (layer_score_map_d e) me (layer_id l) [] (layer_score_map a) = Inr (True, m1)"
      "dhm_invar (layer_score_map_d e) m1"
      "dhm_lookup (layer_score_map_d e) m1 = (dhm_lookup (layer_score_map_d e) (layer_score_map a))(layer_id l \<mapsto> [])"
      using dhm.put_ok[OF Cons.prems, of me "layer_id l" "[]"] by blast
    have "\<exists>m. rfold ?put ls (a\<lparr>layer_score_map := m1\<rparr>) = Inr (a\<lparr>layer_score_map := m\<rparr>) \<and>
      dhm_invar (layer_score_map_d e) m \<and>
      dhm_lookup (layer_score_map_d e) m = (\<lambda>k. if k \<in> layer_id ` set ls then Some []
        else dhm_lookup (layer_score_map_d e) m1 k)"
      using Cons.IH[of "a\<lparr>layer_score_map := m1\<rparr>"] m1(2) by (simp cong: if_cong)
    then obtain m where "rfold ?put ls (a\<lparr>layer_score_map := m1\<rparr>) = Inr (a\<lparr>layer_score_map := m\<rparr>)"
      "dhm_invar (layer_score_map_d e) m"
      "dhm_lookup (layer_score_map_d e) m = (\<lambda>k. if k \<in> layer_id ` set ls then Some []
        else dhm_lookup (layer_score_map_d e) m1 k)" by blast
    with m1(1,3) show ?case by (intro exI[of _ m]) (auto simp: fun_eq_iff)
  qed
  have "dhm_invar (layer_score_map_d e) (layer_score_map auditor_init)"
    using env_wf_dists(2)[OF assms] by (simp add: auditor_init_def dhm_invar_init)
  from run[OF this, of "layers e"] obtain m where
    m: "FileSegmentAuditor e me = Inr (auditor_init\<lparr>layer_score_map := m\<rparr>)" "dhm_invar (layer_score_map_d e) m"
    "dhm_lookup (layer_score_map_d e) m = (\<lambda>k. if k \<in> layer_id ` set (layers e) then Some [] else None)"
    unfolding FileSegmentAuditor_def by (auto simp: auditor_init_def cong: if_cong)
  have "score_invar e (auditor_init\<lparr>layer_score_map := m\<rparr>)"
    using assms m(2,3) by (auto simp: score_invar_def mm_sorted_def split: if_splits)
  then have "auditor_invar e (auditor_init\<lparr>layer_score_map := m\<rparr>)"
    using env_wf_dists(1,3)[OF assms]
    by (simp add: auditor_invar_def auditor_init_def dhm_invar_init dm_invar_init)
  with m(1,3) show ?thesis by auto
qed

section \<open>Queries\<close>

lemma sort_by_score_gen:
  fixes xs :: "(Segment \<times> seg_info) list"
  assumes "mm_sorted SegmentScore_less mm"
  defines "r \<equiv> foldl (\<lambda>mm data. mm_emplace SegmentScore_less (snd (snd data)) (fst data, fst (snd data)) mm) mm xs"
  shows "mm_sorted SegmentScore_less r \<and>
    mset r = mset mm + image_mset (\<lambda>x. (snd (snd x), (fst x, fst (snd x)))) (mset xs)"
  using assms(1) unfolding r_def
  by (induction xs arbitrary: mm) (simp_all add: score_order.mm_sorted_emplace mset_mm_emplace)

lemma sort_by_score_ok:
  "mm_sorted SegmentScore_less (sort_by_score xs)"
  "mset (sort_by_score xs) = image_mset (\<lambda>x. (snd (snd x), (fst x, fst (snd x)))) (mset xs)"
  using sort_by_score_gen[of "[]" xs] by (simp_all add: sort_by_score_def mm_sorted_def)

interpretation nat_order: strict_weak_order "(<) :: nat \<Rightarrow> nat \<Rightarrow> bool"
  by unfold_locales auto

lemma foldl_om_insert_lookup:
  fixes xs :: "(nat \<times> 'v) list"
  assumes "distinct (map fst xs)" and "om_sorted (<) m" and "fst ` set xs \<inter> fst ` set m = {}"
  shows "om_sorted (<) (foldl (\<lambda>m x. om_insert (<) (fst x) (snd x) m) m xs) \<and>
    set (foldl (\<lambda>m x. om_insert (<) (fst x) (snd x) m) m xs) = set m \<union> set xs"
  using assms
proof (induction xs arbitrary: m)
  case (Cons x xs)
  have "fst x \<notin> fst ` set m" using Cons.prems(3) by auto
  then have "om_find (<) (fst x) m = None"
    by (auto simp: om_find_None_iff equivalent_def image_iff linorder_neq_iff)
  then have set: "set (om_insert (<) (fst x) (snd x) m) = insert x (set m)"
    by (simp add: nat_order.set_om_insert)
  have "om_sorted (<) (om_insert (<) (fst x) (snd x) m)"
    by (rule nat_order.om_sorted_insert[OF Cons.prems(2)])
  moreover have "fst ` set xs \<inter> fst ` set (om_insert (<) (fst x) (snd x) m) = {}"
    unfolding set using Cons.prems(1,3) by auto
  moreover have "distinct (map fst xs)" using Cons.prems(1) by simp
  ultimately show ?case using Cons.IH[of "om_insert (<) (fst x) (snd x) m"] by (simp add: set insert_commute)
qed simp

lemma FetchLayerScores_ok:
  assumes "auditor_invar e a" and "me < env_servers e"
  shows "\<exists>m. FetchLayerScores e me a = Inr m \<and> om_sorted (<) m \<and> fst ` set m = layer_id ` set (layers e) \<and>
    (\<forall>x\<in>set m. mm_sorted (>) (snd x))"
proof -
  let ?d = "layer_score_map_d e"
  have sc: "score_invar e a" using assms(1) by (simp add: auditor_invar_def)
  have n: "num_servers ?d = env_servers e" by (simp add: layer_score_map_d_def dist_of_def)
  have "dhm_invar ?d (layer_score_map a)" using sc by (simp add: score_invar_def)
  then obtain xs where xs: "DHM_GetAllData ?d me (layer_score_map a) = Inr xs" "distinct (map fst xs)"
    "map_of xs = dhm_lookup ?d (layer_score_map a)"
    using DHM_all_data[of ?d "layer_score_map a" me] assms(2) n by auto
  let ?m = "foldl (\<lambda>m x. om_insert (<) (fst x) (snd x) m) [] xs"
  have m: "om_sorted (<) ?m" "set ?m = set xs"
    using foldl_om_insert_lookup[OF xs(2), of "[]"] by (simp_all add: om_sorted_def)
  have "fst ` set xs = layer_id ` set (layers e)"
    using sc xs(3) unfolding score_invar_def by (metis dom_map_of_conv_image_fst)
  moreover have "mm_sorted (>) (snd x)" if "x \<in> set xs" for x
  proof -
    have "dhm_lookup ?d (layer_score_map a) (fst x) = Some (snd x)"
      using that xs(2) unfolding xs(3)[symmetric] by simp
    then show ?thesis using sc by (simp add: score_invar_def)
  qed
  ultimately show ?thesis using m xs(1) by (intro exI[of _ ?m]) (simp add: FetchLayerScores_def)
qed

text \<open>The locations a query returns, one pair per element.\<close>

lemma locate_fold:
  "foldl (locate_step seg) (vs, s) xs = (vs @ fst (foldl (locate_step seg) ([], s) xs),
     snd (foldl (locate_step seg) ([], s) xs))"
proof (induction xs arbitrary: vs s)
  case (Cons x xs)
  show ?case
    using Cons[of "vs @ fst (locate_step seg ([], s) x)" "snd (locate_step seg ([], s) x)"]
      Cons[of "fst (locate_step seg ([], s) x)" "snd (locate_step seg ([], s) x)"]
    by (simp add: locate_step_def Let_def)
qed simp

fun location_chain :: "int \<Rightarrow> (PosixFile \<times> PosixFile) list \<Rightarrow> bool" where
  "location_chain s [] = True"
| "location_chain s (x # xs) \<longleftrightarrow> seg_start (pf_segment (snd x)) = s \<and>
     PosixFile_GetSize (fst x) = PosixFile_GetSize (snd x) \<and> location_chain (seg_end (pf_segment (snd x))) xs"

lemma locate_chain: "location_chain s (fst (foldl (locate_step seg) ([], s) xs))"
proof (induction xs arbitrary: s)
  case (Cons x xs)
  obtain p n where p: "locate_step seg ([], s) x = ([p], n)" "seg_start (pf_segment (snd p)) = s"
    "seg_end (pf_segment (snd p)) = n" "PosixFile_GetSize (fst p) = PosixFile_GetSize (snd p)"
    by (simp add: locate_step_def Let_def PosixFile_GetSize_def Segment_GetSize_def)
  have "fst (foldl (locate_step seg) ([], s) (x # xs)) = p # fst (foldl (locate_step seg) ([], n) xs)"
    using locate_fold[of seg "[p]" n xs] p(1) by simp
  with Cons[of n] p(2-4) show ?case by simp
qed simp

lemma location_chain_nth:
  "location_chain s xs \<Longrightarrow> j < length xs \<Longrightarrow>
    PosixFile_GetSize (fst (xs ! j)) = PosixFile_GetSize (snd (xs ! j)) \<and>
    seg_start (pf_segment (snd (xs ! j))) = (case j of 0 \<Rightarrow> s | Suc k \<Rightarrow> seg_end (pf_segment (snd (xs ! k))))"
proof (induction xs arbitrary: s j)
  case (Cons x xs)
  then show ?case by (cases j) (auto split: nat.splits)
qed simp

lemma GetDataLocation_chain:
  assumes "GetDataLocation e me file a = Inr vs"
  shows "location_chain 0 vs"
  using assms locate_chain[of 0 "pf_segment file"]
  by (auto simp: GetDataLocation_def rbind_Inr_iff split: option.splits)

section \<open>Properties\<close>

definition example_auditor :: auditor where
  "example_auditor = projr (FileSegmentAuditor example_env 0)"

definition example_event :: "EventType \<Rightarrow> Event" where
  "example_event t = \<lparr>ev_filename = ''ab'', ev_segment = \<lparr>seg_start = 0, seg_end = 99\<rparr>, event_type = t,
     ev_source = APPLICATION, layer_index = 2, ev_time = 0\<rparr>"

lemma example_auditor_invar: "auditor_invar example_env example_auditor"
  using FileSegmentAuditor_ok[OF example_env_wf, of 0] by (auto simp: example_auditor_def)

lemma example_event_layer: "layer_index (example_event t) \<in> layer_id ` set (layers example_env)"
  by (simp add: example_event_def example_env_def example_layers_def)

text \<open>The state after the example file was opened.\<close>

lemma Contains_single:
  assumes "env_wf e" and "i < max_num_files e" and "dm_invar Segment_less (offset_map_d e i) st"
    and "dm_set st = {x}" and "me < env_servers e"
  shows "\<exists>xs. DM_Contains Segment_less con (offset_map_d e i) me k st = Inr xs \<and> set xs = {x}"
proof -
  let ?d = "offset_map_d e i"
  have n: "num_servers ?d = env_servers e" by (simp add: offset_map_d_def dist_of_def)
  have all: "DM_ContainsInServer Segment_less con k (st s) = st s" for s
  proof -
    have "set (st s) \<subseteq> {x}" using assms(4) by (auto simp: dm_set_def)
    moreover have "distinct (st s)" by (rule om_sorted_distinct) (use assms(3) in \<open>simp add: dm_invar_def\<close>)
    ultimately have "length (st s) \<le> 1" by (metis card_mono distinct_card finite.intros is_singletonI is_singleton_altdef)
    then have "length (st s) = 0 \<or> length (st s) = 1" by linarith
    then show ?thesis by (auto simp: DM_ContainsInServer_def)
  qed
  have "x \<in> set (st (owner ?d (fst x)))" using dm_set_owner[OF assms(3), of x] assms(4) by simp
  moreover have "owner ?d (fst x) < env_servers e"
    using owner_less[OF env_wf_dists(5)[OF assms(1,2)], of "fst x"] n by simp
  ultimately have "(\<Union>s<env_servers e. set (st s)) = {x}"
    using assms(4) by (auto simp: dm_set_def)
  then show ?thesis
    using set_dm_servers[of me ?d] assms(5) n
    by (simp add: DM_Contains_run[OF env_wf_dists(5)[OF assms(1,2)]] all atLeast0LessThan)
qed

lemma example_opened:
  obtains a i f where "auditor_invar example_env a" "um_find ''ab'' (file_segment_map a 0) = Some i"
    "dm_set (offsetMaps a i) = {(\<lparr>seg_start = 0, seg_end = 99\<rparr>, (f, SegmentScore_default))}"
    "seg_tiling (offsetMaps a i)"
proof -
  obtain m where ex: "example_auditor = auditor_init\<lparr>layer_score_map := m\<rparr>"
    using FileSegmentAuditor_ok[OF example_env_wf, of 0] by (auto simp: example_auditor_def)
  let ?ev = "example_event FILE_OPEN" and ?i = "(file_seq example_auditor 0 + 1) mod 2 ^ 64 mod max_num_files example_env"
  obtain a st f where a: "auditor_invar example_env a"
    "segmap_put example_env ?i 0 (ev_segment ?ev) (f, SegmentScore_default) (offsetMaps example_auditor ?i) = Inr st"
    "offsetMaps a = (offsetMaps example_auditor)(?i := st)"
    "um_find (ev_filename ?ev) (file_segment_map a 0) = Some ?i"
    using CreateOffsetMap_new[OF example_auditor_invar example_event_layer, of FILE_OPEN 0]
    by (auto simp: ex auditor_init_def um_find_def)
  have i: "?i < max_num_files example_env" by (simp add: example_env_def)
  have "seg_store_wf (offset_map_d example_env ?i) (offsetMaps example_auditor ?i)"
    "dm_set (offsetMaps example_auditor ?i) = {}"
    by (simp_all add: ex auditor_init_def seg_store_wf_init)
  moreover have "Segment_GetSize (ev_segment ?ev) > 0" by (simp add: example_event_def Segment_GetSize_def)
  ultimately have "seg_store_wf (offset_map_d example_env ?i) st"
    "dm_set st = {(ev_segment ?ev, (f, SegmentScore_default))}"
    using segmap_put_store[OF example_env_wf i, of "offsetMaps example_auditor ?i" "ev_segment ?ev" 0
        "(f, SegmentScore_default)"] a(2) by auto
  then show ?thesis
    using that[OF a(1), of ?i f] a(3,4) by (simp add: seg_store_wf_def example_event_def)
qed

text \<open>C26: from a state that satisfies the invariant, \<open>Update\<close> processes any batch of events whose opens and
  reads name an existing layer without a fault and keeps the invariant, and so does \<open>UpdateOnMove\<close> for any
  pair of files. The condition on opens is needed: an open of a file that no server knows and that names no
  layer faults.\<close>

theorem auditor_never_faults:
  assumes "auditor_invar e a" and "\<forall>ev\<in>set events. names_layer e ev"
  shows "(\<exists>a'. Update e me events a = Inr a' \<and> auditor_invar e a') \<and>
    (\<exists>a'. UpdateOnMove e me source destination a = Inr a' \<and> auditor_invar e a') \<and>
    (\<forall>ev. event_type ev = FILE_OPEN \<and> \<not> names_layer e ev \<and>
       um_find (ev_filename ev) (file_segment_map a me) = None \<and>
       dhm_lookup (valid_buffered_dataset_d e) (valid_buffered_dataset a) (ev_filename ev) = None \<longrightarrow>
       (\<exists>f. Update e me [ev] a = Inl f))"
  using Update_ok[OF assms] UpdateOnMove_ok[OF assms(1)] Update_unknown_layer[OF assms(1)]
  unfolding names_layer_def by blast

theorem auditor_never_faults_witness:
  "(\<exists>a'. Update example_env 0 [example_event FILE_OPEN, example_event FILE_READ,
        (example_event FILE_CLOSE)\<lparr>layer_index := 77\<rparr>] example_auditor = Inr a' \<and>
      auditor_invar example_env a') \<and>
   (\<exists>a'. UpdateOnMove example_env 0 example_file example_file example_auditor = Inr a' \<and>
      auditor_invar example_env a') \<and>
   (\<exists>f. Update example_env 0 [(example_event FILE_OPEN)\<lparr>layer_index := 77\<rparr>] example_auditor = Inl f)"
proof -
  obtain m where ex: "example_auditor = auditor_init\<lparr>layer_score_map := m\<rparr>"
    using FileSegmentAuditor_ok[OF example_env_wf, of 0] by (auto simp: example_auditor_def)
  have empty: "um_find n (file_segment_map example_auditor 0) = None"
    "dhm_lookup (valid_buffered_dataset_d example_env) (valid_buffered_dataset example_auditor) n = None" for n
    by (simp_all add: ex auditor_init_def um_find_def dhm_lookup_def DHM_init_def)
  have other: "event_type ((example_event t)\<lparr>layer_index := 77\<rparr>) = t" for t by (simp add: example_event_def)
  have bad: "\<not> names_layer example_env ((example_event FILE_OPEN)\<lparr>layer_index := 77\<rparr>)"
    by (simp add: names_layer_def other example_env_def example_layers_def)
  have "\<forall>ev\<in>set [example_event FILE_OPEN, example_event FILE_READ, (example_event FILE_CLOSE)\<lparr>layer_index := 77\<rparr>].
      names_layer example_env ev"
    using example_event_layer by (simp add: names_layer_def other)
  from auditor_never_faults[OF example_auditor_invar this, of 0 example_file example_file]
  show ?thesis using other[of FILE_OPEN] bad empty by blast
qed

text \<open>The constructor returns a state that satisfies the invariant, in which every layer of the
  hierarchy has an empty score map.\<close>

theorem auditor_constructed:
  assumes "env_wf e"
  shows "\<exists>a. FileSegmentAuditor e me = Inr a \<and> auditor_invar e a \<and>
    (\<forall>l\<in>set (layers e). dhm_lookup (layer_score_map_d e) (layer_score_map a) (layer_id l) = Some [])"
  using FileSegmentAuditor_ok[OF assms] by blast

theorem auditor_constructed_witness:
  "\<exists>a. FileSegmentAuditor example_env 0 = Inr a \<and> auditor_invar example_env a \<and>
    (\<forall>l\<in>set (layers example_env).
       dhm_lookup (layer_score_map_d example_env) (layer_score_map a) (layer_id l) = Some [])"
  by (rule auditor_constructed[OF example_env_wf])

text \<open>What a loop over the result of the overlap query does to a tiling, offset by offset: a segment that
  the query misses, or that does not overlap, keeps its description; of the others, the offsets inside the
  key are described by \<open>upd\<close> and those outside keep their description, unless the key starts inside the
  segment and reaches past its end: then the leading offsets have no description any more.\<close>

definition described_after ::
  "(Segment, 'v) map_store \<Rightarrow> Segment \<Rightarrow> (Segment \<Rightarrow> 'v \<Rightarrow> 'v) \<Rightarrow> int \<Rightarrow> 'v \<Rightarrow> bool" where
  "described_after st key upd off w \<longleftrightarrow> (\<exists>k v. (k, v) \<in> dm_set st \<and> off \<in> seg_set k \<and>
     (if overlaps k key \<and> \<not> missed st key (k, v)
      then if off \<in> seg_set key then w = upd k v else w = v \<and> \<not> straddles_end k key
      else w = v))"

definition update_exact :: "(Segment, 'v) map_store \<Rightarrow> Segment \<Rightarrow> bool" where
  "update_exact st key \<longleftrightarrow> (\<forall>x\<in>dm_set st. overlaps (fst x) key \<longrightarrow>
     \<not> missed st key x \<and> \<not> straddles_end (fst x) key)"

lemma tiling_at:
  assumes "seg_tiling st" and "(k, v) \<in> dm_set st" and "off \<in> seg_set k"
  shows "described_after st key upd off w \<longleftrightarrow>
      (if overlaps k key \<and> \<not> missed st key (k, v)
       then if off \<in> seg_set key then w = upd k v else w = v \<and> \<not> straddles_end k key
       else w = v)"
    and "seg_val st off w \<longleftrightarrow> w = v"
proof -
  have only: "k' = k \<and> v' = v" if "(k', v') \<in> dm_set st" "off \<in> seg_set k'" for k' v'
  proof -
    have "overlaps k' k" using that(2) assms(3) by (auto simp: overlaps_def)
    then show ?thesis using seg_tilingD(2)[OF assms(1) that(1) assms(2)] by simp
  qed
  show "described_after st key upd off w \<longleftrightarrow>
      (if overlaps k key \<and> \<not> missed st key (k, v)
       then if off \<in> seg_set key then w = upd k v else w = v \<and> \<not> straddles_end k key
       else w = v)"
    unfolding described_after_def using only assms(2,3) by blast
  show "seg_val st off w \<longleftrightarrow> w = v" unfolding seg_val_def using only assms(2,3) by blast
qed

text \<open>This is the intended update of single offsets exactly when the query misses nothing and no segment
  loses its leading offsets, provided \<open>upd\<close> always changes a description.\<close>

lemma described_after_intended_iff:
  assumes til: "seg_tiling st" and upd: "\<And>k v. upd k v \<noteq> v"
  shows "(\<forall>off w. described_after st key upd off w \<longleftrightarrow>
      (\<exists>k v. (k, v) \<in> dm_set st \<and> off \<in> seg_set k \<and> w = (if off \<in> seg_set key then upd k v else v))) \<longleftrightarrow>
    update_exact st key" (is "?intended \<longleftrightarrow> _")
proof
  assume "update_exact st key"
  then show ?intended
    unfolding described_after_def update_exact_def by (fastforce simp: overlaps_def split: if_splits)
next
  assume intended: ?intended
  show "update_exact st key"
    unfolding update_exact_def
  proof (intro ballI impI)
    fix x assume x: "x \<in> dm_set st" "overlaps (fst x) key"
    obtain k v where kv: "x = (k, v)" by (cases x)
    have mem: "(k, v) \<in> dm_set st" and ov: "overlaps k key" using x kv by simp_all
    obtain off where off: "off \<in> seg_set k" "off \<in> seg_set key" using ov by (auto simp: overlaps_def)
    have "described_after st key upd off (upd k v)"
      using intended[rule_format, of off "upd k v"] mem off by auto
    then have found: "\<not> missed st key (k, v)"
      unfolding tiling_at(1)[OF til mem off(1)] using upd[of k v] by (auto split: if_splits)
    have "\<not> straddles_end k key"
    proof
      assume cut: "straddles_end k key"
      then have start: "seg_start k \<in> seg_set k" "seg_start k \<notin> seg_set key"
        using off by (auto simp: straddles_end_def seg_set_def)
      have "described_after st key upd (seg_start k) v"
        using intended[rule_format, of "seg_start k" v] mem start by auto
      then show False using tiling_at(1)[OF til mem start(1)] start(2) ov found cut by simp
    qed
    with found show "\<not> missed st key x \<and> \<not> straddles_end (fst x) key" using kv by simp
  qed
qed

lemma bump_score_changes: "bump_score t s \<noteq> s"
proof -
  have "lrf s < lrf (bump_score t s)" by (simp add: bump_score_def)
  then show ?thesis by auto
qed

text \<open>C5: a read event, on a file whose segments tile its offsets, acts on single offsets: in every segment
  that the overlap query finds, the offsets of the read get the score of one more access and the others keep
  theirs, except that the offsets before the read are dropped where the read starts inside the segment and
  reaches past its end; all other segments keep their description and the segments still tile the
  offsets. So exactly the offsets of the read are rescored if and only if the query misses no
  overlapping segment and none is cut short. The event names an existing layer and a non-empty segment, and
  a server that holds a single segment of the file holds one that the read overlaps.\<close>

theorem read_updates_offsets:
  assumes "auditor_invar e a" and "layer_index event \<in> layer_id ` set (layers e)" and "me < env_servers e"
    and "um_find (ev_filename event) (file_segment_map a me) = Some i" and "seg_tiling (offsetMaps a i)"
    and "0 < Segment_GetSize (ev_segment event)"
    and "\<forall>s x. offsetMaps a i s = [x] \<longrightarrow> overlaps (fst x) (ev_segment event)"
  shows "\<exists>a'. IncreaseFileSegmentFrequency e me event a = Inr a' \<and> seg_tiling (offsetMaps a' i) \<and>
    (\<forall>off w. seg_val (offsetMaps a' i) off w \<longleftrightarrow> described_after (offsetMaps a i) (ev_segment event)
       (\<lambda>k (f, s). (f, bump_score (ev_time event) s)) off w) \<and>
    ((\<forall>off f s'. seg_val (offsetMaps a' i) off (f, s') \<longleftrightarrow>
        (if off \<in> seg_set (ev_segment event)
         then \<exists>s. seg_val (offsetMaps a i) off (f, s) \<and> s' = bump_score (ev_time event) s
         else seg_val (offsetMaps a i) off (f, s'))) \<longleftrightarrow>
     update_exact (offsetMaps a i) (ev_segment event))"
proof -
  let ?st = "offsetMaps a i" and ?seg = "ev_segment event"
  let ?upd = "\<lambda>k (f, s). (f, bump_score (ev_time event) s)"
  note env = auditor_env[OF assms(1)] and i = auditor_index[OF assms(1,4)]
  note inv = auditor_store[OF assms(1) i]
  obtain xs where xs: "DM_Contains Segment_less Segment_Contains (offset_map_d e i) me ?seg ?st = Inr xs"
    "distinct xs" "set xs = {x \<in> dm_set ?st. overlaps (fst x) ?seg \<and> \<not> missed ?st ?seg x}"
    using Contains_tiling[OF env i inv assms(5-7,3)] by blast
  have sub: "set xs \<subseteq> dm_set ?st" "\<forall>x\<in>set xs. overlaps (fst x) ?seg" unfolding xs(3) by simp_all
  have wf: "seg_store_wf (offset_map_d e i) ?st" using inv assms(5) by (simp add: seg_store_wf_def)
  obtain a' where run: "IncreaseFileSegmentFrequency e me event a = Inr a'"
    using Increase_ok[OF assms(1,2)] by blast
  then have loop: "rfold (increase_element e i me event) xs a = Inr a'"
    using assms(4) xs(1) by (simp add: IncreaseFileSegmentFrequency_def)
  have upd: "?upd = (\<lambda>k v. (fst v, bump_score (ev_time event) (snd v)))" by (intro ext) (simp add: case_prod_beta)
  have val: "seg_val (offsetMaps a' i) off w \<longleftrightarrow> described_after ?st ?seg ?upd off w" for off w
    unfolding increase.loop_pointwise[OF env i wf xs(2) sub loop] described_after_def upd xs(3) by auto
  let ?intended = "\<lambda>off w. \<exists>k v. (k, v) \<in> dm_set ?st \<and> off \<in> seg_set k \<and>
      w = (if off \<in> seg_set ?seg then ?upd k v else v)"
  have "(if off \<in> seg_set ?seg then \<exists>s. seg_val ?st off (f, s) \<and> s' = bump_score (ev_time event) s
       else seg_val ?st off (f, s')) \<longleftrightarrow> ?intended off (f, s')" for off f s'
    by (auto simp: seg_val_def)
  then have "(\<forall>off f s'. seg_val (offsetMaps a' i) off (f, s') \<longleftrightarrow>
        (if off \<in> seg_set ?seg then \<exists>s. seg_val ?st off (f, s) \<and> s' = bump_score (ev_time event) s
         else seg_val ?st off (f, s'))) \<longleftrightarrow> (\<forall>off w. described_after ?st ?seg ?upd off w \<longleftrightarrow> ?intended off w)"
    unfolding val by (simp only: split_paired_All)
  also have "\<dots> \<longleftrightarrow> update_exact ?st ?seg"
    by (rule described_after_intended_iff[OF assms(5)]) (simp add: case_prod_beta bump_score_changes prod_eq_iff)
  finally have "(\<forall>off f s'. seg_val (offsetMaps a' i) off (f, s') \<longleftrightarrow>
        (if off \<in> seg_set ?seg then \<exists>s. seg_val ?st off (f, s) \<and> s' = bump_score (ev_time event) s
         else seg_val ?st off (f, s'))) \<longleftrightarrow> update_exact ?st ?seg" .
  moreover have "seg_tiling (offsetMaps a' i)"
    using increase.loop_pieces[OF env i wf xs(2) sub loop] by (simp add: seg_store_wf_def)
  ultimately show ?thesis using run val by blast
qed

text \<open>In the example, one server holds the single segment of the file and the others none.\<close>

lemma example_single:
  assumes "dm_set st = {(\<lparr>seg_start = 0, seg_end = 99\<rparr>, v)}" and "overlaps \<lparr>seg_start = 0, seg_end = 99\<rparr> key"
    and "0 \<le> seg_start key" "dm_invar Segment_less d st" and "seg_start key = 0 \<or> seg_end key \<le> 99"
  shows "\<forall>s x. st s = [x] \<longrightarrow> overlaps (fst x) key" and "update_exact st key"
proof -
  have mem: "x = (\<lparr>seg_start = 0, seg_end = 99\<rparr>, v)" if "x \<in> set (st s)" for x s
    using that assms(1) by (auto simp: dm_set_def)
  show "\<forall>s x. st s = [x] \<longrightarrow> overlaps (fst x) key"
    using mem assms(2) by (metis fst_conv list.set_intros(1))
  have "length (st s) < 2" for s
  proof -
    have "distinct (st s)" by (rule om_sorted_distinct) (use assms(4) in \<open>simp add: dm_invar_def\<close>)
    moreover have "set (st s) \<subseteq> {(\<lparr>seg_start = 0, seg_end = 99\<rparr>, v)}" using mem by blast
    ultimately have "length (st s) \<le> card {(\<lparr>seg_start = 0, seg_end = 99\<rparr>::Segment, v)}"
      using card_mono[of "{(\<lparr>seg_start = 0, seg_end = 99\<rparr>, v)}" "set (st s)"] by (simp add: distinct_card)
    then show ?thesis by simp
  qed
  then show "update_exact st key"
    using assms(3,5) by (simp add: update_exact_def assms(1) missed_def query_misses_def not_le straddles_end_def)
      (meson leD)
qed

theorem read_updates_offsets_witness:
  "\<exists>a a' i f. IncreaseFileSegmentFrequency example_env 0
       ((example_event FILE_READ)\<lparr>ev_segment := \<lparr>seg_start = 0, seg_end = 9\<rparr>\<rparr>) a = Inr a' \<and>
     seg_val (offsetMaps a' i) 5 (f, bump_score 0 SegmentScore_default) \<and>
     seg_val (offsetMaps a' i) 50 (f, SegmentScore_default)"
proof -
  let ?ev = "(example_event FILE_READ)\<lparr>ev_segment := \<lparr>seg_start = 0, seg_end = 9\<rparr>\<rparr>"
  obtain a i f where a: "auditor_invar example_env a" "um_find ''ab'' (file_segment_map a 0) = Some i"
    "dm_set (offsetMaps a i) = {(\<lparr>seg_start = 0, seg_end = 99\<rparr>, (f, SegmentScore_default))}"
    "seg_tiling (offsetMaps a i)"
    by (rule example_opened)
  note i = auditor_index[OF a(1,2)]
  note one = example_single[OF a(3) _ _ auditor_store[OF a(1) i], of "ev_segment ?ev"]
  have "layer_index ?ev \<in> layer_id ` set (layers example_env)" using example_event_layer by simp
  moreover have "um_find (ev_filename ?ev) (file_segment_map a 0) = Some i" using a(2) by (simp add: example_event_def)
  moreover have "0 < Segment_GetSize (ev_segment ?ev)" by (simp add: Segment_GetSize_def)
  moreover have "\<forall>s x. offsetMaps a i s = [x] \<longrightarrow> overlaps (fst x) (ev_segment ?ev)"
    and exact: "update_exact (offsetMaps a i) (ev_segment ?ev)"
    using one by (simp_all add: overlaps_def seg_set_def)
  ultimately obtain a' where "IncreaseFileSegmentFrequency example_env 0 ?ev a = Inr a'"
    and val: "\<forall>off f s'. seg_val (offsetMaps a' i) off (f, s') \<longleftrightarrow>
       (if off \<in> seg_set (ev_segment ?ev)
        then \<exists>s. seg_val (offsetMaps a i) off (f, s) \<and> s' = bump_score (ev_time ?ev) s
        else seg_val (offsetMaps a i) off (f, s'))"
    using read_updates_offsets[OF a(1) _ _ _ a(4), of ?ev 0] exact by (auto simp: example_env_def)
  moreover have "seg_val (offsetMaps a i) 5 (f, SegmentScore_default)"
    and "seg_val (offsetMaps a i) 50 (f, SegmentScore_default)"
    by (auto simp: seg_val_def a(3) seg_set_def)
  ultimately show ?thesis
    unfolding val[rule_format]
    by (intro exI[of _ a] exI[of _ a'] exI[of _ i] exI[of _ f])
      (auto simp: val seg_set_def example_event_def)
qed

text \<open>C6: moving a buffered segment acts on single offsets too: in every segment that the overlap query
  finds, the moved offsets are described by the destination, at their distance from the start of the moved
  segment, with an unchanged score, and the others keep their description, except that the offsets before the
  moved segment are dropped where it starts inside a segment and reaches past its end; segments the query
  misses, or that do not overlap, keep their description, and the segments still tile the offsets. The moved
  segment is not empty, and a server that holds a single segment of the file holds one that overlaps it.\<close>

theorem move_updates_offsets:
  assumes "auditor_invar e a" and "me < env_servers e"
    and "um_find (pf_filename source) (file_segment_map a me) = Some i" and "seg_tiling (offsetMaps a i)"
    and "0 < Segment_GetSize (pf_segment source)"
    and "\<forall>s x. offsetMaps a i s = [x] \<longrightarrow> overlaps (fst x) (pf_segment source)"
  shows "\<exists>a'. UpdateOnMove e me source destination a = Inr a' \<and> seg_tiling (offsetMaps a' i) \<and>
    (\<forall>off w. seg_val (offsetMaps a' i) off w \<longleftrightarrow>
       described_after (offsetMaps a i) (pf_segment source) (moved_info source destination) off w) \<and>
    (update_exact (offsetMaps a i) (pf_segment source) \<longrightarrow>
      (\<forall>off w. seg_val (offsetMaps a' i) off w \<longleftrightarrow>
         (if off \<in> seg_set (pf_segment source)
          then \<exists>k v. (k, v) \<in> dm_set (offsetMaps a i) \<and> off \<in> seg_set k \<and>
            w = moved_info source destination k v
          else seg_val (offsetMaps a i) off w)))"
proof -
  let ?st = "offsetMaps a i" and ?seg = "pf_segment source"
  note env = auditor_env[OF assms(1)] and i = auditor_index[OF assms(1,3)]
  note inv = auditor_store[OF assms(1) i]
  obtain xs where xs: "DM_Contains Segment_less Segment_Contains (offset_map_d e i) me ?seg ?st = Inr xs"
    "distinct xs" "set xs = {x \<in> dm_set ?st. overlaps (fst x) ?seg \<and> \<not> missed ?st ?seg x}"
    using Contains_tiling[OF env i inv assms(4-6,2)] by blast
  have sub: "set xs \<subseteq> dm_set ?st" "\<forall>x\<in>set xs. overlaps (fst x) ?seg" unfolding xs(3) by simp_all
  have wf: "seg_store_wf (offset_map_d e i) ?st" using inv assms(4) by (simp add: seg_store_wf_def)
  obtain a' where run: "UpdateOnMove e me source destination a = Inr a'"
    using UpdateOnMove_ok[OF assms(1)] by blast
  then have loop: "rfold (move_element e i me source destination) xs a = Inr a'"
    using assms(3) xs(1) by (simp add: UpdateOnMove_def DM_Get_run[OF env_wf_dists(5)[OF env i]])
  have val: "seg_val (offsetMaps a' i) off w \<longleftrightarrow>
      described_after ?st ?seg (moved_info source destination) off w" for off w
    unfolding move.loop_pointwise[OF env i wf xs(2) sub loop] described_after_def xs(3) by auto
  have "seg_tiling (offsetMaps a' i)"
    using move.loop_pieces[OF env i wf xs(2) sub loop] by (simp add: seg_store_wf_def)
  moreover have "seg_val (offsetMaps a' i) off w \<longleftrightarrow>
      (if off \<in> seg_set ?seg
       then \<exists>k v. (k, v) \<in> dm_set ?st \<and> off \<in> seg_set k \<and> w = moved_info source destination k v
       else seg_val ?st off w)" if exact: "update_exact ?st ?seg" for off w
  proof -
    have "set xs = {x \<in> dm_set ?st. overlaps (fst x) ?seg}" "\<forall>x\<in>set xs. \<not> straddles_end (fst x) ?seg"
      using exact unfolding xs(3) update_exact_def by blast+
    then show ?thesis by (rule move.loop_refines(2)[OF env i wf xs(2) _ _ loop])
  qed
  ultimately show ?thesis using run val by blast
qed

theorem move_updates_offsets_witness:
  "\<exists>a a' i f. UpdateOnMove example_env 0 example_file f a = Inr a' \<and> seg_tiling (offsetMaps a' i) \<and>
     seg_val (offsetMaps a' i) 2
       (f\<lparr>pf_segment := \<lparr>seg_start = 0, seg_end = 3\<rparr>\<rparr>, SegmentScore_default)"
proof -
  obtain a i f where a: "auditor_invar example_env a" "um_find ''ab'' (file_segment_map a 0) = Some i"
    "dm_set (offsetMaps a i) = {(\<lparr>seg_start = 0, seg_end = 99\<rparr>, (f, SegmentScore_default))}"
    "seg_tiling (offsetMaps a i)"
    by (rule example_opened)
  note i = auditor_index[OF a(1,2)]
  note one = example_single[OF a(3) _ _ auditor_store[OF a(1) i], of "pf_segment example_file"]
  have "um_find (pf_filename example_file) (file_segment_map a 0) = Some i" using a(2) by (simp add: example_file_def)
  moreover have "0 < Segment_GetSize (pf_segment example_file)" by (simp add: Segment_GetSize_def example_file_def)
  moreover have "\<forall>s x. offsetMaps a i s = [x] \<longrightarrow> overlaps (fst x) (pf_segment example_file)"
    and exact: "update_exact (offsetMaps a i) (pf_segment example_file)"
    using one by (simp_all add: overlaps_def seg_set_def example_file_def)
  ultimately obtain a' where "UpdateOnMove example_env 0 example_file f a = Inr a'" "seg_tiling (offsetMaps a' i)"
    and val: "\<forall>off w. seg_val (offsetMaps a' i) off w \<longleftrightarrow>
       (if off \<in> seg_set (pf_segment example_file)
        then \<exists>k v. (k, v) \<in> dm_set (offsetMaps a i) \<and> off \<in> seg_set k \<and> w = moved_info example_file f k v
        else seg_val (offsetMaps a i) off w)"
    using move_updates_offsets[OF a(1) _ _ a(4), of 0 example_file f] exact by (auto simp: example_env_def)
  moreover have "seg_val (offsetMaps a' i) 2 (f\<lparr>pf_segment := \<lparr>seg_start = 0, seg_end = 3\<rparr>\<rparr>, SegmentScore_default)"
    unfolding val[rule_format]
    by (auto simp: a(3) seg_set_def example_file_def moved_info_def Segment_Intersect_def)
  ultimately show ?thesis by blast
qed

text \<open>C38: after a batch of events in which a so far unknown file is never closed more often than it was
  opened, and opened fewer than \<open>2^32\<close> times, the file is reported active, on every server, exactly when it
  was opened more often than closed.\<close>

theorem file_active_iff_open:
  assumes "auditor_invar e a" and "\<forall>ev\<in>set events. layer_index ev \<in> layer_id ` set (layers e)"
    and "active_count e a (pf_filename file) = None" and "opens (pf_filename file) events < 2 ^ 32"
    and "\<forall>k \<le> length events. closes (pf_filename file) (take k events) \<le> opens (pf_filename file) (take k events)"
  shows "\<exists>a'. Update e me events a = Inr a' \<and>
    CheckIfFileActive e me' file a' = Inr (closes (pf_filename file) events < opens (pf_filename file) events)"
proof -
  obtain a' where a': "Update e me events a = Inr a'" "auditor_invar e a'"
    "active_count e a' (pf_filename file) = fold (active_spec (pf_filename file)) events None"
    using Update_ok[OF assms(1) names_layers[OF assms(2)], of me] assms(3) by auto
  have "closes (pf_filename file) events \<le> opens (pf_filename file) events"
    using assms(5)[rule_format, of "length events"] by simp
  then have "CheckIfFileActive e me' file a' =
      Inr (closes (pf_filename file) events < opens (pf_filename file) events)"
    using a'(3) unfolding active_spec_run[OF assms(4,5)] active_count_def
    by (auto simp: CheckIfFileActive_def active_Get[OF a'(2)])
  with a'(1) show ?thesis by blast
qed

theorem file_active_iff_open_witness:
  "\<exists>a'. Update example_env 0 [example_event FILE_OPEN, example_event FILE_OPEN, example_event FILE_CLOSE] example_auditor =
       Inr a' \<and> CheckIfFileActive example_env 1 example_file a' = Inr True"
proof -
  let ?evs = "[example_event FILE_OPEN, example_event FILE_OPEN, example_event FILE_CLOSE]"
  have none: "active_count example_env example_auditor (pf_filename example_file) = None"
    using FileSegmentAuditor_ok[OF example_env_wf, of 0]
    by (auto simp: example_auditor_def active_count_def auditor_init_def)
  have cnt: "opens (pf_filename example_file) ?evs = 2" "closes (pf_filename example_file) ?evs = 1"
    by (simp_all add: opens_def closes_def example_event_def example_file_def)
  have "closes (pf_filename example_file) (take k ?evs) \<le> opens (pf_filename example_file) (take k ?evs)" for k
    by (simp add: take_Cons opens_def closes_def example_event_def split: nat.split)
  with file_active_iff_open[OF example_auditor_invar _ none, of ?evs 0 1] cnt show ?thesis
    by (simp add: example_event_layer)
qed

text \<open>The heat map of a known file is a permutation of all its segments, collected from every server, in
  descending order of score.\<close>

theorem heat_map_sorted:
  assumes "auditor_invar e a" and "um_find (pf_filename file) (file_segment_map a me) = Some i"
    and "me < env_servers e"
  shows "\<exists>hm. FetchHeatMap e me file a = Inr hm \<and> sorted_wrt (\<lambda>x y. GetScore (fst (snd y)) \<le> GetScore (fst (snd x))) hm \<and>
    set hm = (\<lambda>x. (fst x, snd (snd x), fst (snd x))) ` dm_set (offsetMaps a i)"
proof -
  note env = auditor_env[OF assms(1)] and i = auditor_index[OF assms(1,2)]
  let ?d = "offset_map_d e i" and ?st = "offsetMaps a i"
  let ?all = "concat (map ?st (dm_servers ?d me))"
  have "set ?all = dm_set ?st"
  proof -
    have n: "num_servers ?d = env_servers e" by (simp add: offset_map_d_def dist_of_def)
    have "x \<in> (\<Union>s<env_servers e. set (?st s))" if "x \<in> dm_set ?st" for x
      using dm_set_owner[OF auditor_store[OF assms(1) i], of x] that
        owner_less[OF env_wf_dists(5)[OF env i], of "fst x"] n by auto
    moreover have "set ?all = (\<Union>s<env_servers e. set (?st s))"
      using set_dm_servers[of me ?d] assms(3) n by (simp add: atLeast0LessThan)
    moreover have "(\<Union>s<env_servers e. set (?st s)) \<subseteq> dm_set ?st" unfolding dm_set_def by blast
    ultimately show ?thesis by blast
  qed
  moreover have "set (sort_by_score ?all) = (\<lambda>x. (snd (snd x), (fst x, fst (snd x)))) ` set ?all"
    using arg_cong[OF sort_by_score_ok(2)[of ?all], of set_mset] by simp
  moreover have "sorted_wrt (\<lambda>x y. GetScore (fst y) \<le> GetScore (fst x)) (sort_by_score ?all)"
    using sort_by_score_ok(1)[of ?all] by (simp add: mm_sorted_def SegmentScore_less_def not_less)
  moreover have "FetchHeatMap e me file a =
      Inr (map (\<lambda>x. (fst (snd x), fst x, snd (snd x))) (sort_by_score ?all))"
    using assms(2) by (simp add: FetchHeatMap_def DM_GetAllData_run[OF env_wf_dists(5)[OF env i]])
  ultimately show ?thesis
    by (intro exI[of _ "map (\<lambda>x. (fst (snd x), fst x, snd (snd x))) (sort_by_score ?all)"])
      (simp add: sorted_wrt_map image_image)
qed

theorem heat_map_sorted_witness:
  "\<exists>a hm f. FetchHeatMap example_env 0 example_file a = Inr hm \<and>
     set hm = {(\<lparr>seg_start = 0, seg_end = 99\<rparr>, SegmentScore_default, f)}"
proof -
  obtain a i f where a: "auditor_invar example_env a" "um_find ''ab'' (file_segment_map a 0) = Some i"
    "dm_set (offsetMaps a i) = {(\<lparr>seg_start = 0, seg_end = 99\<rparr>, (f, SegmentScore_default))}"
    by (rule example_opened)
  have "um_find (pf_filename example_file) (file_segment_map a 0) = Some i" and "0 < env_servers example_env"
    using a(2) by (simp_all add: example_file_def example_env_def)
  from heat_map_sorted[OF a(1) this] a(3) show ?thesis by auto
qed

text \<open>The layer scores fetched on any server have exactly one score map per layer, each sorted by
  descending score.\<close>

theorem layer_scores_complete:
  assumes "auditor_invar e a" and "me < env_servers e"
  shows "\<exists>m. FetchLayerScores e me a = Inr m \<and> om_sorted (<) m \<and> fst ` set m = layer_id ` set (layers e) \<and>
    (\<forall>x\<in>set m. mm_sorted (>) (snd x))"
  by (rule FetchLayerScores_ok[OF assms])

theorem layer_scores_complete_witness:
  "\<exists>m. FetchLayerScores example_env 1 example_auditor = Inr m \<and> om_sorted (<) m \<and>
     fst ` set m = layer_id ` set (layers example_env) \<and> (\<forall>x\<in>set m. mm_sorted (>) (snd x))"
  by (rule layer_scores_complete[OF example_auditor_invar]) (simp add: example_env_def)

text \<open>In the pairs \<open>GetDataLocation\<close> returns, source and destination have the same size, the first
  destination starts at offset 0, and each later one starts on the last byte of the one before instead of
  after it: consecutive destinations overlap in one byte.\<close>

theorem locations_overlap_by_one:
  assumes "GetDataLocation e me file a = Inr vs" and "j < length vs"
  shows "PosixFile_GetSize (fst (vs ! j)) = PosixFile_GetSize (snd (vs ! j)) \<and>
    seg_start (pf_segment (snd (vs ! j))) =
      (case j of 0 \<Rightarrow> 0 | Suc k \<Rightarrow> seg_end (pf_segment (snd (vs ! k))))"
  by (rule location_chain_nth[OF GetDataLocation_chain[OF assms(1)] assms(2)])

theorem locations_overlap_by_one_witness:
  "\<exists>a vs. GetDataLocation example_env 0 example_file a = Inr vs \<and> length vs = 1 \<and>
     seg_start (pf_segment (snd (vs ! 0))) = 0"
proof -
  let ?seg = "\<lparr>seg_start = 0, seg_end = 99\<rparr>"
  let ?st = "(DM_init(0 := [(?seg, (example_file, SegmentScore_default))])) :: (Segment, seg_info) map_store"
  let ?a = "auditor_init\<lparr>offsetMaps := \<lambda>_. ?st, valid_buffered_dataset := \<lambda>_. [(''ab'', 0)]\<rparr>"
  have i: "0 < max_num_files example_env" by (simp add: example_env_def)
  have "dm_servers (offset_map_d example_env 0) 0 = [0, 1]"
    by (simp add: dm_servers_def offset_map_d_def dist_of_def example_env_def upt_rec)
  then have "DM_Contains Segment_less Segment_Contains (offset_map_d example_env 0) 0 (pf_segment example_file) ?st =
      Inr [(?seg, (example_file, SegmentScore_default))]"
    by (simp add: DM_Contains_run[OF env_wf_dists(5)[OF example_env_wf i]] DM_ContainsInServer_def DM_init_def)
  moreover have "DHM_Get (valid_buffered_dataset_d example_env) 0 ''ab'' (\<lambda>_. [(''ab'', 0 :: nat)]) = Inr (Some 0)"
    by (simp add: DHM_Get_run[OF env_wf_dists(3)[OF example_env_wf]] dhm_lookup_def um_find_def)
  ultimately have "\<exists>vs. GetDataLocation example_env 0 example_file ?a = Inr vs \<and> length vs = 1"
    using i by (simp add: GetDataLocation_def offset_index_def locate_step_def Let_def example_file_def)
  then obtain vs where "GetDataLocation example_env 0 example_file ?a = Inr vs" "length vs = 1" by blast
  with locations_overlap_by_one[of example_env 0 example_file ?a vs 0] show ?thesis by auto
qed

text \<open>Asking another server to create an offset map always fails: no constructor binds the name.\<close>

theorem create_offset_rpc_unbound:
  assumes "server < env_rpc_size e" and "um_find ''FILE_SEGMENT_AUDITOR_CreateOffsetMap'' (env_funcs e) = None"
  shows "CallCreateOffsetRPC e server event a =
    Inl (Rpc (NoSuchFunction ''FILE_SEGMENT_AUDITOR_CreateOffsetMap'' 1))"
  using assms by (simp add: CallCreateOffsetRPC_def RPC_call_def dispatch_call_def)

theorem create_offset_rpc_unbound_witness:
  "CallCreateOffsetRPC example_env 1 (example_event FILE_OPEN) example_auditor =
     Inl (Rpc (NoSuchFunction ''FILE_SEGMENT_AUDITOR_CreateOffsetMap'' 1))"
proof (rule create_offset_rpc_unbound)
  have "um_find ''FILE_SEGMENT_AUDITOR_CreateOffsetMap'' example_funcs = None" by code_simp
  then show "um_find ''FILE_SEGMENT_AUDITOR_CreateOffsetMap'' (env_funcs example_env) = None"
    by (simp add: example_env_def)
qed (simp add: example_env_def)

end
