(* ===== verification/Data_Manager.thy ===== *)
theory Data_Manager
  imports Auditor_Properties
begin

text \<open>
  \<open>src/src/common/io_clients/data_manager.h\<close>: moving data between layers and making room in a layer.
  The record \<open>hstate\<close> is the state the components of a server share: the storage clients, the auditor and
  the sequence of buffer file names.

  A \<open>Layer\<close> passed by value carries the pointer \<open>next\<close>, so \<open>MakeCapacity\<close> takes the chain that starts at the
  layer. The status of a move of an empty file is never assigned in the source; returning it is
  \<open>Undefined\<close>.
\<close>

section \<open>State\<close>

record hstate =
  io :: io_state
  aud :: auditor
  file_id_seq :: "nat \<Rightarrow> nat"

definition layer_chain :: "env \<Rightarrow> Layer \<Rightarrow> layer_ptr" where
  "layer_chain e l = l # Layer_next (layers e) l"

definition deref_layer :: "layer_ptr \<Rightarrow> Layer res" where
  "deref_layer p = (case p of [] \<Rightarrow> Inl (Undefined NullPointer) | l # _ \<Rightarrow> Inr l)"

section \<open>Moving data\<close>

definition dm_Read :: "env \<Rightarrow> nat \<Rightarrow> PosixFile \<Rightarrow> PosixFile \<Rightarrow> hstate \<Rightarrow> (ServerStatus \<times> PosixFile) res" where
  "dm_Read e me source destination h =
     client_Read e me (io_client_type (pf_layer source)) source destination (io h)"

definition dm_Write :: "env \<Rightarrow> nat \<Rightarrow> PosixFile \<Rightarrow> PosixFile \<Rightarrow> hstate \<Rightarrow> (ServerStatus \<times> hstate) res" where
  "dm_Write e me source destination h =
     rbind (client_Write e me (io_client_type (pf_layer destination)) source destination (io h))
       (\<lambda>(status, io'). Inr (status, h\<lparr>io := io'\<rparr>))"

definition dm_Delete :: "env \<Rightarrow> nat \<Rightarrow> PosixFile \<Rightarrow> hstate \<Rightarrow> (ServerStatus \<times> hstate) res" where
  "dm_Delete e me file h =
     rbind (client_Delete e me (io_client_type (pf_layer file)) file (io h))
       (\<lambda>(status, io'). Inr (status, h\<lparr>io := io'\<rparr>))"

definition Move ::
  "env \<Rightarrow> nat \<Rightarrow> PosixFile \<Rightarrow> PosixFile \<Rightarrow> bool \<Rightarrow> hstate \<Rightarrow> (ServerStatus \<times> hstate) res" where
  "Move e me source destination deleteSource h =
     (if PosixFile_GetSize source > 0
      then rbind (dm_Read e me source destination h) (\<lambda>(status, destination).
             if status \<noteq> SERVER_SUCCESS then Inr (status, h)
             else rbind (dm_Write e me destination destination h) (\<lambda>(status, h).
               if status \<noteq> SERVER_SUCCESS then Inr (status, h)
               else if deleteSource then dm_Delete e me source h
               else Inr (status, h)))
      else Inl (Undefined Uninitialised))"

definition Prefetch :: "env \<Rightarrow> nat \<Rightarrow> PosixFile \<Rightarrow> PosixFile \<Rightarrow> hstate \<Rightarrow> (ServerStatus \<times> hstate) res" where
  "Prefetch e me source destination h =
     rbind (Layer_LAST (layers e)) (\<lambda>last_layer.
       Move e me source destination (\<not> Layer_eq (pf_layer source) last_layer) h)"

section \<open>Capacity\<close>

definition remaining_capacity :: "env \<Rightarrow> nat \<Rightarrow> Layer \<Rightarrow> hstate \<Rightarrow> (real \<times> hstate) res" where
  "remaining_capacity e me layer h =
     rbind (client_GetCurrentUsage e me (io_client_type layer) layer (io h)) (\<lambda>(usage, io').
       let r = capacity_mb layer * real MB - usage
       in Inr (if r < 0 then 0 else r, h\<lparr>io := io'\<rparr>))"

definition HasCapacity :: "env \<Rightarrow> nat \<Rightarrow> int \<Rightarrow> Layer \<Rightarrow> hstate \<Rightarrow> (bool \<times> hstate) res" where
  "HasCapacity e me amount layer h =
     rbind (remaining_capacity e me layer h) (\<lambda>(r, h'). Inr (r \<ge> real_of_int amount, h'))"

definition CanFit :: "env \<Rightarrow> int \<Rightarrow> Layer \<Rightarrow> ServerStatus res" where
  "CanFit e amount layer =
     rbind (Layer_LAST (layers e)) (\<lambda>last_layer.
       Inr (if Layer_eq layer last_layer \<or> capacity_mb layer * real MB \<ge> real_of_int amount
            then SERVER_SUCCESS else SERVER_FAILED))"

definition Split :: "PosixFile \<Rightarrow> int \<Rightarrow> PosixFile list" where
  "Split file remaining =
     (let p1 = file\<lparr>pf_segment := (pf_segment file)\<lparr>seg_end := seg_start (pf_segment file) + remaining - 1\<rparr>\<rparr>;
          p2 = file\<lparr>pf_segment := (pf_segment file)\<lparr>seg_start := seg_start (pf_segment p1) + remaining\<rparr>\<rparr>
      in [p1, p2])"

definition GenerateBufferFilename :: "env \<Rightarrow> nat \<Rightarrow> hstate \<Rightarrow> (string \<times> hstate) res" where
  "GenerateBufferFilename e me h =
     rbind (GetNextSequenceServer (obj_of e ''FILE_NUM_SEQ'') me 0 (file_id_seq h)) (\<lambda>(n, s).
     rbind (CharStruct (to_string n @ ''.hfetch'')) (\<lambda>name. Inr (name, h\<lparr>file_id_seq := s\<rparr>)))"

text \<open>The first loop of \<open>MakeCapacity\<close>, which walks back from \<open>end()\<close> and reads the iterator before moving it.\<close>

fun evict_scan :: "score_map \<Rightarrow> real \<Rightarrow> int \<Rightarrow> nat \<Rightarrow> int \<Rightarrow> real \<Rightarrow> (nat \<times> int \<times> real) res" where
  "evict_scan m score amount 0 required_space this_layer_score = Inr (0, required_space, this_layer_score)"
| "evict_scan m score amount (Suc i) required_space this_layer_score =
     rbind (it_deref m (Suc i)) (\<lambda>x.
       if fst x < score \<and> required_space < amount
       then evict_scan m score amount i (required_space + PosixFile_GetSize (snd (snd x))) (fst x)
       else Inr (Suc i, required_space, this_layer_score))"

definition evict_whole ::
  "env \<Rightarrow> nat \<Rightarrow> Layer \<Rightarrow> PosixFile \<Rightarrow> PosixFile \<Rightarrow> hstate \<Rightarrow> hstate res" where
  "evict_whole e me next_layer orig buf h =
     rbind (Layer_LAST (layers e)) (\<lambda>last_layer.
       let source = buf;
           destination = buf\<lparr>pf_layer := next_layer\<rparr>;
           destination = (if Layer_eq (pf_layer destination) last_layer then orig else destination)
       in rbind (Move e me source destination (\<not> Layer_eq (pf_layer source) last_layer) h) (\<lambda>(_, h1).
          rbind (UpdateOnMove e me orig destination (aud h1)) (\<lambda>a. Inr (h1\<lparr>aud := a\<rparr>))))"

definition evict_part ::
  "env \<Rightarrow> nat \<Rightarrow> Layer \<Rightarrow> PosixFile \<Rightarrow> PosixFile \<Rightarrow> int \<Rightarrow> hstate \<Rightarrow> hstate res" where
  "evict_part e me next_layer orig buf required_space h =
     rbind (Layer_LAST (layers e)) (\<lambda>last_layer.
       let source = Split buf required_space ! 1;
           destination = source\<lparr>pf_layer := next_layer,
             pf_segment := \<lparr>seg_start = 0, seg_end = PosixFile_GetSize source - 1\<rparr>\<rparr>
       in rbind (if \<not> Layer_eq (pf_layer source) last_layer
                 then rbind (GenerateBufferFilename e me h) (\<lambda>(name, h1). Inr (destination\<lparr>pf_filename := name\<rparr>, h1))
                 else Inr (destination, h)) (\<lambda>(destination, h1).
          let destination = (if Layer_eq (pf_layer destination) last_layer then orig else destination)
          in rbind (Move e me source destination (\<not> Layer_eq (pf_layer source) last_layer) h1) (\<lambda>(_, h2).
             rbind (UpdateOnMove e me (Split orig required_space ! 1) destination (aud h2)) (\<lambda>a.
               Inr (h2\<lparr>aud := a\<rparr>)))))"

text \<open>The second loop: every element from the iterator to \<open>end()\<close> is moved to the next layer.\<close>

fun evict_loop :: "env \<Rightarrow> nat \<Rightarrow> Layer \<Rightarrow> score_map \<Rightarrow> int \<Rightarrow> hstate \<Rightarrow> hstate res" where
  "evict_loop e me next_layer [] required_space h = Inr h"
| "evict_loop e me next_layer ((_, orig, buf) # m) required_space h =
     (if PosixFile_GetSize buf > required_space
      then rbind (evict_part e me next_layer orig buf required_space h) (\<lambda>h1.
             evict_loop e me next_layer m
               (required_space - PosixFile_GetSize (Split buf required_space ! 1)) h1)
      else rbind (evict_whole e me next_layer orig buf h) (\<lambda>h1.
             evict_loop e me next_layer m (required_space - PosixFile_GetSize buf) h1))"

fun MakeCapacity :: "env \<Rightarrow> nat \<Rightarrow> layer_ptr \<Rightarrow> int \<Rightarrow> real \<Rightarrow> hstate \<Rightarrow> (ServerStatus \<times> hstate) res" where
  "MakeCapacity e me [] amount score h = Inl (Undefined NullPointer)"
| "MakeCapacity e me (layer # next') amount score h =
     rbind (CanFit e amount layer) (\<lambda>fits.
     rbind (Layer_LAST (layers e)) (\<lambda>last_layer.
       if fits = SERVER_SUCCESS then Inr (SERVER_FAILED, h)
       else if Layer_eq layer last_layer then Inr (SERVER_SUCCESS, h)
       else
         rbind (FetchLayerScores e me (aud h)) (\<lambda>layerScore.
         rbind (case om_find (<) (layer_id layer) layerScore of
                  None \<Rightarrow> Inl (Undefined EndDereference) | Some x \<Rightarrow> Inr (snd x)) (\<lambda>layerScoreMap.
         rbind (remaining_capacity e me layer h) (\<lambda>(remaining, h1).
         rbind (evict_scan layerScoreMap score amount (length layerScoreMap) \<lfloor>remaining\<rfloor> 0)
           (\<lambda>(iter, required_space, this_layer_score).
         rbind (it_next layerScoreMap iter) (\<lambda>iter1.
         rbind (deref_layer next') (\<lambda>next_layer.
         rbind (HasCapacity e me amount next_layer h1) (\<lambda>(has, h2).
         rbind (if has then Inr h2
                else rbind (MakeCapacity e me next' amount this_layer_score h2) (\<lambda>r. Inr (snd r))) (\<lambda>h3.
         rbind (evict_loop e me next_layer (drop iter1 layerScoreMap) required_space h3) (\<lambda>h4.
           Inr (SERVER_SUCCESS, h4))))))))))))"

section \<open>Buffer file names\<close>

definition digits_value :: "string \<Rightarrow> nat" where
  "digits_value s = foldl (\<lambda>a c. a * 10 + (of_char c - 48)) 0 s"

lemma digits_value_to_string: "digits_value (to_string n) = n"
proof (induction n rule: to_string.induct)
  case (1 n)
  show ?case
  proof (cases "n < 10")
    case True
    then show ?thesis by (subst to_string.simps) (simp add: digits_value_def)
  next
    case False
    with 1 have "digits_value (to_string (n div 10)) = n div 10" by simp
    with False show ?thesis by (subst to_string.simps) (simp add: digits_value_def)
  qed
qed

lemma to_string_inj: "to_string m = to_string n \<longleftrightarrow> m = n"
  by (metis digits_value_to_string)

lemma to_string_digits: "c \<in> set (to_string n) \<Longrightarrow> 48 \<le> (of_char c :: nat) \<and> (of_char c :: nat) < 58"
proof (induction n rule: to_string.induct)
  case (1 n)
  have "(of_char (char_of (48 + n mod 10) :: char) :: nat) = 48 + n mod 10" by simp
  with 1 show ?case by (subst (asm) to_string.simps) (auto split: if_splits)
qed

lemma length_to_string: "n < 10 ^ k \<Longrightarrow> 0 < k \<Longrightarrow> length (to_string n) \<le> k"
proof (induction k arbitrary: n)
  case (Suc k)
  show ?case
  proof (cases "n < 10")
    case True
    then show ?thesis by (subst to_string.simps) simp
  next
    case False
    then have "0 < k" using Suc.prems(1) by (cases k) auto
    moreover have "n div 10 < 10 ^ k" using Suc.prems(1) by (simp add: div_less_iff_less_mult mult.commute)
    ultimately have "length (to_string (n div 10)) \<le> k" using Suc.IH by blast
    with False show ?thesis by (subst to_string.simps) simp
  qed
qed simp

text \<open>A 64-bit number has at most 20 digits, so the name fits its \<open>CharStruct\<close>.\<close>

lemma buffer_name_fits:
  assumes "n < 2 ^ 64"
  shows "CharStruct (to_string n @ ''.hfetch'') = Inr (to_string n @ ''.hfetch'')"
proof -
  have "CHR 0x00 \<notin> set (to_string n @ ''.hfetch'')" using to_string_digits[of "CHR 0x00" n] by auto
  moreover have "length (to_string n) \<le> 20" by (rule length_to_string) (use assms in auto)
  ultimately show ?thesis by (intro CharStruct_fits) (simp_all add: MAX_STRING_LENGTH_def)
qed

lemma GenerateBufferFilename_run:
  assumes "env_wf e" and "file_id_seq h 0 < 2 ^ 64 - 1"
  shows "GenerateBufferFilename e me h =
    Inr (to_string (Suc (file_id_seq h 0)) @ ''.hfetch'', h\<lparr>file_id_seq := (file_id_seq h)(0 := Suc (file_id_seq h 0))\<rparr>)"
proof -
  have "0 < rpc_size (obj_of e ''FILE_NUM_SEQ'')" using assms(1) by (simp add: env_wf_def obj_of_def)
  note run = GetNextSequenceServer_run[OF env_wf_sequences(2)[OF assms(1)] this, of me "file_id_seq h"]
  show ?thesis
    using assms(2) unfolding GenerateBufferFilename_def run by (simp add: buffer_name_fits)
qed

fun generate_names :: "env \<Rightarrow> nat list \<Rightarrow> hstate \<Rightarrow> (string list \<times> hstate) res" where
  "generate_names e [] h = Inr ([], h)"
| "generate_names e (me # mes) h =
     rbind (GenerateBufferFilename e me h) (\<lambda>(n, h1).
     rbind (generate_names e mes h1) (\<lambda>(ns, h2). Inr (n # ns, h2)))"

lemma generate_names_run:
  assumes "env_wf e" and "file_id_seq h 0 + length mes < 2 ^ 64"
  shows "\<exists>h'. generate_names e mes h =
    Inr (map (\<lambda>i. to_string i @ ''.hfetch'') [Suc (file_id_seq h 0)..<Suc (file_id_seq h 0 + length mes)], h')"
  using assms(2)
proof (induction mes arbitrary: h)
  case (Cons me mes)
  let ?h = "h\<lparr>file_id_seq := (file_id_seq h)(0 := Suc (file_id_seq h 0))\<rparr>"
  have "GenerateBufferFilename e me h = Inr (to_string (Suc (file_id_seq h 0)) @ ''.hfetch'', ?h)"
    using Cons.prems by (intro GenerateBufferFilename_run[OF assms(1)]) simp
  moreover obtain h' where "generate_names e mes ?h = Inr (map (\<lambda>i. to_string i @ ''.hfetch'')
      [Suc (Suc (file_id_seq h 0))..<Suc (Suc (file_id_seq h 0) + length mes)], h')"
    using Cons.IH[of ?h] Cons.prems by (auto simp del: upt_Suc)
  ultimately show ?case by (simp add: upt_conv_Cons del: upt_Suc)
qed simp

section \<open>Making room\<close>

lemma evict_scan_from_end:
  "m \<noteq> [] \<Longrightarrow> evict_scan m score amount (length m) r t = Inl (Undefined EndDereference)"
  by (cases "length m") (auto simp: it_deref_def)

lemma FetchLayerScores_find:
  assumes "auditor_invar e a" and "me < env_servers e" and "l \<in> set (layers e)"
  shows "\<exists>m x. FetchLayerScores e me a = Inr m \<and> om_find (<) (layer_id l) m = Some x"
proof -
  obtain m where m: "FetchLayerScores e me a = Inr m" "fst ` set m = layer_id ` set (layers e)"
    using FetchLayerScores_ok[OF assms(1,2)] by blast
  then have "layer_id l \<in> fst ` set m" using assms(3) by simp
  then obtain x where "x \<in> set m" "fst x = layer_id l" by (metis imageE)
  then have "\<not> (\<forall>x\<in>set m. \<not> equivalent (<) (fst x) (layer_id l))"
    using nat_order.equivalent_refl[of "layer_id l"] by metis
  then have "om_find (<) (layer_id l) m \<noteq> None" by (simp add: om_find_None_iff)
  with m(1) show ?thesis by auto
qed

section \<open>Capacity never faults\<close>

definition io_invar :: "env \<Rightarrow> io_state \<Rightarrow> bool" where
  "io_invar e s \<longleftrightarrow> memory_invar e (memory_store s) \<and> file_invar e [] (shared_client s) \<and>
     local_invar e (local_file_client s)"

lemma io_invar_init: "env_wf e \<Longrightarrow> io_invar e io_init"
  by (simp add: io_invar_def io_init_invars)

lemma io_invar_env: "io_invar e s \<Longrightarrow> env_wf e"
  by (simp add: io_invar_def memory_invar_def)

lemma file_usage_ok:
  assumes "file_invar e name fc"
  shows "\<exists>u fc'. SharedFileClient_GetCurrentUsage e name me l fc = Inr (u, fc') \<and> file_invar e name fc' \<and>
    files fc' = files fc"
proof -
  have inv: "dhm_invar (capacity_d e name) (layerCapacity fc)" "dhm_invar (changed_d e name) (hasChanged fc)"
    using assms by (simp_all add: file_invar_def)
  have put: "\<exists>m. DHM_Put (capacity_d e name) me (layer_id l) v (layerCapacity fc) = Inr (True, m) \<and>
      file_invar e name (fc\<lparr>layerCapacity := m\<rparr>)" for v
    using dhm.put_ok[OF inv(1), of me "layer_id l" v] assms by (auto simp: file_invar_def)
  have measured: "\<exists>u fc'. rbind (DHM_Put (capacity_d e name) me (layer_id l) v (layerCapacity fc)) (\<lambda>(_, m).
      rbind (mark_changed e name me l False (fc\<lparr>layerCapacity := m\<rparr>)) (\<lambda>fc'. Inr (v, fc'))) = Inr (u, fc') \<and>
      file_invar e name fc' \<and> files fc' = files fc" for v
  proof -
    obtain m where m: "DHM_Put (capacity_d e name) me (layer_id l) v (layerCapacity fc) = Inr (True, m)"
      "file_invar e name (fc\<lparr>layerCapacity := m\<rparr>)" using put by blast
    with mark_changed_ok[OF m(2), of me l False] show ?thesis by auto
  qed
  then show ?thesis
    using assms dhm.get_lookup[OF inv(1), of me "layer_id l"] dhm.get_lookup[OF inv(2), of me "layer_id l"]
    by (auto simp: SharedFileClient_GetCurrentUsage_def Let_def split: option.splits)
qed

lemma usage_ok:
  assumes "io_invar e s" and "me < env_servers e"
  shows "\<exists>u s'. client_GetCurrentUsage e me t l s = Inr (u, s') \<and> io_invar e s'"
proof (cases t)
  case SIMPLE_MEMORY
  have "memory_invar e (memory_store s)" using assms(1) by (simp add: io_invar_def)
  then obtain xs where "DHM_GetAllData (data_map_d e) me (data_map (memory_store s)) = Inr xs"
    using DHM_all_data[of "data_map_d e" "data_map (memory_store s)" me] assms(2)
    by (auto simp: memory_invar_def data_map_d_def dist_of_def)
  then show ?thesis
    using assms(1) SIMPLE_MEMORY by (simp add: client_GetCurrentUsage_def MemoryClient_GetCurrentUsage_def)
next
  case SHARED_POSIX_FILE
  with file_usage_ok[of e "[]" "shared_client s" me l] assms(1) show ?thesis
    by (auto simp: client_GetCurrentUsage_def io_invar_def)
next
  case LOCAL_POSIX_FILE
  with file_usage_ok[OF local_invar_view[of e "local_file_client s" me], of me l] assms(1) show ?thesis
    by (auto simp: client_GetCurrentUsage_def LocalFileClient_GetCurrentUsage_def io_invar_def local_invar_update)
qed

lemma remaining_capacity_ok:
  assumes "io_invar e (io h)" and "me < env_servers e"
  shows "\<exists>r s. remaining_capacity e me l h = Inr (r, h\<lparr>io := s\<rparr>) \<and> 0 \<le> r \<and> io_invar e s"
  using usage_ok[OF assms, of "io_client_type l" l] by (auto simp: remaining_capacity_def Let_def)

section \<open>Moving from the file system to memory\<close>

lemma file_read_prefix:
  assumes "um_find (posix_path f) fs = Some c" and "0 \<le> seg_start (pf_segment f)"
    and "0 < PosixFile_GetSize f" and "seg_end (pf_segment f) \<le> int (length c)"
  shows "SharedFileClient_Read fs f d = Inr (SERVER_SUCCESS, d\<lparr>pf_data :=
    take (nat (PosixFile_GetSize f - 1)) (drop (nat (seg_start (pf_segment f))) c)\<rparr>)"
  using assms
  by (auto simp: SharedFileClient_Read_def posix_path_def Let_def PosixFile_GetSize_def Segment_GetSize_def)

text \<open>Reading one byte past the end of a buffer returned by \<open>c_str()\<close> yields the terminator.\<close>

lemma cstr_bytes_terminator: "cstr_bytes s 0 (int (length s) + 1) = Inr (s @ [CHR 0x00])"
  by (simp add: cstr_bytes_def nat_add_distrib)

lemma memory_write_short:
  assumes "memory_invar e mc" and "client_server e (pf_filename f) = Inr me"
    and "dhm_lookup (data_map_d e) (data_map mc) (pf_filename f) = None"
    and "PosixFile_GetSize f = int (length (pf_data f)) + 1"
  shows "\<exists>mc'. MemoryClient_Write e me f f mc = Inr (SERVER_SUCCESS, mc') \<and> memory_invar e mc' \<and>
    um_find (pf_filename f) (shm mc' me) = Some (pf_data f @ [CHR 0x00]) \<and>
    dhm_lookup (data_map_d e) (data_map mc') (pf_filename f) = Some (f\<lparr>pf_data := []\<rparr>)"
proof -
  let ?mc = "shm_store me (pf_filename f) (pf_data f @ [CHR 0x00]) (shm_remove me (pf_filename f) mc)"
  obtain mc' where mc': "data_map_put e me (pf_filename f) (f\<lparr>pf_data := []\<rparr>) ?mc = Inr mc'"
    "memory_invar e mc'" "shm mc' = shm ?mc"
    "dhm_lookup (data_map_d e) (data_map mc') =
       (dhm_lookup (data_map_d e) (data_map ?mc))(pf_filename f \<mapsto> f\<lparr>pf_data := []\<rparr>)"
    using data_map_put_run[of e ?mc "f\<lparr>pf_data := []\<rparr>" "pf_filename f" me] assms(1) by auto
  have "memory_create e me f f mc = Inr mc'"
    using mc'(1) by (simp add: memory_create_def assms(4) cstr_bytes_terminator)
  then have "MemoryClient_Write e me f f mc = Inr (SERVER_SUCCESS, mc')"
    using assms(1-3) by (simp add: MemoryClient_Write_def at_server_local memory_write_local_def memory_Get)
  with mc' show ?thesis by (simp add: um_find_shm_store)
qed

lemma Prefetch_to_memory:
  assumes "memory_invar e (memory_store (io h))" and "Layer_eq (pf_layer source) (last (layers e))"
    and "io_client_type (pf_layer source) = SHARED_POSIX_FILE" and "io_client_type (pf_layer destination) = SIMPLE_MEMORY"
    and "um_find (posix_path source) (files (shared_client (io h))) = Some c"
    and "0 \<le> seg_start (pf_segment source)" and "0 < PosixFile_GetSize source"
    and "seg_end (pf_segment source) \<le> int (length c)"
    and "PosixFile_GetSize destination = PosixFile_GetSize source"
    and "client_server e (pf_filename destination) = Inr me"
    and "dhm_lookup (data_map_d e) (data_map (memory_store (io h))) (pf_filename destination) = None"
  shows "\<exists>mc. Prefetch e me source destination h = Inr (SERVER_SUCCESS, h\<lparr>io := (io h)\<lparr>memory_store := mc\<rparr>\<rparr>) \<and>
    um_find (pf_filename destination) (shm mc me) =
      Some (take (nat (PosixFile_GetSize source - 1)) (drop (nat (seg_start (pf_segment source))) c) @ [CHR 0x00]) \<and>
    dhm_lookup (data_map_d e) (data_map mc) (pf_filename destination) = Some (destination\<lparr>pf_data := []\<rparr>)"
proof -
  let ?bs = "take (nat (PosixFile_GetSize source - 1)) (drop (nat (seg_start (pf_segment source))) c)"
  let ?d = "destination\<lparr>pf_data := ?bs\<rparr>"
  have last: "Layer_LAST (layers e) = Inr (last (layers e))"
    using assms(1) by (auto simp: Layer_LAST_def memory_invar_def env_wf_def layers_wf_def)
  have rd: "dm_Read e me source destination h = Inr (SERVER_SUCCESS, ?d)"
    using file_read_prefix[OF assms(5-8), of destination] assms(3)
    by (simp add: dm_Read_def client_Read_def)
  have "length ?bs = nat (PosixFile_GetSize source - 1)"
    using assms(6-8) by (auto simp: PosixFile_GetSize_def Segment_GetSize_def)
  then have "PosixFile_GetSize ?d = int (length (pf_data ?d)) + 1"
    using assms(7,9) by (simp add: PosixFile_GetSize_def)
  with memory_write_short[OF assms(1), of ?d me] assms(10,11) obtain mc where
    mc: "MemoryClient_Write e me ?d ?d (memory_store (io h)) = Inr (SERVER_SUCCESS, mc)"
      "um_find (pf_filename destination) (shm mc me) = Some (?bs @ [CHR 0x00])"
      "dhm_lookup (data_map_d e) (data_map mc) (pf_filename destination) = Some (destination\<lparr>pf_data := []\<rparr>)" by auto
  let ?h = "h\<lparr>io := (io h)\<lparr>memory_store := mc\<rparr>\<rparr>"
  have "dm_Write e me ?d ?d h = Inr (SERVER_SUCCESS, ?h)"
    using mc(1) assms(4) by (simp add: dm_Write_def client_Write_def)
  then have "Prefetch e me source destination h = Inr (SERVER_SUCCESS, ?h)"
    using last rd assms(2,7) by (simp add: Prefetch_def Move_def)
  with mc(2,3) show ?thesis by blast
qed

section \<open>Properties\<close>

text \<open>\<open>Split\<close> at a size between zero and the size of the file gives two files whose segments partition
  the segment of the original, the first of the given size.\<close>

theorem Split_partition:
  assumes "0 \<le> n" and "n \<le> PosixFile_GetSize f"
  shows "\<exists>p q. Split f n = [p, q] \<and> seg_set (pf_segment p) \<union> seg_set (pf_segment q) = seg_set (pf_segment f) \<and>
    seg_set (pf_segment p) \<inter> seg_set (pf_segment q) = {} \<and>
    PosixFile_GetSize p = n \<and> PosixFile_GetSize q = PosixFile_GetSize f - n"
  using assms by (auto simp: Split_def Let_def seg_set_def PosixFile_GetSize_def Segment_GetSize_def)

theorem Split_partition_witness:
  "\<exists>p q. Split example_file 1 = [p, q] \<and>
     seg_set (pf_segment p) \<union> seg_set (pf_segment q) = seg_set (pf_segment example_file) \<and>
     seg_set (pf_segment p) \<inter> seg_set (pf_segment q) = {} \<and>
     PosixFile_GetSize p = 1 \<and> PosixFile_GetSize q = PosixFile_GetSize example_file - 1"
  by (rule Split_partition) (simp_all add: example_file_def PosixFile_GetSize_def Segment_GetSize_def)

text \<open>The names \<open>GenerateBufferFilename\<close> hands out to any sequence of calls on any servers are pairwise
  distinct, until the 64-bit sequence wraps.\<close>

theorem buffer_names_distinct:
  assumes "env_wf e" and "file_id_seq h 0 + length mes < 2 ^ 64"
  shows "\<exists>names h'. generate_names e mes h = Inr (names, h') \<and> length names = length mes \<and> distinct names"
  using generate_names_run[OF assms] by (auto simp: distinct_map inj_on_def to_string_inj simp del: upt_Suc)

theorem buffer_names_distinct_witness:
  "\<exists>names h'. generate_names example_env [0, 1, 0] \<lparr>io = io_init, aud = example_auditor, file_id_seq = (\<lambda>_. 0)\<rparr> =
       Inr (names, h') \<and> length names = length [0::nat, 1, 0] \<and> distinct names"
  by (rule buffer_names_distinct[OF example_env_wf]) simp

text \<open>C39: \<open>MakeCapacity\<close> never makes room. When the amount can fit the layer it reports failure and changes
  nothing, because the success code 0 of \<open>CanFit\<close> is taken for false; otherwise it dereferences or
  increments the end iterator of the layer's score map.\<close>

theorem MakeCapacity_never_succeeds:
  assumes "auditor_invar e (aud h)" and "me < env_servers e" and "layer \<in> set (layers e)"
    and "remaining_capacity e me layer h = Inr r"
  shows "if Layer_eq layer (last (layers e)) \<or> capacity_mb layer * real MB \<ge> real_of_int amount
    then MakeCapacity e me (layer # next') amount score h = Inr (SERVER_FAILED, h)
    else MakeCapacity e me (layer # next') amount score h \<in>
      {Inl (Undefined EndDereference), Inl (Undefined EndIncrement)}"
proof -
  have last: "Layer_LAST (layers e) = Inr (last (layers e))"
    using auditor_env[OF assms(1)] by (auto simp: Layer_LAST_def env_wf_def layers_wf_def)
  obtain m x where m: "FetchLayerScores e me (aud h) = Inr m" "om_find (<) (layer_id layer) m = Some x"
    using FetchLayerScores_find[OF assms(1-3)] by blast
  show ?thesis
  proof (cases "snd x = []")
    case True
    with last m assms(4) show ?thesis by (auto simp: CanFit_def it_next_def split: prod.splits)
  next
    case False
    with last m assms(4) show ?thesis
      by (auto simp: CanFit_def evict_scan_from_end split: prod.splits)
  qed
qed

definition example_hstate :: hstate where
  "example_hstate = \<lparr>io = io_init, aud = example_auditor, file_id_seq = GlobalSequence_init\<rparr>"

lemma example_no_data: "DHM_GetAllData (data_map_d example_env) 0 (data_map (memory_store io_init)) = Inr []"
  by (simp add: DHM_GetAllData_run[OF env_wf_dists(4)[OF example_env_wf]] io_init_def DHM_init_def)

lemma example_remaining:
  "remaining_capacity example_env 0 (hd example_layers) example_hstate = Inr (64 * real MB, example_hstate)"
  by (simp add: remaining_capacity_def client_GetCurrentUsage_def MemoryClient_GetCurrentUsage_def
      example_no_data example_layers_def example_hstate_def MB_def)

theorem MakeCapacity_never_succeeds_witness:
  "MakeCapacity example_env 0 example_layers 10 1 example_hstate = Inr (SERVER_FAILED, example_hstate)"
proof -
  have inv: "auditor_invar example_env (aud example_hstate)"
    by (simp add: example_hstate_def example_auditor_invar)
  have mem: "hd example_layers \<in> set (layers example_env)" by (simp add: example_env_def example_layers_def)
  from MakeCapacity_never_succeeds[OF inv _ mem example_remaining, of 10 "tl example_layers" 1]
  show ?thesis by (simp add: example_env_def example_layers_def MB_def)
qed

text \<open>Prefetching a non-empty segment of an existing file of the last, shared layer into a new object of a
  memory layer on the server that owns its name succeeds and leaves the file as it is, but the object holds
  all bytes of the segment except the last one, which is replaced by a NUL byte.\<close>

theorem Prefetch_loses_last_byte:
  assumes "memory_invar e (memory_store (io h))" and "Layer_eq (pf_layer source) (last (layers e))"
    and "io_client_type (pf_layer source) = SHARED_POSIX_FILE" and "io_client_type (pf_layer destination) = SIMPLE_MEMORY"
    and "um_find (posix_path source) (files (shared_client (io h))) = Some c"
    and "0 \<le> seg_start (pf_segment source)" and "0 < PosixFile_GetSize source"
    and "seg_end (pf_segment source) \<le> int (length c)"
    and "PosixFile_GetSize destination = PosixFile_GetSize source"
    and "client_server e (pf_filename destination) = Inr me"
    and "dhm_lookup (data_map_d e) (data_map (memory_store (io h))) (pf_filename destination) = None"
  shows "\<exists>h'. Prefetch e me source destination h = Inr (SERVER_SUCCESS, h') \<and>
    shared_client (io h') = shared_client (io h) \<and>
    um_find (pf_filename destination) (shm (memory_store (io h')) me) =
      Some (take (nat (PosixFile_GetSize source - 1)) (drop (nat (seg_start (pf_segment source))) c) @ [CHR 0x00])"
  using Prefetch_to_memory[OF assms] by fastforce

theorem Prefetch_loses_last_byte_witness:
  "\<exists>h source destination h'. pf_segment source = \<lparr>seg_start = 1, seg_end = 3\<rparr> \<and>
     um_find (posix_path source) (files (shared_client (io h))) = Some ''wxyz'' \<and>
     Prefetch example_env 0 source destination h = Inr (SERVER_SUCCESS, h') \<and>
     um_find (pf_filename destination) (shm (memory_store (io h')) 0) = Some (''xy'' @ [CHR 0x00])"
proof -
  let ?src = "example_file\<lparr>pf_segment := \<lparr>seg_start = 1, seg_end = 3\<rparr>, pf_layer := last example_layers\<rparr>"
  let ?dst = "example_file\<lparr>pf_segment := \<lparr>seg_start = 0, seg_end = 2\<rparr>\<rparr>"
  let ?io = "io_init\<lparr>shared_client := (shared_client io_init)\<lparr>files := [(posix_path ?src, ''wxyz'')]\<rparr>\<rparr>"
  let ?h = "example_hstate\<lparr>io := ?io\<rparr>"
  have inv: "memory_invar example_env (memory_store (io ?h))"
    using io_init_invars(1)[OF example_env_wf] by (simp add: example_hstate_def)
  have found: "um_find (posix_path ?src) (files (shared_client (io ?h))) = Some ''wxyz''" by (simp add: um_find_def)
  have size: "PosixFile_GetSize ?src = 3" "PosixFile_GetSize ?dst = 3"
    by (simp_all add: PosixFile_GetSize_def Segment_GetSize_def)
  have "dhm_lookup (data_map_d example_env) (data_map (memory_store (io ?h))) (pf_filename ?dst) = None"
    by (simp add: io_init_def)
  moreover have "client_server example_env (pf_filename ?dst) = Inr 0"
    using example_file_accepted(1) by (simp add: memory_accepts_def)
  ultimately obtain h' where "Prefetch example_env 0 ?src ?dst ?h = Inr (SERVER_SUCCESS, h')"
    and "um_find (pf_filename ?dst) (shm (memory_store (io h')) 0) = Some (''xy'' @ [CHR 0x00])"
    using Prefetch_loses_last_byte[OF inv _ _ _ found, of ?dst 0] size
    by (auto simp: example_env_def example_layers_def example_file_def Layer_eq_def)
  with found show ?thesis by (intro exI[of _ ?h] exI[of _ ?src] exI[of _ ?dst] exI[of _ h']) simp
qed

end
