(* ===== verification/Max_Bw_DPE.thy ===== *)
theory Max_Bw_DPE
  imports Data_Manager
begin

text \<open>
  \<open>src/src/server/dpe/max_bw_dpe.cpp\<close>: the placement engine. For each hot segment it walks the hierarchy
  from the fastest layer and decides where to put the segment; the result is a list of moves, pairs of a
  source and a destination file with the score.

  \<^item> \<open>solve\<close> recurses along the chain of layers; \<open>nullptr\<close> is the empty chain.
  \<^item> \<open>PlaceDataInLayer\<close> updates the caller's \<open>original_index\<close> by reference: it is returned.
  \<^item> \<open>SplitInParts\<close> computes in \<open>int\<close>: conversions from \<open>long\<close> truncate to 32 bits, an overflowing \<open>int\<close>
    sum is \<open>Undefined\<close>.
\<close>

section \<open>Splitting\<close>

text \<open>C++ division and remainder by a positive divisor truncate toward zero.\<close>

definition c_div :: "int \<Rightarrow> int \<Rightarrow> int" where
  "c_div a b = sgn a * (\<bar>a\<bar> div b)"

definition c_mod :: "int \<Rightarrow> int \<Rightarrow> int" where
  "c_mod a b = a - b * c_div a b"

definition int32_result :: "int \<Rightarrow> int res" where
  "int32_result x = (if - (2 ^ 31) \<le> x \<and> x < 2 ^ 31 then Inr x else Inl (Undefined SignedOverflow))"

fun split_loop ::
  "env \<Rightarrow> nat \<Rightarrow> PosixFile \<Rightarrow> bool \<Rightarrow> nat \<Rightarrow> int \<Rightarrow> int \<Rightarrow> hstate \<Rightarrow> (PosixFile list \<times> hstate) res" where
  "split_loop e me file generateName 0 original_index left_size h = Inr ([], h)"
| "split_loop e me file generateName (Suc n) original_index left_size h =
     rbind (int32_result (original_index + (if left_size < SEGMENT_SIZE then left_size else SEGMENT_SIZE) - 1)) (\<lambda>end'.
     rbind (if generateName then rbind (GenerateBufferFilename e me h) (\<lambda>(name, h1). Inr (name, h1))
            else Inr (pf_filename file, h)) (\<lambda>(name, h1).
       let piece = file\<lparr>pf_segment := \<lparr>seg_start = original_index, seg_end = end'\<rparr>, pf_filename := name\<rparr>;
           original_index = (if generateName then original_index else to_int32 (end' + 1));
           left_size = to_int32 (left_size - PosixFile_GetSize piece)
       in rbind (split_loop e me file generateName n original_index left_size h1) (\<lambda>(pieces, h2).
            Inr (piece # pieces, h2))))"

definition split_parts :: "PosixFile \<Rightarrow> int" where
  "split_parts file =
     to_int32 (to_int32 (c_div (PosixFile_GetSize file) SEGMENT_SIZE) +
               (if c_mod (PosixFile_GetSize file) SEGMENT_SIZE = 0 then 0 else 1))"

definition SplitInParts :: "env \<Rightarrow> nat \<Rightarrow> PosixFile \<Rightarrow> bool \<Rightarrow> hstate \<Rightarrow> (PosixFile list \<times> hstate) res" where
  "SplitInParts e me file generateName h =
     split_loop e me file generateName (nat (split_parts file)) (to_int32 (seg_start (pf_segment file)))
       (to_int32 (PosixFile_GetSize file)) h"

section \<open>Placing a file in a layer\<close>

fun pair_pieces :: "PosixFile list \<Rightarrow> PosixFile list \<Rightarrow> (PosixFile \<times> PosixFile) list res" where
  "pair_pieces original [] = Inr []"
| "pair_pieces [] (b # bs) = Inl (Undefined OutOfRange)"
| "pair_pieces (x # xs) (b # bs) = rbind (pair_pieces xs bs) (\<lambda>ps. Inr ((x, b) # ps))"

definition PlaceDataInLayer ::
  "env \<Rightarrow> nat \<Rightarrow> PosixFile \<Rightarrow> Layer \<Rightarrow> int \<Rightarrow> hstate \<Rightarrow> ((PosixFile \<times> PosixFile) list \<times> int \<times> hstate) res" where
  "PlaceDataInLayer e me current_file layer original_index h =
     rbind (Layer_LAST (layers e)) (\<lambda>last_layer.
       let source = current_file;
           destination = source\<lparr>pf_layer := layer,
             pf_segment := \<lparr>seg_start = 0, seg_end = PosixFile_GetSize source - 1\<rparr>\<rparr>;
           source = source\<lparr>pf_segment := (pf_segment source)\<lparr>seg_start := original_index\<rparr>\<rparr>;
           source = source\<lparr>pf_segment := (pf_segment source)\<lparr>seg_end :=
             original_index + PosixFile_GetSize source - 1\<rparr>\<rparr>;
           original_index = seg_end (pf_segment source) + 1
       in rbind (SplitInParts e me source False h) (\<lambda>(original_pieces, h1).
          rbind (SplitInParts e me destination (Layer_eq (pf_layer current_file) last_layer) h1) (\<lambda>(buf_pieces, h2).
          rbind (pair_pieces original_pieces buf_pieces) (\<lambda>placements.
            Inr (placements, original_index, h2)))))"

section \<open>Solving\<close>

type_synonym placement = "PosixFile \<times> PosixFile \<times> real"

definition IsAllowed :: "real \<Rightarrow> real \<Rightarrow> real \<Rightarrow> bool" where
  "IsAllowed score min_score max_score \<longleftrightarrow> score > min_score"

definition DBL_MAX :: real where
  "DBL_MAX = (2 - 1 / 2 ^ 52) * 2 ^ 1023"

definition layer_min_score :: "score_map \<Rightarrow> real" where
  "layer_min_score m =
     (if length m > 1 then fst (last m) else if length m > 0 then fst (hd m) else - 1 * (DBL_MAX - 1))"

definition layer_max_score :: "score_map \<Rightarrow> real" where
  "layer_max_score m = (if length m > 0 then fst (hd m) else DBL_MAX)"

text \<open>The loop that adds up the space of colder data, walking back from \<open>end()\<close>.\<close>

fun space_scan :: "score_map \<Rightarrow> real \<Rightarrow> int \<Rightarrow> nat \<Rightarrow> int \<Rightarrow> int res" where
  "space_scan m score file_size 0 space_avail = Inr space_avail"
| "space_scan m score file_size (Suc i) space_avail =
     rbind (it_deref m (Suc i)) (\<lambda>x.
       if fst x < score \<and> space_avail < file_size
       then space_scan m score file_size i (space_avail + PosixFile_GetSize (snd (snd x)))
       else Inr space_avail)"

definition scored :: "real \<Rightarrow> (PosixFile \<times> PosixFile) list \<Rightarrow> placement list" where
  "scored score ps = map (\<lambda>p. (fst p, snd p, score)) ps"

definition find_layer_scores :: "nat \<Rightarrow> (nat \<times> score_map) list \<Rightarrow> score_map res" where
  "find_layer_scores i layerScore =
     (case om_find (<) i layerScore of None \<Rightarrow> Inl (Undefined EndDereference) | Some x \<Rightarrow> Inr (snd x))"

fun solve ::
  "env \<Rightarrow> nat \<Rightarrow> Segment \<times> SegmentScore \<times> PosixFile \<Rightarrow> (nat \<times> score_map) list \<Rightarrow> layer_ptr \<Rightarrow> int \<Rightarrow> hstate \<Rightarrow>
   (placement list \<times> hstate) res" where
  "solve e me segment_tuple layerScore [] original_index h = Inl (Undefined NullPointer)"
| "solve e me segment_tuple layerScore (layer # next') original_index h =
     rbind (remaining_capacity e me layer h) (\<lambda>(remaining, h0).
     let segment = fst segment_tuple; score_obj = fst (snd segment_tuple); score = GetScore score_obj;
         current_file = snd (snd segment_tuple)
     in rbind (find_layer_scores (layer_id layer) layerScore) (\<lambda>layerScoreMap.
        rbind (Layer_LAST (layers e)) (\<lambda>last_layer.
          if Layer_eq (pf_layer current_file) layer then Inr ([], h0)
          else if layer_id layer = layer_id last_layer then Inr ([], h0)
          else if remaining \<ge> real_of_int (Segment_GetSize segment)
          then rbind (PlaceDataInLayer e me current_file layer original_index h0) (\<lambda>(placements, _, h1).
                 Inr (scored score placements, h1))
          else if IsAllowed score (layer_min_score layerScoreMap) (layer_max_score layerScoreMap)
          then rbind (space_scan layerScoreMap score (PosixFile_GetSize current_file) (length layerScoreMap) \<lfloor>remaining\<rfloor>)
                 (\<lambda>space_avail.
                 if space_avail > 0
                 then if space_avail \<ge> PosixFile_GetSize current_file
                      then rbind (PlaceDataInLayer e me current_file layer original_index h0) (\<lambda>(placements, _, h1).
                             Inr (scored score placements, h1))
                      else
                        let pieces = Split current_file space_avail
                        in rbind (PlaceDataInLayer e me (pieces ! 0) layer original_index h0)
                             (\<lambda>(placements, original_index1, h1).
                           rbind (solve e me (pf_segment (pieces ! 1), score_obj, pieces ! 1) layerScore next'
                                    original_index1 h1) (\<lambda>(sub_problem, h2).
                             Inr (scored score placements @ sub_problem, h2)))
                 else Inr ([], h0))
          else solve e me segment_tuple layerScore next' original_index h0)))"

section \<open>Placing events\<close>

definition place_event ::
  "env \<Rightarrow> nat \<Rightarrow> (nat \<times> score_map) list \<Rightarrow> Event \<Rightarrow> placement list \<times> hstate \<Rightarrow> (placement list \<times> hstate) res" where
  "place_event e me layerScore event acc =
     (if event_type event \<noteq> FILE_CLOSE
      then rbind (new_posix_file e (ev_filename event) (ev_segment event) (layer_index event)) (\<lambda>file.
           rbind (FetchHeatMap e me file (aud (snd acc))) (\<lambda>heatMap.
             rfold (\<lambda>segment_tuple acc.
                 rbind (solve e me segment_tuple layerScore (layers e) 0 (snd acc)) (\<lambda>(placements, h).
                   Inr (fst acc @ placements, h))) heatMap acc))
      else Inr acc)"

definition place :: "env \<Rightarrow> nat \<Rightarrow> Event list \<Rightarrow> hstate \<Rightarrow> (placement list \<times> hstate) res" where
  "place e me events h =
     rbind (FetchLayerScores e me (aud h)) (\<lambda>layerScore. rfold (place_event e me layerScore) events ([], h))"

text \<open>\<open>DPEFactory::GetEngine\<close> knows one engine.\<close>

definition GetEngine ::
  "DataPlacementEngineType \<Rightarrow> env \<Rightarrow> nat \<Rightarrow> Event list \<Rightarrow> hstate \<Rightarrow> (placement list \<times> hstate) res" where
  "GetEngine t = (case t of MAX_BW \<Rightarrow> place)"

section \<open>The pieces of a split\<close>

text \<open>The sizes of the pieces, and the pieces laid out one after another.\<close>

fun part_sizes :: "nat \<Rightarrow> int \<Rightarrow> int list" where
  "part_sizes 0 left_size = []"
| "part_sizes (Suc n) left_size =
     (let s = (if left_size < SEGMENT_SIZE then left_size else SEGMENT_SIZE) in s # part_sizes n (left_size - s))"

fun lay_out :: "PosixFile \<Rightarrow> int \<Rightarrow> int list \<Rightarrow> PosixFile list" where
  "lay_out f i [] = []"
| "lay_out f i (s # ss) = f\<lparr>pf_segment := \<lparr>seg_start = i, seg_end = i + s - 1\<rparr>\<rparr> # lay_out f (i + s) ss"

definition parts_for :: "nat \<Rightarrow> int \<Rightarrow> bool" where
  "parts_for n size' \<longleftrightarrow> (if n = 0 then size' = 0 else (int n - 1) * SEGMENT_SIZE < size' \<and> size' \<le> int n * SEGMENT_SIZE)"

lemma SEGMENT_SIZE_bounds: "0 < SEGMENT_SIZE" "SEGMENT_SIZE < 2 ^ 31"
  by (simp_all add: SEGMENT_SIZE_def)

lemma parts_for_step:
  assumes "parts_for (Suc n) L"
  defines "s \<equiv> (if L < SEGMENT_SIZE then L else SEGMENT_SIZE)"
  shows "0 < s" and "s \<le> SEGMENT_SIZE" and "s \<le> L" and "parts_for n (L - s)"
proof -
  have L: "int n * SEGMENT_SIZE < L" "L \<le> int n * SEGMENT_SIZE + SEGMENT_SIZE"
    using assms(1) by (simp_all add: parts_for_def algebra_simps)
  moreover have "0 \<le> int n * SEGMENT_SIZE" using SEGMENT_SIZE_bounds(1) by simp
  ultimately have "0 < L" by linarith
  then show "0 < s" and "s \<le> SEGMENT_SIZE" and "s \<le> L"
    using SEGMENT_SIZE_bounds(1) by (auto simp: s_def)
  show "parts_for n (L - s)"
  proof (cases n)
    case 0
    then show ?thesis using L SEGMENT_SIZE_bounds(1) by (auto simp: parts_for_def s_def)
  next
    case (Suc k)
    then have "SEGMENT_SIZE \<le> int n * SEGMENT_SIZE" using SEGMENT_SIZE_bounds(1) by simp
    then have "s = SEGMENT_SIZE" using L(1) by (simp add: s_def)
    with L Suc show ?thesis by (simp add: parts_for_def algebra_simps)
  qed
qed

lemma part_sizes_ok:
  assumes "parts_for n L"
  shows "length (part_sizes n L) = n" and "sum_list (part_sizes n L) = L"
    and "s \<in> set (part_sizes n L) \<Longrightarrow> 0 < s \<and> s \<le> SEGMENT_SIZE"
proof -
  have "length (part_sizes n L) = n \<and> sum_list (part_sizes n L) = L \<and>
      (\<forall>s\<in>set (part_sizes n L). 0 < s \<and> s \<le> SEGMENT_SIZE)"
    using assms
  proof (induction n arbitrary: L)
    case (Suc n)
    note step = parts_for_step[OF Suc.prems]
    from Suc.IH[OF step(4)] step(1,2) show ?case by (simp add: Let_def)
  qed (simp add: parts_for_def)
  then show "length (part_sizes n L) = n" and "sum_list (part_sizes n L) = L"
    and "s \<in> set (part_sizes n L) \<Longrightarrow> 0 < s \<and> s \<le> SEGMENT_SIZE" by blast+
qed

lemma same_name [simp]: "f\<lparr>pf_segment := g, pf_filename := pf_filename f\<rparr> = f\<lparr>pf_segment := g\<rparr>"
  by (cases f) simp

lemma split_loop_original:
  assumes "parts_for n L" and "0 \<le> i" and "i + L \<le> 2 ^ 31" and "L < 2 ^ 31"
  shows "split_loop e me f False n i L h = Inr (lay_out f i (part_sizes n L), h)"
  using assms
proof (induction n arbitrary: i L)
  case (Suc n)
  define s where "s = (if L < SEGMENT_SIZE then L else SEGMENT_SIZE)"
  have s: "0 < s" "s \<le> L" "parts_for n (L - s)" using parts_for_step[OF Suc.prems(1)] by (simp_all add: s_def)
  have end': "int32_result (i + s - 1) = Inr (i + s - 1)"
    using s Suc.prems by (simp add: int32_result_def)
  have left: "to_int32 (L - s) = L - s" using s Suc.prems by (intro to_int32_id) auto
  have "split_loop e me f False n (to_int32 (i + s)) (L - s) h = Inr (lay_out f (i + s) (part_sizes n (L - s)), h)"
  proof (cases n)
    case 0
    then show ?thesis by simp
  next
    case (Suc k)
    then have "int k * SEGMENT_SIZE < L - s" using s(3) by (simp add: parts_for_def)
    moreover have "0 \<le> int k * SEGMENT_SIZE" using SEGMENT_SIZE_bounds(1) by simp
    ultimately have "0 < L - s" by linarith
    then have "to_int32 (i + s) = i + s" using s Suc.prems Suc.prems by (intro to_int32_id) auto
    with Suc.IH[OF s(3), of "i + s"] s Suc.prems show ?thesis by simp
  qed
  with end' left show ?case
    by (simp add: Let_def s_def[symmetric] PosixFile_GetSize_def Segment_GetSize_def)
qed simp

lemma split_loop_generated:
  assumes "env_wf e" and "parts_for n L" and "0 \<le> i" and "i + L \<le> 2 ^ 31" and "L < 2 ^ 31"
    and "file_id_seq h 0 + n < 2 ^ 64"
  shows "split_loop e me f True n i L h =
    Inr (map2 (\<lambda>k s. f\<lparr>pf_segment := \<lparr>seg_start = i, seg_end = i + s - 1\<rparr>, pf_filename := to_string k @ ''.hfetch''\<rparr>)
           [Suc (file_id_seq h 0)..<Suc (file_id_seq h 0 + n)] (part_sizes n L),
         h\<lparr>file_id_seq := (file_id_seq h)(0 := file_id_seq h 0 + n)\<rparr>)"
  using assms(2-6)
proof (induction n arbitrary: L h)
  case (Suc n)
  define s where "s = (if L < SEGMENT_SIZE then L else SEGMENT_SIZE)"
  have s: "0 < s" "s \<le> L" "parts_for n (L - s)" using parts_for_step[OF Suc.prems(1)] by (simp_all add: s_def)
  have end': "int32_result (i + s - 1) = Inr (i + s - 1)"
    using s Suc.prems by (simp add: int32_result_def)
  have left: "to_int32 (L - s) = L - s" using s Suc.prems by (intro to_int32_id) auto
  let ?h = "h\<lparr>file_id_seq := (file_id_seq h)(0 := Suc (file_id_seq h 0))\<rparr>"
  have gen: "GenerateBufferFilename e me h = Inr (to_string (Suc (file_id_seq h 0)) @ ''.hfetch'', ?h)"
    using Suc.prems(5) by (intro GenerateBufferFilename_run[OF assms(1)]) simp
  have "split_loop e me f True n i (L - s) ?h =
    Inr (map2 (\<lambda>k s. f\<lparr>pf_segment := \<lparr>seg_start = i, seg_end = i + s - 1\<rparr>, pf_filename := to_string k @ ''.hfetch''\<rparr>)
           [Suc (Suc (file_id_seq h 0))..<Suc (file_id_seq h 0 + Suc n)] (part_sizes n (L - s)),
         h\<lparr>file_id_seq := (file_id_seq h)(0 := file_id_seq h 0 + Suc n)\<rparr>)"
    using Suc.IH[OF s(3), of ?h] s Suc.prems by (simp add: fun_upd_def cong: if_cong del: upt_Suc)
  with end' left gen show ?case
    by (simp add: Let_def s_def[symmetric] PosixFile_GetSize_def Segment_GetSize_def upt_conv_Cons fun_upd_def
        del: upt_Suc)
qed simp

lemma split_parts_ok:
  assumes "0 < PosixFile_GetSize f" and "PosixFile_GetSize f < 2 ^ 31"
  shows "parts_for (nat (split_parts f)) (PosixFile_GetSize f)"
proof -
  let ?n = "PosixFile_GetSize f" and ?S = SEGMENT_SIZE
  have S: "?S = 2 ^ 24" by (simp add: SEGMENT_SIZE_def)
  have q: "c_div ?n ?S = ?n div ?S" and r: "c_mod ?n ?S = ?n mod ?S"
    using assms(1) by (simp_all add: c_div_def c_mod_def minus_mult_div_eq_mod)
  have "0 \<le> ?n div ?S" and "?n div ?S < 2 ^ 7" using assms by (simp_all add: S)
  then have parts: "split_parts f = ?n div ?S + (if ?n mod ?S = 0 then 0 else 1)"
    unfolding split_parts_def q r by (subst to_int32_id; simp)+
  define k where "k = ?n div ?S"
  define t where "t = ?n mod ?S"
  have "?n = ?S * k + t" and "0 \<le> t" and "t < ?S" and "0 \<le> k"
    using \<open>0 \<le> ?n div ?S\<close> by (simp_all add: k_def t_def S)
  then show ?thesis
    using assms(1) unfolding parts_for_def parts k_def[symmetric] t_def[symmetric]
    by (cases "t = 0") (auto simp: S algebra_simps nat_add_distrib)
qed

lemma SplitInParts_original:
  assumes "0 \<le> seg_start (pf_segment f)" and "seg_end (pf_segment f) < 2 ^ 31"
    and "0 < PosixFile_GetSize f" and "PosixFile_GetSize f < 2 ^ 31"
  shows "SplitInParts e me f False h =
    Inr (lay_out f (seg_start (pf_segment f)) (part_sizes (nat (split_parts f)) (PosixFile_GetSize f)), h)"
proof -
  have "to_int32 (seg_start (pf_segment f)) = seg_start (pf_segment f)"
    using assms by (intro to_int32_id) (auto simp: PosixFile_GetSize_def Segment_GetSize_def)
  moreover have "to_int32 (PosixFile_GetSize f) = PosixFile_GetSize f"
    using assms by (intro to_int32_id) auto
  moreover have "seg_start (pf_segment f) + PosixFile_GetSize f \<le> 2 ^ 31"
    using assms(2) by (simp add: PosixFile_GetSize_def Segment_GetSize_def)
  ultimately show ?thesis
    unfolding SplitInParts_def
    using split_loop_original[OF split_parts_ok[OF assms(3,4)] assms(1) _ assms(4)] by simp
qed

lemma SplitInParts_generated:
  assumes "env_wf e" and "seg_start (pf_segment f) = 0" and "0 < PosixFile_GetSize f" and "PosixFile_GetSize f < 2 ^ 31"
    and "file_id_seq h 0 + nat (split_parts f) < 2 ^ 64"
  shows "SplitInParts e me f True h =
    Inr (map2 (\<lambda>k s. f\<lparr>pf_segment := \<lparr>seg_start = 0, seg_end = s - 1\<rparr>, pf_filename := to_string k @ ''.hfetch''\<rparr>)
           [Suc (file_id_seq h 0)..<Suc (file_id_seq h 0 + nat (split_parts f))]
           (part_sizes (nat (split_parts f)) (PosixFile_GetSize f)),
         h\<lparr>file_id_seq := (file_id_seq h)(0 := file_id_seq h 0 + nat (split_parts f))\<rparr>)"
proof -
  have "to_int32 (PosixFile_GetSize f) = PosixFile_GetSize f" and "to_int32 0 = 0"
    using assms by (intro to_int32_id; simp)+
  then show ?thesis
    unfolding SplitInParts_def assms(2)
    using split_loop_generated[OF assms(1) split_parts_ok[OF assms(3,4)], of 0] assms(4,5)
    by (simp del: upt_Suc)
qed

text \<open>Pieces laid out from an offset tile the range they cover.\<close>

lemma lay_out_tiles:
  assumes "\<forall>s\<in>set ss. 0 < s"
  shows "(\<Union>p\<in>set (lay_out f i ss). seg_set (pf_segment p)) = {i ..< i + sum_list ss}"
  using assms
proof (induction ss arbitrary: i)
  case (Cons s ss)
  have "0 \<le> sum_list ss" using Cons.prems by (intro sum_list_nonneg) (auto simp: order_less_imp_le)
  moreover have "(\<Union>p\<in>set (lay_out f (i + s) ss). seg_set (pf_segment p)) = {i + s ..< i + s + sum_list ss}"
    using Cons by simp
  ultimately show ?case using Cons.prems by (auto simp: seg_set_def)
qed simp

lemma lay_out_sizes: "map PosixFile_GetSize (lay_out f i ss) = ss"
  by (induction ss arbitrary: i) (simp_all add: PosixFile_GetSize_def Segment_GetSize_def)

lemma lay_out_members:
  "\<forall>s\<in>set ss. 0 < s \<Longrightarrow> p \<in> set (lay_out f i ss) \<Longrightarrow>
    i \<le> seg_start (pf_segment p) \<and> pf_filename p = pf_filename f \<and> pf_layer p = pf_layer f"
proof (induction ss arbitrary: i)
  case (Cons s ss)
  show ?case
  proof (cases "p \<in> set (lay_out f (i + s) ss)")
    case True
    with Cons.IH[of "i + s"] Cons.prems(1) show ?thesis by force
  next
    case False
    with Cons.prems(2) show ?thesis by simp
  qed
qed simp

lemma lay_out_ordered:
  "\<forall>s\<in>set ss. 0 < s \<Longrightarrow>
    sorted_wrt (\<lambda>p q. seg_end (pf_segment p) < seg_start (pf_segment q)) (lay_out f i ss)"
proof (induction ss arbitrary: i)
  case (Cons s ss)
  then show ?case using lay_out_members[of ss _ f "i + s"] by fastforce
qed simp

lemma length_lay_out [simp]: "length (lay_out f i ss) = length ss"
  by (induction ss arbitrary: i) simp_all

lemma pair_pieces_zip: "length xs = length ys \<Longrightarrow> pair_pieces xs ys = Inr (zip xs ys)"
  by (induction xs ys rule: list_induct2) simp_all

section \<open>Placements\<close>

text \<open>What a list of moves of one file into new files of a layer guarantees.\<close>

definition placed :: "PosixFile \<Rightarrow> Layer \<Rightarrow> (PosixFile \<times> PosixFile) list \<Rightarrow> bool" where
  "placed f layer ps \<longleftrightarrow>
     (\<forall>p\<in>set ps. PosixFile_GetSize (fst p) = PosixFile_GetSize (snd p) \<and> 0 < PosixFile_GetSize (fst p) \<and>
        PosixFile_GetSize (fst p) \<le> SEGMENT_SIZE \<and> seg_start (pf_segment (snd p)) = 0 \<and>
        pf_layer (snd p) = layer \<and> pf_layer (fst p) = pf_layer f \<and> pf_filename (fst p) = pf_filename f) \<and>
     sorted_wrt (\<lambda>p q. seg_end (pf_segment (fst p)) < seg_start (pf_segment (fst q))) ps \<and>
     distinct (map (\<lambda>p. pf_filename (snd p)) ps)"

definition sources_set :: "(PosixFile \<times> PosixFile) list \<Rightarrow> int set" where
  "sources_set ps = (\<Union>p\<in>set ps. seg_set (pf_segment (fst p)))"

lemma seg_set_size:
  "seg_set (pf_segment f) = {seg_start (pf_segment f) ..< seg_start (pf_segment f) + PosixFile_GetSize f}"
  by (auto simp: seg_set_def PosixFile_GetSize_def Segment_GetSize_def)

lemma split_parts_le:
  assumes "0 < PosixFile_GetSize f" and "PosixFile_GetSize f < 2 ^ 31"
  shows "split_parts f \<le> PosixFile_GetSize f"
proof -
  let ?ss = "part_sizes (nat (split_parts f)) (PosixFile_GetSize f)"
  note ok = part_sizes_ok[OF split_parts_ok[OF assms]]
  have "int (length xs) \<le> sum_list xs" if "\<forall>x\<in>set xs. 0 < x" for xs :: "int list"
    using that by (induction xs) auto
  from this[of ?ss] have "int (length ?ss) \<le> PosixFile_GetSize f" using ok(2,3) by auto
  moreover have "int (length ?ss) = int (nat (split_parts f))" using ok(1) by simp
  ultimately show ?thesis by linarith
qed

lemma generated_placed:
  fixes g :: "nat \<Rightarrow> string" and f :: PosixFile and i :: int and layer :: Layer and a :: nat
  assumes "\<forall>s\<in>set ss. 0 < s \<and> s \<le> SEGMENT_SIZE" and "inj g"
  defines "ps \<equiv> zip (lay_out f i ss) (map2 (\<lambda>k s. f\<lparr>pf_layer := layer, pf_segment := \<lparr>seg_start = 0, seg_end = s - 1\<rparr>,
       pf_filename := g k\<rparr>) [a..<a + length ss] ss)"
  shows "placed f layer ps" and "sources_set ps = {i ..< i + sum_list ss}"
proof -
  let ?src = "lay_out f i ss"
  let ?dst = "map2 (\<lambda>k s. f\<lparr>pf_layer := layer, pf_segment := \<lparr>seg_start = 0, seg_end = s - 1\<rparr>,
       pf_filename := g k\<rparr>) [a..<a + length ss] ss"
  have len: "length ?src = length ss" "length ?dst = length ss" by simp_all
  have pos: "\<forall>s\<in>set ss. 0 < s" using assms(1) by blast
  have fsts: "map fst ps = ?src" and snds: "map snd ps = ?dst" unfolding ps_def using len by simp_all
  have each: "PosixFile_GetSize (fst p) = PosixFile_GetSize (snd p) \<and> 0 < PosixFile_GetSize (fst p) \<and>
        PosixFile_GetSize (fst p) \<le> SEGMENT_SIZE \<and> seg_start (pf_segment (snd p)) = 0 \<and>
        pf_layer (snd p) = layer \<and> pf_layer (fst p) = pf_layer f \<and> pf_filename (fst p) = pf_filename f"
    if p: "p \<in> set ps" for p
  proof -
    obtain k where k: "k < length ss" "fst p = ?src ! k" "snd p = ?dst ! k"
      using p unfolding ps_def by (auto simp: in_set_zip)
    have "PosixFile_GetSize (?src ! k) = ss ! k"
      using arg_cong[OF lay_out_sizes[of f i ss], of "\<lambda>xs. xs ! k"] k(1) by simp
    moreover have "ss ! k \<in> set ss" using k(1) by simp
    moreover have "fst p \<in> set ?src" using k by simp
    ultimately show ?thesis
      using lay_out_members[OF pos, of "fst p" f i] assms(1) k
      by (simp add: PosixFile_GetSize_def Segment_GetSize_def)
  qed
  have "sorted_wrt (\<lambda>p q. seg_end (pf_segment p) < seg_start (pf_segment q)) (map fst ps)"
    unfolding fsts by (rule lay_out_ordered[OF pos])
  moreover have "map pf_filename (map snd ps) = map g [a..<a + length ss]"
    unfolding snds by (rule nth_equalityI) simp_all
  then have "distinct (map (\<lambda>p. pf_filename (snd p)) ps)"
    using assms(2) by (simp add: comp_def distinct_map inj_on_def inj_def)
  ultimately show "placed f layer ps" using each unfolding placed_def sorted_wrt_map by blast
  show "sources_set ps = {i ..< i + sum_list ss}"
    using lay_out_tiles[OF pos, of f i] unfolding fsts[symmetric] by (simp add: sources_set_def)
qed

lemma PlaceDataInLayer_ok:
  assumes "env_wf e" and "Layer_eq (pf_layer f) (last (layers e))"
    and "0 \<le> seg_start (pf_segment f)" and "seg_end (pf_segment f) < 2 ^ 31"
    and "0 < PosixFile_GetSize f" and "PosixFile_GetSize f < 2 ^ 31"
    and "int (file_id_seq h 0) + PosixFile_GetSize f < 2 ^ 64"
  shows "\<exists>ps h'. PlaceDataInLayer e me f layer (seg_start (pf_segment f)) h =
      Inr (ps, seg_end (pf_segment f) + 1, h') \<and>
    placed f layer ps \<and> sources_set ps = seg_set (pf_segment f) \<and> io h' = io h \<and> aud h' = aud h \<and>
    int (file_id_seq h' 0) \<le> int (file_id_seq h 0) + PosixFile_GetSize f"
proof -
  let ?i = "seg_start (pf_segment f)" and ?L = "PosixFile_GetSize f" and ?n = "nat (split_parts f)"
  let ?ss = "part_sizes ?n ?L"
  let ?d = "f\<lparr>pf_layer := layer, pf_segment := \<lparr>seg_start = 0, seg_end = ?L - 1\<rparr>\<rparr>"
  let ?g = "\<lambda>k. to_string k @ ''.hfetch''"
  note ss = part_sizes_ok[OF split_parts_ok[OF assms(5,6)]]
  have last: "Layer_LAST (layers e) = Inr (last (layers e))"
    using assms(1) by (auto simp: Layer_LAST_def env_wf_def layers_wf_def)
  have src: "f\<lparr>pf_segment := (pf_segment f)\<lparr>seg_start := ?i\<rparr>\<rparr> = f" by (cases f) simp
  have src': "f\<lparr>pf_segment := (pf_segment f)\<lparr>seg_end := ?i + ?L - 1\<rparr>\<rparr> = f"
    by (cases f) (simp add: PosixFile_GetSize_def Segment_GetSize_def)
  have next_index: "?i + ?L = seg_end (pf_segment f) + 1"
    by (simp add: PosixFile_GetSize_def Segment_GetSize_def)
  have dL: "PosixFile_GetSize ?d = ?L" "split_parts ?d = split_parts f"
    by (simp_all add: split_parts_def PosixFile_GetSize_def Segment_GetSize_def)
  have n: "file_id_seq h 0 + nat (split_parts ?d) < 2 ^ 64"
  proof -
    have "int (file_id_seq h 0 + nat (split_parts f)) < int (2 ^ 64)"
      using split_parts_le[OF assms(5,6)] assms(5,7) by simp
    then show ?thesis unfolding dL(2) of_nat_less_iff .
  qed
  have gen: "SplitInParts e me ?d True h = Inr (map2 (\<lambda>k s. f\<lparr>pf_layer := layer,
      pf_segment := \<lparr>seg_start = 0, seg_end = s - 1\<rparr>, pf_filename := ?g k\<rparr>)
      [Suc (file_id_seq h 0)..<Suc (file_id_seq h 0) + length ?ss] ?ss,
      h\<lparr>file_id_seq := (file_id_seq h)(0 := file_id_seq h 0 + ?n)\<rparr>)"
    using SplitInParts_generated[OF assms(1), of ?d h me] assms(5,6) n
    by (simp add: dL ss(1) del: upt_Suc)
  let ?ps = "zip (lay_out f ?i ?ss) (map2 (\<lambda>k s. f\<lparr>pf_layer := layer,
      pf_segment := \<lparr>seg_start = 0, seg_end = s - 1\<rparr>, pf_filename := ?g k\<rparr>)
      [Suc (file_id_seq h 0)..<Suc (file_id_seq h 0) + length ?ss] ?ss)"
  let ?h = "h\<lparr>file_id_seq := (file_id_seq h)(0 := file_id_seq h 0 + ?n)\<rparr>"
  have "PlaceDataInLayer e me f layer ?i h = Inr (?ps, seg_end (pf_segment f) + 1, ?h)"
    using last assms(2) SplitInParts_original[OF assms(3-6), of e me h] gen
    by (simp add: PlaceDataInLayer_def Let_def src src' pair_pieces_zip next_index del: upt_Suc)
  moreover have "inj ?g" by (simp add: inj_def to_string_inj)
  then have "placed f layer ?ps" and "sources_set ?ps = {?i ..< ?i + sum_list ?ss}"
    using generated_placed[where ss = ?ss and g = ?g and f = f and i = ?i and layer = layer
        and a = "Suc (file_id_seq h 0)"] ss(3) by blast+
  moreover have "{?i ..< ?i + sum_list ?ss} = seg_set (pf_segment f)"
    unfolding ss(2) seg_set_size ..
  moreover have "int (file_id_seq ?h 0) \<le> int (file_id_seq h 0) + ?L"
    using split_parts_le[OF assms(5,6)] assms(5) by simp
  ultimately show ?thesis by (intro exI[of _ ?ps] exI[of _ ?h]) simp
qed

section \<open>Solving on an empty hierarchy\<close>

text \<open>The moves of a file with their score: the sources are the first \<open>k\<close> bytes of the file, in order.\<close>

definition prefix_placed :: "env \<Rightarrow> PosixFile \<Rightarrow> real \<Rightarrow> int \<Rightarrow> placement list \<Rightarrow> bool" where
  "prefix_placed e f score k ps \<longleftrightarrow>
     (\<forall>p\<in>set ps. PosixFile_GetSize (fst p) = PosixFile_GetSize (fst (snd p)) \<and> 0 < PosixFile_GetSize (fst p) \<and>
        PosixFile_GetSize (fst p) \<le> SEGMENT_SIZE \<and> pf_layer (fst (snd p)) \<in> set (layers e) \<and>
        pf_layer (fst p) = pf_layer f \<and> pf_filename (fst p) = pf_filename f \<and> snd (snd p) = score) \<and>
     sorted_wrt (\<lambda>p q. seg_end (pf_segment (fst p)) < seg_start (pf_segment (fst q))) ps \<and>
     (\<Union>p\<in>set ps. seg_set (pf_segment (fst p))) = {seg_start (pf_segment f) ..< seg_start (pf_segment f) + k}"

lemma prefix_placed_Nil: "prefix_placed e f score 0 []"
  by (simp add: prefix_placed_def)

lemma prefix_placed_scored:
  assumes "placed f layer ps" and "sources_set ps = {seg_start (pf_segment f) ..< seg_start (pf_segment f) + k}"
    and "layer \<in> set (layers e)"
  shows "prefix_placed e f score k (scored score ps)"
  using assms by (auto simp: prefix_placed_def placed_def scored_def sources_set_def sorted_wrt_map)

lemma prefix_placed_bounds:
  assumes "prefix_placed e f score k ps" and "p \<in> set ps"
  shows "seg_start (pf_segment f) \<le> seg_start (pf_segment (fst p))"
    and "seg_end (pf_segment (fst p)) < seg_start (pf_segment f) + k"
proof -
  let ?g = "pf_segment (fst p)"
  have ne: "seg_start ?g \<le> seg_end ?g"
    using assms by (auto simp: prefix_placed_def PosixFile_GetSize_def Segment_GetSize_def)
  have "seg_set ?g \<subseteq> {seg_start (pf_segment f) ..< seg_start (pf_segment f) + k}"
    using assms unfolding prefix_placed_def by blast
  with ne show "seg_start (pf_segment f) \<le> seg_start ?g" and "seg_end ?g < seg_start (pf_segment f) + k"
    unfolding seg_set_def by (auto simp: subset_iff)
qed

lemma prefix_placed_append:
  assumes "prefix_placed e f score k ps" and "prefix_placed e g score l qs" and "0 \<le> k" and "0 \<le> l"
    and "seg_start (pf_segment g) = seg_start (pf_segment f) + k" and "pf_layer g = pf_layer f"
    and "pf_filename g = pf_filename f"
  shows "prefix_placed e f score (k + l) (ps @ qs)"
proof -
  let ?a = "seg_start (pf_segment f)"
  have "\<forall>p\<in>set ps. \<forall>q\<in>set qs. seg_end (pf_segment (fst p)) < seg_start (pf_segment (fst q))"
    using prefix_placed_bounds(2)[OF assms(1)] prefix_placed_bounds(1)[OF assms(2)] assms(5) by fastforce
  moreover have "{?a ..< ?a + k} \<union> {?a + k ..< ?a + k + l} = {?a ..< ?a + (k + l)}" using assms(3,4) by auto
  ultimately show ?thesis
    using assms(1,2,5-7) unfolding prefix_placed_def set_append Un_iff sorted_wrt_append UN_Un by auto
qed

lemma chain_next:
  assumes "last (l # ls) = last (layers e)" and "layer_id l \<noteq> layer_id (last (layers e))"
  shows "ls \<noteq> []" and "last ls = last (layers e)"
  using assms by (auto split: if_splits)

lemma prefix_placed_same:
  "prefix_placed e p score k ps \<Longrightarrow> seg_start (pf_segment p) = seg_start (pf_segment f) \<Longrightarrow> pf_layer p = pf_layer f \<Longrightarrow>
    pf_filename p = pf_filename f \<Longrightarrow> prefix_placed e f score k ps"
  unfolding prefix_placed_def by metis

text \<open>The room the layers report, from the fastest to the last but one, and how many bytes of a segment of size \<open>L\<close> are
  placed in them: each layer takes what it has room for, and the search ends at the first layer that has no room at
  all, even if a slower one has.\<close>

fun capacities :: "env \<Rightarrow> nat \<Rightarrow> layer_ptr \<Rightarrow> hstate \<Rightarrow> real list res" where
  "capacities e me [] h = Inr []"
| "capacities e me (l # ls) h =
     rbind (remaining_capacity e me l h) (\<lambda>(r, h'). rbind (capacities e me ls h') (\<lambda>rs. Inr (r # rs)))"

fun fill :: "real list \<Rightarrow> int \<Rightarrow> int" where
  "fill [] L = 0"
| "fill (r # rs) L = (if real_of_int L \<le> r then L else if 0 < \<lfloor>r\<rfloor> then \<lfloor>r\<rfloor> + fill rs (L - \<lfloor>r\<rfloor>) else 0)"

lemma fill_bounds: "0 < L \<Longrightarrow> 0 \<le> fill rs L \<and> fill rs L \<le> L"
proof (induction rs arbitrary: L)
  case (Cons r rs)
  show ?case
  proof (cases "L \<le> r \<or> \<not> 0 < \<lfloor>r\<rfloor>")
    case False
    then have "0 < L - \<lfloor>r\<rfloor>" by linarith
    from Cons.IH[OF this] False show ?thesis by simp
  qed (use Cons.prems in auto)
qed simp

lemma capacities_total:
  "io_invar e (io h) \<Longrightarrow> me < env_servers e \<Longrightarrow> \<exists>rs. capacities e me ls h = Inr rs \<and> (\<forall>r\<in>set rs. 0 \<le> r)"
proof (induction ls arbitrary: h)
  case (Cons l ls)
  obtain r s where r: "remaining_capacity e me l h = Inr (r, h\<lparr>io := s\<rparr>)" "0 \<le> r" "io_invar e s"
    using remaining_capacity_ok[OF Cons.prems] by blast
  from Cons.IH[of "h\<lparr>io := s\<rparr>"] r Cons.prems(2) show ?case by auto
qed simp

lemma capacities_io: "io h = io h1 \<Longrightarrow> capacities e me ls h = capacities e me ls h1"
proof (induction ls arbitrary: h h1)
  case (Cons l ls)
  show ?case
  proof (cases "client_GetCurrentUsage e me (io_client_type l) l (io h1)")
    case (Inr p)
    obtain u s where "p = (u, s)" by (cases p)
    then show ?thesis
      using Cons.prems Inr Cons.IH[of "h\<lparr>io := s\<rparr>" "h1\<lparr>io := s\<rparr>"] by (simp add: remaining_capacity_def Let_def)
  qed (use Cons.prems in \<open>simp add: remaining_capacity_def\<close>)
qed simp

lemma solve_on_empty:
  assumes "io_invar e (io h)" and "me < env_servers e" and "\<forall>l\<in>set ls. find_layer_scores (layer_id l) scores = Inr []"
    and "ls \<noteq> []" and "set ls \<subseteq> set (layers e)" and "last ls = last (layers e)"
    and "Layer_eq (pf_layer f) (last (layers e))" and "0 \<le> seg_start (pf_segment f)"
    and "seg_end (pf_segment f) < 2 ^ 31" and "0 < PosixFile_GetSize f" and "PosixFile_GetSize f < 2 ^ 31"
    and "int (file_id_seq h 0) + PosixFile_GetSize f < 2 ^ 64"
    and "\<forall>l\<in>set (butlast ls). layer_id l \<noteq> layer_id (last (layers e))" and "1 - DBL_MAX < GetScore sc"
  shows "\<exists>ps h' rs. solve e me (pf_segment f, sc, f) scores ls (seg_start (pf_segment f)) h = Inr (ps, h') \<and>
    capacities e me (butlast ls) h = Inr rs \<and> prefix_placed e f (GetScore sc) (fill rs (PosixFile_GetSize f)) ps"
  using assms
proof (induction ls arbitrary: f h)
  case (Cons l ls)
  let ?L = "PosixFile_GetSize f" and ?i = "seg_start (pf_segment f)"
  have wf: "env_wf e" by (rule io_invar_env[OF Cons.prems(1)])
  then have last: "Layer_LAST (layers e) = Inr (last (layers e))"
    by (auto simp: Layer_LAST_def env_wf_def layers_wf_def)
  obtain r s where r: "remaining_capacity e me l h = Inr (r, h\<lparr>io := s\<rparr>)" "0 \<le> r" "io_invar e s"
    using remaining_capacity_ok[OF Cons.prems(1,2)] by blast
  let ?h = "h\<lparr>io := s\<rparr>"
  have found: "find_layer_scores (layer_id l) scores = Inr []" using Cons.prems(3) by simp
  have allowed: "IsAllowed (GetScore sc) (layer_min_score []) (layer_max_score [])"
    using Cons.prems(14) by (simp add: IsAllowed_def layer_min_score_def)
  show ?case
  proof (cases "ls = []")
    case True
    then have "layer_id l = layer_id (last (layers e))" using Cons.prems(6) by simp
    then show ?thesis using r(1) last found True by (simp add: prefix_placed_Nil Let_def)
  next
    case ls: False
    then have l: "layer_id l \<noteq> layer_id (last (layers e))" "\<not> Layer_eq (pf_layer f) l"
      using Cons.prems(7,13) by (simp_all add: Layer_eq_def)
    have below: "\<forall>l\<in>set (butlast ls). layer_id l \<noteq> layer_id (last (layers e))" using Cons.prems(13) ls by simp
    note tail = chain_next[OF Cons.prems(6) l(1)]
    obtain rs0 where "capacities e me (butlast ls) ?h = Inr rs0"
      using capacities_total[of e ?h me "butlast ls"] r(3) Cons.prems(2) by auto
    moreover from this have caps: "capacities e me (butlast (l # ls)) h = Inr (r # rs0)" using r(1) ls by simp
    consider (fits) "real_of_int ?L \<le> r" | (split) "r < real_of_int ?L" "0 < \<lfloor>r\<rfloor>"
      | (full) "r < real_of_int ?L" "\<not> 0 < \<lfloor>r\<rfloor>" by linarith
    then show ?thesis
    proof cases
      case fits
      obtain ps h' where "PlaceDataInLayer e me f l ?i ?h = Inr (ps, seg_end (pf_segment f) + 1, h')"
        "placed f l ps" "sources_set ps = seg_set (pf_segment f)"
        using PlaceDataInLayer_ok[OF wf Cons.prems(7-11), of ?h me l] Cons.prems(12) by auto
      moreover from this have "prefix_placed e f (GetScore sc) ?L (scored (GetScore sc) ps)"
        using Cons.prems(5) by (intro prefix_placed_scored[where layer = l]) (auto simp: seg_set_size)
      ultimately show ?thesis
        using fits l r(1) last found caps
        by (intro exI[of _ "scored (GetScore sc) ps"] exI[of _ h'] exI[of _ "r # rs0"])
          (auto simp: PosixFile_GetSize_def Let_def)
    next
      case full
      then show ?thesis using l r(1) last found caps allowed
        by (intro exI[of _ "[]"] exI[of _ ?h] exI[of _ "r # rs0"])
          (auto simp: prefix_placed_Nil PosixFile_GetSize_def Let_def)
    next
      case split
      define k where kd: "k = \<lfloor>r\<rfloor>"
      let ?p = "Split f k ! 0" and ?q = "Split f k ! 1"
      have k: "0 < k" "k < ?L" using split unfolding kd by linarith+
      have p: "PosixFile_GetSize ?p = k" "seg_start (pf_segment ?p) = ?i" "pf_layer ?p = pf_layer f"
        "pf_filename ?p = pf_filename f" "seg_end (pf_segment ?p) = ?i + k - 1"
        and q: "PosixFile_GetSize ?q = ?L - k" "seg_start (pf_segment ?q) = ?i + k" "pf_layer ?q = pf_layer f"
        "pf_filename ?q = pf_filename f" "seg_end (pf_segment ?q) = seg_end (pf_segment f)"
        by (simp_all add: Split_def Let_def PosixFile_GetSize_def Segment_GetSize_def)
      have "?i + k - 1 < 2 ^ 31" using k Cons.prems(9) by (simp add: PosixFile_GetSize_def Segment_GetSize_def)
      then obtain ps h1 where ps: "PlaceDataInLayer e me ?p l ?i ?h = Inr (ps, ?i + k, h1)"
        "placed ?p l ps" "sources_set ps = seg_set (pf_segment ?p)" "io h1 = s"
        "int (file_id_seq h1 0) \<le> int (file_id_seq h 0) + k"
        using PlaceDataInLayer_ok[OF wf, of ?p ?h me l] Cons.prems(7,8,11,12) k p by auto
      have "prefix_placed e ?p (GetScore sc) k (scored (GetScore sc) ps)"
        using prefix_placed_scored[OF ps(2), of k e] ps(3) p Cons.prems(5) by (simp add: seg_set_size)
      then have first: "prefix_placed e f (GetScore sc) k (scored (GetScore sc) ps)"
        by (rule prefix_placed_same[OF _ p(2-4)])
      obtain qs h2 rs where qs: "solve e me (pf_segment ?q, sc, ?q) scores ls (?i + k) h1 = Inr (qs, h2)"
        "capacities e me (butlast ls) h1 = Inr rs" "prefix_placed e ?q (GetScore sc) (fill rs (?L - k)) qs"
        using Cons.IH[of h1 ?q] r(3) ps(4,5) Cons.prems(2-14) tail below k q by auto
      have rs: "rs = rs0"
        using capacities_io[of h1 ?h e me "butlast ls"] ps(4) qs(2) \<open>capacities e me (butlast ls) ?h = Inr rs0\<close> by simp
      have "prefix_placed e f (GetScore sc) (k + fill rs0 (?L - k)) (scored (GetScore sc) ps @ qs)"
        using prefix_placed_append[OF first qs(3)] fill_bounds[of "?L - k" rs] k q rs by simp
      then show ?thesis
        using split k l r(1) last found ps(1) qs caps allowed
        by (intro exI[of _ "scored (GetScore sc) ps @ qs"] exI[of _ h2] exI[of _ "r # rs0"])
          (simp add: Let_def kd[symmetric] PosixFile_GetSize_def)
    qed
  qed
qed simp

section \<open>Properties\<close>

text \<open>\<open>SplitInParts\<close> without new names cuts the segment of a file below 2 GiB into pieces of at most
  \<open>SEGMENT_SIZE\<close> bytes which lie in order, do not overlap and cover exactly the segment.\<close>

theorem SplitInParts_partition:
  assumes "0 \<le> seg_start (pf_segment f)" and "seg_end (pf_segment f) < 2 ^ 31"
    and "0 < PosixFile_GetSize f" and "PosixFile_GetSize f < 2 ^ 31"
  shows "\<exists>ps. SplitInParts e me f False h = Inr (ps, h) \<and>
    (\<Union>p\<in>set ps. seg_set (pf_segment p)) = seg_set (pf_segment f) \<and>
    sorted_wrt (\<lambda>p q. seg_end (pf_segment p) < seg_start (pf_segment q)) ps \<and>
    (\<forall>p\<in>set ps. 0 < PosixFile_GetSize p \<and> PosixFile_GetSize p \<le> SEGMENT_SIZE \<and>
       pf_filename p = pf_filename f \<and> pf_layer p = pf_layer f)"
proof -
  let ?i = "seg_start (pf_segment f)" and ?ss = "part_sizes (nat (split_parts f)) (PosixFile_GetSize f)"
  note ss = part_sizes_ok[OF split_parts_ok[OF assms(3,4)]]
  have pos: "\<forall>s\<in>set ?ss. 0 < s" using ss(3) by blast
  have "PosixFile_GetSize p \<in> set ?ss" if "p \<in> set (lay_out f ?i ?ss)" for p
    using imageI[OF that, of PosixFile_GetSize] unfolding set_map[symmetric] lay_out_sizes .
  then show ?thesis
    using SplitInParts_original[OF assms] lay_out_tiles[OF pos, of f ?i] lay_out_ordered[OF pos, of f ?i]
      lay_out_members[OF pos, of _ f ?i] ss(2,3)
    by (intro exI[of _ "lay_out f ?i ?ss"]) (auto simp: seg_set_size)
qed

definition big_file :: "int \<Rightarrow> PosixFile" where
  "big_file n = \<lparr>pf_filename = ''f'', pf_segment = \<lparr>seg_start = 0, seg_end = n - 1\<rparr>,
     pf_layer = last example_layers, pf_data = []\<rparr>"

lemma big_file_sel [simp]:
  "pf_segment (big_file n) = \<lparr>seg_start = 0, seg_end = n - 1\<rparr>" "PosixFile_GetSize (big_file n) = n"
  "pf_layer (big_file n) = last example_layers"
  by (simp_all add: big_file_def PosixFile_GetSize_def Segment_GetSize_def)

theorem SplitInParts_partition_witness:
  "\<exists>ps. SplitInParts example_env 0 (big_file 40000000) False example_hstate = Inr (ps, example_hstate) \<and>
    (\<Union>p\<in>set ps. seg_set (pf_segment p)) = {0..39999999}"
proof -
  obtain ps where "SplitInParts example_env 0 (big_file 40000000) False example_hstate = Inr (ps, example_hstate)"
    "(\<Union>p\<in>set ps. seg_set (pf_segment p)) = seg_set (pf_segment (big_file 40000000))"
    using SplitInParts_partition[of "big_file 40000000" example_env 0 example_hstate] by auto
  then show ?thesis by (simp add: seg_set_def)
qed

lemma split_loop_zero:
  assumes "pf_filename f = pf_filename g" and "pf_layer f = pf_layer g" and "pf_data f = pf_data g"
  shows "split_loop e me f False n 0 0 h =
    Inr (replicate n (g\<lparr>pf_segment := \<lparr>seg_start = 0, seg_end = - 1\<rparr>\<rparr>), h)"
  using assms
  by (induction n) (auto simp: int32_result_def SEGMENT_SIZE_def PosixFile_GetSize_def Segment_GetSize_def to_int32_def)

text \<open>For a file of 4 GiB the \<open>int\<close> that holds the remaining size is 0: the file is cut into 256 pieces,
  all of them empty.\<close>

theorem SplitInParts_4GiB_empty:
  assumes "seg_start (pf_segment f) = 0" and "PosixFile_GetSize f = 2 ^ 32"
  shows "SplitInParts e me f False h =
    Inr (replicate 256 (f\<lparr>pf_segment := \<lparr>seg_start = 0, seg_end = - 1\<rparr>\<rparr>), h)"
proof -
  have "split_parts f = 256"
    by (simp add: split_parts_def assms(2) c_div_def c_mod_def SEGMENT_SIZE_def to_int32_def)
  then show ?thesis
    using split_loop_zero[of f f e me 256 h]
    by (simp add: SplitInParts_def assms to_int32_def)
qed

theorem SplitInParts_4GiB_empty_witness:
  "SplitInParts example_env 0 (big_file (2 ^ 32)) False example_hstate =
     Inr (replicate 256 ((big_file (2 ^ 32))\<lparr>pf_segment := \<lparr>seg_start = 0, seg_end = - 1\<rparr>\<rparr>), example_hstate)"
  by (rule SplitInParts_4GiB_empty) simp_all


definition empty_scores :: "(nat \<times> score_map) list" where
  "empty_scores = map (\<lambda>l. (layer_id l, [])) example_layers"


lemma space_scan_from_end:
  "m \<noteq> [] \<Longrightarrow> space_scan m score n (length m) s = Inl (Undefined EndDereference)"
  by (cases "length m") (auto simp: it_deref_def)

text \<open>C40: when a layer has no room for the segment, its score map is not empty and the segment is hotter than
  the coldest data of the layer, the search for data to displace dereferences \<open>end()\<close> of the score map,
  whatever the layer holds.\<close>

theorem solve_displacing_faults:
  assumes "remaining_capacity e me l h = Inr (r, h0)" and "find_layer_scores (layer_id l) scores = Inr m"
    and "layers e \<noteq> []" and "m \<noteq> []" and "\<not> Layer_eq (pf_layer f) l"
    and "layer_id l \<noteq> layer_id (last (layers e))" and "r < real_of_int (Segment_GetSize seg)"
    and "layer_min_score m < GetScore sc"
  shows "solve e me (seg, sc, f) scores (l # ls) i h = Inl (Undefined EndDereference)"
  using assms by (simp add: Layer_LAST_def Let_def IsAllowed_def space_scan_from_end)

definition hot_score :: SegmentScore where
  "hot_score = \<lparr>frequency = 5, lrf = 5, score_type = DEFAULT_SCORE_TYPE\<rparr>"

definition used_scores :: "(nat \<times> score_map) list" where
  "used_scores = [(1, [(1, example_file, example_file)]), (2, [])]"

theorem solve_displacing_faults_witness:
  "solve example_env 0 (\<lparr>seg_start = 0, seg_end = 79999999\<rparr>, hot_score, big_file 80000000) used_scores
     example_layers 0 example_hstate = Inl (Undefined EndDereference)"
proof -
  have l: "example_layers = hd example_layers # tl example_layers" by (simp add: example_layers_def)
  have "solve example_env 0 (\<lparr>seg_start = 0, seg_end = 79999999\<rparr>, hot_score, big_file 80000000) used_scores
     (hd example_layers # tl example_layers) 0 example_hstate = Inl (Undefined EndDereference)"
    by (rule solve_displacing_faults[OF example_remaining, of _ "[(1, example_file, example_file)]"])
      (simp_all add: used_scores_def find_layer_scores_def equivalent_def example_layers_def example_env_def
        Layer_eq_def Segment_GetSize_def MB_def layer_min_score_def hot_score_def GetScore_def
        DEFAULT_SCORE_TYPE_def)
  then show ?thesis using l by simp
qed

lemma split_parts_one: "0 < PosixFile_GetSize f \<Longrightarrow> PosixFile_GetSize f \<le> SEGMENT_SIZE \<Longrightarrow> split_parts f = 1"
proof -
  assume "0 < PosixFile_GetSize f" and "PosixFile_GetSize f \<le> SEGMENT_SIZE"
  then consider "PosixFile_GetSize f = SEGMENT_SIZE" | "0 < PosixFile_GetSize f" "PosixFile_GetSize f < SEGMENT_SIZE"
    by linarith
  then show ?thesis
    by cases (simp_all add: split_parts_def c_div_def c_mod_def to_int32_def div_pos_pos_trivial SEGMENT_SIZE_def)
qed

lemma PlaceDataInLayer_one:
  assumes "env_wf e" and "Layer_eq (pf_layer f) (last (layers e))" and "0 \<le> seg_start (pf_segment f)"
    and "seg_start (pf_segment f) \<le> seg_end (pf_segment f)" and "seg_end (pf_segment f) < SEGMENT_SIZE"
    and "file_id_seq h 0 + 1 < 2 ^ 64"
  shows "PlaceDataInLayer e me f l 0 h =
    Inr ([(f\<lparr>pf_segment := \<lparr>seg_start = 0, seg_end = seg_end (pf_segment f)\<rparr>\<rparr>,
           f\<lparr>pf_layer := l, pf_segment := \<lparr>seg_start = 0, seg_end = PosixFile_GetSize f - 1\<rparr>,
             pf_filename := to_string (Suc (file_id_seq h 0)) @ ''.hfetch''\<rparr>)],
      seg_end (pf_segment f) + 1, h\<lparr>file_id_seq := (file_id_seq h)(0 := file_id_seq h 0 + 1)\<rparr>)"
proof -
  let ?n = "seg_end (pf_segment f)" and ?L = "PosixFile_GetSize f"
  let ?s = "f\<lparr>pf_segment := \<lparr>seg_start = 0, seg_end = ?n\<rparr>\<rparr>"
  let ?d = "f\<lparr>pf_layer := l, pf_segment := \<lparr>seg_start = 0, seg_end = ?L - 1\<rparr>\<rparr>"
  let ?t = "?d\<lparr>pf_filename := to_string (Suc (file_id_seq h 0)) @ ''.hfetch''\<rparr>"
  have last: "Layer_LAST (layers e) = Inr (last (layers e))"
    using assms(1) by (auto simp: Layer_LAST_def env_wf_def layers_wf_def)
  have sizes: "PosixFile_GetSize ?s = ?n + 1" "PosixFile_GetSize ?d = ?L" "0 < ?L" "?L \<le> SEGMENT_SIZE"
    using assms(3-5) by (simp_all add: PosixFile_GetSize_def Segment_GetSize_def)
  have one: "split_parts ?s = 1" "split_parts ?d = 1"
    using sizes assms(3-5) by (intro split_parts_one; simp)+
  have below: "?n + 1 \<le> SEGMENT_SIZE" using assms(5) by simp
  have orig: "SplitInParts e me ?s False h = Inr ([?s], h)"
    using SplitInParts_original[of ?s e me h] below sizes one assms(3-5) SEGMENT_SIZE_bounds by simp
  have gen: "SplitInParts e me ?d True h = Inr ([?t], h\<lparr>file_id_seq := (file_id_seq h)(0 := file_id_seq h 0 + 1)\<rparr>)"
    using SplitInParts_generated[OF assms(1), of ?d h me] sizes one assms(6) SEGMENT_SIZE_bounds by simp
  have src: "f\<lparr>pf_segment := (pf_segment f)\<lparr>seg_start := 0\<rparr>\<rparr> = ?s" by (cases f) simp
  show ?thesis
    using last assms(2) orig gen by (simp add: PlaceDataInLayer_def Let_def src sizes)
qed

text \<open>\<open>place\<close> calls \<open>solve\<close> with the original index 0 for every segment. Placing a segment that starts at
  an offset above 0 then pairs a destination of the size of the segment with a source that starts at
  offset 0 of the file and ends where the segment ends: source and destination differ in size.\<close>

theorem placement_of_inner_segment:
  assumes "env_wf e" and "Layer_eq (pf_layer f) (last (layers e))" and "0 < seg_start (pf_segment f)"
    and "seg_start (pf_segment f) \<le> seg_end (pf_segment f)" and "seg_end (pf_segment f) < SEGMENT_SIZE"
    and "file_id_seq h 0 + 1 < 2 ^ 64"
  shows "\<exists>source destination h'. PlaceDataInLayer e me f l 0 h =
      Inr ([(source, destination)], seg_end (pf_segment f) + 1, h') \<and>
    pf_segment source = \<lparr>seg_start = 0, seg_end = seg_end (pf_segment f)\<rparr> \<and>
    pf_segment destination = \<lparr>seg_start = 0, seg_end = PosixFile_GetSize f - 1\<rparr> \<and>
    PosixFile_GetSize destination < PosixFile_GetSize source"
  using PlaceDataInLayer_one[OF assms(1,2) _ assms(4-6), of me l] assms(3)
  by (simp add: PosixFile_GetSize_def Segment_GetSize_def)

theorem placement_of_inner_segment_witness:
  "\<exists>source destination h'. PlaceDataInLayer example_env 0
       ((big_file 100)\<lparr>pf_segment := \<lparr>seg_start = 40, seg_end = 99\<rparr>\<rparr>) (hd example_layers) 0 example_hstate =
     Inr ([(source, destination)], 100, h') \<and>
   pf_segment source = \<lparr>seg_start = 0, seg_end = 99\<rparr> \<and> pf_segment destination = \<lparr>seg_start = 0, seg_end = 59\<rparr>"
  using placement_of_inner_segment[OF example_env_wf,
      of "(big_file 100)\<lparr>pf_segment := \<lparr>seg_start = 40, seg_end = 99\<rparr>\<rparr>" example_hstate 0 "hd example_layers"]
  by (simp add: Layer_eq_def example_env_def SEGMENT_SIZE_def example_hstate_def GlobalSequence_init_def
      PosixFile_GetSize_def Segment_GetSize_def) blast

end
