(* ===== verification/Event_Manager.thy ===== *)
theory Event_Manager
  imports Max_Bw_DPE
begin

text \<open>
  \<open>src/src/server/event_manager.cpp\<close>: what a server does with a batch of events. The auditor records them,
  the placement engine proposes moves, each move is carried out, and buffers of files that nobody has open
  any more are deleted. The layer of a destination is passed to \<open>MakeCapacity\<close> with its \<open>next\<close> pointer.
\<close>

section \<open>Handling a batch\<close>

definition make_room :: "env \<Rightarrow> nat \<Rightarrow> PosixFile \<Rightarrow> real \<Rightarrow> hstate \<Rightarrow> hstate res" where
  "make_room e me destination score h =
     rbind (HasCapacity e me (PosixFile_GetSize destination) (pf_layer destination) h) (\<lambda>(has, h1).
       if has then Inr h1
       else rbind (MakeCapacity e me (layer_chain e (pf_layer destination)) (PosixFile_GetSize destination) score h1)
              (\<lambda>(_, h2). Inr h2))"

definition handle_placement :: "env \<Rightarrow> nat \<Rightarrow> placement \<Rightarrow> hstate \<Rightarrow> hstate res" where
  "handle_placement e me placement h =
     (let source = fst placement; destination = fst (snd placement); score = snd (snd placement)
      in rbind (make_room e me destination score h) (\<lambda>h1.
         rbind (Prefetch e me source destination h1) (\<lambda>(_, h2).
         rbind (UpdateOnMove e me source destination (aud h2)) (\<lambda>a. Inr (h2\<lparr>aud := a\<rparr>)))))"

definition delete_buffer :: "env \<Rightarrow> nat \<Rightarrow> Segment \<times> SegmentScore \<times> PosixFile \<Rightarrow> hstate \<Rightarrow> hstate res" where
  "delete_buffer e me segment_tuple h =
     (let buf_file = snd (snd segment_tuple)
      in rbind (Layer_LAST (layers e)) (\<lambda>last_layer.
           if \<not> Layer_eq (pf_layer buf_file) last_layer
           then rbind (client_Delete e me (io_client_type (pf_layer buf_file)) buf_file (io h)) (\<lambda>(_, io').
                  Inr (h\<lparr>io := io'\<rparr>))
           else Inr h))"

definition handle_close :: "env \<Rightarrow> nat \<Rightarrow> Event \<Rightarrow> hstate \<Rightarrow> hstate res" where
  "handle_close e me event h =
     (if event_type event = FILE_CLOSE
      then rbind (new_posix_file e (ev_filename event) (ev_segment event) (layer_index event)) (\<lambda>file.
           rbind (CheckIfFileActive e me file (aud h)) (\<lambda>isFileActive.
             if \<not> isFileActive
             then rbind (FetchHeatMap e me file (aud h)) (\<lambda>heatMap. rfold (delete_buffer e me) heatMap h)
             else Inr h))
      else Inr h)"

definition handle ::
  "DataPlacementEngineType \<Rightarrow> env \<Rightarrow> nat \<Rightarrow> Event list \<Rightarrow> hstate \<Rightarrow> (ServerStatus \<times> hstate) res" where
  "handle dpeType e me events h =
     rbind (Update e me events (aud h)) (\<lambda>a.
     rbind (GetEngine dpeType e me events (h\<lparr>aud := a\<rparr>)) (\<lambda>(placements, h1).
     rbind (rfold (handle_placement e me) placements h1) (\<lambda>h2.
     rbind (rfold (handle_close e me) events h2) (\<lambda>h3. Inr (SERVER_SUCCESS, h3)))))"

section \<open>The storage clients keep their invariants\<close>

lemma data_map_put_invar:
  "memory_invar e mc \<Longrightarrow> data_map_put e me name f mc = Inr mc' \<Longrightarrow> pf_filename f = name \<Longrightarrow> memory_invar e mc'"
  using data_map_put_run[of e mc f name me] by auto

lemma memory_create_invar:
  "memory_invar e mc \<Longrightarrow> memory_create e me source destination mc = Inr mc' \<Longrightarrow> memory_invar e mc'"
  by (auto simp: memory_create_def rbind_Inr_iff elim!: data_map_put_invar[rotated])

lemma memory_overwrite_invar:
  "memory_invar e mc \<Longrightarrow> memory_overwrite me source old mc = Inr mc' \<Longrightarrow> memory_invar e mc'"
  by (auto simp: memory_overwrite_def rbind_Inr_iff Let_def split: if_splits)

lemma memory_extend_invar:
  "memory_invar e mc \<Longrightarrow> memory_extend e me source destination old mc = Inr mc' \<Longrightarrow>
    pf_filename old = pf_filename destination \<Longrightarrow> memory_invar e mc'"
  by (auto simp: memory_extend_def rbind_Inr_iff Let_def split: if_splits elim!: data_map_put_invar[rotated])

lemma memory_write_invar:
  assumes "memory_invar e mc" and "memory_write_local e me source destination mc = Inr (st, mc')"
  shows "memory_invar e mc'"
proof (cases "dhm_lookup (data_map_d e) (data_map mc) (pf_filename destination)")
  case None
  with assms memory_create_invar[OF assms(1)] show ?thesis
    by (auto simp: memory_write_local_def memory_Get rbind_Inr_iff)
next
  case (Some old)
  then have "pf_filename old = pf_filename destination" using assms(1) by (simp add: memory_invar_def)
  with Some assms memory_create_invar[OF assms(1)] memory_overwrite_invar[OF assms(1)] memory_extend_invar[OF assms(1)]
  show ?thesis by (auto simp: memory_write_local_def memory_Get rbind_Inr_iff split: if_splits)
qed

lemma memory_delete_invar:
  assumes "memory_invar e mc" and "memory_delete_local e me f mc = Inr (st, mc')"
  shows "memory_invar e mc'"
proof (cases "dhm_lookup (data_map_d e) (data_map mc) (pf_filename f)")
  case None
  with assms show ?thesis by (simp add: memory_delete_local_def memory_Get)
next
  case (Some old)
  have inv: "dhm_invar (data_map_d e) (data_map mc)" using assms(1) by (simp add: memory_invar_def)
  have name: "pf_filename old = pf_filename f" using assms(1) Some by (simp add: memory_invar_def)
  have put: "memory_invar e mc''" if "data_map_put e me (pf_filename f)
      (old\<lparr>pf_segment := s\<rparr>) mc = Inr mc''" for s mc''
    using data_map_put_invar[OF assms(1) that] name by simp
  obtain m where m: "DHM_Erase (data_map_d e) me (pf_filename f) (data_map mc) = Inr (True, m)"
    "dhm_invar (data_map_d e) m"
    "dhm_lookup (data_map_d e) m = (dhm_lookup (data_map_d e) (data_map mc))(pf_filename f := None)"
    using dhm.erase_ok[OF inv, of me "pf_filename f"] Some by auto
  then have "memory_invar e (mc\<lparr>data_map := m\<rparr>)" using assms(1) by (simp add: memory_invar_def)
  with Some assms m(1) put show ?thesis
    by (auto simp: memory_delete_local_def memory_Get rbind_Inr_iff Let_def split: if_splits)
qed

lemma at_server_Inr:
  "at_server n funcs name nargs k me body = Inr r \<Longrightarrow> \<exists>s. body s = Inr r"
  by (cases "k = me")
    (auto simp: at_server_local at_server_remote RPC_call_def dispatch_call_def rbind_Inr_iff split: option.splits if_splits)

lemma mark_changed_invar:
  "file_invar e name fc \<Longrightarrow> mark_changed e name me l b fc = Inr fc' \<Longrightarrow> file_invar e name fc'"
  using mark_changed_ok[of e name fc me l b] by auto

lemma file_invar_files [simp]: "file_invar e name (fc\<lparr>files := fs\<rparr>) = file_invar e name fc"
  by (simp add: file_invar_def)

lemma file_write_invar:
  "file_invar e name fc \<Longrightarrow> SharedFileClient_Write e name me source destination fc = Inr (st, fc') \<Longrightarrow>
    file_invar e name fc'"
  by (auto simp: SharedFileClient_Write_def rbind_Inr_iff Let_def elim!: mark_changed_invar[rotated])

lemma file_delete_invar:
  assumes "file_invar e name fc" and "SharedFileClient_Delete e name me f fc = Inr (st, fc')"
  shows "file_invar e name fc'"
proof -
  obtain fc1 where fc1: "mark_changed e name me (pf_layer f) True fc = Inr fc1" "file_invar e name fc1"
    using mark_changed_ok[OF assms(1), of me "pf_layer f" True] by auto
  then have "(\<exists>fs. fc' = fc1\<lparr>files := fs\<rparr>) \<or>
      (\<exists>fs. mark_changed e name me (pf_layer f) True (fc1\<lparr>files := fs\<rparr>) = Inr fc')"
    using assms(2) unfolding SharedFileClient_Delete_def
    by (auto simp: rbind_Inr_iff Let_def split: option.splits if_splits)
  with fc1(2) show ?thesis by (metis file_invar_files mark_changed_invar)
qed

lemma client_Write_invar:
  assumes "io_invar e s" and "client_Write e me t source destination s = Inr (st, s')"
  shows "io_invar e s'"
proof (cases t)
  case SHARED_POSIX_FILE
  with assms show ?thesis
    by (auto simp: client_Write_def rbind_Inr_iff io_invar_def dest: file_write_invar)
next
  case LOCAL_POSIX_FILE
  obtain lc where lc: "LocalFileClient_Write e me source destination (local_file_client s) = Inr (st, lc)"
    "s' = s\<lparr>local_file_client := lc\<rparr>"
    using assms(2) LOCAL_POSIX_FILE by (auto simp: client_Write_def rbind_Inr_iff)
  obtain i fc where "SharedFileClient_Write e ''L_'' i source destination (local_view i (local_file_client s)) = Inr (st, fc)"
    "lc = local_update i fc (local_file_client s)"
    using lc(1) by (auto simp: LocalFileClient_Write_def rbind_Inr_iff dest!: at_server_Inr)
  with assms(1) lc(2) show ?thesis
    using file_write_invar[OF local_invar_view] by (auto simp: io_invar_def local_invar_update)
next
  case SIMPLE_MEMORY
  with assms show ?thesis
    by (auto simp: client_Write_def MemoryClient_Write_def rbind_Inr_iff io_invar_def
        dest!: at_server_Inr dest: memory_write_invar)
qed

lemma client_Delete_invar:
  assumes "io_invar e s" and "client_Delete e me t f s = Inr (st, s')"
  shows "io_invar e s'"
proof (cases t)
  case SHARED_POSIX_FILE
  with assms show ?thesis
    by (auto simp: client_Delete_def rbind_Inr_iff io_invar_def dest: file_delete_invar)
next
  case LOCAL_POSIX_FILE
  obtain lc where lc: "LocalFileClient_Delete e me f (local_file_client s) = Inr (st, lc)"
    "s' = s\<lparr>local_file_client := lc\<rparr>"
    using assms(2) LOCAL_POSIX_FILE by (auto simp: client_Delete_def rbind_Inr_iff)
  obtain i fc where "SharedFileClient_Delete e ''L_'' i f (local_view i (local_file_client s)) = Inr (st, fc)"
    "lc = local_update i fc (local_file_client s)"
    using lc(1) by (auto simp: LocalFileClient_Delete_def rbind_Inr_iff dest!: at_server_Inr)
  with assms(1) lc(2) show ?thesis
    using file_delete_invar[OF local_invar_view] by (auto simp: io_invar_def local_invar_update)
next
  case SIMPLE_MEMORY
  with assms show ?thesis
    by (auto simp: client_Delete_def MemoryClient_Delete_def rbind_Inr_iff io_invar_def
        dest!: at_server_Inr dest: memory_delete_invar)
qed

section \<open>The server invariant\<close>

definition server_invar :: "env \<Rightarrow> hstate \<Rightarrow> bool" where
  "server_invar e h \<longleftrightarrow> io_invar e (io h) \<and> auditor_invar e (aud h)"

lemma dm_Write_invar:
  "dm_Write e me source destination h = Inr (st, h') \<Longrightarrow> server_invar e h \<Longrightarrow> server_invar e h'"
  by (auto simp: server_invar_def dm_Write_def rbind_Inr_iff dest: client_Write_invar)

lemma dm_Delete_invar: "dm_Delete e me f h = Inr (st, h') \<Longrightarrow> server_invar e h \<Longrightarrow> server_invar e h'"
  by (auto simp: server_invar_def dm_Delete_def rbind_Inr_iff dest: client_Delete_invar)

lemma Move_invar:
  assumes "server_invar e h" and "Move e me source destination del h = Inr (st, h')"
  shows "server_invar e h'"
proof -
  have "h' = h \<or> (\<exists>d st. dm_Write e me d d h = Inr (st, h')) \<or>
      (\<exists>d st st' h1. dm_Write e me d d h = Inr (st, h1) \<and> dm_Delete e me source h1 = Inr (st', h'))"
    using assms(2) by (auto simp: Move_def rbind_Inr_iff split: if_splits)
  then show ?thesis using assms(1) dm_Write_invar dm_Delete_invar by blast
qed

lemma Prefetch_invar:
  "server_invar e h \<Longrightarrow> Prefetch e me source destination h = Inr (st, h') \<Longrightarrow> server_invar e h'"
  by (auto simp: Prefetch_def rbind_Inr_iff dest: Move_invar)

lemma UpdateOnMove_invar:
  "server_invar e h \<Longrightarrow> UpdateOnMove e me source destination (aud h) = Inr a \<Longrightarrow> server_invar e (h\<lparr>aud := a\<rparr>)"
  using UpdateOnMove_ok[of e "aud h" me source destination] by (auto simp: server_invar_def)

lemma remaining_capacity_invar:
  assumes "server_invar e h" and "me < env_servers e" and "remaining_capacity e me l h = Inr (r, h')"
  shows "server_invar e h'"
  using remaining_capacity_ok[of e h me l] assms by (auto simp: server_invar_def)

lemma HasCapacity_invar:
  "server_invar e h \<Longrightarrow> me < env_servers e \<Longrightarrow> HasCapacity e me n l h = Inr (b, h') \<Longrightarrow> server_invar e h'"
  by (auto simp: HasCapacity_def rbind_Inr_iff dest: remaining_capacity_invar)

lemma server_invar_seq [simp]: "server_invar e (h\<lparr>file_id_seq := s\<rparr>) = server_invar e h"
  by (simp add: server_invar_def)

lemma GenerateBufferFilename_invar:
  "server_invar e h \<Longrightarrow> GenerateBufferFilename e me h = Inr (n, h') \<Longrightarrow> server_invar e h'"
  by (auto simp: GenerateBufferFilename_def rbind_Inr_iff)

text \<open>\<open>MakeCapacity\<close> returns only without having changed anything.\<close>

lemma evict_scan_end:
  "evict_scan m score amount (length m) r t = Inr x \<Longrightarrow> m = []"
  using evict_scan_from_end[of m score amount r t] by auto

lemma MakeCapacity_same:
  "MakeCapacity e me ls n score h = Inr (st, h') \<Longrightarrow> h' = h"
  by (cases ls)
    (auto simp: rbind_Inr_iff it_next_def split: if_splits prod.splits dest!: evict_scan_end)

lemma make_room_invar:
  "server_invar e h \<Longrightarrow> me < env_servers e \<Longrightarrow> make_room e me destination score h = Inr h' \<Longrightarrow> server_invar e h'"
  by (auto simp: make_room_def rbind_Inr_iff split: if_splits dest: HasCapacity_invar MakeCapacity_same)

lemma handle_placement_invar:
  assumes "server_invar e h" and "me < env_servers e" and "handle_placement e me p h = Inr h'"
  shows "server_invar e h'"
proof -
  obtain h1 st h2 a where h1: "make_room e me (fst (snd p)) (snd (snd p)) h = Inr h1"
    and h2: "Prefetch e me (fst p) (fst (snd p)) h1 = Inr (st, h2)"
    and a: "UpdateOnMove e me (fst p) (fst (snd p)) (aud h2) = Inr a" "h' = h2\<lparr>aud := a\<rparr>"
    using assms(3) by (auto simp: handle_placement_def Let_def rbind_Inr_iff)
  show ?thesis
    unfolding a(2) by (rule UpdateOnMove_invar[OF Prefetch_invar[OF make_room_invar[OF assms(1,2) h1] h2] a(1)])
qed

lemma delete_buffer_invar:
  "server_invar e h \<Longrightarrow> delete_buffer e me t h = Inr h' \<Longrightarrow> server_invar e h'"
  by (auto simp: delete_buffer_def Let_def rbind_Inr_iff server_invar_def split: if_splits dest: client_Delete_invar)

lemma handle_close_invar:
  assumes "server_invar e h" and "handle_close e me ev h = Inr h'"
  shows "server_invar e h'"
proof -
  have "server_invar e h'" if "rfold (delete_buffer e me) hm h = Inr h'" for hm
    using rfold_invariant[where P = "server_invar e", OF that assms(1)] delete_buffer_invar by blast
  with assms show ?thesis by (auto simp: handle_close_def rbind_Inr_iff split: if_splits)
qed

text \<open>The placement engine changes only the cached usage of layers and the name sequence.\<close>

lemma split_loop_invar:
  "split_loop e me f gen n i left h = Inr (ps, h') \<Longrightarrow> server_invar e h \<Longrightarrow> server_invar e h'"
proof (induction n arbitrary: i left h ps)
  case (Suc n)
  obtain i' left' h1 ps' where "server_invar e h1" "split_loop e me f gen n i' left' h1 = Inr (ps', h')"
    using Suc.prems GenerateBufferFilename_invar[OF Suc.prems(2)]
    by (cases gen; simp add: rbind_Inr_iff Let_def split: prod.splits; blast)
  with Suc.IH show ?case by blast
qed simp

lemma PlaceDataInLayer_invar:
  assumes "server_invar e h" and "PlaceDataInLayer e me f l i h = Inr (ps, i', h')"
  shows "server_invar e h'"
proof -
  obtain f1 f2 gen ps1 ps2 h1 where "SplitInParts e me f1 False h = Inr (ps1, h1)"
    "SplitInParts e me f2 gen h1 = Inr (ps2, h')"
    using assms(2) by (auto simp: PlaceDataInLayer_def rbind_Inr_iff Let_def)
  with assms(1) show ?thesis using split_loop_invar unfolding SplitInParts_def by blast
qed

lemma solve_invar:
  assumes "me < env_servers e"
  shows "solve e me t scores ls i h = Inr (ps, h') \<Longrightarrow> server_invar e h \<Longrightarrow> server_invar e h'"
proof (induction ls arbitrary: t i h ps)
  case (Cons l ls)
  obtain r h0 where h0: "remaining_capacity e me l h = Inr (r, h0)" using Cons.prems(1) by (auto simp: rbind_Inr_iff)
  have inv: "server_invar e h0" by (rule remaining_capacity_invar[OF Cons.prems(2) assms h0])
  obtain seg sc f where t: "t = (seg, sc, f)" by (cases t)
  from Cons.prems(1) h0 have "h' = h0 \<or> (\<exists>f l i ps i'. PlaceDataInLayer e me f l i h0 = Inr (ps, i', h')) \<or>
      (\<exists>f l i ps i' h1 t qs. PlaceDataInLayer e me f l i h0 = Inr (ps, i', h1) \<and>
         solve e me t scores ls i' h1 = Inr (qs, h')) \<or>
      (\<exists>t i qs. solve e me t scores ls i h0 = Inr (qs, h'))"
    unfolding t by (auto simp: rbind_Inr_iff Let_def split: if_splits)
  then show ?case using inv PlaceDataInLayer_invar Cons.IH by blast
qed simp

lemma place_event_invar:
  assumes "me < env_servers e" and "place_event e me scores ev acc = Inr acc'" and "server_invar e (snd acc)"
  shows "server_invar e (snd acc')"
proof (cases "event_type ev = FILE_CLOSE")
  case False
  let ?f = "\<lambda>t acc. rbind (solve e me t scores (layers e) 0 (snd acc)) (\<lambda>(ps, h). Inr (fst acc @ ps, h))"
  obtain hm where "rfold ?f hm acc = Inr acc'"
    using assms(2) False by (auto simp: place_event_def rbind_Inr_iff)
  moreover have "server_invar e (snd y)" if "server_invar e (snd x)" "?f t x = Inr y" for t x y
    using that solve_invar[OF assms(1), of t scores "layers e" 0 "snd x"] by (auto simp: rbind_Inr_iff)
  ultimately show ?thesis
    using rfold_invariant[where P = "\<lambda>acc. server_invar e (snd acc)" and f = ?f] assms(3) by blast
qed (use assms in \<open>simp add: place_event_def\<close>)

lemma place_invar:
  assumes "me < env_servers e" and "place e me events h = Inr (ps, h')" and "server_invar e h"
  shows "server_invar e h'"
proof -
  obtain scores where "rfold (place_event e me scores) events ([], h) = Inr (ps, h')"
    using assms(2) by (auto simp: place_def rbind_Inr_iff)
  from rfold_invariant[where P = "\<lambda>acc. server_invar e (snd acc)", OF this] show ?thesis
    using assms(3) place_event_invar[OF assms(1)] by fastforce
qed

section \<open>Opening a new file\<close>

lemma om_find_present: "x \<in> set xs \<Longrightarrow> equivalent lt (fst x) k \<Longrightarrow> om_find lt k xs \<noteq> None"
  unfolding om_find_None_iff by blast

lemma FetchLayerScores_lookup:
  assumes "auditor_invar e a" and "me < env_servers e"
    and "dhm_lookup (layer_score_map_d e) (layer_score_map a) k = Some m"
  shows "\<exists>M. FetchLayerScores e me a = Inr M \<and> find_layer_scores k M = Inr m"
proof -
  let ?d = "layer_score_map_d e"
  have "dhm_invar ?d (layer_score_map a)" using assms(1) by (simp add: auditor_invar_def score_invar_def)
  moreover have "me < num_servers ?d" using assms(2) by (simp add: layer_score_map_d_def dist_of_def)
  ultimately obtain xs where xs: "DHM_GetAllData ?d me (layer_score_map a) = Inr xs" "distinct (map fst xs)"
    "map_of xs = dhm_lookup ?d (layer_score_map a)"
    using DHM_all_data by blast
  let ?M = "foldl (\<lambda>m x. om_insert (<) (fst x) (snd x) m) [] xs"
  have M: "set ?M = set xs" using foldl_om_insert_lookup[OF xs(2), of "[]"] by (simp add: om_sorted_def)
  have "(k, m) \<in> set ?M" using assms(3) xs(3) M by (metis map_of_SomeD)
  then have "om_find (<) k ?M \<noteq> None" by (rule om_find_present) (simp add: equivalent_def)
  then obtain x where x: "om_find (<) k ?M = Some x" by blast
  then have "x \<in> set xs" and "fst x = k" using om_find_Some_mem[OF x] M by (auto simp: equivalent_def)
  then have "map_of xs k = Some (snd x)" using xs(2) by (metis map_of_eq_Some_iff prod.collapse)
  with x xs assms(3) show ?thesis by (simp add: FetchLayerScores_def find_layer_scores_def)
qed

lemma concat_single:
  assumes "distinct xs" and "k \<in> set xs" and "f k = [y]" and "\<forall>x\<in>set xs. x \<noteq> k \<longrightarrow> f x = []"
  shows "concat (map f xs) = [y]"
  using assms by (induction xs) (auto simp: concat_eq_Nil_conv)

lemma all_data_single:
  assumes "env_wf e" and "i < max_num_files e" and "dm_invar Segment_less (offset_map_d e i) st"
    and "dm_set st = {x}" and "me < env_servers e"
  shows "concat (map st (dm_servers (offset_map_d e i) me)) = [x]"
proof -
  let ?d = "offset_map_d e i" and ?k = "owner (offset_map_d e i) (fst x)"
  have n: "num_servers ?d = env_servers e" by (simp add: offset_map_d_def dist_of_def)
  have mem: "set (st s) \<subseteq> {x}" for s using assms(4) by (auto simp: dm_set_def)
  have "x \<in> set (st ?k)" using dm_set_owner[OF assms(3), of x] assms(4) by simp
  moreover have "distinct (st ?k)" by (rule om_sorted_distinct) (use assms(3) in \<open>simp add: dm_invar_def\<close>)
  ultimately have "st ?k = [x]" using mem[of ?k] by (cases "st ?k"; cases "tl (st ?k)") auto
  moreover have "st s = []" if "s \<noteq> ?k" for s
  proof (rule ccontr)
    assume "st s \<noteq> []"
    then have "x \<in> set (st s)" using mem[of s] by (cases "st s") auto
    then have "?k = s" using assms(3) by (simp add: dm_invar_def)
    with that show False by simp
  qed
  moreover have "?k \<in> set (dm_servers ?d me)"
    using owner_less[OF env_wf_dists(5)[OF assms(1,2)], of "fst x"] set_dm_servers[of me ?d] assms(5) n by simp
  moreover have "distinct (dm_servers ?d me)" by (simp add: dm_servers_def)
  ultimately show ?thesis by (intro concat_single[where k = ?k]) auto
qed

lemma FetchHeatMap_single:
  assumes "auditor_invar e a" and "um_find (pf_filename file) (file_segment_map a me) = Some i"
    and "dm_set (offsetMaps a i) = {(k, (f, sc))}" and "me < env_servers e"
  shows "FetchHeatMap e me file a = Inr [(k, sc, f)]"
proof -
  note env = auditor_env[OF assms(1)] and i = auditor_index[OF assms(1,2)]
  have "concat (map (offsetMaps a i) (dm_servers (offset_map_d e i) me)) = [(k, (f, sc))]"
    by (rule all_data_single[OF env i auditor_store[OF assms(1) i] assms(3,4)])
  then show ?thesis
    using assms(2) by (simp add: FetchHeatMap_def DM_GetAllData_run[OF env_wf_dists(5)[OF env i]] sort_by_score_def)
qed

lemma UpdateOnMove_whole:
  assumes "auditor_invar e a" and "um_find (pf_filename source) (file_segment_map a me) = Some i"
    and "dm_set (offsetMaps a i) = {(k, v)}" and "pf_segment source = k" and "0 < Segment_GetSize k"
    and "me < env_servers e"
  shows "\<exists>a'. UpdateOnMove e me source destination a = Inr a' \<and> auditor_invar e a' \<and>
    (\<forall>off w. seg_val (offsetMaps a' i) off w \<longleftrightarrow> off \<in> seg_set k \<and> w = moved_info source destination k v) \<and>
    dm_set (offsetMaps a' i) = {(k, moved_info source destination k v)} \<and>
    valid_buffered_dataset a' = valid_buffered_dataset a"
proof -
  note env = auditor_env[OF assms(1)] and i = auditor_index[OF assms(1,2)]
  note inv = auditor_store[OF assms(1) i]
  have wf: "seg_store_wf (offset_map_d e i) (offsetMaps a i)"
    using inv assms(3,5) by (simp add: seg_store_wf_def seg_tiling_def)
  obtain xs where xs: "DM_Contains Segment_less Segment_Contains (offset_map_d e i) me (pf_segment source)
      (offsetMaps a i) = Inr xs" "set xs = {(k, v)}"
    using Contains_single[OF env i inv assms(3,6)] by blast
  obtain a' where run: "UpdateOnMove e me source destination a = Inr a'" "auditor_invar e a'"
    using UpdateOnMove_ok[OF assms(1)] by blast
  have loop: "rfold (move_element e i me source destination) xs a = Inr a'"
    using run(1) assms(2) xs(1) by (simp add: UpdateOnMove_def DM_Get_run[OF env_wf_dists(5)[OF env i]])
  have hit: "set xs = {x \<in> dm_set (offsetMaps a i). overlaps (fst x) (pf_segment source)}"
    using xs(2) assms(3-5) by (auto simp: overlaps_def seg_set_def Segment_GetSize_def)
  have "\<forall>x\<in>set xs. \<not> straddles_end (fst x) (pf_segment source)" using xs(2) assms(4) by (simp add: straddles_end_def)
  note ref = move.loop_refines[OF env i wf Contains_entries(1)[OF env i inv xs(1)] hit this loop]
  have old: "seg_val (offsetMaps a i) off w \<longleftrightarrow> off \<in> seg_set k \<and> w = v" for off w
    unfolding seg_val_def assms(3) by blast
  have "seg_val (offsetMaps a' i) off w \<longleftrightarrow> off \<in> seg_set k \<and> w = moved_info source destination k v" for off w
    unfolding ref(2) old assms(3,4) by auto
  moreover have "\<forall>x\<in>set xs. overlaps (fst x) (pf_segment source)" and "set xs \<subseteq> dm_set (offsetMaps a i)"
    using hit by simp_all
  note loop' = move.loop_pieces[OF env i wf Contains_entries(1)[OF env i inv xs(1)] this(2,1) loop]
  moreover have "dm_set (offsetMaps a' i) = {(k, moved_info source destination k v)}"
    using loop' xs(2) assms(3,4)
    by (simp add: seg_pieces_def Segment_Substract_def Segment_Intersect_def Let_def)
  moreover have "valid_buffered_dataset a' = valid_buffered_dataset a"
    using loop' by (auto simp: set_offset_map_def)
  ultimately show ?thesis using run by blast
qed

lemma CreateOffsetMap_frame: "CreateOffsetMap e me ev a = Inr a' \<Longrightarrow> layer_score_map a' = layer_score_map a"
  by (auto simp: CreateOffsetMap_def rbind_Inr_iff Let_def set_offset_map_def split: option.splits if_splits)

lemma MarkActive_frame: "MarkFileSegmentsActive e me ev a = Inr a' \<Longrightarrow> \<exists>m. a' = a\<lparr>file_active_status := m\<rparr>"
  by (auto simp: MarkFileSegmentsActive_def rbind_Inr_iff)

lemma Update_open:
  assumes inv: "auditor_invar e a" and l: "layer_index ev \<in> layer_id ` set (layers e)" and ty: "event_type ev = FILE_OPEN"
    and new: "um_find (ev_filename ev) (file_segment_map a me) = None"
      "dhm_lookup (valid_buffered_dataset_d e) (valid_buffered_dataset a) (ev_filename ev) = None"
    and slot: "dm_set (offsetMaps a ((file_seq a 0 + 1) mod 2 ^ 64 mod max_num_files e)) = {}"
    and seg: "0 < Segment_GetSize (ev_segment ev)"
  defines "i \<equiv> (file_seq a 0 + 1) mod 2 ^ 64 mod max_num_files e"
  shows "\<exists>a' f. Update e me [ev] a = Inr a' \<and> auditor_invar e a' \<and>
    new_posix_file e (ev_filename ev) (ev_segment ev) (layer_index ev) = Inr f \<and>
    um_find (ev_filename ev) (file_segment_map a' me) = Some i \<and>
    dm_set (offsetMaps a' i) = {(ev_segment ev, (f, SegmentScore_default))} \<and>
    layer_score_map a' = layer_score_map a \<and>
    dhm_lookup (valid_buffered_dataset_d e) (valid_buffered_dataset a') (ev_filename ev) = Some i"
proof -
  note env = auditor_env[OF inv]
  have i: "i < max_num_files e" using env by (simp add: i_def env_wf_def)
  obtain a1 st f where a1: "CreateOffsetMap e me ev a = Inr a1" "auditor_invar e a1"
    "new_posix_file e (ev_filename ev) (ev_segment ev) (layer_index ev) = Inr f"
    "segmap_put e i me (ev_segment ev) (f, SegmentScore_default) (offsetMaps a i) = Inr st"
    "offsetMaps a1 = (offsetMaps a)(i := st)" "um_find (ev_filename ev) (file_segment_map a1 me) = Some i"
    "dhm_lookup (valid_buffered_dataset_d e) (valid_buffered_dataset a1) (ev_filename ev) = Some i"
    using CreateOffsetMap_new[OF inv l new] unfolding i_def by blast
  obtain a2 where a2: "MarkFileSegmentsActive e me ev a1 = Inr a2" "auditor_invar e a2"
    using MarkActive_ok[OF a1(2) ty] by blast
  have "seg_store_wf (offset_map_d e i) (offsetMaps a i)"
    using auditor_store[OF inv i] slot by (simp add: seg_store_wf_def seg_tiling_def i_def)
  then have "dm_set st = {(ev_segment ev, (f, SegmentScore_default))}"
    using segmap_put_store[OF env i _ seg, of "offsetMaps a i" me "(f, SegmentScore_default)"] a1(4) slot
    by (auto simp: i_def)
  then show ?thesis
    using a1 a2 new(1) ty MarkActive_frame[OF a2(1)] CreateOffsetMap_frame[OF a1(1)]
    by (intro exI[of _ a2] exI[of _ f]) (auto simp: Update_def update_event_def)
qed

lemma memory_remaining:
  assumes "io_client_type l = SIMPLE_MEMORY" and "MemoryClient_GetCurrentUsage e me l (memory_store (io h)) = Inr u"
    and "u \<le> capacity_mb l * real MB"
  shows "remaining_capacity e me l h = Inr (capacity_mb l * real MB - u, h)"
  using assms by (simp add: remaining_capacity_def client_GetCurrentUsage_def Let_def)

lemma new_posix_file_last:
  assumes "layers_wf (layers e)"
  shows "new_posix_file e name seg (layer_id (last (layers e))) =
    Inr \<lparr>pf_filename = name, pf_segment = seg, pf_layer = (last (layers e))\<lparr>direct_io := None\<rparr>, pf_data = []\<rparr>"
  using assms Layer_of_id_mem[of "layers e" "last (layers e)"]
  by (simp add: new_posix_file_def Layer_LAST_def layers_wf_def)

lemma solve_first_fits:
  assumes "layers e = l # rest" and "remaining_capacity e me l h = Inr (r, h)"
    and "find_layer_scores (layer_id l) M = Inr m" and "layer_id l \<noteq> layer_id (last (layers e))"
    and "layer_id (pf_layer f) \<noteq> layer_id l" and "real_of_int (Segment_GetSize seg) \<le> r"
    and "PlaceDataInLayer e me f l 0 h = Inr (ps, i', h')"
  shows "solve e me (seg, sc, f) M (layers e) 0 h = Inr (scored (GetScore sc) ps, h')"
  using assms by (simp add: Layer_LAST_def Layer_eq_def Let_def)

definition buffer_name :: "nat \<Rightarrow> string" where
  "buffer_name k = to_string k @ ''.hfetch''"

text \<open>A placement of a file of the shared last layer into a free name of a memory layer with room.\<close>

lemma handle_placement_memory:
  assumes inv: "server_invar e h" and me: "me < env_servers e"
    and room: "remaining_capacity e me (pf_layer dst) h = Inr (r, h)" "real_of_int (PosixFile_GetSize dst) \<le> r"
    and src: "Layer_eq (pf_layer src) (last (layers e))" "io_client_type (pf_layer src) = SHARED_POSIX_FILE"
      "um_find (posix_path src) (files (shared_client (io h))) = Some c" "0 \<le> seg_start (pf_segment src)"
      "0 < PosixFile_GetSize src" "seg_end (pf_segment src) \<le> int (length c)"
    and dst: "io_client_type (pf_layer dst) = SIMPLE_MEMORY" "PosixFile_GetSize dst = PosixFile_GetSize src"
      "client_server e (pf_filename dst) = Inr me"
      "dhm_lookup (data_map_d e) (data_map (memory_store (io h))) (pf_filename dst) = None"
    and known: "um_find (pf_filename src) (file_segment_map (aud h) me) = Some i"
      "dm_set (offsetMaps (aud h) i) = {(pf_segment src, v)}"
  shows "\<exists>h'. handle_placement e me (src, dst, score) h = Inr h' \<and> shared_client (io h') = shared_client (io h) \<and>
    um_find (pf_filename dst) (shm (memory_store (io h')) me) =
      Some (take (nat (PosixFile_GetSize src - 1)) (drop (nat (seg_start (pf_segment src))) c) @ [CHR 0x00]) \<and>
    (\<forall>off w. seg_val (offsetMaps (aud h') i) off w \<longleftrightarrow>
       off \<in> seg_set (pf_segment src) \<and> w = moved_info src dst (pf_segment src) v) \<and>
    dm_set (offsetMaps (aud h') i) = {(pf_segment src, moved_info src dst (pf_segment src) v)} \<and>
    valid_buffered_dataset (aud h') = valid_buffered_dataset (aud h) \<and>
    dhm_lookup (data_map_d e) (data_map (memory_store (io h'))) (pf_filename dst) = Some (dst\<lparr>pf_data := []\<rparr>)"
proof -
  have mem: "memory_invar e (memory_store (io h))" and aud: "auditor_invar e (aud h)"
    using inv by (simp_all add: server_invar_def io_invar_def)
  have room': "make_room e me dst score h = Inr h"
    using room by (simp add: make_room_def HasCapacity_def)
  obtain mc where mc: "Prefetch e me src dst h = Inr (SERVER_SUCCESS, h\<lparr>io := (io h)\<lparr>memory_store := mc\<rparr>\<rparr>)"
    "um_find (pf_filename dst) (shm mc me) =
      Some (take (nat (PosixFile_GetSize src - 1)) (drop (nat (seg_start (pf_segment src))) c) @ [CHR 0x00])"
    "dhm_lookup (data_map_d e) (data_map mc) (pf_filename dst) = Some (dst\<lparr>pf_data := []\<rparr>)"
    using Prefetch_to_memory[OF mem src(1,2) dst(1) src(3-6) dst(2-4)] by blast
  have size: "0 < Segment_GetSize (pf_segment src)" using src(5) by (simp add: PosixFile_GetSize_def)
  obtain a where a: "UpdateOnMove e me src dst (aud h) = Inr a"
    "\<forall>off w. seg_val (offsetMaps a i) off w \<longleftrightarrow>
       off \<in> seg_set (pf_segment src) \<and> w = moved_info src dst (pf_segment src) v"
    "dm_set (offsetMaps a i) = {(pf_segment src, moved_info src dst (pf_segment src) v)}"
    "valid_buffered_dataset a = valid_buffered_dataset (aud h)"
    using UpdateOnMove_whole[OF aud known refl size me, of dst] by blast
  let ?h = "h\<lparr>io := (io h)\<lparr>memory_store := mc\<rparr>, aud := a\<rparr>"
  have "handle_placement e me (src, dst, score) h = Inr ?h"
    using room' mc(1) a(1) by (simp add: handle_placement_def)
  with mc(2,3) a(2-4) show ?thesis by (intro exI[of _ ?h]) simp
qed

section \<open>Properties\<close>

lemma handle_invar:
  assumes "server_invar e h" and "me < env_servers e" and "\<forall>ev\<in>set events. layer_index ev \<in> layer_id ` set (layers e)"
    and "handle t e me events h = Inr (st, h')"
  shows "st = SERVER_SUCCESS \<and> server_invar e h'"
proof -
  obtain a ps h1 h2 where a: "Update e me events (aud h) = Inr a" and h1: "place e me events (h\<lparr>aud := a\<rparr>) = Inr (ps, h1)"
    and h2: "rfold (handle_placement e me) ps h1 = Inr h2" and h': "rfold (handle_close e me) events h2 = Inr h'"
    and st: "st = SERVER_SUCCESS"
    using assms(4) by (cases t) (auto simp: handle_def GetEngine_def rbind_Inr_iff)
  have "server_invar e (h\<lparr>aud := a\<rparr>)"
    using assms(1) a Update_ok[of e "aud h" events me] names_layers[OF assms(3)] by (auto simp: server_invar_def)
  then have "server_invar e h1" by (rule place_invar[OF assms(2) h1])
  then have "server_invar e h2"
    using rfold_invariant[where P = "server_invar e", OF h2] handle_placement_invar[OF _ assms(2)] by blast
  then have "server_invar e h'"
    using rfold_invariant[where P = "server_invar e", OF h'] handle_close_invar by blast
  with st show ?thesis by simp
qed

text \<open>C13: whenever \<open>handle\<close> returns, it returns \<open>SERVER_SUCCESS\<close> and the server invariant holds again: the
  storage metadata is consistent, offset maps are ordered and owned, every layer has a sorted score map.\<close>

theorem handle_keeps_invar:
  assumes "server_invar e h" and "me < env_servers e" and "\<forall>ev\<in>set events. layer_index ev \<in> layer_id ` set (layers e)"
    and "handle t e me events h = Inr (st, h')"
  shows "st = SERVER_SUCCESS \<and> server_invar e h'"
  by (rule handle_invar[OF assms])

lemma example_server_invar: "server_invar example_env example_hstate"
  by (simp add: server_invar_def example_hstate_def io_invar_init[OF example_env_wf] example_auditor_invar)

lemma example_auditor_fields:
  "file_segment_map example_auditor = (\<lambda>_. [])" "valid_buffered_dataset example_auditor = DHM_init"
  "dm_set (offsetMaps example_auditor i) = {}" "file_seq example_auditor 0 = 0" "file_active_status example_auditor = DHM_init"
  "l \<in> set example_layers \<Longrightarrow>
    dhm_lookup (layer_score_map_d example_env) (layer_score_map example_auditor) (layer_id l) = Some []"
proof -
  obtain m where ex: "example_auditor = auditor_init\<lparr>layer_score_map := m\<rparr>"
    "\<forall>l\<in>set example_layers. dhm_lookup (layer_score_map_d example_env) m (layer_id l) = Some []"
    using FileSegmentAuditor_ok[OF example_env_wf, of 0] by (auto simp: example_auditor_def example_env_def)
  show "file_segment_map example_auditor = (\<lambda>_. [])" "valid_buffered_dataset example_auditor = DHM_init"
    "dm_set (offsetMaps example_auditor i) = {}" "file_seq example_auditor 0 = 0" "file_active_status example_auditor = DHM_init"
    "l \<in> set example_layers \<Longrightarrow>
      dhm_lookup (layer_score_map_d example_env) (layer_score_map example_auditor) (layer_id l) = Some []"
    by (simp_all add: ex auditor_init_def GlobalSequence_init_def seg_store_wf_init)
qed

definition close_event :: "int \<Rightarrow> Event" where
  "close_event t = (example_event FILE_CLOSE)\<lparr>ev_time := t\<rparr>"

lemma handle_close_event:
  "handle MAX_BW example_env 0 [close_event t] example_hstate = Inr (SERVER_SUCCESS, example_hstate)"
proof -
  let ?ev = "close_event t"
  note ev = close_event_def example_event_def
  have "Update example_env 0 [?ev] example_auditor = Inr example_auditor"
    by (simp add: Update_def update_event_def ev MarkFileSegmentsInactive_def
        DHM_Get_run[OF env_wf_dists(1)[OF example_env_wf]] example_auditor_fields)
  moreover obtain M where "FetchLayerScores example_env 0 example_auditor = Inr M"
    using FetchLayerScores_ok[OF example_auditor_invar, of 0] by (auto simp: example_env_def)
  moreover obtain f where "new_posix_file example_env (ev_filename ?ev) (ev_segment ?ev) (layer_index ?ev) = Inr f"
      "pf_filename f = ''ab''"
    using new_posix_file_last[of example_env] example_env_wf
    by (auto simp: env_wf_def example_env_def example_layers_def ev)
  ultimately show ?thesis
    by (simp add: handle_def GetEngine_def place_def place_event_def handle_close_def example_hstate_def
        ev CheckIfFileActive_def DHM_Get_run[OF env_wf_dists(1)[OF example_env_wf]] example_auditor_fields
        FetchHeatMap_def um_find_def)
qed

theorem handle_keeps_invar_witness:
  "\<exists>st h'. handle MAX_BW example_env 0 [close_event 0] example_hstate = Inr (st, h') \<and> st = SERVER_SUCCESS \<and>
     server_invar example_env h'"
proof -
  have "\<forall>ev\<in>set [close_event 0]. layer_index ev \<in> layer_id ` set (layers example_env)"
    using example_event_layer by (simp add: close_event_def)
  moreover have "0 < env_servers example_env" by (simp add: example_env_def)
  ultimately show ?thesis
    using handle_keeps_invar[OF example_server_invar _ _ handle_close_event] handle_close_event by blast
qed

lemma open_prefetch_state:
  assumes inv: "server_invar e h" and me: "me < env_servers e"
    and hier: "layers e = l # rest" "rest \<noteq> []" "io_client_type l = SIMPLE_MEMORY"
      "io_client_type (last rest) = SHARED_POSIX_FILE"
    and ev: "event_type ev = FILE_OPEN" "layer_index ev = layer_id (last rest)"
      "ev_segment ev = \<lparr>seg_start = 0, seg_end = n - 1\<rparr>" "0 < n" "n \<le> SEGMENT_SIZE"
    and new: "um_find (ev_filename ev) (file_segment_map (aud h) me) = None"
      "dhm_lookup (valid_buffered_dataset_d e) (valid_buffered_dataset (aud h)) (ev_filename ev) = None"
      "dm_set (offsetMaps (aud h) ((file_seq (aud h) 0 + 1) mod 2 ^ 64 mod max_num_files e)) = {}"
    and room: "dhm_lookup (layer_score_map_d e) (layer_score_map (aud h)) (layer_id l) = Some []"
      "MemoryClient_GetCurrentUsage e me l (memory_store (io h)) = Inr u"
      "u + real_of_int n \<le> capacity_mb l * real MB"
    and disk: "um_find (file_path (last rest) (ev_filename ev)) (files (shared_client (io h))) = Some c"
      "int (length c) = n"
    and name: "file_id_seq h 0 + 1 < 2 ^ 64" "client_server e (buffer_name (file_id_seq h 0 + 1)) = Inr me"
      "dhm_lookup (data_map_d e) (data_map (memory_store (io h))) (buffer_name (file_id_seq h 0 + 1)) = None"
  shows "\<exists>h'. handle t e me [ev] h = Inr (SERVER_SUCCESS, h') \<and> shared_client (io h') = shared_client (io h) \<and>
    um_find (buffer_name (file_id_seq h 0 + 1)) (shm (memory_store (io h')) me) = Some (butlast c @ [CHR 0x00]) \<and>
    (\<forall>off w. seg_val (offsetMaps (aud h') ((file_seq (aud h) 0 + 1) mod 2 ^ 64 mod max_num_files e)) off w \<longleftrightarrow>
       0 \<le> off \<and> off < n \<and>
       w = (\<lparr>pf_filename = buffer_name (file_id_seq h 0 + 1), pf_segment = \<lparr>seg_start = 0, seg_end = n - 1\<rparr>,
             pf_layer = l, pf_data = []\<rparr>, SegmentScore_default)) \<and>
    server_invar e h' \<and>
    dhm_lookup (valid_buffered_dataset_d e) (valid_buffered_dataset (aud h')) (ev_filename ev) =
      Some ((file_seq (aud h) 0 + 1) mod 2 ^ 64 mod max_num_files e) \<and>
    dm_set (offsetMaps (aud h') ((file_seq (aud h) 0 + 1) mod 2 ^ 64 mod max_num_files e)) =
      {(\<lparr>seg_start = 0, seg_end = n - 1\<rparr>,
        (\<lparr>pf_filename = buffer_name (file_id_seq h 0 + 1), pf_segment = \<lparr>seg_start = 0, seg_end = n - 1\<rparr>,
          pf_layer = l, pf_data = []\<rparr>, SegmentScore_default))} \<and>
    dhm_lookup (data_map_d e) (data_map (memory_store (io h'))) (buffer_name (file_id_seq h 0 + 1)) =
      Some \<lparr>pf_filename = buffer_name (file_id_seq h 0 + 1), pf_segment = \<lparr>seg_start = 0, seg_end = n - 1\<rparr>,
        pf_layer = l, pf_data = []\<rparr>"
proof -
  let ?i = "(file_seq (aud h) 0 + 1) mod 2 ^ 64 mod max_num_files e" and ?seg = "\<lparr>seg_start = 0, seg_end = n - 1\<rparr>"
  let ?f = "\<lparr>pf_filename = ev_filename ev, pf_segment = ?seg, pf_layer = (last rest)\<lparr>direct_io := None\<rparr>, pf_data = []\<rparr>"
  let ?d = "\<lparr>pf_filename = buffer_name (file_id_seq h 0 + 1), pf_segment = ?seg, pf_layer = l, pf_data = []\<rparr>"
  let ?seq = "(file_id_seq h)(0 := file_id_seq h 0 + 1)"
  have aud: "auditor_invar e (aud h)" using inv by (simp add: server_invar_def)
  note env = auditor_env[OF aud]
  have wf: "layers_wf (layers e)" using env by (simp add: env_wf_def)
  have last: "last (layers e) = last rest" using hier(1,2) by simp
  have ids: "layer_id l \<noteq> layer_id (last rest)"
    using wf hier(1,2) last_in_set[of rest] by (force simp: layers_wf_def)
  have nf: "new_posix_file e (ev_filename ev) ?seg (layer_id (last rest)) = Inr ?f"
    using new_posix_file_last[OF wf, of "ev_filename ev" ?seg] last by simp
  obtain a where a: "Update e me [ev] (aud h) = Inr a" "auditor_invar e a"
    "um_find (ev_filename ev) (file_segment_map a me) = Some ?i"
    "dm_set (offsetMaps a ?i) = {(?seg, (?f, SegmentScore_default))}" "layer_score_map a = layer_score_map (aud h)"
    "dhm_lookup (valid_buffered_dataset_d e) (valid_buffered_dataset a) (ev_filename ev) = Some ?i"
    using Update_open[OF aud _ ev(1) new] ev nf hier(1,2) by (auto simp: Segment_GetSize_def)
  let ?h1 = "h\<lparr>aud := a\<rparr>" and ?h2 = "h\<lparr>aud := a, file_id_seq := ?seq\<rparr>"
  have cap: "remaining_capacity e me l h' = Inr (capacity_mb l * real MB - u, h')"
    if "io h' = io h" for h'
    using that room(2,3) hier(3) ev(4) by (intro memory_remaining) simp_all
  have size: "PosixFile_GetSize ?f = n" "PosixFile_GetSize ?d = n" "Segment_GetSize ?seg = n"
    by (simp_all add: PosixFile_GetSize_def Segment_GetSize_def)
  obtain M where M: "FetchLayerScores e me a = Inr M" "find_layer_scores (layer_id l) M = Inr []"
    using FetchLayerScores_lookup[OF a(2) me] room(1) a(5) by metis
  have "PlaceDataInLayer e me ?f l 0 ?h1 = Inr ([(?f, ?d)], n, ?h2)"
    using PlaceDataInLayer_one[OF env, of ?f ?h1 me l] last ev(4,5) name(1) size
    by (simp add: Layer_eq_def buffer_name_def)
  then have "solve e me (?seg, SegmentScore_default, ?f) M (layers e) 0 ?h1 =
      Inr (scored (GetScore SegmentScore_default) [(?f, ?d)], ?h2)"
    using ids last cap[of ?h1] room(3) size by (intro solve_first_fits[OF hier(1) _ M(2)]) auto
  moreover have "FetchHeatMap e me ?f a = Inr [(?seg, SegmentScore_default, ?f)]"
    using FetchHeatMap_single[OF a(2) _ a(4) me] a(3) by simp
  ultimately have placed: "GetEngine t e me [ev] ?h1 = Inr ([(?f, ?d, GetScore SegmentScore_default)], ?h2)"
    using M(1) nf ev by (cases t) (simp add: GetEngine_def place_def place_event_def scored_def)
  have inv2: "server_invar e ?h2" using inv a(2) by (simp add: server_invar_def)
  have path: "posix_path ?f = file_path (last rest) (ev_filename ev)" by (simp add: posix_path_def file_path_def)
  obtain h' where h': "handle_placement e me (?f, ?d, GetScore SegmentScore_default) ?h2 = Inr h'"
    "shared_client (io h') = shared_client (io h)"
    "um_find (buffer_name (file_id_seq h 0 + 1)) (shm (memory_store (io h')) me) =
      Some (take (nat (n - 1)) c @ [CHR 0x00])"
    "\<forall>off w. seg_val (offsetMaps (aud h') ?i) off w \<longleftrightarrow> off \<in> seg_set ?seg \<and>
       w = moved_info ?f ?d ?seg (?f, SegmentScore_default)"
    "dm_set (offsetMaps (aud h') ?i) = {(?seg, moved_info ?f ?d ?seg (?f, SegmentScore_default))}"
    "valid_buffered_dataset (aud h') = valid_buffered_dataset a"
    "dhm_lookup (data_map_d e) (data_map (memory_store (io h'))) (buffer_name (file_id_seq h 0 + 1)) = Some ?d"
    using handle_placement_memory[OF inv2 me, of ?d "capacity_mb l * real MB - u" ?f c ?i "(?f, SegmentScore_default)"
        "GetScore SegmentScore_default"] cap[of ?h2] room(3) size last hier(3,4) disk path ev(4) name a(3,4)
    by (auto simp: Layer_eq_def)
  have "handle t e me [ev] h = Inr (SERVER_SUCCESS, h')"
    using a(1) placed h'(1) ev(1) by (simp add: handle_def handle_close_def)
  moreover from this have "server_invar e h'"
    using handle_invar[OF inv me, of "[ev]"] ev(2) hier(1,2) by auto
  moreover have "nat (n - 1) = length c - 1" using disk(2) by arith
  then have "take (nat (n - 1)) c = butlast c" by (simp add: butlast_conv_take)
  moreover have "moved_info ?f ?d ?seg (?f, SegmentScore_default) = (?d, SegmentScore_default)"
    by (simp add: moved_info_def Segment_Intersect_def)
  ultimately show ?thesis using h'(2-7) a(6) by (intro exI[of _ h']) (auto simp: seg_set_def)
qed

text \<open>C2: opening a file that no server knows yet, of at most \<open>SEGMENT_SIZE\<close> bytes on the shared last layer, on a
  server whose first layer is memory with room for the file and an empty score map: \<open>handle\<close> succeeds and
  copies the file into a new memory object whose name is the next of the sequence. The auditor then
  describes every offset of the file by that object; the original file is unchanged. The object holds all
  bytes but the last one, which is NUL.\<close>

theorem open_prefetches_file:
  assumes inv: "server_invar e h" and me: "me < env_servers e"
    and hier: "layers e = l # rest" "rest \<noteq> []" "io_client_type l = SIMPLE_MEMORY"
      "io_client_type (last rest) = SHARED_POSIX_FILE"
    and ev: "event_type ev = FILE_OPEN" "layer_index ev = layer_id (last rest)"
      "ev_segment ev = \<lparr>seg_start = 0, seg_end = n - 1\<rparr>" "0 < n" "n \<le> SEGMENT_SIZE"
    and new: "um_find (ev_filename ev) (file_segment_map (aud h) me) = None"
      "dhm_lookup (valid_buffered_dataset_d e) (valid_buffered_dataset (aud h)) (ev_filename ev) = None"
      "dm_set (offsetMaps (aud h) ((file_seq (aud h) 0 + 1) mod 2 ^ 64 mod max_num_files e)) = {}"
    and room: "dhm_lookup (layer_score_map_d e) (layer_score_map (aud h)) (layer_id l) = Some []"
      "MemoryClient_GetCurrentUsage e me l (memory_store (io h)) = Inr u"
      "u + real_of_int n \<le> capacity_mb l * real MB"
    and disk: "um_find (file_path (last rest) (ev_filename ev)) (files (shared_client (io h))) = Some c"
      "int (length c) = n"
    and name: "file_id_seq h 0 + 1 < 2 ^ 64" "client_server e (buffer_name (file_id_seq h 0 + 1)) = Inr me"
      "dhm_lookup (data_map_d e) (data_map (memory_store (io h))) (buffer_name (file_id_seq h 0 + 1)) = None"
  shows "\<exists>h'. handle t e me [ev] h = Inr (SERVER_SUCCESS, h') \<and> shared_client (io h') = shared_client (io h) \<and>
    um_find (buffer_name (file_id_seq h 0 + 1)) (shm (memory_store (io h')) me) = Some (butlast c @ [CHR 0x00]) \<and>
    (\<forall>off w. seg_val (offsetMaps (aud h') ((file_seq (aud h) 0 + 1) mod 2 ^ 64 mod max_num_files e)) off w \<longleftrightarrow>
       0 \<le> off \<and> off < n \<and>
       w = (\<lparr>pf_filename = buffer_name (file_id_seq h 0 + 1), pf_segment = \<lparr>seg_start = 0, seg_end = n - 1\<rparr>,
             pf_layer = l, pf_data = []\<rparr>, SegmentScore_default))"
  using open_prefetch_state[OF assms, of t] by blast

definition example_disk_hstate :: hstate where
  "example_disk_hstate = example_hstate\<lparr>io :=
     io_init\<lparr>shared_client := (shared_client io_init)\<lparr>files := [(''/pfs/ab'', replicate 100 CHR ''x'')]\<rparr>\<rparr>\<rparr>"

lemma example_hierarchy:
  "layers example_env = hd example_layers # tl example_layers" "tl example_layers \<noteq> []"
  "io_client_type (hd example_layers) = SIMPLE_MEMORY" "io_client_type (last (tl example_layers)) = SHARED_POSIX_FILE"
  "0 < env_servers example_env"
  by (simp_all add: example_env_def example_layers_def)

lemma example_disk_invar: "server_invar example_env example_disk_hstate"
  using example_server_invar by (simp add: server_invar_def io_invar_def file_invar_def example_hstate_def example_disk_hstate_def)

lemma example_disk_new:
  "um_find ''ab'' (file_segment_map (aud example_disk_hstate) 0) = None"
  "dhm_lookup (valid_buffered_dataset_d example_env) (valid_buffered_dataset (aud example_disk_hstate)) ''ab'' = None"
  "dm_set (offsetMaps (aud example_disk_hstate)
     ((file_seq (aud example_disk_hstate) 0 + 1) mod 2 ^ 64 mod max_num_files example_env)) = {}"
  using example_auditor_fields
  by (simp_all add: example_disk_hstate_def example_hstate_def example_auditor_fields um_find_def)

lemma example_disk_room:
  "dhm_lookup (layer_score_map_d example_env) (layer_score_map (aud example_disk_hstate)) (layer_id (hd example_layers)) = Some []"
  "MemoryClient_GetCurrentUsage example_env 0 (hd example_layers) (memory_store (io example_disk_hstate)) = Inr 0"
  "0 + real_of_int 100 \<le> capacity_mb (hd example_layers) * real MB"
  using example_auditor_fields(6)[of "hd example_layers"] example_no_data
  by (simp_all add: example_disk_hstate_def example_hstate_def MemoryClient_GetCurrentUsage_def example_layers_def MB_def)

lemma example_disk_file:
  "um_find (file_path (last (tl example_layers)) ''ab'') (files (shared_client (io example_disk_hstate))) =
     Some (replicate 100 CHR ''x'')"
  "int (length (replicate 100 CHR ''x'')) = 100"
  by (simp_all add: um_find_def example_disk_hstate_def example_layers_def file_path_def FILE_SEPARATOR_def)

lemma example_disk_name:
  "file_id_seq example_disk_hstate 0 + 1 < 2 ^ 64" "buffer_name (file_id_seq example_disk_hstate 0 + 1) = ''1.hfetch''"
  "client_server example_env (buffer_name (file_id_seq example_disk_hstate 0 + 1)) = Inr 0"
  "dhm_lookup (data_map_d example_env) (data_map (memory_store (io example_disk_hstate)))
     (buffer_name (file_id_seq example_disk_hstate 0 + 1)) = None"
proof -
  show b: "buffer_name (file_id_seq example_disk_hstate 0 + 1) = ''1.hfetch''"
    by (simp add: buffer_name_def example_disk_hstate_def example_hstate_def GlobalSequence_init_def) code_simp
  show "client_server example_env (buffer_name (file_id_seq example_disk_hstate 0 + 1)) = Inr 0"
    unfolding b by (simp add: client_server_def example_env_def hash_CharStruct_def)
qed (simp_all add: example_disk_hstate_def example_hstate_def GlobalSequence_init_def io_init_def)

theorem open_prefetches_file_witness:
  "\<exists>h h' i. handle MAX_BW example_env 0 [example_event FILE_OPEN] h = Inr (SERVER_SUCCESS, h') \<and>
     um_find ''1.hfetch'' (shm (memory_store (io h')) 0) = Some (replicate 99 CHR ''x'' @ [CHR 0x00]) \<and>
     seg_val (offsetMaps (aud h') i) 7
       (\<lparr>pf_filename = ''1.hfetch'', pf_segment = \<lparr>seg_start = 0, seg_end = 99\<rparr>, pf_layer = hd example_layers,
         pf_data = []\<rparr>, SegmentScore_default)"
proof -
  let ?c = "replicate 100 CHR ''x''" and ?h = example_disk_hstate
  have ev: "event_type (example_event FILE_OPEN) = FILE_OPEN"
    "layer_index (example_event FILE_OPEN) = layer_id (last (tl example_layers))"
    "ev_segment (example_event FILE_OPEN) = \<lparr>seg_start = 0, seg_end = 100 - 1\<rparr>" "(0::int) < 100" "100 \<le> SEGMENT_SIZE"
    by (simp_all add: example_event_def example_layers_def SEGMENT_SIZE_def)
  have name: "ev_filename (example_event FILE_OPEN) = ''ab''" by (simp add: example_event_def)
  obtain h' where "handle MAX_BW example_env 0 [example_event FILE_OPEN] ?h = Inr (SERVER_SUCCESS, h')"
    "um_find ''1.hfetch'' (shm (memory_store (io h')) 0) = Some (butlast ?c @ [CHR 0x00])"
    "\<forall>off w. seg_val (offsetMaps (aud h') ((file_seq (aud ?h) 0 + 1) mod 2 ^ 64 mod max_num_files example_env)) off w \<longleftrightarrow>
       0 \<le> off \<and> off < 100 \<and> w = (\<lparr>pf_filename = ''1.hfetch'', pf_segment = \<lparr>seg_start = 0, seg_end = 100 - 1\<rparr>,
         pf_layer = hd example_layers, pf_data = []\<rparr>, SegmentScore_default)"
    using open_prefetches_file[OF example_disk_invar example_hierarchy(5,1-4) ev, unfolded name,
        OF example_disk_new example_disk_room example_disk_file example_disk_name(1,3,4), of MAX_BW]
    unfolding example_disk_name(2) by blast
  moreover have "butlast ?c = replicate 99 CHR ''x''" by (simp add: butlast_conv_take)
  ultimately show ?thesis
    by (intro exI[of _ ?h] exI[of _ h']
        exI[of _ "(file_seq (aud ?h) 0 + 1) mod 2 ^ 64 mod max_num_files example_env"]) simp
qed

end
