(* ===== verification/Util.thy ===== *)
theory Util
  imports Configuration
begin

text \<open>
  \<open>src/src/common/util.h\<close>: splitting strings and reading the command line, for servers and applications.

  \<^item> \<open>str_split\<close> ends in two assertions on the number of tokens: a string they reject is \<open>Abort\<close>.
  \<^item> \<open>parse_opts\<close> takes the pairs of option and argument in the order \<open>getopt\<close> returns them, the environment
    variables, and the C library's \<open>atof\<close> (rounded to \<open>float\<close>) as a function.
  \<^item> Members of \<open>InputArgs\<close> that nothing assigns are \<open>None\<close>. Copying a string of 256 characters or more into
    one of its arrays is \<open>BufferOverflow\<close>.
\<close>

section \<open>Splitting strings\<close>

text \<open>The substrings between delimiters; \<open>strtok\<close> returns those that are not empty.\<close>

fun split_fields :: "char \<Rightarrow> string \<Rightarrow> string list" where
  "split_fields d [] = [[]]"
| "split_fields d (c # cs) =
     (if c = d then [] # split_fields d cs
      else case split_fields d cs of [] \<Rightarrow> [[c]] | f # fs \<Rightarrow> (c # f) # fs)"

definition strtok_all :: "char \<Rightarrow> string \<Rightarrow> string list" where
  "strtok_all d s = filter (\<lambda>t. t \<noteq> []) (split_fields d s)"

definition str_split_count :: "string \<Rightarrow> char \<Rightarrow> nat" where
  "str_split_count a_str a_delim =
     length (filter (\<lambda>c. c = a_delim) a_str) +
     (if a_delim \<notin> set a_str \<or> last a_str \<noteq> a_delim then 1 else 0) + 1"

definition str_split :: "string \<Rightarrow> char \<Rightarrow> string list res" where
  "str_split a_str a_delim =
     (let tokens = strtok_all a_delim a_str; count = str_split_count a_str a_delim
      in if length tokens = count - 1 then Inr tokens else Inl Abort)"

text \<open>Reading the array \<open>str_split\<close> returns: its last element is a null pointer.\<close>

definition token_at :: "string list \<Rightarrow> nat \<Rightarrow> string res" where
  "token_at ts i =
     (if i < length ts then Inr (ts ! i)
      else if i = length ts then Inl (Undefined NullPointer) else Inl (Undefined OutOfRange))"

section \<open>Numbers\<close>

definition is_digit :: "char \<Rightarrow> bool" where
  "is_digit c \<longleftrightarrow> 48 \<le> (of_char c :: nat) \<and> (of_char c :: nat) \<le> 57"

definition is_space :: "char \<Rightarrow> bool" where
  "is_space c \<longleftrightarrow> (of_char c :: nat) \<in> {9, 10, 11, 12, 13, 32}"

definition digits_number :: "string \<Rightarrow> int" where
  "digits_number s = foldl (\<lambda>a c. a * 10 + (int (of_char c) - 48)) 0 s"

definition atoi :: "string \<Rightarrow> int res" where
  "atoi s =
     (let s = dropWhile is_space s;
          neg = (s \<noteq> [] \<and> hd s = CHR ''-'');
          s = (if s \<noteq> [] \<and> hd s \<in> {CHR ''-'', CHR ''+''} then tl s else s);
          n = digits_number (takeWhile is_digit s);
          v = (if neg then - n else n)
      in if - (2 ^ 31) \<le> v \<and> v < 2 ^ 31 then Inr v else Inl (Undefined SignedOverflow))"

section \<open>Options\<close>

record InputArgs =
  io_size_mb :: nat
  pfs_path :: "string option"
  layer_count :: int
  arg_layers :: "LayerInfo list option"
  iteration :: nat
  arg_direct_io :: nat
  arg_ranks_per_server :: int
  arg_num_workers :: nat
  max_files :: int
  arg_num_servers :: int
  arg_comm_threads :: int
  is_logging :: bool
  log_path :: "string option"

definition default_args :: InputArgs where
  "default_args = \<lparr>io_size_mb = 1024, pfs_path = None, layer_count = 0, arg_layers = None, iteration = 1,
     arg_direct_io = 1, arg_ranks_per_server = 1, arg_num_workers = 1, max_files = 100, arg_num_servers = 1,
     arg_comm_threads = 1, is_logging = False, log_path = None\<rparr>"

definition strcpy256 :: "string \<Rightarrow> string res" where
  "strcpy256 s = (if length s < 256 then Inr s else Inl (Undefined BufferOverflow))"

definition parse_layer :: "(string \<Rightarrow> real) \<Rightarrow> string \<Rightarrow> LayerInfo res" where
  "parse_layer atof s =
     rbind (str_split s CHR ''_'') (\<lambda>layerInfoStr.
     rbind (token_at layerInfoStr 0) (\<lambda>cap.
     rbind (token_at layerInfoStr 1) (\<lambda>bw.
     rbind (rbind (token_at layerInfoStr 2) atoi) (\<lambda>mem.
     rbind (rbind (token_at layerInfoStr 3) strcpy256) (\<lambda>mount.
     rbind (rbind (token_at layerInfoStr 4) atoi) (\<lambda>dio.
       Inr \<lparr>mount_point = mount, info_capacity_mb = atof cap, info_bandwidth = atof bw, is_memory = (mem \<noteq> 0),
            is_local = None, info_direct_io = Some (dio \<noteq> 0)\<rparr>))))))"

fun parse_layers_from :: "(string \<Rightarrow> real) \<Rightarrow> string list \<Rightarrow> nat \<Rightarrow> nat \<Rightarrow> LayerInfo list res" where
  "parse_layers_from atof toks i 0 = Inr []"
| "parse_layers_from atof toks i (Suc n) =
     rbind (rbind (token_at toks (i + 1)) (parse_layer atof)) (\<lambda>info.
     rbind (parse_layers_from atof toks (Suc i) n) (\<lambda>infos. Inr (info # infos)))"

definition parse_layers :: "(string \<Rightarrow> real) \<Rightarrow> string \<Rightarrow> (int \<times> LayerInfo list) res" where
  "parse_layers atof optarg =
     rbind (str_split optarg CHR ''#'') (\<lambda>toks.
     rbind (rbind (token_at toks 0) atoi) (\<lambda>n.
     rbind (parse_layers_from atof toks 0 (nat n)) (\<lambda>infos. Inr (n, infos))))"

definition parse_opt :: "(string \<Rightarrow> real) \<Rightarrow> char \<times> string \<Rightarrow> InputArgs \<Rightarrow> InputArgs res" where
  "parse_opt atof oa args =
     (let opt = fst oa; optarg = snd oa in
      if opt = CHR ''l'' then rbind (parse_layers atof optarg) (\<lambda>(n, infos).
        Inr (args\<lparr>layer_count := n, arg_layers := Some infos\<rparr>))
      else if opt = CHR ''a'' then rbind (atoi optarg) (\<lambda>v. Inr (args\<lparr>is_logging := (v \<noteq> 0)\<rparr>))
      else if opt = CHR ''p'' then rbind (strcpy256 optarg) (\<lambda>s. Inr (args\<lparr>log_path := Some s\<rparr>))
      else if opt = CHR ''i'' then rbind (atoi optarg) (\<lambda>v. Inr (args\<lparr>io_size_mb := to_size_t v\<rparr>))
      else if opt = CHR ''s'' then rbind (atoi optarg) (\<lambda>v. Inr (args\<lparr>arg_num_servers := to_int32 (int (to_size_t v))\<rparr>))
      else if opt = CHR ''m'' then rbind (atoi optarg) (\<lambda>v. Inr (args\<lparr>max_files := v\<rparr>))
      else if opt = CHR ''c'' then rbind (atoi optarg) (\<lambda>v. Inr (args\<lparr>arg_comm_threads := v\<rparr>))
      else if opt = CHR ''r'' then rbind (atoi optarg) (\<lambda>v. Inr (args\<lparr>arg_ranks_per_server := to_int32 (int (to_size_t v))\<rparr>))
      else if opt = CHR ''n'' then rbind (atoi optarg) (\<lambda>v. Inr (args\<lparr>iteration := to_size_t v\<rparr>))
      else if opt = CHR ''f'' then rbind (strcpy256 optarg) (\<lambda>s. Inr (args\<lparr>pfs_path := Some s\<rparr>))
      else if opt = CHR ''d'' then rbind (atoi optarg) (\<lambda>v. Inr (args\<lparr>arg_direct_io := to_size_t v\<rparr>))
      else if opt = CHR ''w'' then rbind (atoi optarg) (\<lambda>v. Inr (args\<lparr>arg_num_workers := to_size_t v\<rparr>))
      else Inr args)"

text \<open>The four layers used when no option gave any: \<open>sprintf\<close> of a directory that is not set reads a null
  pointer.\<close>

definition sprintf_path :: "string option \<Rightarrow> string \<Rightarrow> string res" where
  "sprintf_path dir suffix =
     (case dir of None \<Rightarrow> Inl (Undefined NullPointer) | Some d \<Rightarrow> strcpy256 (d @ suffix))"

definition default_layer :: "string option \<Rightarrow> string \<Rightarrow> nat \<Rightarrow> real \<Rightarrow> bool \<Rightarrow> bool \<Rightarrow> LayerInfo res" where
  "default_layer dir suffix capacity bw mem loc =
     rbind (sprintf_path dir suffix) (\<lambda>mount.
       Inr \<lparr>mount_point = mount, info_capacity_mb = real capacity, info_bandwidth = bw, is_memory = mem,
            is_local = Some loc, info_direct_io = None\<rparr>)"

definition default_layers :: "(string \<Rightarrow> string option) \<Rightarrow> nat \<Rightarrow> LayerInfo list res" where
  "default_layers getenv io_size =
     (let pfs = getenv ''RUN_DIR'';
          nvme = (case getenv ''NVME_RUN_DIR'' of None \<Rightarrow> getenv ''RUN_DIR'' | Some d \<Rightarrow> Some d);
          bb = (case getenv ''BB_RUN_DIR'' of None \<Rightarrow> getenv ''RUN_DIR'' | Some d \<Rightarrow> Some d)
      in rbind (default_layer pfs ''/ramfs/'' (4 * io_size mod 2 ^ 64 div 16) 80000 True True) (\<lambda>l0.
         rbind (default_layer nvme ''/nvme/'' (4 * io_size mod 2 ^ 64 div 16) 2000 False True) (\<lambda>l1.
         rbind (default_layer bb ''/bb/'' (8 * io_size mod 2 ^ 64 div 16) 400 False False) (\<lambda>l2.
         rbind (default_layer pfs ''/pfs/'' io_size 100 False False) (\<lambda>l3. Inr [l0, l1, l2, l3])))))"

definition parse_opts ::
  "(string \<Rightarrow> real) \<Rightarrow> (string \<Rightarrow> string option) \<Rightarrow> (char \<times> string) list \<Rightarrow> InputArgs res" where
  "parse_opts atof getenv opts =
     rbind (rfold (parse_opt atof) opts default_args) (\<lambda>args.
       if layer_count args = 0
       then rbind (default_layers getenv (io_size_mb args)) (\<lambda>ls.
              Inr (args\<lparr>arg_layers := Some ls, layer_count := 4, pfs_path := Some (mount_point (ls ! 3))\<rparr>))
       else Inr args)"

section \<open>Lemmas on splitting\<close>

fun join :: "char \<Rightarrow> string list \<Rightarrow> string" where
  "join d [] = []"
| "join d [t] = t"
| "join d (t # t' # ts) = t @ d # join d (t' # ts)"

lemma split_fields_token: "d \<notin> set t \<Longrightarrow> split_fields d t = [t]"
  by (induction t) auto

lemma split_fields_append: "d \<notin> set t \<Longrightarrow> split_fields d (t @ d # s) = t # split_fields d s"
  by (induction t) auto

lemma split_fields_join: "ts \<noteq> [] \<Longrightarrow> \<forall>t\<in>set ts. d \<notin> set t \<Longrightarrow> split_fields d (join d ts) = ts"
  by (induction d ts rule: join.induct) (auto simp: split_fields_token split_fields_append)

lemma length_split_fields: "length (split_fields d s) = Suc (length (filter (\<lambda>c. c = d) s))"
  by (induction s) (auto split: list.splits)

lemma split_fields_nonempty: "split_fields d s \<noteq> []"
  using length_split_fields[of d s] by auto

lemma split_fields_at: "split_fields d (x @ d # s) = split_fields d x @ split_fields d s"
proof (induction x)
  case (Cons a x)
  then show ?case using split_fields_nonempty[of d x] by (auto split: list.splits)
qed simp

lemma last_join:
  "ts \<noteq> [] \<Longrightarrow> \<forall>t\<in>set ts. t \<noteq> [] \<and> d \<notin> set t \<Longrightarrow> join d ts \<noteq> [] \<and> last (join d ts) \<noteq> d"
proof (induction d ts rule: join.induct)
  case (2 d t)
  then show ?case by (auto dest: last_in_set)
qed auto

lemma str_split_join:
  assumes "ts \<noteq> []" and "\<forall>t\<in>set ts. t \<noteq> [] \<and> d \<notin> set t"
  shows "str_split (join d ts) d = Inr ts"
proof -
  have f: "split_fields d (join d ts) = ts" using assms by (intro split_fields_join) auto
  have "filter (\<lambda>t. t \<noteq> []) ts = ts" using assms(2) by (simp add: filter_id_conv)
  moreover have "length ts = Suc (length (filter (\<lambda>c. c = d) (join d ts)))"
    using length_split_fields[of d "join d ts"] f by simp
  ultimately show ?thesis
    using last_join[OF assms] by (simp add: str_split_def str_split_count_def strtok_all_def f)
qed

section \<open>Properties\<close>

text \<open>\<open>str_split\<close> inverts joining: any non-empty list of non-empty tokens that do not contain the delimiter
  is returned unchanged from its delimiter-separated text. With an empty token between two others the
  assertion on the token count fails.\<close>

theorem str_split_inverts_join:
  assumes "ts \<noteq> []" and "\<forall>t\<in>set ts. t \<noteq> [] \<and> d \<notin> set t" and "us \<noteq> []" and "\<forall>t\<in>set us. t \<noteq> [] \<and> d \<notin> set t"
  shows "str_split (join d ts) d = Inr ts \<and> str_split (join d ts @ d # d # join d us) d = Inl Abort"
proof -
  let ?s = "join d ts @ d # d # join d us"
  have f: "split_fields d (join d ts) = ts" "split_fields d (join d us) = us" using assms by (auto intro: split_fields_join)
  then have "strtok_all d ?s = ts @ us"
    using assms(2,4) by (simp add: strtok_all_def split_fields_at filter_id_conv)
  moreover have "str_split_count ?s d = length ts + length us + 2"
    using length_split_fields[of d "join d ts"] length_split_fields[of d "join d us"] f last_join[OF assms(3,4)]
    by (simp add: str_split_count_def)
  ultimately show ?thesis using str_split_join[OF assms(1,2)] by (simp add: str_split_def)
qed

theorem str_split_inverts_join_witness:
  "str_split ''2#a#b'' CHR ''#'' = Inr [''2'', ''a'', ''b''] \<and> str_split ''2##a'' CHR ''#'' = Inl Abort"
  using str_split_inverts_join[of "[''2'', ''a'', ''b'']" "CHR ''#''" "[''a'']"]
    str_split_inverts_join[of "[''2'']" "CHR ''#''" "[''a'']"] by simp

text \<open>Without options, \<open>parse_opts\<close> yields four layers from which \<open>BuildLayers\<close> makes a well-formed hierarchy:
  memory, local disk, and two shared file layers, with 256, 256, 512 and 1024 MB, under the directory the
  environment names.\<close>

theorem default_hierarchy:
  assumes "getenv ''RUN_DIR'' = Some d" and "getenv ''NVME_RUN_DIR'' = None" and "getenv ''BB_RUN_DIR'' = None"
    and "length d < 249"
  shows "\<exists>args infos ls. parse_opts atof getenv [] = Inr args \<and> arg_layers args = Some infos \<and>
    pfs_path args = Some (d @ ''/pfs/'') \<and> BuildLayers infos = Inr ls \<and> layers_wf ls \<and>
    map layer_loc ls = [d @ ''/ramfs/'', d @ ''/nvme/'', d @ ''/bb/'', d @ ''/pfs/''] \<and>
    map io_client_type ls = [SIMPLE_MEMORY, LOCAL_POSIX_FILE, SHARED_POSIX_FILE, SHARED_POSIX_FILE] \<and>
    map capacity_mb ls = [256, 256, 512, 1024]"
  using assms
  by (simp add: parse_opts_def default_args_def default_layers_def default_layer_def sprintf_path_def strcpy256_def
      BuildLayers_def build_layer_def layer_client_type_def layers_wf_def to_uint8_def)

theorem default_hierarchy_witness:
  "\<exists>args infos ls. parse_opts (\<lambda>_. 0) (\<lambda>v. if v = ''RUN_DIR'' then Some ''/tmp'' else None) [] = Inr args \<and>
     arg_layers args = Some infos \<and> BuildLayers infos = Inr ls \<and> layers_wf ls \<and>
     map capacity_mb ls = [256, 256, 512, 1024]"
  using default_hierarchy[of "\<lambda>v. if v = ''RUN_DIR'' then Some ''/tmp'' else None" "''/tmp''" "\<lambda>_. 0"] by auto

lemma parse_layer_local: "parse_layer atof s = Inr info \<Longrightarrow> is_local info = None"
  by (auto simp: parse_layer_def rbind_Inr_iff)

lemma parse_layers_from_local:
  "parse_layers_from atof toks i n = Inr infos \<Longrightarrow> \<forall>info\<in>set infos. is_local info = None"
  by (induction n arbitrary: i infos) (auto simp: rbind_Inr_iff dest: parse_layer_local)

lemma build_layers_uninitialised:
  assumes "\<forall>info\<in>set infos. is_local info = None" and "info \<in> set infos" and "\<not> is_memory info"
  shows "build_layers_from k infos = Inl (Undefined Uninitialised)"
  using assms
proof (induction infos arbitrary: k)
  case (Cons x xs)
  show ?case
  proof (cases "is_memory x")
    case True
    with Cons.prems have "info \<in> set xs" by auto
    with Cons True show ?thesis by (simp add: build_layer_def layer_client_type_def)
  next
    case False
    with Cons.prems(1) show ?thesis by (simp add: build_layer_def layer_client_type_def)
  qed
qed simp

text \<open>Layers given with \<open>-l\<close> never have \<open>is_local\<close> assigned, so \<open>BuildLayers\<close> decides on an uninitialised
  value as soon as one of them is not a memory layer.\<close>

theorem option_layers_uninitialised:
  assumes "parse_layers atof optarg = Inr (n, infos)" and "info \<in> set infos" and "\<not> is_memory info"
  shows "BuildLayers infos = Inl (Undefined Uninitialised)"
proof -
  have "\<forall>info\<in>set infos. is_local info = None"
    using assms(1) by (auto simp: parse_layers_def rbind_Inr_iff dest!: parse_layers_from_local)
  then show ?thesis unfolding BuildLayers_def by (rule build_layers_uninitialised[OF _ assms(2,3)])
qed

theorem option_layers_uninitialised_witness:
  "\<exists>infos. parse_layers (\<lambda>_. 100) ''1#100_50_0_/pfs_1'' = Inr (1, infos) \<and>
     BuildLayers infos = Inl (Undefined Uninitialised)"
proof -
  have "parse_layers (\<lambda>_. 100) ''1#100_50_0_/pfs_1'' =
      Inr (1, [\<lparr>mount_point = ''/pfs'', info_capacity_mb = 100, info_bandwidth = 100, is_memory = False,
        is_local = None, info_direct_io = Some True\<rparr>])"
    by code_simp
  from option_layers_uninitialised[OF this] this show ?thesis by auto
qed

end
