(* ===== verification/Server.thy ===== *)
theory Server
  imports Event_Manager Util
begin

text \<open>
  \<open>src/src/server/server.h\<close>: the start-up of a process and the threads of a server. Applications push events
  into the queue of their node; worker threads pop them and hand them to the event manager; \<open>stop\<close> waits
  until the queue is empty, then signals and joins the workers one after the other.

  The threads are interleaved by the step relation \<open>server_step\<close>, whose labels record what happened.
  A pop and a push are one step each (the queue holds an interprocess mutex during them); so is a call
  of \<open>handle\<close>: races inside it, between workers of one server, are not modelled. An exception leaves \<open>handle\<close>
  with the state changed up to the throw: the state after the step is arbitrary. A step whose operation is
  \<open>Undefined\<close> does not exist. \<open>pushEvents\<close> and \<open>async_run\<close> end without the \<open>return\<close> their type asks for;
  no caller uses the value.
\<close>

section \<open>Start-up\<close>

record ConfigurationManager =
  cf_num_servers :: int
  my_rank_world :: int
  comm_size :: int
  my_rank_server :: int
  cf_is_server :: bool
  cf_ranks_per_server :: int
  cf_num_workers :: int
  cf_comm_threads :: int
  my_server :: nat
  dpeType :: DataPlacementEngineType
  hit :: real
  total :: real
  cf_max_num_files :: int
  cf_layers :: layer_ptr

definition ConfigurationManager_new :: "int \<Rightarrow> int \<Rightarrow> ConfigurationManager" where
  "ConfigurationManager_new n rank = \<lparr>cf_num_servers = 1, my_rank_world = rank, comm_size = n, my_rank_server = 0,
     cf_is_server = False, cf_ranks_per_server = 1, cf_num_workers = 1, cf_comm_threads = 1, my_server = 0,
     dpeType = MAX_BW, hit = 0, total = 0, cf_max_num_files = n, cf_layers = []\<rparr>"

text \<open>The rank within the communicator that \<open>MPI_Comm_split\<close> returns is an argument.\<close>

definition UpdateServerComm :: "int \<Rightarrow> ConfigurationManager \<Rightarrow> ConfigurationManager" where
  "UpdateServerComm rank c = (if cf_is_server c then c\<lparr>my_rank_server := rank\<rparr> else c)"

definition build_from_args :: "InputArgs \<Rightarrow> ConfigurationManager \<Rightarrow> ConfigurationManager res" where
  "build_from_args args c =
     (if layer_count args < 0 then Inl (Undefined OutOfRange)
      else case arg_layers args of
             None \<Rightarrow> if layer_count args = 0 then Inr (c\<lparr>cf_layers := []\<rparr>) else Inl (Undefined Uninitialised)
           | Some infos \<Rightarrow> rbind (BuildLayers infos) (\<lambda>ls. Inr (c\<lparr>cf_layers := ls\<rparr>)))"

definition InitializeServer :: "InputArgs \<Rightarrow> int \<Rightarrow> ConfigurationManager \<Rightarrow> ConfigurationManager res" where
  "InitializeServer args rank c =
     rbind (build_from_args args c) (\<lambda>c.
       let c = c\<lparr>cf_comm_threads := arg_comm_threads args, cf_max_num_files := max_files args,
                 cf_ranks_per_server := arg_ranks_per_server args,
                 cf_num_workers := to_int32 (int (arg_num_workers args)), cf_is_server := True,
                 cf_num_servers := comm_size c\<rparr>;
           c = UpdateServerComm rank c
       in Inr (c\<lparr>my_server := to_uint16 (nat (my_rank_server c mod 2 ^ 16))\<rparr>))"

definition InitializeClients :: "InputArgs \<Rightarrow> int \<Rightarrow> ConfigurationManager \<Rightarrow> ConfigurationManager res" where
  "InitializeClients args rank c =
     rbind (build_from_args args c) (\<lambda>c.
       if arg_ranks_per_server args = 0 then Inl (Undefined DivisionByZero)
       else
         let c = c\<lparr>cf_max_num_files := max_files args, cf_ranks_per_server := arg_ranks_per_server args,
                   cf_comm_threads := arg_comm_threads args,
                   cf_num_workers := to_int32 (int (arg_num_workers args)), cf_is_server := False,
                   cf_num_servers := arg_num_servers args,
                   my_server := nat (sgn (my_rank_world c) * sgn (arg_ranks_per_server args) *
                     (\<bar>my_rank_world c\<bar> div \<bar>arg_ranks_per_server args\<bar>) mod 2 ^ 16)\<rparr>
         in Inr (UpdateServerComm rank c))"

section \<open>Pushing events\<close>

definition app_queue :: "env \<Rightarrow> rpc_obj" where
  "app_queue e = obj_of e ''APPLICATION_QUEUE''"

definition pushEvents ::
  "env \<Rightarrow> (nat \<Rightarrow> int) \<Rightarrow> nat \<Rightarrow> int \<Rightarrow> Event \<Rightarrow> Event queue_store \<Rightarrow> (Event \<times> Event queue_store) res" where
  "pushEvents e start me now event q =
     rbind (GetTimeServer (obj_of e ''GLOBAL_CLOCK'') start me me now) (\<lambda>t.
       let event = event\<lparr>ev_time := t\<rparr>
       in rbind (DMQ_Push (app_queue e) me event me q) (\<lambda>(_, q'). Inr (event, q')))"

section \<open>Workers\<close>

datatype worker_pc = AtWait | AtHandle | Exited

record worker =
  w_pc :: worker_pc
  w_events :: "Event list"
  w_count :: int
  w_exit :: bool

definition worker_new :: worker where
  "worker_new = \<lparr>w_pc = AtWait, w_events = [], w_count = 0, w_exit = False\<rparr>"

definition worker_pop :: "env \<Rightarrow> nat \<Rightarrow> worker \<Rightarrow> Event queue_store \<Rightarrow> (Event option \<times> worker \<times> Event queue_store) res" where
  "worker_pop e me w q =
     rbind (DMQ_Pop (app_queue e) me me q) (\<lambda>(r, q').
       Inr (r, w\<lparr>w_events := w_events w @ (case r of Some x \<Rightarrow> [x] | None \<Rightarrow> []), w_pc := AtHandle\<rparr>, q'))"

definition batch_ready :: "worker \<Rightarrow> bool" where
  "batch_ready w \<longleftrightarrow> length (w_events w) > 0 \<and> length (w_events w) \<ge> MAX_PREFETCH_EVENTS"

definition worker_done :: "worker \<Rightarrow> worker" where
  "worker_done w = w\<lparr>w_events := [], w_count := 1, w_pc := AtWait\<rparr>"

definition worker_idle :: "worker \<Rightarrow> worker res" where
  "worker_idle w = rbind (int32_result (w_count w + 1)) (\<lambda>c. Inr (w\<lparr>w_count := c, w_pc := AtWait\<rparr>))"

definition worker_caught :: "worker \<Rightarrow> worker" where
  "worker_caught w = w\<lparr>w_pc := AtWait\<rparr>"

text \<open>The faults that are C++ exceptions, which the loop catches.\<close>

fun is_exception :: "fault \<Rightarrow> bool" where
  "is_exception (Rpc _) = True"
| "is_exception (Msgpack _) = True"
| "is_exception Interprocess = True"
| "is_exception _ = False"

text \<open>Iterations of one worker while nothing else runs. The worker leaves the loop when it is told to exit; an
  exception is caught and leaves the events it held; \<open>thrown\<close> is the state such an exception leaves behind.\<close>

fun worker_loop ::
  "(Event list \<Rightarrow> hstate \<Rightarrow> hstate) \<Rightarrow> DataPlacementEngineType \<Rightarrow> env \<Rightarrow> nat \<Rightarrow> nat \<Rightarrow> worker \<Rightarrow> Event queue_store \<Rightarrow>
   hstate \<Rightarrow> (worker \<times> Event queue_store \<times> hstate) res" where
  "worker_loop thrown dpe e me 0 w q h = Inr (w, q, h)"
| "worker_loop thrown dpe e me (Suc n) w q h =
     (if w_exit w then Inr (w\<lparr>w_pc := Exited\<rparr>, q, h)
      else case worker_pop e me w q of
             Inl f \<Rightarrow> if is_exception f then worker_loop thrown dpe e me n w q h else Inl f
           | Inr (_, w1, q1) \<Rightarrow>
               if batch_ready w1
               then (case handle dpe e me (w_events w1) h of
                       Inr (_, h1) \<Rightarrow> worker_loop thrown dpe e me n (worker_done w1) q1 h1
                     | Inl f \<Rightarrow>
                         if is_exception f
                         then worker_loop thrown dpe e me n (worker_caught w1) q1 (thrown (w_events w1) h)
                         else Inl f)
               else rbind (worker_idle w1) (\<lambda>w2. worker_loop thrown dpe e me n w2 q1 h))"

section \<open>The threads of a server\<close>

datatype stop_pc = Running | Draining | Stopping nat

record server_state =
  queue :: "Event queue_store"
  hst :: hstate
  workers :: "worker list"
  stop_at :: stop_pc

datatype action =
    Pushed Event
  | Popped nat "Event option"
  | Handled nat "Event list"
  | Raised nat "Event list" fault
  | Idle nat
  | Left nat
  | StopCalled
  | Drained
  | Signalled nat
  | Joined nat

definition async_run :: "nat \<Rightarrow> hstate \<Rightarrow> server_state" where
  "async_run numWorker h = \<lparr>queue = DMQ_init, hst = h, workers = replicate numWorker worker_new, stop_at = Running\<rparr>"

definition set_worker :: "nat \<Rightarrow> worker \<Rightarrow> server_state \<Rightarrow> server_state" where
  "set_worker i w s = s\<lparr>workers := (workers s)[i := w]\<rparr>"

inductive server_step ::
  "DataPlacementEngineType \<Rightarrow> env \<Rightarrow> (nat \<Rightarrow> int) \<Rightarrow> nat \<Rightarrow> server_state \<Rightarrow> action \<Rightarrow> server_state \<Rightarrow> bool"
  for dpe :: DataPlacementEngineType and e :: env and start :: "nat \<Rightarrow> int" and me :: nat where
  push: "pushEvents e start me now ev (queue s) = Inr (ev', q') \<Longrightarrow>
    server_step dpe e start me s (Pushed ev') (s\<lparr>queue := q'\<rparr>)"
| pop: "i < length (workers s) \<Longrightarrow> w_pc (workers s ! i) = AtWait \<Longrightarrow> \<not> w_exit (workers s ! i) \<Longrightarrow>
    worker_pop e me (workers s ! i) (queue s) = Inr (r, w, q') \<Longrightarrow>
    server_step dpe e start me s (Popped i r) (set_worker i w (s\<lparr>queue := q'\<rparr>))"
| handled: "i < length (workers s) \<Longrightarrow> w_pc (workers s ! i) = AtHandle \<Longrightarrow> batch_ready (workers s ! i) \<Longrightarrow>
    handle dpe e me (w_events (workers s ! i)) (hst s) = Inr (st, h) \<Longrightarrow>
    server_step dpe e start me s (Handled i (w_events (workers s ! i)))
      (set_worker i (worker_done (workers s ! i)) (s\<lparr>hst := h\<rparr>))"
| raised: "i < length (workers s) \<Longrightarrow> w_pc (workers s ! i) = AtHandle \<Longrightarrow> batch_ready (workers s ! i) \<Longrightarrow>
    handle dpe e me (w_events (workers s ! i)) (hst s) = Inl f \<Longrightarrow> is_exception f \<Longrightarrow>
    server_step dpe e start me s (Raised i (w_events (workers s ! i)) f)
      (set_worker i (worker_caught (workers s ! i)) (s\<lparr>hst := h\<rparr>))"
| idle: "i < length (workers s) \<Longrightarrow> w_pc (workers s ! i) = AtHandle \<Longrightarrow> \<not> batch_ready (workers s ! i) \<Longrightarrow>
    worker_idle (workers s ! i) = Inr w \<Longrightarrow> server_step dpe e start me s (Idle i) (set_worker i w s)"
| leave: "i < length (workers s) \<Longrightarrow> w_pc (workers s ! i) = AtWait \<Longrightarrow> w_exit (workers s ! i) \<Longrightarrow>
    server_step dpe e start me s (Left i) (set_worker i ((workers s ! i)\<lparr>w_pc := Exited\<rparr>) s)"
| stop_called: "stop_at s = Running \<Longrightarrow> server_step dpe e start me s StopCalled (s\<lparr>stop_at := Draining\<rparr>)"
| drained: "stop_at s = Draining \<Longrightarrow> DMQ_Size (app_queue e) me me (queue s) = Inr 0 \<Longrightarrow>
    server_step dpe e start me s Drained (s\<lparr>stop_at := Stopping 0\<rparr>)"
| signalled: "stop_at s = Stopping i \<Longrightarrow> i < length (workers s) \<Longrightarrow> \<not> w_exit (workers s ! i) \<Longrightarrow>
    server_step dpe e start me s (Signalled i) (set_worker i ((workers s ! i)\<lparr>w_exit := True\<rparr>) s)"
| joined: "stop_at s = Stopping i \<Longrightarrow> i < length (workers s) \<Longrightarrow> w_pc (workers s ! i) = Exited \<Longrightarrow>
    server_step dpe e start me s (Joined i) (s\<lparr>stop_at := Stopping (Suc i)\<rparr>)"

inductive_cases step_Drained: "server_step dpe e start me s Drained s'"

inductive server_run ::
  "DataPlacementEngineType \<Rightarrow> env \<Rightarrow> (nat \<Rightarrow> int) \<Rightarrow> nat \<Rightarrow> server_state \<Rightarrow> action list \<Rightarrow> server_state \<Rightarrow> bool"
  for dpe :: DataPlacementEngineType and e :: env and start :: "nat \<Rightarrow> int" and me :: nat and s0 :: server_state where
  run_init: "server_run dpe e start me s0 [] s0"
| run_step: "server_run dpe e start me s0 tr s \<Longrightarrow> server_step dpe e start me s a s' \<Longrightarrow>
    server_run dpe e start me s0 (tr @ [a]) s'"

section \<open>No event is lost\<close>

definition pushed :: "action list \<Rightarrow> Event list" where
  "pushed tr = concat (map (\<lambda>a. case a of Pushed ev \<Rightarrow> [ev] | _ \<Rightarrow> []) tr)"

definition handled_events :: "action list \<Rightarrow> Event list" where
  "handled_events tr = concat (map (\<lambda>a. case a of Handled _ evs \<Rightarrow> evs | _ \<Rightarrow> []) tr)"

definition raises :: "action list \<Rightarrow> bool" where
  "raises tr \<longleftrightarrow> (\<exists>i evs f. Raised i evs f \<in> set tr)"

lemma trace_snoc [simp]:
  "pushed [] = []" "handled_events [] = []"
  "pushed (tr @ [a]) = pushed tr @ (case a of Pushed ev \<Rightarrow> [ev] | _ \<Rightarrow> [])"
  "handled_events (tr @ [a]) = handled_events tr @ (case a of Handled _ evs \<Rightarrow> evs | _ \<Rightarrow> [])"
  by (simp_all add: pushed_def handled_events_def)

text \<open>The queue operations a process uses on its own node never leave it.\<close>

lemma pushEvents_run:
  "pushEvents e start me now ev q =
    Inr (ev\<lparr>ev_time := duration_us (now - start me)\<rparr>, q(me := q me @ [ev\<lparr>ev_time := duration_us (now - start me)\<rparr>]))"
  by (simp add: pushEvents_def GetTimeServer_def DMQ_Push_def at_server_local Let_def)

lemma worker_pop_run:
  "worker_pop e me w q =
    (if q me = [] then Inr (None, w\<lparr>w_pc := AtHandle\<rparr>, q)
     else Inr (Some (hd (q me)), w\<lparr>w_events := w_events w @ [hd (q me)], w_pc := AtHandle\<rparr>, q(me := tl (q me))))"
  by (simp add: worker_pop_def DMQ_Pop_def at_server_local)

lemma worker_fields [simp]:
  "w_events (worker_done w) = []" "w_pc (worker_done w) = AtWait" "w_exit (worker_done w) = w_exit w"
  "w_events (worker_caught w) = w_events w" "w_pc (worker_caught w) = AtWait" "w_exit (worker_caught w) = w_exit w"
  "w_events worker_new = []" "w_pc worker_new = AtWait" "w_exit worker_new = False"
  by (simp_all add: worker_done_def worker_caught_def worker_new_def)

lemma worker_idle_fields:
  "worker_idle w = Inr w' \<Longrightarrow> w_events w' = w_events w \<and> w_pc w' = AtWait \<and> w_exit w' = w_exit w"
  by (auto simp: worker_idle_def rbind_Inr_iff)

lemma set_worker_fields [simp]:
  "workers (set_worker i w s) = (workers s)[i := w]" "queue (set_worker i w s) = queue s"
  "hst (set_worker i w s) = hst s" "stop_at (set_worker i w s) = stop_at s"
  by (simp_all add: set_worker_def)

text \<open>The events workers hold.\<close>

definition held :: "server_state \<Rightarrow> Event multiset" where
  "held s = (\<Sum>w\<leftarrow>workers s. mset (w_events w))"

lemma sum_list_update_mset:
  "i < length ws \<Longrightarrow> (\<Sum>w\<leftarrow>ws[i := w']. f w) + f (ws ! i) = (\<Sum>w\<leftarrow>ws. f w) + (f w' :: 'a multiset)"
proof (induction ws arbitrary: i)
  case (Cons x xs)
  then show ?case by (cases i) (auto simp: ac_simps)
qed simp

lemma held_set_worker:
  assumes "i < length (workers s)" and "mset (w_events w) = mset (w_events (workers s ! i)) + m"
  shows "held (set_worker i w s) = held s + m"
  using sum_list_update_mset[OF assms(1), where w' = w and f = "\<lambda>w. mset (w_events w)"] assms(2)
  by (simp add: held_def add.assoc add.commute[of m])

lemma held_done:
  assumes "i < length (workers s)"
  shows "held s = held (set_worker i (worker_done (workers s ! i)) s) + mset (w_events (workers s ! i))"
  using sum_list_update_mset[OF assms, where w' = "worker_done (workers s ! i)" and f = "\<lambda>w. mset (w_events w)"]
  by (simp add: held_def)

lemma held_frame [simp]: "held (s\<lparr>queue := q\<rparr>) = held s" "held (s\<lparr>hst := h\<rparr>) = held s" "held (s\<lparr>stop_at := p\<rparr>) = held s"
  by (simp_all add: held_def)

lemma set_worker_frame [simp]:
  "set_worker i w (s\<lparr>queue := q\<rparr>) = (set_worker i w s)\<lparr>queue := q\<rparr>"
  "set_worker i w (s\<lparr>hst := h\<rparr>) = (set_worker i w s)\<lparr>hst := h\<rparr>"
  by (simp_all add: set_worker_def)

lemma step_conserves:
  assumes "server_step dpe e start me s a s'"
  shows "mset (pushed [a]) + held s + mset (queue s me) = mset (handled_events [a]) + held s' + mset (queue s' me)"
  using assms
proof cases
  case (pop i r w q')
  have "mset (w_events w) = mset (w_events (workers s ! i)) + mset (case r of Some x \<Rightarrow> [x] | None \<Rightarrow> [])"
    and "mset (queue s me) = mset (case r of Some x \<Rightarrow> [x] | None \<Rightarrow> []) + mset (q' me)"
    using pop(6) by (auto simp: worker_pop_run split: if_splits) (metis add_mset_add_single list.collapse mset.simps(2) union_commute)
  with pop held_set_worker[OF pop(3)] show ?thesis by (simp add: pushed_def handled_events_def ac_simps)
next
  case (handled i st h)
  with held_done[OF handled(3)] show ?thesis by (simp add: pushed_def handled_events_def ac_simps)
next
  case (raised i f h)
  with held_set_worker[OF raised(3), of "worker_caught (workers s ! i)" "{#}"] show ?thesis
    by (simp add: pushed_def handled_events_def)
next
  case (idle i w)
  with held_set_worker[OF idle(3), of w "{#}"] worker_idle_fields[OF idle(6)] show ?thesis
    by (simp add: pushed_def handled_events_def)
next
  case (leave i)
  with held_set_worker[OF leave(3), of "(workers s ! i)\<lparr>w_pc := Exited\<rparr>" "{#}"] show ?thesis
    by (simp add: pushed_def handled_events_def)
next
  case (signalled i)
  with held_set_worker[OF signalled(4), of "(workers s ! i)\<lparr>w_exit := True\<rparr>" "{#}"] show ?thesis
    by (simp add: pushed_def handled_events_def)
qed (auto simp: pushed_def handled_events_def pushEvents_run)

lemma run_conserves:
  assumes "server_run dpe e start me (async_run n h) tr s"
  shows "mset (pushed tr) = mset (handled_events tr) + held s + mset (queue s me)"
  using assms
proof (induction rule: server_run.induct)
  case run_init
  have "(\<Sum>w\<leftarrow>replicate n worker_new. mset (w_events w)) = {#}" by (induction n) simp_all
  then show ?case by (simp add: held_def async_run_def DMQ_init_def)
next
  case (run_step tr s a s')
  with step_conserves[OF run_step.hyps(2)] show ?case by (simp add: pushed_def handled_events_def ac_simps)
qed

section \<open>Batches and stopping\<close>

lemma step_workers: "server_step dpe e start me s a s' \<Longrightarrow> length (workers s') = length (workers s)"
  by (induction rule: server_step.induct) simp_all

text \<open>Until an exception is raised a worker waits with an empty batch and handles one event at a time, and a
  worker that has left holds nothing.\<close>

definition calm :: "server_state \<Rightarrow> bool" where
  "calm s \<longleftrightarrow> (\<forall>w\<in>set (workers s). length (w_events w) \<le> 1 \<and> (w_pc w \<noteq> AtHandle \<longrightarrow> w_events w = []))"

lemma calm_set_worker:
  "calm s \<Longrightarrow> length (w_events w) \<le> 1 \<Longrightarrow> (w_pc w \<noteq> AtHandle \<longrightarrow> w_events w = []) \<Longrightarrow> calm (set_worker i w s)"
  using set_update_subset_insert[of "workers s" i w] unfolding calm_def set_worker_fields(1) by blast

lemma calm_nth: "calm s \<Longrightarrow> i < length (workers s) \<Longrightarrow> length (w_events (workers s ! i)) \<le> 1 \<and>
    (w_pc (workers s ! i) \<noteq> AtHandle \<longrightarrow> w_events (workers s ! i) = [])"
  by (simp add: calm_def)

lemma calm_frame [simp]: "calm (s\<lparr>queue := q\<rparr>) = calm s" "calm (s\<lparr>hst := h\<rparr>) = calm s" "calm (s\<lparr>stop_at := p\<rparr>) = calm s"
  by (simp_all add: calm_def)

lemma step_calm:
  assumes "server_step dpe e start me s a s'" and "calm s" and "\<not> raises [a]"
  shows "calm s'"
  using assms
proof (induction rule: server_step.induct)
  case (pop i s r w q')
  with calm_nth[OF pop.prems(1) pop.hyps(1)] show ?case
    by (auto simp: worker_pop_run split: if_splits intro!: calm_set_worker)
next
  case (handled i s st h)
  then show ?case by (simp add: calm_set_worker)
next
  case (raised i s f h)
  then show ?case by (simp add: raises_def)
next
  case (idle i s w)
  have "w_events (workers s ! i) = []"
    using idle.hyps(3) by (cases "w_events (workers s ! i)") (auto simp: batch_ready_def MAX_PREFETCH_EVENTS_def)
  with idle worker_idle_fields[OF idle.hyps(4)] show ?case by (intro calm_set_worker) auto
next
  case (leave i s)
  with calm_nth[OF leave.prems(1) leave.hyps(1)] show ?case by (intro calm_set_worker) auto
next
  case (signalled s i)
  with calm_nth[OF signalled.prems(1) signalled.hyps(2)] show ?case by (intro calm_set_worker) auto
qed auto

lemma run_calm:
  "server_run dpe e start me (async_run n h) tr s \<Longrightarrow> \<not> raises tr \<Longrightarrow> calm s"
proof (induction rule: server_run.induct)
  case run_init
  then show ?case by (auto simp: calm_def async_run_def)
next
  case (run_step tr s a s')
  then show ?case using step_calm[OF run_step.hyps(2)] by (auto simp: raises_def)
qed

text \<open>The workers below the one being stopped have left.\<close>

definition stop_invar :: "server_state \<Rightarrow> bool" where
  "stop_invar s \<longleftrightarrow> (\<forall>i. stop_at s = Stopping i \<longrightarrow> i \<le> length (workers s) \<and> (\<forall>j<i. w_pc (workers s ! j) = Exited))"

lemma step_stop_invar:
  "server_step dpe e start me s a s' \<Longrightarrow> stop_invar s \<Longrightarrow> stop_invar s'"
proof (induction rule: server_step.induct)
  case (joined s i)
  then show ?case by (auto simp: stop_invar_def less_Suc_eq)
qed (auto simp: stop_invar_def nth_list_update)

lemma run_stop_invar: "server_run dpe e start me (async_run n h) tr s \<Longrightarrow> stop_invar s"
proof (induction rule: server_run.induct)
  case run_init
  then show ?case by (simp add: stop_invar_def async_run_def)
qed (rule step_stop_invar)

lemma run_split:
  assumes "server_run dpe e start me s0 tr s" and "tr = tr1 @ tr2"
  shows "\<exists>s1. server_run dpe e start me s0 tr1 s1 \<and> server_run dpe e start me s1 tr2 s"
  using assms
proof (induction arbitrary: tr2 rule: server_run.induct)
  case run_init
  then show ?case by (auto intro: server_run.run_init)
next
  case (run_step tr s a s')
  show ?case
  proof (cases tr2 rule: rev_cases)
    case Nil
    with run_step show ?thesis by (auto intro: server_run.intros)
  next
    case (snoc tr3 b)
    with run_step.prems have "tr = tr1 @ tr3" and "b = a" by simp_all
    with run_step.IH[of tr3] run_step.hyps(2) snoc show ?thesis by (auto intro: server_run.run_step)
  qed
qed

lemma run_no_push_queue:
  assumes "server_run dpe e start me s0 tr s" and "queue s0 me = []" and "pushed tr = []"
  shows "queue s me = []"
  using assms
proof (induction rule: server_run.induct)
  case (run_step tr s a s')
  then have "queue s me = []" by simp
  with run_step.hyps(2) run_step.prems show ?case
    by (induction rule: server_step.induct) (auto simp: worker_pop_run)
qed

lemma run_workers: "server_run dpe e start me s0 tr s \<Longrightarrow> length (workers s) = length (workers s0)"
  by (induction rule: server_run.induct) (simp_all add: step_workers)

lemma held_none: "\<forall>w\<in>set (workers s). w_events w = [] \<Longrightarrow> held s = {#}"
proof -
  have "\<forall>w\<in>set ws. w_events w = [] \<Longrightarrow> (\<Sum>w\<leftarrow>ws. mset (w_events w)) = {#}" for ws by (induction ws) simp_all
  then show "\<forall>w\<in>set (workers s). w_events w = [] \<Longrightarrow> held s = {#}" unfolding held_def by blast
qed

section \<open>One worker keeps the order\<close>

lemma run_single_order:
  assumes "server_run dpe e start me (async_run 1 h) tr s"
  shows "pushed tr = handled_events tr @ w_events (workers s ! 0) @ queue s me"
  using assms
proof (induction rule: server_run.induct)
  case run_init
  then show ?case by (simp add: async_run_def DMQ_init_def)
next
  case (run_step tr s a s')
  have "length (workers s) = 1" using run_workers[OF run_step.hyps(1)] by (simp add: async_run_def)
  with run_step.hyps(2) run_step.IH show ?case
    by (induction rule: server_step.induct) (auto simp: pushEvents_run worker_pop_run dest: worker_idle_fields split: if_splits)
qed

section \<open>The invariant along a run\<close>

lemma run_valid_events:
  assumes "server_run dpe e start me (async_run n h) tr s" and "i < length (workers s)"
  shows "set (w_events (workers s ! i)) \<subseteq> set (pushed tr)"
proof -
  have "mset (w_events (ws ! i)) \<subseteq># (\<Sum>w\<leftarrow>ws. mset (w_events w))" if "i < length ws" for ws i
    using that
  proof (induction ws arbitrary: i)
    case (Cons x xs)
    then show ?case by (cases i) (auto simp: subset_mset.add_increasing)
  qed simp
  from this[OF assms(2)] have "mset (w_events (workers s ! i)) \<subseteq># mset (pushed tr)"
    unfolding run_conserves[OF assms(1)] held_def by (simp add: subset_mset.add_increasing subset_mset.add_increasing2)
  then show ?thesis by (metis set_mset_mono set_mset_mset)
qed

lemma run_invar:
  assumes "server_run dpe e start me (async_run n h) tr s" and "server_invar e h" and "me < env_servers e"
    and "\<not> raises tr" and "\<forall>ev\<in>set (pushed tr). layer_index ev \<in> layer_id ` set (layers e)"
  shows "server_invar e (hst s)"
  using assms
proof (induction rule: server_run.induct)
  case run_init
  then show ?case by (simp add: async_run_def)
next
  case (run_step tr s a s')
  then have inv: "server_invar e (hst s)" by (simp add: raises_def)
  from run_step.hyps(2) show ?case
  proof cases
    case (handled i st h')
    have "\<forall>ev\<in>set (w_events (workers s ! i)). layer_index ev \<in> layer_id ` set (layers e)"
      using run_valid_events[OF run_step.hyps(1) handled(3)] run_step.prems(4) by (auto simp: handled(1))
    with handled handle_invar[OF inv assms(3) _ handled(6)] show ?thesis by simp
  next
    case (raised i f h)
    with run_step.prems(3) show ?thesis by (auto simp: raises_def)
  qed (use inv in auto)
qed

section \<open>Properties\<close>

text \<open>C3: In every run of the threads of a server, each event pushed so far is exactly once in the queue, in the
  batch of a worker, or among the events handled.\<close>

theorem no_event_lost:
  assumes "server_run dpe e start me (async_run n h) tr s"
  shows "mset (pushed tr) = mset (handled_events tr) + (\<Sum>w\<leftarrow>workers s. mset (w_events w)) + mset (queue s me)"
  using run_conserves[OF assms] by (simp add: held_def)

text \<open>A run that pushes the closing of an unknown file, pops and handles it.\<close>

lemma example_run:
  "\<exists>s. server_run MAX_BW example_env (\<lambda>_. 0) 0 (async_run 1 example_hstate)
      [Pushed (close_event 2), Popped 0 (Some (close_event 2)), Handled 0 [close_event 2]] s \<and> queue s 0 = [] \<and>
    workers s = [worker_done worker_new] \<and> hst s = example_hstate \<and> stop_at s = Running"
proof -
  let ?ev = "close_event 2" and ?s0 = "async_run 1 example_hstate"
  let ?w = "worker_new\<lparr>w_events := [close_event 2], w_pc := AtHandle\<rparr>"
  let ?s1 = "?s0\<lparr>queue := DMQ_init(0 := [?ev])\<rparr>"
  let ?s2 = "set_worker 0 ?w (?s1\<lparr>queue := DMQ_init\<rparr>)"
  let ?s3 = "set_worker 0 (worker_done ?w) (?s2\<lparr>hst := example_hstate\<rparr>)"
  have "pushEvents example_env (\<lambda>_. 0) 0 2000 (example_event FILE_CLOSE) (queue ?s0) = Inr (?ev, DMQ_init(0 := [?ev]))"
    by (simp add: pushEvents_run close_event_def duration_us_def async_run_def DMQ_init_def)
  then have 1: "server_step MAX_BW example_env (\<lambda>_. 0) 0 ?s0 (Pushed ?ev) ?s1" by (rule server_step.push)
  have "worker_pop example_env 0 (workers ?s1 ! 0) (queue ?s1) = Inr (Some ?ev, ?w, DMQ_init)"
    by (auto simp: worker_pop_run async_run_def DMQ_init_def fun_upd_def worker_new_def)
  then have 2: "server_step MAX_BW example_env (\<lambda>_. 0) 0 ?s1 (Popped 0 (Some ?ev)) ?s2"
    by (intro server_step.pop) (simp_all add: async_run_def)
  have "handle MAX_BW example_env 0 (w_events (workers ?s2 ! 0)) (hst ?s2) = Inr (SERVER_SUCCESS, example_hstate)"
    using handle_close_event by (simp add: async_run_def)
  then have 3: "server_step MAX_BW example_env (\<lambda>_. 0) 0 ?s2 (Handled 0 (w_events (workers ?s2 ! 0)))
      (set_worker 0 (worker_done (workers ?s2 ! 0)) (?s2\<lparr>hst := example_hstate\<rparr>))"
    by (intro server_step.handled) (simp_all add: async_run_def batch_ready_def MAX_PREFETCH_EVENTS_def)
  have "server_run MAX_BW example_env (\<lambda>_. 0) 0 ?s0 ([] @ [Pushed ?ev] @ [Popped 0 (Some ?ev)] @ [Handled 0 [?ev]]) ?s3"
    using server_run.run_step[OF server_run.run_step[OF server_run.run_step[OF server_run.run_init 1] 2] 3]
    by (simp add: async_run_def)
  then show ?thesis
    by (intro exI[of _ ?s3]) (simp add: async_run_def DMQ_init_def worker_done_def worker_new_def)
qed

theorem no_event_lost_witness:
  "\<exists>s. server_run MAX_BW example_env (\<lambda>_. 0) 0 (async_run 1 example_hstate)
      [Pushed (close_event 2), Popped 0 (Some (close_event 2)), Handled 0 [close_event 2]] s \<and>
    {#close_event 2#} = {#close_event 2#} + (\<Sum>w\<leftarrow>workers s. mset (w_events w)) + mset (queue s 0)"
proof -
  obtain s where s: "server_run MAX_BW example_env (\<lambda>_. 0) 0 (async_run 1 example_hstate)
      [Pushed (close_event 2), Popped 0 (Some (close_event 2)), Handled 0 [close_event 2]] s"
    using example_run by blast
  from no_event_lost[OF this] s show ?thesis by (auto simp: pushed_def handled_events_def)
qed

text \<open>With a single worker, events are handled in the order in which they were pushed: what was handled,
  then the worker's batch, then the queue are the events pushed.\<close>

theorem single_worker_in_order:
  assumes "server_run dpe e start me (async_run 1 h) tr s"
  shows "pushed tr = handled_events tr @ w_events (workers s ! 0) @ queue s me"
  by (rule run_single_order[OF assms])

text \<open>C4: When \<open>stop\<close> has joined all workers, no exception was raised and nothing was pushed after \<open>stop\<close> found the
  queue empty, then every event pushed has been handled, each once.\<close>

theorem stop_handles_everything:
  assumes "server_run dpe e start me (async_run n h) (tr1 @ Drained # tr2) s" and "stop_at s = Stopping n"
    and "\<not> raises (tr1 @ Drained # tr2)" and "pushed tr2 = []"
  shows "mset (handled_events (tr1 @ Drained # tr2)) = mset (pushed (tr1 @ Drained # tr2)) \<and> queue s me = []"
proof -
  obtain s1 where s1: "server_run dpe e start me (async_run n h) (tr1 @ [Drained]) s1" "server_run dpe e start me s1 tr2 s"
    using run_split[OF assms(1), of "tr1 @ [Drained]" tr2] by auto
  from s1(1) obtain s0 where "server_step dpe e start me s0 Drained s1"
    by (cases rule: server_run.cases) auto
  then have "queue s1 me = []" by (rule step_Drained) (auto simp: DMQ_Size_def at_server_local)
  then have q: "queue s me = []" using run_no_push_queue[OF s1(2)] assms(4) by blast
  have n: "length (workers s) = n" using run_workers[OF assms(1)] by (simp add: async_run_def)
  have "\<forall>w\<in>set (workers s). w_pc w = Exited"
    using run_stop_invar[OF assms(1)] assms(2) n by (auto simp: stop_invar_def in_set_conv_nth)
  then have "held s = {#}" using run_calm[OF assms(1,3)] by (intro held_none) (auto simp: calm_def)
  with q run_conserves[OF assms(1)] show ?thesis by simp
qed

theorem single_worker_in_order_witness:
  "\<exists>s. server_run MAX_BW example_env (\<lambda>_. 0) 0 (async_run 1 example_hstate)
      [Pushed (close_event 2), Popped 0 (Some (close_event 2)), Handled 0 [close_event 2]] s \<and>
    [close_event 2] = [close_event 2] @ w_events (workers s ! 0) @ queue s 0"
proof -
  obtain s where s: "server_run MAX_BW example_env (\<lambda>_. 0) 0 (async_run 1 example_hstate)
      [Pushed (close_event 2), Popped 0 (Some (close_event 2)), Handled 0 [close_event 2]] s"
    using example_run by blast
  from single_worker_in_order[OF this] s show ?thesis by (auto simp: pushed_def handled_events_def)
qed

text \<open>The example run, stopped.\<close>

lemma example_stopped:
  "\<exists>s. server_run MAX_BW example_env (\<lambda>_. 0) 0 (async_run 1 example_hstate)
      ([Pushed (close_event 2), Popped 0 (Some (close_event 2)), Handled 0 [close_event 2], StopCalled] @ Drained #
       [Signalled 0, Left 0, Joined 0]) s \<and> stop_at s = Stopping 1"
proof -
  obtain s where s: "server_run MAX_BW example_env (\<lambda>_. 0) 0 (async_run 1 example_hstate)
      [Pushed (close_event 2), Popped 0 (Some (close_event 2)), Handled 0 [close_event 2]] s"
    "queue s 0 = []" "workers s = [worker_done worker_new]" "stop_at s = Running"
    using example_run by blast
  let ?step = "server_step MAX_BW example_env (\<lambda>_. 0) 0"
  let ?w = "(worker_done worker_new)\<lparr>w_exit := True\<rparr>"
  let ?s1 = "s\<lparr>stop_at := Draining\<rparr>" and ?s2 = "s\<lparr>stop_at := Draining\<rparr>\<lparr>stop_at := Stopping 0\<rparr>"
  let ?s3 = "set_worker 0 ((workers ?s2 ! 0)\<lparr>w_exit := True\<rparr>) ?s2"
  let ?s4 = "set_worker 0 ((workers ?s3 ! 0)\<lparr>w_pc := Exited\<rparr>) ?s3"
  have 1: "?step s StopCalled ?s1" using s(4) by (rule server_step.stop_called)
  have 2: "?step ?s1 Drained ?s2" using s(2) by (intro server_step.drained) (simp_all add: DMQ_Size_def at_server_local)
  have 3: "?step ?s2 (Signalled 0) ?s3" using s(3) by (intro server_step.signalled) simp_all
  have 4: "?step ?s3 (Left 0) ?s4" using s(3) by (intro server_step.leave) simp_all
  have 5: "?step ?s4 (Joined 0) (?s4\<lparr>stop_at := Stopping (Suc 0)\<rparr>)" using s(3) by (intro server_step.joined) simp_all
  from server_run.run_step[OF server_run.run_step[OF server_run.run_step[OF server_run.run_step[OF
      server_run.run_step[OF s(1) 1] 2] 3] 4] 5]
  show ?thesis by (intro exI[of _ "?s4\<lparr>stop_at := Stopping (Suc 0)\<rparr>"]) simp
qed

theorem stop_handles_everything_witness:
  "\<exists>s. server_run MAX_BW example_env (\<lambda>_. 0) 0 (async_run 1 example_hstate)
      ([Pushed (close_event 2), Popped 0 (Some (close_event 2)), Handled 0 [close_event 2], StopCalled] @ Drained #
       [Signalled 0, Left 0, Joined 0]) s \<and> {#close_event 2#} = {#close_event 2#} \<and> queue s 0 = []"
proof -
  obtain s where s: "server_run MAX_BW example_env (\<lambda>_. 0) 0 (async_run 1 example_hstate)
      ([Pushed (close_event 2), Popped 0 (Some (close_event 2)), Handled 0 [close_event 2], StopCalled] @ Drained #
       [Signalled 0, Left 0, Joined 0]) s" "stop_at s = Stopping 1"
    using example_stopped by blast
  have "\<not> raises ([Pushed (close_event 2), Popped 0 (Some (close_event 2)), Handled 0 [close_event 2], StopCalled] @
      Drained # [Signalled 0, Left 0, Joined 0])" by (simp add: raises_def)
  from stop_handles_everything[OF s this] s(1) show ?thesis by (auto simp: pushed_def)
qed

text \<open>C14: Along every run in which no exception is raised and the events name existing layers, the server
  invariant (consistent storage metadata, ordered and owned offset maps, sorted score maps) holds.\<close>

theorem run_keeps_server_invar:
  assumes "server_run dpe e start me (async_run n h) tr s" and "server_invar e h" and "me < env_servers e"
    and "\<not> raises tr" and "\<forall>ev\<in>set (pushed tr). layer_index ev \<in> layer_id ` set (layers e)"
  shows "server_invar e (hst s)"
  by (rule run_invar[OF assms])

theorem run_keeps_server_invar_witness:
  "\<exists>tr s. server_run MAX_BW example_env (\<lambda>_. 0) 0 (async_run 1 example_hstate) tr s \<and> length tr = 3 \<and>
     server_invar example_env (hst s)"
proof -
  let ?tr = "[Pushed (close_event 2), Popped 0 (Some (close_event 2)), Handled 0 [close_event 2]]"
  obtain s where s: "server_run MAX_BW example_env (\<lambda>_. 0) 0 (async_run 1 example_hstate) ?tr s"
    using example_run by blast
  have "server_invar example_env (hst s)"
    by (rule run_keeps_server_invar[OF s example_server_invar])
      (use example_event_layer in \<open>auto simp: example_env_def raises_def pushed_def close_event_def\<close>)
  with s show ?thesis by (intro exI[of _ ?tr] exI[of _ s]) simp
qed

text \<open>What one more event of the queue does to the events a worker holds and to the state.\<close>

definition handle_next ::
  "(Event list \<Rightarrow> hstate \<Rightarrow> hstate) \<Rightarrow> DataPlacementEngineType \<Rightarrow> env \<Rightarrow> nat \<Rightarrow> Event \<Rightarrow> Event list \<times> hstate \<Rightarrow>
   (Event list \<times> hstate) res" where
  "handle_next thrown dpe e me ev bh =
     (case handle dpe e me (fst bh @ [ev]) (snd bh) of
        Inr (_, h) \<Rightarrow> Inr ([], h)
      | Inl f \<Rightarrow> if is_exception f then Inr (fst bh @ [ev], thrown (fst bh @ [ev]) (snd bh)) else Inl f)"

lemma worker_loop_run:
  "\<not> w_exit w \<Longrightarrow>
    (case rfold (handle_next thrown dpe e me) (q me) (w_events w, h) of
       Inl f \<Rightarrow> worker_loop thrown dpe e me (length (q me)) w q h = Inl f
     | Inr (left, h') \<Rightarrow> \<exists>w'. worker_loop thrown dpe e me (length (q me)) w q h = Inr (w', q(me := []), h') \<and>
         w_events w' = left \<and> \<not> w_exit w')"
proof (induction "q me" arbitrary: w q h)
  case Nil
  then have "q(me := []) = q" by (simp add: fun_upd_idem)
  with Nil show ?case by (simp flip: Nil(1))
next
  case (Cons ev evs)
  let ?q = "q(me := evs)" and ?evs = "w_events w @ [ev]"
  let ?w = "w\<lparr>w_events := ?evs, w_pc := AtHandle\<rparr>"
  have ev: "q me = ev # evs" using Cons.hyps(2) by simp
  have pop: "worker_pop e me w q = Inr (Some ev, ?w, ?q)" by (simp add: worker_pop_run ev)
  have ready: "batch_ready ?w" by (simp add: batch_ready_def MAX_PREFETCH_EVENTS_def)
  have IH: "\<not> w_exit w' \<Longrightarrow>
    (case rfold (handle_next thrown dpe e me) evs (w_events w', h') of
       Inl f \<Rightarrow> worker_loop thrown dpe e me (length evs) w' ?q h' = Inl f
     | Inr (left, h'') \<Rightarrow> \<exists>w''. worker_loop thrown dpe e me (length evs) w' ?q h' = Inr (w'', q(me := []), h'') \<and>
         w_events w'' = left \<and> \<not> w_exit w'')" for w' h'
    using Cons.hyps(1)[of ?q w' h'] by (simp cong: if_cong sum.case_cong)
  have loop: "worker_loop thrown dpe e me (length (q me)) w q h =
      (case handle dpe e me ?evs h of
         Inr (_, h1) \<Rightarrow> worker_loop thrown dpe e me (length evs) (worker_done ?w) ?q h1
       | Inl f \<Rightarrow> if is_exception f
                  then worker_loop thrown dpe e me (length evs) (worker_caught ?w) ?q (thrown ?evs h) else Inl f)"
    using Cons.prems pop ready by (simp add: ev cong: sum.case_cong if_cong)
  show ?case
  proof (cases "handle dpe e me ?evs h")
    case (Inl f)
    have eq: "worker_loop thrown dpe e me (length (q me)) w q h =
        (if is_exception f then worker_loop thrown dpe e me (length evs) (worker_caught ?w) ?q (thrown ?evs h) else Inl f)"
      unfolding loop Inl by simp
    show ?thesis
      unfolding eq using IH[of "worker_caught ?w" "thrown ?evs h"] Cons.prems Inl
      by (cases "is_exception f") (simp_all add: ev handle_next_def cong: sum.case_cong)
  next
    case (Inr r)
    have eq: "worker_loop thrown dpe e me (length (q me)) w q h =
        worker_loop thrown dpe e me (length evs) (worker_done ?w) ?q (snd r)"
      unfolding loop Inr by (cases r) simp
    show ?thesis
      unfolding eq using IH[of "worker_done ?w" "snd r"] Cons.prems Inr by (cases r) (simp add: ev handle_next_def)
  qed
qed

text \<open>C32: A worker that runs alone and was not told to exit empties the queue of its server in as many iterations as
  there are events, whatever events it holds: in each it takes the next event, in order, and hands it to \<open>handle\<close> behind
  the events it holds, which are those an exception of \<open>handle\<close> left; afterwards it holds the events the last exception
  left, if any. Only an operation without a defined result ends it earlier.\<close>

theorem worker_empties_queue:
  assumes "\<not> w_exit w"
  shows "case rfold (handle_next thrown dpe e me) (q me) (w_events w, h) of
      Inl f \<Rightarrow> worker_loop thrown dpe e me (length (q me)) w q h = Inl f \<and> \<not> is_exception f
    | Inr (left, h') \<Rightarrow> \<exists>w'. worker_loop thrown dpe e me (length (q me)) w q h = Inr (w', q(me := []), h') \<and>
        w_events w' = left"
proof -
  have fault: "rfold (handle_next thrown dpe e me) evs bh = Inl f \<Longrightarrow> \<not> is_exception f" for evs bh f
    by (induction evs arbitrary: bh) (auto simp: rbind_Inl_iff handle_next_def split: sum.splits if_splits)
  show ?thesis
    using worker_loop_run[OF assms, of thrown dpe e me q h] fault by (auto split: sum.splits)
qed

theorem worker_empties_queue_witness:
  "\<exists>w'. worker_loop (\<lambda>_ h. h) MAX_BW example_env 0 2 worker_new (DMQ_init(0 := [close_event 1, close_event 2])) example_hstate =
     Inr (w', DMQ_init, example_hstate) \<and> w_events w' = []"
proof -
  let ?q = "DMQ_init(0 := [close_event 1, close_event 2])"
  have q: "length (?q 0) = 2" "?q(0 := []) = DMQ_init" by (simp_all add: DMQ_init_def fun_eq_iff)
  have run: "rfold (handle_next (\<lambda>_ h. h) MAX_BW example_env 0) (?q 0) (w_events worker_new, example_hstate) =
      Inr ([], example_hstate)" by (simp add: handle_next_def handle_close_event)
  have "\<not> w_exit worker_new" by simp
  from worker_empties_queue[OF this, where thrown = "\<lambda>_ h. h" and q = ?q and me = 0 and h = example_hstate
      and dpe = MAX_BW and e = example_env]
  show ?thesis unfolding run q by (simp only: sum.case prod.case)
qed

text \<open>Ranks of applications are assigned to servers in blocks of \<open>ranks_per_server\<close>: as long as there are no more
  ranks than the servers can take, every client is given an existing server.\<close>

theorem clients_assigned_in_blocks:
  assumes "InitializeClients args rank c = Inr c'" and "0 \<le> my_rank_world c" and "0 < arg_ranks_per_server args"
    and "my_rank_world c < arg_num_servers args * arg_ranks_per_server args" and "arg_num_servers args \<le> 2 ^ 16"
  shows "int (my_server c') = my_rank_world c div arg_ranks_per_server args \<and> int (my_server c') < cf_num_servers c' \<and>
    \<not> cf_is_server c'"
proof -
  let ?r = "arg_ranks_per_server args" and ?w = "my_rank_world c"
  obtain c1 where c1: "build_from_args args c = Inr c1" and c': "c' = UpdateServerComm rank (c1\<lparr>cf_max_num_files := max_files args,
      cf_ranks_per_server := ?r, cf_comm_threads := arg_comm_threads args,
      cf_num_workers := to_int32 (int (arg_num_workers args)), cf_is_server := False,
      cf_num_servers := arg_num_servers args,
      my_server := nat (sgn (my_rank_world c1) * sgn ?r * (\<bar>my_rank_world c1\<bar> div \<bar>?r\<bar>) mod 2 ^ 16)\<rparr>)"
    using assms(1,3) by (auto simp: InitializeClients_def rbind_Inr_iff Let_def)
  have w: "my_rank_world c1 = ?w"
    using c1 by (auto simp: build_from_args_def rbind_Inr_iff split: if_splits option.splits)
  have q0: "0 \<le> ?w div ?r" using assms(2,3) by (simp add: pos_imp_zdiv_nonneg_iff)
  have "?w div ?r * ?r \<le> ?w" using assms(3) div_mult_mod_eq[of ?w ?r] pos_mod_sign[of ?r ?w] by linarith
  then have "?w div ?r * ?r < arg_num_servers args * ?r" using assms(4) by linarith
  then have q: "0 \<le> ?w div ?r" "?w div ?r < arg_num_servers args" using q0 assms(3) by simp_all
  have "sgn ?w * sgn ?r * (\<bar>?w\<bar> div \<bar>?r\<bar>) = ?w div ?r" using assms(2,3) by (cases "?w = 0") auto
  moreover have "?w div ?r mod 2 ^ 16 = ?w div ?r" using q assms(5) by (intro mod_pos_pos_trivial) auto
  ultimately show ?thesis using q by (simp add: c' UpdateServerComm_def w)
qed

theorem clients_assigned_in_blocks_witness:
  "\<exists>c'. InitializeClients (default_args\<lparr>arg_layers := Some [], layer_count := 0, arg_num_servers := 2,
       arg_ranks_per_server := 4\<rparr>) 0 (ConfigurationManager_new 8 5) = Inr c' \<and> int (my_server c') = 1"
proof -
  let ?a = "default_args\<lparr>arg_layers := Some [], layer_count := 0, arg_num_servers := 2, arg_ranks_per_server := 4\<rparr>"
  obtain c' where c': "InitializeClients ?a 0 (ConfigurationManager_new 8 5) = Inr c'"
    by (simp add: InitializeClients_def build_from_args_def BuildLayers_def Let_def)
  from clients_assigned_in_blocks[OF this] c' show ?thesis by (simp add: ConfigurationManager_new_def)
qed

end
