(* ===== verification/Hfetch_Lib.thy ===== *)
theory Hfetch_Lib
  imports Server
begin

text \<open>
  \<open>src/src/lib/\<close>: the library an application links. \<open>MetadataManager\<close> remembers the path every open stream was
  opened with; \<open>hfetch::fopen\<close>, \<open>fread\<close>, \<open>fseek\<close>, \<open>fwrite\<close> and \<open>fclose\<close> wrap the C functions, push an event to
  the server of the node and serve reads from the location the auditor names.

  C streams are modelled without buffering: a stream is a position in a file of the file system the shared file
  client works on. A \<open>FILE*\<close> is a number, \<open>None\<close> is the null pointer; a call on a pointer that is not an open
  stream is \<open>Undefined\<close>. The address \<open>fopen\<close> returns and the initial position of a stream in append mode are
  chosen by the C library and are arguments. The disk is never full.
\<close>

section \<open>The metadata manager\<close>

type_synonym fp_table = "(nat \<times> string) list"

definition MetadataManager_new :: fp_table where
  "MetadataManager_new = []"

definition MetadataManager_GetFilename :: "nat \<Rightarrow> fp_table \<Rightarrow> bool \<times> string" where
  "MetadataManager_GetFilename fh fp_map =
     (case um_find fh fp_map of Some filename \<Rightarrow> (True, filename) | None \<Rightarrow> (False, []))"

definition MetadataManager_Update :: "nat \<Rightarrow> string \<Rightarrow> fp_table \<Rightarrow> ServerStatus \<times> fp_table" where
  "MetadataManager_Update fh filename fp_map =
     (SERVER_SUCCESS,
      case um_find fh fp_map of
        Some _ \<Rightarrow> um_insert fh filename (um_erase fh fp_map)
      | None \<Rightarrow> um_insert fh filename fp_map)"

definition MetadataManager_Delete :: "nat \<Rightarrow> fp_table \<Rightarrow> ServerStatus \<times> fp_table" where
  "MetadataManager_Delete fh fp_map =
     (SERVER_SUCCESS, case um_find fh fp_map of Some _ \<Rightarrow> um_erase fh fp_map | None \<Rightarrow> fp_map)"

section \<open>C streams\<close>

record stream =
  st_path :: string
  st_pos :: nat
  st_reads :: bool
  st_writes :: bool
  st_append :: bool

datatype whence = SEEK_SET | SEEK_CUR | SEEK_END

definition file_content :: "string \<Rightarrow> file_system \<Rightarrow> string" where
  "file_content path fs = (case um_find path fs of None \<Rightarrow> [] | Some c \<Rightarrow> c)"

definition c_fopen ::
  "nat \<Rightarrow> nat \<Rightarrow> string \<Rightarrow> string \<Rightarrow> file_system \<Rightarrow> (nat \<times> stream) option \<times> file_system" where
  "c_fopen addr append_pos path mode fs =
     (let plus = CHR ''+'' \<in> set mode; known = um_find path fs \<noteq> None;
          created = (if known then fs else fs_put path [] fs)
      in case mode of
           [] \<Rightarrow> (None, fs)
         | m # _ \<Rightarrow>
             if m = CHR ''r''
             then (if known then (Some (addr, \<lparr>st_path = path, st_pos = 0, st_reads = True, st_writes = plus,
                     st_append = False\<rparr>), fs) else (None, fs))
             else if m = CHR ''w''
             then (Some (addr, \<lparr>st_path = path, st_pos = 0, st_reads = plus, st_writes = True, st_append = False\<rparr>),
                   fs_put path [] fs)
             else if m = CHR ''a''
             then (Some (addr, \<lparr>st_path = path, st_pos = append_pos, st_reads = plus, st_writes = True,
                     st_append = True\<rparr>), created)
             else (None, fs))"

definition c_fseek :: "int \<Rightarrow> whence \<Rightarrow> file_system \<Rightarrow> stream \<Rightarrow> int \<times> stream" where
  "c_fseek offset origin fs s =
     (let base = (case origin of SEEK_SET \<Rightarrow> 0 | SEEK_CUR \<Rightarrow> int (st_pos s)
                  | SEEK_END \<Rightarrow> int (length (file_content (st_path s) fs)));
          p = base + offset
      in if p < 0 then (- 1, s) else (0, s\<lparr>st_pos := nat p\<rparr>))"

definition c_ftell :: "stream \<Rightarrow> int" where
  "c_ftell s = int (st_pos s)"

text \<open>\<open>memcpy\<close> and \<open>fread\<close> into the caller's buffer.\<close>

definition buffer_put :: "string \<Rightarrow> nat \<Rightarrow> string \<Rightarrow> string res" where
  "buffer_put ptr off bs =
     (if off + length bs \<le> length ptr then Inr (take off ptr @ bs @ drop (off + length bs) ptr)
      else Inl (Undefined BufferOverflow))"

definition c_fread :: "string \<Rightarrow> nat \<Rightarrow> nat \<Rightarrow> file_system \<Rightarrow> stream \<Rightarrow> (string \<times> stream) res" where
  "c_fread ptr size' cnt fs s =
     (let bs = (if st_reads s
                then take (to_size_t (int size' * int cnt)) (drop (st_pos s) (file_content (st_path s) fs)) else [])
      in rbind (buffer_put ptr 0 bs) (\<lambda>ptr'. Inr (ptr', s\<lparr>st_pos := st_pos s + length bs\<rparr>)))"

definition c_fwrite :: "string \<Rightarrow> nat \<Rightarrow> nat \<Rightarrow> file_system \<Rightarrow> stream \<Rightarrow> (nat \<times> file_system \<times> stream) res" where
  "c_fwrite ptr size' cnt fs s =
     (let n = to_size_t (int size' * int cnt); c = file_content (st_path s) fs;
          pos = (if st_append s then length c else st_pos s)
      in if \<not> st_writes s \<or> n = 0 then Inr (0, fs, s)
         else if length ptr < n then Inl (Undefined BufferOverflow)
         else Inr (cnt, fs_put (st_path s) (file_write c pos (take n ptr)) fs, s\<lparr>st_pos := pos + n\<rparr>))"

section \<open>The state of an application process\<close>

record app_state =
  conf :: ConfigurationManager
  fp_map :: fp_table
  opened :: "(nat \<times> stream) list"
  app_events :: "Event queue_store"
  app_h :: hstate

definition disk :: "app_state \<Rightarrow> file_system" where
  "disk a = files (shared_client (io (app_h a)))"

definition set_disk :: "file_system \<Rightarrow> app_state \<Rightarrow> app_state" where
  "set_disk fs a =
     a\<lparr>app_h := (app_h a)\<lparr>io := (io (app_h a))\<lparr>shared_client := (shared_client (io (app_h a)))\<lparr>files := fs\<rparr>\<rparr>\<rparr>\<rparr>"

definition stream_of :: "nat \<Rightarrow> app_state \<Rightarrow> stream res" where
  "stream_of fh a = (case um_find fh (opened a) of None \<Rightarrow> Inl (Undefined NullPointer) | Some s \<Rightarrow> Inr s)"

definition set_stream :: "nat \<Rightarrow> stream \<Rightarrow> app_state \<Rightarrow> app_state" where
  "set_stream fh s a = a\<lparr>opened := um_insert fh s (um_erase fh (opened a))\<rparr>"

text \<open>The GNU \<open>basename\<close>: what follows the last slash.\<close>

definition c_basename :: "string \<Rightarrow> string" where
  "c_basename path = rev (takeWhile (\<lambda>c. c \<noteq> CHR ''/'') (rev path))"

definition to_long :: "int \<Rightarrow> int" where
  "to_long x = (x + 2 ^ 63) mod 2 ^ 64 - 2 ^ 63"

text \<open>The event every wrapper builds and pushes; \<open>now\<close> is the reading of the clock.\<close>

definition push_file_event ::
  "env \<Rightarrow> (nat \<Rightarrow> int) \<Rightarrow> nat \<Rightarrow> int \<Rightarrow> EventType \<Rightarrow> string \<Rightarrow> Segment \<Rightarrow> app_state \<Rightarrow> (Event \<times> app_state) res" where
  "push_file_event e start me now ty filename segment a =
     rbind (CharStruct (c_basename filename)) (\<lambda>name.
     rbind (Layer_LAST (layers e)) (\<lambda>last_layer.
     rbind (pushEvents e start me now
              \<lparr>ev_filename = name, ev_segment = segment, event_type = ty, ev_source = APPLICATION,
               layer_index = layer_id last_layer, ev_time = 0\<rparr> (app_events a)) (\<lambda>(ev, q).
       Inr (ev, a\<lparr>app_events := q\<rparr>))))"

section \<open>The wrappers\<close>

definition append_mode :: "string \<Rightarrow> bool" where
  "append_mode mode \<longleftrightarrow> mode = ''a'' \<or> mode = ''a+''"

definition hfetch_fopen ::
  "env \<Rightarrow> (nat \<Rightarrow> int) \<Rightarrow> nat \<Rightarrow> int \<Rightarrow> nat \<Rightarrow> nat \<Rightarrow> string \<Rightarrow> string \<Rightarrow> app_state \<Rightarrow> (nat \<times> app_state) res" where
  "hfetch_fopen e start me now addr append_pos filename mode a =
     (case c_fopen addr append_pos filename mode (disk a) of
        (None, _) \<Rightarrow> Inl (Undefined NullPointer)
      | (Some (fh, s), fs) \<Rightarrow>
          let s = (if append_mode mode then s else snd (c_fseek 0 SEEK_END fs s));
              file_size = c_ftell s;
              s = (if append_mode mode then s else snd (c_fseek 0 SEEK_SET fs s));
              a = set_stream fh s (set_disk fs a);
              a = a\<lparr>fp_map := snd (MetadataManager_Update fh filename (fp_map a))\<rparr>
          in rbind (push_file_event e start me now FILE_OPEN filename \<lparr>seg_start = 0, seg_end = file_size - 1\<rparr> a)
               (\<lambda>(_, a). Inr (fh, a)))"

definition hfetch_fclose ::
  "env \<Rightarrow> (nat \<Rightarrow> int) \<Rightarrow> nat \<Rightarrow> int \<Rightarrow> nat \<Rightarrow> app_state \<Rightarrow> (int \<times> app_state) res" where
  "hfetch_fclose e start me now fh a =
     (case MetadataManager_GetFilename fh (fp_map a) of
        (False, _) \<Rightarrow> Inr (- 1, a)
      | (True, filename) \<Rightarrow>
          rbind (stream_of fh a) (\<lambda>s.
            let file_size = c_ftell (snd (c_fseek 0 SEEK_END (disk a) s));
                a = a\<lparr>opened := um_erase fh (opened a), fp_map := snd (MetadataManager_Delete fh (fp_map a))\<rparr>
            in rbind (push_file_event e start me now FILE_CLOSE filename \<lparr>seg_start = 0, seg_end = file_size - 1\<rparr> a)
                 (\<lambda>(_, a). Inr (0, a))))"

definition hfetch_fseek :: "nat \<Rightarrow> int \<Rightarrow> whence \<Rightarrow> app_state \<Rightarrow> (int \<times> app_state) res" where
  "hfetch_fseek fh offset origin a =
     rbind (stream_of fh a) (\<lambda>s.
       let (r, s) = c_fseek offset origin (disk a) s in Inr (r, set_stream fh s a))"

definition hfetch_fwrite :: "string \<Rightarrow> nat \<Rightarrow> nat \<Rightarrow> nat \<Rightarrow> app_state \<Rightarrow> (nat \<times> app_state) res" where
  "hfetch_fwrite ptr size' cnt fh a =
     rbind (stream_of fh a) (\<lambda>s.
     rbind (c_fwrite ptr size' cnt (disk a) s) (\<lambda>(n, fs, s). Inr (n, set_stream fh s (set_disk fs a))))"

text \<open>One iteration of the loop of \<open>fread\<close> over the locations of the data; the status of \<open>Read\<close> is not looked at.\<close>

definition fread_location ::
  "env \<Rightarrow> nat \<Rightarrow> Layer \<Rightarrow> io_state \<Rightarrow> PosixFile \<times> PosixFile \<Rightarrow> string \<times> nat \<times> ConfigurationManager \<Rightarrow>
   (string \<times> nat \<times> ConfigurationManager) res" where
  "fread_location e me last_layer io' data s =
     (let (ptr, original_offset, c) = s; (source, destination) = data; c = c\<lparr>total := total c + 1\<rparr>
      in if PosixFile_GetSize destination > 0
         then
           let c = (if \<not> Layer_eq (pf_layer source) last_layer then c\<lparr>hit := hit c + 1\<rparr> else c)
           in rbind (client_Read e me (io_client_type (pf_layer source)) source destination io') (\<lambda>(_, destination).
              rbind (cstr_bytes (pf_data destination) 0 (PosixFile_GetSize destination)) (\<lambda>bs.
              rbind (buffer_put ptr original_offset bs) (\<lambda>ptr.
                Inr (ptr, original_offset + nat (PosixFile_GetSize destination), c))))
         else Inr (ptr, original_offset, c))"

text \<open>\<open>ptr\<close> is the content of the caller's buffer before the call; the result holds its content afterwards.
  \<open>current_offset\<close> is the status of \<open>fseek\<close>, and the stream is moved to it.\<close>

definition hfetch_fread ::
  "env \<Rightarrow> (nat \<Rightarrow> int) \<Rightarrow> nat \<Rightarrow> int \<Rightarrow> string \<Rightarrow> nat \<Rightarrow> nat \<Rightarrow> nat \<Rightarrow> app_state \<Rightarrow> (nat \<times> string \<times> app_state) res" where
  "hfetch_fread e start me now ptr size' cnt fh a =
     (case MetadataManager_GetFilename fh (fp_map a) of
        (False, _) \<Rightarrow> Inr (to_size_t (- 1), ptr, a)
      | (True, filename) \<Rightarrow>
          rbind (stream_of fh a) (\<lambda>s.
            let (current_offset, s) = c_fseek 0 SEEK_CUR (disk a) s;
                (_, s) = c_fseek 0 SEEK_END (disk a) s;
                (_, s) = c_fseek current_offset SEEK_SET (disk a) s;
                a = set_stream fh s a;
                segment = \<lparr>seg_start = current_offset,
                           seg_end = to_long (current_offset + int size' * int cnt - 1)\<rparr>
            in rbind (push_file_event e start me now FILE_READ filename segment a) (\<lambda>(ev, a).
               rbind (Layer_LAST (layers e)) (\<lambda>last_layer.
               rbind (GetDataLocation e me
                        \<lparr>pf_filename = ev_filename ev, pf_segment = segment, pf_layer = last_layer, pf_data = []\<rparr>
                        (aud (app_h a))) (\<lambda>datas.
               rbind (if datas \<noteq> []
                      then rbind (rfold (fread_location e me last_layer (io (app_h a))) datas (ptr, 0, conf a))
                             (\<lambda>(ptr, _, c). Inr (ptr, a\<lparr>conf := c\<rparr>))
                      else rbind (c_fread ptr size' cnt (disk a) s) (\<lambda>(ptr, s).
                             Inr (ptr, (set_stream fh s a)\<lparr>conf := (conf a)\<lparr>total := total (conf a) + 1\<rparr>\<rparr>)))
                 (\<lambda>(ptr, a). Inr (to_size_t (int size' * int cnt), ptr, a)))))))"

text \<open>\<open>MPI_Init\<close> parses the options and starts the client side; the options and the rank are arguments.\<close>

definition hfetch_MPI_Init ::
  "(string \<Rightarrow> real) \<Rightarrow> (string \<Rightarrow> string option) \<Rightarrow> (char \<times> string) list \<Rightarrow> int \<Rightarrow> ConfigurationManager \<Rightarrow>
   (InputArgs \<times> ConfigurationManager \<times> fp_table) res" where
  "hfetch_MPI_Init atof getenv opts rank c =
     rbind (parse_opts atof getenv opts) (\<lambda>args.
     rbind (InitializeClients args rank c) (\<lambda>c. Inr (args, c, MetadataManager_new)))"

section \<open>Lemmas\<close>

text \<open>The metadata manager keeps the contract of a key/value store.\<close>

definition fp_get :: "nat \<Rightarrow> fp_table \<Rightarrow> string option res" where
  "fp_get fh m = Inr (let (found, filename) = MetadataManager_GetFilename fh m in if found then Some filename else None)"

definition fp_put :: "nat \<Rightarrow> string \<Rightarrow> fp_table \<Rightarrow> (bool \<times> fp_table) res" where
  "fp_put fh filename m = (let (st, m') = MetadataManager_Update fh filename m in Inr (st = SERVER_SUCCESS, m'))"

definition fp_erase :: "nat \<Rightarrow> fp_table \<Rightarrow> (bool \<times> fp_table) res" where
  "fp_erase fh m = (let (st, m') = MetadataManager_Delete fh m in Inr (fst (MetadataManager_GetFilename fh m), m'))"

interpretation fp: kv_store "\<lambda>_. True" "\<lambda>m k. um_find k m" fp_put fp_get fp_erase
  by unfold_locales
    (auto simp: fp_get_def fp_put_def fp_erase_def MetadataManager_GetFilename_def MetadataManager_Update_def
      MetadataManager_Delete_def um_find_insert um_find_erase fun_eq_iff split: option.splits)

lemma GetFilename_eq: "MetadataManager_GetFilename fh m = (case um_find fh m of None \<Rightarrow> (False, []) | Some f \<Rightarrow> (True, f))"
  by (simp add: MetadataManager_GetFilename_def split: option.split)

lemma Update_lookup: "um_find k (snd (MetadataManager_Update fh f m)) = (if k = fh then Some f else um_find k m)"
  using fp.putE(3)[where s = m and k = fh and v = f and b = True and s' = "snd (MetadataManager_Update fh f m)"]
  by (simp add: fp_put_def MetadataManager_Update_def fun_eq_iff)

lemma Delete_lookup: "um_find k (snd (MetadataManager_Delete fh m)) = (if k = fh then None else um_find k m)"
  using fp.eraseE(3)[where s = m and k = fh and b = "fst (MetadataManager_GetFilename fh m)"
      and s' = "snd (MetadataManager_Delete fh m)"]
  by (simp add: fp_erase_def MetadataManager_Delete_def fun_eq_iff)

lemma um_erase_insert_same: "um_erase k (um_insert k v (um_erase k xs)) = um_erase k xs"
proof -
  have "map_of (um_erase k xs) k = None" using um_find_erase[of k k xs] by (simp add: um_find_def)
  then show ?thesis by (simp add: um_insert_def) (simp add: um_erase_def)
qed

lemma stream_of_set [simp]: "stream_of k (set_stream fh s a) = (if k = fh then Inr s else stream_of k a)"
  by (simp add: stream_of_def set_stream_def um_find_insert um_find_erase)

lemma set_stream_twice [simp]: "set_stream fh s (set_stream fh s' a) = set_stream fh s a"
  by (simp add: set_stream_def um_erase_insert_same)

lemma set_stream_fields [simp]:
  "fp_map (set_stream fh s a) = fp_map a" "disk (set_stream fh s a) = disk a" "conf (set_stream fh s a) = conf a"
  "app_events (set_stream fh s a) = app_events a" "app_h (set_stream fh s a) = app_h a"
  by (simp_all add: set_stream_def disk_def)

lemma set_disk_fields [simp]:
  "fp_map (set_disk fs a) = fp_map a" "disk (set_disk fs a) = fs" "conf (set_disk fs a) = conf a"
  "app_events (set_disk fs a) = app_events a" "opened (set_disk fs a) = opened a"
  "aud (app_h (set_disk fs a)) = aud (app_h a)"
  by (simp_all add: set_disk_def disk_def)

lemma app_frame [simp]:
  "disk (a\<lparr>app_events := q\<rparr>) = disk a" "disk (a\<lparr>fp_map := m\<rparr>) = disk a" "disk (a\<lparr>conf := c\<rparr>) = disk a"
  "disk (a\<lparr>opened := os\<rparr>) = disk a"
  "stream_of k (a\<lparr>app_events := q\<rparr>) = stream_of k a" "stream_of k (a\<lparr>fp_map := m\<rparr>) = stream_of k a"
  "stream_of k (a\<lparr>app_h := h\<rparr>) = stream_of k a" "stream_of k (a\<lparr>conf := c\<rparr>) = stream_of k a" "stream_of k (set_disk fs a) = stream_of k a"
  by (simp_all add: disk_def stream_of_def set_disk_def)

lemma c_fseek_simps [simp]:
  "c_fseek 0 SEEK_END fs s = (0, s\<lparr>st_pos := length (file_content (st_path s) fs)\<rparr>)"
  "c_fseek 0 SEEK_SET fs s = (0, s\<lparr>st_pos := 0\<rparr>)"
  "c_fseek 0 SEEK_CUR fs s = (0, s)"
  by (simp_all add: c_fseek_def Let_def)

lemma to_long_id: "in_long x \<Longrightarrow> to_long x = x"
  by (simp add: to_long_def in_long_def)

definition c_path :: "string \<Rightarrow> bool" where
  "c_path path \<longleftrightarrow> CHR 0x00 \<notin> set path \<and> length (c_basename path) < MAX_STRING_LENGTH"

lemma set_c_basename: "set (c_basename path) \<subseteq> set path"
proof -
  have "set (takeWhile (\<lambda>c. c \<noteq> CHR ''/'') (rev path)) \<subseteq> set (rev path)" by (auto dest: set_takeWhileD)
  then show ?thesis by (simp add: c_basename_def)
qed

lemma CharStruct_basename: "c_path path \<Longrightarrow> CharStruct (c_basename path) = Inr (c_basename path)"
  using set_c_basename[of path] by (intro CharStruct_fits) (auto simp: c_path_def)

text \<open>The event a wrapper pushes.\<close>

definition file_event :: "env \<Rightarrow> (nat \<Rightarrow> int) \<Rightarrow> nat \<Rightarrow> int \<Rightarrow> EventType \<Rightarrow> string \<Rightarrow> Segment \<Rightarrow> Event" where
  "file_event e start me now ty path segment =
     \<lparr>ev_filename = c_basename path, ev_segment = segment, event_type = ty, ev_source = APPLICATION,
      layer_index = layer_id (last (layers e)), ev_time = duration_us (now - start me)\<rparr>"

lemma push_file_event_run:
  assumes "c_path path" and "layers e \<noteq> []"
  shows "push_file_event e start me now ty path seg a =
    (let ev = file_event e start me now ty path seg
     in Inr (ev, a\<lparr>app_events := (app_events a)(me := app_events a me @ [ev])\<rparr>))"
  using assms
  by (simp add: push_file_event_def CharStruct_basename Layer_LAST_def pushEvents_run file_event_def Let_def)

lemma set_disk_same [simp]: "set_disk (disk a) a = a"
  by (simp add: set_disk_def disk_def)

text \<open>Opening an existing file for reading.\<close>

lemma fopen_read_run:
  assumes "um_find path (disk a) = Some c" and "c_path path" and "layers e \<noteq> []"
  shows "hfetch_fopen e start me now addr p path ''r'' a =
    Inr (addr, (set_stream addr \<lparr>st_path = path, st_pos = 0, st_reads = True, st_writes = False, st_append = False\<rparr> a)
      \<lparr>fp_map := snd (MetadataManager_Update addr path (fp_map a)),
       app_events := (app_events a)(me := app_events a me @
         [file_event e start me now FILE_OPEN path \<lparr>seg_start = 0, seg_end = int (length c) - 1\<rparr>])\<rparr>)"
  using assms
  by (simp add: hfetch_fopen_def push_file_event_run c_ftell_def c_fopen_def append_mode_def file_content_def Let_def)

text \<open>A location query on a file described by a single segment.\<close>

lemma GetDataLocation_single:
  assumes inv: "auditor_invar e a" and me: "me < env_servers e"
    and known: "dhm_lookup (valid_buffered_dataset_d e) (valid_buffered_dataset a) (pf_filename f) = Some i"
    and one: "dm_set (offsetMaps a i) = {(\<lparr>seg_start = 0, seg_end = n - 1\<rparr>, (d, sc))}"
    and seg: "pf_segment f = \<lparr>seg_start = 0, seg_end = k - 1\<rparr>" "k \<le> n"
  shows "GetDataLocation e me f a = Inr [(d\<lparr>pf_segment := pf_segment f\<rparr>, d\<lparr>pf_segment := pf_segment f\<rparr>)]"
proof -
  note env = auditor_env[OF inv]
  have i: "i < max_num_files e" using inv known by (simp add: auditor_invar_def)
  obtain xs where xs: "DM_Contains Segment_less Segment_Contains (offset_map_d e i) me (pf_segment f) (offsetMaps a i) = Inr xs"
    "set xs = {(\<lparr>seg_start = 0, seg_end = n - 1\<rparr>, (d, sc))}"
    using Contains_single[OF env i auditor_store[OF inv i] one me] by blast
  have "distinct xs" by (rule Contains_entries(1)[OF env i auditor_store[OF inv i] xs(1)])
  then have "length xs = 1" using xs(2) by (metis distinct_card is_singletonI is_singleton_altdef)
  then obtain y where "xs = [y]" by (auto simp: length_Suc_conv)
  with xs(2) have "xs = [(\<lparr>seg_start = 0, seg_end = n - 1\<rparr>, (d, sc))]" by simp
  with xs(1) seg show ?thesis
    by (simp add: GetDataLocation_def valid_Get[OF inv] known offset_index_def i locate_step_def Segment_Intersect_def)
qed

text \<open>A read that is served by one memory object of this server.\<close>

lemma fread_memory_hit:
  assumes inv: "server_invar e (app_h a)" and me: "me < env_servers e"
    and fh: "um_find fh (fp_map a) = Some path" "stream_of fh a = Inr s" "c_path path" "layers e \<noteq> []"
    and known: "dhm_lookup (valid_buffered_dataset_d e) (valid_buffered_dataset (aud (app_h a))) (c_basename path) = Some i"
      "dm_set (offsetMaps (aud (app_h a)) i) = {(\<lparr>seg_start = 0, seg_end = n - 1\<rparr>, (d, sc))}"
    and mem: "io_client_type (pf_layer d) = SIMPLE_MEMORY" "layer_id (pf_layer d) \<noteq> layer_id (last (layers e))"
      "client_server e (pf_filename d) = Inr me"
      "dhm_lookup (data_map_d e) (data_map (memory_store (io (app_h a)))) (pf_filename d) = Some f"
      "pf_filename f = pf_filename d" "um_find (pf_filename d) (shm (memory_store (io (app_h a))) me) = Some str"
    and k: "0 < k" "k \<le> length str" "int (length str) = n" "k \<le> length ptr" "int k < 2 ^ 63"
  shows "\<exists>a'. hfetch_fread e start me now ptr 1 k fh a = Inr (k, take k str @ drop k ptr, a') \<and>
    hit (conf a') = hit (conf a) + 1 \<and> total (conf a') = total (conf a) + 1 \<and> disk a' = disk a \<and>
    app_events a' = (app_events a)(me := app_events a me @
      [file_event e start me now FILE_READ path \<lparr>seg_start = 0, seg_end = int k - 1\<rparr>])"
proof -
  have aud: "auditor_invar e (aud (app_h a))" and mi: "memory_invar e (memory_store (io (app_h a)))"
    using inv by (simp_all add: server_invar_def io_invar_def)
  have sz: "to_size_t (int k) = k" "to_long (int k - 1) = int k - 1"
    using k(1,5) by (simp_all add: to_size_t_def to_long_id in_long_def)
  let ?seg = "\<lparr>seg_start = 0, seg_end = int k - 1\<rparr>"
  let ?f = "\<lparr>pf_filename = c_basename path, pf_segment = ?seg, pf_layer = last (layers e), pf_data = []\<rparr>"
  have loc: "GetDataLocation e me ?f (aud (app_h a)) = Inr [(d\<lparr>pf_segment := ?seg\<rparr>, d\<lparr>pf_segment := ?seg\<rparr>)]"
    using GetDataLocation_single[OF aud me _ known(2), of ?f "int k"] known(1) k(2,3) by simp
  have size: "PosixFile_GetSize (d\<lparr>pf_segment := ?seg\<rparr>) = int k" for d
    by (simp add: PosixFile_GetSize_def Segment_GetSize_def)
  have rd: "client_Read e me SIMPLE_MEMORY (d\<lparr>pf_segment := ?seg\<rparr>) (d\<lparr>pf_segment := ?seg\<rparr>) (io (app_h a)) =
      Inr (SERVER_SUCCESS, d\<lparr>pf_segment := ?seg, pf_data := take k str\<rparr>)"
    using mem(3-6) k(2)
    by (simp add: client_Read_def MemoryClient_Read_def memory_read_local_def memory_Get[OF mi] shm_open_def size
        cstr_bytes_prefix)
  have "PosixFile_GetSize (d\<lparr>pf_segment := ?seg, pf_data := take k str\<rparr>) = int k"
    by (simp add: PosixFile_GetSize_def Segment_GetSize_def)
  then have step: "fread_location e me (last (layers e)) (io (app_h a)) (d\<lparr>pf_segment := ?seg\<rparr>, d\<lparr>pf_segment := ?seg\<rparr>) (ptr, 0, c) =
      Inr (take k str @ drop k ptr, k, c\<lparr>total := total c + 1, hit := hit c + 1\<rparr>)" for c
    using mem(1,2) k(1,2,4) rd cstr_bytes_prefix[of k "take k str"]
    by (simp add: fread_location_def size Layer_eq_def buffer_put_def Let_def min_def)
  show ?thesis
    using fh loc step
    by (simp add: hfetch_fread_def GetFilename_eq push_file_event_run Layer_LAST_def sz file_event_def Let_def)
qed

section \<open>Properties\<close>

definition example_app :: app_state where
  "example_app =
     \<lparr>conf = ConfigurationManager_new 2 0, fp_map = MetadataManager_new, opened = [], app_events = (\<lambda>_. []),
      app_h = example_disk_hstate\<rparr>"

definition example_opened :: app_state where
  "example_opened =
     set_stream 7 \<lparr>st_path = ''/pfs/ab'', st_pos = 0, st_reads = True, st_writes = False, st_append = False\<rparr>
       (example_app\<lparr>fp_map := [(7, ''/pfs/ab'')]\<rparr>)"

lemma example_path [simp]: "c_path ''/pfs/ab''" "c_basename ''/pfs/ab'' = ''ab''"
  by (simp_all add: c_path_def c_basename_def MAX_STRING_LENGTH_def)

lemma example_layers_nonempty [simp]: "layers example_env \<noteq> []"
  by (simp add: example_env_def example_layers_def)

lemma example_app_disk [simp]:
  "disk example_app = [(''/pfs/ab'', replicate 100 CHR ''x'')]" "disk example_opened = [(''/pfs/ab'', replicate 100 CHR ''x'')]"
  by (simp_all add: disk_def example_app_def example_opened_def set_stream_def example_disk_hstate_def)

lemma example_opened_stream [simp]:
  "um_find 7 (fp_map example_opened) = Some ''/pfs/ab''"
  "stream_of 7 example_opened =
     Inr \<lparr>st_path = ''/pfs/ab'', st_pos = 0, st_reads = True, st_writes = False, st_append = False\<rparr>"
  by (simp_all add: example_opened_def um_find_def)

text \<open>When the C library opens a file in a mode other than \<open>a\<close> and \<open>a+\<close>, \<open>hfetch::fopen\<close> returns its stream,
  positioned at the start, remembers its path and no other, and pushes exactly one event for the whole file.\<close>

theorem fopen_registers:
  assumes "c_fopen addr p path mode (disk a) = (Some (addr, s), fs)" and "\<not> append_mode mode"
    and "c_path path" and "layers e \<noteq> []"
  shows "\<exists>a'. hfetch_fopen e start me now addr p path mode a = Inr (addr, a') \<and> disk a' = fs \<and>
    stream_of addr a' = Inr (s\<lparr>st_pos := 0\<rparr>) \<and> (\<forall>k. k \<noteq> addr \<longrightarrow> stream_of k a' = stream_of k a) \<and>
    MetadataManager_GetFilename addr (fp_map a') = (True, path) \<and>
    (\<forall>k. k \<noteq> addr \<longrightarrow> MetadataManager_GetFilename k (fp_map a') = MetadataManager_GetFilename k (fp_map a)) \<and>
    app_events a' = (app_events a)(me := app_events a me @
      [file_event e start me now FILE_OPEN path
         \<lparr>seg_start = 0, seg_end = int (length (file_content (st_path s) fs)) - 1\<rparr>])"
  using assms by (simp add: hfetch_fopen_def push_file_event_run c_ftell_def GetFilename_eq Update_lookup Let_def)

theorem fopen_registers_witness:
  "\<exists>a'. hfetch_fopen example_env (\<lambda>_. 0) 0 5 7 0 ''/pfs/ab'' ''r'' example_app = Inr (7, a') \<and>
     MetadataManager_GetFilename 7 (fp_map a') = (True, ''/pfs/ab'') \<and> length (app_events a' 0) = 1"
proof -
  let ?s = "\<lparr>st_path = ''/pfs/ab'', st_pos = 0, st_reads = True, st_writes = False, st_append = False\<rparr>"
  have open7: "c_fopen 7 0 ''/pfs/ab'' ''r'' (disk example_app) = (Some (7, ?s), disk example_app)"
    by (simp add: c_fopen_def um_find_def)
  have mode: "\<not> append_mode ''r''" by (simp add: append_mode_def)
  from fopen_registers[OF open7 mode example_path(1) example_layers_nonempty, of "\<lambda>_. 0" 0 5]
  show ?thesis by (elim exE conjE) (simp add: example_app_def)
qed

text \<open>\<open>hfetch::fread\<close> does not depend on the position of the stream: after any successful or failed
  \<open>hfetch::fseek\<close> it returns the same bytes, pushes the same event and leaves the same state.\<close>

theorem fread_ignores_position:
  assumes "um_find fh (fp_map a) = Some path" and "hfetch_fseek fh offset origin a = Inr (r, a')"
  shows "hfetch_fread e start me now ptr n m fh a' = hfetch_fread e start me now ptr n m fh a"
proof -
  obtain s where s: "stream_of fh a = Inr s" and a': "a' = set_stream fh (snd (c_fseek offset origin (disk a) s)) a"
    using assms(2) by (cases "stream_of fh a") (auto simp: hfetch_fseek_def Let_def split: prod.splits)
  have path: "st_path (snd (c_fseek offset origin (disk a) s)) = st_path s"
    and frame: "(snd (c_fseek offset origin (disk a) s))\<lparr>st_pos := p\<rparr> = s\<lparr>st_pos := p\<rparr>" for p
    by (simp_all add: c_fseek_def Let_def)
  show ?thesis
    using assms(1) by (simp add: hfetch_fread_def GetFilename_eq a' s path frame cong: if_cong)
qed

theorem fread_ignores_position_witness:
  "\<exists>a'. hfetch_fseek 7 10 SEEK_SET example_opened = Inr (0, a') \<and>
     hfetch_fread example_env (\<lambda>_. 0) 0 5 (replicate 8 CHR ''-'') 1 4 7 a' =
     hfetch_fread example_env (\<lambda>_. 0) 0 5 (replicate 8 CHR ''-'') 1 4 7 example_opened"
proof -
  obtain a' where a': "hfetch_fseek 7 10 SEEK_SET example_opened = Inr (0, a')"
    by (simp add: hfetch_fseek_def c_fseek_def)
  show ?thesis using fread_ignores_position[OF example_opened_stream(1) a'] a' by blast
qed

text \<open>A read of a file no server has announced locations for returns the first bytes of the file into the
  buffer, pushes one event for the offsets from 0 on, counts one access and no hit, and reports the requested
  number of bytes even when the file is shorter.\<close>

theorem fread_without_location:
  assumes "um_find fh (fp_map a) = Some path" and "stream_of fh a = Inr s" and "st_reads s"
    and "c_path path" and "layers e \<noteq> []" and "0 < n * m" and "int n * int m < 2 ^ 63" and "n * m \<le> length ptr"
    and "\<forall>f. pf_filename f = c_basename path \<longrightarrow> GetDataLocation e me f (aud (app_h a)) = Inr []"
  shows "\<exists>a'. hfetch_fread e start me now ptr n m fh a =
      Inr (n * m, take (n * m) (file_content (st_path s) (disk a)) @
        drop (length (take (n * m) (file_content (st_path s) (disk a)))) ptr, a') \<and>
    total (conf a') = total (conf a) + 1 \<and> hit (conf a') = hit (conf a) \<and> disk a' = disk a \<and>
    app_events a' = (app_events a)(me := app_events a me @
      [file_event e start me now FILE_READ path \<lparr>seg_start = 0, seg_end = int n * int m - 1\<rparr>])"
proof -
  have sz: "to_size_t (int n * int m) = n * m" "to_long (int n * int m - 1) = int n * int m - 1"
    using assms(6,7) by (simp_all add: to_size_t_def to_long_id in_long_def nat_mult_distrib flip: of_nat_mult)
  show ?thesis
    using assms by (simp add: hfetch_fread_def GetFilename_eq push_file_event_run Layer_LAST_def sz file_event_def
        c_fread_def buffer_put_def Let_def min_def)
qed

theorem fread_without_location_witness:
  "\<exists>a'. hfetch_fread example_env (\<lambda>_. 0) 0 5 (replicate 8 CHR ''-'') 1 4 7 example_opened =
     Inr (4, ''xxxx----'', a')"
proof -
  have inv: "auditor_invar example_env (aud (app_h example_opened))"
    by (simp add: example_opened_def example_app_def example_disk_hstate_def example_hstate_def example_auditor_invar)
  have none: "\<forall>f. pf_filename f = c_basename ''/pfs/ab'' \<longrightarrow>
      GetDataLocation example_env 0 f (aud (app_h example_opened)) = Inr []"
    by (simp add: GetDataLocation_def valid_Get[OF inv])
      (simp add: example_opened_def example_app_def example_disk_hstate_def example_hstate_def example_auditor_fields)
  show ?thesis
    using fread_without_location[OF example_opened_stream _ example_path(1) example_layers_nonempty _ _ _ none,
        where n = 1 and m = 4 and ptr = "replicate 8 CHR ''-''" and start = "\<lambda>_. 0" and now = 5]
    by (auto simp: file_content_def um_find_def numeral_eq_Suc)
qed

text \<open>Closing a registered stream returns 0, removes it and its path, leaves every other stream alone and
  pushes one event for the whole file; every later read or close of it returns -1 and changes nothing.\<close>

theorem fclose_forgets:
  assumes "um_find fh (fp_map a) = Some path" and "stream_of fh a = Inr s" and "c_path path" and "layers e \<noteq> []"
  shows "\<exists>a'. hfetch_fclose e start me now fh a = Inr (0, a') \<and> disk a' = disk a \<and>
    (\<forall>k. k \<noteq> fh \<longrightarrow> stream_of k a' = stream_of k a \<and>
      MetadataManager_GetFilename k (fp_map a') = MetadataManager_GetFilename k (fp_map a)) \<and>
    app_events a' = (app_events a)(me := app_events a me @
      [file_event e start me now FILE_CLOSE path
         \<lparr>seg_start = 0, seg_end = int (length (file_content (st_path s) (disk a))) - 1\<rparr>]) \<and>
    (\<forall>t. hfetch_fclose e start me t fh a' = Inr (- 1, a')) \<and>
    (\<forall>t ptr n m. hfetch_fread e start me t ptr n m fh a' = Inr (2 ^ 64 - 1, ptr, a'))"
  using assms
  by (simp add: hfetch_fclose_def hfetch_fread_def GetFilename_eq push_file_event_run c_ftell_def Delete_lookup
      to_size_t_def stream_of_def um_find_erase disk_def Let_def)

theorem fclose_forgets_witness:
  "\<exists>a'. hfetch_fclose example_env (\<lambda>_. 0) 0 5 7 example_opened = Inr (0, a') \<and>
     hfetch_fclose example_env (\<lambda>_. 0) 0 6 7 a' = Inr (- 1, a')"
  using fclose_forgets[OF example_opened_stream example_path(1) example_layers_nonempty, of "\<lambda>_. 0" 0 5] by blast

end
