(* ===== verification/Startup.thy ===== *)
theory Startup
  imports Hfetch_Lib
begin

text \<open>
  What surrounds the components: the singletons (\<open>src/src/common/singleton.h\<close>), the retry loop of
  \<open>src/src/common/macros.h\<close>, and the main program of a server (\<open>src/src/server/main.cpp\<close>) with the preparation of the
  layers' directories (\<open>src/test/util.h\<close>), which it runs before the server.

  \<^item> The objects a singleton creates are numbered. Threads may call \<open>GetInstance\<close> at the same time: the test, the
    creation with the assignment, and the read of the result are separate steps.
  \<^item> The shell that \<open>system\<close> runs is an argument; \<open>shell_documented\<close> states what the manual pages of \<open>rm\<close> and \<open>mkdir\<close>
    promise for names without characters special to the shell. Directories are not modelled, only files.
\<close>

section \<open>Singletons\<close>

record 'a singleton =
  sg_instance :: "nat option"
  sg_objects :: "'a list"

definition singleton_new :: "'a singleton" where
  "singleton_new = \<lparr>sg_instance = None, sg_objects = []\<rparr>"

definition create_instance :: "'a \<Rightarrow> 'a singleton \<Rightarrow> 'a singleton" where
  "create_instance x s = \<lparr>sg_instance = Some (length (sg_objects s)), sg_objects = sg_objects s @ [x]\<rparr>"

definition GetInstance :: "'a \<Rightarrow> 'a singleton \<Rightarrow> nat option \<times> 'a singleton" where
  "GetInstance x s =
     (let s = (if sg_instance s = None then create_instance x s else s) in (sg_instance s, s))"

fun get_instances :: "'a list \<Rightarrow> 'a singleton \<Rightarrow> nat option list \<times> 'a singleton" where
  "get_instances [] s = ([], s)"
| "get_instances (x # xs) s =
     (case GetInstance x s of (p, s) \<Rightarrow> case get_instances xs s of (ps, s) \<Rightarrow> (p # ps, s))"

text \<open>The same by threads; \<open>'a\<close> is what a thread would construct the object from.\<close>

datatype 'a instance_call = Testing 'a | Creating 'a | Returning | Returned "nat option"

inductive singleton_step ::
  "'a instance_call list \<times> 'a singleton \<Rightarrow> 'a instance_call list \<times> 'a singleton \<Rightarrow> bool" where
  found: "sg_instance s \<noteq> None \<Longrightarrow> singleton_step (cs @ Testing x # cs', s) (cs @ Returning # cs', s)"
| missing: "sg_instance s = None \<Longrightarrow> singleton_step (cs @ Testing x # cs', s) (cs @ Creating x # cs', s)"
| creating: "singleton_step (cs @ Creating x # cs', s) (cs @ Returning # cs', create_instance x s)"
| returning: "singleton_step (cs @ Returning # cs', s) (cs @ Returned (sg_instance s) # cs', s)"

inductive singleton_run ::
  "'a instance_call list \<times> 'a singleton \<Rightarrow> 'a instance_call list \<times> 'a singleton \<Rightarrow> bool" for c where
  singleton_start: "singleton_run c c"
| singleton_next: "singleton_run c c1 \<Longrightarrow> singleton_step c1 c2 \<Longrightarrow> singleton_run c c2"

lemma get_instances_known:
  "sg_instance s = Some p \<Longrightarrow> get_instances xs s = (replicate (length xs) (Some p), s)"
  by (induction xs) (simp_all add: GetInstance_def)

section \<open>The retry loop\<close>

datatype 'a attempt = Success 'a | Not_found | Failure

partial_function (option) wait_until :: "(nat \<Rightarrow> 'a attempt) \<Rightarrow> nat \<Rightarrow> 'a res option" where
  "wait_until arg i =
     (case arg i of
        Success x \<Rightarrow> Some (Inr x)
      | Failure \<Rightarrow> Some (Inl Interprocess)
      | Not_found \<Rightarrow> wait_until arg (Suc i))"

definition WAIT_UNTILL_SUCESS_BIP :: "(nat \<Rightarrow> 'a attempt) \<Rightarrow> 'a res option" where
  "WAIT_UNTILL_SUCESS_BIP arg = wait_until arg 0"

lemma wait_until_retry: "arg i = Not_found \<Longrightarrow> wait_until arg i = wait_until arg (Suc i)"
  by (subst wait_until.simps) simp

lemma wait_until_found:
  "\<forall>k<d. arg (i + k) = Not_found \<Longrightarrow> wait_until arg i = wait_until arg (i + d)"
proof (induction d arbitrary: i)
  case (Suc d)
  have "\<forall>k<d. arg (Suc i + k) = Not_found"
  proof (intro allI impI)
    fix k assume "k < d"
    then show "arg (Suc i + k) = Not_found" using Suc.prems[rule_format, of "Suc k"] by simp
  qed
  then have "wait_until arg (Suc i) = wait_until arg (i + Suc d)" using Suc.IH[of "Suc i"] by simp
  moreover have "arg i = Not_found" using Suc.prems[rule_format, of 0] by simp
  ultimately show ?case using wait_until_retry[of arg i] by metis
qed simp

lemma wait_until_returns:
  assumes "wait_until arg i = Some r"
  shows "\<exists>n. arg n \<noteq> Not_found"
proof (rule wait_until.raw_induct[where P = "\<lambda>arg i r. \<exists>n. arg n \<noteq> Not_found", OF _ assms])
  fix wu :: "(nat \<Rightarrow> 'a attempt) \<Rightarrow> nat \<Rightarrow> 'a res option" and arg' i' r'
  assume IH: "\<And>arg i r. wu arg i = Some r \<Longrightarrow> \<exists>n. arg n \<noteq> Not_found"
    and run: "(case arg' i' of Success x \<Rightarrow> Some (Inr x) | Not_found \<Rightarrow> wu arg' (Suc i')
      | Failure \<Rightarrow> Some (Inl Interprocess)) = Some r'"
  show "\<exists>n. arg' n \<noteq> Not_found"
  proof (cases "arg' i' = Not_found")
    case True
    then have "wu arg' (Suc i') = Some r'" using run by simp
    then show ?thesis by (rule IH)
  qed blast
qed

section \<open>Preparing the directories\<close>

type_synonym shell = "string \<Rightarrow> file_system \<Rightarrow> file_system"

definition sprintf256 :: "string \<Rightarrow> string res" where
  "sprintf256 s = (if length s < 256 then Inr s else Inl (Undefined BufferOverflow))"

definition run_command :: "shell \<Rightarrow> string \<Rightarrow> file_system \<Rightarrow> file_system" where
  "run_command sh cmd fs = sh cmd fs"

text \<open>\<open>boost::filesystem::is_empty\<close> of a directory.\<close>

definition dir_empty :: "string \<Rightarrow> file_system \<Rightarrow> bool" where
  "dir_empty dir fs \<longleftrightarrow> list_all (\<lambda>(p, c). take (Suc (length dir)) p \<noteq> dir @ ''/'') fs"

definition setup_layer :: "shell \<Rightarrow> int \<Rightarrow> LayerInfo \<Rightarrow> file_system \<Rightarrow> file_system res" where
  "setup_layer sh rank info fs =
     (if is_memory info then Inr fs
      else case is_local info of
             None \<Rightarrow> Inl (Undefined Uninitialised)
           | Some loc \<Rightarrow>
               if loc \<or> rank = 0
               then rbind (sprintf256 (''mkdir -p '' @ mount_point info @ ''/'')) (\<lambda>cmd2.
                      let fs = run_command sh cmd2 fs
                      in if \<not> dir_empty (mount_point info) fs
                         then rbind (sprintf256 (''rm '' @ mount_point info @ ''/*'')) (\<lambda>cmd1. Inr (run_command sh cmd1 fs))
                         else Inr fs)
               else Inr fs)"

definition args_layers :: "int \<Rightarrow> InputArgs \<Rightarrow> LayerInfo list res" where
  "args_layers n args =
     (if n \<le> 0 then Inr []
      else case arg_layers args of
             None \<Rightarrow> Inl (Undefined Uninitialised)
           | Some infos \<Rightarrow> if nat n \<le> length infos then Inr (take (nat n) infos) else Inl (Undefined OutOfRange))"

definition setup_env :: "shell \<Rightarrow> InputArgs \<Rightarrow> int \<Rightarrow> file_system \<Rightarrow> file_system res" where
  "setup_env sh args rank fs = rbind (args_layers (layer_count args) args) (\<lambda>infos. rfold (setup_layer sh rank) infos fs)"

definition clean_env :: "shell \<Rightarrow> InputArgs \<Rightarrow> file_system \<Rightarrow> file_system res" where
  "clean_env sh args fs =
     rbind (args_layers (layer_count args - 1) args) (\<lambda>infos.
       rfold (\<lambda>info fs. rbind (sprintf256 (''rm '' @ mount_point info @ ''/*'')) (\<lambda>cmd. Inr (run_command sh cmd fs))) infos fs)"

text \<open>The main program of a server up to the start of its threads; \<open>build\<close> is the state of the components built on
  the files.\<close>

definition server_log :: "InputArgs \<Rightarrow> int \<Rightarrow> string option res" where
  "server_log args my_rank =
     (if is_logging args
      then case log_path args of
             None \<Rightarrow> Inl (Undefined Uninitialised)
           | Some p \<Rightarrow> rbind (sprintf256 (p @ ''/server_'' @ to_string (nat my_rank) @ ''.log'')) (\<lambda>s. Inr (Some s))
      else Inr None)"

definition server_main ::
  "shell \<Rightarrow> InputArgs \<Rightarrow> int \<Rightarrow> int \<Rightarrow> (file_system \<Rightarrow> hstate) \<Rightarrow> ConfigurationManager \<Rightarrow> file_system \<Rightarrow>
   (ConfigurationManager \<times> server_state) res" where
  "server_main sh args my_rank rank build c fs =
     rbind (InitializeServer args rank c) (\<lambda>c.
     rbind (setup_env sh args (my_rank_server c) fs) (\<lambda>fs.
     rbind (server_log args my_rank) (\<lambda>_.
       Inr (c, async_run (arg_num_workers args) (build fs)))))"

section \<open>Lemmas\<close>

text \<open>What \<open>rm dir/*\<close> matches: entries of the directory itself that do not start with a dot.\<close>

definition globbed :: "string \<Rightarrow> string \<Rightarrow> bool" where
  "globbed dir p \<longleftrightarrow>
     (let name = drop (Suc (length dir)) p
      in take (Suc (length dir)) p = dir @ ''/'' \<and> name \<noteq> [] \<and> hd name \<noteq> CHR ''.'' \<and> CHR ''/'' \<notin> set name)"

definition plain_name :: "string \<Rightarrow> bool" where
  "plain_name s \<longleftrightarrow> list_all (\<lambda>c. c \<in> set ''abcdefghijklmnopqrstuvwxyzABCDEFGHIJKLMNOPQRSTUVWXYZ0123456789/._'') s"

definition shell_documented :: "shell \<Rightarrow> bool" where
  "shell_documented sh \<longleftrightarrow>
     (\<forall>dir fs. plain_name dir \<longrightarrow> sh (''rm '' @ dir @ ''/*'') fs = filter (\<lambda>(p, c). \<not> globbed dir p) fs \<and>
        sh (''mkdir -p '' @ dir @ ''/'') fs = fs)"

lemma globbed_member: "globbed dir (dir @ ''/'' @ name) \<longleftrightarrow> name \<noteq> [] \<and> hd name \<noteq> CHR ''.'' \<and> CHR ''/'' \<notin> set name"
  by (simp add: globbed_def)

lemma um_find_globbed: "um_find p (filter (\<lambda>(p, c). \<not> globbed dir p) fs) = (if globbed dir p then None else um_find p fs)"
  by (induction fs) (auto simp: um_find_def)

lemma not_globbed_empty: "dir_empty dir fs \<Longrightarrow> globbed dir p \<Longrightarrow> um_find p fs = None"
  by (induction fs) (auto simp: dir_empty_def globbed_def um_find_def Let_def)

definition cleared :: "int \<Rightarrow> LayerInfo \<Rightarrow> bool" where
  "cleared rank info \<longleftrightarrow> \<not> is_memory info \<and> (is_local info = Some True \<or> rank = 0)"

lemma setup_layer_run:
  assumes "shell_documented sh" and "plain_name (mount_point info)" and "setup_layer sh rank info fs = Inr fs'"
  shows "um_find p fs' = (if cleared rank info \<and> globbed (mount_point info) p then None else um_find p fs)"
proof (cases "cleared rank info")
  case False
  then have "fs' = fs"
    using assms(3) by (auto simp: setup_layer_def cleared_def split: if_splits option.splits)
  then show ?thesis using False by simp
next
  case True
  have sh: "sh (''rm '' @ mount_point info @ ''/*'') fs = filter (\<lambda>(p, c). \<not> globbed (mount_point info) p) fs"
    "sh (''mkdir -p '' @ mount_point info @ ''/'') fs = fs"
    using assms(1,2) unfolding shell_documented_def by blast+
  have "fs' = (if dir_empty (mount_point info) fs then fs else filter (\<lambda>(p, c). \<not> globbed (mount_point info) p) fs)"
    using assms(3) True sh
    by (auto simp: setup_layer_def cleared_def run_command_def Let_def rbind_Inr_iff sprintf256_def
        split: if_splits option.splits)
  then show ?thesis using True not_globbed_empty[of "mount_point info" fs p] by (simp add: um_find_globbed)
qed

lemma setup_layers_run:
  assumes "shell_documented sh" and "\<forall>info\<in>set infos. plain_name (mount_point info)"
    and "rfold (setup_layer sh rank) infos fs = Inr fs'"
  shows "um_find p fs' = (if \<exists>info\<in>set infos. cleared rank info \<and> globbed (mount_point info) p then None else um_find p fs)"
  using assms(2,3)
proof (induction infos arbitrary: fs)
  case (Cons info infos)
  then obtain fs1 where fs1: "setup_layer sh rank info fs = Inr fs1" "rfold (setup_layer sh rank) infos fs1 = Inr fs'"
    by (auto simp: rbind_Inr_iff)
  have "plain_name (mount_point info)" using Cons.prems(1) by simp
  from setup_layer_run[OF assms(1) this fs1(1)] Cons.IH[OF _ fs1(2)] Cons.prems(1) show ?case by auto
qed simp

lemma setup_layer_total:
  assumes "is_memory info \<or> is_local info \<noteq> None" and "length (mount_point info) < 246"
  shows "\<exists>fs'. setup_layer sh rank info fs = Inr fs'"
  using assms by (auto simp: setup_layer_def sprintf256_def Let_def split: option.split)

lemma setup_layers_total:
  "\<forall>info\<in>set infos. (is_memory info \<or> is_local info \<noteq> None) \<and> length (mount_point info) < 246 \<Longrightarrow>
    \<exists>fs'. rfold (setup_layer sh rank) infos fs = Inr fs'"
proof (induction infos arbitrary: fs)
  case (Cons info infos)
  then obtain fs1 where "setup_layer sh rank info fs = Inr fs1"
    using setup_layer_total[of info sh rank fs] by auto
  moreover obtain fs' where "rfold (setup_layer sh rank) infos fs1 = Inr fs'" using Cons by fastforce
  ultimately show ?case by simp
qed simp

section \<open>Properties\<close>

text \<open>When calls of \<open>GetInstance\<close> do not overlap, all of them return the same object, and exactly one was constructed,
  from the arguments of the first call; the arguments of the others are ignored.\<close>

theorem GetInstance_unique:
  "get_instances (x # xs) singleton_new =
     (replicate (length (x # xs)) (Some 0), \<lparr>sg_instance = Some 0, sg_objects = [x]\<rparr>)"
proof -
  let ?s = "\<lparr>sg_instance = Some 0, sg_objects = [x]\<rparr>"
  have "GetInstance x singleton_new = (Some 0, ?s)"
    by (simp add: GetInstance_def singleton_new_def create_instance_def)
  with get_instances_known[of ?s 0 xs] show ?thesis by simp
qed

text \<open>Overlapping first calls can return different objects: the test and the assignment are not one step.\<close>

theorem GetInstance_race:
  "singleton_run ([Testing x, Testing y], singleton_new)
     ([Returned (Some 0), Returned (Some 1)], \<lparr>sg_instance = Some 1, sg_objects = [x, y]\<rparr>)"
proof -
  let ?s1 = "\<lparr>sg_instance = Some 0, sg_objects = [x]\<rparr>" and ?s2 = "\<lparr>sg_instance = Some 1, sg_objects = [x, y]\<rparr>"
  have 1: "singleton_step ([Testing x, Testing y], singleton_new) ([Creating x, Testing y], singleton_new)"
    using missing[of singleton_new "[]" x "[Testing y]"] by (simp add: singleton_new_def)
  have 2: "singleton_step ([Creating x, Testing y], singleton_new) ([Creating x, Creating y], singleton_new)"
    using missing[of singleton_new "[Creating x]" y "[]"] by (simp add: singleton_new_def)
  have 3: "singleton_step ([Creating x, Creating y], singleton_new) ([Returning, Creating y], ?s1)"
    using creating[of "[]" x "[Creating y]" singleton_new] by (simp add: singleton_new_def create_instance_def)
  have 4: "singleton_step ([Returning, Creating y], ?s1) ([Returned (Some 0), Creating y], ?s1)"
    using returning[of "[]" "[Creating y]" ?s1] by simp
  have 5: "singleton_step ([Returned (Some 0), Creating y], ?s1) ([Returned (Some 0), Returning], ?s2)"
    using creating[of "[Returned (Some 0)]" y "[]" ?s1] by (simp add: create_instance_def)
  have 6: "singleton_step ([Returned (Some 0), Returning], ?s2) ([Returned (Some 0), Returned (Some 1)], ?s2)"
    using returning[of "[Returned (Some 0)]" "[]" ?s2] by simp
  show ?thesis
    by (rule singleton_next[OF singleton_next[OF singleton_next[OF singleton_next[OF singleton_next[OF singleton_next[OF
      singleton_start 1] 2] 3] 4] 5] 6])
qed

text \<open>The retry loop returns exactly when some attempt does not fail with \<open>not_found_error\<close>; then it returns the result
  of the first such attempt, or throws its exception, and makes no other attempt.\<close>

theorem WAIT_returns:
  "(WAIT_UNTILL_SUCESS_BIP arg = None \<longleftrightarrow> (\<forall>n. arg n = Not_found)) \<and>
   (\<forall>n. arg n \<noteq> Not_found \<longrightarrow> (\<forall>k<n. arg k = Not_found) \<longrightarrow>
      WAIT_UNTILL_SUCESS_BIP arg = Some (case arg n of Success x \<Rightarrow> Inr x | _ \<Rightarrow> Inl Interprocess))"
proof -
  have first: "WAIT_UNTILL_SUCESS_BIP arg = Some (case arg n of Success x \<Rightarrow> Inr x | _ \<Rightarrow> Inl Interprocess)"
    if "arg n \<noteq> Not_found" "\<forall>k<n. arg k = Not_found" for n
  proof -
    have "WAIT_UNTILL_SUCESS_BIP arg = wait_until arg n"
      using wait_until_found[of n arg 0] that(2) by (simp add: WAIT_UNTILL_SUCESS_BIP_def)
    also have "\<dots> = Some (case arg n of Success x \<Rightarrow> Inr x | _ \<Rightarrow> Inl Interprocess)"
      using that(1) by (subst wait_until.simps) (simp split: attempt.split)
    finally show ?thesis .
  qed
  have none: "WAIT_UNTILL_SUCESS_BIP arg = None" if "\<forall>n. arg n = Not_found"
    using that wait_until_returns[of arg 0] by (cases "wait_until arg 0") (auto simp: WAIT_UNTILL_SUCESS_BIP_def)
  have some: "WAIT_UNTILL_SUCESS_BIP arg \<noteq> None" if "arg n \<noteq> Not_found" for n
  proof -
    define m where "m = (LEAST k. arg k \<noteq> Not_found)"
    have "arg m \<noteq> Not_found" unfolding m_def using that by (rule LeastI)
    moreover have "\<forall>k<m. arg k = Not_found" unfolding m_def using not_less_Least by blast
    ultimately show ?thesis using first by simp
  qed
  from none some first show ?thesis by blast
qed

theorem WAIT_returns_witness:
  "WAIT_UNTILL_SUCESS_BIP (\<lambda>n. if n = 2 then Success (7::nat) else Not_found) = Some (Inr 7)"
  using WAIT_returns[of "\<lambda>n. if n = 2 then Success (7::nat) else Not_found"] by auto

lemma InitializeServer_run:
  assumes "arg_layers args = Some infos" and "layer_count args = int (length infos)" and "\<forall>info\<in>set infos. layer_info_ok info"
  shows "\<exists>c'. InitializeServer args rank c = Inr c' \<and> my_rank_server c' = rank"
proof -
  obtain ls where "BuildLayers infos = Inr ls"
    using build_layers_from_ok[OF assms(3), of 0] by (auto simp: BuildLayers_def)
  then show ?thesis using assms(1,2) by (simp add: InitializeServer_def build_from_args_def UpdateServerComm_def Let_def)
qed

text \<open>C34: When a server starts, its main program deletes, before the first component is built, every visible file that
  lies directly in the directory of a layer on disk, of the layers that are local and, on the server of rank 0, of the
  shared layers too; all other files are untouched. So on rank 0 a file in the directory of the lowest layer, from which
  all data is prefetched, is gone, and an application that opens it for reading dereferences the null pointer
  \<open>fopen\<close> returns. The layers are any that \<open>BuildLayers\<close> accepts, with directory names that fit the buffers of the
  commands and have no characters special to the shell; a file is named by the directory, a slash and its name, as the
  shell names it; the name of the log fits its buffer.\<close>

theorem startup_erases_sources:
  assumes "shell_documented sh" and "arg_layers args = Some infos" and "layer_count args = int (length infos)"
    and "\<forall>info\<in>set infos. layer_info_ok info \<and> plain_name (mount_point info) \<and> length (mount_point info) < 246"
    and "server_log args my_rank = Inr logged"
  shows "\<exists>c' fs'. server_main sh args my_rank rank build c fs = Inr (c', async_run (arg_num_workers args) (build fs')) \<and>
    (\<forall>p. um_find p fs' =
       (if \<exists>info\<in>set infos. \<not> is_memory info \<and> (is_local info = Some True \<or> rank = 0) \<and> globbed (mount_point info) p
        then None else um_find p fs)) \<and>
    (\<forall>name a. infos \<noteq> [] \<and> rank = 0 \<and> \<not> is_memory (last infos) \<and>
       name \<noteq> [] \<and> hd name \<noteq> CHR ''.'' \<and> CHR ''/'' \<notin> set name \<and> disk a = fs' \<longrightarrow>
       hfetch_fopen e start me now addr pos (mount_point (last infos) @ ''/'' @ name) ''r'' a = Inl (Undefined NullPointer))"
proof -
  obtain c' where c': "InitializeServer args rank c = Inr c'" "my_rank_server c' = rank"
    using InitializeServer_run[OF assms(2,3)] assms(4) by blast
  have plain: "\<forall>info\<in>set infos. plain_name (mount_point info)" using assms(4) by blast
  have "\<forall>info\<in>set infos. (is_memory info \<or> is_local info \<noteq> None) \<and> length (mount_point info) < 246"
    using assms(4) by (auto simp: layer_info_ok_def)
  from setup_layers_total[OF this] obtain fs' where fs': "rfold (setup_layer sh rank) infos fs = Inr fs'" by blast
  have "args_layers (layer_count args) args = Inr infos" by (simp add: args_layers_def assms(2,3))
  then have main: "server_main sh args my_rank rank build c fs = Inr (c', async_run (arg_num_workers args) (build fs'))"
    by (simp add: server_main_def setup_env_def c' fs' assms(5))
  note run = setup_layers_run[OF assms(1) plain fs', unfolded cleared_def conj_assoc]
  have "hfetch_fopen e start me now addr pos (mount_point (last infos) @ ''/'' @ name) ''r'' a = Inl (Undefined NullPointer)"
    if "infos \<noteq> []" "rank = 0" "\<not> is_memory (last infos)" "name \<noteq> []" "hd name \<noteq> CHR ''.''" "CHR ''/'' \<notin> set name"
      "disk a = fs'" for name a
  proof -
    have "globbed (mount_point (last infos)) (mount_point (last infos) @ ''/'' @ name)"
      unfolding globbed_member using that by blast
    then have "um_find (mount_point (last infos) @ ''/'' @ name) fs' = None"
      unfolding run using that(1-3) last_in_set[of infos] by auto
    then show ?thesis using that(7) by (simp add: hfetch_fopen_def c_fopen_def)
  qed
  with main run show ?thesis by blast
qed

definition example_shell :: shell where
  "example_shell cmd fs =
     (if take 3 cmd = ''rm '' then filter (\<lambda>(p, c). \<not> globbed (take (length cmd - 5) (drop 3 cmd)) p) fs else fs)"

lemma example_shell_documented: "shell_documented example_shell"
  by (simp add: shell_documented_def example_shell_def)

text \<open>The default layers, on the servers of rank 0 and 1: the files of the lowest layer, which is shared, are deleted by
  rank 0 only, those of the local disk by both.\<close>

definition default_env :: "string \<Rightarrow> string option" where
  "default_env v = (if v = ''RUN_DIR'' then Some ''/tmp'' else None)"

definition example_disk :: file_system where
  "example_disk = [(''/tmp/pfs//in'', ''xx''), (''/tmp/nvme//in'', ''zz''), (''/tmp/ramfs//in'', ''vv''), (''/home/in'', ''yy'')]"

lemma example_args:
  obtains args infos where "parse_opts (\<lambda>_. 0) default_env [] = Inr args" "arg_layers args = Some infos"
    "layer_count args = int (length infos)" "\<forall>r. server_log args r = Inr None"
    "\<forall>info\<in>set infos. layer_info_ok info \<and> plain_name (mount_point info) \<and> length (mount_point info) < 246"
    "map (\<lambda>info. (mount_point info, is_memory info, is_local info)) infos = [(''/tmp/ramfs/'', True, Some True),
       (''/tmp/nvme/'', False, Some True), (''/tmp/bb/'', False, Some False), (''/tmp/pfs/'', False, Some False)]"
proof -
  let ?layer = "\<lambda>dir cap bw mem loc. \<lparr>mount_point = dir, info_capacity_mb = cap, info_bandwidth = bw,
      is_memory = mem, is_local = Some loc, info_direct_io = None\<rparr>"
  let ?infos = "[?layer ''/tmp/ramfs/'' 256 80000 True True, ?layer ''/tmp/nvme/'' 256 2000 False True,
      ?layer ''/tmp/bb/'' 512 400 False False, ?layer ''/tmp/pfs/'' 1024 100 False False]"
  obtain args where "parse_opts (\<lambda>_. 0) default_env [] = Inr args" "layer_count args = 4" "arg_layers args = Some ?infos"
    "is_logging args = False"
    by (simp add: parse_opts_def default_env_def default_args_def default_layers_def default_layer_def sprintf_path_def strcpy256_def)
  then show thesis by (intro that[of args ?infos]) (simp_all add: layer_info_ok_def plain_name_def server_log_def ex_bool_eq)
qed

theorem startup_erases_sources_witness:
  "\<exists>args c0 fs0 c1 fs1. parse_opts (\<lambda>_. 0) default_env [] = Inr args \<and>
     server_main example_shell args 0 0 (\<lambda>fs. app_h (set_disk fs example_app)) (ConfigurationManager_new 2 0) example_disk =
       Inr (c0, async_run (arg_num_workers args) (app_h (set_disk fs0 example_app))) \<and>
     server_main example_shell args 1 1 (\<lambda>fs. app_h (set_disk fs example_app)) (ConfigurationManager_new 2 1) example_disk =
       Inr (c1, async_run (arg_num_workers args) (app_h (set_disk fs1 example_app))) \<and>
     map (\<lambda>p. um_find p fs0) [''/tmp/pfs//in'', ''/tmp/nvme//in'', ''/tmp/ramfs//in'', ''/home/in''] =
       [None, None, Some ''vv'', Some ''yy''] \<and>
     map (\<lambda>p. um_find p fs1) [''/tmp/pfs//in'', ''/tmp/nvme//in'', ''/tmp/ramfs//in'', ''/home/in''] =
       [Some ''xx'', None, Some ''vv'', Some ''yy''] \<and>
     hfetch_fopen example_env (\<lambda>_. 0) 0 5 7 0 ''/tmp/pfs//in'' ''r'' (set_disk fs0 example_app) = Inl (Undefined NullPointer)"
proof -
  obtain args infos where args: "parse_opts (\<lambda>_. 0) default_env [] = Inr args" "arg_layers args = Some infos"
    "layer_count args = int (length infos)" "\<forall>r. server_log args r = Inr None"
    "\<forall>info\<in>set infos. layer_info_ok info \<and> plain_name (mount_point info) \<and> length (mount_point info) < 246"
    and infos: "map (\<lambda>info. (mount_point info, is_memory info, is_local info)) infos = [(''/tmp/ramfs/'', True, Some True),
       (''/tmp/nvme/'', False, Some True), (''/tmp/bb/'', False, Some False), (''/tmp/pfs/'', False, Some False)]"
    by (rule example_args)
  let ?cleared = "\<lambda>rank p. \<exists>info\<in>set infos. \<not> is_memory info \<and> (is_local info = Some True \<or> rank = (0::int)) \<and> globbed (mount_point info) p"
  have cleared: "?cleared rank p \<longleftrightarrow> globbed ''/tmp/nvme/'' p \<or> rank = 0 \<and> (globbed ''/tmp/bb/'' p \<or> globbed ''/tmp/pfs/'' p)"
    for rank p
    using infos by (auto simp: map_eq_Cons_conv)
  have last: "infos \<noteq> []" "mount_point (last infos) = ''/tmp/pfs/''" "\<not> is_memory (last infos)"
    using infos by (auto simp: map_eq_Cons_conv)
  note main = startup_erases_sources[OF example_shell_documented args(2,3,5) args(4)[rule_format], where fs = example_disk
      and build = "\<lambda>fs. app_h (set_disk fs example_app)" and e = example_env and start = "\<lambda>_. 0" and me = 0 and now = 5
      and addr = 7 and pos = 0, unfolded cleared]
  obtain c0 fs0 where s0: "server_main example_shell args 0 0 (\<lambda>fs. app_h (set_disk fs example_app))
      (ConfigurationManager_new 2 0) example_disk = Inr (c0, async_run (arg_num_workers args) (app_h (set_disk fs0 example_app)))"
    and fs0: "\<forall>p. um_find p fs0 = (if globbed ''/tmp/nvme/'' p \<or> (0::int) = 0 \<and> (globbed ''/tmp/bb/'' p \<or> globbed ''/tmp/pfs/'' p)
       then None else um_find p example_disk)"
    and gone: "\<forall>name a. infos \<noteq> [] \<and> (0::int) = 0 \<and> \<not> is_memory (last infos) \<and>
       name \<noteq> [] \<and> hd name \<noteq> CHR ''.'' \<and> CHR ''/'' \<notin> set name \<and> disk a = fs0 \<longrightarrow>
       hfetch_fopen example_env (\<lambda>_. 0) 0 5 7 0 (mount_point (last infos) @ ''/'' @ name) ''r'' a = Inl (Undefined NullPointer)"
    using main[of 0 0 "ConfigurationManager_new 2 0"] by blast
  obtain c1 fs1 where s1: "server_main example_shell args 1 1 (\<lambda>fs. app_h (set_disk fs example_app))
      (ConfigurationManager_new 2 1) example_disk = Inr (c1, async_run (arg_num_workers args) (app_h (set_disk fs1 example_app)))"
    and fs1: "\<forall>p. um_find p fs1 = (if globbed ''/tmp/nvme/'' p \<or> (1::int) = 0 \<and> (globbed ''/tmp/bb/'' p \<or> globbed ''/tmp/pfs/'' p)
       then None else um_find p example_disk)"
    using main[of 1 1 "ConfigurationManager_new 2 1"] by blast
  have "hfetch_fopen example_env (\<lambda>_. 0) 0 5 7 0 ''/tmp/pfs//in'' ''r'' (set_disk fs0 example_app) = Inl (Undefined NullPointer)"
    using gone[rule_format, of "''in''" "set_disk fs0 example_app"] last by (simp add: disk_def set_disk_def)
  moreover have "map (\<lambda>p. um_find p fs0) [''/tmp/pfs//in'', ''/tmp/nvme//in'', ''/tmp/ramfs//in'', ''/home/in''] =
      [None, None, Some ''vv'', Some ''yy'']"
    unfolding list.map fs0[rule_format] by (simp add: globbed_def Let_def example_disk_def um_find_def)
  moreover have "map (\<lambda>p. um_find p fs1) [''/tmp/pfs//in'', ''/tmp/nvme//in'', ''/tmp/ramfs//in'', ''/home/in''] =
      [Some ''xx'', None, Some ''vv'', Some ''yy'']"
    unfolding list.map fs1[rule_format] by (simp add: globbed_def Let_def example_disk_def um_find_def)
  ultimately show ?thesis
    using args(1) s0 s1
    by (intro exI[of _ args] exI[of _ c0] exI[of _ fs0] exI[of _ c1] exI[of _ fs1] conjI)
qed

end
