(* ===== verification/Msgpack.thy ===== *)
theory Msgpack
  imports Prelude
begin

text \<open>
  The wire format of the RPC layer: the packer and the incremental parser of the msgpack library that rpclib
  carries (\<open>src/external/rpclib/include/rpc/msgpack/v1/pack.hpp\<close>, \<open>unpack.hpp\<close>, \<open>object.hpp\<close>). Bytes are
  natural numbers below 256. The parser is the state machine of \<open>context::execute\<close>: a state \<open>m_cs\<close>, the number
  \<open>m_trail\<close> of bytes the state still needs, and a stack of containers under construction (its head is \<open>back()\<close>).
  A position in the buffer is the list of bytes from it on, so that \<open>m_current == pe\<close> is the empty list. Objects
  refer to the buffer (the default reference function), so only the limits on containers are checked.

  How a \<open>double\<close> or \<open>float\<close> is written as bits is an argument, \<open>float_bits\<close>.
\<close>

unbundle bit_operations_syntax

type_synonym bytes = "nat list"

record float_bits =
  f32_bits :: "real \<Rightarrow> nat"
  f32_of :: "nat \<Rightarrow> real"
  f64_bits :: "real \<Rightarrow> nat"
  f64_of :: "nat \<Rightarrow> real"

section \<open>Objects\<close>

datatype msgpack_object =
    NIL
  | BOOLEAN bool
  | POSITIVE_INTEGER nat
  | NEGATIVE_INTEGER int
  | FLOAT32 real
  | FLOAT64 real
  | STRING string
  | BIN string
  | EXT nat string
  | ARRAY "msgpack_object list"
  | MAP "(msgpack_object \<times> msgpack_object) list"

definition bytes_of :: "string \<Rightarrow> bytes" where
  "bytes_of s = map of_char s"

definition chars_of :: "bytes \<Rightarrow> string" where
  "chars_of bs = map char_of bs"

section \<open>The packer\<close>

text \<open>\<open>_msgpack_store16\<close>, \<open>32\<close> and \<open>64\<close>: big endian, modulo the width.\<close>

fun store_be :: "nat \<Rightarrow> nat \<Rightarrow> bytes" where
  "store_be 0 x = []"
| "store_be (Suc k) x = store_be k (x div 256) @ [x mod 256]"

definition to_unsigned :: "nat \<Rightarrow> int \<Rightarrow> nat" where
  "to_unsigned w d = nat (d mod 2 ^ w)"

definition take8 :: "int \<Rightarrow> nat" where
  "take8 d = to_unsigned 8 d"

definition pack_imp_uint8 :: "nat \<Rightarrow> bytes" where
  "pack_imp_uint8 d = (if d < 2 ^ 7 then [take8 (int d)] else [0xcc, take8 (int d)])"

definition pack_imp_uint32 :: "nat \<Rightarrow> bytes" where
  "pack_imp_uint32 d =
     (if d < 2 ^ 8
      then (if d < 2 ^ 7 then [take8 (int d)] else [0xcc, take8 (int d)])
      else if d < 2 ^ 16 then 0xcd # store_be 2 (to_unsigned 16 (int d))
      else 0xce # store_be 4 (to_unsigned 32 (int d)))"

definition pack_imp_uint64 :: "nat \<Rightarrow> bytes" where
  "pack_imp_uint64 d =
     (if d < 2 ^ 8
      then (if d < 2 ^ 7 then [take8 (int d)] else [0xcc, take8 (int d)])
      else if d < 2 ^ 16 then 0xcd # store_be 2 (to_unsigned 16 (int d))
      else if d < 2 ^ 32 then 0xce # store_be 4 (to_unsigned 32 (int d))
      else 0xcf # store_be 8 (to_unsigned 64 (int d)))"

definition pack_imp_int32 :: "int \<Rightarrow> bytes" where
  "pack_imp_int32 d =
     (if d < - (2 ^ 5)
      then (if d < - (2 ^ 15) then 0xd2 # store_be 4 (to_unsigned 32 d)
            else if d < - (2 ^ 7) then 0xd1 # store_be 2 (to_unsigned 16 d)
            else [0xd0, take8 d])
      else if d < 2 ^ 7 then [take8 d]
      else if d < 2 ^ 8 then [0xcc, take8 d]
      else if d < 2 ^ 16 then 0xcd # store_be 2 (to_unsigned 16 d)
      else 0xce # store_be 4 (to_unsigned 32 d))"

definition pack_imp_int64 :: "int \<Rightarrow> bytes" where
  "pack_imp_int64 d =
     (if d < - (2 ^ 5)
      then (if d < - (2 ^ 15)
            then (if d < - (2 ^ 31) then 0xd3 # store_be 8 (to_unsigned 64 d)
                  else 0xd2 # store_be 4 (to_unsigned 32 d))
            else if d < - (2 ^ 7) then 0xd1 # store_be 2 (to_unsigned 16 d)
            else [0xd0, take8 d])
      else if d < 2 ^ 7 then [take8 d]
      else if d < 2 ^ 16
      then (if d < 2 ^ 8 then [0xcc, take8 d] else 0xcd # store_be 2 (to_unsigned 16 d))
      else if d < 2 ^ 32 then 0xce # store_be 4 (to_unsigned 32 d)
      else 0xcf # store_be 8 (to_unsigned 64 d))"

definition pack_float :: "float_bits \<Rightarrow> real \<Rightarrow> bytes" where
  "pack_float F d = 0xca # store_be 4 (f32_bits F d)"

definition pack_double :: "float_bits \<Rightarrow> real \<Rightarrow> bytes" where
  "pack_double F d = 0xcb # store_be 8 (f64_bits F d)"

definition pack_nil :: bytes where "pack_nil = [0xc0]"
definition pack_true :: bytes where "pack_true = [0xc3]"
definition pack_false :: bytes where "pack_false = [0xc2]"

definition pack_array :: "nat \<Rightarrow> bytes" where
  "pack_array n =
     (if n < 16 then [0x90 OR n]
      else if n < 65536 then 0xdc # store_be 2 n
      else 0xdd # store_be 4 n)"

definition pack_map :: "nat \<Rightarrow> bytes" where
  "pack_map n =
     (if n < 16 then [0x80 OR n]
      else if n < 65536 then 0xde # store_be 2 n
      else 0xdf # store_be 4 n)"

definition pack_str :: "nat \<Rightarrow> bytes" where
  "pack_str l =
     (if l < 32 then [0xa0 OR l]
      else if l < 256 then [0xd9, l]
      else if l < 65536 then 0xda # store_be 2 l
      else 0xdb # store_be 4 l)"

definition pack_bin :: "nat \<Rightarrow> bytes" where
  "pack_bin l =
     (if l < 256 then [0xc4, l]
      else if l < 65536 then 0xc5 # store_be 2 l
      else 0xc6 # store_be 4 l)"

definition pack_body :: "string \<Rightarrow> bytes" where
  "pack_body b = bytes_of b"

definition pack_ext :: "nat \<Rightarrow> nat \<Rightarrow> bytes" where
  "pack_ext l ty =
     (if l = 1 then [0xd4, ty] else if l = 2 then [0xd5, ty] else if l = 4 then [0xd6, ty]
      else if l = 8 then [0xd7, ty] else if l = 16 then [0xd8, ty]
      else if l < 256 then [0xc7, l, ty]
      else if l < 65536 then 0xc8 # store_be 2 l @ [ty]
      else 0xc9 # store_be 4 l @ [ty])"

fun pack_object :: "float_bits \<Rightarrow> msgpack_object \<Rightarrow> bytes" where
  "pack_object F NIL = pack_nil"
| "pack_object F (BOOLEAN b) = (if b then pack_true else pack_false)"
| "pack_object F (POSITIVE_INTEGER n) = pack_imp_uint64 n"
| "pack_object F (NEGATIVE_INTEGER d) = pack_imp_int64 d"
| "pack_object F (FLOAT32 x) = pack_float F x"
| "pack_object F (FLOAT64 x) = pack_double F x"
| "pack_object F (STRING s) = pack_str (length s) @ pack_body s"
| "pack_object F (BIN s) = pack_bin (length s) @ pack_body s"
| "pack_object F (EXT ty s) = pack_ext (length s) ty @ pack_body s"
| "pack_object F (ARRAY os) = pack_array (length os) @ concat (map (pack_object F) os)"
| "pack_object F (MAP kvs) =
     pack_map (length kvs) @ concat (map (\<lambda>(k, v). pack_object F k @ pack_object F v) kvs)"

section \<open>The parser\<close>

datatype container = ARRAY_ITEM | MAP_KEY | MAP_VALUE

text \<open>A fresh entry has no count and no container type; they are set before they are read.\<close>

record unpack_stack =
  sp_obj :: msgpack_object
  sp_count :: nat
  sp_type :: container
  sp_key :: msgpack_object

definition unpack_stack_new :: unpack_stack where
  "unpack_stack_new = \<lparr>sp_obj = NIL, sp_count = 0, sp_type = ARRAY_ITEM, sp_key = NIL\<rparr>"

definition decr_count :: "unpack_stack \<Rightarrow> unpack_stack" where
  "decr_count sp = sp\<lparr>sp_count := (sp_count sp + 2 ^ 64 - 1) mod 2 ^ 64\<rparr>"

record unpack_context =
  m_cs :: nat
  m_trail :: nat
  m_stack :: "unpack_stack list"

definition CS_HEADER :: nat where "CS_HEADER = 0"
definition ACS_STR_VALUE :: nat where "ACS_STR_VALUE = 0x20"
definition ACS_BIN_VALUE :: nat where "ACS_BIN_VALUE = 0x21"
definition ACS_EXT_VALUE :: nat where "ACS_EXT_VALUE = 0x22"

definition limit_size :: nat where "limit_size = 0xffffffff"

definition context_init :: unpack_context where
  "context_init = \<lparr>m_cs = CS_HEADER, m_trail = 0, m_stack = [unpack_stack_new]\<rparr>"

text \<open>What one round of the parser does: return a code, go round again (with \<open>fixed_trail_again\<close>), or throw.\<close>

datatype step = Ret int bytes unpack_context | Go bool bytes unpack_context | Throw

definition load_be :: "bytes \<Rightarrow> nat" where
  "load_be bs = foldl (\<lambda>a b. a * 256 + b) 0 bs"

definition load_signed :: "nat \<Rightarrow> bytes \<Rightarrow> int" where
  "load_signed k bs = (let x = load_be (take k bs) in if x < 2 ^ (8 * k - 1) then int x else int x - 2 ^ (8 * k))"

definition unpack_int :: "int \<Rightarrow> msgpack_object" where
  "unpack_int d = (if d \<ge> 0 then POSITIVE_INTEGER (nat d) else NEGATIVE_INTEGER d)"

definition unpack_array_item :: "msgpack_object \<Rightarrow> msgpack_object \<Rightarrow> msgpack_object" where
  "unpack_array_item c obj = (case c of ARRAY os \<Rightarrow> ARRAY (os @ [obj]) | _ \<Rightarrow> c)"

definition unpack_map_item :: "msgpack_object \<Rightarrow> msgpack_object \<Rightarrow> msgpack_object \<Rightarrow> msgpack_object" where
  "unpack_map_item c k v = (case c of MAP kvs \<Rightarrow> MAP (kvs @ [(k, v)]) | _ \<Rightarrow> c)"

text \<open>\<open>push_item\<close> puts a finished object into the container below the top of the stack, and that container, when
  it is full, into the next one. The flag tells whether the outermost object is complete.\<close>

fun push_item :: "msgpack_object \<Rightarrow> unpack_stack list \<Rightarrow> bool \<times> msgpack_object \<times> unpack_stack list" where
  "push_item obj (bk # sp # below) =
     (case sp_type sp of
        ARRAY_ITEM \<Rightarrow>
          let sp = decr_count (sp\<lparr>sp_obj := unpack_array_item (sp_obj sp) obj\<rparr>)
          in if sp_count sp = 0 then push_item (sp_obj sp) (sp # below) else (False, obj, bk # sp # below)
      | MAP_KEY \<Rightarrow> (False, obj, bk # sp\<lparr>sp_key := obj, sp_type := MAP_VALUE\<rparr> # below)
      | MAP_VALUE \<Rightarrow>
          let sp = decr_count (sp\<lparr>sp_obj := unpack_map_item (sp_obj sp) (sp_key sp) obj\<rparr>)
          in if sp_count sp = 0 then push_item (sp_obj sp) (sp # below)
             else (False, obj, bk # sp\<lparr>sp_type := MAP_KEY\<rparr> # below))"
| "push_item obj st = (True, obj, st)"

definition push_proc :: "msgpack_object \<Rightarrow> bytes \<Rightarrow> unpack_context \<Rightarrow> step" where
  "push_proc obj rest ctx =
     (case push_item obj (m_stack ctx) of
        (True, obj, st) \<Rightarrow> Ret 1 (tl rest) (ctx\<lparr>m_stack := butlast st @ [(last st)\<lparr>sp_obj := obj\<rparr>]\<rparr>)
      | (False, obj, st) \<Rightarrow> Go False (tl rest) (ctx\<lparr>m_stack := st, m_cs := CS_HEADER\<rparr>))"

definition push_aggregate ::
  "msgpack_object \<Rightarrow> container \<Rightarrow> nat \<Rightarrow> bytes \<Rightarrow> unpack_context \<Rightarrow> step" where
  "push_aggregate empty_container ty n rest ctx =
     (if n > limit_size then Throw
      else
        let back = (hd (m_stack ctx))\<lparr>sp_obj := empty_container\<rparr>
        in if n = 0 then push_proc (sp_obj back) rest (ctx\<lparr>m_stack := back # tl (m_stack ctx)\<rparr>)
           else
             let back = back\<lparr>sp_type := ty, sp_count := n\<rparr>
             in if length (m_stack ctx) \<le> limit_size
                then Go False (tl rest)
                       (ctx\<lparr>m_stack := unpack_stack_new # back # tl (m_stack ctx), m_cs := CS_HEADER\<rparr>)
                else Throw)"

definition trail_table :: "nat list" where
  "trail_table = [1, 2, 4, 1, 2, 4, 4, 8, 1, 2, 4, 8, 1, 2, 4, 8, 2, 3, 5, 9, 17, 1, 2, 4, 2, 4, 2, 4]"

text \<open>The branches on the first byte of an object.\<close>

definition header_step :: "bytes \<Rightarrow> unpack_context \<Rightarrow> step" where
  "header_step rest ctx =
     (let selector = hd rest
      in if selector \<le> 0x7f then push_proc (POSITIVE_INTEGER selector) rest ctx
         else if 0xe0 \<le> selector \<and> selector \<le> 0xff then push_proc (unpack_int (int selector - 256)) rest ctx
         else if 0xc4 \<le> selector \<and> selector \<le> 0xdf
         then Go True rest (ctx\<lparr>m_trail := trail_table ! (selector - 0xc4), m_cs := selector AND 0x1f\<rparr>)
         else if 0xa0 \<le> selector \<and> selector \<le> 0xbf
         then (let trail = selector AND 0x1f; ctx = ctx\<lparr>m_trail := trail\<rparr>
               in if trail = 0 then push_proc (STRING []) rest ctx else Go True rest (ctx\<lparr>m_cs := ACS_STR_VALUE\<rparr>))
         else if 0x90 \<le> selector \<and> selector \<le> 0x9f
         then push_aggregate (ARRAY []) ARRAY_ITEM (selector AND 0x0f) rest ctx
         else if 0x80 \<le> selector \<and> selector \<le> 0x8f
         then push_aggregate (MAP []) MAP_KEY (selector AND 0x0f) rest ctx
         else if selector = 0xc2 then push_proc (BOOLEAN False) rest ctx
         else if selector = 0xc3 then push_proc (BOOLEAN True) rest ctx
         else if selector = 0xc0 then push_proc NIL rest ctx
         else Ret (- 1) rest ctx)"

text \<open>The states whose trailing bytes are a number.\<close>

definition scalar_item :: "float_bits \<Rightarrow> nat \<Rightarrow> bytes \<Rightarrow> msgpack_object option" where
  "scalar_item F cs n =
     (if cs = 0x0a then Some (FLOAT32 (f32_of F (load_be (take 4 n))))
      else if cs = 0x0b then Some (FLOAT64 (f64_of F (load_be (take 8 n))))
      else if cs = 0x0c then Some (POSITIVE_INTEGER (load_be (take 1 n)))
      else if cs = 0x0d then Some (POSITIVE_INTEGER (load_be (take 2 n)))
      else if cs = 0x0e then Some (POSITIVE_INTEGER (load_be (take 4 n)))
      else if cs = 0x0f then Some (POSITIVE_INTEGER (load_be (take 8 n)))
      else if cs = 0x10 then Some (unpack_int (load_signed 1 n))
      else if cs = 0x11 then Some (unpack_int (load_signed 2 n))
      else if cs = 0x12 then Some (unpack_int (load_signed 4 n))
      else if cs = 0x13 then Some (unpack_int (load_signed 8 n))
      else None)"

definition unpack_ext :: "bytes \<Rightarrow> nat \<Rightarrow> msgpack_object" where
  "unpack_ext p l = EXT (hd p) (chars_of (take (l - 1) (tl p)))"

definition fixext_item :: "nat \<Rightarrow> bytes \<Rightarrow> msgpack_object option" where
  "fixext_item cs n =
     (if cs = 0x14 then Some (unpack_ext n (1 + 1))
      else if cs = 0x15 then Some (unpack_ext n (2 + 1))
      else if cs = 0x16 then Some (unpack_ext n (4 + 1))
      else if cs = 0x17 then Some (unpack_ext n (8 + 1))
      else if cs = 0x18 then Some (unpack_ext n (16 + 1))
      else None)"

text \<open>The states whose trailing bytes are a size: the state that follows and the bytes it needs.\<close>

definition sized_state :: "nat \<Rightarrow> bytes \<Rightarrow> (nat \<times> nat) option" where
  "sized_state cs n =
     (if cs = 0x19 then Some (ACS_STR_VALUE, load_be (take 1 n))
      else if cs = 0x04 then Some (ACS_BIN_VALUE, load_be (take 1 n))
      else if cs = 0x07 then Some (ACS_EXT_VALUE, load_be (take 1 n) + 1)
      else if cs = 0x1a then Some (ACS_STR_VALUE, load_be (take 2 n))
      else if cs = 0x05 then Some (ACS_BIN_VALUE, load_be (take 2 n))
      else if cs = 0x08 then Some (ACS_EXT_VALUE, load_be (take 2 n) + 1)
      else if cs = 0x1b then Some (ACS_STR_VALUE, load_be (take 4 n))
      else if cs = 0x06 then Some (ACS_BIN_VALUE, load_be (take 4 n))
      else if cs = 0x09 then Some (ACS_EXT_VALUE, load_be (take 4 n) + 1)
      else None)"

definition value_item :: "nat \<Rightarrow> bytes \<Rightarrow> nat \<Rightarrow> msgpack_object" where
  "value_item acs n l =
     (if acs = ACS_STR_VALUE then STRING (chars_of (take l n))
      else if acs = ACS_BIN_VALUE then BIN (chars_of (take l n))
      else unpack_ext n l)"

definition aggregate_step :: "nat \<Rightarrow> bytes \<Rightarrow> bytes \<Rightarrow> unpack_context \<Rightarrow> step" where
  "aggregate_step cs n cur ctx =
     (if cs = 0x1c then push_aggregate (ARRAY []) ARRAY_ITEM (load_be (take 2 n)) cur ctx
      else if cs = 0x1d then push_aggregate (ARRAY []) ARRAY_ITEM (load_be (take 4 n)) cur ctx
      else if cs = 0x1e then push_aggregate (MAP []) MAP_KEY (load_be (take 2 n)) cur ctx
      else if cs = 0x1f then push_aggregate (MAP []) MAP_KEY (load_be (take 4 n)) cur ctx
      else Ret (- 1) cur ctx)"

text \<open>The second half of a round, once the trailing bytes are there.\<close>

definition trail_step :: "float_bits \<Rightarrow> bool \<Rightarrow> bytes \<Rightarrow> unpack_context \<Rightarrow> step" where
  "trail_step F fixed rest ctx =
     (let rest = (if fixed then tl rest else rest)
      in if length rest < m_trail ctx then Ret 0 rest ctx
         else
           let n = rest; cur = drop (m_trail ctx - 1) rest; cs = m_cs ctx
           in case scalar_item F cs n of
                Some obj \<Rightarrow> push_proc obj cur ctx
              | None \<Rightarrow>
           case fixext_item cs n of
                Some obj \<Rightarrow> push_proc obj cur ctx
              | None \<Rightarrow>
           case sized_state cs n of
                Some (acs, trail) \<Rightarrow>
                  let ctx = ctx\<lparr>m_trail := trail\<rparr>
                  in if trail = 0 then push_proc (value_item acs n 0) cur ctx else Go True cur (ctx\<lparr>m_cs := acs\<rparr>)
              | None \<Rightarrow>
           if cs = ACS_STR_VALUE \<or> cs = ACS_BIN_VALUE \<or> cs = ACS_EXT_VALUE
           then push_proc (value_item cs n (m_trail ctx)) cur ctx
           else aggregate_step cs n cur ctx)"

definition parse_round :: "float_bits \<Rightarrow> bool \<Rightarrow> bytes \<Rightarrow> unpack_context \<Rightarrow> step" where
  "parse_round F fixed rest ctx =
     (if m_cs ctx = CS_HEADER
      then (case header_step rest ctx of
              Go fixed rest ctx \<Rightarrow>
                if m_cs ctx \<noteq> CS_HEADER \<or> fixed then trail_step F fixed rest ctx else Go fixed rest ctx
            | r \<Rightarrow> r)
      else trail_step F fixed rest ctx)"

lemma push_proc_Go: "push_proc obj rest ctx = Go f rest' ctx' \<Longrightarrow> \<not> f \<and> rest' = tl rest \<and> m_cs ctx' = CS_HEADER"
  by (auto simp: push_proc_def split: prod.splits bool.splits)

lemma push_aggregate_Go:
  "push_aggregate c ty n rest ctx = Go f rest' ctx' \<Longrightarrow> \<not> f \<and> rest' = tl rest \<and> m_cs ctx' = CS_HEADER"
  by (auto simp: push_aggregate_def Let_def dest: push_proc_Go split: if_splits)

lemma header_step_Go:
  "header_step rest ctx = Go f rest' ctx' \<Longrightarrow> rest' = (if f then rest else tl rest)"
  unfolding header_step_def Let_def
  by (auto dest: push_proc_Go push_aggregate_Go split: if_splits)

lemma aggregate_step_Go:
  "aggregate_step cs n cur ctx = Go f rest' ctx' \<Longrightarrow> \<not> f \<and> rest' = tl cur \<and> m_cs ctx' = CS_HEADER"
  unfolding aggregate_step_def by (auto dest: push_aggregate_Go split: if_splits)

lemma trail_step_Go:
  assumes "trail_step F fixed rest ctx = Go f rest' ctx'"
  shows "m_trail ctx \<le> length (if fixed then tl rest else rest) \<and>
    rest' = (if f then id else tl) (drop (m_trail ctx - 1) (if fixed then tl rest else rest))"
  using assms unfolding trail_step_def Let_def
  by (auto dest: push_proc_Go aggregate_step_Go split: if_splits option.splits prod.splits)

lemma parse_round_Go:
  assumes "parse_round F fixed rest ctx = Go f rest' ctx'" and "rest \<noteq> []"
  shows "2 * length rest' + (if f then 0 else 1) < 2 * length rest + (if fixed then 0 else (1::nat))"
proof -
  have trail: "2 * length rest' + (if f then 0 else 1) < 2 * length rest + (if fixed then 0 else (1::nat))"
    if "trail_step F fixed rest c = Go f rest' ctx'" for fixed c
    using trail_step_Go[OF that] assms(2) by (cases rest) (auto split: if_splits)
  have tl: "length (tl rest) < length rest" using assms(2) by (cases rest) auto
  show ?thesis
  proof (cases "m_cs ctx = CS_HEADER")
    case True
    obtain f1 r1 c1 where h: "header_step rest ctx = Go f1 r1 c1"
      using assms(1) True by (auto simp: parse_round_def split: step.splits)
    note r1 = header_step_Go[OF h]
    show ?thesis
    proof (cases "m_cs c1 \<noteq> CS_HEADER \<or> f1")
      case True
      then have t: "trail_step F f1 r1 c1 = Go f rest' ctx'"
        using assms(1) h \<open>m_cs ctx = CS_HEADER\<close> by (simp add: parse_round_def)
      show ?thesis
      proof (cases f1)
        case True
        with t r1 have "trail_step F True rest c1 = Go f rest' ctx'" by simp
        from trail[OF this] show ?thesis by (auto split: if_splits)
      next
        case False
        with r1 have "r1 = tl rest" by simp
        then show ?thesis using trail_step_Go[OF t] False tl by (auto split: if_splits)
      qed
    next
      case False
      then have "f = f1 \<and> rest' = r1" using assms(1) h True by (simp add: parse_round_def)
      then show ?thesis using r1 False tl by simp
    qed
  next
    case False
    then show ?thesis using assms(1) trail by (simp add: parse_round_def)
  qed
qed

text \<open>\<open>context::execute\<close>: rounds until one returns or the buffer is used up.\<close>

function execute :: "float_bits \<Rightarrow> bool \<Rightarrow> bytes \<Rightarrow> unpack_context \<Rightarrow> step" where
  "execute F fixed rest ctx =
     (if rest = [] then Ret 0 rest ctx
      else case parse_round F fixed rest ctx of Go fixed' rest' ctx' \<Rightarrow> execute F fixed' rest' ctx' | r \<Rightarrow> r)"
  by pat_completeness auto
termination
  by (relation "measure (\<lambda>(F, fixed, rest, ctx). 2 * length rest + (if fixed then 0 else 1))")
    (auto dest: parse_round_Go)

declare execute.simps [simp del]

text \<open>\<open>unpacker\<close>: the bytes received and not parsed yet, and the parser's context. \<open>next\<close> yields an object as
  soon as one is complete.\<close>

record unpacker =
  nonparsed :: bytes
  m_ctx :: unpack_context

definition unpacker_new :: unpacker where
  "unpacker_new = \<lparr>nonparsed = [], m_ctx = context_init\<rparr>"

definition buffer_consumed :: "bytes \<Rightarrow> unpacker \<Rightarrow> unpacker" where
  "buffer_consumed bs u = u\<lparr>nonparsed := nonparsed u @ bs\<rparr>"

definition unpacker_next :: "float_bits \<Rightarrow> unpacker \<Rightarrow> (msgpack_object option \<times> unpacker) res" where
  "unpacker_next F u =
     (case execute F False (nonparsed u) (m_ctx u) of
        Ret r rest ctx \<Rightarrow>
          if r < 0 then Inl (Msgpack parse_error)
          else if r = 0 then Inr (None, u\<lparr>nonparsed := rest, m_ctx := ctx\<rparr>)
          else Inr (Some (sp_obj (last (m_stack ctx))), u\<lparr>nonparsed := rest, m_ctx := context_init\<rparr>)
      | _ \<Rightarrow> Inl (Msgpack size_overflow))"

text \<open>\<open>unpack\<close> on a complete message.\<close>

definition unpack :: "float_bits \<Rightarrow> bytes \<Rightarrow> (msgpack_object \<times> bytes) res" where
  "unpack F bs =
     (case execute F False bs context_init of
        Ret r rest ctx \<Rightarrow>
          if r > 0 then Inr (sp_obj (last (m_stack ctx)), rest)
          else Inl (Msgpack (if r = 0 then insufficient_bytes else parse_error))
      | _ \<Rightarrow> Inl (Msgpack size_overflow))"

section \<open>Lemmas\<close>

lemma length_store_be [simp]: "length (store_be k x) = k"
  by (induction k arbitrary: x) auto

lemma store_be_nonempty: "0 < k \<Longrightarrow> store_be k x \<noteq> []"
  by (metis length_0_conv length_store_be less_numeral_extra(3))

lemma load_store: "load_be (store_be k x) = x mod 256 ^ k"
proof (induction k arbitrary: x)
  case (Suc k)
  have "load_be (store_be (Suc k) x) = load_be (store_be k (x div 256)) * 256 + x mod 256"
    by (simp add: load_be_def)
  also have "\<dots> = x div 256 mod 256 ^ k * 256 + x mod 256" by (simp add: Suc)
  also have "\<dots> = x mod 256 ^ Suc k" by (simp add: mod_mult2_eq[of x 256 "256 ^ k"])
  finally show ?case .
qed (simp add: load_be_def)

lemma load_be_single [simp]: "load_be [b] = b"
  by (simp add: load_be_def)

lemma chars_bytes [simp]: "chars_of (bytes_of s) = s"
  by (simp add: chars_of_def bytes_of_def comp_def)

lemma length_bytes_of [simp]: "length (bytes_of s) = length s"
  by (simp add: bytes_of_def)

lemma and_low: "(n :: nat) AND 15 = n mod 16" "(n :: nat) AND 31 = n mod 32"
  using take_bit_eq_mask[of 4 n] take_bit_eq_mask[of 5 n] by (simp_all add: mask_eq_exp_minus_1 take_bit_eq_mod)

lemma or_disjoint: "(a :: nat) AND b = 0 \<Longrightarrow> a OR b = a + b"
  using plus_and_or[of "int a" "int b"] by (metis add_0 of_nat_add of_nat_and_eq of_nat_eq_iff of_nat_or_eq of_nat_0)

lemma prefix_bits:
  "n < 16 \<Longrightarrow> (0x90 :: nat) OR n = 0x90 + n" "n < 16 \<Longrightarrow> (0x90 + n) AND 0x0f = n"
  "n < 16 \<Longrightarrow> (0x80 :: nat) OR n = 0x80 + n" "n < 16 \<Longrightarrow> (0x80 + n) AND 0x0f = n"
  "n < 32 \<Longrightarrow> (0xa0 :: nat) OR n = 0xa0 + n" "n < 32 \<Longrightarrow> (0xa0 + n) AND 0x1f = n"
proof -
  have low: "a AND n = (a AND m) AND n" if "n = m AND n" for a m :: nat
    using that by (metis and.assoc)
  have "n = 15 AND n" if "n < 16" using that and_low(1)[of n] by (simp add: and.commute)
  then show "n < 16 \<Longrightarrow> (0x90 :: nat) OR n = 0x90 + n" "n < 16 \<Longrightarrow> (0x80 :: nat) OR n = 0x80 + n"
    using low[of 15 "0x90"] low[of 15 "0x80"] by (auto intro!: or_disjoint)
  have "n = 31 AND n" if "n < 32" using that and_low(2)[of n] by (simp add: and.commute)
  then show "n < 32 \<Longrightarrow> (0xa0 :: nat) OR n = 0xa0 + n"
    using low[of 31 "0xa0"] by (auto intro!: or_disjoint)
  have "(n + 16 * 9) mod 16 = n" "(n + 16 * 8) mod 16 = n" if "n < 16" using that by (simp_all only: mod_mult_self2 mod_less)
  then show "n < 16 \<Longrightarrow> (0x90 + n) AND 0x0f = n" "n < 16 \<Longrightarrow> (0x80 + n) AND 0x0f = n"
    by (simp_all add: and_low add.commute)
  have "(n + 32 * 5) mod 32 = n" if "n < 32" using that by (simp only: mod_mult_self2 mod_less)
  then show "n < 32 \<Longrightarrow> (0xa0 + n) AND 0x1f = n" by (simp add: and_low add.commute)
qed

text \<open>What the parser does after a round.\<close>

definition after :: "float_bits \<Rightarrow> step \<Rightarrow> step" where
  "after F s = (case s of Go fixed rest ctx \<Rightarrow> execute F fixed rest ctx | r \<Rightarrow> r)"

lemma after_simps [simp]:
  "after F (Ret r rest ctx) = Ret r rest ctx" "after F Throw = Throw"
  "after F (Go f rest ctx) = execute F f rest ctx"
  by (simp_all add: after_def)

lemma execute_round: "rest \<noteq> [] \<Longrightarrow> execute F fixed rest ctx = after F (parse_round F fixed rest ctx)"
  by (simp add: execute.simps[of F fixed rest ctx] after_def)

lemma execute_empty [simp]: "execute F fixed [] ctx = Ret 0 [] ctx"
  by (simp add: execute.simps)

text \<open>The state after an object whose last byte was just read has been put in its place.\<close>

definition finish :: "float_bits \<Rightarrow> msgpack_object \<Rightarrow> bytes \<Rightarrow> unpack_context \<Rightarrow> step" where
  "finish F obj rest ctx = after F (push_proc obj (0 # rest) ctx)"

lemma after_push_proc: "cur \<noteq> [] \<Longrightarrow> after F (push_proc obj cur ctx) = finish F obj (tl cur) ctx"
  by (auto simp: finish_def push_proc_def split: prod.split bool.split)

lemma drop_to_last: "bs \<noteq> [] \<Longrightarrow> drop (length bs - Suc 0) bs = [last bs]"
  by (induction bs rule: rev_induct) auto

lemma cs_constants [simp]:
  "ACS_STR_VALUE \<noteq> CS_HEADER" "ACS_BIN_VALUE \<noteq> CS_HEADER" "ACS_EXT_VALUE \<noteq> CS_HEADER"
  "ACS_STR_VALUE \<noteq> ACS_EXT_VALUE" "ACS_BIN_VALUE \<noteq> ACS_EXT_VALUE"
  "CS_HEADER \<noteq> ACS_STR_VALUE" "CS_HEADER \<noteq> ACS_BIN_VALUE" "CS_HEADER \<noteq> ACS_EXT_VALUE"
  by (simp_all add: CS_HEADER_def ACS_STR_VALUE_def ACS_BIN_VALUE_def ACS_EXT_VALUE_def)

lemma execute_byte:
  assumes "m_cs ctx = CS_HEADER" and "header_step (b # rest) ctx = push_proc obj (b # rest) ctx"
  shows "execute F False (b # rest) ctx = finish F obj rest ctx"
proof -
  have "parse_round F False (b # rest) ctx = push_proc obj (b # rest) ctx"
    using assms push_proc_Go[of obj "b # rest" ctx] by (auto simp: parse_round_def split: step.splits)
  then show ?thesis by (simp add: execute_round after_push_proc)
qed

text \<open>A header byte with trailing bytes.\<close>

definition trail_header :: "nat \<Rightarrow> nat \<Rightarrow> nat \<Rightarrow> bool" where
  "trail_header h k cs \<longleftrightarrow> 0xc4 \<le> h \<and> h \<le> 0xdf \<and> trail_table ! (h - 0xc4) = k \<and> h AND 0x1f = cs \<and> cs \<noteq> CS_HEADER"

lemma trail_headers [simp]:
  "trail_header 0xca 4 0x0a" "trail_header 0xcb 8 0x0b" "trail_header 0xcc (Suc 0) 0x0c" "trail_header 0xcd 2 0x0d"
  "trail_header 0xce 4 0x0e" "trail_header 0xcf 8 0x0f" "trail_header 0xd0 (Suc 0) 0x10" "trail_header 0xd1 2 0x11"
  "trail_header 0xd2 4 0x12" "trail_header 0xd3 8 0x13" "trail_header 0xd4 2 0x14" "trail_header 0xd5 3 0x15"
  "trail_header 0xd6 5 0x16" "trail_header 0xd7 9 0x17" "trail_header 0xd8 17 0x18" "trail_header 0xd9 (Suc 0) 0x19"
  "trail_header 0xda 2 0x1a" "trail_header 0xdb 4 0x1b" "trail_header 0xdc 2 0x1c" "trail_header 0xdd 4 0x1d"
  "trail_header 0xde 2 0x1e" "trail_header 0xdf 4 0x1f" "trail_header 0xc4 (Suc 0) 0x04" "trail_header 0xc5 2 0x05"
  "trail_header 0xc6 4 0x06" "trail_header 0xc7 (Suc 0) 0x07" "trail_header 0xc8 2 0x08" "trail_header 0xc9 4 0x09"
  by code_simp+

lemma execute_trail_header:
  assumes "m_cs ctx = CS_HEADER" and "trail_header h k cs"
  shows "execute F False (h # rest) ctx = after F (trail_step F True (h # rest) (ctx\<lparr>m_trail := k, m_cs := cs\<rparr>))"
  using assms by (simp add: execute_round parse_round_def header_step_def trail_header_def Let_def)

lemma execute_scalar:
  assumes "m_cs ctx = CS_HEADER" and "trail_header h (length bs) cs" and "bs \<noteq> []"
    and "scalar_item F cs (bs @ rest) = Some obj \<or> scalar_item F cs (bs @ rest) = None \<and> fixext_item cs (bs @ rest) = Some obj"
  shows "execute F False (h # bs @ rest) ctx = finish F obj rest (ctx\<lparr>m_trail := length bs, m_cs := cs\<rparr>)"
  using assms(3,4) unfolding execute_trail_header[OF assms(1,2)]
  by (auto simp: trail_step_def after_push_proc drop_to_last)

text \<open>A header byte with a size, followed by that many bytes.\<close>

lemma execute_sized:
  assumes "m_cs ctx = CS_HEADER" and "trail_header h (length bs) cs" and "bs \<noteq> []"
    and "scalar_item F cs (bs @ body @ rest) = None" "fixext_item cs (bs @ body @ rest) = None"
      "sized_state cs (bs @ body @ rest) = Some (acs, length body)"
    and acs: "acs = ACS_STR_VALUE \<or> acs = ACS_BIN_VALUE \<or> acs = ACS_EXT_VALUE"
    and empty: "body = [] \<Longrightarrow> value_item acs (bs @ rest) 0 = value_item acs (body @ rest) 0"
  shows "execute F False (h # bs @ body @ rest) ctx =
    finish F (value_item acs (body @ rest) (length body)) rest
      (ctx\<lparr>m_trail := length body, m_cs := if body = [] then cs else acs\<rparr>)"
proof -
  have nz: "acs \<noteq> CS_HEADER" using acs by auto
  have none: "scalar_item F acs n = None" "fixext_item acs n = None" "sized_state acs n = None" for n
    using acs by (auto simp: scalar_item_def fixext_item_def sized_state_def ACS_STR_VALUE_def ACS_BIN_VALUE_def
        ACS_EXT_VALUE_def)
  have swap: "ctx\<lparr>m_cs := cs, m_trail := 0\<rparr> = ctx\<lparr>m_trail := 0, m_cs := cs\<rparr>" by simp
  have start: "execute F False (h # bs @ body @ rest) ctx =
    (if body = [] then finish F (value_item acs (bs @ rest) 0) rest (ctx\<lparr>m_trail := 0, m_cs := cs\<rparr>)
     else execute F True (last bs # body @ rest) (ctx\<lparr>m_trail := length body, m_cs := acs\<rparr>))"
    using assms(3-6) unfolding execute_trail_header[OF assms(1,2)]
    by (simp add: trail_step_def after_push_proc drop_to_last swap)
  have "execute F True (b # body @ rest) (ctx\<lparr>m_trail := length body, m_cs := acs\<rparr>) =
      finish F (value_item acs (body @ rest) (length body)) rest (ctx\<lparr>m_trail := length body, m_cs := acs\<rparr>)"
    if "body \<noteq> []" for b
    using that nz acs by (simp add: execute_round parse_round_def trail_step_def none after_push_proc drop_to_last)
  then show ?thesis using empty unfolding start by simp
qed

text \<open>Objects the packer can write: sizes below \<open>2 ^ 32\<close>, integers at their width, floats whose bits read back.\<close>

fun valid_object :: "float_bits \<Rightarrow> msgpack_object \<Rightarrow> bool" where
  "valid_object F (POSITIVE_INTEGER n) \<longleftrightarrow> n < 2 ^ 64"
| "valid_object F (NEGATIVE_INTEGER d) \<longleftrightarrow> - (2 ^ 63) \<le> d \<and> d < 0"
| "valid_object F (FLOAT32 x) \<longleftrightarrow> f32_bits F x < 2 ^ 32 \<and> f32_of F (f32_bits F x) = x"
| "valid_object F (FLOAT64 x) \<longleftrightarrow> f64_bits F x < 2 ^ 64 \<and> f64_of F (f64_bits F x) = x"
| "valid_object F (STRING s) \<longleftrightarrow> length s < 2 ^ 32"
| "valid_object F (BIN s) \<longleftrightarrow> length s < 2 ^ 32"
| "valid_object F (EXT ty s) \<longleftrightarrow> ty < 256 \<and> length s < 2 ^ 32"
| "valid_object F (ARRAY os) \<longleftrightarrow> length os < 2 ^ 32 \<and> (\<forall>obj\<in>set os. valid_object F obj)"
| "valid_object F (MAP kvs) \<longleftrightarrow> length kvs < 2 ^ 32 \<and> (\<forall>(k, v)\<in>set kvs. valid_object F k \<and> valid_object F v)"
| "valid_object F _ \<longleftrightarrow> True"

fun depth :: "msgpack_object \<Rightarrow> nat" where
  "depth (ARRAY os) = Suc (Max (insert 0 (set (map depth os))))"
| "depth (MAP kvs) = Suc (Max (insert 0 (set (map (\<lambda>(k, v). max (depth k) (depth v)) kvs))))"
| "depth _ = 0"

lemma finish_same:
  "push_item obj st = push_item obj' st' \<Longrightarrow>
    finish F obj rest (ctx\<lparr>m_stack := st\<rparr>) = finish F obj' rest (ctx\<lparr>m_stack := st'\<rparr>)"
  by (simp add: finish_def push_proc_def split: prod.split bool.split)

lemma finish_inside:
  "push_item obj st = (False, obj', st') \<Longrightarrow>
    finish F obj rest (ctx\<lparr>m_stack := st\<rparr>) = execute F False rest (ctx\<lparr>m_stack := st', m_cs := CS_HEADER\<rparr>)"
  by (simp add: finish_def push_proc_def)

text \<open>What parsing a packed object amounts to; the top of the stack has no content of its own.\<close>

definition parses :: "float_bits \<Rightarrow> msgpack_object \<Rightarrow> bytes \<Rightarrow> unpack_stack list \<Rightarrow> bool" where
  "parses F obj bs below \<longleftrightarrow>
     (\<forall>t b rest. \<exists>c t' b'. execute F False (bs @ rest) \<lparr>m_cs = CS_HEADER, m_trail = t, m_stack = b # below\<rparr> =
        finish F obj rest \<lparr>m_cs = c, m_trail = t', m_stack = b' # below\<rparr>)"

lemma parses_byte:
  assumes "\<And>rest ctx. header_step (b # rest) ctx = push_proc obj (b # rest) ctx"
  shows "parses F obj [b] below"
  unfolding parses_def
proof (intro allI)
  fix t b' rest
  let ?ctx = "\<lparr>m_cs = CS_HEADER, m_trail = t, m_stack = b' # below\<rparr>"
  have "execute F False ([b] @ rest) ?ctx = finish F obj rest ?ctx"
    using execute_byte[of ?ctx b rest obj F] assms by simp
  then show "\<exists>c t' b''. execute F False ([b] @ rest) ?ctx = finish F obj rest \<lparr>m_cs = c, m_trail = t', m_stack = b'' # below\<rparr>"
    by blast
qed

lemma parses_scalar:
  assumes "trail_header h (length bs) cs" and "bs \<noteq> []"
    and "\<And>rest. scalar_item F cs (bs @ rest) = Some obj \<or>
      scalar_item F cs (bs @ rest) = None \<and> fixext_item cs (bs @ rest) = Some obj"
  shows "parses F obj (h # bs) below"
  unfolding parses_def
proof (intro allI)
  fix t b rest
  let ?ctx = "\<lparr>m_cs = CS_HEADER, m_trail = t, m_stack = b # below\<rparr>"
  have "execute F False ((h # bs) @ rest) ?ctx = finish F obj rest \<lparr>m_cs = cs, m_trail = length bs, m_stack = b # below\<rparr>"
    using execute_scalar[of ?ctx h bs cs F rest obj] assms by simp
  then show "\<exists>c t' b'. execute F False ((h # bs) @ rest) ?ctx =
      finish F obj rest \<lparr>m_cs = c, m_trail = t', m_stack = b' # below\<rparr>" by blast
qed

lemma parses_sized:
  assumes "trail_header h (length bs) cs" and "bs \<noteq> []"
    and "\<And>n. scalar_item F cs n = None \<and> fixext_item cs n = None"
    and "\<And>rest. sized_state cs (bs @ rest) = Some (acs, length body)"
    and "acs = ACS_STR_VALUE \<or> acs = ACS_BIN_VALUE \<or> acs = ACS_EXT_VALUE" and "acs = ACS_EXT_VALUE \<Longrightarrow> body \<noteq> []"
    and "\<And>rest. value_item acs (body @ rest) (length body) = obj"
  shows "parses F obj (h # bs @ body) below"
  unfolding parses_def
proof (intro allI)
  fix t b rest
  let ?ctx = "\<lparr>m_cs = CS_HEADER, m_trail = t, m_stack = b # below\<rparr>"
  have "value_item acs (bs @ rest) 0 = value_item acs (body @ rest) 0" if "body = []"
    using that assms(5,6) by (auto simp: value_item_def)
  then have "execute F False ((h # bs @ body) @ rest) ?ctx =
      finish F obj rest (?ctx\<lparr>m_trail := length body, m_cs := if body = [] then cs else acs\<rparr>)"
    using execute_sized[of ?ctx h bs cs F body rest acs] assms by simp
  then show "\<exists>c t' b'. execute F False ((h # bs @ body) @ rest) ?ctx =
      finish F obj rest \<lparr>m_cs = c, m_trail = t', m_stack = b' # below\<rparr>" by auto
qed

text \<open>Containers. The header pushes an entry that waits for \<open>n\<close> items.\<close>

definition opened_container :: "msgpack_object \<Rightarrow> container \<Rightarrow> nat \<Rightarrow> unpack_stack \<Rightarrow> unpack_stack" where
  "opened_container c ty n b = b\<lparr>sp_obj := c, sp_type := ty, sp_count := n\<rparr>"

definition aggregate_header :: "float_bits \<Rightarrow> bytes \<Rightarrow> msgpack_object \<Rightarrow> container \<Rightarrow> nat \<Rightarrow> bool" where
  "aggregate_header F bs c ty n \<longleftrightarrow>
     (\<forall>t b below rest. length below < limit_size \<longrightarrow>
       (\<exists>t' b' cs. execute F False (bs @ rest) \<lparr>m_cs = CS_HEADER, m_trail = t, m_stack = b # below\<rparr> =
         (if n = 0 then finish F c rest \<lparr>m_cs = cs, m_trail = t', m_stack = b' # below\<rparr>
          else execute F False rest \<lparr>m_cs = CS_HEADER, m_trail = t',
                 m_stack = unpack_stack_new # opened_container c ty n b' # below\<rparr>)))"

lemma push_aggregate_run:
  assumes "n < 2 ^ 32" and "length below < limit_size"
  shows "\<exists>t' b' cs'. after F (push_aggregate c ty n (x # rest) \<lparr>m_cs = cs, m_trail = t, m_stack = b # below\<rparr>) =
    (if n = 0 then finish F c rest \<lparr>m_cs = cs', m_trail = t', m_stack = b' # below\<rparr>
     else execute F False rest \<lparr>m_cs = CS_HEADER, m_trail = t',
            m_stack = unpack_stack_new # opened_container c ty n b' # below\<rparr>)"
proof (cases "n = 0")
  case True
  then show ?thesis
    by (intro exI[of _ t] exI[of _ "b\<lparr>sp_obj := c\<rparr>"] exI[of _ cs])
      (simp add: push_aggregate_def limit_size_def after_push_proc Let_def)
next
  case False
  then show ?thesis
    using assms
    by (intro exI[of _ t] exI[of _ b] exI) (simp add: push_aggregate_def limit_size_def opened_container_def Let_def)
qed

lemma aggregate_fix:
  assumes "\<And>rest ctx. header_step (h # rest) ctx = push_aggregate c ty n (h # rest) ctx" and "n < 2 ^ 32"
  shows "aggregate_header F [h] c ty n"
  unfolding aggregate_header_def
proof (intro allI impI)
  fix t b rest and below :: "unpack_stack list"
  assume len: "length below < limit_size"
  let ?ctx = "\<lparr>m_cs = CS_HEADER, m_trail = t, m_stack = b # below\<rparr>"
  have "parse_round F False (h # rest) ?ctx = push_aggregate c ty n (h # rest) ?ctx"
    using assms(1) push_aggregate_Go[of c ty n "h # rest" ?ctx]
    by (cases "push_aggregate c ty n (h # rest) ?ctx") (auto simp: parse_round_def)
  then have "execute F False ([h] @ rest) ?ctx = after F (push_aggregate c ty n (h # rest) ?ctx)"
    by (simp add: execute_round)
  then show "\<exists>t' b' cs. execute F False ([h] @ rest) ?ctx =
      (if n = 0 then finish F c rest \<lparr>m_cs = cs, m_trail = t', m_stack = b' # below\<rparr>
       else execute F False rest \<lparr>m_cs = CS_HEADER, m_trail = t',
              m_stack = unpack_stack_new # opened_container c ty n b' # below\<rparr>)"
    using push_aggregate_run[OF assms(2) len, of F c ty h rest CS_HEADER t b] by simp
qed

lemma aggregate_trail:
  assumes "trail_header h (length bs) cs" and "bs \<noteq> []"
    and "\<And>n. scalar_item F cs n = None \<and> fixext_item cs n = None \<and> sized_state cs n = None"
    and "cs \<noteq> ACS_STR_VALUE" "cs \<noteq> ACS_BIN_VALUE" "cs \<noteq> ACS_EXT_VALUE"
    and "\<And>rest cur ctx. aggregate_step cs (bs @ rest) cur ctx = push_aggregate c ty n cur ctx" and "n < 2 ^ 32"
  shows "aggregate_header F (h # bs) c ty n"
  unfolding aggregate_header_def
proof (intro allI impI)
  fix t b rest and below :: "unpack_stack list"
  assume len: "length below < limit_size"
  let ?ctx = "\<lparr>m_cs = CS_HEADER, m_trail = t, m_stack = b # below\<rparr>"
  let ?ctx' = "\<lparr>m_cs = cs, m_trail = length bs, m_stack = b # below\<rparr>"
  have "execute F False ((h # bs) @ rest) ?ctx = after F (push_aggregate c ty n (last bs # rest) ?ctx')"
    using assms(2-7) execute_trail_header[of ?ctx, OF _ assms(1)] by (simp add: trail_step_def drop_to_last)
  then show "\<exists>t' b' cs. execute F False ((h # bs) @ rest) ?ctx =
      (if n = 0 then finish F c rest \<lparr>m_cs = cs, m_trail = t', m_stack = b' # below\<rparr>
       else execute F False rest \<lparr>m_cs = CS_HEADER, m_trail = t',
              m_stack = unpack_stack_new # opened_container c ty n b' # below\<rparr>)"
    using push_aggregate_run[OF assms(8) len, of F c ty "last bs" rest cs "length bs" b] by simp
qed

lemma decr_count_run: "0 < sp_count sp \<Longrightarrow> sp_count sp < 2 ^ 64 \<Longrightarrow> decr_count sp = sp\<lparr>sp_count := sp_count sp - 1\<rparr>"
  by (simp add: decr_count_def mod_eq_self_iff_div_eq_0 le_mod_geq)

lemma array_items:
  assumes "os \<noteq> []" and "list_all2 (\<lambda>bs obj. \<forall>s. parses F obj bs (s # below)) bss os"
    and "sp_type sp = ARRAY_ITEM" and "sp_obj sp = ARRAY ys" and "sp_count sp = length os" and "length os < 2 ^ 32"
  shows "\<exists>c t' b'. execute F False (concat bss @ rest)
      \<lparr>m_cs = CS_HEADER, m_trail = t, m_stack = b # sp # below\<rparr> =
    finish F (ARRAY (ys @ os)) rest \<lparr>m_cs = c, m_trail = t', m_stack = b' # below\<rparr>"
  using assms
proof (induction os arbitrary: bss ys sp t b)
  case (Cons obj os)
  obtain bs bss' where bss: "bss = bs # bss'" and one: "\<forall>s. parses F obj bs (s # below)"
    and all: "list_all2 (\<lambda>bs obj. \<forall>s. parses F obj bs (s # below)) bss' os"
    using Cons.prems(2) by (auto simp: list_all2_Cons2)
  let ?rest = "concat bss' @ rest"
  let ?sp = "sp\<lparr>sp_obj := ARRAY (ys @ [obj]), sp_count := length os\<rparr>"
  obtain c t1 b1 where first: "execute F False (bs @ ?rest)
      \<lparr>m_cs = CS_HEADER, m_trail = t, m_stack = b # sp # below\<rparr> =
    finish F obj ?rest \<lparr>m_cs = c, m_trail = t1, m_stack = b1 # sp # below\<rparr>"
    using one unfolding parses_def by blast
  have decr: "decr_count (sp\<lparr>sp_obj := unpack_array_item (sp_obj sp) obj\<rparr>) = ?sp"
    using Cons.prems(4-6) by (simp add: decr_count_run unpack_array_item_def)
  show ?case
  proof (cases "os = []")
    case True
    then have "push_item obj (b1 # sp # below) = push_item (ARRAY (ys @ [obj])) (?sp # below)"
      using Cons.prems(3) decr by simp
    from finish_same[OF this, of F ?rest "\<lparr>m_cs = c, m_trail = t1, m_stack = []\<rparr>"]
    show ?thesis using first True all bss by auto
  next
    case False
    then have "push_item obj (b1 # sp # below) = (False, obj, b1 # ?sp # below)"
      using Cons.prems(3) decr by simp
    from finish_inside[OF this, of F ?rest "\<lparr>m_cs = c, m_trail = t1, m_stack = []\<rparr>"]
    have "finish F obj ?rest \<lparr>m_cs = c, m_trail = t1, m_stack = b1 # sp # below\<rparr> =
        execute F False ?rest \<lparr>m_cs = CS_HEADER, m_trail = t1, m_stack = b1 # ?sp # below\<rparr>" by simp
    moreover obtain c' t' b' where "execute F False ?rest \<lparr>m_cs = CS_HEADER, m_trail = t1, m_stack = b1 # ?sp # below\<rparr> =
        finish F (ARRAY ((ys @ [obj]) @ os)) rest \<lparr>m_cs = c', m_trail = t', m_stack = b' # below\<rparr>"
      using Cons.IH[OF False all, of ?sp "ys @ [obj]" t1 b1] Cons.prems(3,6) by auto
    ultimately show ?thesis using first bss by auto
  qed
qed simp

lemma parses_array:
  assumes "aggregate_header F hdr (ARRAY []) ARRAY_ITEM (length os)" and "length os < 2 ^ 32"
    and "list_all2 (\<lambda>bs obj. \<forall>s. parses F obj bs (s # below)) bss os" and "length below < limit_size"
  shows "parses F (ARRAY os) (hdr @ concat bss) below"
  unfolding parses_def
proof (intro allI)
  fix t b rest
  let ?ctx = "\<lparr>m_cs = CS_HEADER, m_trail = t, m_stack = b # below\<rparr>"
  obtain t1 b1 cs where "execute F False (hdr @ concat bss @ rest) ?ctx =
    (if length os = 0 then finish F (ARRAY []) (concat bss @ rest) \<lparr>m_cs = cs, m_trail = t1, m_stack = b1 # below\<rparr>
     else execute F False (concat bss @ rest) \<lparr>m_cs = CS_HEADER, m_trail = t1,
            m_stack = unpack_stack_new # opened_container (ARRAY []) ARRAY_ITEM (length os) b1 # below\<rparr>)"
    using assms(1)[unfolded aggregate_header_def, rule_format, OF assms(4), of "concat bss @ rest" t b]
    by (elim exE) (rule that, assumption)
  moreover have "os \<noteq> [] \<Longrightarrow> \<exists>c t' b'. execute F False (concat bss @ rest)
      \<lparr>m_cs = CS_HEADER, m_trail = t1,
        m_stack = unpack_stack_new # opened_container (ARRAY []) ARRAY_ITEM (length os) b1 # below\<rparr> =
      finish F (ARRAY ([] @ os)) rest \<lparr>m_cs = c, m_trail = t', m_stack = b' # below\<rparr>"
    using assms(2,3) by (intro array_items) (simp_all add: opened_container_def)
  ultimately show "\<exists>c t' b'. execute F False ((hdr @ concat bss) @ rest) ?ctx =
      finish F (ARRAY os) rest \<lparr>m_cs = c, m_trail = t', m_stack = b' # below\<rparr>"
    using assms(3) by (cases "os = []") auto
qed

lemma map_items:
  assumes "kvs \<noteq> []"
    and "list_all2 (\<lambda>(ks, vs) (k, v). \<forall>s. parses F k ks (s # below) \<and> parses F v vs (s # below)) bss kvs"
    and "sp_type sp = MAP_KEY" and "sp_obj sp = MAP ys" and "sp_count sp = length kvs" and "length kvs < 2 ^ 32"
  shows "\<exists>c t' b'. execute F False (concat (map (\<lambda>(ks, vs). ks @ vs) bss) @ rest)
      \<lparr>m_cs = CS_HEADER, m_trail = t, m_stack = b # sp # below\<rparr> =
    finish F (MAP (ys @ kvs)) rest \<lparr>m_cs = c, m_trail = t', m_stack = b' # below\<rparr>"
  using assms
proof (induction kvs arbitrary: bss ys sp t b)
  case (Cons kv kvs)
  obtain k v where kv: "kv = (k, v)" by (cases kv)
  obtain ks vs bss' where bss: "bss = (ks, vs) # bss'"
    and one: "\<forall>s. parses F k ks (s # below) \<and> parses F v vs (s # below)"
    and items: "list_all2 (\<lambda>(ks, vs) (k, v). \<forall>s. parses F k ks (s # below) \<and> parses F v vs (s # below)) bss' kvs"
    using Cons.prems(2) kv by (auto simp: list_all2_Cons2)
  let ?rest = "concat (map (\<lambda>(ks, vs). ks @ vs) bss') @ rest"
  let ?sp1 = "sp\<lparr>sp_key := k, sp_type := MAP_VALUE\<rparr>"
  let ?sp2 = "?sp1\<lparr>sp_obj := MAP (ys @ [(k, v)]), sp_count := length kvs\<rparr>"
  have kvp: "parses F k (ks) (sp # below)" "parses F v (vs) (?sp1 # below)"
    using one by blast+
  obtain c t1 b1 where key: "execute F False (ks @ vs @ ?rest)
      \<lparr>m_cs = CS_HEADER, m_trail = t, m_stack = b # sp # below\<rparr> =
    finish F k (vs @ ?rest) \<lparr>m_cs = c, m_trail = t1, m_stack = b1 # sp # below\<rparr>"
    using kvp(1) unfolding parses_def by blast
  have "push_item k (b1 # sp # below) = (False, k, b1 # ?sp1 # below)" using Cons.prems(3) by simp
  from finish_inside[OF this, of F "vs @ ?rest" "\<lparr>m_cs = c, m_trail = t1, m_stack = []\<rparr>"]
  have mid: "finish F k (vs @ ?rest) \<lparr>m_cs = c, m_trail = t1, m_stack = b1 # sp # below\<rparr> =
      execute F False (vs @ ?rest) \<lparr>m_cs = CS_HEADER, m_trail = t1, m_stack = b1 # ?sp1 # below\<rparr>" by simp
  obtain c2 t2 b2 where val: "execute F False (vs @ ?rest)
      \<lparr>m_cs = CS_HEADER, m_trail = t1, m_stack = b1 # ?sp1 # below\<rparr> =
    finish F v ?rest \<lparr>m_cs = c2, m_trail = t2, m_stack = b2 # ?sp1 # below\<rparr>"
    using kvp(2) unfolding parses_def by blast
  have decr: "decr_count (?sp1\<lparr>sp_obj := unpack_map_item (sp_obj ?sp1) (sp_key ?sp1) v\<rparr>) = ?sp2"
    using Cons.prems(4-6) by (simp add: decr_count_run unpack_map_item_def)
  have all: "execute F False (concat (map (\<lambda>(ks, vs). ks @ vs) bss) @ rest)
      \<lparr>m_cs = CS_HEADER, m_trail = t, m_stack = b # sp # below\<rparr> =
    finish F v ?rest \<lparr>m_cs = c2, m_trail = t2, m_stack = b2 # ?sp1 # below\<rparr>"
    using key mid val bss by simp
  show ?case
  proof (cases "kvs = []")
    case True
    then have "push_item v (b2 # ?sp1 # below) = push_item (MAP (ys @ [(k, v)])) (?sp2 # below)"
      using decr by simp
    from finish_same[OF this, of F ?rest "\<lparr>m_cs = c2, m_trail = t2, m_stack = []\<rparr>"]
    show ?thesis using all True kv items by auto
  next
    case False
    let ?sp3 = "?sp2\<lparr>sp_type := MAP_KEY\<rparr>"
    have "push_item v (b2 # ?sp1 # below) = (False, v, b2 # ?sp3 # below)" using decr False by simp
    from finish_inside[OF this, of F ?rest "\<lparr>m_cs = c2, m_trail = t2, m_stack = []\<rparr>"]
    have "finish F v ?rest \<lparr>m_cs = c2, m_trail = t2, m_stack = b2 # ?sp1 # below\<rparr> =
        execute F False ?rest \<lparr>m_cs = CS_HEADER, m_trail = t2, m_stack = b2 # ?sp3 # below\<rparr>" by simp
    moreover obtain c' t' b' where "execute F False ?rest \<lparr>m_cs = CS_HEADER, m_trail = t2, m_stack = b2 # ?sp3 # below\<rparr> =
        finish F (MAP ((ys @ [(k, v)]) @ kvs)) rest \<lparr>m_cs = c', m_trail = t', m_stack = b' # below\<rparr>"
      using Cons.IH[OF False items, of ?sp3 "ys @ [(k, v)]" t2 b2] Cons.prems(6) by auto
    ultimately show ?thesis using all kv by auto
  qed
qed simp

lemma parses_map:
  assumes "aggregate_header F hdr (MAP []) MAP_KEY (length kvs)" and "length kvs < 2 ^ 32"
    and "list_all2 (\<lambda>(ks, vs) (k, v). \<forall>s. parses F k ks (s # below) \<and> parses F v vs (s # below)) bss kvs"
    and "length below < limit_size"
  shows "parses F (MAP kvs) (hdr @ concat (map (\<lambda>(ks, vs). ks @ vs) bss)) below"
  unfolding parses_def
proof (intro allI)
  fix t b rest
  let ?items = "concat (map (\<lambda>(ks, vs). ks @ vs) bss)"
  let ?ctx = "\<lparr>m_cs = CS_HEADER, m_trail = t, m_stack = b # below\<rparr>"
  obtain t1 b1 cs where "execute F False (hdr @ ?items @ rest) ?ctx =
    (if length kvs = 0 then finish F (MAP []) (?items @ rest) \<lparr>m_cs = cs, m_trail = t1, m_stack = b1 # below\<rparr>
     else execute F False (?items @ rest) \<lparr>m_cs = CS_HEADER, m_trail = t1,
            m_stack = unpack_stack_new # opened_container (MAP []) MAP_KEY (length kvs) b1 # below\<rparr>)"
    using assms(1)[unfolded aggregate_header_def, rule_format, OF assms(4), of "?items @ rest" t b]
    by (elim exE) (rule that, assumption)
  moreover have "kvs \<noteq> [] \<Longrightarrow> \<exists>c t' b'. execute F False (?items @ rest) \<lparr>m_cs = CS_HEADER, m_trail = t1,
        m_stack = unpack_stack_new # opened_container (MAP []) MAP_KEY (length kvs) b1 # below\<rparr> =
      finish F (MAP ([] @ kvs)) rest \<lparr>m_cs = c, m_trail = t', m_stack = b' # below\<rparr>"
    using assms(2,3) by (intro map_items) (simp_all add: opened_container_def)
  ultimately show "\<exists>c t' b'. execute F False ((hdr @ ?items) @ rest) ?ctx =
      finish F (MAP kvs) rest \<lparr>m_cs = c, m_trail = t', m_stack = b' # below\<rparr>"
    using assms(3) by (cases "kvs = []") auto
qed

text \<open>The headers of containers, the integers and the strings.\<close>

definition aggregate_cs :: "nat \<Rightarrow> bool" where
  "aggregate_cs cs \<longleftrightarrow> (\<forall>F n. scalar_item F cs n = None \<and> fixext_item cs n = None \<and> sized_state cs n = None) \<and>
     cs \<noteq> ACS_STR_VALUE \<and> cs \<noteq> ACS_BIN_VALUE \<and> cs \<noteq> ACS_EXT_VALUE"

lemma aggregate_states [simp]: "aggregate_cs 0x1c" "aggregate_cs 0x1d" "aggregate_cs 0x1e" "aggregate_cs 0x1f"
  by (simp_all add: aggregate_cs_def scalar_item_def fixext_item_def sized_state_def
      ACS_STR_VALUE_def ACS_BIN_VALUE_def ACS_EXT_VALUE_def)

lemma container_header:
  assumes n: "n < 2 ^ 32"
    and small: "\<And>rest ctx. n < 16 \<Longrightarrow> header_step ((hf OR n) # rest) ctx = push_aggregate c ty n ((hf OR n) # rest) ctx"
    and hs: "trail_header h2 2 cs2" "trail_header h4 4 cs4" "aggregate_cs cs2" "aggregate_cs cs4"
    and step: "\<And>n cur ctx. aggregate_step cs2 n cur ctx = push_aggregate c ty (load_be (take 2 n)) cur ctx"
      "\<And>n cur ctx. aggregate_step cs4 n cur ctx = push_aggregate c ty (load_be (take 4 n)) cur ctx"
  shows "aggregate_header F (if n < 16 then [hf OR n] else if n < 65536 then h2 # store_be 2 n else h4 # store_be 4 n) c ty n"
proof -
  have two: "aggregate_header F (h2 # store_be 2 n) c ty n" if "n < 65536"
    using hs(1,3) that n step(1) by (intro aggregate_trail[where cs = cs2])
      (auto simp: aggregate_cs_def store_be_nonempty load_store)
  have four: "aggregate_header F (h4 # store_be 4 n) c ty n"
    using hs(2,4) n step(2) by (intro aggregate_trail[where cs = cs4])
      (auto simp: aggregate_cs_def store_be_nonempty load_store)
  show ?thesis using aggregate_fix[of "hf OR n" c ty n F] small n two four by auto
qed

lemma array_header: "n < 2 ^ 32 \<Longrightarrow> aggregate_header F (pack_array n) (ARRAY []) ARRAY_ITEM n"
  unfolding pack_array_def
  by (rule container_header[where ?cs2.0 = "0x1c" and ?cs4.0 = "0x1d"])
    (simp_all add: header_step_def prefix_bits aggregate_step_def Let_def)

lemma map_header: "n < 2 ^ 32 \<Longrightarrow> aggregate_header F (pack_map n) (MAP []) MAP_KEY n"
  unfolding pack_map_def
  by (rule container_header[where ?cs2.0 = "0x1e" and ?cs4.0 = "0x1f"])
    (simp_all add: header_step_def prefix_bits aggregate_step_def Let_def)

text \<open>Sizes in front of a body.\<close>

definition sized_cs :: "nat \<Rightarrow> nat \<Rightarrow> nat \<Rightarrow> nat \<Rightarrow> bool" where
  "sized_cs cs k acs extra \<longleftrightarrow> (\<forall>F n. scalar_item F cs n = None \<and> fixext_item cs n = None \<and>
     sized_state cs n = Some (acs, load_be (take k n) + extra))"

lemma sized_states [simp]:
  "sized_cs 0x19 (Suc 0) ACS_STR_VALUE 0" "sized_cs 0x1a 2 ACS_STR_VALUE 0" "sized_cs 0x1b 4 ACS_STR_VALUE 0"
  "sized_cs 0x04 (Suc 0) ACS_BIN_VALUE 0" "sized_cs 0x05 2 ACS_BIN_VALUE 0" "sized_cs 0x06 4 ACS_BIN_VALUE 0"
  "sized_cs 0x07 (Suc 0) ACS_EXT_VALUE (Suc 0)" "sized_cs 0x08 2 ACS_EXT_VALUE (Suc 0)" "sized_cs 0x09 4 ACS_EXT_VALUE (Suc 0)"
  by (simp_all add: sized_cs_def scalar_item_def fixext_item_def sized_state_def)

lemma parses_body:
  assumes "trail_header h k cs" and "sized_cs cs k acs extra" and "length bs = k" and "0 < k"
    and "load_be bs + extra = length body"
    and "acs = ACS_STR_VALUE \<or> acs = ACS_BIN_VALUE \<or> acs = ACS_EXT_VALUE" and "acs = ACS_EXT_VALUE \<Longrightarrow> body \<noteq> []"
    and "\<And>rest. value_item acs (body @ rest) (length body) = obj"
  shows "parses F obj (h # bs @ body) below"
  using assms by (intro parses_sized[where cs = cs and acs = acs]) (auto simp: sized_cs_def)

lemma parses_str:
  assumes "length s < 2 ^ 32"
  shows "parses F (STRING s) (pack_str (length s) @ pack_body s) below"
proof -
  have item: "value_item ACS_STR_VALUE (bytes_of s @ rest) (length (bytes_of s)) = STRING s" for rest
    by (simp add: value_item_def del: length_bytes_of)
  note body = parses_body[where body = "bytes_of s" and acs = ACS_STR_VALUE and extra = 0, OF _ _ _ _ _ _ _ item]
  consider (fixed) "length s < 32" | (one) "32 \<le> length s" "length s < 256" | (two) "256 \<le> length s" "length s < 65536"
    | (four) "65536 \<le> length s" by linarith
  then show ?thesis
  proof cases
    case fixed
    show ?thesis
      unfolding parses_def
    proof (intro allI)
      fix t b rest
      let ?ctx = "\<lparr>m_cs = CS_HEADER, m_trail = t, m_stack = b # below\<rparr>" and ?h = "0xa0 OR length s"
      let ?res = "\<lambda>c. \<lparr>m_cs = c, m_trail = length s, m_stack = b # below\<rparr>"
      have hdr: "header_step (?h # r) ?ctx =
          (if s = [] then push_proc (STRING []) (?h # r) (?res CS_HEADER) else Go True (?h # r) (?res ACS_STR_VALUE))" for r
        using fixed by (simp add: header_step_def prefix_bits Let_def)
      have "execute F False (?h # bytes_of s @ rest) ?ctx = finish F (STRING s) rest (?res (if s = [] then CS_HEADER else ACS_STR_VALUE))"
      proof (cases "s = []")
        case True
        then have "parse_round F False (?h # rest) ?ctx = push_proc (STRING []) (?h # rest) (?res CS_HEADER)"
          using hdr[of rest] push_proc_Go[of "STRING []" "?h # rest" "?res CS_HEADER"]
          by (cases "push_proc (STRING []) (?h # rest) (?res CS_HEADER)") (auto simp: parse_round_def)
        then show ?thesis using True by (simp add: execute_round after_push_proc bytes_of_def)
      next
        case False
        then have "bytes_of s \<noteq> []" by (simp add: bytes_of_def)
        moreover have "scalar_item F ACS_STR_VALUE n = None" "fixext_item ACS_STR_VALUE n = None" "sized_state ACS_STR_VALUE n = None" for n
          by (simp_all add: scalar_item_def fixext_item_def sized_state_def ACS_STR_VALUE_def)
        ultimately show ?thesis
          using False hdr[of "bytes_of s @ rest"] item[of rest] drop_to_last[of "bytes_of s"]
          by (simp add: execute_round parse_round_def trail_step_def after_push_proc)
      qed
      then show "\<exists>c t' b'. execute F False ((pack_str (length s) @ pack_body s) @ rest) ?ctx =
          finish F (STRING s) rest \<lparr>m_cs = c, m_trail = t', m_stack = b' # below\<rparr>"
        using fixed by (auto simp: pack_str_def pack_body_def)
    qed
  next
    case one
    then show ?thesis using body[of "0xd9" 1 "0x19" "[length s]" F below] by (simp add: pack_str_def pack_body_def)
  next
    case two
    then show ?thesis
      using body[of "0xda" 2 "0x1a" "store_be 2 (length s)" F below] by (simp add: pack_str_def pack_body_def load_store)
  next
    case four
    then show ?thesis
      using body[of "0xdb" 4 "0x1b" "store_be 4 (length s)" F below] assms
      by (simp add: pack_str_def pack_body_def load_store)
  qed
qed

lemma parses_bin:
  assumes "length s < 2 ^ 32"
  shows "parses F (BIN s) (pack_bin (length s) @ pack_body s) below"
proof -
  have item: "value_item ACS_BIN_VALUE (bytes_of s @ rest) (length (bytes_of s)) = BIN s" for rest
    by (simp add: value_item_def ACS_BIN_VALUE_def ACS_STR_VALUE_def del: length_bytes_of)
  note body = parses_body[where body = "bytes_of s" and acs = ACS_BIN_VALUE and extra = 0, OF _ _ _ _ _ _ _ item]
  consider (one) "length s < 256" | (two) "256 \<le> length s" "length s < 65536" | (four) "65536 \<le> length s" by linarith
  then show ?thesis
  proof cases
    case one
    then show ?thesis
      using body[of "0xc4" 1 "0x04" "[length s]" F below] by (simp add: pack_bin_def pack_body_def)
  next
    case two
    then show ?thesis
      using body[of "0xc5" 2 "0x05" "store_be 2 (length s)" F below] by (simp add: pack_bin_def pack_body_def load_store)
  next
    case four
    then show ?thesis
      using body[of "0xc6" 4 "0x06" "store_be 4 (length s)" F below] assms
      by (simp add: pack_bin_def pack_body_def load_store)
  qed
qed

lemma unpack_ext_run: "unpack_ext (ty # bytes_of s @ rest) (Suc (length s)) = EXT ty s"
  by (simp add: unpack_ext_def)

lemma parses_ext:
  assumes "length s < 2 ^ 32"
  shows "parses F (EXT ty s) (pack_ext (length s) ty @ pack_body s) below"
proof -
  have item: "value_item ACS_EXT_VALUE ((ty # bytes_of s) @ rest) (length (ty # bytes_of s)) = EXT ty s" for rest
    by (simp add: value_item_def ACS_EXT_VALUE_def ACS_STR_VALUE_def ACS_BIN_VALUE_def unpack_ext_run)
  note body = parses_body[where body = "ty # bytes_of s" and acs = ACS_EXT_VALUE and extra = "Suc 0", OF _ _ _ _ _ _ _ item]
  have fixext: "parses F (EXT ty s) (h # ty # bytes_of s) below"
    if "trail_header h (Suc (length s)) cs" "\<And>n. scalar_item F cs n = None" "\<And>n. fixext_item cs n = Some (unpack_ext n (Suc (length s)))"
    for h cs
    using that unpack_ext_run by (intro parses_scalar[where cs = cs]) auto
  consider "length s = 1" | "length s = 2" | "length s = 4" | "length s = 8" | "length s = 16"
    | (one) "length s \<notin> {1, 2, 4, 8, 16}" "length s < 256" | (two) "256 \<le> length s" "length s < 65536"
    | (four) "65536 \<le> length s" by (metis empty_iff insert_iff not_less)
  then show ?thesis
  proof cases
    case one
    then show ?thesis
      using body[of "0xc7" 1 "0x07" "[length s]" F below] by (simp add: pack_ext_def pack_body_def)
  next
    case two
    then show ?thesis
      using body[of "0xc8" 2 "0x08" "store_be 2 (length s)" F below] by (simp add: pack_ext_def pack_body_def load_store)
  next
    case four
    then show ?thesis
      using body[of "0xc9" 4 "0x09" "store_be 4 (length s)" F below] assms
      by (simp add: pack_ext_def pack_body_def load_store)
  qed (use fixext[of "0xd4" "0x14"] fixext[of "0xd5" "0x15"] fixext[of "0xd6" "0x16"] fixext[of "0xd7" "0x17"]
      fixext[of "0xd8" "0x18"] in \<open>simp_all add: pack_ext_def pack_body_def scalar_item_def fixext_item_def flip: numeral_2_eq_2\<close>)
qed

lemma to_unsigned_nat [simp]: "to_unsigned w (int n) = n mod 2 ^ w"
  by (simp add: to_unsigned_def flip: zmod_int)
    (metis nat_int of_nat_mod of_nat_numeral of_nat_power)

lemma load_signed_store:
  assumes "- (2 ^ (8 * k - 1)) \<le> d" and "d < 2 ^ (8 * k - 1)" and "0 < k"
  shows "load_signed k (store_be k (to_unsigned (8 * k) d) @ rest) = d"
proof -
  let ?m = "2 ^ (8 * k) :: int" and ?h = "2 ^ (8 * k - 1) :: int"
  have m: "?m = 2 * ?h" using assms(3) by (simp flip: power_Suc)
  have "(256 :: nat) ^ k = 2 ^ (8 * k)" by (simp add: power_mult)
  moreover have "to_unsigned (8 * k) d < 2 ^ (8 * k)" by (simp add: to_unsigned_def nat_less_iff)
  ultimately have load: "load_be (store_be k (to_unsigned (8 * k) d)) = to_unsigned (8 * k) d"
    by (simp add: load_store)
  have int: "int (to_unsigned (8 * k) d) = d mod ?m" by (simp add: to_unsigned_def)
  have half: "to_unsigned (8 * k) d < 2 ^ (8 * k - 1) \<longleftrightarrow> d mod ?m < ?h"
    by (simp add: to_unsigned_def nat_less_iff)
  show ?thesis
  proof (cases "0 \<le> d")
    case True
    then have "d mod ?m = d" using assms(2) m by simp
    then show ?thesis using load int half assms(2) by (simp add: load_signed_def Let_def)
  next
    case False
    have "d mod ?m = (d + ?m) mod ?m" by simp
    also have "\<dots> = d + ?m" using False assms(1) m by (intro mod_pos_pos_trivial) auto
    finally have "d mod ?m = d + ?m" .
    then show ?thesis using load int half assms(1) m by (simp add: load_signed_def Let_def)
  qed
qed

lemma parses_fixnum: "n < 2 ^ 7 \<Longrightarrow> parses F (POSITIVE_INTEGER n) [n] below"
  by (rule parses_byte) (simp add: header_step_def Let_def)

lemma parses_uint:
  "n < 2 ^ 8 \<Longrightarrow> parses F (POSITIVE_INTEGER n) [0xcc, n] below"
  "n < 2 ^ 16 \<Longrightarrow> parses F (POSITIVE_INTEGER n) (0xcd # store_be 2 n) below"
  "n < 2 ^ 32 \<Longrightarrow> parses F (POSITIVE_INTEGER n) (0xce # store_be 4 n) below"
  "n < 2 ^ 64 \<Longrightarrow> parses F (POSITIVE_INTEGER n) (0xcf # store_be 8 n) below"
  by (rule parses_scalar[where cs = "0x0c"] parses_scalar[where cs = "0x0d"] parses_scalar[where cs = "0x0e"]
      parses_scalar[where cs = "0x0f"]; simp add: store_be_nonempty scalar_item_def load_store)+

lemma parses_uint64: "n < 2 ^ 64 \<Longrightarrow> parses F (POSITIVE_INTEGER n) (pack_imp_uint64 n) below"
  using parses_fixnum[of n F below] parses_uint[of n F below]
  by (simp add: pack_imp_uint64_def take8_def del: store_be.simps)

lemma parses_sint:
  assumes "d < 0"
  shows "- (2 ^ 7) \<le> d \<Longrightarrow> parses F (NEGATIVE_INTEGER d) (0xd0 # store_be 1 (to_unsigned 8 d)) below"
    and "- (2 ^ 15) \<le> d \<Longrightarrow> parses F (NEGATIVE_INTEGER d) (0xd1 # store_be 2 (to_unsigned 16 d)) below"
    and "- (2 ^ 31) \<le> d \<Longrightarrow> parses F (NEGATIVE_INTEGER d) (0xd2 # store_be 4 (to_unsigned 32 d)) below"
    and "- (2 ^ 63) \<le> d \<Longrightarrow> parses F (NEGATIVE_INTEGER d) (0xd3 # store_be 8 (to_unsigned 64 d)) below"
proof -
  have int: "unpack_int d = NEGATIVE_INTEGER d" using assms by (simp add: unpack_int_def)
  show "parses F (NEGATIVE_INTEGER d) (0xd0 # store_be 1 (to_unsigned 8 d)) below" if "- (2 ^ 7) \<le> d"
    using that assms int load_signed_store[of 1 d]
    by (intro parses_scalar[where cs = "0x10"]) (simp_all add: scalar_item_def)
  show "parses F (NEGATIVE_INTEGER d) (0xd1 # store_be 2 (to_unsigned 16 d)) below" if "- (2 ^ 15) \<le> d"
    using that assms int load_signed_store[of 2 d]
    by (intro parses_scalar[where cs = "0x11"]) (simp_all add: scalar_item_def store_be_nonempty)
  show "parses F (NEGATIVE_INTEGER d) (0xd2 # store_be 4 (to_unsigned 32 d)) below" if "- (2 ^ 31) \<le> d"
    using that assms int load_signed_store[of 4 d]
    by (intro parses_scalar[where cs = "0x12"]) (simp_all add: scalar_item_def store_be_nonempty)
  show "parses F (NEGATIVE_INTEGER d) (0xd3 # store_be 8 (to_unsigned 64 d)) below" if "- (2 ^ 63) \<le> d"
    using that assms int load_signed_store[of 8 d]
    by (intro parses_scalar[where cs = "0x13"]) (simp_all add: scalar_item_def store_be_nonempty)
qed

lemma take8_negative: "- 256 \<le> d \<Longrightarrow> d < 0 \<Longrightarrow> int (take8 d) = d + 256"
  using mod_add_self2[of d 256] mod_pos_pos_trivial[of "d + 256" 256] by (simp add: take8_def to_unsigned_def)

lemma parses_negfix:
  assumes "- (2 ^ 5) \<le> d" and "d < 0"
  shows "parses F (NEGATIVE_INTEGER d) [take8 d] below"
proof (rule parses_byte)
  fix rest ctx
  have t: "int (take8 d) = d + 256" using assms by (intro take8_negative) auto
  then have "224 \<le> take8 d" "take8 d \<le> 255" using assms(1)[simplified] assms(2) by linarith+
  then show "header_step (take8 d # rest) ctx = push_proc (NEGATIVE_INTEGER d) (take8 d # rest) ctx"
    using t assms by (simp add: header_step_def unpack_int_def Let_def)
qed

lemma parses_int64:
  assumes "- (2 ^ 63) \<le> d" and "d < 0"
  shows "parses F (NEGATIVE_INTEGER d) (pack_imp_int64 d) below"
proof -
  have "to_unsigned 8 d mod 256 = to_unsigned 8 d" by (simp add: to_unsigned_def nat_less_iff)
  then have "store_be 1 (to_unsigned 8 d) = [take8 d]" by (simp add: take8_def)
  then show ?thesis
    using assms parses_sint[OF assms(2), of F below] parses_negfix[of d F below] by (simp add: pack_imp_int64_def del: store_be.simps)
qed

lemma parses_floats:
  "f32_bits F x < 2 ^ 32 \<Longrightarrow> f32_of F (f32_bits F x) = x \<Longrightarrow> parses F (FLOAT32 x) (pack_float F x) below"
  "f64_bits F x < 2 ^ 64 \<Longrightarrow> f64_of F (f64_bits F x) = x \<Longrightarrow> parses F (FLOAT64 x) (pack_double F x) below"
  unfolding pack_float_def pack_double_def
  by (rule parses_scalar[where cs = "0x0a"] parses_scalar[where cs = "0x0b"];
      simp add: store_be_nonempty scalar_item_def load_store)+

text \<open>Every packed object is parsed back, in any container.\<close>

lemma parses_object:
  "valid_object F obj \<Longrightarrow> length below + depth obj \<le> limit_size \<Longrightarrow> parses F obj (pack_object F obj) below"
proof (induction F obj arbitrary: below rule: pack_object.induct)
  case (10 F os)
  have "parses F x (pack_object F x) (s # below)" if "x \<in> set os" for x s
  proof (rule "10.IH")
    show "x \<in> set os" "valid_object F x" using that 10(2) by simp_all
    have "depth x \<le> Max (insert 0 (set (map depth os)))" using that by (intro Max_ge) auto
    then show "length (s # below) + depth x \<le> limit_size" using 10(3) by simp
  qed
  then have "list_all2 (\<lambda>bs obj. \<forall>s. parses F obj bs (s # below)) (map (pack_object F) os) os"
    by (simp add: list_all2_map1 list_all2_same)
  from parses_array[OF array_header _ this] show ?case using 10(2,3) by simp
next
  case (11 F kvs)
  have "parses F k (pack_object F k) (s # below) \<and> parses F v (pack_object F v) (s # below)"
    if kv: "(k, v) \<in> set kvs" for k v s
  proof -
    have "max (depth k) (depth v) \<le> Max (insert 0 (set (map (\<lambda>(k, v). max (depth k) (depth v)) kvs)))"
      using kv by (intro Max_ge) force+
    then have d: "length (s # below) + depth k \<le> limit_size" "length (s # below) + depth v \<le> limit_size"
      using 11(4) by simp_all
    have "valid_object F k" "valid_object F v" using kv 11(3) by auto
    with "11.IH" kv d show ?thesis by blast
  qed
  then have "list_all2 (\<lambda>(ks, vs) (k, v). \<forall>s. parses F k ks (s # below) \<and> parses F v vs (s # below))
      (map (\<lambda>(k, v). (pack_object F k, pack_object F v)) kvs) kvs"
    by (auto simp: list_all2_map1 list_all2_same)
  from parses_map[OF map_header _ this] have "parses F (MAP kvs) (pack_map (length kvs) @
      concat (map (\<lambda>(ks, vs). ks @ vs) (map (\<lambda>(k, v). (pack_object F k, pack_object F v)) kvs))) below"
    using 11(3,4) by simp
  also have "map (\<lambda>(ks, vs). ks @ vs) (map (\<lambda>(k, v). (pack_object F k, pack_object F v)) kvs) =
      map (\<lambda>(k, v). pack_object F k @ pack_object F v) kvs" by (auto simp: comp_def)
  finally show ?case by simp
qed (auto simp: pack_nil_def pack_true_def pack_false_def header_step_def Let_def
    intro!: parses_byte parses_uint64 parses_int64 parses_floats parses_str parses_bin parses_ext)

section \<open>Round trip\<close>

lemma execute_packed:
  assumes "valid_object F obj" and "depth obj \<le> limit_size"
  obtains c t b where "execute F False (pack_object F obj @ rest) context_init =
    Ret 1 rest \<lparr>m_cs = c, m_trail = t, m_stack = [b]\<rparr>" and "sp_obj b = obj"
proof -
  have "parses F obj (pack_object F obj) []"
    by (rule parses_object) (use assms in simp_all)
  from this[unfolded parses_def, rule_format, of rest 0 unpack_stack_new, folded context_init_def]
  obtain c t b where "execute F False (pack_object F obj @ rest) context_init =
      finish F obj rest \<lparr>m_cs = c, m_trail = t, m_stack = [b]\<rparr>"
    by (elim exE) (rule that, assumption)
  then show thesis by (intro that[of c t "b\<lparr>sp_obj := obj\<rparr>"]) (simp_all add: finish_def push_proc_def)
qed

text \<open>C28: An object that is packed and then unpacked is the object itself, and exactly its bytes are used: the
  format is prefix-free, so what follows the object in the buffer is left for the next one.\<close>

theorem unpack_pack_object:
  assumes "valid_object F obj" and "depth obj \<le> limit_size"
  shows "unpack F (pack_object F obj @ rest) = Inr (obj, rest)"
  by (rule execute_packed[OF assms, where rest = rest]) (simp add: unpack_def)

definition call_object :: msgpack_object where
  "call_object = ARRAY [POSITIVE_INTEGER 0, POSITIVE_INTEGER 300, STRING ''get_size'', ARRAY [BOOLEAN True, NEGATIVE_INTEGER (- 7)]]"

definition zero_floats :: float_bits where
  "zero_floats = \<lparr>f32_bits = \<lambda>_. 0, f32_of = \<lambda>_. 0, f64_bits = \<lambda>_. 0, f64_of = \<lambda>_. 0\<rparr>"

lemma call_object_valid [simp]: "valid_object zero_floats call_object" "depth call_object \<le> limit_size"
  by (simp_all add: call_object_def limit_size_def)

theorem unpack_pack_object_witness:
  "unpack zero_floats (pack_object zero_floats call_object @ [0xc0]) = Inr (call_object, [0xc0])"
  by (rule unpack_pack_object) simp_all

end
