(* ===== verification/Serialization.thy ===== *)
theory Serialization
  imports Data_Structure Msgpack
begin

text \<open>
  How the values of HFetch become msgpack objects and bytes: the adaptors of the msgpack library for numbers,
  strings, pairs and vectors (\<open>src/external/rpclib/include/rpc/msgpack/v1/adaptor/\<close>) and those HFetch writes for
  its own types (\<open>src/src/common/data_structure.h\<close>, \<open>enumerations.h\<close>). Every type has a \<open>pack\<close> that writes bytes,
  an \<open>object\<close> that builds the object a server returns, and a \<open>convert\<close> that reads an object back.

  The adaptors of HFetch do not look at the type of the object before they read \<open>via.array\<close>, nor at its size:
  reading another member of the union, or past the end, is \<open>Undefined\<close>. The members \<open>str\<close>, \<open>bin\<close> and \<open>ext\<close> of the union
  have the same layout, so that \<open>via.str\<close> reads all three. The underlying type of the enumerations is
  \<open>unsigned int\<close>, as in GCC; a number that is no value of the enumeration is \<open>Undefined\<close>.
\<close>

section \<open>Numbers, strings and containers\<close>

fun rseq :: "'a res list \<Rightarrow> 'a list res" where
  "rseq [] = Inr []"
| "rseq (m # ms) = rbind m (\<lambda>x. rbind (rseq ms) (\<lambda>xs. Inr (x # xs)))"

definition pack_long :: "int \<Rightarrow> bytes res" where
  "pack_long d = Inr (pack_imp_int64 d)"

definition pack_int :: "int \<Rightarrow> bytes res" where
  "pack_int d = Inr (pack_imp_int32 d)"

definition pack_unsigned_char :: "nat \<Rightarrow> bytes res" where
  "pack_unsigned_char d = Inr (pack_imp_uint8 d)"

definition pack_unsigned_int :: "nat \<Rightarrow> bytes res" where
  "pack_unsigned_int d = Inr (pack_imp_uint32 d)"

definition pack_unsigned_long :: "nat \<Rightarrow> bytes res" where
  "pack_unsigned_long d = Inr (pack_imp_uint64 d)"

definition object_signed :: "int \<Rightarrow> msgpack_object res" where
  "object_signed v = Inr (if v < 0 then NEGATIVE_INTEGER v else POSITIVE_INTEGER (nat v))"

definition object_unsigned :: "nat \<Rightarrow> msgpack_object res" where
  "object_unsigned v = Inr (POSITIVE_INTEGER v)"

text \<open>\<open>convert_integer\<close> into a signed or unsigned type of \<open>w\<close> bits.\<close>

definition convert_signed :: "nat \<Rightarrow> msgpack_object \<Rightarrow> int res" where
  "convert_signed w obj =
     (case obj of
        POSITIVE_INTEGER n \<Rightarrow> if n > 2 ^ (w - 1) - 1 then Inl (Msgpack type_error) else Inr (int n)
      | NEGATIVE_INTEGER i \<Rightarrow> if i < - (2 ^ (w - 1)) then Inl (Msgpack type_error) else Inr i
      | _ \<Rightarrow> Inl (Msgpack type_error))"

definition convert_unsigned :: "nat \<Rightarrow> msgpack_object \<Rightarrow> nat res" where
  "convert_unsigned w obj =
     (case obj of
        POSITIVE_INTEGER n \<Rightarrow> if n > 2 ^ w - 1 then Inl (Msgpack type_error) else Inr n
      | _ \<Rightarrow> Inl (Msgpack type_error))"

definition convert_double :: "msgpack_object \<Rightarrow> real res" where
  "convert_double obj =
     (case obj of
        FLOAT32 x \<Rightarrow> Inr x
      | FLOAT64 x \<Rightarrow> Inr x
      | POSITIVE_INTEGER n \<Rightarrow> Inr (real n)
      | NEGATIVE_INTEGER i \<Rightarrow> Inr (real_of_int i)
      | _ \<Rightarrow> Inl (Msgpack type_error))"

definition pack_bool :: "bool \<Rightarrow> bytes res" where
  "pack_bool v = Inr (if v then pack_true else pack_false)"

definition object_bool :: "bool \<Rightarrow> msgpack_object res" where
  "object_bool v = Inr (BOOLEAN v)"

definition convert_bool :: "msgpack_object \<Rightarrow> bool res" where
  "convert_bool obj = (case obj of BOOLEAN b \<Rightarrow> Inr b | _ \<Rightarrow> Inl (Msgpack type_error))"

definition checked_get_container_size :: "nat \<Rightarrow> nat res" where
  "checked_get_container_size n = (if n > 0xffffffff then Inl (Msgpack container_size_overflow) else Inr n)"

definition pack_string :: "string \<Rightarrow> bytes res" where
  "pack_string v = rbind (checked_get_container_size (length v)) (\<lambda>n. Inr (pack_str n @ pack_body v))"

definition object_string :: "string \<Rightarrow> msgpack_object res" where
  "object_string v = rbind (checked_get_container_size (length v)) (\<lambda>_. Inr (STRING v))"

definition convert_string :: "msgpack_object \<Rightarrow> string res" where
  "convert_string obj = (case obj of BIN s \<Rightarrow> Inr s | STRING s \<Rightarrow> Inr s | _ \<Rightarrow> Inl (Msgpack type_error))"

text \<open>An array header and the members packed one after another.\<close>

definition pack_members :: "bytes res list \<Rightarrow> bytes res" where
  "pack_members ms = rbind (rseq ms) (\<lambda>bss. Inr (pack_array (length ms) @ concat bss))"

definition object_members :: "msgpack_object res list \<Rightarrow> msgpack_object res" where
  "object_members ms = rbind (rseq ms) (\<lambda>os. Inr (ARRAY os))"

fun pack_pair :: "('a \<Rightarrow> bytes res) \<Rightarrow> ('b \<Rightarrow> bytes res) \<Rightarrow> 'a \<times> 'b \<Rightarrow> bytes res" where
  "pack_pair p q (x, y) = pack_members [p x, q y]"

fun object_pair :: "('a \<Rightarrow> msgpack_object res) \<Rightarrow> ('b \<Rightarrow> msgpack_object res) \<Rightarrow> 'a \<times> 'b \<Rightarrow> msgpack_object res" where
  "object_pair f g (x, y) = object_members [f x, g y]"

definition convert_pair ::
  "(msgpack_object \<Rightarrow> 'a res) \<Rightarrow> (msgpack_object \<Rightarrow> 'b res) \<Rightarrow> msgpack_object \<Rightarrow> ('a \<times> 'b) res" where
  "convert_pair f g obj =
     (case obj of
        ARRAY [x, y] \<Rightarrow> rbind (f x) (\<lambda>a. rbind (g y) (\<lambda>b. Inr (a, b)))
      | _ \<Rightarrow> Inl (Msgpack type_error))"

definition pack_vector :: "('a \<Rightarrow> bytes res) \<Rightarrow> 'a list \<Rightarrow> bytes res" where
  "pack_vector p v = rbind (checked_get_container_size (length v)) (\<lambda>_. pack_members (map p v))"

definition object_vector :: "('a \<Rightarrow> msgpack_object res) \<Rightarrow> 'a list \<Rightarrow> msgpack_object res" where
  "object_vector f v = rbind (checked_get_container_size (length v)) (\<lambda>_. object_members (map f v))"

definition convert_vector :: "(msgpack_object \<Rightarrow> 'a res) \<Rightarrow> msgpack_object \<Rightarrow> 'a list res" where
  "convert_vector f obj = (case obj of ARRAY os \<Rightarrow> rseq (map f os) | _ \<Rightarrow> Inl (Msgpack type_error))"

text \<open>The adaptors \<open>MSGPACK_ADD_ENUM\<close> generates.\<close>

definition pack_enum :: "('e \<Rightarrow> nat) \<Rightarrow> 'e \<Rightarrow> bytes res" where
  "pack_enum code v = pack_unsigned_int (code v)"

definition object_enum :: "('e \<Rightarrow> nat) \<Rightarrow> 'e \<Rightarrow> msgpack_object res" where
  "object_enum code v = object_unsigned (code v)"

definition convert_enum :: "(nat \<Rightarrow> 'e option) \<Rightarrow> msgpack_object \<Rightarrow> 'e res" where
  "convert_enum of_code obj =
     rbind (convert_unsigned 32 obj) (\<lambda>n. case of_code n of Some v \<Rightarrow> Inr v | None \<Rightarrow> Inl (Undefined OutOfRange))"

section \<open>The types of HFetch\<close>

fun EventType_code :: "EventType \<Rightarrow> nat" where
  "EventType_code FILE_OPEN = 0"
| "EventType_code FILE_CLOSE = 1"
| "EventType_code FILE_READ = 2"
| "EventType_code FILE_WRITE = 3"

definition EventType_of :: "nat \<Rightarrow> EventType option" where
  "EventType_of n =
     (if n = 0 then Some FILE_OPEN else if n = 1 then Some FILE_CLOSE else if n = 2 then Some FILE_READ
      else if n = 3 then Some FILE_WRITE else None)"

fun EventSource_code :: "EventSource \<Rightarrow> nat" where
  "EventSource_code APPLICATION = 0"
| "EventSource_code HARDWARE = 1"

definition EventSource_of :: "nat \<Rightarrow> EventSource option" where
  "EventSource_of n = (if n = 0 then Some APPLICATION else if n = 1 then Some HARDWARE else None)"

text \<open>\<open>o.via.array.ptr[i]\<close> and \<open>o.via.str\<close>, read without a check.\<close>

definition via_array :: "msgpack_object \<Rightarrow> nat \<Rightarrow> msgpack_object res" where
  "via_array obj i =
     (case obj of
        ARRAY os \<Rightarrow> if i < length os then Inr (os ! i) else Inl (Undefined OutOfRange)
      | _ \<Rightarrow> Inl (Undefined OutOfRange))"

definition via_str :: "msgpack_object \<Rightarrow> string res" where
  "via_str obj =
     (case obj of
        STRING s \<Rightarrow> Inr s
      | BIN s \<Rightarrow> Inr s
      | EXT ty s \<Rightarrow> Inr (take (length s) (char_of ty # s))
      | _ \<Rightarrow> Inl (Undefined OutOfRange))"

definition pack_CharStruct :: "string \<Rightarrow> bytes res" where
  "pack_CharStruct input =
     rbind (checked_get_container_size (length input)) (\<lambda>n. Inr (pack_str n @ pack_body input))"

definition object_CharStruct :: "string \<Rightarrow> msgpack_object res" where
  "object_CharStruct input = rbind (checked_get_container_size (length input)) (\<lambda>_. Inr (STRING input))"

definition convert_CharStruct :: "msgpack_object \<Rightarrow> string res" where
  "convert_CharStruct obj = rbind (via_str obj) CharStruct"

definition pack_bip_string :: "string \<Rightarrow> bytes res" where
  "pack_bip_string v = rbind (checked_get_container_size (length v)) (\<lambda>n. Inr (pack_str n @ pack_body v))"

definition object_bip_string :: "string \<Rightarrow> msgpack_object res" where
  "object_bip_string v = rbind (checked_get_container_size (length v)) (\<lambda>_. Inr (STRING v))"

definition convert_bip_string :: "msgpack_object \<Rightarrow> string res" where
  "convert_bip_string obj = (case obj of BIN s \<Rightarrow> Inr s | STRING s \<Rightarrow> Inr s | _ \<Rightarrow> Inl (Msgpack type_error))"

definition pack_Segment :: "Segment \<Rightarrow> bytes res" where
  "pack_Segment input = pack_members [pack_long (seg_start input), pack_long (seg_end input)]"

definition object_Segment :: "Segment \<Rightarrow> msgpack_object res" where
  "object_Segment input = object_members [object_signed (seg_start input), object_signed (seg_end input)]"

definition convert_Segment :: "msgpack_object \<Rightarrow> Segment res" where
  "convert_Segment obj =
     rbind (rbind (via_array obj 0) (convert_signed 64)) (\<lambda>s.
     rbind (rbind (via_array obj 1) (convert_signed 64)) (\<lambda>e.
       Inr \<lparr>seg_start = s, seg_end = e\<rparr>))"

definition pack_double_value :: "float_bits \<Rightarrow> real \<Rightarrow> bytes res" where
  "pack_double_value F v = Inr (pack_double F v)"

definition object_double :: "real \<Rightarrow> msgpack_object res" where
  "object_double v = Inr (FLOAT64 v)"

definition pack_SegmentScore :: "float_bits \<Rightarrow> SegmentScore \<Rightarrow> bytes res" where
  "pack_SegmentScore F input = pack_members [pack_unsigned_long (frequency input), pack_double_value F (lrf input)]"

definition object_SegmentScore :: "SegmentScore \<Rightarrow> msgpack_object res" where
  "object_SegmentScore input = object_members [object_unsigned (frequency input), object_double (lrf input)]"

definition convert_SegmentScore :: "msgpack_object \<Rightarrow> SegmentScore res" where
  "convert_SegmentScore obj =
     rbind (rbind (via_array obj 0) (convert_unsigned 64)) (\<lambda>f.
     rbind (rbind (via_array obj 1) convert_double) (\<lambda>l.
       Inr (SegmentScore_default\<lparr>frequency := f, lrf := l\<rparr>)))"

definition pack_Event :: "Event \<Rightarrow> bytes res" where
  "pack_Event input =
     pack_members
       [pack_CharStruct (ev_filename input), pack_Segment (ev_segment input),
        pack_enum EventType_code (event_type input), pack_enum EventSource_code (ev_source input),
        pack_unsigned_char (layer_index input), pack_long (ev_time input)]"

definition object_Event :: "Event \<Rightarrow> msgpack_object res" where
  "object_Event input =
     object_members
       [object_CharStruct (ev_filename input), object_Segment (ev_segment input),
        object_enum EventType_code (event_type input), object_enum EventSource_code (ev_source input),
        object_unsigned (layer_index input), object_signed (ev_time input)]"

definition convert_Event :: "msgpack_object \<Rightarrow> Event res" where
  "convert_Event obj =
     rbind (rbind (via_array obj 0) convert_CharStruct) (\<lambda>name.
     rbind (rbind (via_array obj 1) convert_Segment) (\<lambda>seg.
     rbind (rbind (via_array obj 2) (convert_enum EventType_of)) (\<lambda>ty.
     rbind (rbind (via_array obj 3) (convert_enum EventSource_of)) (\<lambda>src.
     rbind (rbind (via_array obj 4) (convert_unsigned 8)) (\<lambda>index.
     rbind (rbind (via_array obj 5) (convert_signed 64)) (\<lambda>t.
       Inr \<lparr>ev_filename = name, ev_segment = seg, event_type = ty, ev_source = src, layer_index = index,
            ev_time = t\<rparr>))))))"

definition pack_PosixFile :: "PosixFile \<Rightarrow> bytes res" where
  "pack_PosixFile input =
     pack_members
       [pack_CharStruct (pf_filename input), pack_Segment (pf_segment input),
        pack_unsigned_char (layer_id (pf_layer input)), pack_string (pf_data input)]"

definition object_PosixFile :: "PosixFile \<Rightarrow> msgpack_object res" where
  "object_PosixFile input =
     object_members
       [object_CharStruct (pf_filename input), object_Segment (pf_segment input),
        object_unsigned (layer_id (pf_layer input)), object_string (pf_data input)]"

definition convert_PosixFile :: "layer_ptr \<Rightarrow> msgpack_object \<Rightarrow> PosixFile res" where
  "convert_PosixFile ls obj =
     rbind (rbind (via_array obj 0) convert_CharStruct) (\<lambda>name.
     rbind (rbind (via_array obj 1) convert_Segment) (\<lambda>seg.
     rbind (rbind (via_array obj 2) (convert_unsigned 8)) (\<lambda>i.
     rbind (Layer_of_id ls i) (\<lambda>l.
     rbind (rbind (via_array obj 3) convert_string) (\<lambda>d.
       Inr \<lparr>pf_filename = name, pf_segment = seg, pf_layer = l, pf_data = d\<rparr>)))))"

section \<open>The contract of an adaptor\<close>

text \<open>On the values \<open>ok\<close> admits, the bytes \<open>pack\<close> writes are those of the object, the object is one the parser
  reads back, and converting it gives what arrives (\<open>sent\<close>) for the value that was packed.\<close>

locale serializer =
  fixes F :: float_bits
    and pk :: "'a \<Rightarrow> bytes res" and ob :: "'a \<Rightarrow> msgpack_object res" and cv :: "msgpack_object \<Rightarrow> 'a res"
    and ok :: "'a \<Rightarrow> bool" and sent :: "'a \<Rightarrow> 'a" and levels :: nat
  assumes adaptor: "ok x \<Longrightarrow> \<exists>obj. ob x = Inr obj \<and> pk x = Inr (pack_object F obj) \<and> valid_object F obj \<and>
      depth obj \<le> levels \<and> cv obj = Inr (sent x)"
    and shallow: "levels \<le> limit_size"
begin

lemma arrives:
  assumes "ok x"
  shows "\<exists>bs obj. pk x = Inr bs \<and> ob x = Inr obj \<and> unpack F (bs @ rest) = Inr (obj, rest) \<and> cv obj = Inr (sent x)"
proof -
  obtain obj where o: "ob x = Inr obj" "pk x = Inr (pack_object F obj)" "valid_object F obj" "depth obj \<le> levels"
    "cv obj = Inr (sent x)"
    using adaptor[OF assms] by blast
  have "unpack F (pack_object F obj @ rest) = Inr (obj, rest)"
    by (rule execute_packed[OF o(3) order_trans[OF o(4) shallow], where rest = rest]) (simp add: unpack_def)
  with o show ?thesis by blast
qed

end

lemma rseq_packed: "list_all2 (\<lambda>p obj. p = Inr (pack_object F obj)) ps os \<Longrightarrow> rseq ps = Inr (map (pack_object F) os)"
  by (induction rule: list_all2_induct) simp_all

lemma pack_members_object:
  assumes "list_all2 (\<lambda>p obj. p = Inr (pack_object F obj)) ps os"
  shows "pack_members ps = Inr (pack_object F (ARRAY os))"
  using list_all2_lengthD[OF assms] by (simp add: pack_members_def rseq_packed[OF assms])

lemma uint_packs:
  "n < 2 ^ 8 \<Longrightarrow> pack_imp_uint8 n = pack_imp_uint64 n" "n < 2 ^ 32 \<Longrightarrow> pack_imp_uint32 n = pack_imp_uint64 n"
  by (auto simp: pack_imp_uint8_def pack_imp_uint32_def pack_imp_uint64_def)

lemma pack_long_object:
  "pack_imp_int64 d = pack_object F (if d < 0 then NEGATIVE_INTEGER d else POSITIVE_INTEGER (nat d))"
proof (cases "d < 0")
  case False
  then obtain n where d: "d = int n" using nonneg_int_cases not_less by metis
  have "int n < 2 ^ k \<longleftrightarrow> n < 2 ^ k" for k by (metis of_nat_less_iff of_nat_numeral of_nat_power)
  note bounds = this[of 7] this[of 8] this[of 16] this[of 32]
  show ?thesis
    unfolding d pack_imp_int64_def pack_imp_uint64_def pack_object.simps
    by (simp add: bounds take8_def pack_imp_uint64_def del: store_be.simps)
qed simp

lemma convert_long: "in_long d \<Longrightarrow> convert_signed 64 (if d < 0 then NEGATIVE_INTEGER d else POSITIVE_INTEGER (nat d)) = Inr d"
  by (auto simp: convert_signed_def in_long_def nat_le_iff not_less)

lemma string_small: "length s < 2 ^ 32 \<Longrightarrow> checked_get_container_size (length s) = Inr (length s)"
  by (simp add: checked_get_container_size_def)

lemma pack_double_parts [simp]: "pack_double_value F v = Inr (pack_object F (FLOAT64 v))"
  by (simp add: pack_double_value_def)

section \<open>The adaptors of the library\<close>

definition ok_string :: "string \<Rightarrow> bool" where
  "ok_string s \<longleftrightarrow> length s < 2 ^ 32"

definition ok_double :: "float_bits \<Rightarrow> real \<Rightarrow> bool" where
  "ok_double F x \<longleftrightarrow> f64_bits F x < 2 ^ 64 \<and> f64_of F (f64_bits F x) = x"

lemma limit_nonneg [simp]: "0 \<le> limit_size" "Suc 0 \<le> limit_size" "2 \<le> limit_size" "5 \<le> limit_size"
  by (simp_all add: limit_size_def)

interpretation long: serializer F pack_long object_signed "convert_signed 64" in_long id 0 for F
  by unfold_locales
    (auto simp: pack_long_def object_signed_def pack_long_object[of _ F] convert_long[simplified] in_long_def nat_less_iff)

interpretation uint8: serializer F pack_unsigned_char object_unsigned "convert_unsigned 8" "\<lambda>n. n < 2 ^ 8" id 0 for F
  by unfold_locales (auto simp: pack_unsigned_char_def object_unsigned_def uint_packs convert_unsigned_def)

interpretation uint64: serializer F pack_unsigned_long object_unsigned "convert_unsigned 64" "\<lambda>n. n < 2 ^ 64" id 0 for F
  by unfold_locales (auto simp: pack_unsigned_long_def object_unsigned_def convert_unsigned_def)

interpretation str: serializer F pack_string object_string convert_string ok_string id 0 for F
  by unfold_locales (auto simp: pack_string_def object_string_def convert_string_def ok_string_def string_small)

interpretation bip_str: serializer F pack_bip_string object_bip_string convert_bip_string ok_string id 0 for F
  by unfold_locales
    (auto simp: pack_bip_string_def object_bip_string_def convert_bip_string_def ok_string_def string_small)

interpretation boolean: serializer F pack_bool object_bool convert_bool "\<lambda>_. True" id 0 for F
  by unfold_locales (auto simp: pack_bool_def object_bool_def convert_bool_def)

interpretation double: serializer F "pack_double_value F" object_double convert_double "ok_double F" id 0 for F
  by unfold_locales (auto simp: object_double_def convert_double_def ok_double_def)

text \<open>Enumerations.\<close>

locale enumeration =
  fixes code :: "'e \<Rightarrow> nat" and of_code :: "nat \<Rightarrow> 'e option"
  assumes of_code: "of_code (code v) = Some v" and small: "code v < 2 ^ 32"
begin

sublocale enum: serializer F "pack_enum code" "object_enum code" "convert_enum of_code" "\<lambda>_. True" id 0 for F
proof unfold_locales
  fix F v
  have "\<not> code v > 2 ^ 32 - 1" using small[of v] by simp
  then show "\<exists>obj. object_enum code v = Inr obj \<and> pack_enum code v = Inr (pack_object F obj) \<and> valid_object F obj \<and>
      depth obj \<le> 0 \<and> convert_enum of_code obj = Inr (id v)"
    using small[of v]
    by (simp add: pack_enum_def object_enum_def convert_enum_def pack_unsigned_int_def object_unsigned_def uint_packs
        convert_unsigned_def of_code)
qed simp

end

interpretation event_type: enumeration EventType_code EventType_of
proof unfold_locales
  show "EventType_of (EventType_code v) = Some v" "EventType_code v < 2 ^ 32" for v by (cases v; simp add: EventType_of_def)+
qed

interpretation event_source: enumeration EventSource_code EventSource_of
proof unfold_locales
  show "EventSource_of (EventSource_code v) = Some v" "EventSource_code v < 2 ^ 32" for v by (cases v; simp add: EventSource_of_def)+
qed

text \<open>Pairs and vectors.\<close>

locale pair_serializer =
  first: serializer F pk1 ob1 cv1 ok1 sent1 n1 + second: serializer F pk2 ob2 cv2 ok2 sent2 n2
  for F pk1 ob1 cv1 ok1 sent1 n1 pk2 ob2 cv2 ok2 sent2 n2 +
  assumes room: "Suc (max n1 n2) \<le> limit_size"
begin

sublocale both: serializer F "pack_pair pk1 pk2" "object_pair ob1 ob2" "convert_pair cv1 cv2"
  "\<lambda>(x, y). ok1 x \<and> ok2 y" "map_prod sent1 sent2" "Suc (max n1 n2)"
proof unfold_locales
  fix xy
  assume "case xy of (x, y) \<Rightarrow> ok1 x \<and> ok2 y"
  then obtain x y where xy: "xy = (x, y)" "ok1 x" "ok2 y" by (cases xy) auto
  obtain o1 where o1: "ob1 x = Inr o1" "pk1 x = Inr (pack_object F o1)" "valid_object F o1" "depth o1 \<le> n1"
    "cv1 o1 = Inr (sent1 x)" using first.adaptor[OF xy(2)] by blast
  obtain o2 where o2: "ob2 y = Inr o2" "pk2 y = Inr (pack_object F o2)" "valid_object F o2" "depth o2 \<le> n2"
    "cv2 o2 = Inr (sent2 y)" using second.adaptor[OF xy(3)] by blast
  have "pack_members [pk1 x, pk2 y] = Inr (pack_object F (ARRAY [o1, o2]))"
    by (rule pack_members_object) (simp add: o1 o2)
  then show "\<exists>obj. object_pair ob1 ob2 xy = Inr obj \<and> pack_pair pk1 pk2 xy = Inr (pack_object F obj) \<and>
      valid_object F obj \<and> depth obj \<le> Suc (max n1 n2) \<and> convert_pair cv1 cv2 obj = Inr (map_prod sent1 sent2 xy)"
    using o1 o2 by (intro exI[of _ "ARRAY [o1, o2]"]) (simp add: xy(1) object_members_def convert_pair_def max.coboundedI1 max.coboundedI2)
qed (rule room)

end

lemma rseq_objects:
  assumes "\<And>x. x \<in> set xs \<Longrightarrow> \<exists>obj. ob x = Inr obj \<and> P x obj"
  obtains os where "rseq (map ob xs) = Inr os" and "list_all2 (\<lambda>x obj. ob x = Inr obj \<and> P x obj) xs os"
  using assms
proof (induction xs arbitrary: thesis)
  case (Cons x xs)
  obtain obj where x: "ob x = Inr obj" "P x obj" using Cons.prems(2)[of x] by auto
  obtain os where "rseq (map ob xs) = Inr os" "list_all2 (\<lambda>x obj. ob x = Inr obj \<and> P x obj) xs os"
    using Cons.IH Cons.prems(2) by auto
  with x show ?case by (intro Cons.prems(1)[of "obj # os"]) auto
qed auto

locale vector_serializer =
  elems: serializer F pk ob cv ok sent n for F pk ob cv ok sent n +
  assumes room: "Suc n \<le> limit_size"
begin

sublocale all: serializer F "pack_vector pk" "object_vector ob" "convert_vector cv"
  "\<lambda>xs. length xs < 2 ^ 32 \<and> (\<forall>x\<in>set xs. ok x)" "map sent" "Suc n"
proof unfold_locales
  fix xs
  assume ok: "length xs < 2 ^ 32 \<and> (\<forall>x\<in>set xs. ok x)"
  obtain os where os: "rseq (map ob xs) = Inr os"
    "list_all2 (\<lambda>x obj. ob x = Inr obj \<and> pk x = Inr (pack_object F obj) \<and> valid_object F obj \<and> depth obj \<le> n \<and>
      cv obj = Inr (sent x)) xs os"
    using rseq_objects[of xs ob "\<lambda>x obj. pk x = Inr (pack_object F obj) \<and> valid_object F obj \<and> depth obj \<le> n \<and>
        cv obj = Inr (sent x)"] elems.adaptor ok by blast
  have len: "length os = length xs" using list_all2_lengthD[OF os(2)] by simp
  have "rseq (map cv os) = Inr (map sent xs)" using os(2) by (induction rule: list_all2_induct) simp_all
  moreover have "list_all2 (\<lambda>p obj. p = Inr (pack_object F obj)) (map pk xs) os"
    using os(2) by (induction rule: list_all2_induct) simp_all
  then have "pack_members (map pk xs) = Inr (pack_object F (ARRAY os))" by (rule pack_members_object)
  moreover have "\<forall>obj\<in>set os. valid_object F obj \<and> depth obj \<le> n"
    using os(2) by (induction rule: list_all2_induct) auto
  ultimately show "\<exists>obj. object_vector ob xs = Inr obj \<and> pack_vector pk xs = Inr (pack_object F obj) \<and>
      valid_object F obj \<and> depth obj \<le> Suc n \<and> convert_vector cv obj = Inr (map sent xs)"
    using ok os(1) len
    by (intro exI[of _ "ARRAY os"])
      (simp add: object_vector_def pack_vector_def convert_vector_def object_members_def checked_get_container_size_def)
qed (rule room)

end

section \<open>The adaptors of HFetch\<close>

definition ok_CharStruct :: "string \<Rightarrow> bool" where
  "ok_CharStruct s \<longleftrightarrow> CHR 0x00 \<notin> set s \<and> length s < MAX_STRING_LENGTH"

definition ok_Segment :: "Segment \<Rightarrow> bool" where
  "ok_Segment s \<longleftrightarrow> in_long (seg_start s) \<and> in_long (seg_end s)"

definition ok_SegmentScore :: "float_bits \<Rightarrow> SegmentScore \<Rightarrow> bool" where
  "ok_SegmentScore F s \<longleftrightarrow> frequency s < 2 ^ 64 \<and> ok_double F (lrf s)"

definition ok_Event :: "Event \<Rightarrow> bool" where
  "ok_Event ev \<longleftrightarrow> ok_CharStruct (ev_filename ev) \<and> ok_Segment (ev_segment ev) \<and> layer_index ev < 2 ^ 8 \<and> in_long (ev_time ev)"

text \<open>A file whose layer is one of the hierarchy; what arrives has the layer of the receiver with that id.\<close>

definition sent_file :: "PosixFile \<Rightarrow> PosixFile" where
  "sent_file f = f\<lparr>pf_layer := (pf_layer f)\<lparr>direct_io := None\<rparr>\<rparr>"

definition ok_PosixFile :: "layer_ptr \<Rightarrow> PosixFile \<Rightarrow> bool" where
  "ok_PosixFile ls f \<longleftrightarrow> ok_CharStruct (pf_filename f) \<and> ok_Segment (pf_segment f) \<and> ok_string (pf_data f) \<and>
     layer_id (pf_layer f) < 2 ^ 8 \<and> Layer_of_id ls (layer_id (pf_layer f)) = Inr ((pf_layer f)\<lparr>direct_io := None\<rparr>)"

definition sent_score :: "SegmentScore \<Rightarrow> SegmentScore" where
  "sent_score s = s\<lparr>score_type := DEFAULT_SCORE_TYPE\<rparr>"

interpretation name: serializer F pack_CharStruct object_CharStruct convert_CharStruct ok_CharStruct id 0 for F
proof unfold_locales
  fix s
  assume ok: "ok_CharStruct s"
  then have "length s < 2 ^ 32" by (simp add: ok_CharStruct_def MAX_STRING_LENGTH_def)
  with ok show "\<exists>obj. object_CharStruct s = Inr obj \<and> pack_CharStruct s = Inr (pack_object F obj) \<and> valid_object F obj \<and>
      depth obj \<le> 0 \<and> convert_CharStruct obj = Inr (id s)"
    by (simp add: object_CharStruct_def pack_CharStruct_def convert_CharStruct_def via_str_def string_small
        CharStruct_fits ok_CharStruct_def)
qed simp

text \<open>A record is packed as an array of its members.\<close>

lemma via_array_simps [simp]:
  "via_array (ARRAY (obj # os)) 0 = Inr obj" "via_array (ARRAY (obj # os)) (Suc i) = via_array (ARRAY os) i"
  by (simp_all add: via_array_def)

lemma via_array_numeral [simp]: "via_array (ARRAY (obj # os)) (numeral k) = via_array (ARRAY os) (pred_numeral k)"
  by (simp add: numeral_eq_Suc)

lemma record_packs:
  "list_all2 (\<lambda>p obj. p = Inr (pack_object F obj)) ps os \<Longrightarrow> list_all2 (\<lambda>m obj. m = Inr obj) ms os \<Longrightarrow>
    object_members ms = Inr (ARRAY os) \<and> pack_members ps = Inr (pack_object F (ARRAY os))"
proof (intro conjI pack_members_object)
  assume "list_all2 (\<lambda>m obj. m = Inr obj) ms os"
  then have "rseq ms = Inr os" by (induction rule: list_all2_induct) simp_all
  then show "object_members ms = Inr (ARRAY os)" by (simp add: object_members_def)
qed

interpretation segment: serializer F pack_Segment object_Segment convert_Segment ok_Segment id 1 for F
proof unfold_locales
  fix s
  assume "ok_Segment s"
  then have l: "in_long (seg_start s)" "in_long (seg_end s)" by (simp_all add: ok_Segment_def)
  obtain o1 where o1: "object_signed (seg_start s) = Inr o1" "pack_long (seg_start s) = Inr (pack_object F o1)"
    "valid_object F o1" "depth o1 \<le> 0" "convert_signed 64 o1 = Inr (id (seg_start s))"
    using long.adaptor[OF l(1), of F] by blast
  obtain o2 where o2: "object_signed (seg_end s) = Inr o2" "pack_long (seg_end s) = Inr (pack_object F o2)"
    "valid_object F o2" "depth o2 \<le> 0" "convert_signed 64 o2 = Inr (id (seg_end s))"
    using long.adaptor[OF l(2), of F] by blast
  have "object_Segment s = Inr (ARRAY [o1, o2]) \<and> pack_Segment s = Inr (pack_object F (ARRAY [o1, o2]))"
    unfolding object_Segment_def pack_Segment_def by (rule record_packs) (simp_all add: o1 o2)
  then show "\<exists>obj. object_Segment s = Inr obj \<and> pack_Segment s = Inr (pack_object F obj) \<and> valid_object F obj \<and>
      depth obj \<le> 1 \<and> convert_Segment obj = Inr (id s)"
    using o1 o2 by (intro exI[of _ "ARRAY [o1, o2]"]) (simp add: convert_Segment_def)
qed simp

interpretation score: serializer F "pack_SegmentScore F" object_SegmentScore convert_SegmentScore "ok_SegmentScore F" sent_score 1 for F
proof unfold_locales
  fix s
  assume "ok_SegmentScore F s"
  then have l: "frequency s < 2 ^ 64" "ok_double F (lrf s)" by (simp_all add: ok_SegmentScore_def)
  obtain o1 where o1: "object_unsigned (frequency s) = Inr o1" "pack_unsigned_long (frequency s) = Inr (pack_object F o1)"
    "valid_object F o1" "depth o1 \<le> 0" "convert_unsigned 64 o1 = Inr (id (frequency s))"
    using uint64.adaptor[OF l(1), of F] by blast
  obtain o2 where o2: "object_double (lrf s) = Inr o2" "pack_double_value F (lrf s) = Inr (pack_object F o2)"
    "valid_object F o2" "depth o2 \<le> 0" "convert_double o2 = Inr (id (lrf s))"
    using double.adaptor[OF l(2)] by blast
  have "object_SegmentScore s = Inr (ARRAY [o1, o2]) \<and> pack_SegmentScore F s = Inr (pack_object F (ARRAY [o1, o2]))"
    unfolding object_SegmentScore_def pack_SegmentScore_def by (rule record_packs) (simp_all only: o1 o2 list.rel_inject simp_thms list.rel_intros)
  then show "\<exists>obj. object_SegmentScore s = Inr obj \<and> pack_SegmentScore F s = Inr (pack_object F obj) \<and> valid_object F obj \<and>
      depth obj \<le> 1 \<and> convert_SegmentScore obj = Inr (sent_score s)"
    using o1 o2 by (intro exI[of _ "ARRAY [o1, o2]"]) (simp add: convert_SegmentScore_def sent_score_def SegmentScore_default_def)
qed simp

interpretation event: serializer F pack_Event object_Event convert_Event ok_Event id 2 for F
proof unfold_locales
  fix ev
  assume "ok_Event ev"
  then have ok: "ok_CharStruct (ev_filename ev)" "ok_Segment (ev_segment ev)" "layer_index ev < 2 ^ 8" "in_long (ev_time ev)"
    by (simp_all add: ok_Event_def)
  obtain o1 where o1: "object_CharStruct (ev_filename ev) = Inr o1" "pack_CharStruct (ev_filename ev) = Inr (pack_object F o1)"
    "valid_object F o1" "depth o1 \<le> 0" "convert_CharStruct o1 = Inr (id (ev_filename ev))"
    using name.adaptor[OF ok(1), of F] by blast
  obtain o2 where o2: "object_Segment (ev_segment ev) = Inr o2" "pack_Segment (ev_segment ev) = Inr (pack_object F o2)"
    "valid_object F o2" "depth o2 \<le> 1" "convert_Segment o2 = Inr (id (ev_segment ev))"
    using segment.adaptor[OF ok(2), of F] by blast
  obtain o3 where o3: "object_enum EventType_code (event_type ev) = Inr o3"
    "pack_enum EventType_code (event_type ev) = Inr (pack_object F o3)" "valid_object F o3" "depth o3 \<le> 0"
    "convert_enum EventType_of o3 = Inr (id (event_type ev))"
    using event_type.enum.adaptor[OF TrueI, of _ F] by blast
  obtain o4 where o4: "object_enum EventSource_code (ev_source ev) = Inr o4"
    "pack_enum EventSource_code (ev_source ev) = Inr (pack_object F o4)" "valid_object F o4" "depth o4 \<le> 0"
    "convert_enum EventSource_of o4 = Inr (id (ev_source ev))"
    using event_source.enum.adaptor[OF TrueI, of _ F] by blast
  obtain o5 where o5: "object_unsigned (layer_index ev) = Inr o5" "pack_unsigned_char (layer_index ev) = Inr (pack_object F o5)"
    "valid_object F o5" "depth o5 \<le> 0" "convert_unsigned 8 o5 = Inr (id (layer_index ev))"
    using uint8.adaptor[OF ok(3), of F] by blast
  obtain o6 where o6: "object_signed (ev_time ev) = Inr o6" "pack_long (ev_time ev) = Inr (pack_object F o6)"
    "valid_object F o6" "depth o6 \<le> 0" "convert_signed 64 o6 = Inr (id (ev_time ev))"
    using long.adaptor[OF ok(4), of F] by blast
  let ?o = "ARRAY [o1, o2, o3, o4, o5, o6]"
  have "object_Event ev = Inr ?o \<and> pack_Event ev = Inr (pack_object F ?o)"
    unfolding object_Event_def pack_Event_def
    by (rule record_packs) (simp_all only: o1 o2 o3 o4 o5 o6 list.rel_inject simp_thms list.rel_intros)
  moreover have "convert_Event ?o = Inr (id ev)"
    unfolding convert_Event_def using o1(5) o2(5) o3(5) o4(5) o5(5) o6(5) by simp
  moreover have "valid_object F ?o \<and> depth ?o \<le> 2" using o1 o2 o3 o4 o5 o6 by simp
  ultimately show "\<exists>obj. object_Event ev = Inr obj \<and> pack_Event ev = Inr (pack_object F obj) \<and> valid_object F obj \<and>
      depth obj \<le> 2 \<and> convert_Event obj = Inr (id ev)" by blast
qed simp

interpretation posix_file: serializer F pack_PosixFile object_PosixFile "convert_PosixFile ls" "ok_PosixFile ls" sent_file 2
  for F ls
proof unfold_locales
  fix f
  assume "ok_PosixFile ls f"
  then have ok: "ok_CharStruct (pf_filename f)" "ok_Segment (pf_segment f)" "ok_string (pf_data f)"
    "layer_id (pf_layer f) < 2 ^ 8" "Layer_of_id ls (layer_id (pf_layer f)) = Inr ((pf_layer f)\<lparr>direct_io := None\<rparr>)"
    by (simp_all add: ok_PosixFile_def)
  obtain o1 where o1: "object_CharStruct (pf_filename f) = Inr o1" "pack_CharStruct (pf_filename f) = Inr (pack_object F o1)"
    "valid_object F o1" "depth o1 \<le> 0" "convert_CharStruct o1 = Inr (id (pf_filename f))"
    using name.adaptor[OF ok(1), of F] by blast
  obtain o2 where o2: "object_Segment (pf_segment f) = Inr o2" "pack_Segment (pf_segment f) = Inr (pack_object F o2)"
    "valid_object F o2" "depth o2 \<le> 1" "convert_Segment o2 = Inr (id (pf_segment f))"
    using segment.adaptor[OF ok(2), of F] by blast
  obtain o3 where o3: "object_unsigned (layer_id (pf_layer f)) = Inr o3"
    "pack_unsigned_char (layer_id (pf_layer f)) = Inr (pack_object F o3)"
    "valid_object F o3" "depth o3 \<le> 0" "convert_unsigned 8 o3 = Inr (id (layer_id (pf_layer f)))"
    using uint8.adaptor[OF ok(4), of F] by blast
  obtain o4 where o4: "object_string (pf_data f) = Inr o4" "pack_string (pf_data f) = Inr (pack_object F o4)"
    "valid_object F o4" "depth o4 \<le> 0" "convert_string o4 = Inr (id (pf_data f))"
    using str.adaptor[OF ok(3), of F] by blast
  let ?o = "ARRAY [o1, o2, o3, o4]"
  have "object_PosixFile f = Inr ?o \<and> pack_PosixFile f = Inr (pack_object F ?o)"
    unfolding object_PosixFile_def pack_PosixFile_def
    by (rule record_packs) (simp_all only: o1 o2 o3 o4 list.rel_inject simp_thms list.rel_intros)
  moreover have "convert_PosixFile ls ?o = Inr (sent_file f)"
    unfolding convert_PosixFile_def sent_file_def using o1(5) o2(5) o3(5) o4(5) ok(5) by simp
  moreover have "valid_object F ?o \<and> depth ?o \<le> 2" using o1 o2 o3 o4 by simp
  ultimately show "\<exists>obj. object_PosixFile f = Inr obj \<and> pack_PosixFile f = Inr (pack_object F obj) \<and> valid_object F obj \<and>
      depth obj \<le> 2 \<and> convert_PosixFile ls obj = Inr (sent_file f)" by blast
qed simp

text \<open>The entries of an offset map, as \<open>GetAllDataInServer\<close> and \<open>ContainsInServer\<close> return them.\<close>

definition pack_entries :: "float_bits \<Rightarrow> (Segment \<times> PosixFile \<times> SegmentScore) list \<Rightarrow> bytes res" where
  "pack_entries F = pack_vector (pack_pair pack_Segment (pack_pair pack_PosixFile (pack_SegmentScore F)))"

definition object_entries :: "(Segment \<times> PosixFile \<times> SegmentScore) list \<Rightarrow> msgpack_object res" where
  "object_entries = object_vector (object_pair object_Segment (object_pair object_PosixFile object_SegmentScore))"

definition convert_entries :: "layer_ptr \<Rightarrow> msgpack_object \<Rightarrow> (Segment \<times> PosixFile \<times> SegmentScore) list res" where
  "convert_entries ls = convert_vector (convert_pair convert_Segment (convert_pair (convert_PosixFile ls) convert_SegmentScore))"

interpretation scored_file: pair_serializer F pack_PosixFile object_PosixFile "convert_PosixFile ls" "ok_PosixFile ls" sent_file 2
  "pack_SegmentScore F" object_SegmentScore convert_SegmentScore "ok_SegmentScore F" sent_score 1 for F ls
  by unfold_locales (simp add: limit_size_def)

interpretation entry: pair_serializer F pack_Segment object_Segment convert_Segment ok_Segment id 1
  "pack_pair pack_PosixFile (pack_SegmentScore F)" "object_pair object_PosixFile object_SegmentScore"
  "convert_pair (convert_PosixFile ls) convert_SegmentScore" "\<lambda>(f, s). ok_PosixFile ls f \<and> ok_SegmentScore F s"
  "map_prod sent_file sent_score" "Suc (max 2 1)" for F ls
  by unfold_locales (simp add: limit_size_def)

interpretation entries: vector_serializer F "pack_pair pack_Segment (pack_pair pack_PosixFile (pack_SegmentScore F))"
  "object_pair object_Segment (object_pair object_PosixFile object_SegmentScore)"
  "convert_pair convert_Segment (convert_pair (convert_PosixFile ls) convert_SegmentScore)"
  "\<lambda>(k, fs). ok_Segment k \<and> (case fs of (f, s) \<Rightarrow> ok_PosixFile ls f \<and> ok_SegmentScore F s)"
  "map_prod id (map_prod sent_file sent_score)" "Suc (max 1 (Suc (max 2 1)))" for F ls
  by unfold_locales (simp add: limit_size_def)

section \<open>Properties\<close>

text \<open>C30: An event arrives as it was sent: its bytes are parsed, whatever follows them, into the object the adaptor
  builds, and converting that object gives the event back.\<close>

theorem event_arrives:
  assumes "ok_Event ev"
  shows "\<exists>bs obj. pack_Event ev = Inr bs \<and> object_Event ev = Inr obj \<and> unpack F (bs @ rest) = Inr (obj, rest) \<and>
    convert_Event obj = Inr ev"
  using event.arrives[OF assms, of F rest] by simp

theorem event_arrives_witness:
  "\<exists>bs obj. pack_Event \<lparr>ev_filename = ''ab'', ev_segment = \<lparr>seg_start = 0, seg_end = 99\<rparr>, event_type = FILE_READ,
       ev_source = APPLICATION, layer_index = 2, ev_time = 7\<rparr> = Inr bs \<and>
     unpack zero_floats bs = Inr (obj, []) \<and>
     convert_Event obj = Inr \<lparr>ev_filename = ''ab'', ev_segment = \<lparr>seg_start = 0, seg_end = 99\<rparr>, event_type = FILE_READ,
       ev_source = APPLICATION, layer_index = 2, ev_time = 7\<rparr>"
proof -
  let ?ev = "\<lparr>ev_filename = ''ab'', ev_segment = \<lparr>seg_start = 0, seg_end = 99\<rparr>, event_type = FILE_READ,
    ev_source = APPLICATION, layer_index = 2, ev_time = 7\<rparr>"
  have "ok_Event ?ev"
    by (simp add: ok_Event_def ok_CharStruct_def ok_Segment_def in_long_def MAX_STRING_LENGTH_def)
  from event_arrives[OF this, of zero_floats "[]"] show ?thesis by auto
qed

text \<open>The entries of an offset map arrive in order, with two changes: every score comes back with the
  default score type, and the layer of every file without its \<open>direct_io\<close>.\<close>

theorem entries_arrive:
  assumes "length xs < 2 ^ 32"
    and "\<forall>(k, f, s)\<in>set xs. ok_Segment k \<and> ok_PosixFile ls f \<and> ok_SegmentScore F s"
  shows "\<exists>bs obj. pack_entries F xs = Inr bs \<and> object_entries xs = Inr obj \<and> unpack F (bs @ rest) = Inr (obj, rest) \<and>
    convert_entries ls obj = Inr (map (\<lambda>(k, f, s). (k, sent_file f, sent_score s)) xs)"
proof -
  have "map (map_prod id (map_prod sent_file sent_score)) xs = map (\<lambda>(k, f, s). (k, sent_file f, sent_score s)) xs"
    by auto
  then show ?thesis
    using entries.all.arrives[of xs ls F rest] assms
    unfolding pack_entries_def object_entries_def convert_entries_def by (auto simp: case_prod_beta)
qed

theorem entries_arrive_witness:
  "\<exists>l bs obj. pack_entries zero_floats
       [(\<lparr>seg_start = 0, seg_end = 9\<rparr>, \<lparr>pf_filename = ''a'', pf_segment = \<lparr>seg_start = 0, seg_end = 9\<rparr>, pf_layer = l, pf_data = []\<rparr>,
         \<lparr>frequency = 3, lrf = 0, score_type = FREQUENCY_SCORE\<rparr>)] = Inr bs \<and>
     unpack zero_floats bs = Inr (obj, []) \<and>
     convert_entries [l] obj = Inr
       [(\<lparr>seg_start = 0, seg_end = 9\<rparr>,
         \<lparr>pf_filename = ''a'', pf_segment = \<lparr>seg_start = 0, seg_end = 9\<rparr>, pf_layer = l\<lparr>direct_io := None\<rparr>, pf_data = []\<rparr>,
         \<lparr>frequency = 3, lrf = 0, score_type = LRF_SCORE\<rparr>)]"
proof -
  let ?l = "\<lparr>layer_id = 1, capacity_mb = 64, layer_loc = ''/ramfs'', bandwidth_mbps = 80000,
    direct_io = Some True, io_client_type = SIMPLE_MEMORY\<rparr>"
  let ?x = "(\<lparr>seg_start = 0, seg_end = 9\<rparr>,
    \<lparr>pf_filename = ''a'', pf_segment = \<lparr>seg_start = 0, seg_end = 9\<rparr>, pf_layer = ?l, pf_data = []\<rparr>,
    \<lparr>frequency = 3, lrf = 0, score_type = FREQUENCY_SCORE\<rparr>)"
  have "length [?x] < 2 ^ 32" by simp
  moreover have "\<forall>(k, f, s)\<in>set [?x]. ok_Segment k \<and> ok_PosixFile [?l] f \<and> ok_SegmentScore zero_floats s"
    by (simp add: ok_Segment_def ok_PosixFile_def ok_SegmentScore_def ok_CharStruct_def ok_string_def ok_double_def
        zero_floats_def in_long_def MAX_STRING_LENGTH_def)
  ultimately obtain bs obj where "pack_entries zero_floats [?x] = Inr bs" "unpack zero_floats bs = Inr (obj, [])"
    "convert_entries [?l] obj = Inr (map (\<lambda>(k, f, s). (k, sent_file f, sent_score s)) [?x])"
    using entries_arrive[of "[?x]" "[?l]" zero_floats "[]"] unfolding append_Nil2 by blast
  then show ?thesis
    by (intro exI[of _ ?l] exI[of _ bs] exI[of _ obj]) (simp add: sent_file_def sent_score_def DEFAULT_SCORE_TYPE_def)
qed

end
