(* ===== verification/Tracing.thy ===== *)
theory Tracing
  imports Util Serialization
begin

text \<open>
  Tracing and timing: \<open>src/src/common/debug.h\<close>, the stream operators of \<open>data_structures.cpp\<close>.

  \<^item> \<open>Timer\<close>: the clock is an argument, in nanoseconds; the milliseconds of \<open>time_elapsed\<close> are reals.
  \<^item> \<open>AutoTrace\<close>: the static members and what was written to \<open>cout\<close> are the state \<open>tracer\<close>; \<open>HERMES_TRACE\<close> and
    \<open>HERMES_TIMER\<close> are the two flags. The number \<open>item\<close> is not bounded here; it is the number of traced calls that have not
    returned.
  \<^item> How a stream prints a floating point number is the argument \<open>show_real\<close>.
\<close>

section \<open>Printing\<close>

definition show_bool :: "bool \<Rightarrow> string" where
  "show_bool b = (if b then ''1'' else ''0'')"

fun IOClientType_number :: "IOClientType \<Rightarrow> nat" where
  "IOClientType_number LOCAL_POSIX_FILE = 0"
| "IOClientType_number SIMPLE_MEMORY = 1"
| "IOClientType_number SHARED_POSIX_FILE = 2"

fun ScoreType_number :: "ScoreType \<Rightarrow> nat" where
  "ScoreType_number FREQUENCY_SCORE = 0"
| "ScoreType_number LRF_SCORE = 1"

definition initialised :: "'a option \<Rightarrow> 'a res" where
  "initialised v = (case v of Some x \<Rightarrow> Inr x | None \<Rightarrow> Inl (Undefined Uninitialised))"

definition show_pair :: "('a \<Rightarrow> string) \<Rightarrow> ('b \<Rightarrow> string) \<Rightarrow> 'a \<times> 'b \<Rightarrow> string" where
  "show_pair f g m = ''{TYPE:pair,first:'' @ f (fst m) @ '',second:'' @ g (snd m) @ ''}''"

definition show_vector :: "('a \<Rightarrow> string) \<Rightarrow> 'a list \<Rightarrow> string" where
  "show_vector f ms = ''['' @ concat (map (\<lambda>m. f m @ '','') ms) @ '']''"

definition show_LayerInfo :: "(real \<Rightarrow> string) \<Rightarrow> LayerInfo \<Rightarrow> string res" where
  "show_LayerInfo show_real m =
     rbind (initialised (info_direct_io m)) (\<lambda>dio.
       Inr (''{TYPE:LayerInfo,mount_point_:'' @ mount_point m @ '',capacity_mb_:'' @ show_real (info_capacity_mb m) @
            '',bandwidth:'' @ show_real (info_bandwidth m) @ '',direct_io:'' @ show_bool dio @
            '',is_memory:'' @ show_bool (is_memory m) @ ''}''))"

definition show_layer_at :: "(real \<Rightarrow> string) \<Rightarrow> LayerInfo list \<Rightarrow> nat \<Rightarrow> string \<Rightarrow> string res" where
  "show_layer_at show_real infos i os =
     (if i < length infos
      then rbind (show_LayerInfo show_real (infos ! i)) (\<lambda>s. Inr (os @ ''layers('' @ to_string i @ ''):'' @ s))
      else Inl (Undefined OutOfRange))"

definition show_InputArgs :: "(real \<Rightarrow> string) \<Rightarrow> InputArgs \<Rightarrow> string res" where
  "show_InputArgs show_real m =
     rbind (if layer_count m \<le> 0 then Inr ''''
            else rbind (initialised (arg_layers m)) (\<lambda>infos.
                   rfold (show_layer_at show_real infos) [0..<nat (layer_count m)] '''')) (\<lambda>layers.
     rbind (initialised (pfs_path m)) (\<lambda>pfs.
       Inr (''{TYPE:InputArgs,num_servers:'' @ int_string (arg_num_servers m) @ '',max_files:'' @ int_string (max_files m) @
            '',io_size_:'' @ to_string (io_size_mb m) @ '',num_workers:'' @ to_string (arg_num_workers m) @
            '',layer_count_:'' @ int_string (layer_count m) @ '',ranks_per_server_:'' @ int_string (arg_ranks_per_server m) @
            '',direct_io_:'' @ to_string (arg_direct_io m) @ '',iteration_:'' @ to_string (iteration m) @ '','' @
            ''layers:['' @ layers @ '']'' @ ''pfs_path:'' @ pfs @ ''}'')))"

definition show_CharStruct :: "string \<Rightarrow> string" where
  "show_CharStruct m = ''{TYPE:CharStruct,value:'' @ m @ ''}''"

definition show_Segment :: "Segment \<Rightarrow> string" where
  "show_Segment m = ''{TYPE:Segment,start:'' @ int_string (seg_start m) @ '',end:'' @ int_string (seg_end m) @ ''}''"

definition show_SegmentScore :: "(real \<Rightarrow> string) \<Rightarrow> SegmentScore \<Rightarrow> string" where
  "show_SegmentScore show_real m =
     ''{TYPE:SegmentScore,type:'' @ to_string (ScoreType_number (score_type m)) @ '',frequency:'' @ to_string (frequency m) @
     '',lrf:'' @ show_real (lrf m) @ ''}''"

definition show_Event :: "Event \<Rightarrow> string" where
  "show_Event m =
     ''{TYPE:Event,event_type:'' @ to_string (EventType_code (event_type m)) @ '',layer_index:'' @ to_string (layer_index m) @
     '',filename:'' @ show_CharStruct (ev_filename m) @ '',segment:'' @ show_Segment (ev_segment m) @
     '',source:'' @ to_string (EventSource_code (ev_source m)) @ '',time:'' @ int_string (ev_time m) @ ''}''"

definition show_Layer :: "(real \<Rightarrow> string) \<Rightarrow> Layer \<Rightarrow> string" where
  "show_Layer show_real m =
     ''{TYPE:Layer,id_:'' @ to_string (layer_id m) @ '',capacity_mb_:'' @ show_real (capacity_mb m) @
     '',layer_loc:'' @ layer_loc m @ '',bandwidth_mbps_:'' @ show_real (bandwidth_mbps m) @
     '',io_client_type:'' @ to_string (IOClientType_number (io_client_type m)) @ ''}''"

definition show_PosixFile :: "(real \<Rightarrow> string) \<Rightarrow> PosixFile \<Rightarrow> string" where
  "show_PosixFile show_real m =
     ''{TYPE:PosixFile,filename:'' @ show_CharStruct (pf_filename m) @ '',segment:'' @ show_Segment (pf_segment m) @
     '',layer:'' @ show_Layer show_real (pf_layer m) @ ''}''"

section \<open>Timers\<close>

record timer =
  t1 :: int
  time_elapsed :: real

definition timer_new :: timer where
  "timer_new = \<lparr>t1 = 0, time_elapsed = 0\<rparr>"

definition milliseconds :: "int \<Rightarrow> real" where
  "milliseconds d = real_of_int d / 1000000"

definition startTime :: "int \<Rightarrow> timer \<Rightarrow> timer" where
  "startTime now t = t\<lparr>t1 := now, time_elapsed := 0\<rparr>"

definition pauseTime :: "int \<Rightarrow> timer \<Rightarrow> timer" where
  "pauseTime now t = t\<lparr>time_elapsed := time_elapsed t + milliseconds (now - t1 t)\<rparr>"

definition resumeTime :: "int \<Rightarrow> timer \<Rightarrow> timer" where
  "resumeTime now t = t\<lparr>t1 := now\<rparr>"

definition endTime :: "int \<Rightarrow> timer \<Rightarrow> real \<times> timer" where
  "endTime now t = (let t = t\<lparr>time_elapsed := time_elapsed t + milliseconds (now - t1 t)\<rparr> in (time_elapsed t, t))"

definition getTimeElapsed :: "timer \<Rightarrow> real" where
  "getTimeElapsed t = time_elapsed t"

text \<open>The calls that surround one timed operation of a benchmark, and a benchmark: a list of the times at which
  operations began and ended.\<close>

definition time_operation :: "int \<times> int \<Rightarrow> timer \<Rightarrow> timer" where
  "time_operation = (\<lambda>(began, ended) t. pauseTime ended (resumeTime began t))"

definition benchmark_time :: "int \<Rightarrow> int \<Rightarrow> (int \<times> int) list \<Rightarrow> int \<Rightarrow> real" where
  "benchmark_time started paused ops ended =
     fst (endTime ended (fold time_operation ops (pauseTime paused (startTime started timer_new))))"

section \<open>Traces\<close>

record trace_flags =
  HERMES_TRACE :: bool
  HERMES_TIMER :: bool

record tracer =
  tr_rank :: int
  tr_item :: int
  tr_out :: string

record auto_trace =
  at_timer :: timer
  m_line :: string

definition escape :: "string \<Rightarrow> string" where
  "escape s = CHR 0x1B # CHR ''['' # s @ ''m''"

definition start_line :: "trace_flags \<Rightarrow> int \<Rightarrow> int \<Rightarrow> string \<Rightarrow> string \<Rightarrow> string list \<Rightarrow> string" where
  "start_line fl n rank thread name args =
     escape ''31'' @ int_string n @ '';'' @ thread @ '';'' @ int_string rank @ '';'' @ name @ '';'' @
     (if HERMES_TIMER fl then '';;'' else '''') @
     (if HERMES_TRACE fl
      then ''args('' @ (if args = [] then ''Void'' else concat (map (\<lambda>a. a @ '', '') args)) @ '');'' else '''') @
     ''start'' @ [CHR 0x0A] @ escape ''00''"

definition finish_line :: "trace_flags \<Rightarrow> (real \<Rightarrow> string) \<Rightarrow> int \<Rightarrow> int \<Rightarrow> string \<Rightarrow> string \<Rightarrow> real \<Rightarrow> string" where
  "finish_line fl show_real n rank thread name msecs =
     escape ''31'' @ int_string n @ '';'' @ thread @ '';'' @ int_string rank @ '';'' @ name @ '';'' @
     (if HERMES_TRACE fl then '';'' else '''') @
     (if HERMES_TIMER fl then show_real msecs @ '';msecs;'' else '''') @
     ''finish'' @ [CHR 0x0A] @ escape ''00''"

text \<open>The constructor and the destructor; \<open>my_rank\<close> is what \<open>MPI_Comm_rank\<close> returns.\<close>

definition trace_start ::
  "trace_flags \<Rightarrow> int \<Rightarrow> string \<Rightarrow> string \<Rightarrow> string list \<Rightarrow> int \<Rightarrow> tracer \<Rightarrow> auto_trace \<times> tracer" where
  "trace_start fl my_rank thread name args now s =
     (let s = (if tr_rank s = - 1 then s\<lparr>tr_rank := my_rank\<rparr> else s);
          s = (if HERMES_TRACE fl \<or> HERMES_TIMER fl
               then s\<lparr>tr_item := tr_item s + 1,
                      tr_out := tr_out s @ start_line fl (tr_item s + 1) (tr_rank s) thread name args\<rparr>
               else s)
      in (\<lparr>at_timer = (if HERMES_TIMER fl then startTime now timer_new else timer_new), m_line = name\<rparr>, s))"

definition trace_finish ::
  "trace_flags \<Rightarrow> (real \<Rightarrow> string) \<Rightarrow> string \<Rightarrow> int \<Rightarrow> auto_trace \<Rightarrow> tracer \<Rightarrow> tracer" where
  "trace_finish fl show_real thread now a s =
     (if HERMES_TRACE fl \<or> HERMES_TIMER fl
      then s\<lparr>tr_item := tr_item s - 1,
             tr_out := tr_out s @ finish_line fl show_real (tr_item s) (tr_rank s) thread (m_line a) (fst (endTime now (at_timer a)))\<rparr>
      else s)"

text \<open>The traced calls of one thread: a call with its printed arguments, the times at which it starts and ends, and the
  calls it makes.\<close>

datatype traced_call = Traced string "string list" int int "traced_call list"

fun trace_call :: "trace_flags \<Rightarrow> (real \<Rightarrow> string) \<Rightarrow> int \<Rightarrow> string \<Rightarrow> traced_call \<Rightarrow> tracer \<Rightarrow> tracer"
  and trace_calls :: "trace_flags \<Rightarrow> (real \<Rightarrow> string) \<Rightarrow> int \<Rightarrow> string \<Rightarrow> traced_call list \<Rightarrow> tracer \<Rightarrow> tracer" where
  "trace_call fl show_real my_rank thread (Traced name args t t' body) s =
     (case trace_start fl my_rank thread name args t s of
        (a, s) \<Rightarrow> trace_finish fl show_real thread t' a (trace_calls fl show_real my_rank thread body s))"
| "trace_calls fl show_real my_rank thread [] s = s"
| "trace_calls fl show_real my_rank thread (c # cs) s =
     trace_calls fl show_real my_rank thread cs (trace_call fl show_real my_rank thread c s)"

text \<open>The handler of the signals: \<open>backtrace\<close> fills the array with up to 300 of the frames of the stack.\<close>

definition signal_handler :: "int \<Rightarrow> nat \<Rightarrow> string res" where
  "signal_handler sig frames =
     (if min 300 frames \<le> 10 then Inr (''Error: signal '' @ int_string sig @ [CHR 0x0A])
      else Inl (Undefined BufferOverflow))"

section \<open>Properties\<close>

text \<open>What a thread prints when the calls it traces are numbered by their depth.\<close>

fun call_text :: "trace_flags \<Rightarrow> (real \<Rightarrow> string) \<Rightarrow> int \<Rightarrow> string \<Rightarrow> int \<Rightarrow> traced_call \<Rightarrow> string" where
  "call_text fl show_real rank thread n (Traced name args t t' body) =
     start_line fl n rank thread name args @ concat (map (call_text fl show_real rank thread (n + 1)) body) @
     finish_line fl show_real n rank thread name (milliseconds (t' - t))"

lemma finish_line_untimed: "\<not> HERMES_TIMER fl \<Longrightarrow> finish_line fl sr n r th name x = finish_line fl sr n r th name y"
  by (simp add: finish_line_def)

lemma trace_finish_line:
  assumes "HERMES_TRACE fl \<or> HERMES_TIMER fl"
    and "a = \<lparr>at_timer = (if HERMES_TIMER fl then startTime t timer_new else timer_new), m_line = name\<rparr>"
  shows "trace_finish fl show_real thread t' a s =
    s\<lparr>tr_item := tr_item s - 1,
      tr_out := tr_out s @ finish_line fl show_real (tr_item s) (tr_rank s) thread name (milliseconds (t' - t))\<rparr>"
  using assms finish_line_untimed[of fl show_real _ _ thread name _ "milliseconds (t' - t)"]
  by (cases "HERMES_TIMER fl") (auto simp: trace_finish_def endTime_def startTime_def timer_new_def Let_def)

lemma trace_start_line:
  assumes "HERMES_TRACE fl \<or> HERMES_TIMER fl"
  shows "trace_start fl k thread name args t s =
    (\<lparr>at_timer = (if HERMES_TIMER fl then startTime t timer_new else timer_new), m_line = name\<rparr>,
     s\<lparr>tr_rank := (if tr_rank s = - 1 then k else tr_rank s), tr_item := tr_item s + 1,
       tr_out := tr_out s @ start_line fl (tr_item s + 1) (if tr_rank s = - 1 then k else tr_rank s) thread name args\<rparr>)"
  using assms by (auto simp: trace_start_def Let_def)

lemma traces_run:
  "HERMES_TRACE fl \<or> HERMES_TIMER fl \<Longrightarrow>
    trace_call fl sr k th c s =
      s\<lparr>tr_rank := (if tr_rank s = - 1 then k else tr_rank s),
        tr_out := tr_out s @ call_text fl sr (if tr_rank s = - 1 then k else tr_rank s) th (tr_item s + 1) c\<rparr>"
  "HERMES_TRACE fl \<or> HERMES_TIMER fl \<Longrightarrow>
    trace_calls fl sr k th cs s =
      s\<lparr>tr_rank := (if tr_rank s = - 1 \<and> cs \<noteq> [] then k else tr_rank s),
        tr_out := tr_out s @
          concat (map (call_text fl sr (if tr_rank s = - 1 then k else tr_rank s) th (tr_item s + 1)) cs)\<rparr>"
proof (induction fl sr k th c s and fl sr k th cs s rule: trace_call_trace_calls.induct)
  case (1 fl sr k th name args t t' body s)
  define r where "r = (if tr_rank s = - 1 then k else tr_rank s)"
  define s1 where "s1 = s\<lparr>tr_rank := r, tr_item := tr_item s + 1,
     tr_out := tr_out s @ start_line fl (tr_item s + 1) r th name args\<rparr>"
  have r: "(if r = - 1 then k else r) = r" "(if r = - 1 \<and> body \<noteq> [] then k else r) = r" unfolding r_def by auto
  have rank: "tr_rank s1 = r" by (simp add: s1_def)
  have start: "trace_start fl k th name args t s =
      (\<lparr>at_timer = (if HERMES_TIMER fl then startTime t timer_new else timer_new), m_line = name\<rparr>, s1)"
    unfolding trace_start_line[OF 1(2)] s1_def r_def by simp
  have body: "trace_calls fl sr k th body s1 =
      s1\<lparr>tr_out := tr_out s1 @ concat (map (call_text fl sr r th (tr_item s1 + 1)) body)\<rparr>"
    using 1(1)[OF start[symmetric] 1(2)] unfolding rank r by (simp add: s1_def)
  show ?case
    unfolding trace_call.simps start prod.case body trace_finish_line[OF 1(2) refl] r_def[symmetric]
    by (simp add: s1_def)
next
  case (2 fl sr k th s)
  then show ?case by simp
next
  case (3 fl sr k th c cs s)
  then show ?case by simp
qed

text \<open>The traces of a thread nest: the calls a thread traces print a start line and a finish line each, around the lines
  of the calls they make, both lines with the number of calls that are active then, the rank and the name; the counter
  returns to its value, and the finish line shows the milliseconds from the start to the end of the call.\<close>

theorem traces_nest:
  assumes "HERMES_TRACE fl \<or> HERMES_TIMER fl" and "rank \<noteq> - 1"
  shows "trace_calls fl show_real my_rank thread calls \<lparr>tr_rank = rank, tr_item = n, tr_out = out\<rparr> =
    \<lparr>tr_rank = rank, tr_item = n, tr_out = out @ concat (map (call_text fl show_real rank thread (n + 1)) calls)\<rparr>"
  using assms by (simp add: traces_run(2))

theorem traces_nest_witness:
  "trace_calls \<lparr>HERMES_TRACE = True, HERMES_TIMER = False\<rparr> (\<lambda>_. ''0'') 3 ''hfetch_server''
      [Traced ''f'' [] 0 9 [Traced ''g'' [''1''] 2 5 []]] \<lparr>tr_rank = 3, tr_item = 0, tr_out = []\<rparr> =
    \<lparr>tr_rank = 3, tr_item = 0, tr_out = concat (map (call_text \<lparr>HERMES_TRACE = True, HERMES_TIMER = False\<rparr> (\<lambda>_. ''0'') 3 ''hfetch_server'' 1)
      [Traced ''f'' [] 0 9 [Traced ''g'' [''1''] 2 5 []]])\<rparr>"
  using traces_nest[of "\<lparr>HERMES_TRACE = True, HERMES_TIMER = False\<rparr>" 3 "\<lambda>_. ''0''" 3 "''hfetch_server''"
      "[Traced ''f'' [] 0 9 [Traced ''g'' [''1''] 2 5 []]]" 0 "[]"] by simp

text \<open>A timer that is ended after it was paused reports more than the operations it timed: to the sum of the
  operations it adds the time from the beginning of the last operation to the end of the program part, so that the last
  operation counts twice and the pause after it is counted. This is how the benchmarks of \<open>src/test/apps\<close> use the timer.\<close>

theorem endTime_counts_again:
  "benchmark_time started paused ops ended =
     (\<Sum>(began, ended)\<leftarrow>(started, paused) # ops. milliseconds (ended - began)) +
     milliseconds (ended - fst (last ((started, paused) # ops)))"
proof -
  have "time_elapsed (fold time_operation ops t) = time_elapsed t + (\<Sum>(began, ended)\<leftarrow>ops. milliseconds (ended - began)) \<and>
      t1 (fold time_operation ops t) = (if ops = [] then t1 t else fst (last ops))" for t
    by (induction ops arbitrary: t) (auto simp: time_operation_def pauseTime_def resumeTime_def)
  then show ?thesis
    by (simp add: benchmark_time_def endTime_def pauseTime_def startTime_def Let_def)
qed

end
