(* ===== verification/Benchmarks.thy ===== *)
theory Benchmarks
  imports Startup Tracing
begin

text \<open>
  The benchmarks: \<open>wrf_analysis.cpp\<close> and \<open>montage_analysis.cpp\<close>, which replay a trace of file operations (\<open>src/test/apps\<close>), the
  loops of \<open>stacker_reader.cpp\<close>, and the sizes in \<open>basic.cpp\<close>. They are the users of the application library, so a
  replay composes its functions; how they time them is in \<open>Tracing\<close>. The variants whose names end in \<open>_pfs\<close> call
  the C library instead and are left out, as is what the programs print.

  The text of the trace, the clock, the addresses of streams and what fresh memory holds are arguments. \<open>getline\<close>
  gets the memory it needs.
\<close>

section \<open>The lines of a trace\<close>

abbreviation newline :: char where
  "newline \<equiv> CHR 0x0A"

definition getline :: "string \<Rightarrow> string \<times> string" where
  "getline text =
     (case dropWhile (\<lambda>c. c \<noteq> newline) text of
        [] \<Rightarrow> (text, [])
      | _ # rest \<Rightarrow> (takeWhile (\<lambda>c. c \<noteq> newline) text @ [newline], rest))"

text \<open>\<open>strtok\<close> with the delimiter \<open>,\<close>: the token and what is kept for the next call, or a null pointer.\<close>

definition strtok :: "string \<Rightarrow> (string \<times> string) option" where
  "strtok s =
     (case dropWhile (\<lambda>c. c = CHR '','') s of
        [] \<Rightarrow> None
      | c # cs \<Rightarrow> Some (takeWhile (\<lambda>c. c \<noteq> CHR '','') (c # cs), tl (dropWhile (\<lambda>c. c \<noteq> CHR '','') (c # cs))))"

text \<open>\<open>std::string\<close> and \<open>atol\<close> read what the pointer points to.\<close>

definition next_word :: "string \<Rightarrow> (string \<times> string) res" where
  "next_word s = (case strtok s of None \<Rightarrow> Inl (Undefined NullPointer) | Some x \<Rightarrow> Inr x)"

definition long_result :: "int \<Rightarrow> int res" where
  "long_result v = (if in_long v then Inr v else Inl (Undefined SignedOverflow))"

definition atol :: "string \<Rightarrow> int res" where
  "atol s =
     (let s = dropWhile is_space s;
          neg = (s \<noteq> [] \<and> hd s = CHR ''-'');
          s = (if s \<noteq> [] \<and> hd s \<in> {CHR ''-'', CHR ''+''} then tl s else s);
          n = digits_number (takeWhile is_digit s)
      in long_result (if neg then - n else n))"

record trace_op =
  operation :: string
  offset :: int
  request_size :: int

definition parse_line :: "int \<Rightarrow> string \<Rightarrow> trace_op res" where
  "parse_line multiplier line =
     rbind (next_word line) (\<lambda>(op, rest).
     rbind (next_word rest) (\<lambda>(word, rest).
     rbind (rbind (atol word) (\<lambda>v. long_result (v * multiplier))) (\<lambda>off.
     rbind (next_word rest) (\<lambda>(word, _).
     rbind (rbind (atol word) (\<lambda>v. long_result (v * multiplier))) (\<lambda>req.
       Inr \<lparr>operation = op, offset = off, request_size = req\<rparr>)))))"

text \<open>The loop over the lines of a trace; a line of less than four bytes ends it.\<close>

lemma getline_shorter:
  assumes "input \<noteq> []"
  shows "length (snd (getline input)) < length input"
proof (cases "dropWhile (\<lambda>c. c \<noteq> newline) input")
  case Nil
  then show ?thesis using assms by (simp add: getline_def del: dropWhile_eq_Nil_conv)
next
  case (Cons c cs)
  then have "length (c # cs) \<le> length input" using length_dropWhile_le[of "\<lambda>c. c \<noteq> newline" input] by simp
  then show ?thesis using Cons by (simp add: getline_def)
qed

function trace_loop :: "int \<Rightarrow> (trace_op \<Rightarrow> 's \<Rightarrow> 's res) \<Rightarrow> string \<Rightarrow> 's \<Rightarrow> 's res" where
  "trace_loop multiplier f text s =
     (if text = [] then Inr s
      else if length (fst (getline text)) < 4 then Inr s
      else rbind (parse_line multiplier (fst (getline text))) (\<lambda>op.
           rbind (f op s) (trace_loop multiplier f (snd (getline text)))))"
  by pat_completeness auto
termination by (relation "measure (\<lambda>(_, _, text, _). length text)") (auto intro: getline_shorter)

declare trace_loop.simps [simp del]

text \<open>The operations of a trace, as a list.\<close>

definition trace_ops :: "int \<Rightarrow> string \<Rightarrow> trace_op list res" where
  "trace_ops multiplier text = trace_loop multiplier (\<lambda>op ops. Inr (ops @ [op])) text []"

section \<open>Preparing the file\<close>

text \<open>The comparison converts the sum, a \<open>long\<close>, to \<open>size_t\<close>.\<close>

definition grow_size :: "trace_op \<Rightarrow> nat \<Rightarrow> nat res" where
  "grow_size op max_size =
     rbind (long_result (offset op + request_size op)) (\<lambda>n.
       Inr (if max_size < to_size_t n then to_size_t n else max_size))"

definition trace_size :: "string \<Rightarrow> nat res" where
  "trace_size text = rbind (trace_loop 1024 grow_size text 0) (\<lambda>m. Inr ((m + m mod MB) mod 2 ^ 64))"

text \<open>The format reads the numbers, of type \<open>size_t\<close>, as \<open>int\<close>.\<close>

definition dd_command :: "string \<Rightarrow> nat \<Rightarrow> string" where
  "dd_command file_name blocks =
     ''dd if=/dev/urandom of='' @ file_name @ '' bs='' @ int_string (to_int32 (int MB)) @ '' count='' @
     int_string (to_int32 (int blocks)) @ '' > /dev/null 2>&1''"

definition prepare_file :: "shell \<Rightarrow> int \<Rightarrow> string \<Rightarrow> nat \<Rightarrow> file_system \<Rightarrow> file_system res" where
  "prepare_file sh my_rank file_name max_size fs =
     (if my_rank = 0 \<and> um_find file_name fs = None
      then rbind (sprintf256 (dd_command file_name (max_size div MB))) (\<lambda>cmd. Inr (run_command sh cmd fs))
      else Inr fs)"

section \<open>The replay\<close>

record replay_state =
  rp_app :: app_state
  rp_file :: "nat option"
  rp_step :: nat

text \<open>What the operations take from outside: the clock and the address of a stream at every step, and what \<open>malloc\<close>
  returns for a size.\<close>

record replay_env =
  re_clock :: "nat \<Rightarrow> int"
  re_addr :: "nat \<Rightarrow> nat"
  re_malloc :: "nat \<Rightarrow> string"

definition replay_read ::
  "env \<Rightarrow> (nat \<Rightarrow> int) \<Rightarrow> nat \<Rightarrow> replay_env \<Rightarrow> trace_op \<Rightarrow> replay_state \<Rightarrow> replay_state res" where
  "replay_read e start me x op st =
     (let readbuf = re_malloc x (to_size_t (request_size op)) in
      rbind (initialised (rp_file st)) (\<lambda>fh.
      rbind (hfetch_fseek fh (offset op) SEEK_SET (rp_app st)) (\<lambda>(_, a).
      rbind (hfetch_fread e start me (re_clock x (rp_step st)) readbuf (to_size_t (request_size op)) 1 fh a) (\<lambda>(_, _, a).
        Inr (st\<lparr>rp_app := a\<rparr>)))))"

definition replay_op ::
  "env \<Rightarrow> (nat \<Rightarrow> int) \<Rightarrow> nat \<Rightarrow> replay_env \<Rightarrow> string \<Rightarrow> trace_op \<Rightarrow> replay_state \<Rightarrow> replay_state res" where
  "replay_op e start me x file_name op st =
     rbind (if operation op = ''FOPEN''
            then rbind (hfetch_fopen e start me (re_clock x (rp_step st)) (re_addr x (rp_step st)) 0 file_name ''r+'' (rp_app st))
                   (\<lambda>(fh, a). Inr (st\<lparr>rp_app := a, rp_file := Some fh\<rparr>))
            else if operation op = ''FCLOSE''
            then rbind (initialised (rp_file st)) (\<lambda>fh.
                 rbind (hfetch_fclose e start me (re_clock x (rp_step st)) fh (rp_app st)) (\<lambda>(_, a). Inr (st\<lparr>rp_app := a\<rparr>)))
            else if operation op = ''FWRITE'' then Inr st
            else if operation op = ''FREAD'' then replay_read e start me x op st
            else if operation op = ''LSEEK''
            then rbind (initialised (rp_file st)) (\<lambda>fh.
                 rbind (hfetch_fseek fh (offset op) SEEK_SET (rp_app st)) (\<lambda>(_, a). Inr (st\<lparr>rp_app := a\<rparr>)))
            else Inr st)
       (\<lambda>st. Inr (st\<lparr>rp_step := rp_step st + 1\<rparr>))"

definition replay ::
  "env \<Rightarrow> (nat \<Rightarrow> int) \<Rightarrow> nat \<Rightarrow> replay_env \<Rightarrow> string \<Rightarrow> string \<Rightarrow> app_state \<Rightarrow> app_state res" where
  "replay e start me x file_name text a =
     rbind (trace_loop 32 (replay_op e start me x file_name) text \<lparr>rp_app = a, rp_file = None, rp_step = 0\<rparr>)
       (\<lambda>st. Inr (rp_app st))"

section \<open>The other benchmarks\<close>

datatype reader_type = READ_ENTIRE_EACH_TS | READ_ENTIRE_SAME_TS | READ_ENTIRE_EVERY_STRIDE_TS | READ_ENTIRE_RANDOM_HALF_TS

definition reader_file_size :: "InputArgs \<Rightarrow> nat" where
  "reader_file_size args = (io_size_mb args * MB mod 2 ^ 64) div 2"

definition read_size :: nat where
  "read_size = 1 * 1024 * 1024"

definition read_iterations :: "reader_type \<Rightarrow> nat \<Rightarrow> nat" where
  "read_iterations ty file_size =
     (let n = file_size div read_size div 32
      in if ty = READ_ENTIRE_EACH_TS then (if n = 0 then 1 else n) else n)"

text \<open>\<open>size_t\<close> arithmetic; the remainder by zero is undefined.\<close>

definition size_mod :: "nat \<Rightarrow> nat \<Rightarrow> nat res" where
  "size_mod a b = (if b = 0 then Inl (Undefined DivisionByZero) else Inr (a mod b))"

text \<open>Where iteration \<open>j\<close> seeks, if it does; \<open>rnd\<close> is the number \<open>rand\<close> returned.\<close>

definition reader_seek :: "reader_type \<Rightarrow> nat \<Rightarrow> nat \<Rightarrow> nat \<Rightarrow> nat \<Rightarrow> int option res" where
  "reader_seek ty my_rank iterations rnd j =
     (case ty of
        READ_ENTIRE_EACH_TS \<Rightarrow> Inr None
      | READ_ENTIRE_EVERY_STRIDE_TS \<Rightarrow> Inr (Some (int ((j + my_rank mod 2) * read_size)))
      | READ_ENTIRE_SAME_TS \<Rightarrow>
          rbind (size_mod my_rank (to_size_t (int iterations - 1))) (\<lambda>k. Inr (Some (to_long (int (k * read_size)))))
      | READ_ENTIRE_RANDOM_HALF_TS \<Rightarrow>
          rbind (size_mod rnd (to_size_t (int iterations - 1))) (\<lambda>k. Inr (Some (to_long (int (k * read_size))))))"

text \<open>The reads of one process on the file it opened; \<open>n\<close> counts the reads, for the clock and for \<open>rand\<close>.\<close>

definition reader_step ::
  "env \<Rightarrow> (nat \<Rightarrow> int) \<Rightarrow> nat \<Rightarrow> replay_env \<Rightarrow> (nat \<Rightarrow> nat) \<Rightarrow> reader_type \<Rightarrow> nat \<Rightarrow> nat \<Rightarrow> nat \<Rightarrow>
   nat \<Rightarrow> nat \<times> app_state \<Rightarrow> (nat \<times> app_state) res" where
  "reader_step e start me x rnd ty my_rank file_size fh j st =
     (let (n, a) = st; buf = re_malloc x read_size in
      rbind (reader_seek ty my_rank (read_iterations ty file_size) (rnd n) j) (\<lambda>pos.
      rbind (case pos of None \<Rightarrow> Inr a | Some p \<Rightarrow> rbind (hfetch_fseek fh p SEEK_SET a) (\<lambda>(_, a). Inr a)) (\<lambda>a.
      rbind (hfetch_fread e start me (re_clock x n) buf read_size 1 fh a) (\<lambda>(_, _, a). Inr (n + 1, a)))))"

definition reader_timestep ::
  "env \<Rightarrow> (nat \<Rightarrow> int) \<Rightarrow> nat \<Rightarrow> replay_env \<Rightarrow> (nat \<Rightarrow> nat) \<Rightarrow> reader_type \<Rightarrow> nat \<Rightarrow> nat \<Rightarrow> nat \<Rightarrow>
   nat \<Rightarrow> nat \<times> app_state \<Rightarrow> (nat \<times> app_state) res" where
  "reader_timestep e start me x rnd ty my_rank file_size fh i st =
     rbind (rfold (reader_step e start me x rnd ty my_rank file_size fh) [0..<read_iterations ty file_size] st) (\<lambda>(n, a).
     rbind (hfetch_fseek fh 0 SEEK_SET a) (\<lambda>(_, a). Inr (n, a)))"

definition reader_run ::
  "env \<Rightarrow> (nat \<Rightarrow> int) \<Rightarrow> nat \<Rightarrow> replay_env \<Rightarrow> (nat \<Rightarrow> nat) \<Rightarrow> reader_type \<Rightarrow> nat \<Rightarrow> InputArgs \<Rightarrow> nat \<Rightarrow> app_state \<Rightarrow> app_state res" where
  "reader_run e start me x rnd ty my_rank args fh a =
     rbind (rfold (reader_timestep e start me x rnd ty my_rank (reader_file_size args) fh) [0..<iteration args] (0, a))
       (\<lambda>(_, a). Inr a)"

text \<open>\<open>basic.cpp\<close>: the size of the file of a rank, in bytes, and the number of blocks \<open>dd\<close> writes.\<close>

definition basic_size :: "InputArgs \<Rightarrow> nat \<Rightarrow> nat res" where
  "basic_size args ranks = (if ranks = 0 then Inl (Undefined DivisionByZero) else Inr (io_size_mb args div ranks))"

definition basic_blocks :: "nat \<Rightarrow> nat" where
  "basic_blocks my_rank_size = my_rank_size div MB"

section \<open>Reading a trace\<close>

text \<open>A loop over the lines is a loop over the operations.\<close>

lemma trace_loop_split:
  "trace_loop m (\<lambda>op ops. Inr (ops @ [op])) input acc = Inr r \<Longrightarrow>
    \<exists>ops. r = acc @ ops \<and> (\<forall>f s. trace_loop m f input (s :: 's) = rfold f ops s)"
proof (induction "length input" arbitrary: input acc rule: less_induct)
  case less
  show ?case
  proof (cases "input = [] \<or> length (fst (getline input)) < 4")
    case True
    then show ?thesis using less.prems by (auto simp: trace_loop.simps[of _ _ input] split: if_splits intro!: exI[of _ "[]"])
  next
    case False
    then obtain op where op: "parse_line m (fst (getline input)) = Inr op"
      "trace_loop m (\<lambda>op ops. Inr (ops @ [op])) (snd (getline input)) (acc @ [op]) = Inr r"
      using less.prems by (auto simp: trace_loop.simps[of _ _ input] rbind_Inr_iff)
    from less.hyps[OF _ this(2)] False getline_shorter obtain ops where ops: "r = acc @ op # ops"
      "\<forall>f s. trace_loop m f (snd (getline input)) (s :: 's) = rfold f ops s" by fastforce
    have "trace_loop m f input s = rfold f (op # ops) s" for f and s :: 's
      using False op(1) ops(2) by (simp add: trace_loop.simps[of _ _ input] cong: rbind_cong)
    then show ?thesis using ops(1) by (intro exI[of _ "op # ops"]) simp
  qed
qed

lemma trace_loop_ops: "trace_ops m input = Inr ops \<Longrightarrow> trace_loop m f input s = rfold f ops s"
  using trace_loop_split[of m input "[]" ops] by (auto simp: trace_ops_def)

text \<open>A line as it is written.\<close>

definition print_line :: "string \<times> int \<times> int \<Rightarrow> string" where
  "print_line = (\<lambda>(op, off, req). op @ '','' @ int_string off @ '','' @ int_string req @ [newline])"

definition scaled :: "int \<Rightarrow> string \<times> int \<times> int \<Rightarrow> trace_op" where
  "scaled m = (\<lambda>(op, off, req). \<lparr>operation = op, offset = off * m, request_size = req * m\<rparr>)"

definition line_ok :: "int \<Rightarrow> string \<times> int \<times> int \<Rightarrow> bool" where
  "line_ok m = (\<lambda>(op, off, req). op \<noteq> [] \<and> CHR '','' \<notin> set op \<and> newline \<notin> set op \<and>
     in_long off \<and> in_long req \<and> in_long (off * m) \<and> in_long (req * m))"

lemma to_string_is_digit: "c \<in> set (to_string n) \<Longrightarrow> is_digit c"
  using to_string_digits[of c n] by (simp add: is_digit_def)

lemma digits_number_to_string: "digits_number (to_string n) = int n"
proof (induction n rule: to_string.induct)
  case (1 n)
  show ?case
  proof (cases "n < 10")
    case True
    then show ?thesis by (subst to_string.simps) (simp add: digits_number_def)
  next
    case False
    with 1 have "digits_number (to_string (n div 10)) = int (n div 10)" by simp
    moreover have "int n = int (n div 10) * 10 + int (n mod 10)"
      by (metis div_mult_mod_eq of_nat_add of_nat_mult of_nat_numeral)
    ultimately show ?thesis using False by (subst to_string.simps) (simp add: digits_number_def)
  qed
qed

lemma digit_chars: "\<not> is_digit CHR ''-''" "\<not> is_space CHR ''-''" "is_digit c \<Longrightarrow> \<not> is_space c \<and> c \<noteq> CHR ''-'' \<and> c \<noteq> CHR ''+''"
  by (auto simp: is_digit_def is_space_def)

lemma int_string_chars: "c \<in> set (int_string v) \<Longrightarrow> is_digit c \<or> c = CHR ''-''"
  using to_string_is_digit by (auto simp: int_string_def split: if_splits)

lemma int_string_plain: "CHR '','' \<notin> set (int_string v)" "newline \<notin> set (int_string v)" "int_string v \<noteq> []"
  using int_string_chars[of "CHR '',''" v] int_string_chars[of newline v] to_string_nonempty
  by (auto simp: is_digit_def int_string_def)

lemma atol_int_string:
  assumes "w = [] \<or> \<not> is_digit (hd w)"
  shows "atol (int_string v @ w) = long_result v"
proof -
  let ?n = "nat \<bar>v\<bar>"
  have digits: "takeWhile is_digit (to_string ?n @ w) = to_string ?n"
    using assms by (cases w) (auto simp: takeWhile_append2 to_string_is_digit takeWhile_tail)
  obtain d ds where d: "to_string ?n = d # ds" "is_digit d"
    using to_string_nonempty to_string_is_digit by (metis list.exhaust list.set_intros(1))
  then have head: "dropWhile is_space (to_string ?n @ w) = to_string ?n @ w" "hd (to_string ?n @ w) \<noteq> CHR ''-''"
    "hd (to_string ?n @ w) \<noteq> CHR ''+''"
    using digit_chars(3)[OF d(2)] by simp_all
  show ?thesis
  proof (cases "v < 0")
    case True
    then have n: "?n = nat (- v)" by simp
    have "int_string v = CHR ''-'' # to_string (nat (- v))" using True by (simp add: int_string_def)
    then show ?thesis
      using True by (simp add: atol_def digit_chars(2) digits[unfolded n] digits_number_to_string)
  next
    case False
    then have "int_string v = to_string ?n" by (simp add: int_string_def)
    moreover have "?n = nat v" using False by simp
    ultimately show ?thesis
      using False head to_string_nonempty[of "nat v"] digits by (simp add: atol_def digits_number_to_string)
  qed
qed

lemma next_word_run:
  assumes "w \<noteq> []" and "CHR '','' \<notin> set w"
  shows "next_word (w @ CHR '','' # rest) = Inr (w, rest)" and "next_word w = Inr (w, [])"
proof -
  obtain c cs where w: "w = c # cs" "c \<noteq> CHR '',''" using assms by (cases w) auto
  have all: "\<forall>x\<in>set w. x \<noteq> CHR '',''" using assms(2) by auto
  have "takeWhile (\<lambda>x. x \<noteq> CHR '','') (w @ CHR '','' # rest) = w" "dropWhile (\<lambda>x. x \<noteq> CHR '','') (w @ CHR '','' # rest) = CHR '','' # rest"
    "takeWhile (\<lambda>x. x \<noteq> CHR '','') w = w" "dropWhile (\<lambda>x. x \<noteq> CHR '','') w = []"
    using all by (simp_all add: takeWhile_append2 dropWhile_append2 takeWhile_eq_all_conv)
  moreover have "dropWhile (\<lambda>x. x \<noteq> CHR '','') cs = []" using all w by (simp add: dropWhile_eq_Nil_conv)
  ultimately show "next_word (w @ CHR '','' # rest) = Inr (w, rest)" "next_word w = Inr (w, [])"
    using w by (simp_all add: next_word_def strtok_def del: dropWhile_eq_Nil_conv)
qed

lemma getline_run: "newline \<notin> set l \<Longrightarrow> getline (l @ newline # rest) = (l @ [newline], rest)"
proof -
  assume "newline \<notin> set l"
  then have "\<forall>x\<in>set l. x \<noteq> newline" by auto
  then show ?thesis by (simp add: getline_def takeWhile_append2 dropWhile_append2)
qed

lemma parse_line_run:
  assumes "line_ok m l"
  shows "parse_line m (print_line l) = Inr (scaled m l)"
proof -
  obtain op off req where l: "l = (op, off, req)" by (cases l)
  have ok: "op \<noteq> []" "CHR '','' \<notin> set op" "in_long off" "in_long req" "in_long (off * m)" "in_long (req * m)"
    using assms by (auto simp: line_ok_def l)
  have "CHR '','' \<notin> set (int_string req @ [newline])" using int_string_plain(1) by simp
  then have "next_word (int_string req @ [newline]) = Inr (int_string req @ [newline], [])"
    by (intro next_word_run(2)) simp_all
  moreover have "atol (int_string req @ [newline]) = Inr req" "atol (int_string off) = Inr off"
    using atol_int_string[of "[newline]" req] atol_int_string[of "[]" off] ok(3,4) by (simp_all add: is_digit_def long_result_def)
  ultimately show ?thesis
    using ok by (simp add: parse_line_def print_line_def l next_word_run(1) int_string_plain long_result_def scaled_def)
qed

lemma read_lines:
  "\<forall>l\<in>set ls. line_ok m l \<Longrightarrow> trace_loop m f (concat (map print_line ls)) s = rfold f (map (scaled m) ls) s"
proof (induction ls arbitrary: s)
  case Nil
  then show ?case by (simp add: trace_loop.simps)
next
  case (Cons l ls)
  obtain op off req where l: "l = (op, off, req)" by (cases l)
  let ?w = "op @ '','' @ int_string off @ '','' @ int_string req"
  have w: "print_line l = ?w @ [newline]" by (simp add: print_line_def l)
  have "newline \<notin> set ?w" using Cons.prems int_string_plain(2) by (simp add: line_ok_def l)
  from getline_run[OF this, of "concat (map print_line ls)"]
  have g: "getline (concat (map print_line (l # ls))) = (print_line l, concat (map print_line ls))" by (simp add: w)
  have "length op > 0" "length (int_string off) > 0" "length (int_string req) > 0"
    using Cons.prems int_string_plain(3) by (auto simp: line_ok_def l)
  then have long: "\<not> length (print_line l) < 4" "concat (map print_line (l # ls)) \<noteq> []" by (simp_all add: w)
  have "trace_loop m f (concat (map print_line (l # ls))) s =
      rbind (parse_line m (print_line l)) (\<lambda>op. rbind (f op s) (trace_loop m f (concat (map print_line ls))))"
    by (subst trace_loop.simps) (simp only: long if_False g fst_conv snd_conv)
  moreover have "parse_line m (print_line l) = Inr (scaled m l)" using Cons.prems by (simp add: parse_line_run)
  moreover have "trace_loop m f (concat (map print_line ls)) = rfold f (map (scaled m) ls)"
    using Cons by (simp add: fun_eq_iff)
  ultimately show ?case by simp
qed

section \<open>States up to the positions of their streams\<close>

text \<open>Two outcomes are related when they are the same fault or related values.\<close>

lemma rel_rbind:
  assumes "rel_sum (=) R m m'" and "\<And>x y. R x y \<Longrightarrow> rel_sum (=) S (f x) (f' y)"
  shows "rel_sum (=) S (rbind m f) (rbind m' f')"
  using assms by (cases m; cases m') auto

lemma rel_rbind_pair:
  assumes "rel_sum (=) (rel_prod Q R) m m'" and "\<And>u v a b. Q u v \<Longrightarrow> R a b \<Longrightarrow> rel_sum (=) S (f u a) (f' v b)"
  shows "rel_sum (=) S (rbind m (\<lambda>(u, a). f u a)) (rbind m' (\<lambda>(v, b). f' v b))"
  using assms by (cases m; cases m') auto

lemma rel_rbind_same: "(\<And>x. m = Inr x \<Longrightarrow> rel_sum (=) S (f x) (f' x)) \<Longrightarrow> rel_sum (=) S (rbind m f) (rbind m f')"
  by (cases m) auto

lemma rel_rfold:
  assumes "list_all2 T xs ys" and "R s t" and "\<And>x y s t. T x y \<Longrightarrow> R s t \<Longrightarrow> rel_sum (=) R (f x s) (g y t)"
  shows "rel_sum (=) R (rfold f xs s) (rfold g ys t)"
  using assms(1,2) by (induction arbitrary: s t rule: list_all2_induct) (auto intro: rel_rbind assms(3))

definition rewound :: "stream \<Rightarrow> stream" where
  "rewound s = s\<lparr>st_pos := 0\<rparr>"

definition unpositioned :: "app_state \<Rightarrow> app_state" where
  "unpositioned a = a\<lparr>opened := map (apsnd rewound) (opened a)\<rparr>"

definition same_but_positions :: "app_state \<Rightarrow> app_state \<Rightarrow> bool" where
  "same_but_positions a b \<longleftrightarrow> unpositioned a = unpositioned b"

lemma same_parts:
  assumes "same_but_positions a b"
  shows "conf b = conf a" "fp_map b = fp_map a" "app_events b = app_events a" "app_h b = app_h a" "disk b = disk a"
    "map (apsnd rewound) (opened b) = map (apsnd rewound) (opened a)"
  using assms by (cases a; cases b; simp add: same_but_positions_def unpositioned_def disk_def)+

lemma same_intro:
  assumes "conf b = conf a" "fp_map b = fp_map a" "app_events b = app_events a" "app_h b = app_h a"
    "map (apsnd rewound) (opened b) = map (apsnd rewound) (opened a)"
  shows "same_but_positions a b"
  using assms by (cases a; cases b; simp add: same_but_positions_def unpositioned_def)

lemma um_find_map: "um_find fh (map (apsnd f) os) = map_option f (um_find fh os)"
  by (induction os) (auto simp: um_find_def)

lemma um_erase_map: "map (apsnd f) (um_erase fh os) = um_erase fh (map (apsnd f) os)"
  by (induction os) (auto simp: um_erase_def)

lemma same_stream:
  assumes "same_but_positions a b"
  shows "rel_sum (=) (\<lambda>s s'. rewound s = rewound s') (stream_of fh a) (stream_of fh b)"
proof -
  have "map_option rewound (um_find fh (opened a)) = map_option rewound (um_find fh (opened b))"
    using same_parts(6)[OF assms] by (simp flip: um_find_map)
  then show ?thesis by (cases "um_find fh (opened a)"; cases "um_find fh (opened b)") (auto simp: stream_of_def)
qed

lemma same_set_stream:
  assumes "same_but_positions a b" and "rewound s = rewound s'"
  shows "same_but_positions (set_stream fh s a) (set_stream fh s' b)"
proof -
  have eq: "um_insert fh x (um_erase fh os) = (fh, x) # um_erase fh os" for x :: stream and os
    using um_find_erase[of fh fh os] by (simp add: um_insert_def um_find_def)
  show ?thesis
    using same_parts[OF assms(1)] assms(2) by (intro same_intro) (simp_all add: set_stream_def eq um_erase_map)
qed

lemma same_push:
  assumes "same_but_positions a b"
  shows "rel_sum (=) (rel_prod (=) same_but_positions) (push_file_event e start me now ty f seg a) (push_file_event e start me now ty f seg b)"
  unfolding push_file_event_def same_parts(3)[OF assms]
  by (intro rel_rbind_same) (use same_parts[OF assms] in \<open>auto intro!: same_intro split: prod.splits\<close>)

lemma same_seek:
  assumes "rewound s = rewound s'"
  shows "rewound (snd (c_fseek offs origin fs s)) = rewound (snd (c_fseek offs' origin' fs' s'))"
  using assms by (cases s; cases s'; simp add: c_fseek_def rewound_def Let_def)

lemma fseek_related:
  assumes "same_but_positions a b"
  shows "rel_sum (=) (rel_prod (\<lambda>_ _. True) same_but_positions) (hfetch_fseek fh off1 SEEK_SET a) (hfetch_fseek fh off2 SEEK_SET b)"
  unfolding hfetch_fseek_def
proof (rule rel_rbind[OF same_stream[OF assms]])
  fix s s' assume "rewound s = rewound s'"
  then show "rel_sum (=) (rel_prod (\<lambda>_ _. True) same_but_positions)
      (let (r, s) = c_fseek off1 SEEK_SET (disk a) s in Inr (r, set_stream fh s a))
      (let (r, s) = c_fseek off2 SEEK_SET (disk b) s' in Inr (r, set_stream fh s b))"
    using same_set_stream[OF assms same_seek] by (simp add: Let_def split_beta)
qed

lemma push_related:
  assumes "same_but_positions a b"
  shows "rel_sum (=) (rel_prod (=) same_but_positions)
    (rbind (push_file_event e start me now ty f seg a) (\<lambda>(_, a). Inr (r, a)))
    (rbind (push_file_event e start me now ty f seg b) (\<lambda>(_, b). Inr (r, b)))"
  by (rule rel_rbind[OF same_push[OF assms]]) auto

lemma fopen_related:
  assumes "same_but_positions a b"
  shows "rel_sum (=) (rel_prod (=) same_but_positions)
    (hfetch_fopen e start me now addr p f mode a) (hfetch_fopen e start me now addr p f mode b)"
proof (cases "c_fopen addr p f mode (disk a)")
  case (Pair r fs)
  show ?thesis
  proof (cases r)
    case None
    then show ?thesis using Pair same_parts(5)[OF assms] by (simp add: hfetch_fopen_def)
  next
    case (Some x)
    obtain fh s where x: "x = (fh, s)" by (cases x)
    have disk: "same_but_positions (set_disk fs a) (set_disk fs b)"
      using same_parts[OF assms] by (intro same_intro) (simp_all add: set_disk_def)
    have "same_but_positions ((set_stream fh s' (set_disk fs a))\<lparr>fp_map := m\<rparr>) ((set_stream fh s' (set_disk fs b))\<lparr>fp_map := m\<rparr>)"
      for s' m
      using same_parts[OF same_set_stream[OF disk refl]] by (intro same_intro) simp_all
    note opened = push_related[OF this]
    have "fp_map (set_stream fh s' (set_disk fs c)) = fp_map c" for s' c by (simp add: set_stream_def set_disk_def)
    then show ?thesis
      using Pair Some x same_parts(2,5)[OF assms] by (simp add: hfetch_fopen_def Let_def opened)
  qed
qed

lemma fclose_related:
  assumes "same_but_positions a b"
  shows "rel_sum (=) (rel_prod (=) same_but_positions) (hfetch_fclose e start me now fh a) (hfetch_fclose e start me now fh b)"
proof (cases "MetadataManager_GetFilename fh (fp_map a)")
  case (Pair known f)
  show ?thesis
  proof (cases known)
    case False
    then show ?thesis using Pair assms same_parts(2)[OF assms] by (simp add: hfetch_fclose_def)
  next
    case True
    have "same_but_positions (a\<lparr>opened := um_erase fh (opened a), fp_map := m\<rparr>) (b\<lparr>opened := um_erase fh (opened b), fp_map := m\<rparr>)"
      for m
      using same_parts[OF assms] by (intro same_intro) (simp_all add: um_erase_map)
    note closed = push_related[OF this]
    have run: "hfetch_fclose e start me now fh c = rbind (stream_of fh c) (\<lambda>s.
        rbind (push_file_event e start me now FILE_CLOSE f
            \<lparr>seg_start = 0, seg_end = int (length (file_content (st_path s) (disk a))) - 1\<rparr>
            (c\<lparr>opened := um_erase fh (opened c), fp_map := snd (MetadataManager_Delete fh (fp_map a))\<rparr>))
          (\<lambda>(_, c). Inr (0, c)))"
      if "fp_map c = fp_map a" "disk c = disk a" for c
      using Pair True that by (simp add: hfetch_fclose_def Let_def c_fseek_def c_ftell_def)
    have path: "st_path s = st_path s'" if "rewound s = rewound s'" for s s'
      using that by (cases s; cases s') (simp add: rewound_def)
    show ?thesis
      unfolding run[OF refl refl] run[OF same_parts(2,5)[OF assms]]
    proof (rule rel_rbind[OF same_stream[OF assms]])
      fix s s' assume "rewound s = rewound s'"
      from path[OF this] show "rel_sum (=) (rel_prod (=) same_but_positions)
          (rbind (push_file_event e start me now FILE_CLOSE f
              \<lparr>seg_start = 0, seg_end = int (length (file_content (st_path s) (disk a))) - 1\<rparr>
              (a\<lparr>opened := um_erase fh (opened a), fp_map := snd (MetadataManager_Delete fh (fp_map a))\<rparr>))
            (\<lambda>(_, c). Inr (0, c)))
          (rbind (push_file_event e start me now FILE_CLOSE f
              \<lparr>seg_start = 0, seg_end = int (length (file_content (st_path s') (disk a))) - 1\<rparr>
              (b\<lparr>opened := um_erase fh (opened b), fp_map := snd (MetadataManager_Delete fh (fp_map a))\<rparr>))
            (\<lambda>(_, c). Inr (0, c)))"
        by (simp add: closed)
    qed
  qed
qed

text \<open>\<open>fread\<close> begins with seeks to its own idea of the offset, which is always 0, and goes on like this.\<close>

definition fread_rewound ::
  "env \<Rightarrow> (nat \<Rightarrow> int) \<Rightarrow> nat \<Rightarrow> int \<Rightarrow> string \<Rightarrow> nat \<Rightarrow> nat \<Rightarrow> nat \<Rightarrow> string \<Rightarrow> stream \<Rightarrow> app_state \<Rightarrow> (nat \<times> string \<times> app_state) res" where
  "fread_rewound e start me now ptr n m fh f s a =
     (let seg = \<lparr>seg_start = 0, seg_end = to_long (int n * int m - 1)\<rparr> in
      rbind (push_file_event e start me now FILE_READ f seg (set_stream fh s a)) (\<lambda>(ev, a).
      rbind (Layer_LAST (layers e)) (\<lambda>l.
      rbind (GetDataLocation e me \<lparr>pf_filename = ev_filename ev, pf_segment = seg, pf_layer = l, pf_data = []\<rparr> (aud (app_h a)))
        (\<lambda>datas.
      rbind (if datas \<noteq> []
             then rbind (rfold (fread_location e me l (io (app_h a))) datas (ptr, 0, conf a))
                    (\<lambda>(ptr, _, k). Inr (ptr, a\<lparr>conf := k\<rparr>))
             else rbind (c_fread ptr n m (disk a) s) (\<lambda>(ptr, s).
                    Inr (ptr, (set_stream fh s a)\<lparr>conf := (conf a)\<lparr>total := total (conf a) + 1\<rparr>\<rparr>)))
        (\<lambda>(ptr, a). Inr (to_size_t (int n * int m), ptr, a))))))"

lemma fread_rewinds:
  assumes "MetadataManager_GetFilename fh (fp_map a) = (True, f)"
  shows "hfetch_fread e start me now ptr n m fh a =
    rbind (stream_of fh a) (\<lambda>s. fread_rewound e start me now ptr n m fh f (rewound s) a)"
  using assms
  by (simp add: hfetch_fread_def fread_rewound_def Let_def c_fseek_def rewound_def)

lemma fread_rewound_related:
  assumes "same_but_positions a b"
  shows "rel_sum (=) (rel_prod (=) (rel_prod (=) same_but_positions))
    (fread_rewound e start me now ptr n m fh f s a) (fread_rewound e start me now ptr n m fh f s b)"
  unfolding fread_rewound_def Let_def
proof (rule rel_rbind_pair[OF same_push[OF same_set_stream[OF assms refl]]], hypsubst, rule rel_rbind_same)
  fix ev a b l assume ab: "same_but_positions a b"
  note parts = same_parts[OF ab]
  let ?seg = "\<lparr>seg_start = 0, seg_end = to_long (int n * int m - 1)\<rparr>"
  let ?locs = "\<lambda>c. GetDataLocation e me \<lparr>pf_filename = ev_filename ev, pf_segment = ?seg, pf_layer = l, pf_data = []\<rparr> (aud (app_h c))"
  let ?read = "\<lambda>c datas. if datas \<noteq> []
      then rbind (rfold (fread_location e me l (io (app_h c))) datas (ptr, 0, conf c)) (\<lambda>(ptr, _, k). Inr (ptr, c\<lparr>conf := k\<rparr>))
      else rbind (c_fread ptr n m (disk c) s) (\<lambda>(ptr, s).
             Inr (ptr, (set_stream fh s c)\<lparr>conf := (conf c)\<lparr>total := total (conf c) + 1\<rparr>\<rparr>))"
  have conf: "same_but_positions (a\<lparr>conf := k\<rparr>) (b\<lparr>conf := k\<rparr>)" for k
    using parts by (intro same_intro) simp_all
  have stream: "same_but_positions ((set_stream fh x a)\<lparr>conf := k\<rparr>) ((set_stream fh x b)\<lparr>conf := k\<rparr>)" for x k
    using same_parts[OF same_set_stream[OF ab refl, of fh x]] by (intro same_intro) simp_all
  have "rel_sum (=) (rel_prod (=) same_but_positions) (?read a datas) (?read b datas)" for datas
    unfolding parts(1,4,5) by (auto intro!: rel_rbind_same conf stream)
  then show "rel_sum (=) (rel_prod (=) (rel_prod (=) same_but_positions))
      (rbind (?locs a) (\<lambda>datas. rbind (?read a datas) (\<lambda>(ptr, c). Inr (to_size_t (int n * int m), ptr, c))))
      (rbind (?locs b) (\<lambda>datas. rbind (?read b datas) (\<lambda>(ptr, c). Inr (to_size_t (int n * int m), ptr, c))))"
    unfolding parts(4) by (intro rel_rbind_same rel_rbind) auto
qed

lemma fread_related:
  assumes "same_but_positions a b"
  shows "rel_sum (=) (rel_prod (=) (rel_prod (=) same_but_positions))
    (hfetch_fread e start me now ptr n m fh a) (hfetch_fread e start me now ptr n m fh b)"
proof (cases "MetadataManager_GetFilename fh (fp_map a)")
  case (Pair known f)
  show ?thesis
  proof (cases known)
    case False
    then show ?thesis using Pair assms same_parts(2)[OF assms] by (simp add: hfetch_fread_def)
  next
    case True
    have "MetadataManager_GetFilename fh (fp_map a) = (True, f)" "MetadataManager_GetFilename fh (fp_map b) = (True, f)"
      using Pair True same_parts(2)[OF assms] by simp_all
    note run = this[THEN fread_rewinds]
    show ?thesis
      unfolding run by (rule rel_rbind[OF same_stream[OF assms]]) (simp add: fread_rewound_related[OF assms])
  qed
qed

section \<open>Replays\<close>

text \<open>Operations that differ in their offsets.\<close>

definition same_but_offset :: "trace_op \<Rightarrow> trace_op \<Rightarrow> bool" where
  "same_but_offset o1 o2 \<longleftrightarrow> operation o1 = operation o2 \<and> request_size o1 = request_size o2"

definition same_replay :: "replay_state \<Rightarrow> replay_state \<Rightarrow> bool" where
  "same_replay s t \<longleftrightarrow> same_but_positions (rp_app s) (rp_app t) \<and> rp_file s = rp_file t \<and> rp_step s = rp_step t"

lemma replay_read_related:
  assumes "same_but_offset o1 o2" and "same_replay s t"
  shows "rel_sum (=) same_replay (replay_read e start me x o1 s) (replay_read e start me x o2 t)"
proof -
  have ops: "request_size o2 = request_size o1" and st: "same_but_positions (rp_app s) (rp_app t)" "rp_file t = rp_file s" "rp_step t = rp_step s"
    using assms by (simp_all add: same_but_offset_def same_replay_def)
  show ?thesis
    unfolding replay_read_def Let_def ops st(2,3)
  proof (rule rel_rbind_same, rule rel_rbind_pair[OF fseek_related[OF st(1)]])
    fix fh a b assume "same_but_positions a b"
    from fread_related[OF this] show "rel_sum (=) same_replay
        (rbind (hfetch_fread e start me (re_clock x (rp_step s)) (re_malloc x (to_size_t (request_size o1)))
            (to_size_t (request_size o1)) 1 fh a) (\<lambda>(_, _, a). Inr (s\<lparr>rp_app := a\<rparr>)))
        (rbind (hfetch_fread e start me (re_clock x (rp_step s)) (re_malloc x (to_size_t (request_size o1)))
            (to_size_t (request_size o1)) 1 fh b) (\<lambda>(_, _, a). Inr (t\<lparr>rp_app := a\<rparr>)))"
      by (rule rel_rbind) (auto simp: same_replay_def st)
  qed
qed

lemma replay_op_related:
  assumes "same_but_offset o1 o2" and "same_replay s t"
  shows "rel_sum (=) same_replay (replay_op e start me x f o1 s) (replay_op e start me x f o2 t)"
proof -
  have op: "operation o2 = operation o1" and st: "same_but_positions (rp_app s) (rp_app t)" "rp_file t = rp_file s" "rp_step t = rp_step s"
    using assms by (simp_all add: same_but_offset_def same_replay_def)
  have fopen: "rel_sum (=) same_replay
      (rbind (hfetch_fopen e start me now addr p f mode (rp_app s)) (\<lambda>(fh, a). Inr (s\<lparr>rp_app := a, rp_file := Some fh\<rparr>)))
      (rbind (hfetch_fopen e start me now addr p f mode (rp_app t)) (\<lambda>(fh, a). Inr (t\<lparr>rp_app := a, rp_file := Some fh\<rparr>)))"
    for now addr p mode
    by (rule rel_rbind[OF fopen_related[OF st(1)]]) (auto simp: same_replay_def st)
  have fclose: "rel_sum (=) same_replay
      (rbind (initialised (rp_file s)) (\<lambda>fh. rbind (hfetch_fclose e start me now fh (rp_app s)) (\<lambda>(_, a). Inr (s\<lparr>rp_app := a\<rparr>))))
      (rbind (initialised (rp_file s)) (\<lambda>fh. rbind (hfetch_fclose e start me now fh (rp_app t)) (\<lambda>(_, a). Inr (t\<lparr>rp_app := a\<rparr>))))"
    for now
    by (intro rel_rbind_same rel_rbind[OF fclose_related[OF st(1)]]) (auto simp: same_replay_def st)
  have lseek: "rel_sum (=) same_replay
      (rbind (initialised (rp_file s)) (\<lambda>fh. rbind (hfetch_fseek fh off1 SEEK_SET (rp_app s)) (\<lambda>(_, a). Inr (s\<lparr>rp_app := a\<rparr>))))
      (rbind (initialised (rp_file s)) (\<lambda>fh. rbind (hfetch_fseek fh off2 SEEK_SET (rp_app t)) (\<lambda>(_, a). Inr (t\<lparr>rp_app := a\<rparr>))))"
    for off1 off2
    by (intro rel_rbind_same rel_rbind[OF fseek_related[OF st(1)]]) (auto simp: same_replay_def st)
  show ?thesis
    unfolding replay_op_def op st(2,3)
    by (rule rel_rbind[where R = same_replay])
      (use fopen fclose lseek replay_read_related[OF assms] assms(2) in \<open>auto simp: same_replay_def\<close>)
qed

section \<open>A shell that knows dd\<close>

text \<open>What the manual of \<open>dd\<close> promises.\<close>

definition dd_documented :: "shell \<Rightarrow> bool" where
  "dd_documented sh \<longleftrightarrow>
     (\<forall>name n fs. plain_name name \<longrightarrow> n < 2 ^ 31 \<longrightarrow>
        (\<exists>c. length c = n * MB \<and> sh (dd_command name n) fs = fs_put name c fs))"

lemma dd_command_small:
  assumes "length name < 150" and "n < 2 ^ 31"
  shows "length (dd_command name n) < 256"
proof -
  have "n < 10 ^ 10" using assms(2) by simp
  from length_to_string[OF this] have "length (to_string n) \<le> 10" by simp
  moreover have "length (to_string MB) \<le> 7" using length_to_string[of MB 7] by (simp add: MB_def)
  ultimately show ?thesis using assms by (simp add: dd_command_def int_string_def to_int32_id MB_def)
qed

text \<open>A shell that does what is documented, and nothing else.\<close>

definition example_dd :: shell where
  "example_dd cmd fs =
     (let r = drop 22 cmd; name = takeWhile (\<lambda>c. c \<noteq> CHR '' '') r;
          digits = takeWhile is_digit (drop (length name + length ('' bs='' @ int_string (to_int32 (int MB)) @ '' count='')) r)
      in fs_put name (replicate (nat (digits_number digits) * MB) CHR ''x'') fs)"

lemma plain_no_space: "plain_name name \<Longrightarrow> c \<in> set name \<Longrightarrow> c \<noteq> CHR '' ''"
  by (auto simp: plain_name_def list_all_iff)

lemma example_dd_documented: "dd_documented example_dd"
  unfolding dd_documented_def
proof (intro allI impI)
  fix name n fs assume name: "plain_name name" and n: "n < (2 :: nat) ^ 31"
  let ?mid = "'' bs='' @ int_string (to_int32 (int MB)) @ '' count=''"
  let ?rest = "?mid @ to_string n @ '' > /dev/null 2>&1''"
  have cmd: "drop 22 (dd_command name n) = name @ ?rest"
    using n by (simp add: dd_command_def int_string_def to_int32_id)
  have "takeWhile (\<lambda>c. c \<noteq> CHR '' '') (name @ ?rest) = name"
    using plain_no_space[OF name] by (simp add: takeWhile_append2)
  moreover have "drop (length name + length ?mid) (name @ ?rest) = to_string n @ '' > /dev/null 2>&1''"
    by (simp only: drop_append append_assoc) simp
  moreover have "takeWhile is_digit (to_string n @ '' > /dev/null 2>&1'') = to_string n"
    by (simp add: takeWhile_append2 to_string_is_digit) (simp add: is_digit_def)
  ultimately have "example_dd (dd_command name n) fs = fs_put name (replicate (n * MB) CHR ''x'') fs"
    unfolding example_dd_def cmd Let_def by (simp only: digits_number_to_string nat_int)
  then show "\<exists>c. length c = n * MB \<and> example_dd (dd_command name n) fs = fs_put name c fs"
    by (intro exI[of _ "replicate (n * MB) CHR ''x''"]) simp
qed

section \<open>Properties\<close>

text \<open>C36: What a replay measures does not depend on the offsets in its trace: two traces with the same operations and request
  sizes end in the same fault or in states that differ in the positions of streams only: the same events were
  pushed, the same accesses and hits counted, the same files written. Every \<open>FREAD\<close> reads from the start of the file.\<close>

theorem replay_ignores_offsets:
  assumes "trace_ops 32 trace1 = Inr ops1" and "trace_ops 32 trace2 = Inr ops2" and "list_all2 same_but_offset ops1 ops2"
  shows "rbind (replay e start me x file_name trace1 a) (\<lambda>b. Inr (unpositioned b)) =
    rbind (replay e start me x file_name trace2 a) (\<lambda>b. Inr (unpositioned b))"
proof -
  let ?s = "\<lparr>rp_app = a, rp_file = None, rp_step = 0\<rparr>"
  have "same_replay ?s ?s" by (simp add: same_replay_def same_but_positions_def)
  then have "rel_sum (=) same_replay (rfold (replay_op e start me x file_name) ops1 ?s) (rfold (replay_op e start me x file_name) ops2 ?s)"
    by (rule rel_rfold[OF assms(3)]) (rule replay_op_related)
  then show ?thesis
    unfolding replay_def trace_loop_ops[OF assms(1)] trace_loop_ops[OF assms(2)]
    by (cases "rfold (replay_op e start me x file_name) ops1 ?s"; cases "rfold (replay_op e start me x file_name) ops2 ?s")
      (auto simp: same_replay_def same_but_positions_def)
qed

theorem replay_ignores_offsets_witness:
  "rbind (replay example_env (\<lambda>_. 0) 0 \<lparr>re_clock = int, re_addr = (\<lambda>n. n + 7), re_malloc = (\<lambda>n. replicate n CHR ''-'')\<rparr> ''/pfs/ab''
      (concat (map print_line [(''FOPEN'', 0, 0), (''FREAD'', 1, 1), (''FCLOSE'', 0, 0)])) example_app) (\<lambda>b. Inr (unpositioned b)) =
    rbind (replay example_env (\<lambda>_. 0) 0 \<lparr>re_clock = int, re_addr = (\<lambda>n. n + 7), re_malloc = (\<lambda>n. replicate n CHR ''-'')\<rparr> ''/pfs/ab''
      (concat (map print_line [(''FOPEN'', 0, 0), (''FREAD'', 2, 1), (''FCLOSE'', 0, 0)])) example_app) (\<lambda>b. Inr (unpositioned b))"
proof -
  have ok: "\<forall>l\<in>set [(''FOPEN'', 0, 0), (''FREAD'', k, 1), (''FCLOSE'', 0, 0)]. line_ok 32 l" if "0 \<le> k" "k < 10" for k
    using that by (simp add: line_ok_def in_long_def)
  have "trace_ops 32 (concat (map print_line [(''FOPEN'', 0, 0), (''FREAD'', k, 1), (''FCLOSE'', 0, 0)])) =
      Inr (map (scaled 32) [(''FOPEN'', 0, 0), (''FREAD'', k, 1), (''FCLOSE'', 0, 0)])" if "0 \<le> k" "k < 10" for k
    unfolding trace_ops_def read_lines[OF ok[OF that]] by simp
  note run = this[of 1, simplified] this[of 2, simplified]
  have "list_all2 same_but_offset (map (scaled 32) [(''FOPEN'', 0, 0), (''FREAD'', 1, 1), (''FCLOSE'', 0, 0)])
      (map (scaled 32) [(''FOPEN'', 0, 0), (''FREAD'', 2, 1), (''FCLOSE'', 0, 0)])"
    by (simp add: scaled_def same_but_offset_def)
  then have "list_all2 same_but_offset [scaled 32 (''FOPEN'', 0, 0), scaled 32 (''FREAD'', 1, 1), scaled 32 (''FCLOSE'', 0, 0)]
      [scaled 32 (''FOPEN'', 0, 0), scaled 32 (''FREAD'', 2, 1), scaled 32 (''FCLOSE'', 0, 0)]" by (simp only: list.map)
  from replay_ignores_offsets[OF run this] show ?thesis by simp
qed

text \<open>A trace is read back as it was written: the loop over the lines of a printed list of operations yields these
  operations, with their numbers scaled, as long as names are not empty and contain neither commas nor newlines and no
  number overflows.\<close>

theorem trace_reads_back:
  assumes "\<forall>l\<in>set ls. line_ok m l"
  shows "trace_ops m (concat (map print_line ls)) = Inr (map (scaled m) ls)"
proof -
  have "rfold (\<lambda>op ops. Inr (ops @ [op])) xs acc = Inr (acc @ xs)" for xs and acc :: "trace_op list"
    by (induction xs arbitrary: acc) simp_all
  then show ?thesis by (simp add: trace_ops_def read_lines[OF assms])
qed

theorem trace_reads_back_witness:
  "trace_ops 32 (concat (map print_line [(''FREAD'', - 3, 81920)])) =
    Inr [\<lparr>operation = ''FREAD'', offset = - 96, request_size = 2621440\<rparr>]"
  using trace_reads_back[of "[(''FREAD'', - 3, 81920)]" 32] by (simp add: line_ok_def in_long_def scaled_def)

text \<open>The file a benchmark prepares holds every byte of the first pass over its trace if and only if the size is a multiple
  of a megabyte or at least half a megabyte above one: adding the remainder does not round up.\<close>

theorem prepared_file_covers_iff:
  assumes "dd_documented sh" and "plain_name name" and "length name < 150" and "um_find name fs = None"
    and "trace_loop 1024 grow_size trace 0 = Inr m" and "m < 2 ^ 50"
  shows "\<exists>fs'. rbind (trace_size trace) (\<lambda>n. prepare_file sh 0 name n fs) = Inr fs' \<and>
    (m \<le> length (file_content name fs') \<longleftrightarrow> m mod MB = 0 \<or> MB \<le> 2 * (m mod MB))"
proof -
  let ?n = "m + m mod MB"
  have MB: "MB = 2 ^ 20" by (simp add: MB_def)
  have r: "m mod MB < 2 ^ 20" by (simp add: MB)
  then have small: "?n < 2 ^ 51" using assms(6) by simp
  then have "?n div MB < 2 ^ 31" unfolding MB by (simp add: div_less_iff_less_mult)
  moreover from this obtain c where "length c = ?n div MB * MB" "sh (dd_command name (?n div MB)) fs = fs_put name c fs"
    using assms(1,2) unfolding dd_documented_def by blast
  moreover have "trace_size trace = Inr ?n" using assms(5) small by (simp add: trace_size_def)
  moreover have "m \<le> ?n div MB * MB \<longleftrightarrow> m mod MB = 0 \<or> MB \<le> 2 * (m mod MB)"
  proof -
    define q r where "q = m div MB" and "r = m mod MB"
    have m: "m = q * MB + r" "r < MB" by (simp_all add: q_def r_def MB_def)
    then have "?n = q * MB + 2 * r" unfolding r_def by simp
    then have "?n div MB = q + 2 * r div MB" by (simp add: MB_def)
    moreover have "2 * r div MB = (if MB \<le> 2 * r then 1 else 0)" using m(2) by (auto simp: MB_def)
    ultimately have "?n div MB * MB = q * MB + (if MB \<le> 2 * r then MB else 0)" by (simp add: add_mult_distrib)
    then show ?thesis using m unfolding r_def[symmetric] by auto
  qed
  ultimately show ?thesis
    using assms(3,4) dd_command_small[of name "?n div MB"]
    by (simp add: prepare_file_def sprintf256_def run_command_def file_content_def um_find_fs_put)
qed

theorem prepared_file_covers_iff_witness:
  "\<exists>fs'. rbind (trace_size (concat (map print_line [(''FREAD'', 0, 1025)])))
      (\<lambda>n. prepare_file example_dd 0 ''/pfs/wrf.dat'' n []) = Inr fs' \<and>
    length (file_content ''/pfs/wrf.dat'' fs') < 1025 * 1024"
proof -
  have "\<forall>l\<in>set [(''FREAD'', 0, 1025)]. line_ok 1024 l" by (simp add: line_ok_def in_long_def)
  from read_lines[OF this, of grow_size 0]
  have "trace_loop 1024 grow_size (concat (map print_line [(''FREAD'', 0, 1025)])) 0 = Inr (1025 * 1024)"
    by (simp add: scaled_def grow_size_def long_result_def in_long_def to_size_t_def)
  from prepared_file_covers_iff[OF example_dd_documented _ _ _ this, of "''/pfs/wrf.dat''" "[]"]
  show ?thesis by (auto simp: plain_name_def um_find_def MB_def)
qed

text \<open>Two of the modes of the reader divide by zero when each process reads one piece per time step, that is, for 64 to 127
  megabytes: the remainder by the number of reads less one is taken before the first read.\<close>

theorem reader_divides_by_zero:
  assumes "ty = READ_ENTIRE_SAME_TS \<or> ty = READ_ENTIRE_RANDOM_HALF_TS" and "io_size_mb args div 64 = 1" and "0 < iteration args"
  shows "reader_run e start me x rnd ty my_rank args fh a = Inl (Undefined DivisionByZero)"
proof -
  have io: "64 \<le> io_size_mb args" "io_size_mb args < 128" using assms(2) by linarith+
  then have "reader_file_size args = io_size_mb args * 2 ^ 19" by (simp add: reader_file_size_def MB_def)
  then have "reader_file_size args div read_size = io_size_mb args div 2" by (simp add: read_size_def)
  then have "reader_file_size args div read_size div 32 = io_size_mb args div 64" by (simp add: div_mult2_eq[symmetric])
  then have n: "read_iterations ty (reader_file_size args) = 1" using assms(1,2) by (auto simp: read_iterations_def)
  have "reader_timestep e start me x rnd ty my_rank (reader_file_size args) fh 0 (0, a) = Inl (Undefined DivisionByZero)"
    using assms(1) by (auto simp: reader_timestep_def n reader_step_def reader_seek_def size_mod_def to_size_t_def)
  moreover have "[0..<iteration args] = 0 # [1..<iteration args]" using assms(3) by (simp add: upt_conv_Cons)
  ultimately show ?thesis by (simp add: reader_run_def)
qed

theorem reader_divides_by_zero_witness:
  "reader_run example_env (\<lambda>_. 0) 0 \<lparr>re_clock = int, re_addr = id, re_malloc = (\<lambda>n. [])\<rparr> id READ_ENTIRE_SAME_TS 3
     (default_args\<lparr>io_size_mb := 100\<rparr>) 7 example_app = Inl (Undefined DivisionByZero)"
  using reader_divides_by_zero[of READ_ENTIRE_SAME_TS "default_args\<lparr>io_size_mb := 100\<rparr>"] by (simp add: default_args_def)

text \<open>\<open>basic.cpp\<close> takes the number of megabytes for the number of bytes.\<close>

lemma basic_file_empty:
  assumes "basic_size args ranks = Inr n" and "io_size_mb args < MB"
  shows "basic_blocks n = 0"
proof -
  have "n \<le> io_size_mb args" using assms(1) by (auto simp: basic_size_def split: if_splits)
  then have "n < MB" using assms(2) by simp
  then show ?thesis by (simp add: basic_blocks_def)
qed

end
