(* ===== verification/Test_Library.thy ===== *)
theory Test_Library
  imports Server Serialization
begin

text \<open>
  \<open>src/test/library\<close>: a test of the distributed structures. Clients push events into the message queue of their
  node. On each server daemons take the events, number them with the sequence of server 0, announce the number in a
  second queue and store the event under its number in a distributed map; engines take the numbers and get the
  events. \<open>Stop\<close> waits for the two queues and then ends the threads. The classes of \<open>common.h\<close> have names of their
  own here where \<open>server.h\<close> has the same (\<open>Server\<close>, \<open>Input\<close>, \<open>ParseArgs\<close>).

  The threads of all servers run interleaved: a schedule is a list of moves, each of which runs one thread up to its
  next shared operation, a call of a distributed structure (atomic: it holds an interprocess mutex) or a look at
  the signal. A move of a thread that waits or has ended changes nothing. The pairs of option and argument that
  \<open>getopt\<close> returns are arguments, and so are the ranks of MPI. Printing and the timers are left out.
\<close>

section \<open>Events\<close>

record EventTest =
  et_filename :: string
  et_offset :: int
  et_size :: int
  et_time :: int

definition EventTest_default :: EventTest where
  "EventTest_default = \<lparr>et_filename = [], et_offset = 0, et_size = 0, et_time = 0\<rparr>"

definition pack_EventTest :: "EventTest \<Rightarrow> bytes res" where
  "pack_EventTest input =
     pack_members [pack_CharStruct (et_filename input), pack_long (et_offset input), pack_long (et_size input),
       pack_long (et_time input)]"

definition object_EventTest :: "EventTest \<Rightarrow> msgpack_object res" where
  "object_EventTest input =
     object_members [object_CharStruct (et_filename input), object_signed (et_offset input),
       object_signed (et_size input), object_signed (et_time input)]"

definition convert_EventTest :: "msgpack_object \<Rightarrow> EventTest res" where
  "convert_EventTest obj =
     rbind (rbind (via_array obj 0) convert_CharStruct) (\<lambda>name.
     rbind (rbind (via_array obj 1) (convert_signed 64)) (\<lambda>offset.
     rbind (rbind (via_array obj 2) (convert_signed 64)) (\<lambda>sz.
     rbind (rbind (via_array obj 3) (convert_signed 64)) (\<lambda>t.
       Inr \<lparr>et_filename = name, et_offset = offset, et_size = sz, et_time = t\<rparr>))))"

definition ok_EventTest :: "EventTest \<Rightarrow> bool" where
  "ok_EventTest ev \<longleftrightarrow> ok_CharStruct (et_filename ev) \<and> in_long (et_offset ev) \<and> in_long (et_size ev) \<and> in_long (et_time ev)"

interpretation event_test: serializer F pack_EventTest object_EventTest convert_EventTest ok_EventTest id 1 for F
proof unfold_locales
  fix ev
  assume "ok_EventTest ev"
  then have ok: "ok_CharStruct (et_filename ev)" "in_long (et_offset ev)" "in_long (et_size ev)" "in_long (et_time ev)"
    by (simp_all add: ok_EventTest_def)
  obtain o1 where o1: "object_CharStruct (et_filename ev) = Inr o1" "pack_CharStruct (et_filename ev) = Inr (pack_object F o1)"
    "valid_object F o1" "depth o1 \<le> 0" "convert_CharStruct o1 = Inr (id (et_filename ev))"
    using name.adaptor[OF ok(1), of F] by blast
  obtain o2 where o2: "object_signed (et_offset ev) = Inr o2" "pack_long (et_offset ev) = Inr (pack_object F o2)"
    "valid_object F o2" "depth o2 \<le> 0" "convert_signed 64 o2 = Inr (id (et_offset ev))"
    using long.adaptor[OF ok(2), of F] by blast
  obtain o3 where o3: "object_signed (et_size ev) = Inr o3" "pack_long (et_size ev) = Inr (pack_object F o3)"
    "valid_object F o3" "depth o3 \<le> 0" "convert_signed 64 o3 = Inr (id (et_size ev))"
    using long.adaptor[OF ok(3), of F] by blast
  obtain o4 where o4: "object_signed (et_time ev) = Inr o4" "pack_long (et_time ev) = Inr (pack_object F o4)"
    "valid_object F o4" "depth o4 \<le> 0" "convert_signed 64 o4 = Inr (id (et_time ev))"
    using long.adaptor[OF ok(4), of F] by blast
  let ?o = "ARRAY [o1, o2, o3, o4]"
  have "object_EventTest ev = Inr ?o \<and> pack_EventTest ev = Inr (pack_object F ?o)"
    unfolding object_EventTest_def pack_EventTest_def
    by (rule record_packs) (simp_all only: o1 o2 o3 o4 list.rel_inject simp_thms list.rel_intros)
  moreover have "convert_EventTest ?o = Inr (id ev)"
    unfolding convert_EventTest_def using o1(5) o2(5) o3(5) o4(5) by simp
  moreover have "valid_object F ?o \<and> depth ?o \<le> 1" using o1 o2 o3 o4 by simp
  ultimately show "\<exists>obj. object_EventTest ev = Inr obj \<and> pack_EventTest ev = Inr (pack_object F obj) \<and>
      valid_object F obj \<and> depth obj \<le> 1 \<and> convert_EventTest obj = Inr (id ev)" by blast
qed simp

section \<open>Arguments and configuration\<close>

record Input =
  in_daemons :: nat
  in_engines :: nat
  in_events :: nat
  in_servers :: int

definition default_input :: Input where
  "default_input = \<lparr>in_daemons = 1, in_engines = 1, in_events = 10000, in_servers = 1\<rparr>"

definition ParseArg :: "char \<times> string \<Rightarrow> Input \<Rightarrow> Input res" where
  "ParseArg oa args =
     (let opt = fst oa; optarg = snd oa in
      if opt = CHR ''d'' then rbind (atoi optarg) (\<lambda>v. Inr (args\<lparr>in_daemons := to_size_t v\<rparr>))
      else if opt = CHR ''s'' then rbind (atoi optarg) (\<lambda>v. Inr (args\<lparr>in_servers := v\<rparr>))
      else if opt = CHR ''p'' then rbind (atoi optarg) (\<lambda>v. Inr (args\<lparr>in_engines := to_size_t v\<rparr>))
      else if opt = CHR ''e'' then rbind (atoi optarg) (\<lambda>v. Inr (args\<lparr>in_events := to_size_t v\<rparr>))
      else Inr args)"

definition ParseArgs :: "(char \<times> string) list \<Rightarrow> Input res" where
  "ParseArgs opts = rfold ParseArg opts default_input"

text \<open>Division of \<open>int\<close>, which rounds towards zero.\<close>

definition int_div :: "int \<Rightarrow> int \<Rightarrow> int res" where
  "int_div x y = (if y = 0 then Inl (Undefined DivisionByZero) else int32_result (sgn x * sgn y * (\<bar>x\<bar> div \<bar>y\<bar>)))"

definition server_setup :: "int \<Rightarrow> ConfigurationManager \<Rightarrow> ConfigurationManager" where
  "server_setup rank c =
     (let c = UpdateServerComm rank (c\<lparr>cf_num_servers := comm_size c, cf_is_server := True\<rparr>)
      in c\<lparr>my_server := nat (my_rank_server c mod 2 ^ 16)\<rparr>)"

definition client_setup :: "Input \<Rightarrow> int \<Rightarrow> ConfigurationManager \<Rightarrow> ConfigurationManager res" where
  "client_setup args rank c =
     rbind (int_div (comm_size c) (in_servers args)) (\<lambda>rps.
     rbind (int_div (my_rank_world c) rps) (\<lambda>m.
       Inr (UpdateServerComm rank (c\<lparr>cf_num_servers := in_servers args, cf_ranks_per_server := rps, cf_is_server := False,
              my_server := nat (m mod 2 ^ 16)\<rparr>))))"

section \<open>The client\<close>

definition message_queue :: "env \<Rightarrow> rpc_obj" where
  "message_queue e = obj_of e ''MESSAGE_QUEUE''"

definition client_PushEvent :: "env \<Rightarrow> nat \<Rightarrow> EventTest \<Rightarrow> EventTest queue_store \<Rightarrow> (bool \<times> EventTest queue_store) res" where
  "client_PushEvent e me event q = DMQ_Push (message_queue e) me event me q"

text \<open>\<open>1024*1024*i\<close> is a product of values of type \<open>int\<close>.\<close>

definition client_event :: "int \<Rightarrow> EventTest res" where
  "client_event i =
     rbind (CharStruct ''file.bat'') (\<lambda>name.
     rbind (int32_result (1024 * 1024 * i)) (\<lambda>offset.
       Inr (EventTest_default\<lparr>et_filename := name, et_offset := offset, et_size := 1024 * 1024, et_time := i\<rparr>)))"

fun client_loop :: "env \<Rightarrow> nat \<Rightarrow> nat \<Rightarrow> int \<Rightarrow> EventTest queue_store \<Rightarrow> EventTest queue_store res" where
  "client_loop e me 0 i q = Inr q"
| "client_loop e me (Suc n) i q =
     rbind (client_event i) (\<lambda>event.
     rbind (client_PushEvent e me event q) (\<lambda>(_, q').
     rbind (int32_result (i + 1)) (\<lambda>i'. client_loop e me n i' q')))"

definition client_main ::
  "env \<Rightarrow> (char \<times> string) list \<Rightarrow> int \<Rightarrow> ConfigurationManager \<Rightarrow> EventTest queue_store \<Rightarrow> EventTest queue_store res" where
  "client_main e opts rank c q =
     rbind (ParseArgs opts) (\<lambda>args.
     rbind (client_setup args rank c) (\<lambda>c.
       client_loop e (my_server c) (in_events args) 0 q))"

section \<open>The threads of the servers\<close>

definition processed_events :: "env \<Rightarrow> rpc_obj" where
  "processed_events e = obj_of e ''PROCESSED_EVENTS_QUEUE''"

definition processed_map :: "env \<Rightarrow> nat dist" where
  "processed_map e = dist_of e ''PROCESSED_EVENTS_MAP'' (hash_size_t e)"

definition event_sequence :: "env \<Rightarrow> rpc_obj" where
  "event_sequence e = obj_of e ''EventSequence''"

text \<open>What the threads share, over all servers.\<close>

record stores =
  messages :: "EventTest queue_store"
  processed :: "nat queue_store"
  numbers :: "nat \<Rightarrow> nat"
  pmap :: "(nat, EventTest) hash_store"

datatype daemon_pc =
    D_check
  | D_size
  | D_pop
  | D_number EventTest
  | D_announce nat EventTest
  | D_store nat EventTest
  | D_left

record daemon =
  d_server :: nat
  d_pc :: daemon_pc
  d_signal :: bool

datatype engine_pc = E_check | E_pop | E_get nat | E_left

record engine =
  g_server :: nat
  g_pc :: engine_pc
  g_signal :: bool

datatype test_action =
    Quiet
  | Sent nat EventTest
  | Taken nat EventTest
  | Numbered nat nat EventTest
  | Announced nat nat
  | Stored nat nat EventTest
  | Drawn nat nat
  | Fetched nat nat "EventTest option"

fun RunDaemons :: "env \<Rightarrow> daemon \<Rightarrow> stores \<Rightarrow> (test_action \<times> daemon \<times> stores) res" where
  "RunDaemons e d st =
     (case d_pc d of
        D_check \<Rightarrow> Inr (Quiet, d\<lparr>d_pc := if d_signal d then D_left else D_size\<rparr>, st)
      | D_size \<Rightarrow>
          rbind (DMQ_Size (message_queue e) (d_server d) (d_server d) (messages st)) (\<lambda>n.
            Inr (Quiet, d\<lparr>d_pc := if n > 0 then D_pop else D_check\<rparr>, st))
      | D_pop \<Rightarrow>
          rbind (DMQ_Pop (message_queue e) (d_server d) (d_server d) (messages st)) (\<lambda>(r, q).
            case r of
              None \<Rightarrow> Inr (Quiet, d\<lparr>d_pc := D_check\<rparr>, st\<lparr>messages := q\<rparr>)
            | Some ev \<Rightarrow> Inr (Taken (d_server d) ev, d\<lparr>d_pc := D_number ev\<rparr>, st\<lparr>messages := q\<rparr>))
      | D_number ev \<Rightarrow>
          rbind (GetNextSequenceServer (event_sequence e) (d_server d) 0 (numbers st)) (\<lambda>(val, sq).
            Inr (Numbered (d_server d) val ev, d\<lparr>d_pc := D_announce val ev\<rparr>, st\<lparr>numbers := sq\<rparr>))
      | D_announce val ev \<Rightarrow>
          rbind (DMQ_Push (processed_events e) (d_server d) val (d_server d) (processed st)) (\<lambda>(_, q).
            Inr (Announced (d_server d) val, d\<lparr>d_pc := D_store val ev\<rparr>, st\<lparr>processed := q\<rparr>))
      | D_store val ev \<Rightarrow>
          rbind (DHM_Put (processed_map e) (d_server d) val ev (pmap st)) (\<lambda>(_, m).
            Inr (Stored (d_server d) val ev, d\<lparr>d_pc := D_check\<rparr>, st\<lparr>pmap := m\<rparr>))
      | D_left \<Rightarrow> Inr (Quiet, d, st))"

fun RunEngines :: "env \<Rightarrow> engine \<Rightarrow> stores \<Rightarrow> (test_action \<times> engine \<times> stores) res" where
  "RunEngines e g st =
     (case g_pc g of
        E_check \<Rightarrow> Inr (Quiet, g\<lparr>g_pc := if g_signal g then E_left else E_pop\<rparr>, st)
      | E_pop \<Rightarrow>
          rbind (DMQ_Pop (processed_events e) (g_server g) (g_server g) (processed st)) (\<lambda>(r, q).
            case r of
              None \<Rightarrow> Inr (Quiet, g\<lparr>g_pc := E_check\<rparr>, st\<lparr>processed := q\<rparr>)
            | Some val \<Rightarrow> Inr (Drawn (g_server g) val, g\<lparr>g_pc := E_get val\<rparr>, st\<lparr>processed := q\<rparr>))
      | E_get val \<Rightarrow>
          rbind (DHM_Get (processed_map e) (g_server g) val (pmap st)) (\<lambda>r.
            Inr (Fetched (g_server g) val r, g\<lparr>g_pc := E_check\<rparr>, st))
      | E_left \<Rightarrow> Inr (Quiet, g, st))"

text \<open>\<open>Run\<close> starts the threads; the \<open>k\<close>-th daemon of server \<open>m\<close> has the index \<open>m * nd + k\<close>.\<close>

datatype test_stop =
    T_running
  | T_messages
  | T_processed
  | T_daemons nat
  | T_engines nat
  | T_done

record test_state =
  shared :: stores
  daemons :: "daemon list"
  engines :: "engine list"
  stop_pc :: "nat \<Rightarrow> test_stop"

definition test_run :: "nat \<Rightarrow> nat \<Rightarrow> nat \<Rightarrow> test_state" where
  "test_run n nd ne =
     \<lparr>shared = \<lparr>messages = DMQ_init, processed = DMQ_init, numbers = GlobalSequence_init, pmap = DHM_init\<rparr>,
      daemons = map (\<lambda>i. \<lparr>d_server = i div nd, d_pc = D_check, d_signal = False\<rparr>) [0..<n * nd],
      engines = map (\<lambda>i. \<lparr>g_server = i div ne, g_pc = E_check, g_signal = False\<rparr>) [0..<n * ne],
      stop_pc = (\<lambda>_. T_running)\<rparr>"

definition set_stop :: "nat \<Rightarrow> test_stop \<Rightarrow> test_state \<Rightarrow> test_state" where
  "set_stop m p s = s\<lparr>stop_pc := (stop_pc s)(m := p)\<rparr>"

text \<open>\<open>Stop\<close>: the thread to signal or to join next is the \<open>k\<close>-th; it is joined once it has left.\<close>

definition Stop_daemon :: "nat \<Rightarrow> nat \<Rightarrow> nat \<Rightarrow> test_state \<Rightarrow> test_state" where
  "Stop_daemon m nd k s =
     (let i = m * nd + k; d = daemons s ! i in
      if \<not> d_signal d then s\<lparr>daemons := (daemons s)[i := d\<lparr>d_signal := True\<rparr>]\<rparr>
      else if d_pc d = D_left then set_stop m (T_daemons (Suc k)) s else s)"

definition Stop_engine :: "nat \<Rightarrow> nat \<Rightarrow> nat \<Rightarrow> test_state \<Rightarrow> test_state" where
  "Stop_engine m ne k s =
     (let i = m * ne + k; g = engines s ! i in
      if \<not> g_signal g then s\<lparr>engines := (engines s)[i := g\<lparr>g_signal := True\<rparr>]\<rparr>
      else if g_pc g = E_left then set_stop m (T_engines (Suc k)) s else s)"

fun Stop_step :: "env \<Rightarrow> nat \<Rightarrow> nat \<Rightarrow> nat \<Rightarrow> test_state \<Rightarrow> test_state res" where
  "Stop_step e nd ne m s =
     (case stop_pc s m of
        T_running \<Rightarrow> Inr (set_stop m T_messages s)
      | T_messages \<Rightarrow>
          rbind (DMQ_Size (message_queue e) m m (messages (shared s))) (\<lambda>n.
            Inr (if n > 0 then s else set_stop m T_processed s))
      | T_processed \<Rightarrow>
          rbind (DMQ_Size (processed_events e) m m (processed (shared s))) (\<lambda>n.
            Inr (if n > 0 then s else set_stop m (T_daemons 0) s))
      | T_daemons k \<Rightarrow> Inr (if k < nd then Stop_daemon m nd k s else set_stop m (T_engines 0) s)
      | T_engines k \<Rightarrow> Inr (if k < ne then Stop_engine m ne k s else set_stop m T_done s)
      | T_done \<Rightarrow> Inr s)"

datatype move =
    Client nat EventTest
  | Daemon nat
  | Engine nat
  | Stop nat

fun test_step :: "env \<Rightarrow> nat \<Rightarrow> nat \<Rightarrow> move \<Rightarrow> test_state \<Rightarrow> (test_action \<times> test_state) res" where
  "test_step e nd ne (Client m ev) s =
     rbind (client_PushEvent e m ev (messages (shared s))) (\<lambda>(_, q).
       Inr (Sent m ev, s\<lparr>shared := (shared s)\<lparr>messages := q\<rparr>\<rparr>))"
| "test_step e nd ne (Daemon i) s =
     (if i < length (daemons s)
      then rbind (RunDaemons e (daemons s ! i) (shared s)) (\<lambda>(a, d, st).
             Inr (a, s\<lparr>daemons := (daemons s)[i := d], shared := st\<rparr>))
      else Inr (Quiet, s))"
| "test_step e nd ne (Engine i) s =
     (if i < length (engines s)
      then rbind (RunEngines e (engines s ! i) (shared s)) (\<lambda>(a, g, st).
             Inr (a, s\<lparr>engines := (engines s)[i := g], shared := st\<rparr>))
      else Inr (Quiet, s))"
| "test_step e nd ne (Stop m) s =
     (if m < env_servers e then rbind (Stop_step e nd ne m s) (\<lambda>s. Inr (Quiet, s)) else Inr (Quiet, s))"

fun test_moves :: "env \<Rightarrow> nat \<Rightarrow> nat \<Rightarrow> move list \<Rightarrow> test_state \<Rightarrow> (test_action list \<times> test_state) res" where
  "test_moves e nd ne [] s = Inr ([], s)"
| "test_moves e nd ne (mv # mvs) s =
     rbind (test_step e nd ne mv s) (\<lambda>(a, s1).
     rbind (test_moves e nd ne mvs s1) (\<lambda>(tr, s2). Inr (a # tr, s2)))"

section \<open>What a trace records\<close>

definition sent_of :: "nat \<Rightarrow> test_action list \<Rightarrow> EventTest list" where
  "sent_of m tr = concat (map (\<lambda>a. case a of Sent m' ev \<Rightarrow> if m' = m then [ev] else [] | _ \<Rightarrow> []) tr)"

definition numbered :: "test_action list \<Rightarrow> (nat \<times> EventTest) list" where
  "numbered tr = concat (map (\<lambda>a. case a of Numbered _ n ev \<Rightarrow> [(n, ev)] | _ \<Rightarrow> []) tr)"

definition stored :: "test_action list \<Rightarrow> (nat \<times> EventTest) list" where
  "stored tr = concat (map (\<lambda>a. case a of Stored _ n ev \<Rightarrow> [(n, ev)] | _ \<Rightarrow> []) tr)"

definition stored_of :: "nat \<Rightarrow> test_action list \<Rightarrow> (nat \<times> EventTest) list" where
  "stored_of m tr = concat (map (\<lambda>a. case a of Stored m' n ev \<Rightarrow> if m' = m then [(n, ev)] else [] | _ \<Rightarrow> []) tr)"

definition announced :: "test_action list \<Rightarrow> nat list" where
  "announced tr = concat (map (\<lambda>a. case a of Announced _ n \<Rightarrow> [n] | _ \<Rightarrow> []) tr)"

definition announced_of :: "nat \<Rightarrow> test_action list \<Rightarrow> nat list" where
  "announced_of m tr = concat (map (\<lambda>a. case a of Announced m' n \<Rightarrow> if m' = m then [n] else [] | _ \<Rightarrow> []) tr)"

definition fetched_of :: "nat \<Rightarrow> test_action list \<Rightarrow> (nat \<times> EventTest option) list" where
  "fetched_of m tr = concat (map (\<lambda>a. case a of Fetched m' n r \<Rightarrow> if m' = m then [(n, r)] else [] | _ \<Rightarrow> []) tr)"

lemmas trace_defs = sent_of_def numbered_def stored_def stored_of_def announced_def announced_of_def fetched_of_def

lemma moves_trace_append [simp]:
  "sent_of m (tr @ tr') = sent_of m tr @ sent_of m tr'" "numbered (tr @ tr') = numbered tr @ numbered tr'"
  "stored (tr @ tr') = stored tr @ stored tr'" "stored_of m (tr @ tr') = stored_of m tr @ stored_of m tr'"
  "announced (tr @ tr') = announced tr @ announced tr'" "announced_of m (tr @ tr') = announced_of m tr @ announced_of m tr'"
  "fetched_of m (tr @ tr') = fetched_of m tr @ fetched_of m tr'"
  by (simp_all add: trace_defs)

lemma trace_empty [simp]:
  "sent_of m [] = []" "numbered [] = []" "stored [] = []" "stored_of m [] = []" "announced [] = []"
  "announced_of m [] = []" "fetched_of m [] = []"
  by (simp_all add: trace_defs)

lemma trace_Quiet [simp]:
  "sent_of m [Quiet] = []" "numbered [Quiet] = []" "stored [Quiet] = []" "stored_of m [Quiet] = []"
  "announced [Quiet] = []" "announced_of m [Quiet] = []" "fetched_of m [Quiet] = []"
  by (simp_all add: trace_defs)

lemma trace_Sent [simp]:
  "sent_of m [Sent m' ev] = (if m' = m then [ev] else [])" "numbered [Sent m' ev] = []" "stored [Sent m' ev] = []"
  "stored_of m [Sent m' ev] = []" "announced [Sent m' ev] = []" "announced_of m [Sent m' ev] = []"
  "fetched_of m [Sent m' ev] = []"
  by (simp_all add: trace_defs)

lemma traces_of_sub:
  "mset (stored_of m tr) \<subseteq># mset (stored tr)" "mset (announced_of m tr) \<subseteq># mset (announced tr)"
proof (induction tr)
  case (Cons a tr)
  { case 1
    from Cons(1) show ?case by (cases a) (auto simp: trace_defs intro: subset_mset.order_trans) }
  { case 2
    from Cons(2) show ?case by (cases a) (auto simp: trace_defs intro: subset_mset.order_trans) }
qed simp_all

lemma numbered_bound: "length (numbered tr) \<le> length tr"
proof (induction tr)
  case (Cons a tr)
  then show ?case by (cases a) (simp_all add: numbered_def)
qed simp

section \<open>Nothing is lost between the stations\<close>

fun in_hand :: "daemon_pc \<Rightarrow> EventTest multiset" where
  "in_hand (D_number ev) = {#ev#}"
| "in_hand (D_announce n ev) = {#ev#}"
| "in_hand (D_store n ev) = {#ev#}"
| "in_hand _ = {#}"

fun to_store :: "daemon_pc \<Rightarrow> (nat \<times> EventTest) multiset" where
  "to_store (D_announce n ev) = {#(n, ev)#}"
| "to_store (D_store n ev) = {#(n, ev)#}"
| "to_store _ = {#}"

fun to_announce :: "daemon_pc \<Rightarrow> nat multiset" where
  "to_announce (D_announce n ev) = {#n#}"
| "to_announce _ = {#}"

fun to_get :: "engine_pc \<Rightarrow> nat multiset" where
  "to_get (E_get n) = {#n#}"
| "to_get _ = {#}"

definition held_by :: "nat \<Rightarrow> daemon \<Rightarrow> EventTest multiset" where
  "held_by m d = (if d_server d = m then in_hand (d_pc d) else {#})"

definition got_by :: "nat \<Rightarrow> engine \<Rightarrow> nat multiset" where
  "got_by m g = (if g_server g = m then to_get (g_pc g) else {#})"

definition test_env :: "env \<Rightarrow> bool" where
  "test_env e \<longleftrightarrow> 0 < env_servers e \<and> env_servers e \<le> env_rpc_size e \<and>
     bound_in DHM_bindings (obj_of e ''PROCESSED_EVENTS_MAP'') \<and>
     bound_in GlobalSequence_bindings (obj_of e ''EventSequence'')"

lemma test_env_map: "test_env e \<Longrightarrow> dist_wf DHM_bindings (processed_map e)"
  by (simp add: test_env_def processed_map_def dist_wf_dist_of)

definition next_number :: "(nat \<Rightarrow> nat) \<Rightarrow> nat" where
  "next_number q = (q 0 + 1) mod 2 ^ 64"

lemma test_env_sequence:
  assumes "test_env e"
  shows "GetNextSequenceServer (event_sequence e) m 0 q = Inr (next_number q, q(0 := next_number q))"
  unfolding next_number_def
  using assms by (intro GetNextSequenceServer_run) (simp_all add: test_env_def event_sequence_def obj_of_def)

lemma local_queues [simp]:
  "DMQ_Size d m m q = Inr (length (q m))" "DMQ_Push d m x m q = Inr (True, q(m := q m @ [x]))"
  "DMQ_Pop d m m q' = Inr (if length (q' m) > 0 then (Some (hd (q' m)), q'(m := tl (q' m))) else (None, q'))"
  by (simp_all add: DMQ_Size_def DMQ_Push_def DMQ_Pop_def at_server_local)

lemma mset_hd_tl: "xs \<noteq> [] \<Longrightarrow> add_mset (hd xs) (mset (tl xs)) = mset xs"
  by (cases xs) simp_all

text \<open>The moves of a daemon and of an engine when every call reaches its server.\<close>

inductive daemon_move :: "env \<Rightarrow> daemon \<Rightarrow> stores \<Rightarrow> test_action \<Rightarrow> daemon \<Rightarrow> stores \<Rightarrow> bool"
  for e :: env and d :: daemon and st :: stores where
  turn: "in_hand (d_pc d) = {#} \<Longrightarrow> in_hand p = {#} \<Longrightarrow> (d_pc d = D_left \<longrightarrow> p = D_left) \<Longrightarrow>
    daemon_move e d st Quiet (d\<lparr>d_pc := p\<rparr>) st"
| take: "d_pc d = D_pop \<Longrightarrow> messages st (d_server d) = ev # evs \<Longrightarrow>
    daemon_move e d st (Taken (d_server d) ev) (d\<lparr>d_pc := D_number ev\<rparr>)
      (st\<lparr>messages := (messages st)(d_server d := evs)\<rparr>)"
| number: "d_pc d = D_number ev \<Longrightarrow> n = next_number (numbers st) \<Longrightarrow>
    daemon_move e d st (Numbered (d_server d) n ev) (d\<lparr>d_pc := D_announce n ev\<rparr>) (st\<lparr>numbers := (numbers st)(0 := n)\<rparr>)"
| announce: "d_pc d = D_announce n ev \<Longrightarrow>
    daemon_move e d st (Announced (d_server d) n) (d\<lparr>d_pc := D_store n ev\<rparr>)
      (st\<lparr>processed := (processed st)(d_server d := processed st (d_server d) @ [n])\<rparr>)"
| store: "d_pc d = D_store n ev \<Longrightarrow> DHM_Put (processed_map e) (d_server d) n ev (pmap st) = Inr (b, m) \<Longrightarrow>
    daemon_move e d st (Stored (d_server d) n ev) (d\<lparr>d_pc := D_check\<rparr>) (st\<lparr>pmap := m\<rparr>)"

lemma RunDaemons_move:
  assumes "test_env e" and "RunDaemons e d st = Inr (a, d', st')"
  shows "daemon_move e d st a d' st'"
proof (cases "d_pc d")
  case D_pop
  show ?thesis
  proof (cases "messages st (d_server d)")
    case Nil
    with assms(2) D_pop turn[of d "D_check" e st] show ?thesis by simp
  next
    case (Cons ev evs)
    with assms(2) D_pop take[of d st ev evs e] show ?thesis by simp
  qed
next
  case (D_number ev)
  with assms(2) number[of d ev _ st e] show ?thesis by (simp add: test_env_sequence[OF assms(1)])
next
  case (D_announce n ev)
  with assms(2) announce[of d n ev e st] show ?thesis by simp
next
  case (D_store n ev)
  with assms(2) store[of d n ev e st] show ?thesis by (auto simp: rbind_Inr_iff)
next
  case D_left
  then have "d\<lparr>d_pc := D_left\<rparr> = d" by (cases d) simp
  with D_left assms(2) turn[of d "D_left" e st] show ?thesis by simp
qed (use assms(2) turn[of d _ e st] in \<open>auto split: if_splits\<close>)

inductive engine_move :: "env \<Rightarrow> engine \<Rightarrow> stores \<Rightarrow> test_action \<Rightarrow> engine \<Rightarrow> stores \<Rightarrow> bool"
  for e :: env and g :: engine and st :: stores where
  turn: "to_get (g_pc g) = {#} \<Longrightarrow> to_get p = {#} \<Longrightarrow> engine_move e g st Quiet (g\<lparr>g_pc := p\<rparr>) st"
| draw: "g_pc g = E_pop \<Longrightarrow> processed st (g_server g) = n # ns \<Longrightarrow>
    engine_move e g st (Drawn (g_server g) n) (g\<lparr>g_pc := E_get n\<rparr>) (st\<lparr>processed := (processed st)(g_server g := ns)\<rparr>)"
| fetch: "g_pc g = E_get n \<Longrightarrow>
    engine_move e g st (Fetched (g_server g) n (dhm_lookup (processed_map e) (pmap st) n)) (g\<lparr>g_pc := E_check\<rparr>) st"

lemma RunEngines_move:
  assumes "test_env e" and "RunEngines e g st = Inr (a, g', st')"
  shows "engine_move e g st a g' st'"
proof (cases "g_pc g")
  case E_pop
  show ?thesis
  proof (cases "processed st (g_server g)")
    case Nil
    with assms(2) E_pop engine_move.turn[of g "E_check" e st] show ?thesis by simp
  next
    case (Cons n ns)
    with assms(2) E_pop draw[of g st n ns e] show ?thesis by simp
  qed
next
  case (E_get n)
  with assms(2) fetch[of g n e st] show ?thesis by (auto simp: DHM_Get_run[OF test_env_map[OF assms(1)]])
next
  case E_left
  then have "g\<lparr>g_pc := E_left\<rparr> = g" by (cases g) simp
  with E_left assms(2) engine_move.turn[of g "E_left" e st] show ?thesis by simp
qed (use assms(2) engine_move.turn[of g _ e st] in \<open>auto split: if_splits\<close>)

declare RunDaemons.simps [simp del] RunEngines.simps [simp del] Stop_step.simps [simp del]

lemma in_hand_none: "in_hand p = {#} \<Longrightarrow> to_store p = {#} \<and> to_announce p = {#}"
  by (cases p) simp_all

lemma daemon_conserves:
  assumes "daemon_move e d st a d' st'"
  shows "mset (messages st m) + held_by m d = mset (messages st' m) + held_by m d' + mset (map snd (stored_of m [a]))"
    and "mset (numbered [a]) + to_store (d_pc d) = mset (stored [a]) + to_store (d_pc d')"
    and "mset (map fst (numbered [a])) + to_announce (d_pc d) = mset (announced [a]) + to_announce (d_pc d')"
    and "mset (processed st' m) = mset (processed st m) + mset (announced_of m [a])"
    and "sent_of m [a] = []" "fetched_of m [a] = []" "d_server d' = d_server d" "d_signal d' = d_signal d"
    and "d_pc d = D_left \<Longrightarrow> d' = d"
  using assms by (induction, auto simp: held_by_def trace_defs in_hand_none)

lemma engine_conserves:
  assumes "engine_move e g st a g' st'"
  shows "mset (processed st m) + got_by m g = mset (processed st' m) + got_by m g' + mset (map fst (fetched_of m [a]))"
    and "messages st' = messages st" "numbers st' = numbers st" "pmap st' = pmap st"
    and "sent_of m [a] = []" "numbered [a] = []" "stored [a] = []" "stored_of m [a] = []" "announced [a] = []"
    "announced_of m [a] = []" "g_server g' = g_server g"
  using assms by (induction, auto simp: got_by_def trace_defs)

definition conserved :: "test_action list \<Rightarrow> test_state \<Rightarrow> bool" where
  "conserved tr s \<longleftrightarrow>
     (\<forall>m. mset (sent_of m tr) = mset (messages (shared s) m) + (\<Sum>d\<leftarrow>daemons s. held_by m d) + mset (map snd (stored_of m tr))) \<and>
     mset (numbered tr) = mset (stored tr) + (\<Sum>d\<leftarrow>daemons s. to_store (d_pc d)) \<and>
     mset (map fst (numbered tr)) = mset (announced tr) + (\<Sum>d\<leftarrow>daemons s. to_announce (d_pc d)) \<and>
     (\<forall>m. mset (announced_of m tr) =
        mset (processed (shared s) m) + (\<Sum>g\<leftarrow>engines s. got_by m g) + mset (map fst (fetched_of m tr)))"

lemma conserved_Quiet [simp]: "conserved (tr @ [Quiet]) s = conserved tr s"
  by (simp only: conserved_def moves_trace_append trace_Quiet append_Nil2)

lemma move_between:
  fixes A B S x y s s' :: "'a multiset"
  assumes "A + x = B + y + S" and "s' + x = s + y"
  shows "A + s = B + s' + S"
proof -
  have "A + s + x = (B + s' + S) + x" using assms by (metis (no_types, lifting) add.assoc add.commute)
  then show ?thesis by simp
qed

lemma map_update_same:
  assumes "f y = f (xs ! i)"
  shows "map f (xs[i := y]) = map f xs"
proof (cases "i < length xs")
  case True
  with assms have "f y = map f xs ! i" by simp
  then show ?thesis by (simp add: map_update)
next
  case False
  then show ?thesis by (simp add: list_update_beyond)
qed

lemma Stop_step_keeps:
  assumes "Stop_step e nd ne m s = Inr s'"
  shows "shared s' = shared s" "map d_server (daemons s') = map d_server (daemons s)"
    "map d_pc (daemons s') = map d_pc (daemons s)" "map g_server (engines s') = map g_server (engines s)"
    "map g_pc (engines s') = map g_pc (engines s)"
  using assms
  by (auto simp: Stop_step.simps Stop_daemon_def Stop_engine_def set_stop_def Let_def map_update_same split: test_stop.splits if_splits)

lemma step_conserves_test:
  assumes env: "test_env e" and step: "test_step e nd ne mv s = Inr (a, s')" and inv: "conserved tr s"
  shows "conserved (tr @ [a]) s'"
proof (cases mv)
  case (Client m ev)
  with step inv show ?thesis
    by (auto simp: conserved_def client_PushEvent_def)
next
  case (Daemon i)
  show ?thesis
  proof (cases "i < length (daemons s)")
    case True
    with step Daemon obtain d st where d: "RunDaemons e (daemons s ! i) (shared s) = Inr (a, d, st)"
      and s': "s' = s\<lparr>daemons := (daemons s)[i := d], shared := st\<rparr>" by (auto simp: rbind_Inr_iff)
    note c = daemon_conserves[OF RunDaemons_move[OF env d]]
    note u = sum_list_update_mset[OF True]
    have first: "mset (messages (shared s) m) + (\<Sum>d\<leftarrow>daemons s. held_by m d) =
        mset (messages st m) + (\<Sum>d\<leftarrow>(daemons s)[i := d]. held_by m d) + mset (map snd (stored_of m [a]))" for m
      using move_between[OF c(1)[of m] u[where w' = d and f = "held_by m"]] .
    have second: "mset (numbered [a]) + (\<Sum>d\<leftarrow>daemons s. to_store (d_pc d)) =
        mset (stored [a]) + (\<Sum>d\<leftarrow>(daemons s)[i := d]. to_store (d_pc d))"
      using move_between[of _ _ "mset (stored [a])" _ "{#}", OF _ u[where w' = d and f = "\<lambda>d. to_store (d_pc d)"]] c(2) by simp
    have "mset (map fst (numbered [a])) + (\<Sum>d\<leftarrow>daemons s. to_announce (d_pc d)) =
        mset (announced [a]) + (\<Sum>d\<leftarrow>(daemons s)[i := d]. to_announce (d_pc d))"
      using move_between[of _ _ "mset (announced [a])" _ "{#}", OF _ u[where w' = d and f = "\<lambda>d. to_announce (d_pc d)"]] c(3) by simp
    moreover have "mset (map fst (numbered tr)) = mset (announced tr) + (\<Sum>d\<leftarrow>daemons s. to_announce (d_pc d))"
      using inv by (simp only: conserved_def)
    ultimately have "mset (map fst (numbered (tr @ [a]))) =
        mset (announced (tr @ [a])) + (\<Sum>d\<leftarrow>(daemons s)[i := d]. to_announce (d_pc d))"
      by (simp only: moves_trace_append map_append mset_append ac_simps)
    with first second show ?thesis
      using inv s' c(4,5,6) by (auto simp: conserved_def ac_simps)
  qed (use step inv Daemon in auto)
next
  case (Engine i)
  show ?thesis
  proof (cases "i < length (engines s)")
    case True
    with step Engine obtain g st where g: "RunEngines e (engines s ! i) (shared s) = Inr (a, g, st)"
      and s': "s' = s\<lparr>engines := (engines s)[i := g], shared := st\<rparr>" by (auto simp: rbind_Inr_iff)
    note c = engine_conserves[OF RunEngines_move[OF env g]]
    have "mset (processed (shared s) m) + (\<Sum>g\<leftarrow>engines s. got_by m g) =
        mset (processed st m) + (\<Sum>g\<leftarrow>(engines s)[i := g]. got_by m g) + mset (map fst (fetched_of m [a]))" for m
      using move_between[OF c(1)[of m] sum_list_update_mset[OF True, where w' = g and f = "got_by m"]] .
    with inv s' c(2-11) show ?thesis by (auto simp: conserved_def ac_simps)
  qed (use step inv Engine in auto)
next
  case (Stop m)
  then have q: "a = Quiet" and s': "s' = s \<or> Stop_step e nd ne m s = Inr s'"
    using step by (auto simp: rbind_Inr_iff split: if_splits)
  have h: "map (held_by m) ds = map2 (\<lambda>v p. if v = m then in_hand p else {#}) (map d_server ds) (map d_pc ds)" for m ds
    by (induction ds) (simp_all add: held_by_def)
  have g: "map (got_by m) gs = map2 (\<lambda>v p. if v = m then to_get p else {#}) (map g_server gs) (map g_pc gs)" for m gs
    by (induction gs) (simp_all add: got_by_def)
  have p: "map (\<lambda>d. f (d_pc d)) ds = map f (map d_pc ds)" for ds and f :: "daemon_pc \<Rightarrow> 'x" by simp
  from s' have "conserved tr s' = conserved tr s"
  proof
    assume "Stop_step e nd ne m s = Inr s'"
    note k = Stop_step_keeps[OF this]
    show ?thesis unfolding conserved_def h g p k ..
  qed simp
  with inv q show ?thesis by simp
qed

section \<open>Numbers and the map\<close>

definition kept :: "env \<Rightarrow> test_action list \<Rightarrow> test_state \<Rightarrow> bool" where
  "kept e tr s \<longleftrightarrow>
     dhm_invar (processed_map e) (pmap (shared s)) \<and>
     dhm_lookup (processed_map e) (pmap (shared s)) = map_of (rev (stored tr)) \<and>
     numbers (shared s) 0 = length (numbered tr) \<and>
     map fst (numbered tr) = [1..<Suc (length (numbered tr))]"

lemma kept_Quiet [simp]: "kept e (tr @ [Quiet]) s = kept e tr s"
  by (simp only: kept_def moves_trace_append trace_Quiet append_Nil2)

lemma daemon_keeps:
  assumes "daemon_move e d (shared s) a d' st'" and "kept e tr s" and "length (numbered (tr @ [a])) < 2 ^ 64"
  shows "kept e (tr @ [a]) (s\<lparr>daemons := ds, shared := st'\<rparr>)"
  using assms
proof cases
  case (number ev n)
  then have "n = Suc (length (numbered tr))" using assms(2,3) by (simp add: kept_def next_number_def numbered_def)
  with number assms(2) show ?thesis by (auto simp: kept_def trace_defs)
next
  case (store n ev b m)
  have inv: "dhm_invar (processed_map e) (pmap (shared s))" using assms(2) by (simp add: kept_def)
  have "m = (pmap (shared s))(owner (processed_map e) n := DHM_Put_local n ev (pmap (shared s) (owner (processed_map e) n)))"
    using store(5) by (simp add: DHM_Put_run[OF dhm_invar_wf[OF inv]])
  then have "dhm_invar (processed_map e) m" "dhm_lookup (processed_map e) m = (map_of (rev (stored tr)))(n \<mapsto> ev)"
    using assms(2) by (simp_all add: kept_def dhm_invar_Put_local dhm_lookup_Put_local)
  with store assms(2) show ?thesis by (simp add: kept_def trace_defs)
qed (auto simp: kept_def trace_defs)

lemma step_keeps:
  assumes env: "test_env e" and step: "test_step e nd ne mv s = Inr (a, s')" and inv: "kept e tr s"
    and small: "length (numbered (tr @ [a])) < 2 ^ 64"
  shows "kept e (tr @ [a]) s'"
proof (cases mv)
  case (Client m ev)
  with step inv show ?thesis by (auto simp: kept_def client_PushEvent_def)
next
  case (Daemon i)
  with step inv daemon_keeps[OF RunDaemons_move[OF env] inv small] show ?thesis
    by (auto simp: rbind_Inr_iff split: if_splits)
next
  case (Engine i)
  show ?thesis
  proof (cases "i < length (engines s)")
    case True
    with step Engine obtain g st where g: "RunEngines e (engines s ! i) (shared s) = Inr (a, g, st)"
      and s': "s' = s\<lparr>engines := (engines s)[i := g], shared := st\<rparr>" by (auto simp: rbind_Inr_iff)
    from inv s' engine_conserves(3,4,6,7)[OF RunEngines_move[OF env g]] show ?thesis by (simp add: kept_def)
  qed (use step inv Engine in auto)
next
  case (Stop m)
  then have "a = Quiet \<and> shared s' = shared s"
    using step Stop_step_keeps(1) by (auto simp: rbind_Inr_iff split: if_splits)
  with inv show ?thesis by (simp add: kept_def)
qed

lemma test_run_conserved: "conserved [] (test_run n nd ne)" and test_run_kept: "test_env e \<Longrightarrow> kept e [] (test_run n nd ne)"
proof -
  have "(\<Sum>i\<leftarrow>xs. {#}) = {#}" for xs :: "nat list" by (induction xs) simp_all
  moreover have "held_by m \<lparr>d_server = v, d_pc = D_check, d_signal = b\<rparr> = {#}"
    "got_by m \<lparr>g_server = v, g_pc = E_check, g_signal = b\<rparr> = {#}" for m v b
    by (simp_all add: held_by_def got_by_def)
  ultimately show "conserved [] (test_run n nd ne)"
    by (simp add: conserved_def test_run_def DMQ_init_def comp_def)
  show "kept e [] (test_run n nd ne)" if "test_env e"
    using dhm_invar_init[OF test_env_map[OF that]] by (simp add: kept_def test_run_def GlobalSequence_init_def)
qed

lemma moves_length: "test_moves e nd ne mvs s = Inr (tr, s') \<Longrightarrow> length tr = length mvs"
  by (induction mvs arbitrary: s tr) (auto simp: rbind_Inr_iff)

lemma moves_invar:
  assumes "test_env e" and "test_moves e nd ne mvs s = Inr (tr', s')" and "conserved tr s" "kept e tr s"
    and "length tr + length mvs < 2 ^ 64"
  shows "conserved (tr @ tr') s' \<and> kept e (tr @ tr') s'"
  using assms(2-)
proof (induction mvs arbitrary: s tr tr')
  case (Cons mv mvs)
  then obtain a s1 tr1 where a: "test_step e nd ne mv s = Inr (a, s1)" "test_moves e nd ne mvs s1 = Inr (tr1, s')" "tr' = a # tr1"
    by (auto simp: rbind_Inr_iff)
  have "length (numbered (tr @ [a])) < 2 ^ 64" using numbered_bound[of "tr @ [a]"] Cons.prems(4) by simp
  with Cons.IH[OF a(2) step_conserves_test[OF assms(1) a(1) Cons.prems(2)] step_keeps[OF assms(1) a(1) Cons.prems(3)]] a(3) Cons.prems(4)
  show ?case by simp
qed simp

lemma run_invar_test:
  assumes "test_env e" and "test_moves e nd ne mvs (test_run n nd ne) = Inr (tr, s)" and "length mvs < 2 ^ 64"
  shows "conserved tr s" and "kept e tr s"
  using moves_invar[OF assms(1,2) test_run_conserved test_run_kept[OF assms(1)]] assms(3) by simp_all

text \<open>Each number is given to one event, and stored and announced at most once.\<close>

lemma numbered_distinct: "kept e tr s \<Longrightarrow> distinct (map fst (numbered tr))"
  by (simp add: kept_def)

lemma distinct_submset:
  assumes "mset xs \<subseteq># mset ys" and "distinct ys"
  shows "distinct xs"
proof -
  obtain zs where "mset ys = mset (xs @ zs)" using assms(1) by (metis ex_mset mset_append mset_subset_eq_exists_conv)
  with assms(2) show ?thesis by (metis distinct_append mset_eq_imp_distinct_iff)
qed

lemma stored_numbered:
  assumes "conserved tr s" and "kept e tr s"
  shows "distinct (map fst (stored tr))" and "set (stored tr) \<subseteq> set (numbered tr)"
proof -
  have sub: "mset (stored tr) \<subseteq># mset (numbered tr)" using assms(1) by (simp add: conserved_def)
  then show "set (stored tr) \<subseteq> set (numbered tr)" by (metis set_mset_mono set_mset_mset)
  from sub have "mset (map fst (stored tr)) \<subseteq># mset (map fst (numbered tr))" by (simp add: image_mset_subseteq_mono)
  then show "distinct (map fst (stored tr))"
    using numbered_distinct[OF assms(2)] by (rule distinct_submset)
qed

lemma stored_lookup:
  assumes "conserved tr s" and "kept e tr s"
  shows "dhm_lookup (processed_map e) (pmap (shared s)) k = map_of (stored tr) k"
proof -
  have "map_of (rev (stored tr)) = map_of (stored tr)"
    using stored_numbered(1)[OF assms] by (simp add: map_of_inject_set distinct_map rev_map)
  then show ?thesis using assms(2) by (simp add: kept_def)
qed

section \<open>What engines get\<close>

lemma moves_split:
  assumes "test_moves e nd ne mvs s = Inr (tr1 @ a # tr2, s')"
  shows "\<exists>mvs1 mv s1 s2. test_moves e nd ne mvs1 s = Inr (tr1, s1) \<and> test_step e nd ne mv s1 = Inr (a, s2) \<and>
    length mvs1 < length mvs"
  using assms
proof (induction mvs arbitrary: s tr1)
  case (Cons mv mvs)
  then obtain b s1 tr where b: "test_step e nd ne mv s = Inr (b, s1)" "test_moves e nd ne mvs s1 = Inr (tr, s')"
    "tr1 @ a # tr2 = b # tr" by (auto simp: rbind_Inr_iff)
  show ?case
  proof (cases tr1)
    case Nil
    with b show ?thesis by (intro exI[of _ "[]"] exI[of _ mv]) auto
  next
    case (Cons b' tr1')
    with b(3) have "tr = tr1' @ a # tr2" "b' = b" by auto
    with Cons.IH[of s1 tr1'] b(2) obtain mvs1 mv' s2 s3 where "test_moves e nd ne mvs1 s1 = Inr (tr1', s2)"
      "test_step e nd ne mv' s2 = Inr (a, s3)" "length mvs1 < length mvs" by auto
    with b(1) Cons \<open>b' = b\<close> show ?thesis by (intro exI[of _ "mv # mvs1"] exI[of _ mv']) auto
  qed
qed simp

inductive_cases fetch_move: "engine_move e g st (Fetched m k r) g' st'"
inductive_cases daemon_fetches: "daemon_move e d st (Fetched m k r) d' st'"

lemma fetch_step:
  assumes "test_env e" and "test_step e nd ne mv s = Inr (Fetched m k r, s')"
  obtains i where "i < length (engines s)" "g_pc (engines s ! i) = E_get k" "g_server (engines s ! i) = m"
    "r = dhm_lookup (processed_map e) (pmap (shared s)) k"
proof (cases mv)
  case (Daemon i)
  with assms(2) show thesis
    by (auto simp: rbind_Inr_iff split: if_splits dest!: RunDaemons_move[OF assms(1)] elim: daemon_fetches)
next
  case (Engine i)
  with assms(2) that[of i] show thesis
    by (auto simp: rbind_Inr_iff split: if_splits dest!: RunEngines_move[OF assms(1)] elim!: fetch_move)
qed (use assms(2) in \<open>auto simp: rbind_Inr_iff client_PushEvent_def split: if_splits\<close>)

lemma sum_list_member: "x \<in> set xs \<Longrightarrow> f x \<subseteq># (\<Sum>x\<leftarrow>xs. f x :: 'a multiset)"
  by (induction xs) (auto intro: subset_mset.order_trans)

lemma fetch_in_order:
  assumes env: "test_env e" and run: "test_moves e nd ne mvs (test_run n nd ne) = Inr (tr1 @ Fetched m k r # tr2, s)"
    and small: "length mvs < 2 ^ 64"
  shows "\<exists>ev. (k, ev) \<in> set (numbered tr1) \<and> r = (if (k, ev) \<in> set (stored tr1) then Some ev else None)"
    and "k \<notin> fst ` set (fetched_of m tr1)"
proof -
  obtain mvs1 mv s1 s2 where s1: "test_moves e nd ne mvs1 (test_run n nd ne) = Inr (tr1, s1)"
    "test_step e nd ne mv s1 = Inr (Fetched m k r, s2)" "length mvs1 < length mvs"
    using moves_split[OF run] by blast
  then have "length mvs1 < 2 ^ 64" using small by simp
  note inv = run_invar_test[OF env s1(1) this]
  obtain i where i: "i < length (engines s1)" "g_pc (engines s1 ! i) = E_get k" "g_server (engines s1 ! i) = m"
    "r = dhm_lookup (processed_map e) (pmap (shared s1)) k"
    using fetch_step[OF env s1(2)] .
  have "{#k#} \<subseteq># (\<Sum>g\<leftarrow>engines s1. got_by m g)"
    using sum_list_member[of "engines s1 ! i" "engines s1" "got_by m"] i(1-3) by (simp add: got_by_def)
  then obtain R where "(\<Sum>g\<leftarrow>engines s1. got_by m g) = {#k#} + R" using mset_subset_eq_exists_conv by metis
  then have a: "mset (announced_of m tr1) = mset (processed (shared s1) m) + ({#k#} + R) + mset (map fst (fetched_of m tr1))"
    using inv(1) unfolding conserved_def by metis
  have "mset (announced tr1) \<subseteq># mset (map fst (numbered tr1))"
    using inv(1) unfolding conserved_def by (metis mset_subset_eq_add_left)
  then have sub: "mset (announced_of m tr1) \<subseteq># mset (map fst (numbered tr1))"
    using traces_of_sub(2) subset_mset.order_trans by blast
  have "mset (k # map fst (fetched_of m tr1)) \<subseteq># mset (announced_of m tr1)" unfolding a by simp
  moreover have "distinct (announced_of m tr1)" using distinct_submset[OF sub numbered_distinct[OF inv(2)]] .
  ultimately have "distinct (k # map fst (fetched_of m tr1))" by (rule distinct_submset)
  then show "k \<notin> fst ` set (fetched_of m tr1)" by simp
  have "k \<in># mset (announced_of m tr1)" unfolding a by simp
  then have "k \<in> set (map fst (numbered tr1))" using mset_subset_eqD[OF sub] by simp
  then obtain ev where ev: "(k, ev) \<in> set (numbered tr1)" by auto
  have "map_of (stored tr1) k = (if (k, ev) \<in> set (stored tr1) then Some ev else None)"
  proof (cases "k \<in> fst ` set (stored tr1)")
    case True
    then obtain ev' where st: "(k, ev') \<in> set (stored tr1)" by auto
    then have "(k, ev') \<in> set (numbered tr1)" using stored_numbered(2)[OF inv] by blast
    then have "ev' = ev" using ev numbered_distinct[OF inv(2)] by (metis eq_key_imp_eq_value)
    with st show ?thesis using stored_numbered(1)[OF inv] by simp
  next
    case False
    then have "map_of (stored tr1) k = None" by (simp add: map_of_eq_None_iff)
    with False show ?thesis by force
  qed
  with ev i(4) show "\<exists>ev. (k, ev) \<in> set (numbered tr1) \<and> r = (if (k, ev) \<in> set (stored tr1) then Some ev else None)"
    using stored_lookup[OF inv] by metis
qed

text \<open>No call of a thread fails, whatever the schedule.\<close>

lemma step_runs:
  assumes "test_env e"
  shows "\<exists>a s'. test_step e nd ne mv s = Inr (a, s')"
proof (cases mv)
  case (Daemon i)
  show ?thesis
    by (cases "d_pc (daemons s ! i)")
      (simp_all add: Daemon RunDaemons.simps test_env_sequence[OF assms] DHM_Put_run[OF test_env_map[OF assms]])
next
  case (Engine i)
  show ?thesis
    by (cases "g_pc (engines s ! i)") (simp_all add: Engine RunEngines.simps DHM_Get_run[OF test_env_map[OF assms]])
next
  case (Stop m)
  then show ?thesis by (cases "stop_pc s m") (simp_all add: Stop_step.simps)
qed (simp add: client_PushEvent_def)

lemma moves_run: "test_env e \<Longrightarrow> \<exists>tr s'. test_moves e nd ne mvs s = Inr (tr, s')"
proof (induction mvs arbitrary: s)
  case (Cons mv mvs)
  from step_runs[OF Cons.prems] obtain a s1 where "test_step e nd ne mv s = Inr (a, s1)" by blast
  with Cons.IH[OF Cons.prems, of s1] show ?case by auto
qed simp

section \<open>Stopping\<close>

fun joined_daemon :: "nat \<Rightarrow> test_stop \<Rightarrow> bool" where
  "joined_daemon j (T_daemons k) \<longleftrightarrow> j < k"
| "joined_daemon j (T_engines k) \<longleftrightarrow> True"
| "joined_daemon j T_done \<longleftrightarrow> True"
| "joined_daemon j _ \<longleftrightarrow> False"

definition joins :: "nat \<Rightarrow> nat \<Rightarrow> test_state \<Rightarrow> bool" where
  "joins n nd s \<longleftrightarrow> map d_server (daemons s) = map (\<lambda>i. i div nd) [0..<n * nd] \<and>
     (\<forall>m<n. \<forall>j<nd. joined_daemon j (stop_pc s m) \<longrightarrow> d_pc (daemons s ! (m * nd + j)) = D_left)"

lemma index_of_daemon: "m < n \<Longrightarrow> j < nd \<Longrightarrow> m * nd + j < n * (nd::nat)"
proof -
  assume "m < n" "j < nd"
  then have "m * nd + j < (m + 1) * nd" by simp
  also have "\<dots> \<le> n * nd" using \<open>m < n\<close> by (intro mult_right_mono) simp_all
  finally show ?thesis .
qed

lemma joins_Stop:
  assumes "joins n nd s" and "m < n" and "Stop_step e nd ne m s = Inr s'"
  shows "joins n nd s'"
proof -
  note k = Stop_step_keeps[OF assms(3)]
  have len: "length (daemons s) = n * nd" using assms(1) unfolding joins_def by (metis length_map length_upt minus_nat.diff_0)
  have pc: "d_pc (daemons s' ! i) = d_pc (daemons s ! i)" if "i < n * nd" for i
    using k(3) len that by (metis length_map nth_map)
  have new: "joined_daemon j (stop_pc s m) \<or> d_pc (daemons s ! (m * nd + j)) = D_left"
    if "j < nd" "joined_daemon j (stop_pc s' m)" for j
    using assms(3) that
    by (cases "stop_pc s m")
      (auto simp: Stop_step.simps Stop_daemon_def Stop_engine_def set_stop_def Let_def less_Suc_eq split: if_splits)
  have other: "stop_pc s' m' = stop_pc s m'" if "m' \<noteq> m" for m'
    using assms(3) that
    by (cases "stop_pc s m")
      (auto simp: Stop_step.simps Stop_daemon_def Stop_engine_def set_stop_def Let_def split: if_splits)
  have "d_pc (daemons s' ! (m' * nd + j)) = D_left"
    if "m' < n" "j < nd" "joined_daemon j (stop_pc s' m')" for m' j
    using that assms(1) new[of j] other[of m'] pc[OF index_of_daemon[OF that(1,2)]] by (cases "m' = m") (auto simp: joins_def)
  with assms(1) k(2) show ?thesis by (simp add: joins_def)
qed

lemma joins_step:
  assumes "joins (env_servers e) nd s" and "test_env e" and "test_step e nd ne mv s = Inr (a, s')"
  shows "joins (env_servers e) nd s'"
proof (cases mv)
  case (Daemon i)
  show ?thesis
  proof (cases "i < length (daemons s)")
    case True
    with assms(3) Daemon obtain d st where d: "RunDaemons e (daemons s ! i) (shared s) = Inr (a, d, st)"
      and s': "s' = s\<lparr>daemons := (daemons s)[i := d], shared := st\<rparr>" by (auto simp: rbind_Inr_iff)
    note c = daemon_conserves(7,9)[OF RunDaemons_move[OF assms(2) d]]
    have "d_pc ((daemons s)[i := d] ! x) = D_left" if "d_pc (daemons s ! x) = D_left" for x
      using that c(2) True by (cases "x = i") auto
    with assms(1) s' c(1) show ?thesis by (auto simp: joins_def map_update_same)
  qed (use assms Daemon in auto)
next
  case (Stop m)
  with assms joins_Stop show ?thesis by (auto simp: rbind_Inr_iff split: if_splits)
qed (use assms in \<open>auto simp: joins_def rbind_Inr_iff split: if_splits\<close>)

lemma joins_start: "joins n nd (test_run n nd ne)"
  by (simp add: joins_def test_run_def comp_def)

lemma joins_moves:
  assumes "test_env e" and "test_moves e nd ne mvs s = Inr (tr, s')" and "joins (env_servers e) nd s"
  shows "joins (env_servers e) nd s'"
  using assms(2,3)
proof (induction mvs arbitrary: s tr)
  case (Cons mv mvs)
  from Cons.prems(1) obtain a s1 tr1 where "test_step e nd ne mv s = Inr (a, s1)" "test_moves e nd ne mvs s1 = Inr (tr1, s')"
    by (auto simp: rbind_Inr_iff)
  with Cons.IH joins_step[OF Cons.prems(2) assms(1)] show ?case by blast
qed simp

text \<open>Once \<open>Stop\<close> has seen the message queue empty, it stays empty while nothing is sent.\<close>

definition waits :: "nat \<Rightarrow> test_state \<Rightarrow> bool" where
  "waits m s \<longleftrightarrow> stop_pc s m \<in> {T_running, T_messages}"

lemma drained_step:
  assumes env: "test_env e" and step: "test_step e nd ne mv s = Inr (a, s')" and "waits m s \<or> messages (shared s) m = []"
    and "sent_of m [a] = []"
  shows "waits m s' \<or> messages (shared s') m = []"
proof (cases mv)
  case (Client m' ev)
  with step assms(3,4) show ?thesis by (auto simp: client_PushEvent_def waits_def split: if_splits)
next
  case (Daemon i)
  have "messages st' m = []" if "daemon_move e d st a d' st'" "messages st m = []" for d st d' st'
    using that by cases auto
  with step assms(3) Daemon show ?thesis
    by (auto simp: rbind_Inr_iff waits_def split: if_splits dest!: RunDaemons_move[OF env])
next
  case (Engine i)
  show ?thesis
  proof (cases "i < length (engines s)")
    case True
    with step Engine obtain g st where g: "RunEngines e (engines s ! i) (shared s) = Inr (a, g, st)"
      and s': "s' = s\<lparr>engines := (engines s)[i := g], shared := st\<rparr>" by (auto simp: rbind_Inr_iff)
    with engine_conserves(2)[OF RunEngines_move[OF env g]] assms(3) show ?thesis by (simp add: waits_def)
  qed (use step assms(3) Engine in auto)
next
  case (Stop m')
  have "waits m s' \<or> messages (shared s') m = []" if "Stop_step e nd ne m' s = Inr s'"
    using that assms(3)
    by (cases "stop_pc s m'"; cases "m' = m")
      (auto simp: Stop_step.simps Stop_daemon_def Stop_engine_def set_stop_def waits_def Let_def split: if_splits)
  with step Stop assms(3) show ?thesis by (auto simp: rbind_Inr_iff split: if_splits)
qed

lemma drained_moves:
  assumes "test_env e" and "test_moves e nd ne mvs s = Inr (tr, s')" and "waits m s \<or> messages (shared s) m = []"
    and "sent_of m tr = []"
  shows "waits m s' \<or> messages (shared s') m = []"
  using assms(2-)
proof (induction mvs arbitrary: s tr)
  case (Cons mv mvs)
  from Cons.prems(1) obtain a s1 tr1 where a: "test_step e nd ne mv s = Inr (a, s1)" "test_moves e nd ne mvs s1 = Inr (tr1, s')"
    "tr = [a] @ tr1" by (auto simp: rbind_Inr_iff)
  then have "sent_of m [a] = []" "sent_of m tr1 = []" using Cons.prems(3) unfolding a(3) moves_trace_append by simp_all
  with Cons.IH[OF a(2) drained_step[OF assms(1) a(1) Cons.prems(2)]] show ?case by blast
qed simp

lemma sum_list_empty: "(\<And>x. x \<in> set xs \<Longrightarrow> f x = {#}) \<Longrightarrow> (\<Sum>x\<leftarrow>xs. f x) = {#}"
  by (induction xs) simp_all

lemma held_none_test:
  assumes "joins n nd s" and "m < n" and "stop_pc s m = T_done"
  shows "(\<Sum>d\<leftarrow>daemons s. held_by m d) = {#}"
proof -
  have len: "length (daemons s) = n * nd" using assms(1) unfolding joins_def by (metis length_map length_upt minus_nat.diff_0)
  have "held_by m d = {#}" if d_in: "d \<in> set (daemons s)" for d
  proof (cases "d_server d = m")
    case True
    obtain i where "i < length (daemons s)" and d: "d = daemons s ! i" using d_in by (auto simp: in_set_conv_nth)
    with len have i: "i < n * nd" "d = daemons s ! i" by simp_all
    have "d_server d = map d_server (daemons s) ! i" using i len by simp
    also have "\<dots> = i div nd" using assms(1) i(1) by (simp add: joins_def)
    finally have "d_server d = i div nd" .
    with True have "i = m * nd + i mod nd" by (metis div_mult_mod_eq)
    moreover have "i mod nd < nd" using i(1) by (cases "nd = 0") simp_all
    moreover have "d_pc (daemons s ! (m * nd + i mod nd)) = D_left" using assms \<open>i mod nd < nd\<close> by (simp add: joins_def)
    ultimately have "d_pc d = D_left" using i(2) by simp
    then show ?thesis by (simp add: held_by_def)
  qed (simp add: held_by_def)
  then show ?thesis by (rule sum_list_empty)
qed

lemma moves_append:
  "test_moves e nd ne mvs1 s = Inr (tr1, s1) \<Longrightarrow> test_moves e nd ne mvs2 s1 = Inr (tr2, s2) \<Longrightarrow>
    test_moves e nd ne (mvs1 @ mvs2) s = Inr (tr1 @ tr2, s2)"
  by (induction mvs1 arbitrary: s tr1) (auto simp: rbind_Inr_iff)

lemma stop_stores:
  assumes env: "test_env e" and m: "m < env_servers e"
    and before: "test_moves e nd ne mvs1 (test_run (env_servers e) nd ne) = Inr (tr1, s1)" "waits m s1"
    and after: "test_moves e nd ne mvs2 s1 = Inr (tr2, s2)" "stop_pc s2 m = T_done" "sent_of m tr2 = []"
    and small: "length mvs1 + length mvs2 < 2 ^ 64"
  shows "mset (sent_of m (tr1 @ tr2)) = mset (map snd (stored_of m (tr1 @ tr2)))"
    and "(k, ev) \<in> set (stored_of m (tr1 @ tr2)) \<Longrightarrow> DHM_Get (processed_map e) m' k (pmap (shared s2)) = Inr (Some ev)"
proof -
  note run = moves_append[OF before(1) after(1)]
  note inv = run_invar_test[OF env run, unfolded length_append, OF small]
  have "waits m s2 \<or> messages (shared s2) m = []"
    using drained_moves[OF env after(1) disjI1[OF before(2)] after(3)] .
  then have "messages (shared s2) m = []" using after(2) by (simp add: waits_def)
  moreover have "(\<Sum>d\<leftarrow>daemons s2. held_by m d) = {#}"
    using held_none_test[OF joins_moves[OF env run joins_start] m after(2)] .
  moreover have "mset (sent_of m (tr1 @ tr2)) = mset (messages (shared s2) m) + (\<Sum>d\<leftarrow>daemons s2. held_by m d) +
      mset (map snd (stored_of m (tr1 @ tr2)))"
    using inv(1) unfolding conserved_def by blast
  ultimately show "mset (sent_of m (tr1 @ tr2)) = mset (map snd (stored_of m (tr1 @ tr2)))" by simp
  assume "(k, ev) \<in> set (stored_of m (tr1 @ tr2))"
  then have "(k, ev) \<in> set (stored (tr1 @ tr2))" using mset_subset_eqD[OF traces_of_sub(1)] by (metis set_mset_mset)
  then have "map_of (stored (tr1 @ tr2)) k = Some ev" by (rule map_of_is_SomeI[OF stored_numbered(1)[OF inv]])
  then show "DHM_Get (processed_map e) m' k (pmap (shared s2)) = Inr (Some ev)"
    using stored_lookup[OF inv] by (simp only: DHM_Get_run[OF test_env_map[OF env]])
qed

section \<open>The loop of the client\<close>

definition batch_event :: "nat \<Rightarrow> EventTest" where
  "batch_event i = \<lparr>et_filename = ''file.bat'', et_offset = 1048576 * int i, et_size = 1048576, et_time = int i\<rparr>"

lemma client_event_run:
  "client_event (int i) = (if i < 2048 then Inr (batch_event i) else Inl (Undefined SignedOverflow))"
proof -
  have "CharStruct ''file.bat'' = Inr ''file.bat''" by (rule CharStruct_fits) (simp_all add: MAX_STRING_LENGTH_def)
  then show ?thesis by (simp add: client_event_def int32_result_def EventTest_default_def batch_event_def)
qed

lemma client_loop_run:
  "i \<le> 2048 \<Longrightarrow> client_loop e me n (int i) q =
    (if i + n \<le> 2048 then Inr (q(me := q me @ map batch_event [i..<i + n])) else Inl (Undefined SignedOverflow))"
proof (induction n arbitrary: i q)
  case (Suc n)
  show ?case
  proof (cases "i < 2048")
    case True
    have "int32_result (int i + 1) = Inr (int (Suc i))" using True by (simp add: int32_result_def)
    moreover have "[i..<i + Suc n] = i # [Suc i..<Suc i + n]" by (simp add: upt_conv_Cons del: upt_Suc)
    ultimately show ?thesis using True Suc.IH[of "Suc i"]
      by (auto simp: client_event_run client_PushEvent_def fun_upd_def simp del: of_nat_Suc upt_Suc)
  next
    case False
    then have "client_event (int i) = Inl (Undefined SignedOverflow)" using client_event_run[of i] by simp
    with False show ?thesis by simp
  qed
qed simp

section \<open>Two schedules\<close>

text \<open>Two servers with a daemon and an engine each.\<close>

definition example_test_env :: env where
  "example_test_env = example_env\<lparr>env_funcs := DHM_bindings ''PROCESSED_EVENTS_MAP'' @ GlobalSequence_bindings ''EventSequence''\<rparr>"

lemma example_test_env: "test_env example_test_env"
  by (simp add: test_env_def example_test_env_def example_env_def bound_in_binds binds_def DHM_bindings_def
      GlobalSequence_bindings_def um_find_def)

lemma example_servers [simp]: "env_servers example_test_env = 2"
  by (simp add: example_test_env_def example_env_def)

lemma example_test_start:
  "test_run 2 1 1 =
    \<lparr>shared = \<lparr>messages = \<lambda>_. [], processed = \<lambda>_. [], numbers = \<lambda>_. 0, pmap = DHM_init\<rparr>,
     daemons = [\<lparr>d_server = 0, d_pc = D_check, d_signal = False\<rparr>, \<lparr>d_server = 1, d_pc = D_check, d_signal = False\<rparr>],
     engines = [\<lparr>g_server = 0, g_pc = E_check, g_signal = False\<rparr>, \<lparr>g_server = 1, g_pc = E_check, g_signal = False\<rparr>],
     stop_pc = \<lambda>_. T_running\<rparr>"
  by (simp add: test_run_def DMQ_init_def GlobalSequence_init_def upt_rec)

lemmas example_runs = example_test_start [unfolded One_nat_def] RunDaemons.simps RunEngines.simps Stop_step.simps
  Stop_daemon_def Stop_engine_def set_stop_def Let_def client_PushEvent_def next_number_def
  test_env_sequence[OF example_test_env] DHM_Put_run[OF test_env_map[OF example_test_env]]
  DHM_Get_run[OF test_env_map[OF example_test_env]]

text \<open>An engine asks for an event before the daemon, which has announced its number, has stored it.\<close>

definition early_engine :: "move list" where
  "early_engine = [Client 1 (batch_event 3), Daemon 1, Daemon 1, Daemon 1, Daemon 1, Daemon 1, Engine 1, Engine 1, Engine 1,
     Daemon 1]"

lemma early_engine_trace:
  "\<exists>s. test_moves example_test_env 1 1 early_engine (test_run 2 1 1) =
     Inr ([Sent 1 (batch_event 3), Quiet, Quiet, Taken 1 (batch_event 3), Numbered 1 1 (batch_event 3), Announced 1 1,
       Quiet, Drawn 1 1, Fetched 1 1 None, Stored 1 1 (batch_event 3)], s) \<and> processed (shared s) 1 = []"
  by (simp add: early_engine_def example_runs)

text \<open>The daemon has taken the last event when \<open>Stop\<close> looks at both queues: it announces the number afterwards, and the
  engine is told to leave before it has seen it.\<close>

definition late_stop :: "move list" where
  "late_stop = [Stop 1, Stop 1, Stop 1, Daemon 1, Daemon 1, Daemon 1, Stop 1, Daemon 1, Stop 1, Stop 1, Stop 1, Engine 1,
     Stop 1, Stop 1]"

lemma late_stop_trace:
  "\<exists>s1 s2. test_moves example_test_env 1 1 [Client 1 (batch_event 3), Daemon 1, Daemon 1, Daemon 1] (test_run 2 1 1) =
       Inr ([Sent 1 (batch_event 3), Quiet, Quiet, Taken 1 (batch_event 3)], s1) \<and> waits 1 s1 \<and>
     test_moves example_test_env 1 1 late_stop s1 =
       Inr ([Quiet, Quiet, Quiet, Numbered 1 1 (batch_event 3), Announced 1 1, Stored 1 1 (batch_event 3), Quiet, Quiet,
         Quiet, Quiet, Quiet, Quiet, Quiet, Quiet], s2) \<and>
     stop_pc s2 1 = T_done \<and> processed (shared s2) 1 = [1] \<and> map g_pc (engines s2) = [E_check, E_left]"
  by (simp add: late_stop_def waits_def example_runs)

section \<open>Properties\<close>

text \<open>C19: When \<open>Stop\<close> has returned on a server, and nothing was sent to it after \<open>Stop\<close> found its message queue empty,
  every event sent to it is stored, each once and under a number of its own: any server that asks for the number
  gets the event.\<close>

theorem stop_stores_everything:
  assumes "test_env e" and "m < env_servers e"
    and "test_moves e nd ne mvs1 (test_run (env_servers e) nd ne) = Inr (tr1, s1)" and "waits m s1"
    and "test_moves e nd ne mvs2 s1 = Inr (tr2, s2)" and "stop_pc s2 m = T_done" and "sent_of m tr2 = []"
    and "length mvs1 + length mvs2 < 2 ^ 64"
  shows "mset (sent_of m (tr1 @ tr2)) = mset (map snd (stored_of m (tr1 @ tr2))) \<and>
    distinct (map fst (stored_of m (tr1 @ tr2))) \<and>
    (\<forall>(k, ev)\<in>set (stored_of m (tr1 @ tr2)). DHM_Get (processed_map e) m' k (pmap (shared s2)) = Inr (Some ev))"
proof (intro conjI)
  show "mset (sent_of m (tr1 @ tr2)) = mset (map snd (stored_of m (tr1 @ tr2)))" by (rule stop_stores(1)[OF assms])
  note run = run_invar_test[OF assms(1) moves_append[OF assms(3,5)], unfolded length_append, OF assms(8)]
  have "mset (map fst (stored_of m (tr1 @ tr2))) \<subseteq># mset (map fst (stored (tr1 @ tr2)))"
    using image_mset_subseteq_mono[OF traces_of_sub(1)] by (simp only: mset_map)
  then show "distinct (map fst (stored_of m (tr1 @ tr2)))" using stored_numbered(1)[OF run] by (rule distinct_submset)
  show "\<forall>(k, ev)\<in>set (stored_of m (tr1 @ tr2)). DHM_Get (processed_map e) m' k (pmap (shared s2)) = Inr (Some ev)"
    using stop_stores(2)[OF assms] by blast
qed

theorem stop_stores_everything_witness:
  "\<exists>s1 s2. test_moves example_test_env 1 1 [Client 1 (batch_event 3), Daemon 1, Daemon 1, Daemon 1] (test_run 2 1 1) =
       Inr ([Sent 1 (batch_event 3), Quiet, Quiet, Taken 1 (batch_event 3)], s1) \<and>
     map_sum id snd (test_moves example_test_env 1 1 late_stop s1) = Inr s2 \<and>
     DHM_Get (processed_map example_test_env) 0 1 (pmap (shared s2)) = Inr (Some (batch_event 3))"
proof -
  obtain s1 s2 where s: "test_moves example_test_env 1 1 [Client 1 (batch_event 3), Daemon 1, Daemon 1, Daemon 1] (test_run 2 1 1) =
       Inr ([Sent 1 (batch_event 3), Quiet, Quiet, Taken 1 (batch_event 3)], s1)" "waits 1 s1"
    "test_moves example_test_env 1 1 late_stop s1 =
       Inr ([Quiet, Quiet, Quiet, Numbered 1 1 (batch_event 3), Announced 1 1, Stored 1 1 (batch_event 3), Quiet, Quiet,
         Quiet, Quiet, Quiet, Quiet, Quiet, Quiet], s2)" "stop_pc s2 1 = T_done"
    using late_stop_trace by blast
  note n = example_servers
  have "DHM_Get (processed_map example_test_env) 0 1 (pmap (shared s2)) = Inr (Some (batch_event 3))"
    using stop_stores_everything[OF example_test_env _ s(1)[folded n] s(2,3,4), of 0] n
    by (simp add: sent_of_def stored_of_def late_stop_def)
  with s(1,3) show ?thesis by simp
qed

text \<open>C20: An engine never gets an event that is not the one the number was given to, never the same number twice on
  its server, and gets the event if and only if the daemon has stored it before; the number is announced first, so
  an engine that is fast finds nothing.\<close>

theorem engines_get_numbered_events:
  assumes "test_env e" and "test_moves e nd ne mvs (test_run n nd ne) = Inr (tr1 @ Fetched m k r # tr2, s)"
    and "length mvs < 2 ^ 64"
  shows "k \<notin> fst ` set (fetched_of m tr1) \<and>
    (\<exists>ev. (k, ev) \<in> set (numbered tr1) \<and> r = (if (k, ev) \<in> set (stored tr1) then Some ev else None))"
  using fetch_in_order[OF assms] by blast

theorem engines_get_numbered_events_witness:
  "\<exists>s. test_moves example_test_env 1 1 early_engine (test_run 2 1 1) =
     Inr ([Sent 1 (batch_event 3), Quiet, Quiet, Taken 1 (batch_event 3), Numbered 1 1 (batch_event 3), Announced 1 1,
       Quiet, Drawn 1 1] @ Fetched 1 1 None # [Stored 1 1 (batch_event 3)], s) \<and>
     (\<exists>ev. (1, ev) \<in> set [(1::nat, batch_event 3)])"
proof -
  obtain s where s: "test_moves example_test_env 1 1 early_engine (test_run 2 1 1) =
     Inr ([Sent 1 (batch_event 3), Quiet, Quiet, Taken 1 (batch_event 3), Numbered 1 1 (batch_event 3), Announced 1 1,
       Quiet, Drawn 1 1] @ Fetched 1 1 None # [Stored 1 1 (batch_event 3)], s)"
    using early_engine_trace by auto
  have "length early_engine < 2 ^ 64" by (simp add: early_engine_def)
  from engines_get_numbered_events[OF example_test_env s this] s show ?thesis by (auto simp: numbered_def)
qed

text \<open>The client sends the events it was asked for when these are at most 2048; the offset of the next one does not fit
  \<open>int\<close>. The default is 10000.\<close>

theorem client_sends_2048:
  assumes "ParseArgs opts = Inr args" and "client_setup args rank c = Inr c'"
  shows "client_main e opts rank c q =
    (if in_events args \<le> 2048
     then Inr (q(my_server c' := q (my_server c') @ map batch_event [0..<in_events args]))
     else Inl (Undefined SignedOverflow))"
  using assms client_loop_run[of 0 e "my_server c'" "in_events args" q] by (simp add: client_main_def)

theorem client_sends_2048_witness:
  "client_main e [] 0 (ConfigurationManager_new 1 0) q = Inl (Undefined SignedOverflow)"
proof -
  have "ParseArgs [] = Inr default_input" by (simp add: ParseArgs_def)
  moreover obtain c where "client_setup default_input 0 (ConfigurationManager_new 1 0) = Inr c"
    by (simp add: client_setup_def int_div_def int32_result_def default_input_def ConfigurationManager_new_def)
  ultimately show ?thesis using client_sends_2048[of "[]" default_input 0 "ConfigurationManager_new 1 0" c e q]
    by (simp add: default_input_def)
qed

text \<open>An event arrives as it was sent.\<close>

theorem event_test_arrives:
  assumes "ok_EventTest ev"
  shows "\<exists>bs obj. pack_EventTest ev = Inr bs \<and> object_EventTest ev = Inr obj \<and> unpack F (bs @ rest) = Inr (obj, rest) \<and>
    convert_EventTest obj = Inr ev"
  using event_test.arrives[OF assms, of F rest] by simp

theorem event_test_arrives_witness:
  "\<exists>bs obj. pack_EventTest (batch_event 3) = Inr bs \<and> unpack zero_floats bs = Inr (obj, []) \<and>
    convert_EventTest obj = Inr (batch_event 3)"
proof -
  have "ok_EventTest (batch_event 3)"
    by (simp add: ok_EventTest_def ok_CharStruct_def in_long_def MAX_STRING_LENGTH_def batch_event_def)
  from event_test_arrives[OF this, of zero_floats "[]"] show ?thesis by auto
qed

end
