(* ===== verification/Hardware_Monitor.thy ===== *)
theory Hardware_Monitor
  imports Configuration
begin

text \<open>
  \<open>src/src/server/hardware_monitor.h\<close> and \<open>.cpp\<close>: one monitor thread per file layer a server is responsible
  for (its local layers, and the shared ones on the first server), and the queue their events go to. The
  processing of \<open>inotify\<close> records is commented out in the source; what is left of a monitor thread adds a
  watch to a descriptor that was never assigned.
\<close>

section \<open>Threads\<close>

definition monitored_local :: "Layer \<Rightarrow> bool" where
  "monitored_local l \<longleftrightarrow> io_client_type l = LOCAL_POSIX_FILE"

definition monitored_shared :: "int \<Rightarrow> Layer \<Rightarrow> bool" where
  "monitored_shared my_rank_server l \<longleftrightarrow> io_client_type l = SHARED_POSIX_FILE \<and> my_rank_server = 0"

text \<open>The constructor's walk along the layers, which counts the monitors.\<close>

fun count_monitors :: "int \<Rightarrow> layer_ptr \<Rightarrow> nat \<Rightarrow> nat" where
  "count_monitors r [] num_monitors = num_monitors"
| "count_monitors r (current # next') num_monitors =
     (let num_monitors = (if monitored_local current then Suc num_monitors else num_monitors);
          num_monitors = (if monitored_shared r current then Suc num_monitors else num_monitors)
      in count_monitors r next' num_monitors)"

record HardwareMonitor =
  num_monitors :: nat
  event_queue :: "Event queue_store"
  monitor_threads :: "Layer option list"

definition HardwareMonitor_new :: "env \<Rightarrow> int \<Rightarrow> HardwareMonitor" where
  "HardwareMonitor_new e r =
     \<lparr>num_monitors = count_monitors r (layers e) 0, event_queue = DMQ_init, monitor_threads = []\<rparr>"

definition start_thread :: "Layer \<Rightarrow> nat \<times> Layer option list \<Rightarrow> (nat \<times> Layer option list) res" where
  "start_thread l s =
     (if fst s < length (snd s) then Inr (Suc (fst s), (snd s)[fst s := Some l]) else Inl (Undefined OutOfRange))"

fun start_threads :: "int \<Rightarrow> layer_ptr \<Rightarrow> nat \<times> Layer option list \<Rightarrow> (nat \<times> Layer option list) res" where
  "start_threads r [] s = Inr s"
| "start_threads r (current # next') s =
     rbind (if monitored_local current then start_thread current s else Inr s) (\<lambda>s.
     rbind (if monitored_shared r current then start_thread current s else Inr s) (start_threads r next'))"

definition AsyncMonitor :: "env \<Rightarrow> int \<Rightarrow> HardwareMonitor \<Rightarrow> (ServerStatus \<times> HardwareMonitor) res" where
  "AsyncMonitor e r m =
     rbind (start_threads r (layers e) (0, replicate (num_monitors m) None)) (\<lambda>(_, ts).
       Inr (SERVER_SUCCESS, m\<lparr>monitor_threads := ts\<rparr>))"

definition AsyncMonitorInternal :: "Layer \<Rightarrow> ServerStatus res" where
  "AsyncMonitorInternal current = Inl (Undefined Uninitialised)"

text \<open>\<open>Stop\<close> signals and joins every thread; a slot without a thread cannot be joined.\<close>

definition Stop :: "HardwareMonitor \<Rightarrow> Layer list res" where
  "Stop m =
     (if length (monitor_threads m) < num_monitors m \<or> None \<in> set (take (num_monitors m) (monitor_threads m))
      then Inl (Undefined NullPointer)
      else Inr (map the (take (num_monitors m) (monitor_threads m))))"

section \<open>Events\<close>

definition FetchEvents ::
  "env \<Rightarrow> nat \<Rightarrow> Event queue_store list \<Rightarrow> HardwareMonitor \<Rightarrow> (Event list \<times> HardwareMonitor) option res" where
  "FetchEvents e me observed m =
     rbind (DMQ_WaitForElement (obj_of e ''HARDWARE_QUEUE'') me me observed) (\<lambda>waited.
       case waited of
         None \<Rightarrow> Inr None
       | Some _ \<Rightarrow>
           rbind (DMQ_Pop (obj_of e ''HARDWARE_QUEUE'') me me (event_queue m)) (\<lambda>(r, q).
             Inr (Some (case r of Some ev \<Rightarrow> [ev] | None \<Rightarrow> [], m\<lparr>event_queue := q\<rparr>))))"

section \<open>Lemmas\<close>

definition monitors :: "int \<Rightarrow> Layer \<Rightarrow> bool" where
  "monitors r l \<longleftrightarrow> monitored_local l \<or> monitored_shared r l"

lemma count_monitors_filter: "count_monitors r ls n = n + length (filter (monitors r) ls)"
  by (induction ls arbitrary: n) (auto simp: monitors_def monitored_local_def monitored_shared_def Let_def)

lemma start_threads_fill:
  assumes "length (filter (monitors r) ls) + length started = n"
  shows "start_threads r ls (length started, map Some started @ replicate (n - length started) None) =
    Inr (n, map Some (started @ filter (monitors r) ls))"
  using assms
proof (induction ls arbitrary: started)
  case (Cons l ls)
  have once: "monitored_local l \<Longrightarrow> \<not> monitored_shared r l" by (simp add: monitored_local_def monitored_shared_def)
  show ?case
  proof (cases "monitors r l")
    case True
    with Cons.prems obtain k where k: "n - length started = Suc k" "length started < n"
      by (cases "n - length started") auto
    then have "start_thread l (length started, map Some started @ replicate (n - length started) None) =
        Inr (length (started @ [l]), map Some (started @ [l]) @ replicate (n - length (started @ [l])) None)"
      by (auto simp: start_thread_def list_update_append)
    with Cons.IH[of "started @ [l]"] Cons.prems True once show ?thesis by (auto simp: monitors_def)
  next
    case False
    with Cons show ?thesis by (auto simp: monitors_def)
  qed
qed auto

section \<open>Properties\<close>

text \<open>\<open>AsyncMonitor\<close> starts exactly the counted number of threads, one per layer this server watches, in the
  order of the layers, never writes past the arrays sized by the constructor, and \<open>Stop\<close> joins all of them.\<close>

theorem monitors_fill_array:
  "\<exists>m. AsyncMonitor e r (HardwareMonitor_new e r) = Inr (SERVER_SUCCESS, m) \<and>
     Stop m = Inr (filter (\<lambda>l. io_client_type l = LOCAL_POSIX_FILE \<or> io_client_type l = SHARED_POSIX_FILE \<and> r = 0) (layers e))"
proof -
  let ?ls = "filter (monitors r) (layers e)"
  have f: "?ls = filter (\<lambda>l. io_client_type l = LOCAL_POSIX_FILE \<or> io_client_type l = SHARED_POSIX_FILE \<and> r = 0) (layers e)"
    by (rule filter_cong) (auto simp: monitors_def monitored_local_def monitored_shared_def)
  have "start_threads r (layers e) (0, replicate (length ?ls) None) = Inr (length ?ls, map Some ?ls)"
    using start_threads_fill[of r "layers e" "[]" "length ?ls"] by simp
  then show ?thesis
    unfolding f[symmetric]
    by (auto simp: AsyncMonitor_def HardwareMonitor_new_def count_monitors_filter Stop_def comp_def)
qed

end
