(* ===== verification/Distributed_MultiMap.thy ===== *)
theory Distributed_MultiMap
  imports Distributed_Map
begin

text \<open>
  \<open>src/src/common/distributed_ds/multimap/DistributedMultiMap.h\<close>: the same interface over
  \<open>boost::interprocess::multimap\<close>. Its \<open>Put\<close> erases an equivalent entry before it inserts, so the
  container never holds two equivalent keys and behaves as \<open>DistributedMap\<close>; the equivalence is
  proved for whole runs of operations.
\<close>

definition DMM_Put_local :: "('k \<Rightarrow> 'k \<Rightarrow> bool) \<Rightarrow> 'k \<Rightarrow> 'v \<Rightarrow> ('k \<times> 'v) list \<Rightarrow> ('k \<times> 'v) list" where
  "DMM_Put_local lt key data m =
     mm_emplace lt key data (if om_find lt key m \<noteq> None then om_erase_found lt key m else m)"

definition DMM_Put ::
  "('k \<Rightarrow> 'k \<Rightarrow> bool) \<Rightarrow> 'k dist \<Rightarrow> nat \<Rightarrow> 'k \<Rightarrow> 'v \<Rightarrow> ('k, 'v) map_store \<Rightarrow>
   (bool \<times> ('k, 'v) map_store) res" where
  "DMM_Put lt d my_server key data st =
     rbind (key_int d key) (\<lambda>i.
       at_server (rpc_size d) (rpc_funcs d) (func_prefix d @ ''_Put'') 2 i my_server
         (\<lambda>s. Inr (True, st(s := DMM_Put_local lt key data (st s)))))"

definition DMM_Get ::
  "('k \<Rightarrow> 'k \<Rightarrow> bool) \<Rightarrow> 'k dist \<Rightarrow> nat \<Rightarrow> 'k \<Rightarrow> ('k, 'v) map_store \<Rightarrow> 'v option res" where
  "DMM_Get lt d my_server key st =
     rbind (key_int d key) (\<lambda>i.
       at_server (rpc_size d) (rpc_funcs d) (func_prefix d @ ''_Get'') 1 i my_server
         (\<lambda>s. Inr (map_option snd (om_find lt key (st s)))))"

definition DMM_Erase ::
  "('k \<Rightarrow> 'k \<Rightarrow> bool) \<Rightarrow> 'k dist \<Rightarrow> nat \<Rightarrow> 'k \<Rightarrow> ('k, 'v) map_store \<Rightarrow>
   (bool \<times> ('k, 'v) map_store) res" where
  "DMM_Erase lt d my_server key st =
     rbind (key_int d key) (\<lambda>i.
       at_server (rpc_size d) (rpc_funcs d) (func_prefix d @ ''_Erase'') 1 i my_server
         (\<lambda>s. Inr (length (om_erase lt key (st s)) < length (st s), st(s := om_erase lt key (st s)))))"

definition DMM_ContainsInServer ::
  "('k \<Rightarrow> 'k \<Rightarrow> bool) \<Rightarrow> ('k \<Rightarrow> 'k \<Rightarrow> bool) \<Rightarrow> 'k \<Rightarrow> ('k \<times> 'v) list \<Rightarrow> ('k \<times> 'v) list" where
  "DMM_ContainsInServer lt contains key m =
     (if length m = 0 then []
      else if length m = 1 then m
      else
        let lower_bound = om_lower_bound lt key m
        in if lower_bound = length m then []
           else
             let lower_bound =
                   (if lower_bound \<noteq> 0
                    then (if \<not> contains key (fst (m ! (lower_bound - 1)))
                          then lower_bound else lower_bound - 1)
                    else lower_bound)
             in takeWhile (\<lambda>x. contains key (fst x) \<or> contains (fst x) key) (drop lower_bound m))"

definition DMM_Contains ::
  "('k \<Rightarrow> 'k \<Rightarrow> bool) \<Rightarrow> ('k \<Rightarrow> 'k \<Rightarrow> bool) \<Rightarrow> 'k dist \<Rightarrow> nat \<Rightarrow> 'k \<Rightarrow> ('k, 'v) map_store \<Rightarrow>
   ('k \<times> 'v) list res" where
  "DMM_Contains lt contains d my_server key st =
     DM_collect d my_server ''_Contains'' 1 (\<lambda>s. DMM_ContainsInServer lt contains key (st s))"

definition DMM_GetAllData :: "'k dist \<Rightarrow> nat \<Rightarrow> ('k, 'v) map_store \<Rightarrow> ('k \<times> 'v) list res" where
  "DMM_GetAllData d my_server st = DM_collect d my_server ''_GetAllData'' 0 (\<lambda>s. st s)"

section \<open>Runs of operations\<close>

datatype ('k, 'v) map_op = OpPut nat 'k 'v | OpErase nat 'k | OpGet nat 'k | OpContains nat 'k | OpAll nat

datatype ('k, 'v) map_answer = AnsBool bool | AnsGet "'v option" | AnsList "('k \<times> 'v) list"

fun dm_run_op ::
  "('k \<Rightarrow> 'k \<Rightarrow> bool) \<Rightarrow> ('k \<Rightarrow> 'k \<Rightarrow> bool) \<Rightarrow> 'k dist \<Rightarrow> ('k, 'v) map_op \<Rightarrow>
   ('k, 'v) map_answer list \<times> ('k, 'v) map_store \<Rightarrow>
   (('k, 'v) map_answer list \<times> ('k, 'v) map_store) res" where
  "dm_run_op lt con d (OpPut me k v) (as, st) =
     rbind (DM_Put lt d me k v st) (\<lambda>(b, st'). Inr (as @ [AnsBool b], st'))"
| "dm_run_op lt con d (OpErase me k) (as, st) =
     rbind (DM_Erase lt d me k st) (\<lambda>(b, st'). Inr (as @ [AnsBool b], st'))"
| "dm_run_op lt con d (OpGet me k) (as, st) =
     rbind (DM_Get lt d me k st) (\<lambda>r. Inr (as @ [AnsGet r], st))"
| "dm_run_op lt con d (OpContains me k) (as, st) =
     rbind (DM_Contains lt con d me k st) (\<lambda>r. Inr (as @ [AnsList r], st))"
| "dm_run_op lt con d (OpAll me) (as, st) =
     rbind (DM_GetAllData d me st) (\<lambda>r. Inr (as @ [AnsList r], st))"

fun dmm_run_op ::
  "('k \<Rightarrow> 'k \<Rightarrow> bool) \<Rightarrow> ('k \<Rightarrow> 'k \<Rightarrow> bool) \<Rightarrow> 'k dist \<Rightarrow> ('k, 'v) map_op \<Rightarrow>
   ('k, 'v) map_answer list \<times> ('k, 'v) map_store \<Rightarrow>
   (('k, 'v) map_answer list \<times> ('k, 'v) map_store) res" where
  "dmm_run_op lt con d (OpPut me k v) (as, st) =
     rbind (DMM_Put lt d me k v st) (\<lambda>(b, st'). Inr (as @ [AnsBool b], st'))"
| "dmm_run_op lt con d (OpErase me k) (as, st) =
     rbind (DMM_Erase lt d me k st) (\<lambda>(b, st'). Inr (as @ [AnsBool b], st'))"
| "dmm_run_op lt con d (OpGet me k) (as, st) =
     rbind (DMM_Get lt d me k st) (\<lambda>r. Inr (as @ [AnsGet r], st))"
| "dmm_run_op lt con d (OpContains me k) (as, st) =
     rbind (DMM_Contains lt con d me k st) (\<lambda>r. Inr (as @ [AnsList r], st))"
| "dmm_run_op lt con d (OpAll me) (as, st) =
     rbind (DMM_GetAllData d me st) (\<lambda>r. Inr (as @ [AnsList r], st))"

lemma DMM_same_code:
  "DMM_Get = DM_Get" "DMM_Erase = DM_Erase" "DMM_Contains = DM_Contains"
  "DMM_GetAllData = DM_GetAllData"
  by (intro ext, simp add: DMM_Get_def DM_Get_def DMM_Erase_def DM_Erase_def DMM_Contains_def
      DM_Contains_def DMM_ContainsInServer_def DM_ContainsInServer_def DMM_GetAllData_def
      DM_GetAllData_def DM_GetAllDataInServer_def)+

context strict_weak_order
begin

lemma mm_emplace_eq_insert: "om_find lt k m = None \<Longrightarrow> mm_emplace lt k v m = om_insert lt k v m"
  by (induction m) (auto simp: equivalent_def split: if_splits)

lemma multimap_Put_local:
  assumes "om_sorted lt m"
  shows "DMM_Put_local lt k v m = DM_Put_local lt k v m"
proof -
  have "om_find lt k (if om_find lt k m \<noteq> None then om_erase_found lt k m else m) = None"
    using assms
    by (cases "om_find lt k m = None") (simp_all add: om_erase_found_eq om_find_erase equivalent_refl)
  then show ?thesis
    unfolding DMM_Put_local_def DM_Put_local_def by (rule mm_emplace_eq_insert)
qed

lemma multimap_run_op:
  assumes "dist_wf DM_bindings d" and "dm_invar lt d st"
  shows "dmm_run_op lt con d x (as, st) = dm_run_op lt con d x (as, st)"
    and "\<exists>as' st'. dm_run_op lt con d x (as, st) = Inr (as', st') \<and> dm_invar lt d st'"
proof -
  have put: "DMM_Put lt d me k v st = DM_Put lt d me k v st" for me k v
  proof -
    have "om_sorted lt (st (owner d k))" using assms(2) by (simp add: dm_invar_def)
    note same = multimap_Put_local[OF this, of k v]
    have "DMM_Put lt d me k v st = Inr (True, st(owner d k := DMM_Put_local lt k v (st (owner d k))))"
      using assms(1) by (simp add: DMM_Put_def key_int_owner at_owner DM_bindings_def)
    then show ?thesis unfolding same DM_Put_run[OF assms(1)] .
  qed
  show "dmm_run_op lt con d x (as, st) = dm_run_op lt con d x (as, st)"
    by (cases x) (simp_all add: put DMM_same_code)
  show "\<exists>as' st'. dm_run_op lt con d x (as, st) = Inr (as', st') \<and> dm_invar lt d st'"
    using assms by (cases x) (simp_all add: run_simps dm_invar_Put dm_invar_Erase)
qed

lemma multimap_refines_map:
  assumes "dist_wf DM_bindings d" and "dm_invar lt d st"
  shows "rfold (dmm_run_op lt con d) xs (as, st) = rfold (dm_run_op lt con d) xs (as, st) \<and>
    (\<exists>as' st'. rfold (dm_run_op lt con d) xs (as, st) = Inr (as', st') \<and> dm_invar lt d st')"
  using assms(2)
proof (induction xs arbitrary: as st)
  case (Cons x xs)
  obtain as' st' where "dm_run_op lt con d x (as, st) = Inr (as', st')" "dm_invar lt d st'"
    using multimap_run_op(2)[OF assms(1) Cons.prems] by blast
  with Cons multimap_run_op(1)[OF assms(1) Cons.prems] show ?case by simp
qed simp

end

section \<open>Properties\<close>

text \<open>Any sequence of operations on an initially empty \<open>DistributedMultiMap\<close> of segments, issued on
  any servers, terminates without an exception, gives the answers and leaves the contents that
  \<open>DistributedMap\<close> gives, and no server ever holds two entries with equivalent keys.\<close>

theorem multimap_runs_as_map:
  assumes "dist_wf DM_bindings d"
  shows "\<exists>as st. rfold (dmm_run_op Segment_less Segment_Contains d) ops ([], DM_init) = Inr (as, st) \<and>
    rfold (dm_run_op Segment_less Segment_Contains d) ops ([], DM_init) = Inr (as, st) \<and>
    dm_invar Segment_less d st"
  using seg_order.multimap_refines_map[OF assms dm_invar_init, of Segment_Contains ops "[]"] by force

theorem multimap_runs_as_map_witness:
  "\<exists>as st. rfold (dmm_run_op Segment_less Segment_Contains example_seg_dist)
       [OpPut 0 \<lparr>seg_start = 3, seg_end = 8\<rparr> (1::nat), OpPut 1 \<lparr>seg_start = 3, seg_end = 8\<rparr> 2]
       ([], DM_init) = Inr (as, st) \<and>
     rfold (dm_run_op Segment_less Segment_Contains example_seg_dist)
       [OpPut 0 \<lparr>seg_start = 3, seg_end = 8\<rparr> (1::nat), OpPut 1 \<lparr>seg_start = 3, seg_end = 8\<rparr> 2]
       ([], DM_init) = Inr (as, st) \<and> dm_invar Segment_less example_seg_dist st"
  by (rule multimap_runs_as_map[OF example_seg_dist_wf])

end
