(* ===== verification/Msgpack_Stream.thy ===== *)
theory Msgpack_Stream
  imports Msgpack
begin

text \<open>
  The parser on a connection: bytes arrive in pieces of any size, and a session parses as many objects as
  it can after each piece (\<open>server_session::do_read\<close> and \<open>client::impl::do_read\<close>). The lemmas show that the pieces
  do not matter: the objects are those of the whole stream.
\<close>

section \<open>Parsing in pieces\<close>

text \<open>Between two rounds the state and the number of trailing bytes agree.\<close>

definition ctx_ok :: "unpack_context \<Rightarrow> bool" where
  "ctx_ok ctx \<longleftrightarrow> m_cs ctx = CS_HEADER \<or>
     4 \<le> m_cs ctx \<and> m_cs ctx \<le> 31 \<and> m_trail ctx = trail_table ! (m_cs ctx - 4) \<or>
     m_cs ctx \<in> {ACS_STR_VALUE, ACS_BIN_VALUE, ACS_EXT_VALUE} \<and> 0 < m_trail ctx"

definition extend :: "bytes \<Rightarrow> step \<Rightarrow> step" where
  "extend ys s = (case s of Ret r rest ctx \<Rightarrow> Ret r (rest @ ys) ctx | Go f rest ctx \<Rightarrow> Go f (rest @ ys) ctx | Throw \<Rightarrow> Throw)"

lemma extend_simps [simp]:
  "extend ys (Ret r rest ctx) = Ret r (rest @ ys) ctx" "extend ys (Go f rest ctx) = Go f (rest @ ys) ctx"
  "extend ys Throw = Throw"
  by (simp_all add: extend_def)

lemma extend_push_proc: "cur \<noteq> [] \<Longrightarrow> push_proc obj (cur @ ys) ctx = extend ys (push_proc obj cur ctx)"
  by (simp add: push_proc_def split: prod.split bool.split)

lemma extend_push_aggregate: "cur \<noteq> [] \<Longrightarrow> push_aggregate c ty n (cur @ ys) ctx = extend ys (push_aggregate c ty n cur ctx)"
  by (simp add: push_aggregate_def extend_push_proc Let_def)

lemma extend_header_step: "rest \<noteq> [] \<Longrightarrow> header_step (rest @ ys) ctx = extend ys (header_step rest ctx)"
  by (simp add: header_step_def extend_push_proc extend_push_aggregate Let_def)

lemma cs_cases:
  assumes "4 \<le> cs" "cs \<le> (31 :: nat)"
  shows "cs \<in> {4, 5, 6, 7, 8, 9, 10, 11, 12, 13, 14, 15, 16, 17, 18, 19, 20, 21, 22, 23, 24, 25, 26, 27, 28, 29, 30, 31}"
  using assms by (simp add: numeral_eq_Suc) arith

lemma trail_positive: "ctx_ok ctx \<Longrightarrow> m_cs ctx \<noteq> CS_HEADER \<Longrightarrow> 0 < m_trail ctx"
  using cs_cases[of "m_cs ctx"] by (auto simp: ctx_ok_def trail_table_def)

lemma extend_items:
  assumes "4 \<le> cs" "cs \<le> 31" "trail_table ! (cs - 4) \<le> length n"
  shows "scalar_item F cs (n @ ys) = scalar_item F cs n" "fixext_item cs (n @ ys) = fixext_item cs n"
    "sized_state cs (n @ ys) = sized_state cs n" "aggregate_step cs (n @ ys) cur ctx = aggregate_step cs n cur ctx"
proof -
  have tk: "take k (n @ ys) = take k n" if "k \<le> length n" for k using that by simp
  have tl: "tl (n @ ys) = tl n @ ys" "hd (n @ ys) = hd n" if "0 < length n" using that by (cases n; simp)+
  show "scalar_item F cs (n @ ys) = scalar_item F cs n"
    using cs_cases[OF assms(1,2)] assms(3) by (auto simp: scalar_item_def load_signed_def trail_table_def tk)
  show "fixext_item cs (n @ ys) = fixext_item cs n"
    using cs_cases[OF assms(1,2)] assms(3)
    by (cases n) (auto simp: fixext_item_def unpack_ext_def trail_table_def)
  show "sized_state cs (n @ ys) = sized_state cs n"
    using cs_cases[OF assms(1,2)] assms(3) by (auto simp: sized_state_def trail_table_def tk)
  show "aggregate_step cs (n @ ys) cur ctx = aggregate_step cs n cur ctx"
    using cs_cases[OF assms(1,2)] assms(3) by (auto simp: aggregate_step_def trail_table_def tk)
qed

lemma extend_aggregate_step: "cur \<noteq> [] \<Longrightarrow> aggregate_step cs n (cur @ ys) ctx = extend ys (aggregate_step cs n cur ctx)"
  by (simp add: aggregate_step_def extend_push_aggregate)

lemma extend_value_item: "l \<le> length n \<Longrightarrow> 0 < l \<Longrightarrow> value_item acs (n @ ys) l = value_item acs n l"
  by (cases l; cases n) (simp_all add: value_item_def unpack_ext_def)

lemma trail_step_eq:
  assumes "n = (if fixed then tl rest else rest)" and "m_trail ctx \<le> length n"
  shows "trail_step F fixed rest ctx =
    (case scalar_item F (m_cs ctx) n of
       Some obj \<Rightarrow> push_proc obj (drop (m_trail ctx - 1) n) ctx
     | None \<Rightarrow>
     case fixext_item (m_cs ctx) n of
       Some obj \<Rightarrow> push_proc obj (drop (m_trail ctx - 1) n) ctx
     | None \<Rightarrow>
     case sized_state (m_cs ctx) n of
       Some (acs, trail) \<Rightarrow>
         if trail = 0 then push_proc (value_item acs n 0) (drop (m_trail ctx - 1) n) (ctx\<lparr>m_trail := trail\<rparr>)
         else Go True (drop (m_trail ctx - 1) n) (ctx\<lparr>m_trail := trail, m_cs := acs\<rparr>)
     | None \<Rightarrow>
     if m_cs ctx = ACS_STR_VALUE \<or> m_cs ctx = ACS_BIN_VALUE \<or> m_cs ctx = ACS_EXT_VALUE
     then push_proc (value_item (m_cs ctx) n (m_trail ctx)) (drop (m_trail ctx - 1) n) ctx
     else aggregate_step (m_cs ctx) n (drop (m_trail ctx - 1) n) ctx)"
  using assms(2) unfolding trail_step_def assms(1)[symmetric] Let_def by simp

lemma trail_step_short:
  "(if fixed then tl rest else rest) = n \<Longrightarrow> length n < m_trail ctx \<Longrightarrow> trail_step F fixed rest ctx = Ret 0 n ctx"
  by (simp add: trail_step_def)

lemma extend_trail_step:
  assumes ok: "ctx_ok ctx" "m_cs ctx \<noteq> CS_HEADER" and len: "m_trail ctx \<le> length (if fixed then tl rest else rest)"
    and ne: "rest \<noteq> []"
  shows "trail_step F fixed (rest @ ys) ctx = extend ys (trail_step F fixed rest ctx)"
proof -
  define n where "n = (if fixed then tl rest else rest)"
  define cur where "cur = drop (m_trail ctx - 1) n"
  have n': "n @ ys = (if fixed then tl (rest @ ys) else rest @ ys)" using ne by (simp add: n_def)
  have len: "m_trail ctx \<le> length n" "m_trail ctx \<le> length (n @ ys)" using len by (simp_all add: n_def)
  have pos: "0 < m_trail ctx" by (rule trail_positive[OF ok])
  have cur: "cur \<noteq> []" "drop (m_trail ctx - 1) (n @ ys) = cur @ ys" using len pos by (auto simp: cur_def)
  note eqs = trail_step_eq[OF n_def len(1), folded cur_def] trail_step_eq[OF n' len(2), unfolded cur(2)]
  have zero: "value_item acs (n @ ys) 0 = value_item acs n 0" if "sized_state cs n = Some (acs, 0)" for cs acs
    using that by (auto simp: sized_state_def value_item_def split: if_splits)
  have "4 \<le> m_cs ctx \<and> m_cs ctx \<le> 31 \<and> m_trail ctx = trail_table ! (m_cs ctx - 4) \<or>
      m_cs ctx \<in> {ACS_STR_VALUE, ACS_BIN_VALUE, ACS_EXT_VALUE}"
    using ok unfolding ctx_ok_def by blast
  then show ?thesis
  proof (elim disjE conjE)
    assume range: "4 \<le> m_cs ctx" "m_cs ctx \<le> 31" and "m_trail ctx = trail_table ! (m_cs ctx - 4)"
    with len have table: "4 \<le> m_cs ctx" "m_cs ctx \<le> 31" "trail_table ! (m_cs ctx - 4) \<le> length n" by simp_all
    have "m_cs ctx \<noteq> ACS_STR_VALUE" "m_cs ctx \<noteq> ACS_BIN_VALUE" "m_cs ctx \<noteq> ACS_EXT_VALUE"
      using table(2) by (simp_all add: ACS_STR_VALUE_def ACS_BIN_VALUE_def ACS_EXT_VALUE_def)
    then show ?thesis
      unfolding eqs extend_items[OF table] using cur(1)
      by (simp add: extend_push_proc extend_aggregate_step zero split: option.split)
  next
    assume body: "m_cs ctx \<in> {ACS_STR_VALUE, ACS_BIN_VALUE, ACS_EXT_VALUE}"
    have none: "scalar_item F (m_cs ctx) m = None" "fixext_item (m_cs ctx) m = None" "sized_state (m_cs ctx) m = None" for m
      using body by (auto simp: scalar_item_def fixext_item_def sized_state_def ACS_STR_VALUE_def ACS_BIN_VALUE_def
          ACS_EXT_VALUE_def)
    have "m_cs ctx = ACS_STR_VALUE \<or> m_cs ctx = ACS_BIN_VALUE \<or> m_cs ctx = ACS_EXT_VALUE" using body by simp
    then show ?thesis
      unfolding eqs none using cur(1) len pos by (simp add: extend_push_proc extend_value_item)
  qed
qed

lemma ctx_ok_header [simp]: "m_cs ctx = CS_HEADER \<Longrightarrow> ctx_ok ctx"
  by (simp add: ctx_ok_def)

lemma ctx_ok_acs: "acs \<in> {ACS_STR_VALUE, ACS_BIN_VALUE, ACS_EXT_VALUE} \<Longrightarrow> 0 < trail \<Longrightarrow>
    ctx_ok (ctx\<lparr>m_trail := trail, m_cs := acs\<rparr>) \<and> acs \<noteq> CS_HEADER"
  by (auto simp: ctx_ok_def)

lemma ctx_ok_table:
  assumes "196 \<le> s" "s \<le> 223"
  shows "ctx_ok (ctx\<lparr>m_trail := trail_table ! (s - 196), m_cs := s AND 31\<rparr>) \<and> s AND 31 \<noteq> CS_HEADER"
proof -
  have "s AND 31 = s - 192"
    using assms mod_mult_self1[of "s - 192" 6 32] by (simp add: and_low)
  moreover have "s - 192 - 4 = s - 196" "4 \<le> s - 192" "s - 192 \<le> 31" using assms by arith+
  ultimately show ?thesis by (simp add: ctx_ok_def CS_HEADER_def)
qed

lemma header_step_ctx:
  assumes "header_step rest ctx = Go f r c" and "m_cs ctx = CS_HEADER"
  shows "ctx_ok c \<and> (m_cs c = CS_HEADER \<longleftrightarrow> \<not> f)"
  using assms ctx_ok_table[of "hd rest" ctx] ctx_ok_acs[of ACS_STR_VALUE "hd rest AND 31" ctx]
  unfolding header_step_def Let_def
  by (auto dest!: push_proc_Go push_aggregate_Go split: if_splits)

lemma sized_state_acs:
  "sized_state cs n = Some (acs, trail) \<Longrightarrow> acs \<in> {ACS_STR_VALUE, ACS_BIN_VALUE, ACS_EXT_VALUE}"
  by (auto simp: sized_state_def split: if_splits)

lemma sized_state_ok:
  "sized_state cs n = Some (acs, trail) \<Longrightarrow> 0 < trail \<Longrightarrow> ctx_ok (ctx\<lparr>m_trail := trail, m_cs := acs\<rparr>)"
  by (rule conjunct1[OF ctx_ok_acs[OF sized_state_acs]])

lemma sized_state_header: "sized_state cs n \<noteq> Some (CS_HEADER, trail)"
  using sized_state_acs[of cs n CS_HEADER trail] by auto

lemma trail_step_ctx:
  assumes "trail_step F fixed rest ctx = Go f r c"
  shows "ctx_ok c \<and> (m_cs c = CS_HEADER \<longleftrightarrow> \<not> f)"
proof -
  have "m_trail ctx \<le> length (if fixed then tl rest else rest)" using trail_step_Go[OF assms] by simp
  from trail_step_eq[OF refl this, of F] show ?thesis
    unfolding assms
    by (auto dest!: sym[of "Go f r c"] push_proc_Go aggregate_step_Go intro: sized_state_ok
        simp: sized_state_header split: if_splits option.splits)
qed

lemma push_proc_Ret: "push_proc obj cur ctx = Ret e r c \<Longrightarrow> e = 1 \<and> r = tl cur"
  by (auto simp: push_proc_def split: prod.splits bool.splits)

lemma push_aggregate_Ret: "push_aggregate o' ty n cur ctx = Ret e r c \<Longrightarrow> e = 1 \<and> r = tl cur"
  by (auto simp: push_aggregate_def Let_def dest: push_proc_Ret split: if_splits)

lemma header_step_Ret: "header_step rest ctx = Ret e r c \<Longrightarrow> e = 1 \<and> r = tl rest \<or> e = - 1 \<and> r = rest"
  unfolding header_step_def Let_def by (auto dest!: push_proc_Ret push_aggregate_Ret split: if_splits)

lemma aggregate_step_Ret: "aggregate_step cs n cur ctx = Ret e r c \<Longrightarrow> e = 1 \<and> r = tl cur \<or> e = - 1 \<and> r = cur"
  unfolding aggregate_step_def by (auto dest!: push_aggregate_Ret split: if_splits)

lemma trail_step_Ret:
  assumes "trail_step F fixed rest ctx = Ret e r c" and "n = (if fixed then tl rest else rest)"
  shows "e = 0 \<and> r = n \<and> c = ctx \<and> length n < m_trail ctx \<or>
    e \<noteq> 0 \<and> m_trail ctx \<le> length n \<and> (0 < e \<longrightarrow> r = tl (drop (m_trail ctx - 1) n))"
proof (cases "length n < m_trail ctx")
  case True
  then show ?thesis using assms by (simp add: trail_step_def)
next
  case False
  then have len: "m_trail ctx \<le> length n" by simp
  show ?thesis
    using assms(1) len unfolding trail_step_eq[OF assms(2) len]
    by (auto dest!: push_proc_Ret aggregate_step_Ret split: if_splits option.splits prod.splits)
qed

text \<open>A round on a longer buffer: it does the same, unless the bytes of its state were not all there.\<close>

lemma trail_step_longer:
  assumes ok: "ctx_ok ctx" "m_cs ctx \<noteq> CS_HEADER" and ne: "rest \<noteq> []"
  shows "case trail_step F fixed rest ctx of
      Ret e r c \<Rightarrow> if e = 0 then ctx_ok c \<and> after F (trail_step F fixed (rest @ ys) ctx) = execute F False (r @ ys) c
                 else trail_step F fixed (rest @ ys) ctx = Ret e (r @ ys) c
    | s \<Rightarrow> trail_step F fixed (rest @ ys) ctx = extend ys s"
proof (cases "m_trail ctx \<le> length (if fixed then tl rest else rest)")
  case True
  note longer = extend_trail_step[OF ok this ne, of F ys]
  have "e \<noteq> 0" if "trail_step F fixed rest ctx = Ret e r c" for e r c
    using trail_step_Ret[OF that refl] True by auto
  then show ?thesis using longer by (auto split: step.split)
next
  case False
  define n where "n = (if fixed then tl rest else rest)"
  have step: "trail_step F fixed rest ctx = Ret 0 n ctx" using False by (simp add: trail_step_def n_def)
  have n': "(if fixed then tl (rest @ ys) else rest @ ys) = n @ ys" using ne by (simp add: n_def)
  have "after F (trail_step F fixed (rest @ ys) ctx) = execute F False (n @ ys) ctx"
  proof (cases "n @ ys = []")
    case True
    with n' have "trail_step F fixed (rest @ ys) ctx = Ret 0 [] ctx"
      by (intro trail_step_short) (simp_all add: trail_positive[OF ok])
    then show ?thesis using True by simp
  next
    case False
    have "trail_step F fixed (rest @ ys) ctx = trail_step F False (n @ ys) ctx"
      unfolding trail_step_def n' by simp
    then show ?thesis using False ok(2) by (simp add: execute_round parse_round_def)
  qed
  then show ?thesis using step ok(1) by simp
qed

lemma parse_round_longer:
  assumes ok: "ctx_ok ctx" and ne: "rest \<noteq> []"
  shows "case parse_round F fixed rest ctx of
      Ret e r c \<Rightarrow> if e = 0 then ctx_ok c \<and> after F (parse_round F fixed (rest @ ys) ctx) = execute F False (r @ ys) c
                 else parse_round F fixed (rest @ ys) ctx = Ret e (r @ ys) c
    | Go f r c \<Rightarrow> ctx_ok c \<and> parse_round F fixed (rest @ ys) ctx = Go f (r @ ys) c
    | Throw \<Rightarrow> parse_round F fixed (rest @ ys) ctx = Throw"
proof (cases "m_cs ctx = CS_HEADER")
  case False
  note go = trail_step_ctx[of F fixed rest ctx]
  show ?thesis
    using trail_step_longer[OF ok False ne, of F fixed ys] False go
    by (cases "trail_step F fixed rest ctx") (simp_all add: parse_round_def)
next
  case True
  note longer = extend_header_step[OF ne, of ys ctx]
  show ?thesis
  proof (cases "header_step rest ctx")
    case (Ret e r c)
    then have "e \<noteq> 0" using header_step_Ret[OF Ret] by auto
    then show ?thesis using Ret True longer by (simp add: parse_round_def)
  next
    case (Go f r c)
    note inv = header_step_ctx[OF Go True] and r = header_step_Go[OF Go]
    show ?thesis
    proof (cases f)
      case False
      then show ?thesis using Go True longer inv by (simp add: parse_round_def)
    next
      case f: True
      with inv r ne have c: "ctx_ok c" "m_cs c \<noteq> CS_HEADER" "r \<noteq> []" by auto
      note go = trail_step_ctx[of F True r c]
      show ?thesis
        using trail_step_longer[OF c, of F True ys] Go True longer f c(2) go
        by (cases "trail_step F True r c") (simp_all add: parse_round_def)
    qed
  qed (use True longer in \<open>simp add: parse_round_def\<close>)
qed

lemma trail_step_again:
  assumes "trail_step F fixed rest ctx = Go True r c" and "ctx_ok ctx" "m_cs ctx \<noteq> CS_HEADER"
  shows "r \<noteq> []"
  using trail_step_Go[OF assms(1)] trail_positive[OF assms(2,3)] by auto

lemma parse_round_again:
  assumes "parse_round F fixed rest ctx = Go True r c" and "ctx_ok ctx"
  shows "r \<noteq> []"
proof (cases "m_cs ctx = CS_HEADER")
  case True
  with assms(1) obtain f1 r1 c1 where h: "header_step rest ctx = Go f1 r1 c1"
    and step: "if m_cs c1 \<noteq> CS_HEADER \<or> f1 then trail_step F f1 r1 c1 = Go True r c else f1"
    by (auto simp: parse_round_def split: step.splits if_splits)
  then show ?thesis
    using header_step_ctx[OF h True] trail_step_again[of F f1 r1 c1 r c] by (auto split: if_splits)
next
  case False
  then show ?thesis using assms trail_step_again by (simp add: parse_round_def)
qed

text \<open>\<open>execute\<close> stops with 0 exactly where it goes on when more bytes have come.\<close>

lemma execute_longer:
  "ctx_ok ctx \<Longrightarrow> case execute F fixed rest ctx of
      Ret e r c \<Rightarrow> if e = 0 then ctx_ok c \<and> execute F (fixed \<and> rest \<noteq> []) (rest @ ys) ctx = execute F False (r @ ys) c
                 else execute F fixed (rest @ ys) ctx = Ret e (r @ ys) c
    | s \<Rightarrow> execute F fixed (rest @ ys) ctx = extend ys s"
proof (induction F fixed rest ctx rule: execute.induct)
  case (1 F fixed rest ctx)
  show ?case
  proof (cases "rest = []")
    case True
    then show ?thesis using "1.prems" by simp
  next
    case False
    have ne: "rest @ ys \<noteq> []" using False by simp
    note longer = parse_round_longer[OF "1.prems" False, of F fixed ys]
    note rounds = execute_round[OF False, of F fixed ctx] execute_round[OF ne, of F fixed ctx]
    show ?thesis
    proof (cases "parse_round F fixed rest ctx")
      case (Ret e r c)
      then show ?thesis using longer rounds False by (auto split: if_splits)
    next
      case (Go f r c)
      with longer have c: "ctx_ok c" and go: "parse_round F fixed (rest @ ys) ctx = Go f (r @ ys) c" by simp_all
      note IH = "1.IH"[OF False Go c]
      show ?thesis
      proof (cases "f \<and> r = []")
        case True
        with Go have "parse_round F fixed rest ctx = Go True r c" "r = []" by simp_all
        with parse_round_again[OF _ "1.prems"] show ?thesis by blast
      next
        case False
        then have f: "(f \<and> r \<noteq> []) = f" by auto
        have fixed: "(fixed \<and> rest \<noteq> []) = fixed" using \<open>rest \<noteq> []\<close> by simp
        show ?thesis unfolding fixed rounds Go go after_simps by (rule IH[unfolded f])
      qed
    qed (use longer rounds in simp)
  qed
qed

section \<open>A session's reads\<close>

lemma parse_round_consumes:
  assumes "parse_round F fixed rest ctx = Ret e r c" and "rest \<noteq> []" and "0 < e"
  shows "length r < length rest"
proof -
  have trail: "length r < length rest"
    if "trail_step F f1 r1 c1 = Ret e r c" "r1 = rest \<or> r1 = tl rest" for f1 r1 c1
  proof -
    have "r = tl (drop (m_trail c1 - 1) (if f1 then tl r1 else r1))"
      using trail_step_Ret[OF that(1) refl] assms(3) by auto
    then show ?thesis using that(2) assms(2) by (cases rest) (auto split: if_splits)
  qed
  show ?thesis
  proof (cases "m_cs ctx = CS_HEADER")
    case True
    show ?thesis
    proof (cases "header_step rest ctx")
      case (Ret e' r' c')
      then show ?thesis using assms True header_step_Ret[OF Ret] by (simp add: parse_round_def)
    next
      case (Go f1 r1 c1)
      then have "trail_step F f1 r1 c1 = Ret e r c" using assms(1) True by (simp add: parse_round_def split: if_splits)
      moreover have "r1 = rest \<or> r1 = tl rest" using header_step_Go[OF Go] by auto
      ultimately show ?thesis by (rule trail)
    qed (use assms True in \<open>simp add: parse_round_def\<close>)
  next
    case False
    then have "trail_step F fixed rest ctx = Ret e r c" using assms(1) by (simp add: parse_round_def)
    then show ?thesis by (rule trail) simp
  qed
qed

lemma execute_consumes: "execute F fixed rest ctx = Ret e r c \<Longrightarrow> 0 < e \<Longrightarrow> length r < length rest"
proof (induction F fixed rest ctx rule: execute.induct)
  case (1 F fixed rest ctx)
  have ne: "rest \<noteq> []" using "1.prems" by auto
  show ?case
  proof (cases "parse_round F fixed rest ctx")
    case (Ret e' r' c')
    then show ?thesis using "1.prems" ne parse_round_consumes[of F fixed rest ctx e r c] by (simp add: execute_round)
  next
    case (Go f r' c')
    then have "length r < length r'" using "1.IH"[OF ne Go] "1.prems" ne by (simp add: execute_round)
    moreover have "length r' \<le> length rest" using parse_round_Go[OF Go ne] by (auto split: if_splits)
    ultimately show ?thesis by simp
  qed (use "1.prems" ne in \<open>simp add: execute_round\<close>)
qed

lemma unpacker_next_consumes:
  "unpacker_next F u = Inr (Some obj, u') \<Longrightarrow> length (nonparsed u') < length (nonparsed u)"
  using execute_consumes[of F False "nonparsed u" "m_ctx u"]
  by (auto simp: unpacker_next_def split: step.splits if_splits)

text \<open>What is left of the buffer is a part of its end.\<close>

lemma drop_tl: "\<exists>k. tl (drop n xs) = drop k xs" "\<exists>k. tl xs = drop k xs" "\<exists>k. xs = drop k xs"
  by (simp_all only: drop_Suc[symmetric] tl_drop) (metis drop_Suc drop_0)+

lemma drop_drop_ex: "\<exists>k. ys = drop k xs \<Longrightarrow> \<exists>k. zs = drop k ys \<Longrightarrow> \<exists>k. zs = drop k xs"
  by auto

lemma trail_step_drop:
  "trail_step F fixed rest ctx = Ret e r c \<Longrightarrow> 0 \<le> e \<Longrightarrow> \<exists>k. r = drop k rest"
  "trail_step F fixed rest ctx = Go f r c \<Longrightarrow> \<exists>k. r = drop k rest"
proof -
  let ?n = "if fixed then tl rest else rest"
  have n: "\<exists>k. ?n = drop k rest" using drop_tl(2,3)[of rest] by simp
  show "\<exists>k. r = drop k rest" if "trail_step F fixed rest ctx = Ret e r c" "0 \<le> e"
    by (rule drop_drop_ex[OF n]) (use trail_step_Ret[OF that(1) refl] that(2) drop_tl in auto)
  show "\<exists>k. r = drop k rest" if "trail_step F fixed rest ctx = Go f r c"
    by (rule drop_drop_ex[OF n]) (use trail_step_Go[OF that] drop_tl(1) in \<open>auto split: if_splits\<close>)
qed

lemma parse_round_drop:
  "parse_round F fixed rest ctx = Ret e r c \<Longrightarrow> 0 \<le> e \<Longrightarrow> \<exists>k. r = drop k rest"
  "parse_round F fixed rest ctx = Go f r c \<Longrightarrow> \<exists>k. r = drop k rest"
proof -
  have header: "\<exists>k. r1 = drop k rest" if "header_step rest ctx = Go f1 r1 c1" for f1 r1 c1
    using header_step_Go[OF that] drop_tl(2,3)[of rest] by auto
  show "\<exists>k. r = drop k rest" if r: "parse_round F fixed rest ctx = Ret e r c" "0 \<le> e"
  proof (cases "m_cs ctx = CS_HEADER")
    case True
    show ?thesis
    proof (cases "header_step rest ctx")
      case (Go f1 r1 c1)
      then have "trail_step F f1 r1 c1 = Ret e r c" using r True by (simp add: parse_round_def split: if_splits)
      from drop_drop_ex[OF header[OF Go] trail_step_drop(1)[OF this r(2)]] show ?thesis .
    qed (use r True header_step_Ret[of rest ctx e r c] drop_tl(2,3)[of rest] in \<open>auto simp: parse_round_def\<close>)
  qed (use r trail_step_drop(1) in \<open>auto simp: parse_round_def\<close>)
  show "\<exists>k. r = drop k rest" if r: "parse_round F fixed rest ctx = Go f r c"
  proof (cases "m_cs ctx = CS_HEADER")
    case True
    then obtain f1 r1 c1 where Go: "header_step rest ctx = Go f1 r1 c1"
      using r by (auto simp: parse_round_def split: step.splits)
    show ?thesis
    proof (cases "m_cs c1 \<noteq> CS_HEADER \<or> f1")
      case t: True
      then have "trail_step F f1 r1 c1 = Go f r c" using r True Go by (simp add: parse_round_def)
      from drop_drop_ex[OF header[OF Go] trail_step_drop(2)[OF this]] show ?thesis .
    qed (use r True Go header[OF Go] in \<open>simp add: parse_round_def\<close>)
  qed (use r trail_step_drop(2) in \<open>auto simp: parse_round_def\<close>)
qed

lemma execute_drop: "execute F fixed rest ctx = Ret e r c \<Longrightarrow> 0 \<le> e \<Longrightarrow> \<exists>k. r = drop k rest"
proof (induction F fixed rest ctx rule: execute.induct)
  case (1 F fixed rest ctx)
  show ?case
  proof (cases "rest = []")
    case False
    show ?thesis
    proof (cases "parse_round F fixed rest ctx")
      case (Ret e' r' c')
      then show ?thesis using "1.prems" False parse_round_drop(1)[OF Ret] by (simp add: execute_round)
    next
      case (Go f r' c')
      then have "\<exists>k. r = drop k r'" using "1.IH"[OF False Go] "1.prems" False by (simp add: execute_round)
      from drop_drop_ex[OF parse_round_drop(2)[OF Go] this] show ?thesis .
    qed (use "1.prems" False in \<open>simp add: execute_round\<close>)
  qed (use "1.prems" in simp)
qed

text \<open>The loop \<open>while (pac_.next(result))\<close>: the objects it hands on, and the unpacker it leaves, or the exception
  that ends it.\<close>

function drain :: "float_bits \<Rightarrow> unpacker \<Rightarrow> msgpack_object list \<times> unpacker res" where
  "drain F u =
     (case unpacker_next F u of
        Inl e \<Rightarrow> ([], Inl e)
      | Inr (None, u') \<Rightarrow> ([], Inr u')
      | Inr (Some obj, u') \<Rightarrow> (case drain F u' of (objs, r) \<Rightarrow> (obj # objs, r)))"
  by pat_completeness auto
termination
  by (relation "measure (\<lambda>(F, u). length (nonparsed u))") (auto dest: unpacker_next_consumes)

declare drain.simps [simp del]

text \<open>The reads of a session, one after another; an exception ends the session's thread.\<close>

definition do_read :: "float_bits \<Rightarrow> bytes \<Rightarrow> unpacker \<Rightarrow> msgpack_object list \<times> unpacker res" where
  "do_read F bs u = drain F (buffer_consumed bs u)"

fun do_reads :: "float_bits \<Rightarrow> bytes list \<Rightarrow> unpacker \<Rightarrow> msgpack_object list \<times> unpacker res" where
  "do_reads F [] u = ([], Inr u)"
| "do_reads F (bs # chunks) u =
     (case do_read F bs u of
        (objs, Inl e) \<Rightarrow> (objs, Inl e)
      | (objs, Inr u') \<Rightarrow> (case do_reads F chunks u' of (objs', r) \<Rightarrow> (objs @ objs', r)))"

lemma buffer_consumed_sel [simp]:
  "nonparsed (buffer_consumed bs u) = nonparsed u @ bs" "m_ctx (buffer_consumed bs u) = m_ctx u"
  by (simp_all add: buffer_consumed_def)

lemma buffer_consumed_append [simp]:
  "buffer_consumed [] u = u" "buffer_consumed ys (buffer_consumed xs u) = buffer_consumed (xs @ ys) u"
  by (simp_all add: buffer_consumed_def)

lemma ctx_ok_init [simp]: "ctx_ok context_init" "ctx_ok (m_ctx unpacker_new)"
  by (simp_all add: context_init_def unpacker_new_def)

lemma unpacker_next_longer:
  assumes "ctx_ok (m_ctx u)"
  shows "case unpacker_next F u of
      Inl e \<Rightarrow> unpacker_next F (buffer_consumed ys u) = Inl e
    | Inr (Some obj, u') \<Rightarrow> ctx_ok (m_ctx u') \<and> unpacker_next F (buffer_consumed ys u) = Inr (Some obj, buffer_consumed ys u')
    | Inr (None, u') \<Rightarrow> ctx_ok (m_ctx u') \<and> unpacker_next F (buffer_consumed ys u) = unpacker_next F (buffer_consumed ys u')"
proof -
  note longer = execute_longer[OF assms, of F False "nonparsed u" ys]
  show ?thesis
  proof (cases "execute F False (nonparsed u) (m_ctx u)")
    case (Ret e r c)
    consider "e < 0" | "e = 0" | "0 < e" by linarith
    then show ?thesis
      by cases (use Ret longer in \<open>cases u; simp add: unpacker_next_def buffer_consumed_def split: step.split\<close>)+
  qed (use longer in \<open>simp_all add: unpacker_next_def\<close>)
qed

text \<open>The loop on a longer buffer does what the loop does on the buffer, and then on what it left and the rest.\<close>

definition drain_on :: "float_bits \<Rightarrow> bytes \<Rightarrow> msgpack_object list \<times> unpacker res \<Rightarrow> msgpack_object list \<times> unpacker res" where
  "drain_on F ys dr =
     (case dr of
        (objs, Inl e) \<Rightarrow> (objs, Inl e)
      | (objs, Inr u) \<Rightarrow> (case drain F (buffer_consumed ys u) of (objs', r) \<Rightarrow> (objs @ objs', r)))"

lemma drain_longer:
  "ctx_ok (m_ctx u) \<Longrightarrow> drain F (buffer_consumed ys u) = drain_on F ys (drain F u) \<and>
    (\<forall>objs u'. drain F u = (objs, Inr u') \<longrightarrow> ctx_ok (m_ctx u'))"
proof (induction F u rule: drain.induct)
  case (1 F u)
  note longer = unpacker_next_longer[OF "1.prems", of F ys]
  show ?case
  proof (cases "unpacker_next F u")
    case (Inl e)
    then show ?thesis using longer by (simp add: drain.simps drain_on_def)
  next
    case (Inr ou)
    obtain oo u' where ou: "ou = (oo, u')" by (cases ou) auto
    show ?thesis
    proof (cases oo)
      case None
      then have "drain F (buffer_consumed ys u) = drain F (buffer_consumed ys u')"
        using longer Inr ou by (simp add: drain.simps)
      then show ?thesis using longer Inr ou None by (simp add: drain.simps[of F u] drain_on_def)
    next
      case (Some obj)
      with Inr ou have nx: "unpacker_next F u = Inr (Some obj, u')" by simp
      with longer have c: "ctx_ok (m_ctx u')"
        and nx': "unpacker_next F (buffer_consumed ys u) = Inr (Some obj, buffer_consumed ys u')" by simp_all
      note IH = "1.IH"[OF nx refl refl c]
      obtain os r where d: "drain F u' = (os, r)" by (cases "drain F u'") auto
      have "drain F u = (obj # os, r)" using nx d by (simp add: drain.simps[of F u])
      moreover have "drain F (buffer_consumed ys u) = drain_on F ys (obj # os, r)"
        using nx' IH d by (simp add: drain.simps[of F "buffer_consumed ys u"] drain_on_def split: sum.split prod.split)
      ultimately show ?thesis using IH d by simp
    qed
  qed
qed

lemma drain_idle:
  assumes "ctx_ok (m_ctx u)" and "drain F u = (objs, Inr u')"
  shows "ctx_ok (m_ctx u')" "drain F u' = ([], Inr u')"
  using drain_longer[OF assms(1), of F "[]"] assms(2) by (auto simp: drain_on_def split: prod.splits)

lemma do_reads_concat:
  "ctx_ok (m_ctx u) \<Longrightarrow> drain F u = ([], Inr u) \<Longrightarrow> do_reads F chunks u = do_read F (concat chunks) u"
proof (induction chunks arbitrary: u)
  case (Cons bs chunks)
  have c: "ctx_ok (m_ctx (buffer_consumed bs u))" using Cons.prems by simp
  have all: "do_read F (concat (bs # chunks)) u = drain_on F (concat chunks) (do_read F bs u)"
    using drain_longer[OF c, of F "concat chunks"] by (simp add: do_read_def)
  obtain objs r where d: "do_read F bs u = (objs, r)" by (cases "do_read F bs u") auto
  show ?case
  proof (cases r)
    case (Inr u')
    then have "do_reads F chunks u' = do_read F (concat chunks) u'"
      using Cons.IH drain_idle[OF c, of F objs u'] d by (simp add: do_read_def)
    then show ?thesis using Inr d all by (simp add: drain_on_def do_read_def)
  qed (use d all in \<open>simp add: drain_on_def\<close>)
qed (simp add: do_read_def)

lemma drain_new: "drain F unpacker_new = ([], Inr unpacker_new)"
  by (simp add: drain.simps unpacker_next_def unpacker_new_def)

text \<open>How the network cuts the byte stream into reads makes no difference: a session that reads it in pieces of
  any sizes parses the same objects, ends in the same parser state, and fails at the same point with the same
  exception, as one that reads it whole.\<close>

theorem reads_independent_of_pieces: "do_reads F chunks unpacker_new = do_read F (concat chunks) unpacker_new"
  by (rule do_reads_concat) (simp_all add: drain_new)

lemma drain_packed:
  assumes "valid_object F obj" "depth obj \<le> limit_size"
  shows "do_read F (pack_object F obj @ rest) unpacker_new =
    (case do_read F rest unpacker_new of (objs, r) \<Rightarrow> (obj # objs, r))"
proof (rule execute_packed[OF assms, where rest = rest])
  fix c t b
  assume "execute F False (pack_object F obj @ rest) context_init = Ret 1 rest \<lparr>m_cs = c, m_trail = t, m_stack = [b]\<rparr>"
    and "sp_obj b = obj"
  then have "unpacker_next F (buffer_consumed (pack_object F obj @ rest) unpacker_new) =
      Inr (Some obj, buffer_consumed rest unpacker_new)"
    by (simp add: unpacker_next_def unpacker_new_def buffer_consumed_def)
  then show ?thesis
    by (simp add: do_read_def drain.simps[of F "buffer_consumed (pack_object F obj @ rest) unpacker_new"])
qed

lemma do_reads_packed:
  assumes "\<forall>obj\<in>set objs. valid_object F obj \<and> depth obj \<le> limit_size"
    and "concat chunks = concat (map (pack_object F) objs)"
  shows "do_reads F chunks unpacker_new = (objs, Inr unpacker_new)"
proof -
  have "do_reads F chunks unpacker_new = do_read F (concat (map (pack_object F) objs)) unpacker_new"
    unfolding assms(2)[symmetric] by (rule do_reads_concat) (simp_all add: drain_new)
  also have "\<dots> = (objs, Inr unpacker_new)"
    using assms(1) by (induction objs) (simp_all add: drain_packed do_read_def[of F "[]"] drain_new)
  finally show ?thesis .
qed

text \<open>A connection delivers messages: when the peer writes packed objects one after another and the bytes arrive
  in pieces of any sizes, the session parses exactly those objects, in the order they were written, and is left with
  an empty buffer between two messages.\<close>

theorem session_parses_messages:
  assumes "\<forall>obj\<in>set objs. valid_object F obj \<and> depth obj \<le> limit_size"
    and "concat chunks = concat (map (pack_object F) objs)"
  shows "do_reads F chunks unpacker_new = (objs, Inr unpacker_new)"
  by (rule do_reads_packed[OF assms])

theorem session_parses_messages_witness:
  "do_reads zero_floats [take 3 (pack_object zero_floats call_object), [],
     drop 3 (pack_object zero_floats call_object) @ [0xc0]] unpacker_new = ([call_object, NIL], Inr unpacker_new)"
  by (rule session_parses_messages) (simp_all add: pack_nil_def)

end
