(* ===== verification/Async_Writer.thy ===== *)
theory Async_Writer
  imports Msgpack_Stream "HOL-Library.Sublist"
begin

text \<open>
  The write queue of both ends of a connection, \<open>src/external/rpclib/include/rpc/detail/async_writer.h\<close>. \<open>write\<close> puts
  a buffer into the queue and starts a write when there is none; the handler of a finished write removes its buffer
  and starts the next write. What is documented of \<open>asio::async_write\<close>: it sends the bytes of its buffer in order,
  in pieces of any sizes, and calls the handler once, with an error or after the last byte; nothing keeps two
  writes that overlap apart. So the state has a list of operations, each with the bytes it still has to send, and
  that there is at most one is a theorem.

  The functions run on a strand, one at a time; between them the network and \<open>exit_\<close>, which other threads set,
  take steps. The session closes the socket only after it set \<open>exit_\<close>.
\<close>

section \<open>The queue\<close>

record writer =
  write_queue :: "bytes list"
  operations :: "bytes list"
  sent :: bytes
  exiting :: bool
  socket_open :: bool

definition writer_new :: writer where
  "writer_new = \<lparr>write_queue = [], operations = [], sent = [], exiting = False, socket_open = True\<rparr>"

definition do_write :: "writer \<Rightarrow> writer res" where
  "do_write w =
     (if exiting w then Inr w
      else case write_queue w of
        [] \<Rightarrow> Inl (Undefined OutOfRange)
      | item # _ \<Rightarrow> Inr (w\<lparr>operations := operations w @ [item]\<rparr>))"

definition queue_write :: "bytes \<Rightarrow> writer \<Rightarrow> writer res" where
  "queue_write data w =
     (let w = w\<lparr>write_queue := write_queue w @ [data]\<rparr>
      in if length (write_queue w) > 1 then Inr w else do_write w)"

definition pop_front :: "writer \<Rightarrow> writer res" where
  "pop_front w = (case write_queue w of [] \<Rightarrow> Inl (Undefined OutOfRange) | _ # q \<Rightarrow> Inr (w\<lparr>write_queue := q\<rparr>))"

definition write_handler :: "bool \<Rightarrow> writer \<Rightarrow> writer res" where
  "write_handler ec w =
     rbind (if \<not> ec
            then rbind (pop_front w) (\<lambda>w. if length (write_queue w) > 0 \<and> \<not> exiting w then do_write w else Inr w)
            else Inr w)
       (\<lambda>w. Inr (if exiting w then w\<lparr>socket_open := False\<rparr> else w))"

datatype writer_action = Written bytes | Transmitted bytes | Finished | Failed | Exit_set | Closed

inductive writer_step :: "writer \<Rightarrow> writer_action \<Rightarrow> writer \<Rightarrow> bool" where
  written: "queue_write data w = Inr w' \<Longrightarrow> writer_step w (Written data) w'"
| transmitted: "operations w = ops @ (bs @ rest) # ops' \<Longrightarrow> bs \<noteq> [] \<Longrightarrow> socket_open w \<Longrightarrow>
    writer_step w (Transmitted bs) (w\<lparr>operations := ops @ rest # ops', sent := sent w @ bs\<rparr>)"
| finished: "operations w = ops @ [] # ops' \<Longrightarrow> write_handler False (w\<lparr>operations := ops @ ops'\<rparr>) = Inr w' \<Longrightarrow>
    writer_step w Finished w'"
| failed: "operations w = ops @ rest # ops' \<Longrightarrow> write_handler True (w\<lparr>operations := ops @ ops'\<rparr>) = Inr w' \<Longrightarrow>
    writer_step w Failed w'"
| exit_set: "writer_step w Exit_set (w\<lparr>exiting := True\<rparr>)"
| closed: "exiting w \<Longrightarrow> writer_step w Closed (w\<lparr>socket_open := False\<rparr>)"

inductive_cases writer_stepE: "writer_step w a w'"

inductive writer_path :: "writer \<Rightarrow> writer_action list \<Rightarrow> writer \<Rightarrow> bool" for w :: writer where
  path_start: "writer_path w [] w"
| path_step: "writer_path w tr w1 \<Longrightarrow> writer_step w1 a w2 \<Longrightarrow> writer_path w (tr @ [a]) w2"

definition writer_run :: "writer_action list \<Rightarrow> writer \<Rightarrow> bool" where
  "writer_run tr w = writer_path writer_new tr w"

fun written_data :: "writer_action list \<Rightarrow> bytes list" where
  "written_data [] = []"
| "written_data (Written data # tr) = data # written_data tr"
| "written_data (_ # tr) = written_data tr"

lemma written_append [simp]: "written_data (tr @ tr') = written_data tr @ written_data tr'"
  by (induction tr rule: written_data.induct) simp_all

section \<open>One write at a time\<close>

text \<open>The buffers written are those done, \<open>popped\<close>, and those in the queue; of the first of these, \<open>part\<close> was sent.\<close>

definition progress :: "bytes list \<Rightarrow> bool \<Rightarrow> writer \<Rightarrow> bytes list \<Rightarrow> bytes \<Rightarrow> bool" where
  "progress datas broken w popped part \<longleftrightarrow> datas = popped @ write_queue w \<and> sent w = concat popped @ part \<and>
     (exiting w \<or> socket_open w) \<and>
     (operations w = [] \<and> (if write_queue w = [] then part = [] else prefix part (hd (write_queue w)) \<and> (exiting w \<or> broken)) \<or>
      (\<exists>rest. operations w = [rest] \<and> write_queue w \<noteq> [] \<and> hd (write_queue w) = part @ rest))"

definition writer_ok :: "bytes list \<Rightarrow> bool \<Rightarrow> writer \<Rightarrow> bool" where
  "writer_ok datas broken w \<longleftrightarrow> (\<exists>popped part. progress datas broken w popped part)"

lemma do_write_ok:
  assumes "datas = popped @ write_queue w" and "sent w = concat popped" and "exiting w \<or> socket_open w"
    and "operations w = []" and "write_queue w \<noteq> []"
  shows "\<exists>w'. do_write w = Inr w' \<and> progress datas broken w' popped []"
  using assms by (cases "write_queue w") (auto simp: do_write_def progress_def)

lemma queue_write_ok:
  assumes "progress datas broken w popped part"
  shows "\<exists>w'. queue_write data w = Inr w' \<and> progress (datas @ [data]) broken w' popped part"
proof (cases "write_queue w")
  case Nil
  then have "operations w = []" "part = []" using assms by (auto simp: progress_def)
  then show ?thesis
    using do_write_ok[of "datas @ [data]" popped "w\<lparr>write_queue := [data]\<rparr>"] assms Nil
    by (simp add: queue_write_def progress_def)
next
  case (Cons item q)
  then show ?thesis using assms by (auto simp: queue_write_def progress_def)
qed

lemma finished_ok:
  assumes "progress datas broken w popped part" and "operations w = ops @ [] # ops'"
  shows "\<exists>w'. write_handler False (w\<lparr>operations := ops @ ops'\<rparr>) = Inr w' \<and> (\<exists>popped. progress datas broken w' popped [])"
proof -
  have ops: "ops = []" "ops' = []" and q: "write_queue w \<noteq> []" "hd (write_queue w) = part"
    using assms by (auto simp: progress_def Cons_eq_append_conv append_eq_Cons_conv)
  then obtain q where q: "write_queue w = part # q" by (cases "write_queue w") auto
  let ?w = "w\<lparr>operations := [], write_queue := q\<rparr>"
  have state: "datas = (popped @ [part]) @ write_queue ?w" "sent ?w = concat (popped @ [part])" "exiting ?w \<or> socket_open ?w"
    using assms(1) q by (simp_all add: progress_def)
  have pop: "pop_front (w\<lparr>operations := ops @ ops'\<rparr>) = Inr ?w" using ops q by (simp add: pop_front_def)
  show ?thesis
  proof (cases "q \<noteq> [] \<and> \<not> exiting w")
    case True
    then obtain w' where w': "do_write ?w = Inr w'" "progress datas broken w' (popped @ [part]) []"
      using do_write_ok[OF state, of broken] by auto
    then have "exiting w' = exiting w" using True by (auto simp: do_write_def split: list.splits)
    then show ?thesis using w' True pop by (auto simp: write_handler_def)
  next
    case False
    then have "write_handler False (w\<lparr>operations := ops @ ops'\<rparr>) =
        Inr (if exiting w then ?w\<lparr>socket_open := False\<rparr> else ?w)"
      using pop by (auto simp: write_handler_def)
    moreover have "progress datas broken (if exiting w then ?w\<lparr>socket_open := False\<rparr> else ?w) (popped @ [part]) []"
      using state False by (auto simp: progress_def)
    ultimately show ?thesis by blast
  qed
qed

lemma failed_ok:
  assumes "progress datas broken w popped part" and "operations w = ops @ rest # ops'"
  shows "\<exists>w'. write_handler True (w\<lparr>operations := ops @ ops'\<rparr>) = Inr w' \<and> progress datas True w' popped part"
proof -
  have "ops = []" "ops' = []" "write_queue w \<noteq> []" "hd (write_queue w) = part @ rest"
    using assms by (auto simp: progress_def Cons_eq_append_conv append_eq_Cons_conv)
  then show ?thesis using assms(1) by (auto simp: write_handler_def progress_def)
qed

lemma transmitted_ok:
  assumes "progress datas broken w popped part" and "operations w = ops @ (bs @ rest) # ops'"
  shows "progress datas broken (w\<lparr>operations := ops @ rest # ops', sent := sent w @ bs\<rparr>) popped (part @ bs)"
proof -
  have "ops = []" "ops' = []" "write_queue w \<noteq> []" "hd (write_queue w) = part @ bs @ rest"
    using assms by (auto simp: progress_def Cons_eq_append_conv append_eq_Cons_conv)
  then show ?thesis using assms(1) by (auto simp: progress_def)
qed

lemma writer_step_ok:
  assumes "writer_step w a w'" and "writer_ok datas broken w"
  shows "writer_ok (datas @ written_data [a]) (broken \<or> a = Failed) w'"
proof -
  obtain popped part where p: "progress datas broken w popped part" using assms(2) by (auto simp: writer_ok_def)
  show ?thesis
    using assms(1)
  proof (cases rule: writer_step.cases)
    case (written data)
    then show ?thesis using queue_write_ok[OF p, of data] by (auto simp: writer_ok_def)
  next
    case (transmitted ops bs rest ops')
    then show ?thesis using transmitted_ok[OF p, of ops bs rest ops'] by (auto simp: writer_ok_def)
  next
    case (finished ops ops')
    then show ?thesis using finished_ok[OF p finished(2)] by (auto simp: writer_ok_def)
  next
    case (failed ops rest ops')
    then show ?thesis using failed_ok[OF p failed(2)] by (auto simp: writer_ok_def)
  next
    case exit_set
    then show ?thesis using p by (auto simp: writer_ok_def progress_def)
  next
    case closed
    then show ?thesis using p by (auto simp: writer_ok_def progress_def)
  qed
qed

lemma writer_run_ok: "writer_path writer_new tr w \<Longrightarrow> writer_ok (written_data tr) (Failed \<in> set tr) w"
proof (induction tr w rule: writer_path.induct)
  case path_start
  show ?case by (auto simp: writer_ok_def progress_def writer_new_def)
next
  case (path_step tr w1 a w2)
  then show ?case using writer_step_ok[OF path_step.hyps(2) path_step.IH] by (auto simp: disj_commute eq_commute)
qed

lemma do_write_exiting: "do_write w = Inr w' \<Longrightarrow> exiting w' = exiting w"
  by (auto simp: do_write_def split: if_splits list.splits)

lemma pop_front_exiting: "pop_front w = Inr w' \<Longrightarrow> exiting w' = exiting w"
  by (auto simp: pop_front_def split: list.splits)

lemma write_handler_exiting: "write_handler ec w = Inr w' \<Longrightarrow> exiting w' = exiting w"
  by (auto simp: write_handler_def rbind_Inr_iff dest!: do_write_exiting pop_front_exiting split: if_splits)

lemma exiting_step: "writer_step w a w' \<Longrightarrow> exiting w' \<longleftrightarrow> exiting w \<or> a = Exit_set"
proof (induction rule: writer_step.induct)
  case (written data w w')
  then show ?case by (auto simp: queue_write_def Let_def dest!: do_write_exiting split: if_splits)
qed (auto dest!: write_handler_exiting)

lemma exiting_path: "writer_path w tr w' \<Longrightarrow> exiting w' \<longleftrightarrow> exiting w \<or> Exit_set \<in> set tr"
  by (induction tr w' rule: writer_path.induct) (auto simp: exiting_step)

section \<open>Draining the queue\<close>

definition network :: "writer_action \<Rightarrow> bool" where
  "network a \<longleftrightarrow> a = Finished \<or> (\<exists>bs. a = Transmitted bs)"

text \<open>What the network still has to do: every byte, and the end of every write.\<close>

definition work :: "writer \<Rightarrow> nat" where
  "work w = length (concat (operations w)) + length (concat (tl (write_queue w))) + length (write_queue w)"

lemma network_step_work:
  assumes "writer_ok datas broken w" and "writer_step w a w'" and "network a"
  shows "work w' < work w \<and> writer_ok datas broken w'"
proof -
  have ok: "writer_ok datas broken w'" using writer_step_ok[OF assms(2,1)] assms(3) by (auto simp: network_def)
  obtain popped part where p: "progress datas broken w popped part" using assms(1) by (auto simp: writer_ok_def)
  from assms(2,3) have "work w' < work w"
  proof (cases rule: writer_step.cases)
    case (transmitted ops bs rest ops')
    then show ?thesis by (simp add: work_def)
  next
    case (finished ops ops')
    have ops: "ops = []" "ops' = []" "write_queue w \<noteq> []"
      using p finished(2) by (auto simp: progress_def Cons_eq_append_conv append_eq_Cons_conv)
    then obtain item q where q: "write_queue w = item # q" by (cases "write_queue w") auto
    show ?thesis
      using finished ops q
      by (cases q) (auto simp: work_def write_handler_def pop_front_def do_write_def split: if_splits)
  qed (auto simp: network_def)
  with ok show ?thesis by blast
qed

lemma network_path_work:
  assumes "writer_path w tr w'" and "writer_ok datas broken w" and "list_all network tr"
  shows "length tr + work w' \<le> work w \<and> writer_ok datas broken w'"
  using assms
proof (induction tr w' rule: writer_path.induct)
  case (path_step tr w1 a w2)
  then show ?case using network_step_work[OF _ path_step.hyps(2), of datas broken] by simp
qed simp

lemma network_goes_on:
  assumes "writer_ok datas False w" and "\<not> exiting w" and "write_queue w \<noteq> []"
  shows "\<exists>a w'. network a \<and> writer_step w a w'"
proof -
  obtain popped part where p: "progress datas False w popped part" using assms(1) by (auto simp: writer_ok_def)
  then obtain rest where rest: "operations w = [] @ [rest]" and "socket_open w" using assms(2,3) by (auto simp: progress_def)
  show ?thesis
  proof (cases "rest = []")
    case True
    then show ?thesis using finished_ok[OF p, of "[]" "[]"] rest finished by (fastforce simp: network_def)
  next
    case False
    then have "writer_step w (Transmitted rest) (w\<lparr>operations := [] @ [] # [], sent := sent w @ rest\<rparr>)"
      using rest \<open>socket_open w\<close> by (intro transmitted) simp_all
    then show ?thesis by (auto simp: network_def)
  qed
qed

lemma exit_step:
  assumes "writer_step w a w'" and "writer_ok datas broken w" and "exiting w"
  shows "prefix (sent w' @ concat (operations w')) (sent w @ concat (operations w))"
proof -
  obtain popped part where p: "progress datas broken w popped part" using assms(2) by (auto simp: writer_ok_def)
  have single: "ops = [] \<and> ops' = []" if "operations w = ops @ x # ops'" for ops x ops'
    using p that by (auto simp: progress_def Cons_eq_append_conv append_eq_Cons_conv)
  show ?thesis
    using assms(1,3)
  proof (cases rule: writer_step.cases)
    case (transmitted ops bs rest ops')
    then show ?thesis using single[OF transmitted(3)] by simp
  next
    case (finished ops ops')
    then show ?thesis
      using single[OF finished(2)] assms(3) by (auto simp: write_handler_def pop_front_def split: list.splits)
  next
    case (failed ops rest ops')
    then show ?thesis using single[OF failed(2)] assms(3) by (auto simp: write_handler_def)
  qed (auto simp: queue_write_def do_write_def Let_def split: if_splits)
qed

lemma exit_path:
  assumes "writer_path w tr w'" and "writer_ok datas broken w" and "exiting w"
  shows "prefix (sent w' @ concat (operations w')) (sent w @ concat (operations w)) \<and>
    (\<exists>datas broken. writer_ok datas broken w')"
  using assms
proof (induction tr w' rule: writer_path.induct)
  case (path_step tr w1 a w2)
  then obtain datas broken where "writer_ok datas broken w1"
    and pre: "prefix (sent w1 @ concat (operations w1)) (sent w @ concat (operations w))" by blast
  moreover have "exiting w1" using exiting_path[OF path_step.hyps(1)] path_step.prems by simp
  ultimately show ?case
    using exit_step[OF path_step.hyps(2)] writer_step_ok[OF path_step.hyps(2)] prefix_order.trans by blast
qed auto

text \<open>A write that failed stays in the queue.\<close>

definition stalled :: "writer \<Rightarrow> bool" where
  "stalled w \<longleftrightarrow> operations w = [] \<and> write_queue w \<noteq> []"

lemma failed_stalls:
  assumes "writer_step w Failed w'" and "writer_ok datas broken w"
  shows "stalled w'"
  using assms(1)
proof (cases rule: writer_step.cases)
  case (failed ops rest ops')
  obtain popped part where "progress datas broken w popped part" using assms(2) by (auto simp: writer_ok_def)
  then have "ops = []" "ops' = []" "write_queue w \<noteq> []"
    using failed(1) by (auto simp: progress_def Cons_eq_append_conv append_eq_Cons_conv)
  then show ?thesis using failed by (auto simp: write_handler_def stalled_def split: if_splits)
qed

lemma stalled_step:
  "writer_step w a w' \<Longrightarrow> stalled w \<Longrightarrow>
    stalled w' \<and> sent w' = sent w \<and> write_queue w' = write_queue w @ written_data [a]"
  by (induction rule: writer_step.induct) (auto simp: stalled_def queue_write_def Let_def split: if_splits)

lemma stalled_path:
  "writer_path w tr w' \<Longrightarrow> stalled w \<Longrightarrow>
    stalled w' \<and> sent w' = sent w \<and> write_queue w' = write_queue w @ written_data tr"
proof (induction tr w' rule: writer_path.induct)
  case (path_step tr w1 a w2)
  then show ?case using stalled_step[OF path_step.hyps(2)] by simp
qed simp

lemma stalled_accepts: "stalled w \<Longrightarrow> writer_step w (Written data) (w\<lparr>write_queue := write_queue w @ [data]\<rparr>)"
  by (rule written) (cases "write_queue w", simp_all add: stalled_def queue_write_def)

lemma stalled_since: "writer_path w tr w' \<Longrightarrow> writer_ok datas broken w \<Longrightarrow> Failed \<in> set tr \<Longrightarrow> stalled w'"
proof (induction tr w' rule: writer_path.induct)
  case (path_step tr w1 a w2)
  have "\<exists>datas broken. writer_ok datas broken w1"
    using path_step.hyps(1) path_step.prems(1)
    by (induction tr w1 rule: writer_path.induct) (blast dest: writer_step_ok)+
  then show ?case using path_step failed_stalls stalled_step by (cases "a = Failed") auto
qed simp

text \<open>What a peer parses from the bytes that reached it before a connection broke.\<close>

lemma do_reads_prefix:
  assumes "\<forall>obj\<in>set objs. valid_object F obj \<and> depth obj \<le> limit_size"
    and "prefix (concat chunks) (concat (map (pack_object F) objs))"
  shows "\<exists>k u. do_reads F chunks unpacker_new = (take k objs, Inr u)"
proof -
  obtain ys where "concat (chunks @ [ys]) = concat (map (pack_object F) objs)"
    using assms(2) by (auto simp: prefix_def)
  from do_reads_packed[OF assms(1) this] have all: "do_reads F (chunks @ [ys]) unpacker_new = (objs, Inr unpacker_new)" .
  obtain objs1 r where split: "do_reads F chunks unpacker_new = (objs1, r)" by fastforce
  have app: "do_reads F (cs @ [ys]) u =
      (case do_reads F cs u of (os1, Inl e) \<Rightarrow> (os1, Inl e)
       | (os1, Inr u1) \<Rightarrow> (case do_read F ys u1 of (os2, r2) \<Rightarrow> (os1 @ os2, r2)))" for cs u
    by (induction cs arbitrary: u) (auto split: prod.splits sum.splits)
  show ?thesis
    using all split by (cases r) (auto simp: app split: prod.splits intro!: exI[of _ "length objs1"])
qed

section \<open>Properties\<close>

text \<open>C12: Messages of a connection never mix and never overtake each other: in every run, errors and a requested exit
  included, at most one write is in progress, and what was sent so far is the beginning of the messages in the
  order they were written. Whatever reached the peer, it parses the first of the messages and no other object, and
  no exception.\<close>

theorem messages_never_mix:
  assumes "writer_run tr w" and "written_data tr = map (pack_object F) objs"
    and "\<forall>obj\<in>set objs. valid_object F obj \<and> depth obj \<le> limit_size" and "concat chunks = sent w"
  shows "length (operations w) \<le> 1 \<and> prefix (sent w) (concat (written_data tr)) \<and>
    (\<exists>k u. do_reads F chunks unpacker_new = (take k objs, Inr u))"
proof -
  obtain popped part where p: "progress (written_data tr) (Failed \<in> set tr) w popped part"
    using writer_run_ok[of tr w] assms(1) by (auto simp: writer_run_def writer_ok_def)
  then have one: "length (operations w) \<le> 1" by (auto simp: progress_def)
  have "prefix part (concat (write_queue w))"
    using p by (cases "write_queue w") (auto simp: progress_def prefix_def)
  then have "prefix (sent w) (concat (written_data tr))" using p by (auto simp: progress_def)
  with one do_reads_prefix[OF assms(3), of chunks] assms(2,4) show ?thesis by simp
qed

definition example_actions :: "writer_action list" where
  "example_actions = [Written [0xa1, 97], Written [0xc0], Transmitted [0xa1], Transmitted [97], Finished, Exit_set]"

definition example_writer :: writer where
  "example_writer = \<lparr>write_queue = [[0xc0]], operations = [[0xc0]], sent = [0xa1, 97], exiting = True, socket_open = True\<rparr>"

definition example_started :: writer where
  "example_started = \<lparr>write_queue = [[0xa1, 97]], operations = [[0xa1, 97]], sent = [], exiting = False, socket_open = True\<rparr>"

lemma example_start: "writer_step writer_new (Written [0xa1, 97]) example_started"
  by (rule written) (simp add: queue_write_def do_write_def writer_new_def example_started_def)

lemma example_transmit:
  "operations w = [b # rest] \<Longrightarrow> socket_open w \<Longrightarrow>
    writer_step w (Transmitted [b]) (w\<lparr>operations := [rest], sent := sent w @ [b]\<rparr>)"
  using transmitted[of w "[]" "[b]" rest "[]"] by simp

lemma example_writer_run: "writer_run example_actions example_writer"
proof -
  let ?w2 = "example_started\<lparr>write_queue := [[0xa1, 97], [0xc0]]\<rparr>"
  let ?w3 = "?w2\<lparr>operations := [[97]], sent := [0xa1]\<rparr>"
  let ?w4 = "?w2\<lparr>operations := [[]], sent := [0xa1, 97]\<rparr>"
  have s2: "writer_step example_started (Written [0xc0]) ?w2"
    by (rule written) (simp add: queue_write_def example_started_def)
  have s3: "writer_step ?w2 (Transmitted [0xa1]) ?w3"
    using example_transmit[of ?w2 "0xa1" "[97]"] by (simp add: example_started_def)
  have s4: "writer_step ?w3 (Transmitted [97]) ?w4"
    using example_transmit[of ?w3 97 "[]"] by (simp add: example_started_def)
  have s5: "writer_step ?w4 Finished (example_writer\<lparr>exiting := False\<rparr>)"
    by (rule finished[of _ "[]" "[]"])
      (simp_all add: write_handler_def pop_front_def do_write_def example_writer_def example_started_def)
  have s6: "writer_step (example_writer\<lparr>exiting := False\<rparr>) Exit_set example_writer"
    using exit_set[of "example_writer\<lparr>exiting := False\<rparr>"] by (simp add: example_writer_def)
  from path_step[OF path_step[OF path_step[OF path_step[OF path_step[OF path_step[OF path_start
    example_start] s2] s3] s4] s5] s6]
  show ?thesis by (simp add: writer_run_def example_actions_def)
qed

theorem messages_never_mix_witness:
  "prefix [0xa1, 97] ([0xa1, 97, 0xc0] :: bytes) \<and>
     (\<exists>k u. do_reads zero_floats [[0xa1], [97]] unpacker_new = (take k [STRING ''a'', NIL], Inr u))"
proof -
  have data: "written_data example_actions = map (pack_object zero_floats) [STRING ''a'', NIL]"
    by (simp add: example_actions_def pack_str_def pack_body_def bytes_of_def pack_nil_def or_disjoint)
  have valid: "\<forall>obj\<in>set [STRING ''a'', NIL]. valid_object zero_floats obj \<and> depth obj \<le> limit_size"
    by (simp add: limit_size_def)
  show ?thesis
    using messages_never_mix[OF example_writer_run data valid, of "[[0xa1], [97]]"]
    by (simp add: example_writer_def example_actions_def)
qed

text \<open>The queue drains: without errors and without an exit, any steps of the network are at most as many as there are bytes
  and buffers left, and when the network has nothing left to do, every byte written was sent.\<close>

theorem writer_drains:
  assumes "writer_run tr w" and "Failed \<notin> set tr" and "Exit_set \<notin> set tr"
    and "writer_path w as w'" and "list_all network as"
  shows "length as \<le> work w \<and>
    ((\<exists>a w''. network a \<and> writer_step w' a w'') \<or> sent w' = concat (written_data tr))"
proof -
  have ok: "writer_ok (written_data tr) False w"
    using writer_run_ok[of tr w] assms(1,2) by (auto simp: writer_run_def)
  note path = network_path_work[OF assms(4) ok assms(5)]
  have "Exit_set \<notin> set as" using assms(5) by (auto simp: list_all_iff network_def)
  then have calm: "\<not> exiting w'"
    using exiting_path[OF assms(4)] exiting_path[of writer_new tr w] assms(1,3) by (simp add: writer_run_def writer_new_def)
  have "sent w' = concat (written_data tr)" if "\<not> (\<exists>a w''. network a \<and> writer_step w' a w'')"
  proof -
    have "write_queue w' = []" using network_goes_on[of "written_data tr" w'] path calm that by blast
    then show ?thesis using path by (auto simp: writer_ok_def progress_def)
  qed
  with path show ?thesis by auto
qed

theorem writer_drains_witness:
  "length [Transmitted [0xa1], Transmitted [97], Finished] \<le> work example_started \<and>
     \<not> (\<exists>a w''. network a \<and> writer_step (writer_new\<lparr>sent := [0xa1, 97]\<rparr>) a w'') \<and>
     sent (writer_new\<lparr>sent := [0xa1, 97]\<rparr>) = concat [[0xa1, 97]]"
proof -
  let ?w2 = "example_started\<lparr>operations := [[97]], sent := [0xa1]\<rparr>"
  let ?w3 = "example_started\<lparr>operations := [[]], sent := [0xa1, 97]\<rparr>"
  have run: "writer_run ([] @ [Written [0xa1, 97]]) example_started"
    unfolding writer_run_def by (rule path_step[OF path_start example_start])
  have s1: "writer_step example_started (Transmitted [0xa1]) ?w2"
    using example_transmit[of example_started "0xa1" "[97]"] by (simp add: example_started_def)
  have s2: "writer_step ?w2 (Transmitted [97]) ?w3"
    using example_transmit[of ?w2 97 "[]"] by (simp add: example_started_def)
  have s3: "writer_step ?w3 Finished (writer_new\<lparr>sent := [0xa1, 97]\<rparr>)"
    by (rule finished[of _ "[]" "[]"]) (simp_all add: write_handler_def pop_front_def writer_new_def example_started_def)
  have idle: "\<not> (\<exists>a w''. network a \<and> writer_step (writer_new\<lparr>sent := [0xa1, 97]\<rparr>) a w'')"
    by (auto simp: network_def writer_new_def elim!: writer_stepE)
  from writer_drains[OF run _ _ path_step[OF path_step[OF path_step[OF path_start s1] s2] s3]]
  show ?thesis using idle by (simp add: network_def)
qed

text \<open>C35: A write that fails blocks its connection for good: whatever happens afterwards, no byte is sent and no write is
  started, because the failed buffer is never removed from the queue. Every further message is accepted all the same and
  joins the queue. A notification sent before the connection is established fails in this way.\<close>

theorem failed_write_blocks:
  assumes "writer_run tr w" and "Failed \<in> set tr" and "writer_path w as w'"
  shows "sent w' = sent w \<and> operations w' = [] \<and> write_queue w' = write_queue w @ written_data as \<and>
    write_queue w' \<noteq> [] \<and> (\<exists>w''. writer_step w' (Written data) w'' \<and> write_queue w'' = write_queue w' @ [data])"
proof -
  have "writer_ok [] False writer_new" by (auto simp: writer_ok_def progress_def writer_new_def)
  then have "stalled w" using stalled_since assms(1,2) by (auto simp: writer_run_def)
  note later = stalled_path[OF assms(3) this]
  then have "\<exists>w''. writer_step w' (Written data) w'' \<and> write_queue w'' = write_queue w' @ [data]"
    using stalled_accepts[of w' data] by fastforce
  with later show ?thesis unfolding stalled_def by blast
qed

theorem failed_write_blocks_witness:
  "\<exists>w w' w''. writer_run [Written [0xa1, 97], Failed] w \<and> writer_path w [Written [0xc0]] w' \<and>
     writer_step w' (Written [0xc2]) w'' \<and> write_queue w'' = [[0xa1, 97], [0xc0], [0xc2]] \<and> sent w' = [] \<and> operations w' = []"
proof -
  let ?w = "example_started\<lparr>operations := []\<rparr>"
  have "writer_step example_started Failed ?w"
    by (rule failed[of _ "[]" "[0xa1, 97]" "[]"]) (simp_all add: write_handler_def example_started_def)
  with example_start have run: "writer_run (([] @ [Written [0xa1, 97]]) @ [Failed]) ?w"
    unfolding writer_run_def by (intro path_step[OF path_step[OF path_start]])
  have "writer_step ?w (Written [0xc0]) (?w\<lparr>write_queue := [[0xa1, 97], [0xc0]]\<rparr>)"
    by (rule written) (simp add: queue_write_def example_started_def)
  then have path: "writer_path ?w ([] @ [Written [0xc0]]) (?w\<lparr>write_queue := [[0xa1, 97], [0xc0]]\<rparr>)"
    by (rule path_step[OF path_start])
  have "write_queue ?w = [[0xa1, 97]]" "sent ?w = []" by (simp_all add: example_started_def)
  with failed_write_blocks[OF run _ path, of "[0xc2]"] run path show ?thesis by fastforce
qed

text \<open>What \<open>this_session().post_exit()\<close> promises: once the exit was requested, at most the write in progress is
  completed; nothing else that is queued, and nothing written later, is ever sent.\<close>

theorem exit_sends_no_more:
  assumes "writer_run tr w" and "exiting w" and "writer_path w as w'"
  shows "prefix (sent w') (sent w @ concat (operations w))"
proof -
  have "writer_ok (written_data tr) (Failed \<in> set tr) w"
    using writer_run_ok[of tr w] assms(1) by (simp add: writer_run_def)
  from exit_path[OF assms(3) this assms(2)] show ?thesis using append_prefixD by blast
qed

theorem exit_sends_no_more_witness:
  "prefix (sent (example_writer\<lparr>write_queue := [[0xc0], [0xc2]]\<rparr>)) [0xa1, 97, 0xc0]"
proof -
  have "writer_step example_writer (Written [0xc2]) (example_writer\<lparr>write_queue := [[0xc0], [0xc2]]\<rparr>)"
    by (rule written) (simp add: queue_write_def example_writer_def)
  from exit_sends_no_more[OF example_writer_run _ path_step[OF path_start this]] show ?thesis
    by (simp add: example_writer_def)
qed

end
