(* ===== verification/Sbuffer.thy ===== *)
theory Sbuffer
  imports Msgpack
begin

text \<open>
  The output buffer of the packer, \<open>src/external/rpclib/include/rpc/msgpack/v1/sbuffer.hpp\<close>, and the doubling loop it
  shares with the input buffer of the parser. \<open>m_data\<close> is the list of the bytes stored so far, of which the first
  \<open>m_size\<close> count. \<open>malloc\<close> and \<open>realloc\<close> succeed for the sizes the argument \<open>mem\<close> accepts; \<open>size_t\<close> arithmetic wraps at
  64 bits.
\<close>

section \<open>Growing a buffer\<close>

text \<open>The doubling loop of \<open>sbuffer::expand_buffer\<close> and, twice, of \<open>unpacker::expand_buffer\<close>.\<close>

function grow :: "nat \<Rightarrow> nat \<Rightarrow> nat" where
  "grow need nsize =
     (if nsize < need
      then let tmp_nsize = nsize * 2 mod 2 ^ 64 in if tmp_nsize \<le> nsize then need else grow need tmp_nsize
      else nsize)"
  by pat_completeness auto
termination
proof (relation "measure (\<lambda>(need, nsize). 2 ^ 64 - nsize)")
  fix need nsize tmp :: nat
  assume "tmp = nsize * 2 mod 2 ^ 64" and "\<not> tmp \<le> nsize"
  moreover have "nsize * 2 mod 2 ^ 64 < (2 ^ 64 :: nat)" by simp
  ultimately show "((need, tmp), (need, nsize)) \<in> measure (\<lambda>(need, nsize). 2 ^ 64 - nsize)"
    unfolding in_measure prod.case by linarith
qed simp

declare grow.simps [simp del]

lemma grow_ge: "need \<le> grow need n"
  by (induction need n rule: grow.induct) (subst grow.simps, auto simp: Let_def)

lemma grow_id: "need \<le> n \<Longrightarrow> grow need n = n"
  by (subst grow.simps) simp

lemma grow_le: "n < need \<Longrightarrow> grow need n < 2 * need"
proof (induction need n rule: grow.induct)
  case (1 need n)
  let ?t = "n * 2 mod 2 ^ 64"
  show ?case
  proof (cases "?t \<le> n")
    case True
    then show ?thesis using "1.prems" by (subst grow.simps) simp
  next
    case False
    have "?t \<le> n * 2" by simp
    show ?thesis
    proof (cases "?t < need")
      case True
      then have "grow need ?t < 2 * need" using "1.IH"[OF "1.prems" refl False] by simp
      then show ?thesis using "1.prems" False by (subst grow.simps) simp
    next
      case need: False
      then have "grow need ?t = ?t" by (simp add: grow_id)
      then have "grow need n = ?t" using "1.prems" False by (subst grow.simps) simp
      then show ?thesis using \<open>?t \<le> n * 2\<close> "1.prems" by linarith
    qed
  qed
qed

lemma grow_bound: "grow need n \<le> max n (2 * need)"
  using grow_le[of n need] grow_id[of need n] by (cases "n < need") auto

lemma grow_small: "need < 2 ^ 64 \<Longrightarrow> n < 2 ^ 64 \<Longrightarrow> grow need n < 2 ^ 64"
  by (induction need n rule: grow.induct) (subst grow.simps, auto simp: Let_def)

section \<open>The output buffer\<close>

record sbuffer =
  sb_size :: nat
  sb_data :: bytes
  sb_alloc :: nat

definition SBUFFER_INIT_SIZE :: nat where "SBUFFER_INIT_SIZE = 8192"

type_synonym memory = "nat \<Rightarrow> bool"

definition sbuffer_new :: "memory \<Rightarrow> nat \<Rightarrow> sbuffer res" where
  "sbuffer_new mem initsz =
     (if initsz = 0 \<or> mem initsz then Inr \<lparr>sb_size = 0, sb_data = [], sb_alloc = initsz\<rparr> else Inl (Msgpack bad_alloc))"

definition sbuffer_expand :: "memory \<Rightarrow> nat \<Rightarrow> sbuffer \<Rightarrow> sbuffer res" where
  "sbuffer_expand mem len b =
     (let nsize = (if sb_alloc b > 0 then sb_alloc b * 2 mod 2 ^ 64 else SBUFFER_INIT_SIZE);
          nsize = grow ((sb_size b + len) mod 2 ^ 64) nsize
      in if mem nsize then Inr (b\<lparr>sb_alloc := nsize\<rparr>) else Inl (Msgpack bad_alloc))"

text \<open>\<open>memcpy\<close> behind the content; the bytes from \<open>m_size\<close> on that an earlier content left are overwritten.\<close>

definition sbuffer_write :: "memory \<Rightarrow> bytes \<Rightarrow> sbuffer \<Rightarrow> sbuffer res" where
  "sbuffer_write mem buf b =
     (let len = length buf
      in rbind (if (sb_alloc b + 2 ^ 64 - sb_size b) mod 2 ^ 64 < len then sbuffer_expand mem len b else Inr b) (\<lambda>b.
           if sb_size b + len \<le> sb_alloc b
           then Inr (b\<lparr>sb_data := take (sb_size b) (sb_data b) @ buf @ drop (sb_size b + len) (sb_data b),
                       sb_size := sb_size b + len\<rparr>)
           else Inl (Undefined BufferOverflow)))"

definition sbuffer_clear :: "sbuffer \<Rightarrow> sbuffer" where
  "sbuffer_clear b = b\<lparr>sb_size := 0\<rparr>"

definition sbuffer_release :: "sbuffer \<Rightarrow> bytes \<times> sbuffer" where
  "sbuffer_release b = (sb_data b, \<lparr>sb_size = 0, sb_data = [], sb_alloc = 0\<rparr>)"

definition sbuffer_content :: "sbuffer \<Rightarrow> bytes" where
  "sbuffer_content b = take (sb_size b) (sb_data b)"

definition sbuffer_ok :: "sbuffer \<Rightarrow> bool" where
  "sbuffer_ok b \<longleftrightarrow> sb_size b \<le> length (sb_data b) \<and> length (sb_data b) \<le> sb_alloc b \<and> sb_alloc b < 2 ^ 64"

lemma sbuffer_capacity:
  "sbuffer_ok b \<Longrightarrow> (sb_alloc b + 2 ^ 64 - sb_size b) mod 2 ^ 64 = sb_alloc b - sb_size b"
proof -
  assume "sbuffer_ok b"
  then have "sb_size b \<le> sb_alloc b" "sb_alloc b - sb_size b < 2 ^ 64" by (auto simp: sbuffer_ok_def)
  moreover from this(1) have "sb_alloc b + 2 ^ 64 - sb_size b = sb_alloc b - sb_size b + 2 ^ 64" by simp
  ultimately show ?thesis by (simp only: mod_add_self2 mod_less)
qed

lemma sbuffer_write_run:
  assumes ok: "sbuffer_ok b" and small: "2 * (sb_size b + length buf) < 2 ^ 64"
    and mem: "\<forall>n. n \<le> max SBUFFER_INIT_SIZE (2 * (sb_size b + length buf)) \<longrightarrow> mem n"
  shows "\<exists>b'. sbuffer_write mem buf b = Inr b' \<and> sbuffer_ok b' \<and> sbuffer_content b' = sbuffer_content b @ buf \<and>
    sb_size b' = sb_size b + length buf \<and> sb_alloc b' \<le> max (sb_alloc b) (max SBUFFER_INIT_SIZE (2 * sb_size b'))"
proof -
  let ?need = "sb_size b + length buf"
  let ?start = "if sb_alloc b > 0 then sb_alloc b * 2 mod 2 ^ 64 else SBUFFER_INIT_SIZE"
  have wrap: "?need mod 2 ^ 64 = ?need" using small by simp
  have size: "sb_size b \<le> length (sb_data b)" "length (sb_data b) \<le> sb_alloc b" "sb_alloc b < 2 ^ 64"
    using ok by (simp_all add: sbuffer_ok_def)
  have filled: "sbuffer_ok (b\<lparr>sb_alloc := n, sb_data := take (sb_size b) (sb_data b) @ buf @ drop ?need (sb_data b),
        sb_size := ?need\<rparr>) \<and>
      sbuffer_content (b\<lparr>sb_alloc := n, sb_data := take (sb_size b) (sb_data b) @ buf @ drop ?need (sb_data b),
        sb_size := ?need\<rparr>) = sbuffer_content b @ buf"
    if "?need \<le> n" "length (sb_data b) \<le> n" "n < 2 ^ 64" for n
    using that size(1) by (auto simp: sbuffer_ok_def sbuffer_content_def min_def)
  have run: "sbuffer_write mem buf b =
      rbind (if sb_alloc b - sb_size b < length buf then sbuffer_expand mem (length buf) b else Inr b) (\<lambda>b.
        if sb_size b + length buf \<le> sb_alloc b
        then Inr (b\<lparr>sb_data := take (sb_size b) (sb_data b) @ buf @ drop (sb_size b + length buf) (sb_data b),
                    sb_size := sb_size b + length buf\<rparr>)
        else Inl (Undefined BufferOverflow))"
    unfolding sbuffer_write_def sbuffer_capacity[OF ok] Let_def by (rule refl)
  show ?thesis
  proof (cases "sb_alloc b - sb_size b < length buf")
    case False
    then have "?need \<le> sb_alloc b" using size by simp
    then show ?thesis using filled[of "sb_alloc b"] False size run by auto
  next
    case True
    let ?n = "grow ?need ?start"
    have start: "?start \<le> max (2 * sb_alloc b) SBUFFER_INIT_SIZE" "?start < 2 ^ 64"
      by (auto simp: SBUFFER_INIT_SIZE_def intro: le_trans[OF mod_less_eq_dividend])
    have le: "?n \<le> max SBUFFER_INIT_SIZE (2 * ?need)"
      using grow_bound[of ?need ?start] start(1) True size by (auto simp: le_max_iff_disj)
    have n64: "?n < 2 ^ 64"
    proof (cases "?start < ?need")
      case True
      then show ?thesis using grow_le small by (meson less_trans)
    next
      case False
      then show ?thesis using start(2) by (simp add: grow_id)
    qed
    have need: "?need \<le> ?n" by (rule grow_ge)
    have data: "length (sb_data b) \<le> ?n" using True size need by linarith
    have "sbuffer_write mem buf b = Inr (b\<lparr>sb_alloc := ?n,
        sb_data := take (sb_size b) (sb_data b) @ buf @ drop ?need (sb_data b), sb_size := ?need\<rparr>)"
      using True mem[rule_format, OF le] need unfolding run sbuffer_expand_def wrap Let_def by simp
    then show ?thesis using filled[OF need data n64] le by fastforce
  qed
qed

section \<open>Properties\<close>

text \<open>The doubling loop that sizes the buffers ends for all sizes, with enough room, less than twice the room
  that is needed when it had to grow, and without a change when there was room before.\<close>

theorem grow_bounds:
  "need \<le> grow need n \<and> (n < need \<longrightarrow> grow need n < 2 * need) \<and> (need \<le> n \<longrightarrow> grow need n = n)"
  by (auto simp: grow_ge grow_le grow_id)

theorem grow_bounds_witness: "100000 \<le> grow 100000 8192 \<and> grow 100000 8192 < 200000"
  using grow_bounds[of 100000 8192] by simp

lemma sbuffer_writes_run:
  "sbuffer_ok b \<Longrightarrow> sb_alloc b \<le> max SBUFFER_INIT_SIZE (2 * sb_size b) \<Longrightarrow>
    2 * (sb_size b + length (concat bufs)) < 2 ^ 64 \<Longrightarrow>
    \<forall>n. n \<le> max SBUFFER_INIT_SIZE (2 * (sb_size b + length (concat bufs))) \<longrightarrow> mem n \<Longrightarrow>
    \<exists>b'. rfold (sbuffer_write mem) bufs b = Inr b' \<and> sbuffer_content b' = sbuffer_content b @ concat bufs \<and>
      sb_size b' = sb_size b + length (concat bufs) \<and> sb_alloc b' \<le> max SBUFFER_INIT_SIZE (2 * sb_size b')"
proof (induction bufs arbitrary: b)
  case (Cons buf bufs)
  have "2 * (sb_size b + length buf) < 2 ^ 64" using Cons.prems(3) by simp
  moreover have "\<forall>n. n \<le> max SBUFFER_INIT_SIZE (2 * (sb_size b + length buf)) \<longrightarrow> mem n"
    using Cons.prems(4) by (auto simp: le_max_iff_disj)
  ultimately obtain b1 where b1: "sbuffer_write mem buf b = Inr b1" "sbuffer_ok b1"
    "sbuffer_content b1 = sbuffer_content b @ buf" "sb_size b1 = sb_size b + length buf"
    "sb_alloc b1 \<le> max (sb_alloc b) (max SBUFFER_INIT_SIZE (2 * sb_size b1))"
    using sbuffer_write_run[OF Cons.prems(1)] by blast
  have "sb_alloc b1 \<le> max SBUFFER_INIT_SIZE (2 * sb_size b1)"
    using b1(4,5) Cons.prems(2) by (auto simp: le_max_iff_disj)
  from Cons.IH[OF b1(2) this] Cons.prems(3,4) b1(4) obtain b' where
    "rfold (sbuffer_write mem) bufs b1 = Inr b'" "sbuffer_content b' = sbuffer_content b1 @ concat bufs"
    "sb_size b' = sb_size b1 + length (concat bufs)" "sb_alloc b' \<le> max SBUFFER_INIT_SIZE (2 * sb_size b')"
    by (auto simp: add.assoc)
  then show ?case using b1 by auto
qed simp

text \<open>C31: The output buffer collects what the packer writes, in order, whatever the sizes of the pieces, and never
  takes more than its initial size or twice the bytes written.\<close>

theorem sbuffer_collects:
  assumes "2 * length (concat bufs) < 2 ^ 64"
    and "\<forall>n. n \<le> max SBUFFER_INIT_SIZE (2 * length (concat bufs)) \<longrightarrow> mem n"
  shows "\<exists>b. rbind (sbuffer_new mem SBUFFER_INIT_SIZE) (rfold (sbuffer_write mem) bufs) = Inr b \<and>
    sbuffer_content b = concat bufs \<and> sb_size b = length (concat bufs) \<and>
    sb_alloc b \<le> max SBUFFER_INIT_SIZE (2 * length (concat bufs))"
proof -
  let ?b = "\<lparr>sb_size = 0, sb_data = [], sb_alloc = SBUFFER_INIT_SIZE\<rparr>"
  have "sbuffer_new mem SBUFFER_INIT_SIZE = Inr ?b" using assms(2) by (simp add: sbuffer_new_def)
  moreover have "sbuffer_ok ?b" by (simp add: sbuffer_ok_def SBUFFER_INIT_SIZE_def)
  ultimately show ?thesis
    using sbuffer_writes_run[of ?b bufs mem] assms by (auto simp: sbuffer_content_def)
qed

theorem sbuffer_collects_witness:
  "\<exists>b. rbind (sbuffer_new (\<lambda>n. n < 30000) SBUFFER_INIT_SIZE)
      (rfold (sbuffer_write (\<lambda>n. n < 30000)) [replicate 8000 1, replicate 4000 2]) = Inr b \<and>
    sbuffer_content b = replicate 8000 1 @ replicate 4000 2 \<and> sb_alloc b \<le> 24000"
proof -
  have "\<forall>n. n \<le> max SBUFFER_INIT_SIZE (2 * length (concat [replicate 8000 1, replicate 4000 (2::nat)])) \<longrightarrow> n < 30000"
    by (simp add: SBUFFER_INIT_SIZE_def)
  from sbuffer_collects[OF _ this] show ?thesis by (auto simp: SBUFFER_INIT_SIZE_def)
qed

end
