(* ===== verification/Unpacker_Buffer.thy ===== *)
theory Unpacker_Buffer
  imports Msgpack_Stream Sbuffer
begin

text \<open>
  The input buffer of the parser, \<open>class unpacker\<close> of \<open>src/external/rpclib/include/rpc/msgpack/v1/unpack.hpp\<close>, and the use
  sessions make of it. A parsed string is not copied: it points into the input buffer, which is kept alive by a
  reference count in its first four bytes. The zone of a message decrements the count when the message is
  destroyed, by a thread of the server at any later time.

  \<^item> The heap maps the addresses of allocated blocks to their content; addresses are not reused. A block is its
    size, its reference count and the bytes stored behind the counter so far. Access to a freed block is \<open>Undefined\<close>.
  \<^item> \<open>malloc\<close> succeeds for the sizes the argument \<open>mem\<close> accepts. \<open>realloc\<close> always moves the block, the worst case for
    pointers into it. The small allocations of zones and their finalizers succeed.
  \<^item> \<open>size_t\<close> arithmetic wraps at 64 bits, the reference count at 32.
  \<^item> A span remembers a part of a buffer in which strings of a message lie, with the bytes it had when it was
    parsed. Spans are read by the properties only.
\<close>

section \<open>Blocks and their counts\<close>

record chunk =
  ch_alloc :: nat
  ch_count :: nat
  ch_data :: bytes

record heap =
  hp_next :: nat
  hp_chunk :: "nat \<Rightarrow> chunk option"

definition COUNTER_SIZE :: nat where "COUNTER_SIZE = 4"

definition chunk_at :: "heap \<Rightarrow> nat \<Rightarrow> chunk res" where
  "chunk_at hp b = (case hp_chunk hp b of Some ch \<Rightarrow> Inr ch | None \<Rightarrow> Inl (Undefined OutOfRange))"

definition set_chunk :: "nat \<Rightarrow> chunk option \<Rightarrow> heap \<Rightarrow> heap" where
  "set_chunk b ch hp = hp\<lparr>hp_chunk := (hp_chunk hp)(b := ch)\<rparr>"

text \<open>\<open>malloc\<close>, \<open>init_count\<close> and the bytes copied behind the counter.\<close>

definition new_chunk :: "memory \<Rightarrow> nat \<Rightarrow> bytes \<Rightarrow> heap \<Rightarrow> (nat \<times> heap) res" where
  "new_chunk mem n data hp =
     (if mem n
      then Inr (hp_next hp, set_chunk (hp_next hp) (Some \<lparr>ch_alloc = n, ch_count = 1, ch_data = data\<rparr>)
                              (hp\<lparr>hp_next := Suc (hp_next hp)\<rparr>))
      else Inl (Msgpack bad_alloc))"

definition realloc_chunk :: "memory \<Rightarrow> nat \<Rightarrow> nat \<Rightarrow> heap \<Rightarrow> (nat \<times> heap) res" where
  "realloc_chunk mem b n hp =
     rbind (chunk_at hp b) (\<lambda>ch.
       if mem n
       then Inr (hp_next hp,
                 set_chunk b None
                   (set_chunk (hp_next hp) (Some (ch\<lparr>ch_alloc := n, ch_data := take (n - COUNTER_SIZE) (ch_data ch)\<rparr>))
                     (hp\<lparr>hp_next := Suc (hp_next hp)\<rparr>)))
       else Inl (Msgpack bad_alloc))"

definition release_count :: "nat \<Rightarrow> heap \<Rightarrow> heap res" where
  "release_count b hp =
     rbind (chunk_at hp b) (\<lambda>ch.
       let n = (ch_count ch + 2 ^ 32 - 1) mod 2 ^ 32
       in Inr (set_chunk b (if n = 0 then None else Some (ch\<lparr>ch_count := n\<rparr>)) hp))"

definition incr_count :: "nat \<Rightarrow> heap \<Rightarrow> heap res" where
  "incr_count b hp =
     rbind (chunk_at hp b) (\<lambda>ch. Inr (set_chunk b (Some (ch\<lparr>ch_count := (ch_count ch + 1) mod 2 ^ 32\<rparr>)) hp))"

section \<open>Which rounds of the parser point into the buffer\<close>

text \<open>The calls of \<open>unpack_str\<close>, \<open>unpack_bin\<close> and \<open>unpack_ext\<close>, each of which sets \<open>referenced\<close>.\<close>

definition trail_references :: "bool \<Rightarrow> bytes \<Rightarrow> unpack_context \<Rightarrow> bool" where
  "trail_references fixed rest ctx \<longleftrightarrow>
     (let n = (if fixed then tl rest else rest)
      in m_trail ctx \<le> length n \<and>
         (m_cs ctx \<in> {ACS_STR_VALUE, ACS_BIN_VALUE, ACS_EXT_VALUE} \<or> fixext_item (m_cs ctx) n \<noteq> None \<or>
          (case sized_state (m_cs ctx) n of Some (acs, trail) \<Rightarrow> trail = 0 | None \<Rightarrow> False)))"

definition round_references :: "bool \<Rightarrow> bytes \<Rightarrow> unpack_context \<Rightarrow> bool" where
  "round_references fixed rest ctx =
     (if m_cs ctx = CS_HEADER
      then hd rest = 0xa0 \<or>
        (case header_step rest ctx of
           Go f r c \<Rightarrow> (m_cs c \<noteq> CS_HEADER \<or> f) \<and> trail_references f r c
         | _ \<Rightarrow> False)
      else trail_references fixed rest ctx)"

function references :: "float_bits \<Rightarrow> bool \<Rightarrow> bytes \<Rightarrow> unpack_context \<Rightarrow> bool" where
  "references F fixed rest ctx =
     (if rest = [] then False
      else round_references fixed rest ctx \<or>
        (case parse_round F fixed rest ctx of Go f r c \<Rightarrow> references F f r c | _ \<Rightarrow> False))"
  by pat_completeness auto
termination
  by (relation "measure (\<lambda>(F, fixed, rest, ctx). 2 * length rest + (if fixed then 0 else 1))")
    (auto dest: parse_round_Go)

declare references.simps [simp del]

section \<open>The input buffer\<close>

record span =
  sn_buffer :: nat
  sn_from :: nat
  sn_bytes :: bytes

record input_buffer =
  m_buffer :: nat
  m_used :: nat
  m_free :: nat
  m_off :: nat
  m_parsed :: nat
  m_z :: "nat list"
  m_initial :: nat
  m_referenced :: bool
  m_context :: unpack_context
  m_spans :: "span list"

definition UNPACKER_INIT_BUFFER_SIZE :: nat where "UNPACKER_INIT_BUFFER_SIZE = 64 * 1024"

definition input_new :: "memory \<Rightarrow> nat \<Rightarrow> heap \<Rightarrow> (input_buffer \<times> heap) res" where
  "input_new mem initial_buffer_size hp =
     (let initial = max initial_buffer_size COUNTER_SIZE
      in rbind (new_chunk mem initial [] hp) (\<lambda>(b, hp).
           Inr (\<lparr>m_buffer = b, m_used = COUNTER_SIZE, m_free = initial - COUNTER_SIZE, m_off = COUNTER_SIZE, m_parsed = 0,
                 m_z = [], m_initial = initial, m_referenced = False, m_context = context_init, m_spans = []\<rparr>, hp)))"

text \<open>\<open>expand_buffer\<close> starts again at the front of the buffer when nothing refers to it; else it makes a buffer that
  nothing was parsed from larger; else it moves the bytes that are not parsed to a new buffer.\<close>

definition rewind :: "input_buffer \<Rightarrow> input_buffer" where
  "rewind u =
     u\<lparr>m_free := (m_free u + (m_used u - COUNTER_SIZE)) mod 2 ^ 64, m_used := COUNTER_SIZE, m_off := COUNTER_SIZE\<rparr>"

definition expand_in_place :: "memory \<Rightarrow> nat \<Rightarrow> input_buffer \<Rightarrow> heap \<Rightarrow> (input_buffer \<times> heap) res" where
  "expand_in_place mem wanted u hp =
     (let next_size = grow ((wanted + m_used u) mod 2 ^ 64) ((m_used u + m_free u) * 2 mod 2 ^ 64)
      in rbind (realloc_chunk mem (m_buffer u) next_size hp) (\<lambda>(b, hp).
           Inr (u\<lparr>m_buffer := b, m_free := next_size - m_used u\<rparr>, hp)))"

definition expand_elsewhere :: "memory \<Rightarrow> nat \<Rightarrow> input_buffer \<Rightarrow> chunk \<Rightarrow> heap \<Rightarrow> (input_buffer \<times> heap) res" where
  "expand_elsewhere mem wanted u ch hp =
     (let not_parsed = m_used u - m_off u;
          next_size = grow ((wanted + not_parsed + COUNTER_SIZE) mod 2 ^ 64) (m_initial u)
      in rbind (new_chunk mem next_size (take not_parsed (drop (m_off u - COUNTER_SIZE) (ch_data ch))) hp) (\<lambda>(b, hp).
         rbind (if m_referenced u
                then Inr (u\<lparr>m_z := m_z u @ [m_buffer u], m_referenced := False\<rparr>, hp)
                else rbind (release_count (m_buffer u) hp) (\<lambda>hp. Inr (u, hp))) (\<lambda>(u, hp).
           Inr (u\<lparr>m_buffer := b, m_used := not_parsed + COUNTER_SIZE,
                  m_free := next_size - (not_parsed + COUNTER_SIZE), m_off := COUNTER_SIZE\<rparr>, hp))))"

definition expand_buffer :: "memory \<Rightarrow> nat \<Rightarrow> input_buffer \<Rightarrow> heap \<Rightarrow> (input_buffer \<times> heap) res" where
  "expand_buffer mem wanted u hp =
     rbind (chunk_at hp (m_buffer u)) (\<lambda>ch.
       let idle = m_used u = m_off u \<and> ch_count ch = 1 \<and> \<not> m_referenced u;
           u = (if idle then rewind u else u)
       in if idle \<and> m_free u \<ge> wanted then Inr (u, hp)
          else if m_off u = COUNTER_SIZE then expand_in_place mem wanted u hp
          else expand_elsewhere mem wanted u ch hp)"

definition reserve_buffer :: "memory \<Rightarrow> nat \<Rightarrow> input_buffer \<Rightarrow> heap \<Rightarrow> (input_buffer \<times> heap) res" where
  "reserve_buffer mem wanted u hp = (if m_free u \<ge> wanted then Inr (u, hp) else expand_buffer mem wanted u hp)"

text \<open>The bytes that are not parsed yet.\<close>

definition nonparsed_bytes :: "input_buffer \<Rightarrow> chunk \<Rightarrow> bytes" where
  "nonparsed_bytes u ch = drop (m_off u - COUNTER_SIZE) (take (m_used u - COUNTER_SIZE) (ch_data ch))"

text \<open>A read of the socket stores its bytes from \<open>buffer()\<close> on and then calls \<open>buffer_consumed\<close>.\<close>

definition receive :: "bytes \<Rightarrow> input_buffer \<Rightarrow> heap \<Rightarrow> (input_buffer \<times> heap) res" where
  "receive bs u hp =
     rbind (chunk_at hp (m_buffer u)) (\<lambda>ch.
       if m_used u + length bs \<le> ch_alloc ch
       then let pos = m_used u - COUNTER_SIZE
            in Inr (u\<lparr>m_used := m_used u + length bs, m_free := m_free u - length bs\<rparr>,
                    set_chunk (m_buffer u)
                      (Some (ch\<lparr>ch_data := take pos (ch_data ch) @ bs @ drop (pos + length bs) (ch_data ch)\<rparr>)) hp)
       else Inl (Undefined BufferOverflow))"

definition execute_imp :: "float_bits \<Rightarrow> input_buffer \<Rightarrow> heap \<Rightarrow> (int \<times> input_buffer) res" where
  "execute_imp F u hp =
     rbind (chunk_at hp (m_buffer u)) (\<lambda>ch.
       let bs = nonparsed_bytes u ch
       in case execute F False bs (m_context u) of
            Ret r rest ctx \<Rightarrow>
              let off = m_used u - length rest; ref = references F False bs (m_context u)
              in Inr (r, u\<lparr>m_off := off, m_parsed := (if off > m_off u then m_parsed u + (off - m_off u) else m_parsed u),
                           m_context := ctx, m_referenced := m_referenced u \<or> ref,
                           m_spans := m_spans u @
                             (if ref then [\<lparr>sn_buffer = m_buffer u, sn_from = m_off u - COUNTER_SIZE,
                                            sn_bytes = take (off - m_off u) bs\<rparr>] else [])\<rparr>)
          | _ \<Rightarrow> Inl (Msgpack size_overflow))"

definition flush_zone :: "input_buffer \<Rightarrow> heap \<Rightarrow> (input_buffer \<times> heap) res" where
  "flush_zone u hp =
     (if m_referenced u
      then rbind (incr_count (m_buffer u) hp) (\<lambda>hp. Inr (u\<lparr>m_z := m_z u @ [m_buffer u], m_referenced := False\<rparr>, hp))
      else Inr (u, hp))"

text \<open>A message: its object, the buffers its zone keeps alive and where its strings are.\<close>

record message =
  ms_object :: msgpack_object
  ms_zone :: "nat list"
  ms_spans :: "span list"

definition input_next :: "float_bits \<Rightarrow> input_buffer \<Rightarrow> heap \<Rightarrow> (message option \<times> input_buffer \<times> heap) res" where
  "input_next F u hp =
     rbind (execute_imp F u hp) (\<lambda>(ret, u).
       if ret < 0 then Inl (Msgpack parse_error)
       else if ret = 0 then Inr (None, u, hp)
       else rbind (flush_zone u hp) (\<lambda>(u, hp).
              Inr (Some \<lparr>ms_object = sp_obj (last (m_stack (m_context u))), ms_zone = m_z u, ms_spans = m_spans u\<rparr>,
                   u\<lparr>m_z := [], m_spans := [], m_context := context_init, m_parsed := 0\<rparr>, hp)))"

text \<open>The destructor of a zone calls the finalizers, the last one pushed first.\<close>

definition destroy_zone :: "nat list \<Rightarrow> heap \<Rightarrow> heap res" where
  "destroy_zone z hp = rfold release_count (rev z) hp"

definition destroy_input :: "input_buffer \<Rightarrow> heap \<Rightarrow> heap res" where
  "destroy_input u hp = rbind (release_count (m_buffer u) hp) (destroy_zone (m_z u))"

section \<open>Reference counts\<close>

text \<open>The count of every block is the number of its holders in \<open>P\<close>, and a block without holders is freed.\<close>

definition counts :: "heap \<Rightarrow> nat multiset \<Rightarrow> bool" where
  "counts hp P \<longleftrightarrow>
     (\<forall>b ch. hp_chunk hp b = Some ch \<longrightarrow> ch_count ch = count P b \<and> count P b < 2 ^ 32 \<and> b < hp_next hp) \<and>
     (\<forall>b. hp_chunk hp b = None \<longleftrightarrow> b \<notin># P)"

text \<open>The block is there in both heaps with the same bytes.\<close>

definition same_bytes :: "heap \<Rightarrow> heap \<Rightarrow> nat \<Rightarrow> bool" where
  "same_bytes hp hp' b \<longleftrightarrow>
     (\<exists>ch ch'. hp_chunk hp b = Some ch \<and> hp_chunk hp' b = Some ch' \<and> ch_alloc ch' = ch_alloc ch \<and> ch_data ch' = ch_data ch)"

lemma countsI:
  assumes "\<And>b ch. hp_chunk hp b = Some ch \<Longrightarrow> ch_count ch = count P b \<and> count P b < 2 ^ 32 \<and> b < hp_next hp \<and> b \<in># P"
    and "\<And>b. hp_chunk hp b = None \<Longrightarrow> b \<notin># P"
  shows "counts hp P"
  using assms unfolding counts_def by (metis not_None_eq)

lemma countsD:
  assumes "counts hp P" and "b \<in># P"
  obtains ch where "hp_chunk hp b = Some ch" "ch_count ch = count P b" "count P b < 2 ^ 32" "b < hp_next hp"
proof -
  obtain ch where "hp_chunk hp b = Some ch" using assms unfolding counts_def by (cases "hp_chunk hp b") auto
  then show ?thesis using assms(1) that unfolding counts_def by blast
qed

lemma counts_Some:
  "counts hp P \<Longrightarrow> hp_chunk hp b = Some ch \<Longrightarrow> ch_count ch = count P b \<and> count P b < 2 ^ 32 \<and> b < hp_next hp \<and> b \<in># P"
  unfolding counts_def by (metis option.distinct(1))

lemma counts_None: "counts hp P \<Longrightarrow> hp_chunk hp b = None \<longleftrightarrow> b \<notin># P"
  unfolding counts_def by blast

lemma counts_fresh: "counts hp P \<Longrightarrow> hp_chunk hp (hp_next hp) = None \<and> hp_next hp \<notin># P"
  using counts_Some[of hp P "hp_next hp"] counts_None[of hp P "hp_next hp"] by (cases "hp_chunk hp (hp_next hp)") auto

lemma counts_data:
  "counts hp P \<Longrightarrow> hp_chunk hp b = Some ch \<Longrightarrow> counts (set_chunk b (Some (ch\<lparr>ch_data := d\<rparr>)) hp) P"
  using counts_Some[of hp P b ch] unfolding counts_def by (auto simp: set_chunk_def)

lemma same_bytes_refl: "counts hp P \<Longrightarrow> b \<in># P \<Longrightarrow> same_bytes hp hp b"
  by (auto simp: same_bytes_def elim: countsD)

lemma same_bytes_trans: "same_bytes hp hp1 b \<Longrightarrow> same_bytes hp1 hp2 b \<Longrightarrow> same_bytes hp hp2 b"
  by (auto simp: same_bytes_def)

lemma release_count_run:
  assumes "counts hp (add_mset b P)"
  shows "\<exists>hp'. release_count b hp = Inr hp' \<and> counts hp' P \<and> hp_next hp' = hp_next hp \<and>
    (\<forall>b'. b' \<in># P \<longrightarrow> same_bytes hp hp' b')"
proof -
  obtain ch where ch: "hp_chunk hp b = Some ch" "ch_count ch = count P b + 1" "count P b + 1 < 2 ^ 32" "b < hp_next hp"
    by (rule countsD[OF assms, of b]) simp_all
  let ?n = "(ch_count ch + 2 ^ 32 - 1) mod 2 ^ 32"
  have "ch_count ch + 2 ^ 32 - 1 = count P b + 2 ^ 32" using ch(2) by simp
  then have n: "?n = count P b" using ch(3) by simp
  let ?hp = "set_chunk b (if ?n = 0 then None else Some (ch\<lparr>ch_count := ?n\<rparr>)) hp"
  have run: "release_count b hp = Inr ?hp"
    unfolding release_count_def chunk_at_def ch(1) by (simp add: Let_def)
  have counts: "counts ?hp P"
  proof (rule countsI, goal_cases)
    case (1 x c)
    then show ?case
      using counts_Some[OF assms, of x] ch(1,3,4) unfolding n
      by (cases "x = b") (auto simp: set_chunk_def count_inI split: if_splits)
  next
    case (2 x)
    then show ?case
      using counts_None[OF assms, of x] ch(1) unfolding n
      by (cases "x = b") (auto simp: set_chunk_def not_in_iff split: if_splits)
  qed
  have same: "same_bytes hp ?hp b'" if "b' \<in># P" for b'
  proof (cases "b' = b")
    case True
    then have "count P b \<noteq> 0" using that by simp
    then show ?thesis using True ch(1) unfolding same_bytes_def n by (simp add: set_chunk_def)
  next
    case False
    have "b' \<in># add_mset b P" using that by simp
    with assms obtain ch' where "hp_chunk hp b' = Some ch'" by (rule countsD)
    then show ?thesis using False unfolding same_bytes_def by (simp add: set_chunk_def)
  qed
  show ?thesis using run counts same by (intro exI[of _ ?hp]) (simp add: set_chunk_def)
qed

lemma incr_count_run:
  assumes "counts hp P" and "b \<in># P" and "count P b + 1 < 2 ^ 32"
  shows "\<exists>hp'. incr_count b hp = Inr hp' \<and> counts hp' (add_mset b P) \<and> hp_next hp' = hp_next hp \<and>
    (\<forall>b'. b' \<in># P \<longrightarrow> same_bytes hp hp' b')"
proof -
  obtain ch where ch: "hp_chunk hp b = Some ch" "ch_count ch = count P b" "b < hp_next hp"
    using assms(1,2) by (rule countsD)
  let ?hp = "set_chunk b (Some (ch\<lparr>ch_count := count P b + 1\<rparr>)) hp"
  have run: "incr_count b hp = Inr ?hp"
    unfolding incr_count_def chunk_at_def ch(1) using ch(2) assms(3) by simp
  have counts: "counts ?hp (add_mset b P)"
  proof (rule countsI, goal_cases)
    case (1 x c)
    then show ?case using counts_Some[OF assms(1), of x] assms(3) ch(3) by (auto simp: set_chunk_def split: if_splits)
  next
    case (2 x)
    then show ?case using counts_None[OF assms(1), of x] by (auto simp: set_chunk_def split: if_splits)
  qed
  have same: "same_bytes hp ?hp b'" if b': "b' \<in># P" for b'
  proof -
    obtain ch' where "hp_chunk hp b' = Some ch'" using assms(1) b' by (rule countsD)
    then show ?thesis using ch(1) by (auto simp: same_bytes_def set_chunk_def)
  qed
  show ?thesis using run counts same by (intro exI[of _ ?hp]) (simp add: set_chunk_def)
qed

lemma new_chunk_run:
  assumes "counts hp P" and "new_chunk mem n data hp = Inr (b, hp')"
  shows "b = hp_next hp \<and> counts hp' (add_mset b P) \<and> hp_chunk hp' b = Some \<lparr>ch_alloc = n, ch_count = 1, ch_data = data\<rparr> \<and>
    b \<notin># P \<and> (\<forall>b'. b' \<in># P \<longrightarrow> same_bytes hp hp' b')"
proof -
  note fresh = counts_fresh[OF assms(1)]
  have hp': "b = hp_next hp"
    "hp' = set_chunk b (Some \<lparr>ch_alloc = n, ch_count = 1, ch_data = data\<rparr>) (hp\<lparr>hp_next := Suc b\<rparr>)"
    using assms(2) by (auto simp: new_chunk_def split: if_splits)
  have "counts hp' (add_mset b P)"
  proof (rule countsI, goal_cases)
    case (1 x c)
    then show ?case
      using counts_Some[OF assms(1), of x] fresh unfolding hp' by (auto simp: set_chunk_def not_in_iff split: if_splits)
  next
    case (2 x)
    then show ?case using counts_None[OF assms(1), of x] unfolding hp' by (auto simp: set_chunk_def split: if_splits)
  qed
  moreover have "same_bytes hp hp' b'" if b': "b' \<in># P" for b'
  proof -
    obtain ch' where "hp_chunk hp b' = Some ch'" "b' < hp_next hp" using assms(1) b' by (rule countsD)
    then show ?thesis unfolding hp' by (simp add: same_bytes_def set_chunk_def)
  qed
  ultimately show ?thesis using fresh hp'(1) unfolding hp'(2) by (simp add: set_chunk_def)
qed

text \<open>\<open>realloc\<close> of a block with a single holder.\<close>

lemma realloc_chunk_run:
  assumes "counts hp (add_mset b P)" and "b \<notin># P" and "realloc_chunk mem b n hp = Inr (b', hp')"
    and "hp_chunk hp b = Some ch"
  shows "counts hp' (add_mset b' P) \<and> b' \<notin># P \<and>
    hp_chunk hp' b' = Some (ch\<lparr>ch_alloc := n, ch_data := take (n - COUNTER_SIZE) (ch_data ch)\<rparr>) \<and>
    (\<forall>b''. b'' \<in># P \<longrightarrow> same_bytes hp hp' b'')"
proof -
  note fresh = counts_fresh[OF assms(1)]
  have b: "ch_count ch = 1" "b < hp_next hp"
    using counts_Some[OF assms(1,4)] assms(2) by (simp_all add: not_in_iff)
  have hp': "b' = hp_next hp"
    "hp' = set_chunk b None (set_chunk b' (Some (ch\<lparr>ch_alloc := n, ch_data := take (n - COUNTER_SIZE) (ch_data ch)\<rparr>))
             (hp\<lparr>hp_next := Suc b'\<rparr>))"
    using assms(3,4) by (auto simp: realloc_chunk_def chunk_at_def split: if_splits)
  have "counts hp' (add_mset b' P)"
  proof (rule countsI, goal_cases)
    case (1 x c)
    then show ?case
      using counts_Some[OF assms(1), of x] fresh b unfolding hp'
      by (auto simp: set_chunk_def not_in_iff split: if_splits)
  next
    case (2 x)
    then show ?case
      using counts_None[OF assms(1), of x] assms(2) b(2) unfolding hp' by (auto simp: set_chunk_def split: if_splits)
  qed
  moreover have "same_bytes hp hp' x" if x: "x \<in># P" for x
  proof -
    have "x \<in># add_mset b P" using x by simp
    with assms(1) obtain ch' where "hp_chunk hp x = Some ch'" "x < hp_next hp" by (rule countsD)
    then show ?thesis using x assms(2) unfolding hp' by (auto simp: same_bytes_def set_chunk_def)
  qed
  moreover have "b' \<notin># P" using fresh hp'(1) by auto
  ultimately show ?thesis using b(2) hp'(1) unfolding hp'(2) by (simp add: set_chunk_def)
qed

section \<open>The parser and its buffer\<close>

text \<open>A round that points into the buffer consumes bytes.\<close>

lemma trail_references_consumes:
  assumes "trail_references fixed rest ctx" and "ctx_ok ctx" and "m_cs ctx \<noteq> CS_HEADER" and "rest \<noteq> []"
  shows "trail_step F fixed rest ctx = Ret e r c \<Longrightarrow> 0 \<le> e \<Longrightarrow> length r < length rest"
    and "trail_step F fixed rest ctx = Go f r c \<Longrightarrow> length r < length rest"
proof -
  define n where "n = (if fixed then tl rest else rest)"
  have len: "m_trail ctx \<le> length n" using assms(1) by (simp add: trail_references_def n_def Let_def)
  have pos: "0 < m_trail ctx" using assms(2,3) by (rule trail_positive)
  have n: "length n \<le> length rest" by (simp add: n_def)
  show "length r < length rest" if "trail_step F fixed rest ctx = Ret e r c" "0 \<le> e"
    using trail_step_Ret[OF that(1) n_def] that(2) len pos n by auto
  show "length r < length rest" if go: "trail_step F fixed rest ctx = Go f r c"
  proof -
    have "\<not> f"
    proof
      assume "f"
      with go have eq: "trail_step F fixed rest ctx = Go True r c" by simp
      have refs: "m_cs ctx \<in> {ACS_STR_VALUE, ACS_BIN_VALUE, ACS_EXT_VALUE} \<or> fixext_item (m_cs ctx) n \<noteq> None \<or>
          (case sized_state (m_cs ctx) n of Some (acs, trail) \<Rightarrow> trail = 0 | None \<Rightarrow> False)"
        using assms(1) by (simp add: trail_references_def n_def Let_def)
      have sized: "sized_state (m_cs ctx) n = None" if "m_cs ctx \<in> {ACS_STR_VALUE, ACS_BIN_VALUE, ACS_EXT_VALUE}"
        using that by (auto simp: sized_state_def ACS_STR_VALUE_def ACS_BIN_VALUE_def ACS_EXT_VALUE_def)
      show False
        using eq refs sized unfolding trail_step_eq[OF n_def len]
        by (auto dest!: push_proc_Go aggregate_step_Go split: option.splits if_splits)
    qed
    then have "r = tl (drop (m_trail ctx - 1) n)" using trail_step_Go[OF go] by (simp add: n_def)
    then show ?thesis using len pos n by auto
  qed
qed

lemma round_references_consumes:
  assumes refs: "round_references fixed rest ctx" and ok: "ctx_ok ctx" and ne: "rest \<noteq> []"
  shows "parse_round F fixed rest ctx = Ret e r c \<Longrightarrow> 0 \<le> e \<Longrightarrow> length r < length rest"
    and "parse_round F fixed rest ctx = Go f r c \<Longrightarrow> length r < length rest"
proof -
  have tl: "length (tl rest) < length rest" using ne by (cases rest) auto
  have both: "(parse_round F fixed rest ctx = Ret e r c \<longrightarrow> 0 \<le> e \<longrightarrow> length r < length rest) \<and>
      (parse_round F fixed rest ctx = Go f r c \<longrightarrow> length r < length rest)"
  proof (cases "m_cs ctx = CS_HEADER")
    case False
    then show ?thesis
      using refs trail_references_consumes[OF _ ok False ne, of fixed F] by (auto simp: round_references_def parse_round_def)
  next
    case header: True
    show ?thesis
    proof (cases "hd rest = 0xa0")
      case True
      have "(160::nat) AND 31 = 0" by (simp add: and_low)
      then have "header_step rest ctx = push_proc (STRING []) rest (ctx\<lparr>m_trail := 0\<rparr>)"
        using True by (simp add: header_step_def Let_def)
      then show ?thesis
        using header tl by (auto simp: parse_round_def dest: push_proc_Ret push_proc_Go split: step.splits)
    next
      case False
      then obtain f1 r1 c1 where Go: "header_step rest ctx = Go f1 r1 c1" "m_cs c1 \<noteq> CS_HEADER \<or> f1"
        and trail: "trail_references f1 r1 c1"
        using refs header by (auto simp: round_references_def split: step.splits)
      note c1 = header_step_ctx[OF Go(1) header]
      have f1: f1 using c1 Go(2) by auto
      have r1: "r1 = rest" using header_step_Go[OF Go(1)] f1 by simp
      have "m_cs c1 \<noteq> CS_HEADER" using c1 f1 by simp
      from trail_references_consumes[OF trail conjunct1[OF c1] this ne[folded r1], of F] show ?thesis
        using header Go by (auto simp: parse_round_def r1)
    qed
  qed
  show "parse_round F fixed rest ctx = Ret e r c \<Longrightarrow> 0 \<le> e \<Longrightarrow> length r < length rest"
    and "parse_round F fixed rest ctx = Go f r c \<Longrightarrow> length r < length rest"
    using both by blast+
qed

lemma references_consumes:
  "references F fixed rest ctx \<Longrightarrow> ctx_ok ctx \<Longrightarrow> execute F fixed rest ctx = Ret e r c \<Longrightarrow> 0 \<le> e \<Longrightarrow>
    length r < length rest"
proof (induction F fixed rest ctx rule: references.induct)
  case (1 F fixed rest ctx)
  have ne: "rest \<noteq> []" using "1.prems"(1) by (subst (asm) references.simps) (auto split: if_splits)
  note run = "1.prems"(3)[unfolded execute_round[OF ne]]
  show ?case
  proof (cases "parse_round F fixed rest ctx")
    case (Ret e' r' c')
    then have "round_references fixed rest ctx" using "1.prems"(1) ne by (subst (asm) references.simps) simp
    then show ?thesis using round_references_consumes(1)[OF _ "1.prems"(2) ne] Ret run "1.prems"(4) by auto
  next
    case (Go f r' c')
    have rest: "execute F f r' c' = Ret e r c" using run Go by simp
    have c': "ctx_ok c'" using parse_round_longer[OF "1.prems"(2) ne, of F fixed "[]"] Go by simp
    obtain k where k: "r = drop k r'" using execute_drop[OF rest "1.prems"(4)] by blast
    obtain k' where k': "r' = drop k' rest" using parse_round_drop(2)[OF Go] by blast
    show ?thesis
    proof (cases "round_references fixed rest ctx")
      case True
      then show ?thesis using round_references_consumes(2)[OF True "1.prems"(2) ne Go] k by simp
    next
      case False
      then have "references F f r' c'" using "1.prems"(1) ne Go by (subst (asm) references.simps) simp
      then have "length r < length r'" using "1.IH"[OF ne Go _ c' rest "1.prems"(4)] by simp
      then show ?thesis using k' by simp
    qed
  qed (use run in simp)
qed

section \<open>The invariant of the input buffer\<close>

text \<open>The holders of a block: the unpacker, its zone, and the zones of the messages that are alive.\<close>

definition pins :: "input_buffer \<Rightarrow> message list \<Rightarrow> nat multiset" where
  "pins u live = mset (m_buffer u # m_z u @ concat (map ms_zone live))"

definition intact :: "heap \<Rightarrow> span \<Rightarrow> bool" where
  "intact hp sp \<longleftrightarrow>
     (\<exists>ch. hp_chunk hp (sn_buffer sp) = Some ch \<and> sn_from sp + length (sn_bytes sp) \<le> length (ch_data ch) \<and>
        take (length (sn_bytes sp)) (drop (sn_from sp) (ch_data ch)) = sn_bytes sp)"

text \<open>The buffers the strings of the message under construction may lie in.\<close>

definition held :: "input_buffer \<Rightarrow> nat list" where
  "held u = m_z u @ (if m_referenced u then [m_buffer u] else [])"

lemma set_held [simp]: "b \<in> set (held u) \<longleftrightarrow> b \<in> set (m_z u) \<or> m_referenced u \<and> b = m_buffer u"
  by (auto simp: held_def)

lemma held_update [simp]: "held (u\<lparr>m_used := n, m_free := k\<rparr>) = held u"
  by (simp add: held_def)

text \<open>A span is intact, kept alive by one of the buffers \<open>z\<close>, and not where the next bytes will be stored.\<close>

definition span_ok :: "input_buffer \<Rightarrow> heap \<Rightarrow> nat list \<Rightarrow> span \<Rightarrow> bool" where
  "span_ok u hp z sp \<longleftrightarrow> intact hp sp \<and> sn_buffer sp \<in> set z \<and>
     (sn_buffer sp = m_buffer u \<longrightarrow> sn_from sp + length (sn_bytes sp) \<le> m_off u - COUNTER_SIZE)"

definition message_ok :: "input_buffer \<Rightarrow> heap \<Rightarrow> message \<Rightarrow> bool" where
  "message_ok u hp m \<longleftrightarrow> distinct (ms_zone m) \<and> (\<forall>sp\<in>set (ms_spans m). span_ok u hp (ms_zone m) sp)"

definition buffer_ok :: "input_buffer \<Rightarrow> heap \<Rightarrow> bool" where
  "buffer_ok u hp \<longleftrightarrow>
     (\<exists>ch. hp_chunk hp (m_buffer u) = Some ch \<and> ch_alloc ch = m_used u + m_free u \<and>
        m_used u - COUNTER_SIZE \<le> length (ch_data ch) \<and> length (ch_data ch) + COUNTER_SIZE \<le> ch_alloc ch)"

definition input_ok :: "input_buffer \<Rightarrow> heap \<Rightarrow> message list \<Rightarrow> bool" where
  "input_ok u hp live \<longleftrightarrow>
     counts hp (pins u live) \<and> buffer_ok u hp \<and> COUNTER_SIZE \<le> m_off u \<and> m_off u \<le> m_used u \<and>
     m_used u + m_free u < 2 ^ 64 \<and> m_initial u < 2 ^ 64 \<and> ctx_ok (m_context u) \<and>
     (m_off u = COUNTER_SIZE \<longrightarrow> m_buffer u \<notin> set (concat (map ms_zone live)) \<and> \<not> m_referenced u) \<and>
     distinct (m_z u) \<and> m_buffer u \<notin> set (m_z u) \<and>
     (\<forall>sp\<in>set (m_spans u). span_ok u hp (held u) sp) \<and>
     (\<forall>m\<in>set live. message_ok u hp m)"

definition abs_input :: "input_buffer \<Rightarrow> heap \<Rightarrow> unpacker" where
  "abs_input u hp =
     \<lparr>nonparsed = (case hp_chunk hp (m_buffer u) of Some ch \<Rightarrow> nonparsed_bytes u ch | None \<Rightarrow> []), m_ctx = m_context u\<rparr>"

lemma pins_members: "m_buffer u \<in># pins u live" "m \<in> set live \<Longrightarrow> b \<in> set (ms_zone m) \<Longrightarrow> b \<in># pins u live"
  "b \<in> set (m_z u) \<Longrightarrow> b \<in># pins u live"
  by (auto simp: pins_def)

lemma count_concat: "(\<And>xs. xs \<in> set xss \<Longrightarrow> distinct xs) \<Longrightarrow> count (mset (concat xss)) b \<le> length xss"
proof (induction xss)
  case (Cons xs xss)
  have "count (mset xs) b \<le> 1" using Cons.prems[of xs] by (simp add: distinct_count_atmost_1)
  moreover have "count (mset (concat xss)) b \<le> length xss" using Cons by simp
  ultimately show ?case by simp
qed simp

lemma count_buffer:
  assumes "input_ok u hp live"
  shows "count (pins u live) (m_buffer u) \<le> 1 + length live"
proof -
  have "m_buffer u \<notin># mset (m_z u)" using assms by (simp add: input_ok_def)
  then have "count (mset (m_z u)) (m_buffer u) = 0" by (simp only: not_in_iff)
  moreover have "count (pins u live) (m_buffer u) =
      Suc (count (mset (m_z u)) (m_buffer u) + count (mset (concat (map ms_zone live))) (m_buffer u))"
    by (simp add: pins_def)
  moreover have "count (mset (concat (map ms_zone live))) (m_buffer u) \<le> length (map ms_zone live)"
    by (rule count_concat) (use assms in \<open>auto simp: input_ok_def message_ok_def\<close>)
  ultimately show ?thesis unfolding length_map by linarith
qed

lemma same_intact: "same_bytes hp hp' (sn_buffer sp) \<Longrightarrow> intact hp sp \<Longrightarrow> intact hp' sp"
  by (auto simp: same_bytes_def intact_def)

lemma same_span:
  "span_ok u hp z sp \<Longrightarrow> same_bytes hp hp' (sn_buffer sp) \<Longrightarrow> set z \<subseteq> set z' \<Longrightarrow>
    (sn_buffer sp = m_buffer u' \<longrightarrow> m_buffer u' = m_buffer u \<and> m_off u \<le> m_off u') \<Longrightarrow> span_ok u' hp' z' sp"
  by (auto simp: span_ok_def dest: same_intact)

lemma same_message:
  "message_ok u hp m \<Longrightarrow> (\<And>b. b \<in> set (ms_zone m) \<Longrightarrow> same_bytes hp hp' b) \<Longrightarrow>
    (m_buffer u' \<in> set (ms_zone m) \<longrightarrow> m_buffer u' = m_buffer u \<and> m_off u \<le> m_off u') \<Longrightarrow> message_ok u' hp' m"
  unfolding message_ok_def span_ok_def by (auto intro: same_intact)

lemma same_buffer:
  "buffer_ok u hp \<Longrightarrow> same_bytes hp hp' (m_buffer u) \<Longrightarrow> m_buffer u' = m_buffer u \<Longrightarrow> m_used u' = m_used u \<Longrightarrow>
    m_free u' = m_free u \<Longrightarrow> buffer_ok u' hp'"
  by (auto simp: buffer_ok_def same_bytes_def)

section \<open>Parsing\<close>

lemma unpacker_update: "(a :: unpacker)\<lparr>nonparsed := r, m_ctx := c\<rparr> = \<lparr>nonparsed = r, m_ctx = c\<rparr>"
  by (cases a) simp

text \<open>The state after the parser ran, before its zone is handed to the message.\<close>

lemma execute_imp_run:
  assumes ok: "input_ok u hp live" and ex: "execute F False (nonparsed (abs_input u hp)) (m_context u) = Ret r rest ctx"
    and "0 \<le> r"
  shows "\<exists>u'. execute_imp F u hp = Inr (r, u') \<and> m_context u' = ctx \<and> nonparsed (abs_input u' hp) = rest \<and>
    m_buffer u' = m_buffer u \<and> m_used u' = m_used u \<and> m_free u' = m_free u \<and> m_z u' = m_z u \<and> m_initial u' = m_initial u \<and>
    m_off u \<le> m_off u' \<and> m_off u' \<le> m_used u \<and> (m_off u' = COUNTER_SIZE \<longrightarrow> m_off u = COUNTER_SIZE \<and> \<not> m_referenced u') \<and>
    (\<forall>sp\<in>set (m_spans u'). span_ok u' hp (held u') sp)"
proof -
  obtain ch where ch: "hp_chunk hp (m_buffer u) = Some ch" "m_used u - COUNTER_SIZE \<le> length (ch_data ch)"
    using ok by (auto simp: input_ok_def buffer_ok_def)
  have off: "COUNTER_SIZE \<le> m_off u" "m_off u \<le> m_used u" using ok by (simp_all add: input_ok_def)
  define bs where "bs = nonparsed_bytes u ch"
  have bs: "nonparsed (abs_input u hp) = bs" using ch(1) by (simp add: abs_input_def bs_def)
  have len: "length bs = m_used u - m_off u" using ch(2) off by (simp add: bs_def nonparsed_bytes_def)
  obtain k where k: "rest = drop k bs" using execute_drop[OF ex assms(3)] bs by auto
  define off' where "off' = m_used u - length rest"
  define ref where "ref = references F False bs (m_context u)"
  have rest: "length rest \<le> length bs" using k by simp
  have off': "m_off u \<le> off'" "off' \<le> m_used u" "off' - m_off u = length bs - length rest"
    using rest len off by (simp_all add: off'_def)
  have moved: "m_off u < off'" if ref
  proof -
    have "length rest < length bs"
      using references_consumes[OF _ _ ex assms(3)] that ok unfolding bs ref_def by (simp add: input_ok_def)
    then show ?thesis using len off unfolding off'_def by linarith
  qed
  let ?sp = "\<lparr>sn_buffer = m_buffer u, sn_from = m_off u - COUNTER_SIZE, sn_bytes = take (off' - m_off u) bs\<rparr>"
  let ?u = "u\<lparr>m_off := off', m_parsed := (if off' > m_off u then m_parsed u + (off' - m_off u) else m_parsed u),
      m_context := ctx, m_referenced := m_referenced u \<or> ref, m_spans := m_spans u @ (if ref then [?sp] else [])\<rparr>"
  have run: "execute_imp F u hp = Inr (r, ?u)"
    using ex ch(1) unfolding execute_imp_def chunk_at_def bs by (simp add: Let_def flip: bs_def off'_def ref_def)
  have "drop (off' - COUNTER_SIZE) (take (m_used u - COUNTER_SIZE) (ch_data ch)) = drop (off' - m_off u) bs"
    using off(1) off'(1) by (simp add: bs_def nonparsed_bytes_def)
  also have "drop (off' - m_off u) bs = rest"
    using k rest unfolding off'(3) by (cases "k \<le> length bs") auto
  finally have nonparsed: "nonparsed (abs_input ?u hp) = rest" using ch(1) by (simp add: abs_input_def nonparsed_bytes_def)
  have span: "span_ok ?u hp (held ?u) sp" if "sp \<in> set (m_spans ?u)" for sp
  proof (cases "sp \<in> set (m_spans u)")
    case True
    then have "span_ok u hp (held u) sp" using ok by (simp add: input_ok_def)
    then show ?thesis using off'(1) by (auto simp: span_ok_def)
  next
    case False
    then have sp: "sp = ?sp" ref using that by (auto split: if_splits)
    have n: "length (sn_bytes ?sp) = off' - m_off u" using off'(3) len by simp
    have fits: "m_off u - COUNTER_SIZE + (off' - m_off u) \<le> m_used u - COUNTER_SIZE" using off off' by linarith
    have "take (off' - m_off u) (drop (m_off u - COUNTER_SIZE) (ch_data ch)) = take (off' - m_off u) bs"
      using fits by (simp add: bs_def nonparsed_bytes_def drop_take min_def)
    then have "intact hp ?sp" using ch fits unfolding intact_def n by (simp add: order_trans[OF fits])
    then show ?thesis using sp off off'(1) n by (simp add: span_ok_def)
  qed
  have front: "off' = COUNTER_SIZE \<longrightarrow> m_off u = COUNTER_SIZE \<and> \<not> (m_referenced u \<or> ref)"
    using off(1) off'(1) moved ok by (auto simp: input_ok_def)
  show ?thesis using run nonparsed off'(1,2) span front by (intro exI[of _ ?u]) auto
qed

lemma input_next_none:
  assumes ok: "input_ok u hp live" and nx: "unpacker_next F (abs_input u hp) = Inr (None, a)"
  shows "\<exists>u'. input_next F u hp = Inr (None, u', hp) \<and> input_ok u' hp live \<and> abs_input u' hp = a \<and>
    m_used u' = m_used u \<and> m_free u' = m_free u"
proof -
  have ctx: "m_ctx (abs_input u hp) = m_context u" by (simp add: abs_input_def)
  obtain rest c where ex: "execute F False (nonparsed (abs_input u hp)) (m_context u) = Ret 0 rest c"
    and a: "a = \<lparr>nonparsed = rest, m_ctx = c\<rparr>"
    using nx by (cases a) (auto simp: unpacker_next_def ctx unpacker_update split: step.splits if_splits)
  obtain u' where u': "execute_imp F u hp = Inr (0, u')" "m_context u' = c" "nonparsed (abs_input u' hp) = rest"
    "m_buffer u' = m_buffer u" "m_used u' = m_used u" "m_free u' = m_free u" "m_z u' = m_z u" "m_initial u' = m_initial u"
    "m_off u \<le> m_off u'" "m_off u' \<le> m_used u" "m_off u' = COUNTER_SIZE \<longrightarrow> m_off u = COUNTER_SIZE \<and> \<not> m_referenced u'"
    "\<forall>sp\<in>set (m_spans u'). span_ok u' hp (held u') sp"
    using execute_imp_run[OF ok ex order_refl] by blast
  have pins: "pins u' live = pins u live" by (simp add: pins_def u')
  have counts: "counts hp (pins u live)" using ok by (simp add: input_ok_def)
  have messages: "\<forall>m\<in>set live. message_ok u' hp m"
  proof
    fix m assume m: "m \<in> set live"
    then have "message_ok u hp m" using ok by (simp add: input_ok_def)
    then show "message_ok u' hp m"
      by (rule same_message) (use u'(4,9) same_bytes_refl[OF counts pins_members(2)[OF m]] in simp_all)
  qed
  have buffer: "buffer_ok u' hp"
    by (rule same_buffer[of u hp]) (use ok u' same_bytes_refl[OF counts pins_members(1)] in \<open>simp_all add: input_ok_def\<close>)
  have "ctx_ok c" using execute_longer[of "m_context u" F False "nonparsed (abs_input u hp)" "[]"] ok ex by (simp add: input_ok_def)
  then have "input_ok u' hp live"
    using ok[unfolded input_ok_def] messages buffer u'(9-12) unfolding input_ok_def pins u'(2,4-8) by simp
  moreover have "abs_input u' hp = a" using u'(2,3) a by (simp add: abs_input_def)
  ultimately show ?thesis using u'(1,5,6) by (intro exI[of _ u']) (simp add: input_next_def)
qed

lemma input_next_some:
  assumes ok: "input_ok u hp live" and nx: "unpacker_next F (abs_input u hp) = Inr (Some obj, a)"
    and few: "length live + 2 < 2 ^ 32"
  shows "\<exists>m u' hp'. input_next F u hp = Inr (Some m, u', hp') \<and> ms_object m = obj \<and> input_ok u' hp' (live @ [m]) \<and>
    abs_input u' hp' = a \<and> m_used u' = m_used u \<and> m_free u' = m_free u"
proof -
  have ctx: "m_ctx (abs_input u hp) = m_context u" by (simp add: abs_input_def)
  obtain e rest c where ex: "execute F False (nonparsed (abs_input u hp)) (m_context u) = Ret e rest c" and e: "0 < e"
    and a: "a = \<lparr>nonparsed = rest, m_ctx = context_init\<rparr>" and obj: "obj = sp_obj (last (m_stack c))"
    using nx by (cases a) (auto simp: unpacker_next_def ctx unpacker_update split: step.splits if_splits)
  obtain u1 where u1: "execute_imp F u hp = Inr (e, u1)" "m_context u1 = c" "nonparsed (abs_input u1 hp) = rest"
    "m_buffer u1 = m_buffer u" "m_used u1 = m_used u" "m_free u1 = m_free u" "m_z u1 = m_z u" "m_initial u1 = m_initial u"
    "m_off u \<le> m_off u1" "m_off u1 \<le> m_used u" "m_off u1 = COUNTER_SIZE \<longrightarrow> m_off u = COUNTER_SIZE \<and> \<not> m_referenced u1"
    "\<forall>sp\<in>set (m_spans u1). span_ok u1 hp (held u1) sp"
    using execute_imp_run[OF ok ex less_imp_le[OF e]] by blast
  have counts: "counts hp (pins u live)" using ok by (simp add: input_ok_def)
  let ?z = "m_z u @ (if m_referenced u1 then [m_buffer u] else [])"
  let ?m = "\<lparr>ms_object = obj, ms_zone = ?z, ms_spans = m_spans u1\<rparr>"
  let ?u = "u1\<lparr>m_referenced := False, m_z := [], m_spans := [], m_context := context_init, m_parsed := 0\<rparr>"
  obtain hp' where flush: "flush_zone u1 hp = Inr (u1\<lparr>m_z := ?z, m_referenced := False\<rparr>, hp')"
    and counts': "counts hp' (pins ?u (live @ [?m]))"
    and same: "\<forall>b. b \<in># pins u live \<longrightarrow> same_bytes hp hp' b"
  proof (cases "m_referenced u1")
    case True
    have "count (pins u live) (m_buffer u) + 1 < 2 ^ 32" using count_buffer[OF ok] few by simp
    from incr_count_run[OF counts pins_members(1) this] obtain hp' where hp': "incr_count (m_buffer u) hp = Inr hp'"
      "counts hp' (add_mset (m_buffer u) (pins u live))" "\<forall>b. b \<in># pins u live \<longrightarrow> same_bytes hp hp' b" by blast
    moreover have "pins ?u (live @ [?m]) = add_mset (m_buffer u) (pins u live)" using True u1(4) by (simp add: pins_def)
    ultimately show thesis using True u1(4,7) by (intro that[of hp']) (simp_all add: flush_zone_def)
  next
    case False
    have "pins ?u (live @ [?m]) = pins u live" using False u1(4) by (simp add: pins_def)
    then show thesis using False u1(7) counts same_bytes_refl[OF counts]
      by (intro that[of hp]) (simp_all add: flush_zone_def)
  qed
  have run: "input_next F u hp = Inr (Some ?m, ?u, hp')"
    using u1(1,2) e flush obj by (simp add: input_next_def)
  have held: "b \<in># pins u live" if "b \<in> set ?z" for b
    using that pins_members(1)[of u live] pins_members(3)[of b u live] by (auto split: if_splits)
  have spans: "span_ok ?u hp' ?z sp" if "sp \<in> set (m_spans u1)" for sp
    by (rule same_span[of u1 hp ?z]) (use u1(4,7,12) that same held in \<open>auto simp: span_ok_def\<close>)
  have buf: "m_buffer u \<notin> set (m_z u)" "distinct (m_z u)" using ok by (simp_all add: input_ok_def)
  have new: "message_ok ?u hp' ?m" using spans buf by (simp add: message_ok_def)
  have old: "message_ok ?u hp' m" if "m \<in> set live" for m
    by (rule same_message[of u hp])
      (use ok that same pins_members(2)[OF that] u1(4,9) in \<open>auto simp: input_ok_def\<close>)
  have buffer: "buffer_ok ?u hp'"
    by (rule same_buffer[of u hp]) (use ok u1 same pins_members(1) in \<open>auto simp: input_ok_def\<close>)
  have front: "m_off u1 = COUNTER_SIZE \<longrightarrow> m_buffer u \<notin> set (concat (map ms_zone (live @ [?m])))"
    using u1(11) ok buf by (auto simp: input_ok_def)
  have "input_ok ?u hp' (live @ [?m])"
    using ok[unfolded input_ok_def] counts' buffer front new old u1(4-6,8-10) unfolding input_ok_def by simp
  moreover have "abs_input ?u hp' = a"
  proof -
    obtain ch ch' where "hp_chunk hp (m_buffer u) = Some ch" "hp_chunk hp' (m_buffer u) = Some ch'" "ch_data ch' = ch_data ch"
      using same[rule_format, OF pins_members(1)] by (auto simp: same_bytes_def)
    then show ?thesis using u1(3,4) a by (simp add: abs_input_def nonparsed_bytes_def)
  qed
  ultimately show ?thesis using run u1(5,6)
    by (intro exI[of _ ?m] exI[of _ ?u] exI[of _ hp']) simp
qed

lemma input_next_error:
  assumes "input_ok u hp live" and "unpacker_next F (abs_input u hp) = Inl e"
  shows "input_next F u hp = Inl e"
proof -
  obtain ch where ch: "hp_chunk hp (m_buffer u) = Some ch" using assms(1) by (auto simp: input_ok_def buffer_ok_def)
  have ctx: "nonparsed (abs_input u hp) = nonparsed_bytes u ch" "m_ctx (abs_input u hp) = m_context u"
    using ch by (simp_all add: abs_input_def)
  show ?thesis
    using assms(2) unfolding unpacker_next_def ctx input_next_def execute_imp_def chunk_at_def ch
    by (auto simp: Let_def split: step.splits if_splits)
qed

section \<open>Receiving, making room and destroying\<close>

lemma receive_run:
  assumes ok: "input_ok u hp live" and room: "length bs \<le> m_free u"
  shows "\<exists>u' hp'. receive bs u hp = Inr (u', hp') \<and> input_ok u' hp' live \<and>
    abs_input u' hp' = buffer_consumed bs (abs_input u hp) \<and> m_used u' = m_used u + length bs"
proof -
  obtain ch where ch: "hp_chunk hp (m_buffer u) = Some ch" "ch_alloc ch = m_used u + m_free u"
    "m_used u - COUNTER_SIZE \<le> length (ch_data ch)" "length (ch_data ch) + COUNTER_SIZE \<le> ch_alloc ch"
    using ok by (auto simp: input_ok_def buffer_ok_def)
  have off: "COUNTER_SIZE \<le> m_off u" "m_off u \<le> m_used u" using ok by (simp_all add: input_ok_def)
  define pos where "pos = m_used u - COUNTER_SIZE"
  let ?data = "take pos (ch_data ch) @ bs @ drop (pos + length bs) (ch_data ch)"
  let ?u = "u\<lparr>m_used := m_used u + length bs, m_free := m_free u - length bs\<rparr>"
  let ?hp = "set_chunk (m_buffer u) (Some (ch\<lparr>ch_data := ?data\<rparr>)) hp"
  have run: "receive bs u hp = Inr (?u, ?hp)"
    using ch(1,2) room by (simp add: receive_def chunk_at_def Let_def pos_def)
  have pos: "pos \<le> length (ch_data ch)" "m_used u + length bs - COUNTER_SIZE = pos + length bs"
    using ch(3) off by (simp_all add: pos_def)
  have counts: "counts ?hp (pins ?u live)"
    using ok counts_data[OF _ ch(1)] by (simp add: input_ok_def pins_def)
  have fits: "length ?data + COUNTER_SIZE \<le> ch_alloc ch"
    using pos ch(2,4) room off unfolding pos_def by auto
  have buffer: "buffer_ok ?u ?hp"
    using ch(2) pos fits room unfolding buffer_ok_def by (simp add: set_chunk_def pos(2))
  have span: "span_ok ?u ?hp z sp" if "span_ok u hp z sp" for z sp
  proof (cases "sn_buffer sp = m_buffer u")
    case True
    have "sn_from sp + length (sn_bytes sp) \<le> m_off u - COUNTER_SIZE" using that True by (simp add: span_ok_def)
    then have le: "sn_from sp + length (sn_bytes sp) \<le> pos" using off unfolding pos_def by linarith
    have "take (length (sn_bytes sp)) (drop (sn_from sp) ?data) =
        take (length (sn_bytes sp)) (drop (sn_from sp) (ch_data ch))"
      using le pos(1) by (simp add: drop_take)
    then show ?thesis using that True ch(1) le pos(1) by (auto simp: span_ok_def intact_def set_chunk_def)
  next
    case False
    then show ?thesis using that by (simp add: span_ok_def intact_def set_chunk_def)
  qed
  have messages: "\<forall>m\<in>set live. message_ok ?u ?hp m" using ok span by (simp add: input_ok_def message_ok_def)
  have spans: "\<forall>sp\<in>set (m_spans ?u). span_ok ?u ?hp (held ?u) sp"
  proof
    fix sp assume "sp \<in> set (m_spans ?u)"
    then have "span_ok u hp (held u) sp" using ok by (simp add: input_ok_def)
    from span[OF this] show "span_ok ?u ?hp (held ?u) sp" by simp
  qed
  have total: "m_used u + length bs + (m_free u - length bs) = m_used u + m_free u" using room by simp
  have "input_ok ?u ?hp live"
    using ok[unfolded input_ok_def] counts buffer messages spans total unfolding input_ok_def by simp
  moreover have "abs_input ?u ?hp = buffer_consumed bs (abs_input u hp)"
  proof -
    have "drop (m_off u - COUNTER_SIZE) (take (pos + length bs) ?data) =
        drop (m_off u - COUNTER_SIZE) (take pos (ch_data ch)) @ bs"
    proof -
      have "take (pos + length bs) ?data = take pos (ch_data ch) @ bs" using pos(1) by simp
      moreover have "m_off u - COUNTER_SIZE \<le> pos" using off unfolding pos_def by simp
      ultimately show ?thesis using pos(1) by (simp add: min_absorb2)
    qed
    then show ?thesis
      using ch(1) pos(2) by (simp add: abs_input_def nonparsed_bytes_def buffer_consumed_def set_chunk_def pos_def)
  qed
  ultimately show ?thesis using run by (intro exI[of _ ?u] exI[of _ ?hp]) simp
qed

lemma destroy_zone_run:
  assumes "counts hp (P + mset z)"
  shows "\<exists>hp'. destroy_zone z hp = Inr hp' \<and> counts hp' P \<and> (\<forall>b. b \<in># P \<longrightarrow> same_bytes hp hp' b)"
proof -
  have "\<exists>hp'. rfold release_count xs hp = Inr hp' \<and> counts hp' P \<and> (\<forall>b. b \<in># P \<longrightarrow> same_bytes hp hp' b)"
    if "counts hp (P + mset xs)" for xs hp
    using that
  proof (induction xs arbitrary: hp)
    case Nil
    then show ?case by (simp add: same_bytes_refl)
  next
    case (Cons x xs)
    have "counts hp (add_mset x (P + mset xs))" using Cons.prems by simp
    from release_count_run[OF this] obtain hp1 where hp1: "release_count x hp = Inr hp1" "counts hp1 (P + mset xs)"
      "\<forall>b. b \<in># P + mset xs \<longrightarrow> same_bytes hp hp1 b" by blast
    from Cons.IH[OF hp1(2)] obtain hp' where "rfold release_count xs hp1 = Inr hp'" "counts hp' P"
      "\<forall>b. b \<in># P \<longrightarrow> same_bytes hp1 hp' b" by blast
    then show ?case using hp1(1,3) by (auto intro: same_bytes_trans)
  qed
  from this[of hp "rev z"] show ?thesis using assms by (simp add: destroy_zone_def)
qed

text \<open>Destroying a message frees nothing that others hold.\<close>

lemma destroy_message:
  assumes ok: "input_ok u hp (ms1 @ m # ms2)"
  shows "\<exists>hp'. destroy_zone (ms_zone m) hp = Inr hp' \<and> input_ok u hp' (ms1 @ ms2) \<and> abs_input u hp' = abs_input u hp"
proof -
  have "pins u (ms1 @ m # ms2) = pins u (ms1 @ ms2) + mset (ms_zone m)" by (simp add: pins_def)
  then have "counts hp (pins u (ms1 @ ms2) + mset (ms_zone m))" using ok by (simp add: input_ok_def)
  from destroy_zone_run[OF this] obtain hp' where hp': "destroy_zone (ms_zone m) hp = Inr hp'"
    "counts hp' (pins u (ms1 @ ms2))" "\<forall>b. b \<in># pins u (ms1 @ ms2) \<longrightarrow> same_bytes hp hp' b" by blast
  have buffer: "buffer_ok u hp'"
    by (rule same_buffer[of u hp]) (use ok hp'(3)[rule_format, OF pins_members(1)] in \<open>simp_all add: input_ok_def\<close>)
  have spans: "span_ok u hp' (held u) sp" if "sp \<in> set (m_spans u)" for sp
  proof (rule same_span)
    show sp: "span_ok u hp (held u) sp"
      using ok that by (simp add: input_ok_def)
    have "sn_buffer sp \<in># pins u (ms1 @ ms2)"
      using sp by (auto simp: span_ok_def pins_def)
    then show "same_bytes hp hp' (sn_buffer sp)" using hp'(3) by blast
  qed simp_all
  have messages: "message_ok u hp' m'" if m': "m' \<in> set (ms1 @ ms2)" for m'
    by (rule same_message[of u hp])
      (use ok m' hp'(3)[rule_format, OF pins_members(2)[OF m']] in \<open>auto simp: input_ok_def\<close>)
  have "input_ok u hp' (ms1 @ ms2)"
    using ok[unfolded input_ok_def] hp'(2) buffer spans messages unfolding input_ok_def by auto
  moreover have "abs_input u hp' = abs_input u hp"
    using hp'(3)[rule_format, OF pins_members(1)] by (auto simp: same_bytes_def abs_input_def nonparsed_bytes_def)
  ultimately show ?thesis using hp'(1) by blast
qed

section \<open>Making room\<close>

text \<open>Bytes that are not parsed were moved to the front of another block.\<close>

lemma moved_ok:
  assumes ok: "input_ok u hp live" and counts: "counts hp' (pins u' live)" and buffer: "buffer_ok u' hp'"
    and front: "m_off u' = COUNTER_SIZE" "COUNTER_SIZE \<le> m_used u'" "m_used u' + m_free u' < 2 ^ 64" "\<not> m_referenced u'"
    and same: "m_initial u' = m_initial u" "m_context u' = m_context u" "m_spans u' = m_spans u"
    and z: "set (held u) \<subseteq> set (m_z u')" "distinct (m_z u')" "m_buffer u' \<notin> set (m_z u')"
    and fresh: "m_buffer u' \<notin> set (concat (map ms_zone live))"
    and bytes: "\<forall>b\<in>set (held u) \<union> set (concat (map ms_zone live)). same_bytes hp hp' b"
  shows "input_ok u' hp' live"
proof -
  have ctx: "ctx_ok (m_context u)" "m_initial u < 2 ^ 64" using ok by (simp_all add: input_ok_def)
  have spans: "\<forall>sp\<in>set (m_spans u'). span_ok u' hp' (held u') sp"
  proof
    fix sp assume "sp \<in> set (m_spans u')"
    then have sp: "span_ok u hp (held u) sp" using ok same(3) by (simp add: input_ok_def)
    then have "sn_buffer sp \<in> set (held u)" by (simp add: span_ok_def)
    then have "sn_buffer sp \<in> set (m_z u')" "same_bytes hp hp' (sn_buffer sp)" using z(1) bytes by blast+
    with sp z(3) show "span_ok u' hp' (held u') sp" by (auto simp: span_ok_def intro: same_intact)
  qed
  have messages: "\<forall>m\<in>set live. message_ok u' hp' m"
  proof
    fix m assume m: "m \<in> set live"
    have "message_ok u hp m" using ok m by (simp add: input_ok_def)
    then show "message_ok u' hp' m"
      by (rule same_message) (use m bytes fresh in auto)
  qed
  show ?thesis
    using counts buffer front same(1,2) ctx z(2,3) fresh spans messages unfolding input_ok_def by simp
qed

lemma rewind_ok:
  assumes ok: "input_ok u hp live" and chunk: "hp_chunk hp (m_buffer u) = Some ch" "ch_count ch = 1"
    and idle: "m_used u = m_off u" "\<not> m_referenced u"
  shows "input_ok (rewind u) hp live \<and> abs_input (rewind u) hp = abs_input u hp \<and> m_off (rewind u) = COUNTER_SIZE \<and>
    m_used (rewind u) \<le> m_used u"
proof -
  have off: "COUNTER_SIZE \<le> m_off u" "m_used u + m_free u < 2 ^ 64" using ok by (simp_all add: input_ok_def)
  have counts: "counts hp (pins u live)" using ok by (simp add: input_ok_def)
  have "count (pins u live) (m_buffer u) = 1" using counts_Some[OF counts chunk(1)] chunk(2) by simp
  then have alone: "m_buffer u \<notin> set (m_z u)" "m_buffer u \<notin> set (concat (map ms_zone live))"
    unfolding pins_def by (simp_all flip: not_in_iff)
  have free: "m_free (rewind u) = m_free u + (m_used u - COUNTER_SIZE)" using off idle(1) by (simp add: rewind_def)
  have fields: "m_off (rewind u) = COUNTER_SIZE" "m_used (rewind u) = COUNTER_SIZE" "m_buffer (rewind u) = m_buffer u"
    "m_z (rewind u) = m_z u" "m_initial (rewind u) = m_initial u" "m_context (rewind u) = m_context u"
    "m_spans (rewind u) = m_spans u" "\<not> m_referenced (rewind u)"
    using idle(2) by (simp_all add: rewind_def)
  have total: "m_used (rewind u) + m_free (rewind u) = m_used u + m_free u" unfolding free fields using off idle(1) by simp
  have "input_ok (rewind u) hp live"
  proof (rule moved_ok[OF ok])
    show "counts hp (pins (rewind u) live)" using counts fields by (simp add: pins_def)
    show "buffer_ok (rewind u) hp" using ok total fields by (auto simp: input_ok_def buffer_ok_def)
    show "\<forall>b\<in>set (held u) \<union> set (concat (map ms_zone live)). same_bytes hp hp b"
      using same_bytes_refl[OF counts] idle(2) by (auto simp: pins_def)
    show "m_used (rewind u) + m_free (rewind u) < 2 ^ 64" using total off by simp
  qed (use fields alone ok idle(2) in \<open>auto simp: input_ok_def\<close>)
  moreover have "abs_input (rewind u) hp = abs_input u hp"
    using chunk(1) idle(1) fields by (simp add: abs_input_def nonparsed_bytes_def)
  ultimately show ?thesis using fields off idle(1) by simp
qed

text \<open>\<open>realloc\<close> at the front of the buffer: nothing points into it.\<close>

lemma expand_in_place_run:
  assumes ok: "input_ok u hp live" and front: "m_off u = COUNTER_SIZE" and small: "wanted + m_used u < 2 ^ 64"
    and mem: "\<forall>n. mem n"
  shows "\<exists>u' hp'. expand_in_place mem wanted u hp = Inr (u', hp') \<and> input_ok u' hp' live \<and>
    abs_input u' hp' = abs_input u hp \<and> wanted \<le> m_free u' \<and> m_used u' \<le> m_used u"
proof -
  obtain ch where ch: "hp_chunk hp (m_buffer u) = Some ch" "ch_alloc ch = m_used u + m_free u"
    "m_used u - COUNTER_SIZE \<le> length (ch_data ch)"
    using ok by (auto simp: input_ok_def buffer_ok_def)
  have used: "COUNTER_SIZE \<le> m_used u" using ok by (simp add: input_ok_def)
  define n where "n = grow ((wanted + m_used u) mod 2 ^ 64) ((m_used u + m_free u) * 2 mod 2 ^ 64)"
  have n: "wanted + m_used u \<le> n" "n < 2 ^ 64"
    using small grow_ge[of "wanted + m_used u"] grow_small[OF small, of "(m_used u + m_free u) * 2 mod 2 ^ 64"]
    by (simp_all add: n_def)
  let ?P = "mset (m_z u @ concat (map ms_zone live))"
  have counts: "counts hp (add_mset (m_buffer u) ?P)" using ok by (simp add: input_ok_def pins_def)
  have alone: "m_buffer u \<notin># ?P" "\<not> m_referenced u" using ok front by (simp_all add: input_ok_def)
  obtain b hp' where run: "realloc_chunk mem (m_buffer u) n hp = Inr (b, hp')"
    using ch(1) mem by (simp add: realloc_chunk_def chunk_at_def)
  note new = realloc_chunk_run[OF counts alone(1) run ch(1)]
  let ?u = "u\<lparr>m_buffer := b, m_free := n - m_used u\<rparr>"
  have "input_ok ?u hp' live"
  proof (rule moved_ok[OF ok])
    show "counts hp' (pins ?u live)" using new by (simp add: pins_def)
    show "buffer_ok ?u hp'" using new ch(3) n(1) used unfolding buffer_ok_def by auto
    show "\<forall>b\<in>set (held u) \<union> set (concat (map ms_zone live)). same_bytes hp hp' b" using new alone(2) by auto
  qed (use front used n alone ok new in \<open>auto simp: input_ok_def\<close>)
  moreover have "abs_input ?u hp' = abs_input u hp"
    using new ch(1) n(1) by (simp add: abs_input_def nonparsed_bytes_def min_def)
  moreover have "expand_in_place mem wanted u hp = Inr (?u, hp')"
    using run by (simp add: expand_in_place_def Let_def n_def)
  ultimately show ?thesis using n(1) by (intro exI[of _ ?u] exI[of _ hp']) simp
qed

lemma expand_elsewhere_run:
  assumes ok: "input_ok u hp live" and chunk: "hp_chunk hp (m_buffer u) = Some ch"
    and small: "wanted + m_used u < 2 ^ 64" and mem: "\<forall>n. mem n"
  shows "\<exists>u' hp'. expand_elsewhere mem wanted u ch hp = Inr (u', hp') \<and> input_ok u' hp' live \<and>
    abs_input u' hp' = abs_input u hp \<and> wanted \<le> m_free u' \<and> m_used u' \<le> m_used u"
proof -
  have data: "m_used u - COUNTER_SIZE \<le> length (ch_data ch)" using ok chunk by (auto simp: input_ok_def buffer_ok_def)
  have off: "COUNTER_SIZE \<le> m_off u" "m_off u \<le> m_used u" using ok by (simp_all add: input_ok_def)
  have counts: "counts hp (pins u live)" using ok by (simp add: input_ok_def)
  define rest where "rest = m_used u - m_off u"
  define n where "n = grow ((wanted + rest + COUNTER_SIZE) mod 2 ^ 64) (m_initial u)"
  define data' where "data' = take rest (drop (m_off u - COUNTER_SIZE) (ch_data ch))"
  have need: "wanted + rest + COUNTER_SIZE < 2 ^ 64" using small off unfolding rest_def by linarith
  then have n: "wanted + rest + COUNTER_SIZE \<le> n" "n < 2 ^ 64"
    using grow_ge[of "wanted + rest + COUNTER_SIZE"] grow_small[OF need, of "m_initial u"] ok
    by (simp_all add: n_def input_ok_def)
  obtain b hp1 where new: "new_chunk mem n data' hp = Inr (b, hp1)" using mem by (simp add: new_chunk_def)
  note hp1 = new_chunk_run[OF counts new]
  let ?u = "u\<lparr>m_z := held u, m_referenced := False, m_buffer := b, m_used := rest + COUNTER_SIZE,
      m_free := n - (rest + COUNTER_SIZE), m_off := COUNTER_SIZE\<rparr>"
  obtain hp' where hp': "(if m_referenced u then Inr (u\<lparr>m_z := m_z u @ [m_buffer u], m_referenced := False\<rparr>, hp1)
        else rbind (release_count (m_buffer u) hp1) (\<lambda>hp. Inr (u, hp))) =
      Inr (u\<lparr>m_z := held u, m_referenced := False\<rparr>, hp')" "counts hp' (pins ?u live)"
    "\<forall>x. x \<in># pins ?u live \<longrightarrow> same_bytes hp1 hp' x"
  proof (cases "m_referenced u")
    case True
    then have "pins ?u live = add_mset b (pins u live)" by (simp add: pins_def held_def)
    then have c: "counts hp1 (pins ?u live)" using hp1 by metis
    show thesis by (rule that[of hp1]) (use True c same_bytes_refl[OF c] in \<open>simp_all add: held_def\<close>)
  next
    case False
    then have "add_mset b (pins u live) = add_mset (m_buffer u) (pins ?u live)" by (simp add: pins_def held_def)
    then have "counts hp1 (add_mset (m_buffer u) (pins ?u live))" using hp1 by metis
    from release_count_run[OF this] show thesis using False that by (auto simp: held_def)
  qed
  have run: "expand_elsewhere mem wanted u ch hp = Inr (?u, hp')"
    unfolding expand_elsewhere_def Let_def rest_def[symmetric] n_def[symmetric] data'_def[symmetric] new
    by (simp only: rbind_simps prod.case hp'(1))
  have fresh: "b \<notin># pins u live" using hp1 by blast
  have bchunk: "\<exists>c. hp_chunk hp' b = Some c \<and> ch_alloc c = n \<and> ch_data c = data'"
    using hp1 hp'(3)[rule_format, of b] by (auto simp: same_bytes_def pins_def)
  have len: "length data' = rest" using data off unfolding data'_def rest_def by simp
  have "input_ok ?u hp' live"
  proof (rule moved_ok[OF ok hp'(2)])
    show "buffer_ok ?u hp'" using bchunk len n(1) unfolding buffer_ok_def by auto
    show "\<forall>x\<in>set (held u) \<union> set (concat (map ms_zone live)). same_bytes hp hp' x"
    proof
      fix x assume "x \<in> set (held u) \<union> set (concat (map ms_zone live))"
      then have "x \<in># pins u live" "x \<in># pins ?u live" by (auto simp: pins_def)
      then show "same_bytes hp hp' x" using hp1 hp'(3) by (meson same_bytes_trans)
    qed
  qed (use fresh n ok in \<open>auto simp: input_ok_def pins_def held_def\<close>)
  moreover have "abs_input ?u hp' = abs_input u hp"
  proof -
    have "take (m_used u - COUNTER_SIZE) (ch_data ch) =
        take (m_off u - COUNTER_SIZE) (ch_data ch) @ data'"
      using off unfolding data'_def rest_def by (simp flip: take_add)
    then show ?thesis
      using bchunk chunk len data off by (auto simp: abs_input_def nonparsed_bytes_def min_absorb2)
  qed
  moreover have "m_used ?u \<le> m_used u" using off by (simp add: rest_def)
  ultimately show ?thesis using run n(1) by (intro exI[of _ ?u] exI[of _ hp']) simp
qed

lemma reserve_buffer_run:
  assumes ok: "input_ok u hp live" and small: "wanted + m_used u < 2 ^ 64" and mem: "\<forall>n. mem n"
  shows "\<exists>u' hp'. reserve_buffer mem wanted u hp = Inr (u', hp') \<and> input_ok u' hp' live \<and>
    abs_input u' hp' = abs_input u hp \<and> wanted \<le> m_free u' \<and> m_used u' \<le> m_used u"
proof (cases "wanted \<le> m_free u")
  case True
  then show ?thesis using ok by (simp add: reserve_buffer_def)
next
  case full: False
  obtain ch where ch: "hp_chunk hp (m_buffer u) = Some ch" using ok by (auto simp: input_ok_def buffer_ok_def)
  have run: "reserve_buffer mem wanted u hp = expand_buffer mem wanted u hp" using full by (simp add: reserve_buffer_def)
  show ?thesis
  proof (cases "m_used u = m_off u \<and> ch_count ch = 1 \<and> \<not> m_referenced u")
    case idle: True
    then have u: "input_ok (rewind u) hp live" "abs_input (rewind u) hp = abs_input u hp" "m_off (rewind u) = COUNTER_SIZE"
      "m_used (rewind u) \<le> m_used u"
      using rewind_ok[OF ok ch] by simp_all
    show ?thesis
    proof (cases "wanted \<le> m_free (rewind u)")
      case True
      then show ?thesis unfolding run using u idle ch by (simp add: expand_buffer_def chunk_at_def)
    next
      case False
      have "wanted + m_used (rewind u) < 2 ^ 64" using small u(4) by linarith
      from expand_in_place_run[OF u(1,3) this mem] show ?thesis
        unfolding run using u False idle ch by (auto simp: expand_buffer_def chunk_at_def)
    qed
  next
    case False
    then have "expand_buffer mem wanted u hp =
        (if m_off u = COUNTER_SIZE then expand_in_place mem wanted u hp else expand_elsewhere mem wanted u ch hp)"
      using ch by (auto simp: expand_buffer_def chunk_at_def)
    then show ?thesis
      unfolding run using expand_in_place_run[OF ok _ small mem] expand_elsewhere_run[OF ok ch small mem] by simp
  qed
qed

section \<open>A connection\<close>

text \<open>
  The loop of \<open>server_session::do_read\<close> and \<open>client::impl::do_read\<close>: a read stores bytes and counts them, messages are
  parsed one after the other and handed on, then room is made for the next read. Between any two of these, other
  threads destroy messages they are done with.
\<close>

definition DEFAULT_BUFFER_SIZE :: nat where "DEFAULT_BUFFER_SIZE = 1024 * 2 ^ 10"

datatype phase = AtRead | AtNext | AtReserve

record connection =
  cn_phase :: phase
  cn_input :: input_buffer
  cn_heap :: heap
  cn_live :: "message list"

definition heap_empty :: heap where "heap_empty = \<lparr>hp_next = 0, hp_chunk = \<lambda>_. None\<rparr>"

definition connection_new :: "memory \<Rightarrow> connection res" where
  "connection_new mem =
     rbind (input_new mem UNPACKER_INIT_BUFFER_SIZE heap_empty) (\<lambda>(u, hp).
     rbind (reserve_buffer mem DEFAULT_BUFFER_SIZE u hp) (\<lambda>(u, hp).
       Inr \<lparr>cn_phase = AtRead, cn_input = u, cn_heap = hp, cn_live = []\<rparr>))"

datatype conn_action = Received bytes | Parsed message | Drained_buffer | Reserved | Destroyed message

inductive connection_step :: "memory \<Rightarrow> float_bits \<Rightarrow> connection \<Rightarrow> conn_action \<Rightarrow> connection \<Rightarrow> bool"
  for mem :: memory and F :: float_bits where
  received: "cn_phase c = AtRead \<Longrightarrow> length bs \<le> DEFAULT_BUFFER_SIZE \<Longrightarrow>
    receive bs (cn_input c) (cn_heap c) = Inr (u, hp) \<Longrightarrow>
    connection_step mem F c (Received bs) (c\<lparr>cn_phase := AtNext, cn_input := u, cn_heap := hp\<rparr>)"
| parsed: "cn_phase c = AtNext \<Longrightarrow> input_next F (cn_input c) (cn_heap c) = Inr (Some m, u, hp) \<Longrightarrow>
    connection_step mem F c (Parsed m) (c\<lparr>cn_input := u, cn_heap := hp, cn_live := cn_live c @ [m]\<rparr>)"
| drained: "cn_phase c = AtNext \<Longrightarrow> input_next F (cn_input c) (cn_heap c) = Inr (None, u, hp) \<Longrightarrow>
    connection_step mem F c Drained_buffer (c\<lparr>cn_phase := AtReserve, cn_input := u, cn_heap := hp\<rparr>)"
| reserved: "cn_phase c = AtReserve \<Longrightarrow> reserve_buffer mem DEFAULT_BUFFER_SIZE (cn_input c) (cn_heap c) = Inr (u, hp) \<Longrightarrow>
    connection_step mem F c Reserved (c\<lparr>cn_phase := AtRead, cn_input := u, cn_heap := hp\<rparr>)"
| destroyed: "cn_live c = ms1 @ m # ms2 \<Longrightarrow> destroy_zone (ms_zone m) (cn_heap c) = Inr hp \<Longrightarrow>
    connection_step mem F c (Destroyed m) (c\<lparr>cn_heap := hp, cn_live := ms1 @ ms2\<rparr>)"

inductive_cases connection_stepE: "connection_step mem F c a c'"

inductive connection_run :: "memory \<Rightarrow> float_bits \<Rightarrow> conn_action list \<Rightarrow> connection \<Rightarrow> bool"
  for mem :: memory and F :: float_bits where
  conn_init: "connection_new mem = Inr c \<Longrightarrow> connection_run mem F [] c"
| conn_step: "connection_run mem F tr c \<Longrightarrow> connection_step mem F c a c' \<Longrightarrow> connection_run mem F (tr @ [a]) c'"

fun received_bytes :: "conn_action list \<Rightarrow> bytes list" where
  "received_bytes [] = []"
| "received_bytes (Received bs # tr) = bs # received_bytes tr"
| "received_bytes (_ # tr) = received_bytes tr"

fun parsed_messages :: "conn_action list \<Rightarrow> message list" where
  "parsed_messages [] = []"
| "parsed_messages (Parsed m # tr) = m # parsed_messages tr"
| "parsed_messages (_ # tr) = parsed_messages tr"

lemma trace_append [simp]:
  "received_bytes (tr @ tr') = received_bytes tr @ received_bytes tr'"
  "parsed_messages (tr @ tr') = parsed_messages tr @ parsed_messages tr'"
  by (induction tr rule: received_bytes.induct; simp) (induction tr rule: parsed_messages.induct; simp)

definition small_trace :: "conn_action list \<Rightarrow> bool" where
  "small_trace tr \<longleftrightarrow> length (concat (received_bytes tr)) < 2 ^ 63 \<and> length (parsed_messages tr) + 2 < 2 ^ 32"

lemma small_trace_snoc: "small_trace (tr @ [a]) \<Longrightarrow> small_trace tr"
  by (simp add: small_trace_def)

definition connection_ok :: "conn_action list \<Rightarrow> connection \<Rightarrow> bool" where
  "connection_ok tr c \<longleftrightarrow>
     input_ok (cn_input c) (cn_heap c) (cn_live c) \<and>
     m_used (cn_input c) \<le> COUNTER_SIZE + length (concat (received_bytes tr)) \<and>
     length (cn_live c) \<le> length (parsed_messages tr) \<and>
     (cn_phase c = AtRead \<longrightarrow> DEFAULT_BUFFER_SIZE \<le> m_free (cn_input c))"

text \<open>What the parser will still find, and that it is what it finds in the bytes as a list.\<close>

definition abs_connection :: "connection \<Rightarrow> unpacker" where
  "abs_connection c = abs_input (cn_input c) (cn_heap c)"

definition prepend :: "msgpack_object list \<Rightarrow> msgpack_object list \<times> unpacker res \<Rightarrow> msgpack_object list \<times> unpacker res" where
  "prepend objs dr = (case dr of (objs', r) \<Rightarrow> (objs @ objs', r))"

definition stream_state :: "float_bits \<Rightarrow> connection \<Rightarrow> msgpack_object list \<times> unpacker res" where
  "stream_state F c = (if cn_phase c = AtNext then drain F (abs_connection c) else ([], Inr (abs_connection c)))"

lemma do_reads_snoc:
  "do_reads F chunks u = (objs, Inr u') \<Longrightarrow> do_reads F (chunks @ [bs]) u = prepend objs (do_read F bs u')"
  by (induction chunks arbitrary: u objs)
    (auto simp: prepend_def split: prod.splits sum.splits)

lemma input_new_run:
  assumes "\<forall>n. mem n"
  shows "\<exists>u hp. input_new mem UNPACKER_INIT_BUFFER_SIZE heap_empty = Inr (u, hp) \<and> input_ok u hp [] \<and>
    abs_input u hp = unpacker_new \<and> m_used u = COUNTER_SIZE"
  using assms
  by (auto simp: input_new_def new_chunk_def heap_empty_def UNPACKER_INIT_BUFFER_SIZE_def COUNTER_SIZE_def set_chunk_def
      input_ok_def counts_def pins_def buffer_ok_def abs_input_def nonparsed_bytes_def unpacker_new_def)

lemma connection_new_run:
  assumes "\<forall>n. mem n"
  shows "\<exists>c. connection_new mem = Inr c \<and> connection_ok [] c \<and> abs_connection c = unpacker_new \<and> cn_phase c = AtRead"
proof -
  obtain u hp where new: "input_new mem UNPACKER_INIT_BUFFER_SIZE heap_empty = Inr (u, hp)" "input_ok u hp []"
    "abs_input u hp = unpacker_new" "m_used u = COUNTER_SIZE"
    using input_new_run[OF assms] by blast
  have "DEFAULT_BUFFER_SIZE + m_used u < 2 ^ 64" using new(4) by (simp add: DEFAULT_BUFFER_SIZE_def COUNTER_SIZE_def)
  from reserve_buffer_run[OF new(2) this assms] new show ?thesis
    by (auto simp: connection_new_def connection_ok_def abs_connection_def)
qed

definition refines_stream :: "float_bits \<Rightarrow> conn_action list \<Rightarrow> connection \<Rightarrow> bool" where
  "refines_stream F tr c \<longleftrightarrow>
     do_reads F (received_bytes tr) unpacker_new = prepend (map ms_object (parsed_messages tr)) (stream_state F c)"

lemma prepend_prepend [simp]: "prepend xs (prepend ys dr) = prepend (xs @ ys) dr"
  by (cases dr) (simp add: prepend_def)

lemma drain_parsed: "unpacker_next F a = Inr (Some obj, a') \<Longrightarrow> drain F a = prepend [obj] (drain F a')"
  by (subst drain.simps) (simp add: prepend_def split: prod.splits)

lemma drain_done: "unpacker_next F a = Inr (None, a') \<Longrightarrow> drain F a = ([], Inr a')"
  by (subst drain.simps) simp

text \<open>What the parser returns is what it returns on the list of bytes.\<close>

lemma input_next_cases:
  assumes "input_ok u hp live" and "length live + 2 < 2 ^ 32"
  obtains (error) e where "input_next F u hp = Inl e" "unpacker_next F (abs_input u hp) = Inl e"
  | (none) u' where "input_next F u hp = Inr (None, u', hp)" "unpacker_next F (abs_input u hp) = Inr (None, abs_input u' hp)"
      "input_ok u' hp live" "m_used u' = m_used u"
  | (some) m u' hp' where "input_next F u hp = Inr (Some m, u', hp')"
      "unpacker_next F (abs_input u hp) = Inr (Some (ms_object m), abs_input u' hp')" "input_ok u' hp' (live @ [m])"
      "m_used u' = m_used u"
proof (cases "unpacker_next F (abs_input u hp)")
  case (Inl e)
  then show thesis using error input_next_error[OF assms(1)] by blast
next
  case (Inr r)
  obtain oo a where r: "r = (oo, a)" by (cases r) auto
  show thesis
  proof (cases oo)
    case None
    then show thesis using Inr r none input_next_none[OF assms(1), of F a] by auto
  next
    case (Some obj)
    then show thesis using Inr r some input_next_some[OF assms(1) _ assms(2), of F obj a] by auto
  qed
qed

lemma connection_step_ok:
  assumes step: "connection_step mem F c a c'" and ok: "connection_ok tr c" and small: "small_trace (tr @ [a])"
    and mem: "\<forall>n. mem n"
  shows "connection_ok (tr @ [a]) c' \<and> (refines_stream F tr c \<longrightarrow> refines_stream F (tr @ [a]) c')"
  using step
proof (cases rule: connection_step.cases)
  case (received bs u hp)
  have room: "length bs \<le> m_free (cn_input c)" using ok received by (simp add: connection_ok_def)
  obtain u' hp' where u': "receive bs (cn_input c) (cn_heap c) = Inr (u', hp')" "input_ok u' hp' (cn_live c)"
    "abs_input u' hp' = buffer_consumed bs (abs_connection c)" "m_used u' = m_used (cn_input c) + length bs"
    using receive_run[OF _ room] ok unfolding abs_connection_def connection_ok_def by blast
  have eq: "u = u'" "hp = hp'" using received u'(1) by simp_all
  have "refines_stream F (tr @ [a]) c'" if r: "refines_stream F tr c"
  proof -
    have "do_reads F (received_bytes tr) unpacker_new = (map ms_object (parsed_messages tr), Inr (abs_connection c))"
      using r received by (simp add: refines_stream_def stream_state_def prepend_def)
    from do_reads_snoc[OF this, of bs] show ?thesis
      using received u'(3) unfolding eq by (simp add: refines_stream_def stream_state_def abs_connection_def do_read_def)
  qed
  then show ?thesis using received ok u'(2,4) unfolding eq connection_ok_def by simp
next
  case (parsed m u hp)
  have few: "length (cn_live c) + 2 < 2 ^ 32" using ok small parsed(1) by (simp add: connection_ok_def small_trace_def)
  have "input_ok (cn_input c) (cn_heap c) (cn_live c)" using ok by (simp add: connection_ok_def)
  from this few show ?thesis
  proof (cases rule: input_next_cases[where F = F])
    case (some m' u' hp')
    then have eq: "m' = m" "u' = u" "hp' = hp" using parsed by simp_all
    have "refines_stream F (tr @ [a]) c'" if "refines_stream F tr c"
      using that parsed drain_parsed[OF some(2)] unfolding eq
      by (simp add: refines_stream_def stream_state_def abs_connection_def)
    then show ?thesis using parsed ok some(3,4) unfolding eq connection_ok_def by simp
  qed (use parsed in simp_all)
next
  case (drained u hp)
  have few: "length (cn_live c) + 2 < 2 ^ 32" using ok small drained(1) by (simp add: connection_ok_def small_trace_def)
  have "input_ok (cn_input c) (cn_heap c) (cn_live c)" using ok by (simp add: connection_ok_def)
  from this few show ?thesis
  proof (cases rule: input_next_cases[where F = F])
    case (none u')
    then have eq: "u' = u" "hp = cn_heap c" using drained by simp_all
    have "refines_stream F (tr @ [a]) c'" if "refines_stream F tr c"
      using that drained drain_done[OF none(2)] unfolding eq
      by (simp add: refines_stream_def stream_state_def abs_connection_def)
    then show ?thesis using drained ok none(3,4) unfolding eq connection_ok_def by simp
  qed (use drained in simp_all)
next
  case (reserved u hp)
  have ok': "input_ok (cn_input c) (cn_heap c) (cn_live c)" using ok by (simp add: connection_ok_def)
  have "DEFAULT_BUFFER_SIZE + m_used (cn_input c) < 2 ^ 64"
    using ok small by (simp add: connection_ok_def small_trace_def DEFAULT_BUFFER_SIZE_def COUNTER_SIZE_def reserved(1))
  from reserve_buffer_run[OF ok' this mem] obtain u' hp' where u':
    "reserve_buffer mem DEFAULT_BUFFER_SIZE (cn_input c) (cn_heap c) = Inr (u', hp')" "input_ok u' hp' (cn_live c)"
    "abs_input u' hp' = abs_connection c" "DEFAULT_BUFFER_SIZE \<le> m_free u'" "m_used u' \<le> m_used (cn_input c)"
    unfolding abs_connection_def by blast
  have eq: "u = u'" "hp = hp'" using reserved u'(1) by simp_all
  have "refines_stream F (tr @ [a]) c'" if "refines_stream F tr c"
    using that reserved u'(3) unfolding eq by (simp add: refines_stream_def stream_state_def abs_connection_def)
  then show ?thesis using reserved ok u'(2,4,5) unfolding eq connection_ok_def by simp
next
  case (destroyed ms1 m ms2 hp)
  have "input_ok (cn_input c) (cn_heap c) (ms1 @ m # ms2)" using ok destroyed(3) by (simp add: connection_ok_def)
  from destroy_message[OF this] have hp: "input_ok (cn_input c) hp (ms1 @ ms2)"
    "abs_input (cn_input c) hp = abs_connection c"
    using destroyed(4) by (auto simp: abs_connection_def)
  have "refines_stream F (tr @ [a]) c'" if "refines_stream F tr c"
    using that destroyed hp(2) by (simp add: refines_stream_def stream_state_def abs_connection_def)
  then show ?thesis using destroyed ok hp(1) unfolding connection_ok_def by simp
qed

lemma connection_run_ok:
  assumes "connection_run mem F tr c" and "small_trace tr" and "\<forall>n. mem n"
  shows "connection_ok tr c \<and> refines_stream F tr c"
  using assms(1,2)
proof induction
  case (conn_init c)
  then show ?case
    using connection_new_run[OF assms(3)] by (auto simp: refines_stream_def stream_state_def prepend_def)
next
  case (conn_step tr c a c')
  then show ?case using connection_step_ok[OF conn_step.hyps(2) _ conn_step.prems assms(3)] small_trace_snoc by blast
qed

text \<open>An example: one read with the string ''a'', which is parsed, handed on and destroyed.\<close>

definition example_input :: input_buffer where
  "example_input =
     \<lparr>m_buffer = 1, m_used = 4, m_free = 2097148, m_off = 4, m_parsed = 0, m_z = [], m_initial = 65536,
      m_referenced = False, m_context = context_init, m_spans = []\<rparr>"

definition example_heap :: "nat \<Rightarrow> bytes \<Rightarrow> heap" where
  "example_heap n data = \<lparr>hp_next = 2, hp_chunk = [1 \<mapsto> \<lparr>ch_alloc = 2097152, ch_count = n, ch_data = data\<rparr>]\<rparr>"

definition example_message :: message where
  "example_message =
     \<lparr>ms_object = STRING ''a'', ms_zone = [1], ms_spans = [\<lparr>sn_buffer = 1, sn_from = 0, sn_bytes = [0xa1, 97]\<rparr>]\<rparr>"

definition example_connection :: connection where
  "example_connection = \<lparr>cn_phase = AtRead, cn_input = example_input, cn_heap = example_heap 1 [], cn_live = []\<rparr>"

lemma grow_example: "grow 1048580 131072 = 2097152"
  by (subst grow.simps, simp)+

lemma example_new: "connection_new (\<lambda>_. True) = Inr example_connection"
  by (simp add: connection_new_def input_new_def new_chunk_def heap_empty_def set_chunk_def reserve_buffer_def
      expand_buffer_def expand_in_place_def rewind_def realloc_chunk_def chunk_at_def UNPACKER_INIT_BUFFER_SIZE_def
      DEFAULT_BUFFER_SIZE_def COUNTER_SIZE_def grow_example example_connection_def example_input_def example_heap_def
      Let_def fun_eq_iff)

lemma example_received:
  "receive [0xa1, 97] example_input (example_heap 1 []) =
    Inr (example_input\<lparr>m_used := 6, m_free := 2097146\<rparr>, example_heap 1 [0xa1, 97])"
  by (simp add: receive_def example_input_def example_heap_def chunk_at_def set_chunk_def COUNTER_SIZE_def Let_def fun_eq_iff)

lemma example_references: "references F False [0xa1, 97] context_init"
  by (subst references.simps)
    (simp add: round_references_def context_init_def header_step_def Let_def and_low trail_references_def)

lemma example_execute:
  "\<exists>c. execute zero_floats False [0xa1, 97] context_init = Ret 1 [] c \<and> sp_obj (last (m_stack c)) = STRING ''a''"
proof -
  have pack: "pack_object zero_floats (STRING ''a'') = [0xa1, 97]" by code_simp
  have "valid_object zero_floats (STRING ''a'')" "depth (STRING ''a'') \<le> limit_size" by simp_all
  then show ?thesis
    by (rule execute_packed[of zero_floats "STRING ''a''" "[]"]) (use pack in \<open>auto simp del: pack_object.simps\<close>)
qed

lemma example_parsed:
  "input_next zero_floats (example_input\<lparr>m_used := 6, m_free := 2097146\<rparr>) (example_heap 1 [0xa1, 97]) =
    Inr (Some example_message, example_input\<lparr>m_used := 6, m_free := 2097146, m_off := 6\<rparr>, example_heap 2 [0xa1, 97])"
proof -
  obtain c where "execute zero_floats False [0xa1, 97] context_init = Ret 1 [] c" "sp_obj (last (m_stack c)) = STRING ''a''"
    using example_execute by blast
  then show ?thesis
    by (simp add: input_next_def execute_imp_def chunk_at_def example_heap_def example_input_def nonparsed_bytes_def
        COUNTER_SIZE_def example_references Let_def flush_zone_def incr_count_def set_chunk_def example_message_def fun_eq_iff)
qed

lemma example_drained:
  "input_next zero_floats (example_input\<lparr>m_used := 6, m_free := 2097146, m_off := 6\<rparr>) (example_heap n [0xa1, 97]) =
    Inr (None, example_input\<lparr>m_used := 6, m_free := 2097146, m_off := 6\<rparr>, example_heap n [0xa1, 97])"
  by (simp add: input_next_def execute_imp_def chunk_at_def example_heap_def example_input_def nonparsed_bytes_def
      COUNTER_SIZE_def Let_def references.simps)

lemma example_destroyed: "destroy_zone [1] (example_heap 2 [0xa1, 97]) = Inr (example_heap 1 [0xa1, 97])"
  by (simp add: destroy_zone_def release_count_def chunk_at_def example_heap_def set_chunk_def Let_def fun_eq_iff)

text \<open>The connection after the read, with its message alive.\<close>

definition example_served :: connection where
  "example_served =
     example_connection\<lparr>cn_input := example_input\<lparr>m_used := 6, m_free := 2097146, m_off := 6\<rparr>,
       cn_heap := example_heap 2 [0xa1, 97], cn_live := [example_message]\<rparr>"

definition example_trace :: "conn_action list" where
  "example_trace = [Received [0xa1, 97], Parsed example_message, Drained_buffer, Reserved]"

definition example_arrived :: connection where
  "example_arrived =
     example_connection\<lparr>cn_phase := AtNext, cn_input := example_input\<lparr>m_used := 6, m_free := 2097146\<rparr>,
       cn_heap := example_heap 1 [0xa1, 97]\<rparr>"

lemma example_conn_received:
  "connection_step mem F example_connection (Received [0xa1, 97]) example_arrived"
  unfolding example_arrived_def
  by (rule received) (simp_all add: example_connection_def example_received[unfolded One_nat_def] DEFAULT_BUFFER_SIZE_def)

lemma example_conn_parsed:
  "connection_step mem zero_floats example_arrived (Parsed example_message) (example_served\<lparr>cn_phase := AtNext\<rparr>)"
  using parsed[of example_arrived zero_floats example_message _ _ mem] example_parsed
  by (simp add: example_arrived_def example_connection_def example_served_def)

lemma example_connection_run: "connection_run (\<lambda>_. True) zero_floats example_trace example_served"
proof -
  let ?step = "connection_step (\<lambda>_. True) zero_floats"
  let ?c2 = "example_served\<lparr>cn_phase := AtNext\<rparr>" and ?c3 = "example_served\<lparr>cn_phase := AtReserve\<rparr>"
  have 3: "?step ?c2 Drained_buffer ?c3"
    using drained[of ?c2 zero_floats _ _ "\<lambda>_. True"] example_drained[of 2]
    by (simp add: example_connection_def example_served_def)
  have 4: "?step ?c3 Reserved example_served"
    using reserved[of ?c3 "\<lambda>_. True" "cn_input example_served" "cn_heap example_served" zero_floats]
    by (simp add: example_connection_def example_served_def reserve_buffer_def DEFAULT_BUFFER_SIZE_def)
  show ?thesis
    using conn_step[OF conn_step[OF conn_step[OF conn_step[OF conn_init[OF example_new] example_conn_received]
      example_conn_parsed] 3] 4]
    by (simp add: example_trace_def)
qed

lemma example_trace_small: "small_trace example_trace" "small_trace (example_trace @ [Destroyed m])"
  by (simp_all add: small_trace_def example_trace_def)

section \<open>Properties\<close>

text \<open>C7: The input buffer of a connection is a faithful list of bytes: between two reads, whatever the reads were, however
  often the buffer was rewound, grown or replaced, and whichever messages were destroyed in between, the
  messages handed on are the objects parsed from the bytes as a list.\<close>

theorem connection_refines_stream:
  assumes "connection_run mem F tr c" and "small_trace tr" and "\<forall>n. mem n" and "cn_phase c = AtRead"
  shows "do_reads F (received_bytes tr) unpacker_new = (map ms_object (parsed_messages tr), Inr (abs_connection c))"
  using connection_run_ok[OF assms(1-3)] assms(4) by (simp add: refines_stream_def stream_state_def prepend_def)

theorem connection_refines_stream_witness:
  "do_reads zero_floats [[0xa1, 97]] unpacker_new = ([STRING ''a''], Inr (abs_connection example_served))"
  using connection_refines_stream[OF example_connection_run example_trace_small(1)]
  by (simp add: example_served_def example_connection_def example_trace_def example_message_def)



text \<open>C8: Strings that point into the input buffer stay valid: as long as a message is alive, the parts of the buffers its
  strings lie in are allocated and hold the bytes they had when the message was parsed, and destroying the
  message decrements counts of allocated blocks only.\<close>

theorem live_messages_intact:
  assumes "connection_run mem F tr c" and "small_trace tr" and "\<forall>n. mem n" and "m \<in> set (cn_live c)"
  shows "(\<forall>sp\<in>set (ms_spans m). intact (cn_heap c) sp) \<and> (\<exists>hp. destroy_zone (ms_zone m) (cn_heap c) = Inr hp)"
proof -
  have ok: "input_ok (cn_input c) (cn_heap c) (cn_live c)"
    using connection_run_ok[OF assms(1-3)] by (simp add: connection_ok_def)
  obtain ms1 ms2 where "cn_live c = ms1 @ m # ms2" using split_list[OF assms(4)] by blast
  then show ?thesis
    using destroy_message[of "cn_input c" "cn_heap c" ms1 m ms2] ok assms(4)
    by (auto simp: input_ok_def message_ok_def span_ok_def)
qed

theorem live_messages_intact_witness:
  "intact (cn_heap example_served) \<lparr>sn_buffer = 1, sn_from = 0, sn_bytes = [0xa1, 97]\<rparr>"
  using live_messages_intact[OF example_connection_run example_trace_small(1), of example_message]
  by (simp add: example_served_def example_message_def)



text \<open>C29: A connection never leaves its buffers: a read of up to the buffer size a session asks for fits, making room succeeds,
  and the parser fails with a parse error or an oversized container only.\<close>

theorem connection_never_faults:
  assumes "connection_run mem F tr c" and "small_trace tr" and "\<forall>n. mem n"
  shows "case cn_phase c of
      AtRead \<Rightarrow> \<forall>bs. length bs \<le> DEFAULT_BUFFER_SIZE \<longrightarrow> (\<exists>u hp. receive bs (cn_input c) (cn_heap c) = Inr (u, hp))
    | AtNext \<Rightarrow> \<forall>e. input_next F (cn_input c) (cn_heap c) = Inl e \<longrightarrow> e \<in> {Msgpack parse_error, Msgpack size_overflow}
    | AtReserve \<Rightarrow> \<exists>u hp. reserve_buffer mem DEFAULT_BUFFER_SIZE (cn_input c) (cn_heap c) = Inr (u, hp)"
proof -
  have c: "connection_ok tr c" using connection_run_ok[OF assms] by simp
  then have ok: "input_ok (cn_input c) (cn_heap c) (cn_live c)" by (simp add: connection_ok_def)
  show ?thesis
  proof (cases "cn_phase c")
    case AtRead
    have "\<exists>u hp. receive bs (cn_input c) (cn_heap c) = Inr (u, hp)" if "length bs \<le> DEFAULT_BUFFER_SIZE" for bs
      using receive_run[OF ok, of bs] that c AtRead by (auto simp: connection_ok_def)
    then show ?thesis using AtRead by simp
  next
    case AtNext
    have few: "length (cn_live c) + 2 < 2 ^ 32" using c assms(2) by (simp add: connection_ok_def small_trace_def)
    have "e \<in> {Msgpack parse_error, Msgpack size_overflow}" if e: "input_next F (cn_input c) (cn_heap c) = Inl e" for e
    proof -
      have "unpacker_next F (abs_connection c) = Inl e"
        by (rule input_next_cases[OF ok few, of F]) (use e in \<open>auto simp: abs_connection_def\<close>)
      then show ?thesis by (auto simp: unpacker_next_def split: step.splits if_splits)
    qed
    then show ?thesis using AtNext by simp
  next
    case AtReserve
    have "DEFAULT_BUFFER_SIZE + m_used (cn_input c) < 2 ^ 64"
      using c assms(2) by (simp add: connection_ok_def small_trace_def DEFAULT_BUFFER_SIZE_def COUNTER_SIZE_def)
    from reserve_buffer_run[OF ok this assms(3)] show ?thesis using AtReserve by auto
  qed
qed

theorem connection_never_faults_witness:
  "\<exists>u hp. receive [0x93, 1] (cn_input example_served) (cn_heap example_served) = Inr (u, hp)"
  using connection_never_faults[OF example_connection_run example_trace_small(1)]
  by (simp add: example_served_def example_connection_def DEFAULT_BUFFER_SIZE_def)

text \<open>C16: No block is lost: when the messages of a connection are destroyed, destroying its parser frees everything.\<close>

theorem connection_frees_all:
  assumes "connection_run mem F tr c" and "small_trace tr" and "\<forall>n. mem n" and "cn_live c = []"
  shows "\<exists>hp. destroy_input (cn_input c) (cn_heap c) = Inr hp \<and> hp_chunk hp = (\<lambda>_. None)"
proof -
  have "input_ok (cn_input c) (cn_heap c) []"
    using connection_run_ok[OF assms(1-3)] assms(4) by (simp add: connection_ok_def)
  then have "counts (cn_heap c) (add_mset (m_buffer (cn_input c)) ({#} + mset (m_z (cn_input c))))"
    by (simp add: input_ok_def pins_def)
  from release_count_run[OF this] obtain hp1 where hp1: "release_count (m_buffer (cn_input c)) (cn_heap c) = Inr hp1"
    "counts hp1 ({#} + mset (m_z (cn_input c)))" by blast
  from destroy_zone_run[OF hp1(2)] obtain hp where "destroy_zone (m_z (cn_input c)) hp1 = Inr hp" "counts hp {#}" by blast
  then show ?thesis using hp1(1) counts_None[of hp "{#}"] by (auto simp: destroy_input_def)
qed

theorem connection_frees_all_witness:
  "\<exists>hp. destroy_input (cn_input example_served) (example_heap 1 [0xa1, 97]) = Inr hp \<and> hp_chunk hp = (\<lambda>_. None)"
proof -
  let ?c = "example_served\<lparr>cn_heap := example_heap 1 [0xa1, 97], cn_live := [] @ []\<rparr>"
  have "connection_step (\<lambda>_. True) zero_floats example_served (Destroyed example_message) ?c"
    by (rule destroyed) (simp_all add: example_served_def example_message_def example_destroyed[unfolded One_nat_def])
  from connection_frees_all[OF conn_step[OF example_connection_run this] example_trace_small(2)] show ?thesis by simp
qed

end
