(* ===== verification/Channel.thy ===== *)
theory Channel
  imports Async_Writer Unpacker_Buffer
begin

text \<open>
  One direction of a connection, put together from its parts: the write queue of the sender (\<open>Async_Writer\<close>), the network,
  and the input buffer of the receiver (\<open>Unpacker_Buffer\<close>). The network holds the bytes that were sent and not yet read; a
  read takes some of them from the front. The state of the composition is the record \<open>channel\<close>; its specification is a
  queue of objects: what was parsed is the beginning of what was written, and when the parts have nothing left to do it
  is all of it.
\<close>

section \<open>The composition\<close>

record channel =
  ch_writer :: writer
  ch_conn :: connection
  ch_read :: nat

definition channel_new :: "memory \<Rightarrow> channel res" where
  "channel_new mem = rbind (connection_new mem) (\<lambda>c. Inr \<lparr>ch_writer = writer_new, ch_conn = c, ch_read = 0\<rparr>)"

datatype channel_action = Sent bytes | Sending writer_action | Arrived bytes | Parsing conn_action

inductive channel_step :: "memory \<Rightarrow> float_bits \<Rightarrow> channel \<Rightarrow> channel_action \<Rightarrow> channel \<Rightarrow> bool"
  for mem :: memory and F :: float_bits where
  sends: "queue_write data (ch_writer ch) = Inr w \<Longrightarrow> channel_step mem F ch (Sent data) (ch\<lparr>ch_writer := w\<rparr>)"
| sending: "network a \<Longrightarrow> writer_step (ch_writer ch) a w \<Longrightarrow> channel_step mem F ch (Sending a) (ch\<lparr>ch_writer := w\<rparr>)"
| arrived: "drop (ch_read ch) (sent (ch_writer ch)) = bs @ rest \<Longrightarrow> bs \<noteq> [] \<Longrightarrow>
    connection_step mem F (ch_conn ch) (Received bs) c \<Longrightarrow>
    channel_step mem F ch (Arrived bs) (ch\<lparr>ch_conn := c, ch_read := ch_read ch + length bs\<rparr>)"
| parsing: "connection_step mem F (ch_conn ch) a c \<Longrightarrow> \<forall>bs. a \<noteq> Received bs \<Longrightarrow>
    channel_step mem F ch (Parsing a) (ch\<lparr>ch_conn := c\<rparr>)"

inductive channel_path :: "memory \<Rightarrow> float_bits \<Rightarrow> channel \<Rightarrow> channel_action list \<Rightarrow> channel \<Rightarrow> bool"
  for mem :: memory and F :: float_bits and ch :: channel where
  channel_start: "channel_path mem F ch [] ch"
| channel_next: "channel_path mem F ch tr ch1 \<Longrightarrow> channel_step mem F ch1 a ch2 \<Longrightarrow> channel_path mem F ch (tr @ [a]) ch2"

text \<open>The steps that bring what was written to the parser: all but new messages and the destruction of old ones.\<close>

fun moving :: "channel_action \<Rightarrow> bool" where
  "moving (Sent data) = False"
| "moving (Parsing (Destroyed m)) = False"
| "moving _ = True"

fun parsed_of :: "channel_action \<Rightarrow> msgpack_object list" where
  "parsed_of (Parsing (Parsed m)) = [ms_object m]"
| "parsed_of _ = []"

fun written_of :: "channel_action \<Rightarrow> bytes list" where
  "written_of (Sent data) = [data]"
| "written_of _ = []"

section \<open>The channel as a queue\<close>

definition parsable :: "float_bits \<Rightarrow> msgpack_object list \<Rightarrow> bool" where
  "parsable F objs \<longleftrightarrow> (\<forall>obj\<in>set objs. valid_object F obj \<and> depth obj \<le> limit_size) \<and> length objs + 3 < 2 ^ 32"

definition channel_ok ::
  "memory \<Rightarrow> float_bits \<Rightarrow> msgpack_object list \<Rightarrow> msgpack_object list \<Rightarrow> channel \<Rightarrow> bool" where
  "channel_ok mem F objs done ch \<longleftrightarrow>
     (\<exists>trw trc. writer_run trw (ch_writer ch) \<and> written_data trw = map (pack_object F) objs \<and>
        Failed \<notin> set trw \<and> Exit_set \<notin> set trw \<and>
        connection_run mem F trc (ch_conn ch) \<and> prefix (concat (received_bytes trc)) (sent (ch_writer ch)) \<and>
        length (concat (received_bytes trc)) = ch_read ch \<and> map ms_object (parsed_messages trc) = done) \<and>
     prefix done objs"

lemma channel_new_ok:
  assumes "channel_new mem = Inr ch"
  shows "channel_ok mem F [] [] ch"
proof -
  obtain c where c: "connection_new mem = Inr c" "ch = \<lparr>ch_writer = writer_new, ch_conn = c, ch_read = 0\<rparr>"
    using assms by (auto simp: channel_new_def rbind_Inr_iff)
  have "writer_run [] writer_new" by (simp add: writer_run_def path_start)
  with conn_init[OF c(1), of F] show ?thesis
    unfolding channel_ok_def by (intro conjI exI[of _ "[]"]) (simp_all add: c(2) writer_new_def)
qed

text \<open>The two ends keep what they know of the stream.\<close>

lemma channel_sent:
  assumes "writer_run trw w" and "written_data trw = map (pack_object F) objs" and "Failed \<notin> set trw"
  shows "writer_ok (map (pack_object F) objs) False w" and "prefix (sent w) (concat (map (pack_object F) objs))"
proof -
  show ok: "writer_ok (map (pack_object F) objs) False w"
    using writer_run_ok[of trw w] assms by (simp add: writer_run_def)
  then obtain popped part where "progress (map (pack_object F) objs) False w popped part" by (auto simp: writer_ok_def)
  then show "prefix (sent w) (concat (map (pack_object F) objs))"
    by (cases "write_queue w") (auto simp: progress_def prefix_def split: if_splits)
qed

lemma channel_parsed:
  assumes "connection_run mem F trc c" and "small_trace trc" and "\<forall>n. mem n" and "parsable F objs"
    and "prefix (concat (received_bytes trc)) (concat (map (pack_object F) objs))"
  shows "prefix (map ms_object (parsed_messages trc)) objs" and "\<exists>objs' u. stream_state F c = (objs', Inr u)"
proof -
  obtain k u where k: "do_reads F (received_bytes trc) unpacker_new = (take k objs, Inr u)"
    using do_reads_prefix[OF _ assms(5)] assms(4) by (auto simp: parsable_def)
  obtain objs' r where st: "stream_state F c = (objs', r)" by fastforce
  have "prepend (map ms_object (parsed_messages trc)) (stream_state F c) = (take k objs, Inr u)"
    using connection_run_ok[OF assms(1-3)] k by (simp add: refines_stream_def)
  then have eq: "map ms_object (parsed_messages trc) @ objs' = take k objs" "r = Inr u"
    unfolding st prepend_def by simp_all
  have "prefix (map ms_object (parsed_messages trc)) (take k objs)" unfolding eq(1)[symmetric] by simp
  then show "prefix (map ms_object (parsed_messages trc)) objs"
    using take_is_prefix prefix_order.trans by blast
  show "\<exists>objs' u. stream_state F c = (objs', Inr u)" using st eq(2) by blast
qed

lemma channel_ok_sends:
  assumes "channel_ok mem F objs done ch" and "queue_write (pack_object F obj) (ch_writer ch) = Inr w"
  shows "channel_ok mem F (objs @ [obj]) done (ch\<lparr>ch_writer := w\<rparr>)"
proof -
  obtain trw trc where ch: "writer_run trw (ch_writer ch)" "written_data trw = map (pack_object F) objs"
    "Failed \<notin> set trw" "Exit_set \<notin> set trw" "connection_run mem F trc (ch_conn ch)"
    "prefix (concat (received_bytes trc)) (sent (ch_writer ch))" "length (concat (received_bytes trc)) = ch_read ch"
    "map ms_object (parsed_messages trc) = done" and pre: "prefix done objs"
    using assms(1) by (auto simp: channel_ok_def)
  have "writer_run (trw @ [Written (pack_object F obj)]) w"
    using ch(1) path_step[OF _ written[OF assms(2)]] by (simp add: writer_run_def)
  moreover have "sent w = sent (ch_writer ch)"
    using assms(2) by (auto simp: queue_write_def do_write_def Let_def split: if_splits list.splits)
  ultimately show ?thesis
    using ch pre unfolding channel_ok_def
    by (intro conjI exI[of _ "trw @ [Written (pack_object F obj)]"] exI[of _ trc]) auto
qed

lemma channel_ok_moves:
  assumes "channel_step mem F ch a ch'" and "\<forall>data. a \<noteq> Sent data" and "channel_ok mem F objs done ch"
    and "parsable F objs" and "\<forall>n. mem n" and "ch_read ch' < 2 ^ 63"
  shows "channel_ok mem F objs (done @ parsed_of a) ch'"
proof -
  obtain trw trc where ch: "writer_run trw (ch_writer ch)" "written_data trw = map (pack_object F) objs"
    "Failed \<notin> set trw" "Exit_set \<notin> set trw" "connection_run mem F trc (ch_conn ch)"
    "prefix (concat (received_bytes trc)) (sent (ch_writer ch))" "length (concat (received_bytes trc)) = ch_read ch"
    "map ms_object (parsed_messages trc) = done" and pre: "prefix done objs"
    using assms(3) by (auto simp: channel_ok_def)
  note all = channel_sent(2)[OF ch(1-3)]
  show ?thesis
    using assms(1)
  proof (cases rule: channel_step.cases)
    case (sends data w)
    then show ?thesis using assms(2) by simp
  next
    case (sending b w)
    have run: "writer_run (trw @ [b]) w" using ch(1) path_step[OF _ sending(4)] by (simp add: writer_run_def)
    have b: "written_data [b] = []" "b \<noteq> Failed" "b \<noteq> Exit_set" using sending(3) by (auto simp: network_def)
    have "prefix (sent (ch_writer ch)) (sent w)" using sending(3,4)
      by (auto simp: network_def write_handler_def pop_front_def do_write_def rbind_Inr_iff elim!: writer_stepE
          split: list.splits if_splits)
    then have "prefix (concat (received_bytes trc)) (sent w)" using ch(6) prefix_order.trans by blast
    with run b ch pre sending show ?thesis
      unfolding channel_ok_def by (intro conjI exI[of _ "trw @ [b]"] exI[of _ trc]) auto
  next
    case (arrived bs rest c)
    have run: "connection_run mem F (trc @ [Received bs]) c" by (rule conn_step[OF ch(5) arrived(5)])
    have "sent (ch_writer ch) = concat (received_bytes trc) @ bs @ rest"
      using ch(6,7) arrived(3) by (auto simp: prefix_def)
    with run ch pre arrived show ?thesis
      unfolding channel_ok_def by (intro conjI exI[of _ trw] exI[of _ "trc @ [Received bs]"]) auto
  next
    case (parsing b c)
    have run: "connection_run mem F (trc @ [b]) c" by (rule conn_step[OF ch(5) parsing(3)])
    have recv: "received_bytes [b] = []" using parsing(4) by (cases b) auto
    have got: "map ms_object (parsed_messages (trc @ [b])) = done @ parsed_of a" using ch(8) parsing(1) by (cases b) auto
    have "length (parsed_messages trc) \<le> length objs" using ch(8) pre prefix_length_le by fastforce
    then have "small_trace (trc @ [b])"
      using assms(4,6) ch(7) recv parsing(2) by (cases b) (auto simp: small_trace_def parsable_def)
    from channel_parsed(1)[OF run this assms(5,4)] have "prefix (done @ parsed_of a) objs"
      using ch(6) all recv prefix_order.trans unfolding got by auto
    with run got ch recv parsing show ?thesis
      unfolding channel_ok_def by (intro conjI exI[of _ trw] exI[of _ "trc @ [b]"]) auto
  qed
qed

text \<open>As long as something was written and not parsed, some part can take a step.\<close>

lemma channel_progress:
  assumes "channel_ok mem F objs done ch" and "parsable F objs" and "\<forall>n. mem n" and "ch_read ch < 2 ^ 63" and "done \<noteq> objs"
  shows "\<exists>a ch'. moving a \<and> channel_step mem F ch a ch'"
proof -
  obtain trw trc where ch: "writer_run trw (ch_writer ch)" "written_data trw = map (pack_object F) objs"
    "Failed \<notin> set trw" "Exit_set \<notin> set trw" "connection_run mem F trc (ch_conn ch)"
    "prefix (concat (received_bytes trc)) (sent (ch_writer ch))" "length (concat (received_bytes trc)) = ch_read ch"
    "map ms_object (parsed_messages trc) = done" and pre: "prefix done objs"
    using assms(1) by (auto simp: channel_ok_def)
  let ?c = "ch_conn ch" and ?w = "ch_writer ch"
  note all = channel_sent[OF ch(1-3)]
  have "length (parsed_messages trc) \<le> length objs" using ch(8) pre prefix_length_le by fastforce
  then have small: "small_trace trc" using assms(2,4) ch(7) by (simp add: small_trace_def parsable_def)
  have ok: "connection_ok trc ?c" and ref: "refines_stream F trc ?c" using connection_run_ok[OF ch(5) small assms(3)] by simp_all
  then have input: "input_ok (cn_input ?c) (cn_heap ?c) (cn_live ?c)" by (simp add: connection_ok_def)
  have step: "\<exists>a ch'. moving a \<and> channel_step mem F ch a ch'"
    if "connection_step mem F ?c a c" "\<forall>bs. a \<noteq> Received bs" "\<forall>m. a \<noteq> Destroyed m" for a c
  proof -
    have "moving (Parsing a)" using that(3) by (cases a) auto
    then show ?thesis using channel_step.parsing[OF that(1,2)] by blast
  qed
  show ?thesis
  proof (cases "cn_phase ?c")
    case AtNext
    have few: "length (cn_live ?c) + 2 < 2 ^ 32" using ok small by (simp add: connection_ok_def small_trace_def)
    obtain objs' u where str: "stream_state F ?c = (objs', Inr u)"
      using channel_parsed(2)[OF ch(5) small assms(3,2) prefix_order.trans[OF ch(6) all(2)]] by blast
    from input few show ?thesis
    proof (cases rule: input_next_cases[where F = F])
      case (error e)
      then have "stream_state F ?c = ([], Inl e)"
        using AtNext by (simp add: stream_state_def abs_connection_def drain.simps)
      then show ?thesis using str by simp
    next
      case (none u')
      show ?thesis by (rule step[OF drained[OF AtNext none(1)]]) simp_all
    next
      case (some m u' hp')
      show ?thesis by (rule step[OF parsed[OF AtNext some(1)]]) simp_all
    qed
  next
    case AtReserve
    have "DEFAULT_BUFFER_SIZE + m_used (cn_input ?c) < 2 ^ 64"
      using ok small by (simp add: connection_ok_def small_trace_def DEFAULT_BUFFER_SIZE_def COUNTER_SIZE_def)
    from reserve_buffer_run[OF input this assms(3)] obtain u hp where
      "reserve_buffer mem DEFAULT_BUFFER_SIZE (cn_input ?c) (cn_heap ?c) = Inr (u, hp)" by blast
    from reserved[where F = F, OF AtReserve this] show ?thesis by (rule step) simp_all
  next
    case AtRead
    show ?thesis
    proof (cases "drop (ch_read ch) (sent ?w)")
      case (Cons b rest)
      have "length [b] \<le> m_free (cn_input ?c)"
        using ok AtRead by (simp add: connection_ok_def DEFAULT_BUFFER_SIZE_def)
      from receive_run[OF input this] obtain u hp where "receive [b] (cn_input ?c) (cn_heap ?c) = Inr (u, hp)" by blast
      from received[where F = F and mem = mem, OF AtRead _ this] have "connection_step mem F ?c (Received [b])
          (?c\<lparr>cn_phase := AtNext, cn_input := u, cn_heap := hp\<rparr>)" by (simp add: DEFAULT_BUFFER_SIZE_def)
      with channel_step.arrived[of ch "[b]" rest] Cons show ?thesis by (metis append_Cons append_Nil list.distinct(1) moving.simps(4))
    next
      case Nil
      have recv: "concat (received_bytes trc) = sent ?w" using Nil ch(6,7) by (auto simp: prefix_def)
      have calm: "\<not> exiting ?w" using exiting_path[of writer_new trw ?w] ch(1,4) by (simp add: writer_run_def writer_new_def)
      show ?thesis
      proof (cases "write_queue ?w = []")
        case False
        from network_goes_on[OF all(1) calm this] obtain a w where "network a" "writer_step ?w a w" by blast
        from channel_step.sending[OF this] show ?thesis using moving.simps(3) by blast
      next
        case True
        then have "sent ?w = concat (map (pack_object F) objs)" using all(1) by (auto simp: writer_ok_def progress_def)
        then have "do_reads F (received_bytes trc) unpacker_new = (objs, Inr unpacker_new)"
          using assms(2) recv by (intro do_reads_packed) (simp_all add: parsable_def)
        then have "done = objs"
          using ref ch(8) AtRead by (simp add: refines_stream_def stream_state_def prepend_def)
        then show ?thesis using assms(5) by simp
      qed
    qed
  qed
qed

text \<open>The bytes read are bytes that were written.\<close>

lemma channel_read_bound:
  assumes "channel_ok mem F objs done ch"
  shows "ch_read ch \<le> length (sent (ch_writer ch))"
    and "length (sent (ch_writer ch)) \<le> length (concat (map (pack_object F) objs))"
proof -
  obtain trw trc where ch: "writer_run trw (ch_writer ch)" "written_data trw = map (pack_object F) objs"
    "Failed \<notin> set trw" "prefix (concat (received_bytes trc)) (sent (ch_writer ch))"
    "length (concat (received_bytes trc)) = ch_read ch"
    using assms by (auto simp: channel_ok_def)
  show "ch_read ch \<le> length (sent (ch_writer ch))" using ch(5) prefix_length_le[OF ch(4)] by simp
  show "length (sent (ch_writer ch)) \<le> length (concat (map (pack_object F) objs))"
    by (rule prefix_length_le[OF channel_sent(2)[OF ch(1-3)]])
qed

lemma channel_step_read:
  "channel_step mem F ch a ch' \<Longrightarrow> ch_read ch \<le> ch_read ch' \<and>
    (ch_read ch' = ch_read ch \<or> ch_read ch' \<le> length (sent (ch_writer ch)))"
proof (induction rule: channel_step.induct)
  case (arrived ch bs rest c)
  then obtain n where "length bs = Suc n" by (cases bs) auto
  moreover have "length (drop (ch_read ch) (sent (ch_writer ch))) = length bs + length rest" using arrived by simp
  ultimately show ?case by simp
qed simp_all

lemma channel_ok_step:
  assumes "channel_step mem F ch a ch'" and "channel_ok mem F objs done ch"
    and "written_of a = map (pack_object F) new" and "parsable F (objs @ new)" and "\<forall>n. mem n"
    and "length (concat (map (pack_object F) (objs @ new))) < 2 ^ 63"
  shows "channel_ok mem F (objs @ new) (done @ parsed_of a) ch'"
proof (cases "\<exists>data. a = Sent data")
  case True
  then obtain data where a: "a = Sent data" by blast
  then obtain obj where new: "new = [obj]" "data = pack_object F obj" using assms(3) by (auto simp: Cons_eq_map_conv)
  have "\<exists>w. queue_write data (ch_writer ch) = Inr w \<and> ch' = ch\<lparr>ch_writer := w\<rparr>"
    using assms(1) by (auto simp: a elim: channel_step.cases)
  then show ?thesis using channel_ok_sends[OF assms(2)] new a by auto
next
  case False
  then have new: "new = []" using assms(3) by (cases a) auto
  have "ch_read ch' < 2 ^ 63"
    using channel_step_read[OF assms(1)] channel_read_bound[OF assms(2)] assms(6) new by auto
  then show ?thesis using channel_ok_moves[OF assms(1) _ assms(2)] False assms(4,5) new by auto
qed

lemma channel_path_ok:
  assumes "channel_path mem F ch tr ch'" and "channel_ok mem F objs done ch"
    and "concat (map written_of tr) = map (pack_object F) new" and "parsable F (objs @ new)" and "\<forall>n. mem n"
    and "length (concat (map (pack_object F) (objs @ new))) < 2 ^ 63"
  shows "channel_ok mem F (objs @ new) (done @ concat (map parsed_of tr)) ch'"
  using assms(1,3,4,6)
proof (induction tr ch' arbitrary: new rule: channel_path.induct)
  case channel_start
  then show ?case using assms(2) by simp
next
  case (channel_next tr ch1 a ch2)
  obtain new1 new2 where new: "new = new1 @ new2" "concat (map written_of tr) = map (pack_object F) new1"
    "written_of a = map (pack_object F) new2"
    using channel_next.prems(1) by (auto simp: append_eq_map_conv)
  have "channel_ok mem F (objs @ new1) (done @ concat (map parsed_of tr)) ch1"
    by (rule channel_next.IH[OF new(2)]) (use channel_next.prems(2,3) new(1) in \<open>auto simp: parsable_def\<close>)
  from channel_ok_step[OF channel_next.hyps(2) this new(3) _ assms(5)] show ?case
    using channel_next.prems(2,3) new(1) by simp
qed

section \<open>Delivery\<close>

text \<open>What is left to do for what was written: the bytes to send and to read, the objects to parse, the way to the next
  read.\<close>

definition way_to_read :: "phase \<Rightarrow> nat" where
  "way_to_read p = (case p of AtNext \<Rightarrow> 2 | AtReserve \<Rightarrow> 1 | AtRead \<Rightarrow> 0)"

definition remaining :: "float_bits \<Rightarrow> msgpack_object list \<Rightarrow> msgpack_object list \<Rightarrow> channel \<Rightarrow> nat" where
  "remaining F objs done ch =
     work (ch_writer ch) + 3 * (length (concat (map (pack_object F) objs)) - ch_read ch) +
     (length objs - length done) + way_to_read (cn_phase (ch_conn ch))"

lemma channel_ok_writer:
  assumes "channel_ok mem F objs done ch"
  shows "writer_ok (map (pack_object F) objs) False (ch_writer ch)"
  using assms by (auto simp: channel_ok_def intro: channel_sent(1))

lemma moving_decreases:
  assumes "channel_step mem F ch a ch'" and "moving a" and "channel_ok mem F objs done ch"
    and "channel_ok mem F objs (done @ parsed_of a) ch'"
  shows "remaining F objs (done @ parsed_of a) ch' < remaining F objs done ch"
  using assms(1)
proof (cases rule: channel_step.cases)
  case (sends data w)
  then show ?thesis using assms(2) by simp
next
  case (sending b w)
  have "work w < work (ch_writer ch)" using network_step_work[OF channel_ok_writer[OF assms(3)] sending(4,3)] by simp
  then show ?thesis using sending by (simp add: remaining_def)
next
  case (arrived bs rest c)
  have "cn_phase (ch_conn ch) = AtRead" "cn_phase c = AtNext" using arrived(5) by (auto elim: connection_stepE)
  moreover have "ch_read ch + length bs \<le> length (concat (map (pack_object F) objs))"
    using channel_read_bound[OF assms(4)] arrived(2) by simp
  moreover obtain n where "length bs = Suc n" using arrived(4) by (cases bs) auto
  ultimately show ?thesis using arrived by (simp add: remaining_def way_to_read_def)
next
  case (parsing b c)
  have "length (done @ parsed_of a) \<le> length objs" using assms(4) by (auto simp: channel_ok_def dest: prefix_length_le)
  then show ?thesis using parsing assms(2) by (auto simp: remaining_def way_to_read_def elim: connection_stepE)
qed

lemma moving_path:
  assumes "channel_path mem F ch tr ch'" and "list_all moving tr" and "channel_ok mem F objs done ch"
    and "parsable F objs" and "\<forall>n. mem n" and "length (concat (map (pack_object F) objs)) < 2 ^ 63"
  shows "length tr + remaining F objs (done @ concat (map parsed_of tr)) ch' \<le> remaining F objs done ch \<and>
    channel_ok mem F objs (done @ concat (map parsed_of tr)) ch'"
  using assms(1,2)
proof (induction tr ch' rule: channel_path.induct)
  case channel_start
  then show ?case using assms(3) by simp
next
  case (channel_next tr ch1 a ch2)
  let ?done = "done @ concat (map parsed_of tr)"
  have IH: "length tr + remaining F objs ?done ch1 \<le> remaining F objs done ch" "channel_ok mem F objs ?done ch1"
    and a: "moving a" using channel_next by simp_all
  have "written_of a = map (pack_object F) []" using a by (cases a) simp_all
  from channel_ok_step[OF channel_next.hyps(2) IH(2) this _ assms(5)]
  have ok: "channel_ok mem F objs (?done @ parsed_of a) ch2" using assms(4,6) by simp
  from moving_decreases[OF channel_next.hyps(2) a IH(2) ok] IH(1) ok show ?case by simp
qed

text \<open>An example: the string ''a'' is written, sent, read and parsed.\<close>

definition example_written :: channel where
  "example_written = \<lparr>ch_writer = example_started, ch_conn = example_connection, ch_read = 0\<rparr>"

definition example_deliveries :: "channel_action list" where
  "example_deliveries =
     [Sending (Transmitted [0xa1]), Sending (Transmitted [97]), Arrived [0xa1, 97], Parsing (Parsed example_message)]"

definition example_delivered :: channel where
  "example_delivered =
     \<lparr>ch_writer = example_started\<lparr>operations := [[]], sent := [0xa1, 97]\<rparr>, ch_conn = example_served\<lparr>cn_phase := AtNext\<rparr>,
      ch_read = 2\<rparr>"

lemma example_channel_written:
  "channel_new (\<lambda>_. True) = Inr (example_written\<lparr>ch_writer := writer_new\<rparr>)"
  "channel_step (\<lambda>_. True) F (example_written\<lparr>ch_writer := writer_new\<rparr>) (Sent [0xa1, 97]) example_written"
proof -
  show "channel_new (\<lambda>_. True) = Inr (example_written\<lparr>ch_writer := writer_new\<rparr>)"
    by (simp add: channel_new_def example_new example_written_def)
  have "queue_write [0xa1, 97] writer_new = Inr example_started"
    by (simp add: queue_write_def do_write_def writer_new_def example_started_def)
  then show "channel_step (\<lambda>_. True) F (example_written\<lparr>ch_writer := writer_new\<rparr>) (Sent [0xa1, 97]) example_written"
    using sends[of "[0xa1, 97]" "example_written\<lparr>ch_writer := writer_new\<rparr>"] by (simp add: example_written_def)
qed

lemma example_channel_path: "channel_path (\<lambda>_. True) zero_floats example_written example_deliveries example_delivered"
proof -
  let ?step = "channel_step (\<lambda>_. True) zero_floats"
  let ?w2 = "example_started\<lparr>operations := [[97]], sent := [0xa1]\<rparr>"
  let ?w3 = "example_started\<lparr>operations := [[]], sent := [0xa1, 97]\<rparr>"
  let ?ch2 = "example_written\<lparr>ch_writer := ?w2\<rparr>" and ?ch3 = "example_written\<lparr>ch_writer := ?w3\<rparr>"
  let ?ch4 = "?ch3\<lparr>ch_conn := example_arrived, ch_read := 2\<rparr>"
  have 1: "?step example_written (Sending (Transmitted [0xa1])) ?ch2"
    using sending[of "Transmitted [0xa1]" example_written ?w2] example_transmit[of example_started "0xa1" "[97]"]
    by (simp add: network_def example_written_def example_started_def)
  have 2: "?step ?ch2 (Sending (Transmitted [97])) ?ch3"
    using sending[of "Transmitted [97]" ?ch2 ?w3] example_transmit[of ?w2 97 "[]"]
    by (simp add: network_def example_started_def)
  have 3: "?step ?ch3 (Arrived [0xa1, 97]) ?ch4"
    using arrived[of ?ch3 "[0xa1, 97]" "[]" _ zero_floats example_arrived] example_conn_received
    by (simp add: example_written_def flip: numeral_2_eq_2)
  have 4: "?step ?ch4 (Parsing (Parsed example_message)) example_delivered"
    using parsing[of _ zero_floats ?ch4 "Parsed example_message" "example_served\<lparr>cn_phase := AtNext\<rparr>"] example_conn_parsed
    by (simp add: example_written_def example_delivered_def)
  from channel_next[OF channel_next[OF channel_next[OF channel_next[OF channel_start 1] 2] 3] 4]
  show ?thesis by (simp add: example_deliveries_def)
qed

section \<open>Properties\<close>

text \<open>C11: A connection delivers what was written to it: whatever sizes the network cuts the bytes into, however its steps
  interleave with those of the parser, with new writes and with the destruction of old messages, what was parsed
  is the beginning of the objects written. From then on the queue, the network and the parser take at most
  \<open>remaining\<close> steps, and as long as an object is missing one of them can take a step.\<close>

theorem channel_delivers:
  assumes "channel_new mem = Inr ch0" and "channel_path mem F ch0 tr ch" and "concat (map written_of tr) = map (pack_object F) objs"
    and "\<forall>obj\<in>set objs. valid_object F obj \<and> depth obj \<le> limit_size" and "length objs + 3 < 2 ^ 32"
    and "length (concat (map (pack_object F) objs)) < 2 ^ 63" and "\<forall>n. mem n"
    and "channel_path mem F ch tr' ch'" and "list_all moving tr'"
  shows "prefix (concat (map parsed_of (tr @ tr'))) objs \<and> length tr' \<le> remaining F objs (concat (map parsed_of tr)) ch \<and>
    (concat (map parsed_of (tr @ tr')) = objs \<or> (\<exists>a ch''. moving a \<and> channel_step mem F ch' a ch''))"
proof -
  let ?done = "concat (map parsed_of tr)" and ?done' = "concat (map parsed_of (tr @ tr'))"
  have objs: "parsable F objs" using assms(4,5) by (simp add: parsable_def)
  have "channel_ok mem F objs ?done ch"
    using channel_path_ok[OF assms(2) channel_new_ok[OF assms(1)] assms(3)] objs assms(6,7) by simp
  from moving_path[OF assms(8,9) this objs assms(7,6)] have
    ok: "channel_ok mem F objs ?done' ch'" and bound: "length tr' \<le> remaining F objs ?done ch" by simp_all
  have "ch_read ch' < 2 ^ 63" using channel_read_bound[OF ok] assms(6) by linarith
  with channel_progress[OF ok objs assms(7)] ok bound show ?thesis by (auto simp: channel_ok_def)
qed

theorem channel_delivers_witness:
  "length example_deliveries \<le> remaining zero_floats [STRING ''a''] [] example_written \<and>
    prefix (concat (map parsed_of example_deliveries)) [STRING ''a'']"
proof -
  have pack: "pack_object zero_floats (STRING ''a'') = [0xa1, 97]" by code_simp
  have "list_all moving example_deliveries" by (simp add: example_deliveries_def)
  from channel_delivers[OF example_channel_written(1) channel_next[OF channel_start example_channel_written(2)]
      _ _ _ _ _ example_channel_path this, of "[STRING ''a'']"]
  show ?thesis by (simp add: pack del: pack_object.simps)
qed

end
