(* ===== verification/Rpc_Session.thy ===== *)
theory Rpc_Session
  imports Msgpack_Stream Serialization Rpc_Lib
begin

text \<open>
  The two ends of a connection of rpclib: \<open>client.inl\<close>, \<open>client.cc\<close>, \<open>server_session.cc\<close>, \<open>dispatcher.cc\<close>,
  \<open>response.cc\<close>. A client numbers its calls and keeps a promise for each; the server dispatches every message it
  parses, on any of its threads, and writes the responses in the order the threads finish; the client settles the
  promise whose number the response carries. \<open>this_handler\<close> and \<open>this_session\<close>, with which a handler can change
  what is sent, are not used by HFetch and left out, as are timeouts.

  A bound function is the number of its parameters and what it does with the array of its arguments on
  the state of the server. \<open>suppress_exceptions_\<close> is false: an exception of the function ends the thread.
\<close>

section \<open>Messages\<close>

text \<open>\<open>o.via.array.size\<close>, read without looking at the type: all containers keep their size there.\<close>

definition via_size :: "msgpack_object \<Rightarrow> nat res" where
  "via_size obj =
     (case obj of
        ARRAY os \<Rightarrow> Inr (length os)
      | MAP kvs \<Rightarrow> Inr (length kvs)
      | STRING s \<Rightarrow> Inr (length s)
      | BIN s \<Rightarrow> Inr (length s)
      | EXT ty s \<Rightarrow> Inr (length s)
      | _ \<Rightarrow> Inl (Undefined OutOfRange))"

text \<open>Converting an array into a \<open>std::tuple\<close>: members the array does not have keep their initial value.\<close>

definition tuple_member :: "msgpack_object list \<Rightarrow> nat \<Rightarrow> 'a \<Rightarrow> (msgpack_object \<Rightarrow> 'a res) \<Rightarrow> 'a res" where
  "tuple_member os i init cv = (if i < length os then cv (os ! i) else Inr init)"

definition tuple_members :: "msgpack_object \<Rightarrow> msgpack_object list res" where
  "tuple_members obj = (case obj of ARRAY os \<Rightarrow> Inr os | _ \<Rightarrow> Inl (Msgpack type_error))"

definition convert_call :: "msgpack_object \<Rightarrow> (nat \<times> string \<times> msgpack_object) res" where
  "convert_call msg =
     rbind (tuple_members msg) (\<lambda>os.
     rbind (tuple_member os 0 0 (convert_signed 8)) (\<lambda>_.
     rbind (tuple_member os 1 0 (convert_unsigned 32)) (\<lambda>i.
     rbind (tuple_member os 2 [] convert_string) (\<lambda>name.
     rbind (tuple_member os 3 NIL Inr) (\<lambda>args. Inr (i, name, args))))))"

definition convert_notification :: "msgpack_object \<Rightarrow> (string \<times> msgpack_object) res" where
  "convert_notification msg =
     rbind (tuple_members msg) (\<lambda>os.
     rbind (tuple_member os 0 0 (convert_signed 8)) (\<lambda>_.
     rbind (tuple_member os 1 [] convert_string) (\<lambda>name.
     rbind (tuple_member os 2 NIL Inr) (\<lambda>args. Inr (name, args)))))"

record response =
  rs_id :: nat
  rs_error :: "msgpack_object option"
  rs_result :: "msgpack_object option"
  rs_empty :: bool

definition response_init :: response where
  "response_init = \<lparr>rs_id = 0, rs_error = None, rs_result = None, rs_empty = False\<rparr>"

definition response_empty :: response where
  "response_empty = response_init\<lparr>rs_empty := True\<rparr>"

definition make_result :: "nat \<Rightarrow> msgpack_object \<Rightarrow> response" where
  "make_result i result = response_init\<lparr>rs_id := i, rs_result := Some result\<rparr>"

definition make_error :: "nat \<Rightarrow> string \<Rightarrow> response res" where
  "make_error i error = rbind (object_string error) (\<lambda>obj. Inr (response_init\<lparr>rs_id := i, rs_error := Some obj\<rparr>))"

definition response_of_object :: "msgpack_object \<Rightarrow> response res" where
  "response_of_object obj =
     rbind (tuple_members obj) (\<lambda>os.
     rbind (tuple_member os 0 0 (convert_unsigned 32)) (\<lambda>_.
     rbind (tuple_member os 1 0 (convert_unsigned 32)) (\<lambda>i.
     rbind (tuple_member os 2 NIL Inr) (\<lambda>error_obj.
     rbind (tuple_member os 3 NIL Inr) (\<lambda>result.
       Inr (response_init\<lparr>rs_id := i, rs_error := (if error_obj = NIL then None else Some error_obj),
                          rs_result := Some result\<rparr>))))))"

definition response_get_data :: "float_bits \<Rightarrow> response \<Rightarrow> bytes res" where
  "response_get_data F r =
     pack_members
       [pack_unsigned_int 1, pack_unsigned_int (rs_id r),
        Inr (pack_object F (case rs_error r of Some e \<Rightarrow> e | None \<Rightarrow> NIL)),
        Inr (pack_object F (case rs_result r of Some x \<Rightarrow> x | None \<Rightarrow> NIL))]"

section \<open>The server\<close>

type_synonym 's bound_function = "msgpack_object \<Rightarrow> 's \<Rightarrow> (msgpack_object \<times> 's) res"

type_synonym 's func_table = "(string \<times> nat \<times> 's bound_function) list"

definition not_found_text :: "string \<Rightarrow> nat \<Rightarrow> string" where
  "not_found_text name n =
     ''rpclib: server could not find function '' @ [CHR 39] @ name @ [CHR 39] @ '' with argument count '' @ to_string n @ ''.''"

definition wrong_arity_text :: "string \<Rightarrow> nat \<Rightarrow> nat \<Rightarrow> string" where
  "wrong_arity_text func found expected =
     ''rpclib: client error C0002: Function '' @ [CHR 39] @ func @ [CHR 39] @
     '' was called with an invalid number of arguments. Expected: '' @ to_string expected @ '', got: '' @ to_string found"

text \<open>A bound function checks the number of its arguments, converts them and runs.\<close>

definition run_bound :: "string \<Rightarrow> nat \<Rightarrow> 's bound_function \<Rightarrow> msgpack_object \<Rightarrow> 's \<Rightarrow> (msgpack_object \<times> 's) res" where
  "run_bound name args_count f args s =
     rbind (via_size args) (\<lambda>found. rbind (enforce_arg_count name args_count found) (\<lambda>_. f args s))"

definition server_dispatch_call :: "'s func_table \<Rightarrow> msgpack_object \<Rightarrow> 's \<Rightarrow> (response \<times> 's) res" where
  "server_dispatch_call funcs msg s =
     rbind (convert_call msg) (\<lambda>(i, name, args).
       case um_find name funcs of
         Some (args_count, f) \<Rightarrow>
           (case run_bound name args_count f args s of
              Inr (result, s) \<Rightarrow> Inr (make_result i result, s)
            | Inl e \<Rightarrow>
                rbind (via_size args) (\<lambda>found.
                  if found \<noteq> args_count then rbind (make_error i (wrong_arity_text name args_count found)) (\<lambda>r. Inr (r, s))
                  else Inl e))
       | None \<Rightarrow> rbind (via_size args) (\<lambda>n. rbind (make_error i (not_found_text name n)) (\<lambda>r. Inr (r, s))))"

definition server_dispatch_notification :: "'s func_table \<Rightarrow> msgpack_object \<Rightarrow> 's \<Rightarrow> (response \<times> 's) res" where
  "server_dispatch_notification funcs msg s =
     rbind (convert_notification msg) (\<lambda>(name, args).
       case um_find name funcs of
         Some (args_count, f) \<Rightarrow> rbind (run_bound name args_count f args s) (\<lambda>(_, s). Inr (response_empty, s))
       | None \<Rightarrow> Inr (response_empty, s))"

definition dispatch :: "'s func_table \<Rightarrow> msgpack_object \<Rightarrow> 's \<Rightarrow> (response \<times> 's) res" where
  "dispatch funcs msg s =
     rbind (via_size msg) (\<lambda>n.
       if n = 3 then server_dispatch_notification funcs msg s
       else if n = 4 then server_dispatch_call funcs msg s
       else Inr (response_empty, s))"

text \<open>The messages a session posts to the threads, in the order the threads take them, and what is written.\<close>

fun serve :: "'s func_table \<Rightarrow> msgpack_object list \<Rightarrow> 's \<Rightarrow> (response list \<times> 's) res" where
  "serve funcs [] s = Inr ([], s)"
| "serve funcs (msg # msgs) s =
     rbind (dispatch funcs msg s) (\<lambda>(r, s).
     rbind (serve funcs msgs s) (\<lambda>(rs, s). Inr (if rs_empty r then rs else r # rs, s)))"

fun write_all :: "float_bits \<Rightarrow> response list \<Rightarrow> bytes res" where
  "write_all F [] = Inr []"
| "write_all F (r # rs) = rbind (response_get_data F r) (\<lambda>bs. rbind (write_all F rs) (\<lambda>bss. Inr (bs @ bss)))"

section \<open>The client\<close>

datatype call_outcome = Value msgpack_object | RpcError string msgpack_object

text \<open>\<open>ongoing_calls_\<close> maps the number of a call to the name of the function and its promise, which is settled or
  not; \<open>settled\<close> is what the futures of the callers have received.\<close>

record rpc_client =
  call_idx :: int
  ongoing_calls :: "(nat \<times> string \<times> bool) list"
  pac :: unpacker
  settled :: "(nat \<times> call_outcome) list"

definition client_new :: rpc_client where
  "client_new = \<lparr>call_idx = 0, ongoing_calls = [], pac = unpacker_new, settled = []\<rparr>"

text \<open>\<open>get_next_call_idx\<close> increments the counter and reads it again. For one thread this is one step; what threads can do to
  each other in between is in \<open>Transport\<close>.\<close>

definition incr_call_idx :: "rpc_client \<Rightarrow> rpc_client" where
  "incr_call_idx c = c\<lparr>call_idx := to_int32 (call_idx c + 1)\<rparr>"

definition get_next_call_idx :: "rpc_client \<Rightarrow> int \<times> rpc_client" where
  "get_next_call_idx c = (let c = incr_call_idx c in (call_idx c, c))"

definition client_post :: "int \<Rightarrow> string \<Rightarrow> rpc_client \<Rightarrow> rpc_client" where
  "client_post idx func_name c =
     c\<lparr>ongoing_calls := um_insert (to_unsigned 32 idx) (func_name, False) (ongoing_calls c)\<rparr>"

text \<open>\<open>async_call\<close> returns the bytes it writes; \<open>args\<close> packs the tuple of the arguments.\<close>

definition call_buffer :: "int \<Rightarrow> string \<Rightarrow> bytes res \<Rightarrow> bytes res" where
  "call_buffer idx func_name args = pack_members [pack_unsigned_char 0, pack_int idx, pack_string func_name, args]"

definition async_call :: "string \<Rightarrow> bytes res \<Rightarrow> rpc_client \<Rightarrow> (bytes \<times> rpc_client) res" where
  "async_call func_name args c =
     (let (idx, c) = get_next_call_idx c
      in rbind (call_buffer idx func_name args) (\<lambda>buffer. Inr (buffer, client_post idx func_name c)))"

text \<open>A promise that is settled twice throws out of the \<open>catch\<close> block, which ends the program.\<close>

definition handle_response :: "msgpack_object \<Rightarrow> rpc_client \<Rightarrow> rpc_client res" where
  "handle_response obj c =
     rbind (response_of_object obj) (\<lambda>r.
       let i = rs_id r;
           current_call = um_find i (ongoing_calls c);
           (func_name, satisfied) = (case current_call of Some x \<Rightarrow> x | None \<Rightarrow> ([], False));
           outcome = (case rs_error r of Some e \<Rightarrow> RpcError func_name e
                      | None \<Rightarrow> Value (case rs_result r of Some x \<Rightarrow> x | None \<Rightarrow> NIL))
       in if satisfied then Inl Abort
          else Inr (c\<lparr>ongoing_calls := um_insert i (func_name, True) (um_erase i (ongoing_calls c)),
                      settled := settled c @ (if current_call = None then [] else [(i, outcome)])\<rparr>))"

text \<open>One read of the client; the numbers it has seen are erased before the next read.\<close>

definition client_read :: "float_bits \<Rightarrow> bytes \<Rightarrow> rpc_client \<Rightarrow> rpc_client res" where
  "client_read F bs c =
     (case do_read F bs (pac c) of
        (objs, r) \<Rightarrow>
          rbind (rfold handle_response objs c) (\<lambda>c.
          rbind r (\<lambda>u.
            Inr (c\<lparr>ongoing_calls := filter (\<lambda>(i, name, satisfied). \<not> satisfied) (ongoing_calls c), pac := u\<rparr>))))"

definition client_reads :: "float_bits \<Rightarrow> bytes list \<Rightarrow> rpc_client \<Rightarrow> rpc_client res" where
  "client_reads F chunks = rfold (client_read F) chunks"

section \<open>Lemmas\<close>

definition call_message :: "nat \<Rightarrow> string \<Rightarrow> msgpack_object \<Rightarrow> msgpack_object" where
  "call_message i name args = ARRAY [POSITIVE_INTEGER 0, POSITIVE_INTEGER i, STRING name, args]"

definition response_message :: "response \<Rightarrow> msgpack_object" where
  "response_message r =
     ARRAY [POSITIVE_INTEGER 1, POSITIVE_INTEGER (rs_id r), (case rs_error r of Some e \<Rightarrow> e | None \<Rightarrow> NIL),
            (case rs_result r of Some x \<Rightarrow> x | None \<Rightarrow> NIL)]"

definition sendable :: "float_bits \<Rightarrow> msgpack_object \<Rightarrow> bool" where
  "sendable F obj \<longleftrightarrow> valid_object F obj \<and> Suc (depth obj) \<le> limit_size"

definition response_ok :: "float_bits \<Rightarrow> response \<Rightarrow> bool" where
  "response_ok F r \<longleftrightarrow> rs_id r < 2 ^ 32 \<and> (\<forall>obj. rs_error r = Some obj \<or> rs_result r = Some obj \<longrightarrow> sendable F obj)"

text \<open>What a response means to the caller.\<close>

definition outcome_of :: "string \<Rightarrow> response \<Rightarrow> call_outcome" where
  "outcome_of name r =
     (let e = (case rs_error r of Some e \<Rightarrow> e | None \<Rightarrow> NIL)
      in if e \<noteq> NIL then RpcError name e else Value (case rs_result r of Some x \<Rightarrow> x | None \<Rightarrow> NIL))"

lemma sendable_simps [simp]:
  "sendable F NIL" "sendable F (POSITIVE_INTEGER n) \<longleftrightarrow> n < 2 ^ 64" "sendable F (STRING s) \<longleftrightarrow> length s < 2 ^ 32"
  by (simp_all add: sendable_def)

lemma message_parses:
  assumes "\<forall>obj\<in>set os. sendable F obj" and "length os < 16"
  shows "valid_object F (ARRAY os) \<and> depth (ARRAY os) \<le> limit_size"
proof -
  have "depth obj < limit_size" if "obj \<in> set os" for obj using assms(1) that by (auto simp: sendable_def)
  moreover have "(0::nat) < limit_size" by (simp add: limit_size_def)
  ultimately have "Max (insert 0 (set (map depth os))) < limit_size" by (subst Max_less_iff) auto
  then show ?thesis using assms by (simp add: sendable_def Suc_le_eq)
qed

lemma call_message_parses:
  "i < 2 ^ 32 \<Longrightarrow> length name < 2 ^ 32 \<Longrightarrow> sendable F args \<Longrightarrow>
    valid_object F (call_message i name args) \<and> depth (call_message i name args) \<le> limit_size"
  unfolding call_message_def by (rule message_parses) simp_all

lemma response_message_parses:
  "response_ok F r \<Longrightarrow> valid_object F (response_message r) \<and> depth (response_message r) \<le> limit_size"
  unfolding response_message_def
  by (rule message_parses) (auto simp: response_ok_def split: option.split)

lemma int_packs: "n < 2 ^ 31 \<Longrightarrow> pack_imp_int32 (int n) = pack_imp_uint64 n"
  by (auto simp: pack_imp_int32_def pack_imp_uint64_def take8_def simp del: store_be.simps)

lemma call_packed:
  assumes "i < 2 ^ 31" and "length name < 2 ^ 32"
  shows "pack_members [pack_unsigned_char 0, pack_int (int i), pack_string name, Inr (pack_object F args)] =
    Inr (pack_object F (call_message i name args))"
  unfolding call_message_def
  using assms by (intro pack_members_object)
    (simp add: pack_unsigned_char_def pack_int_def pack_string_def int_packs uint_packs string_small)

lemma response_packed:
  "rs_id r < 2 ^ 32 \<Longrightarrow> response_get_data F r = Inr (pack_object F (response_message r))"
  unfolding response_get_data_def response_message_def
  by (intro pack_members_object) (simp add: pack_unsigned_int_def uint_packs)

lemma write_all_packed:
  "\<forall>r\<in>set rs. rs_id r < 2 ^ 32 \<Longrightarrow> write_all F rs = Inr (concat (map (pack_object F) (map response_message rs)))"
  by (induction rs) (simp_all add: response_packed)

lemma response_read_back:
  "rs_id r < 2 ^ 32 \<Longrightarrow> \<exists>r'. response_of_object (response_message r) = Inr r' \<and> rs_id r' = rs_id r \<and>
    (\<forall>name. (case rs_error r' of Some e \<Rightarrow> RpcError name e
       | None \<Rightarrow> Value (case rs_result r' of Some x \<Rightarrow> x | None \<Rightarrow> NIL)) = outcome_of name r)"
  by (simp add: response_of_object_def response_message_def tuple_members_def tuple_member_def convert_unsigned_def
      outcome_of_def Let_def)

text \<open>Between two reads no promise of the table is settled.\<close>

definition client_ok :: "rpc_client \<Rightarrow> bool" where
  "client_ok c \<longleftrightarrow> distinct (map fst (ongoing_calls c)) \<and> (\<forall>(i, name, satisfied)\<in>set (ongoing_calls c). \<not> satisfied)"

definition call_name :: "rpc_client \<Rightarrow> nat \<Rightarrow> string" where
  "call_name c i = (case um_find i (ongoing_calls c) of Some (name, _) \<Rightarrow> name | None \<Rightarrow> [])"

lemma handle_known:
  assumes "rs_id r < 2 ^ 32" and "um_find (rs_id r) (ongoing_calls c) = Some (name, False)"
  shows "handle_response (response_message r) c =
    Inr (c\<lparr>ongoing_calls := um_insert (rs_id r) (name, True) (um_erase (rs_id r) (ongoing_calls c)),
           settled := settled c @ [(rs_id r, outcome_of name r)]\<rparr>)"
  using response_read_back[OF assms(1)] assms(2) by (auto simp: handle_response_def Let_def)

lemma handle_all:
  "distinct (map rs_id rs) \<Longrightarrow> distinct (map fst (ongoing_calls c)) \<Longrightarrow>
    \<forall>r\<in>set rs. rs_id r < 2 ^ 32 \<and> (\<exists>name. um_find (rs_id r) (ongoing_calls c) = Some (name, False)) \<Longrightarrow>
    \<exists>calls. rfold handle_response (map response_message rs) c =
        Inr (c\<lparr>ongoing_calls := calls,
               settled := settled c @ map (\<lambda>r. (rs_id r, outcome_of (call_name c (rs_id r)) r)) rs\<rparr>) \<and>
      distinct (map fst calls) \<and>
      (\<forall>k. um_find k calls = (if k \<in> rs_id ` set rs then Some (call_name c k, True) else um_find k (ongoing_calls c)))"
proof (induction rs arbitrary: c)
  case Nil
  then show ?case by (intro exI[of _ "ongoing_calls c"]) simp
next
  case (Cons r rs)
  obtain name where r: "rs_id r < 2 ^ 32" "um_find (rs_id r) (ongoing_calls c) = Some (name, False)"
    using Cons.prems(3) by auto
  let ?c = "c\<lparr>ongoing_calls := um_insert (rs_id r) (name, True) (um_erase (rs_id r) (ongoing_calls c)),
      settled := settled c @ [(rs_id r, outcome_of name r)]\<rparr>"
  have find: "um_find k (ongoing_calls ?c) = (if k = rs_id r then Some (name, True) else um_find k (ongoing_calls c))" for k
    by (simp add: um_find_insert um_find_erase)
  have d: "distinct (map fst (ongoing_calls ?c))"
    using Cons.prems(2) by (simp add: distinct_um_insert distinct_um_erase)
  have "rs_id r \<notin> rs_id ` set rs" using Cons.prems(1) by simp
  then have fresh: "\<forall>r'\<in>set rs. rs_id r' \<noteq> rs_id r" by (metis image_eqI)
  have rest: "\<forall>r'\<in>set rs. rs_id r' < 2 ^ 32 \<and> (\<exists>name. um_find (rs_id r') (ongoing_calls ?c) = Some (name, False))"
    using Cons.prems(3) fresh unfolding find by auto
  have names: "call_name ?c (rs_id r') = call_name c (rs_id r')" if "r' \<in> set rs" for r'
    using fresh that unfolding call_name_def find by simp
  have "map (\<lambda>r. (rs_id r, outcome_of (call_name ?c (rs_id r)) r)) rs =
      map (\<lambda>r. (rs_id r, outcome_of (call_name c (rs_id r)) r)) rs"
    using names by simp
  moreover have "call_name c (rs_id r) = name" using r(2) by (simp add: call_name_def)
  moreover obtain calls where "rfold handle_response (map response_message rs) ?c =
      Inr (?c\<lparr>ongoing_calls := calls,
             settled := settled ?c @ map (\<lambda>r. (rs_id r, outcome_of (call_name ?c (rs_id r)) r)) rs\<rparr>)"
    "distinct (map fst calls)"
    "\<forall>k. um_find k calls = (if k \<in> rs_id ` set rs then Some (call_name ?c k, True) else um_find k (ongoing_calls ?c))"
    using Cons.IH[OF _ d rest] Cons.prems(1) by auto
  moreover have "\<forall>k. um_find k calls =
      (if k \<in> rs_id ` set (r # rs) then Some (call_name c k, True) else um_find k (ongoing_calls c))"
    using calculation(2,5) names unfolding find by auto
  ultimately show ?case
    using handle_known[OF r] by (intro exI[of _ calls]) simp
qed

lemma filter_unsettled:
  "distinct (map fst calls) \<Longrightarrow>
    um_find k (filter (\<lambda>(i, name, satisfied). \<not> satisfied) calls) =
      (case um_find k calls of Some (name, False) \<Rightarrow> Some (name, False) | _ \<Rightarrow> None)"
proof (induction calls)
  case (Cons x calls)
  obtain i name b where x: "x = (i, name, b)" by (cases x) auto
  have "i \<notin> fst ` set calls" using Cons.prems x by simp
  then have "map_of calls i = None" by (simp add: map_of_eq_None_iff)
  then show ?case using Cons x by (cases b) (auto simp: um_find_def split: option.splits)
qed (simp add: um_find_def)

lemma client_okD: "client_ok c \<Longrightarrow> um_find i (ongoing_calls c) = Some x \<Longrightarrow> x = (call_name c i, False)"
  by (cases x) (auto simp: client_ok_def call_name_def um_find_def dest: map_of_SomeD)

lemma client_read_run:
  assumes ok: "client_ok c" and objs: "do_read F bs (pac c) = (map response_message rs, Inr u)"
    and rs: "distinct (map rs_id rs)"
      "\<forall>r\<in>set rs. rs_id r < 2 ^ 32 \<and> um_find (rs_id r) (ongoing_calls c) \<noteq> None"
  shows "\<exists>c'. client_read F bs c = Inr c' \<and> client_ok c' \<and> pac c' = u \<and>
    settled c' = settled c @ map (\<lambda>r. (rs_id r, outcome_of (call_name c (rs_id r)) r)) rs \<and>
    (\<forall>k. um_find k (ongoing_calls c') = (if k \<in> rs_id ` set rs then None else um_find k (ongoing_calls c)))"
proof -
  have keys: "distinct (map fst (ongoing_calls c))" using ok by (simp add: client_ok_def)
  have "\<forall>r\<in>set rs. rs_id r < 2 ^ 32 \<and> (\<exists>name. um_find (rs_id r) (ongoing_calls c) = Some (name, False))"
    using rs(2) client_okD[OF ok] by (metis not_None_eq)
  from handle_all[OF rs(1) keys this] obtain calls where calls:
    "rfold handle_response (map response_message rs) c = Inr (c\<lparr>ongoing_calls := calls,
       settled := settled c @ map (\<lambda>r. (rs_id r, outcome_of (call_name c (rs_id r)) r)) rs\<rparr>)"
    "distinct (map fst calls)"
    "\<forall>k. um_find k calls = (if k \<in> rs_id ` set rs then Some (call_name c k, True) else um_find k (ongoing_calls c))"
    by blast
  let ?left = "filter (\<lambda>(i, name, satisfied). \<not> satisfied) calls"
  have left: "um_find k ?left = (if k \<in> rs_id ` set rs then None else um_find k (ongoing_calls c))" for k
    unfolding filter_unsettled[OF calls(2)] calls(3)[rule_format]
    using client_okD[OF ok, of k] by (cases "um_find k (ongoing_calls c)") auto
  have "distinct (map fst ?left)" by (rule distinct_map_filter[OF calls(2)])
  then show ?thesis
    using objs calls(1) left
    by (intro exI[of _ "c\<lparr>ongoing_calls := ?left,
          settled := settled c @ map (\<lambda>r. (rs_id r, outcome_of (call_name c (rs_id r)) r)) rs, pac := u\<rparr>"])
      (auto simp: client_read_def client_ok_def)
qed

lemma client_reads_run:
  "client_ok c \<Longrightarrow> do_reads F chunks (pac c) = (map response_message rs, Inr u) \<Longrightarrow> distinct (map rs_id rs) \<Longrightarrow>
    \<forall>r\<in>set rs. rs_id r < 2 ^ 32 \<and> um_find (rs_id r) (ongoing_calls c) \<noteq> None \<Longrightarrow>
    \<exists>c'. client_reads F chunks c = Inr c' \<and> client_ok c' \<and> pac c' = u \<and>
      settled c' = settled c @ map (\<lambda>r. (rs_id r, outcome_of (call_name c (rs_id r)) r)) rs \<and>
      (\<forall>k. um_find k (ongoing_calls c') = (if k \<in> rs_id ` set rs then None else um_find k (ongoing_calls c)))"
proof (induction chunks arbitrary: c rs)
  case Nil
  then show ?case by (simp add: client_reads_def)
next
  case (Cons bs chunks)
  obtain objs u1 objs' where d: "do_read F bs (pac c) = (objs, Inr u1)" "do_reads F chunks u1 = (objs', Inr u)"
    "objs @ objs' = map response_message rs"
    using Cons.prems(2) by (auto split: prod.splits sum.splits)
  obtain rs1 rs2 where rs: "rs = rs1 @ rs2" "objs = map response_message rs1" "objs' = map response_message rs2"
    using d(3) by (metis append_eq_map_conv)
  obtain c1 where c1: "client_read F bs c = Inr c1" "client_ok c1" "pac c1 = u1"
    "settled c1 = settled c @ map (\<lambda>r. (rs_id r, outcome_of (call_name c (rs_id r)) r)) rs1"
    "\<forall>k. um_find k (ongoing_calls c1) = (if k \<in> rs_id ` set rs1 then None else um_find k (ongoing_calls c))"
    using client_read_run[OF Cons.prems(1) d(1)[unfolded rs(2)]] Cons.prems(3,4) unfolding rs(1) by auto
  have fresh: "rs_id r \<notin> rs_id ` set rs1" if "r \<in> set rs2" for r
    using Cons.prems(3) that unfolding rs(1) by (auto simp: image_iff)
  have pending: "\<forall>r\<in>set rs2. rs_id r < 2 ^ 32 \<and> um_find (rs_id r) (ongoing_calls c1) \<noteq> None"
    using Cons.prems(4) fresh c1(5) unfolding rs(1) by auto
  have names: "call_name c1 (rs_id r) = call_name c (rs_id r)" if "r \<in> set rs2" for r
    using fresh[OF that] c1(5) by (simp add: call_name_def)
  obtain c2 where c2: "client_reads F chunks c1 = Inr c2" "client_ok c2" "pac c2 = u"
    "settled c2 = settled c1 @ map (\<lambda>r. (rs_id r, outcome_of (call_name c1 (rs_id r)) r)) rs2"
    "\<forall>k. um_find k (ongoing_calls c2) = (if k \<in> rs_id ` set rs2 then None else um_find k (ongoing_calls c1))"
    using Cons.IH[OF c1(2) _ _ pending] d(2) c1(3) Cons.prems(3) unfolding rs by auto
  have "map (\<lambda>r. (rs_id r, outcome_of (call_name c1 (rs_id r)) r)) rs2 =
      map (\<lambda>r. (rs_id r, outcome_of (call_name c (rs_id r)) r)) rs2"
    using names by simp
  then show ?case
    using c1 c2 by (intro exI[of _ c2]) (auto simp: client_reads_def rs(1))
qed

text \<open>The server's side: a call is answered under its own number.\<close>

fun numbered_message :: "nat \<times> string \<times> msgpack_object \<Rightarrow> msgpack_object" where
  "numbered_message (i, name, args) = call_message i name args"

lemma convert_call_message:
  "i < 2 ^ 32 \<Longrightarrow> convert_call (call_message i name args) = Inr (i, name, args)"
  by (simp add: convert_call_def call_message_def tuple_members_def tuple_member_def convert_signed_def
      convert_unsigned_def convert_string_def)

lemma dispatch_call_message:
  assumes "i < 2 ^ 32" and "dispatch funcs (call_message i name args) s = Inr (r, s')"
  shows "rs_id r = i \<and> \<not> rs_empty r"
proof -
  have d: "server_dispatch_call funcs (call_message i name args) s = Inr (r, s')"
    using assms(2) by (simp add: dispatch_def via_size_def call_message_def)
  then show ?thesis
    using assms(1)
    by (auto simp: server_dispatch_call_def convert_call_message make_result_def make_error_def response_init_def
        rbind_Inr_iff split: option.splits sum.splits if_splits)
qed

lemma serve_calls:
  "\<forall>(i, name, args)\<in>set cs. i < 2 ^ 32 \<Longrightarrow> serve funcs (map numbered_message cs) s = Inr (rs, s') \<Longrightarrow>
    list_all2 (\<lambda>(i, name, args) r. \<exists>s1 s2. dispatch funcs (call_message i name args) s1 = Inr (r, s2)) cs rs"
proof (induction cs arbitrary: s rs s')
  case (Cons x cs)
  obtain i name args where x: "x = (i, name, args)" by (cases x) auto
  obtain r s1 rs1 where r: "dispatch funcs (call_message i name args) s = Inr (r, s1)"
    "serve funcs (map numbered_message cs) s1 = Inr (rs1, s')"
    "rs = (if rs_empty r then rs1 else r # rs1)"
    using Cons.prems(2) by (auto simp: x rbind_Inr_iff)
  have "\<not> rs_empty r" using dispatch_call_message[OF _ r(1)] Cons.prems(1) by (simp add: x)
  then show ?case using Cons.IH[OF _ r(2)] Cons.prems(1) r(1,3) by (auto simp: x)
qed simp

text \<open>The client's side: calls made one after another.\<close>

fun client_calls :: "(string \<times> bytes res) list \<Rightarrow> rpc_client \<Rightarrow> (bytes \<times> rpc_client) res" where
  "client_calls [] c = Inr ([], c)"
| "client_calls ((name, args) # calls) c =
     rbind (async_call name args c) (\<lambda>(b, c). rbind (client_calls calls c) (\<lambda>(bs, c). Inr (b @ bs, c)))"

definition numbered :: "nat \<Rightarrow> (string \<times> msgpack_object) list \<Rightarrow> (nat \<times> string \<times> msgpack_object) list" where
  "numbered n calls = enumerate (Suc n) calls"

lemma client_calls_run:
  "\<forall>(name, args)\<in>set calls. length name < 2 ^ 32 \<Longrightarrow> n + length calls < 2 ^ 31 \<Longrightarrow> call_idx c = int n \<Longrightarrow> client_ok c \<Longrightarrow>
    \<forall>k>n. um_find k (ongoing_calls c) = None \<Longrightarrow>
    \<exists>c'. client_calls (map (\<lambda>(name, args). (name, Inr (pack_object F args))) calls) c =
        Inr (concat (map (\<lambda>call. pack_object F (numbered_message call)) (numbered n calls)), c') \<and>
      client_ok c' \<and> pac c' = pac c \<and> settled c' = settled c \<and>
      (\<forall>k. um_find k (ongoing_calls c') =
         (if n < k \<and> k \<le> n + length calls then Some (fst (calls ! (k - Suc n)), False) else um_find k (ongoing_calls c)))"
proof (induction calls arbitrary: c n)
  case Nil
  then show ?case by (simp add: numbered_def)
next
  case (Cons x calls)
  obtain name args where x: "x = (name, args)" by (cases x) auto
  let ?c = "c\<lparr>call_idx := int (Suc n), ongoing_calls := um_insert (Suc n) (name, False) (ongoing_calls c)\<rparr>"
  have idx: "to_int32 (int n + 1) = int (Suc n)" using Cons.prems(2) by (simp add: to_int32_id)
  have one: "async_call name (Inr (pack_object F args)) c = Inr (pack_object F (call_message (Suc n) name args), ?c)"
    using call_packed[of "Suc n" name F args] Cons.prems(1,2,3)
    by (simp add: async_call_def call_buffer_def get_next_call_idx_def incr_call_idx_def client_post_def idx Let_def x flip: of_nat_Suc)
  have find: "um_find k (ongoing_calls ?c) = (if k = Suc n then Some (name, False) else um_find k (ongoing_calls c))" for k
    using Cons.prems(5) by (simp add: um_find_insert)
  have ok: "client_ok ?c"
    using Cons.prems(4,5) by (auto simp: client_ok_def distinct_um_insert um_insert_def um_find_def split: option.splits)
  obtain c' where c': "client_calls (map (\<lambda>(name, args). (name, Inr (pack_object F args))) calls) ?c =
      Inr (concat (map (\<lambda>call. pack_object F (numbered_message call)) (numbered (Suc n) calls)), c')"
    "client_ok c'" "pac c' = pac c" "settled c' = settled c"
    "\<forall>k. um_find k (ongoing_calls c') =
       (if Suc n < k \<and> k \<le> Suc n + length calls then Some (fst (calls ! (k - Suc (Suc n))), False)
        else um_find k (ongoing_calls ?c))"
    using Cons.IH[of "Suc n" ?c] Cons.prems(1,2) ok find Cons.prems(5) by auto
  have "um_find k (ongoing_calls c') =
      (if n < k \<and> k \<le> n + length (x # calls) then Some (fst ((x # calls) ! (k - Suc n)), False)
       else um_find k (ongoing_calls c))" for k
    unfolding c'(5)[rule_format] find using x by (auto simp: nth_Cons')
  then show ?case using c'(1-4) one by (simp add: x numbered_def)
qed

lemma numbered_ids: "(i, name, args) \<in> set (numbered n calls) \<Longrightarrow> n < i \<and> i \<le> n + length calls \<and> calls ! (i - Suc n) = (name, args)"
  by (auto simp: numbered_def in_set_enumerate_eq)

lemma numbered_nth: "k < length calls \<Longrightarrow> (Suc k, fst (calls ! k), snd (calls ! k)) \<in> set (numbered 0 calls)"
  by (auto simp: numbered_def in_set_enumerate_eq)

lemma map_fst_numbered: "map fst (numbered n calls) = [Suc n..<Suc n + length calls]"
  by (simp add: numbered_def)

lemma client_reads_responses:
  assumes "client_ok c" and "pac c = unpacker_new" and "distinct (map rs_id rs)"
    and "\<forall>r\<in>set rs. response_ok F r \<and> um_find (rs_id r) (ongoing_calls c) \<noteq> None"
    and "write_all F rs = Inr (concat chunks)"
  shows "\<exists>c'. client_reads F chunks c = Inr c' \<and> client_ok c' \<and> pac c' = unpacker_new \<and>
    settled c' = settled c @ map (\<lambda>r. (rs_id r, outcome_of (call_name c (rs_id r)) r)) rs \<and>
    (\<forall>k. um_find k (ongoing_calls c') = (if k \<in> rs_id ` set rs then None else um_find k (ongoing_calls c)))"
proof -
  have small: "\<forall>r\<in>set rs. rs_id r < 2 ^ 32" using assms(4) by (simp add: response_ok_def)
  have "concat chunks = concat (map (pack_object F) (map response_message rs))"
    using write_all_packed[OF small, of F] assms(5) by simp
  then have "do_reads F chunks unpacker_new = (map response_message rs, Inr unpacker_new)"
    by (rule do_reads_packed[rotated]) (use assms(4) response_message_parses in auto)
  then show ?thesis using client_reads_run[of c F chunks rs unpacker_new] assms(1-4) small by auto
qed

lemma empty_calls: "(\<forall>k. um_find k calls = None) \<Longrightarrow> calls = []"
  by (cases calls) (auto simp: um_find_def split: if_splits)

lemma executed_calls:
  assumes "mset order = mset (map numbered_message cs)" and "\<forall>(i, name, args)\<in>set cs. i < 2 ^ 32"
  obtains cs' where "mset cs' = mset cs" and "order = map numbered_message cs'"
proof -
  let ?m = numbered_message and ?inv = "\<lambda>msg. projr (convert_call msg)"
  have inv: "?inv (?m x) = x" if "x \<in> set cs" for x
    using assms(2) that by (cases x) (auto simp: convert_call_message)
  have "mset (map ?inv order) = image_mset ?inv (mset (map ?m cs))" using assms(1) by simp
  also have "\<dots> = mset (map (\<lambda>x. ?inv (?m x)) cs)" by (simp add: multiset.map_comp comp_def)
  also have "map (\<lambda>x. ?inv (?m x)) cs = cs" using inv by (simp add: map_idI)
  finally have "mset (map ?inv order) = mset cs" .
  moreover have "?m (?inv y) = y" if "y \<in> set order" for y
  proof -
    have "y \<in> ?m ` set cs" using that mset_eq_setD[OF assms(1)] by simp
    then show ?thesis using inv by (metis imageE)
  qed
  then have "order = map ?m (map ?inv order)" by (simp add: map_idI comp_def)
  ultimately show thesis by (rule that)
qed

lemma requests_parse:
  assumes calls: "\<forall>(name, args)\<in>set calls. length name < 2 ^ 32 \<and> sendable F args" "length calls < 2 ^ 31"
    and sent: "client_calls (map (\<lambda>(name, args). (name, Inr (pack_object F args))) calls) client_new = Inr (concat requests, c)"
  shows "do_reads F requests unpacker_new = (map numbered_message (numbered 0 calls), Inr unpacker_new)"
    and "client_ok c" and "pac c = unpacker_new" and "settled c = []"
    and "um_find k (ongoing_calls c) = (if 0 < k \<and> k \<le> length calls then Some (fst (calls ! (k - 1)), False) else None)"
    and "\<forall>(i, name, args)\<in>set (numbered 0 calls). i < 2 ^ 32"
proof -
  have names: "\<forall>(name, args)\<in>set calls. length name < 2 ^ 32" using calls(1) by auto
  have c: "concat requests = concat (map (pack_object F) (map numbered_message (numbered 0 calls)))" "client_ok c"
    "pac c = unpacker_new" "settled c = []"
    "\<forall>k. um_find k (ongoing_calls c) = (if 0 < k \<and> k \<le> length calls then Some (fst (calls ! (k - 1)), False) else None)"
    using client_calls_run[OF names, of 0 client_new F] calls(2) sent
    by (auto simp: client_new_def client_ok_def um_find_def comp_def)
  show "client_ok c" "pac c = unpacker_new" "settled c = []"
    "um_find k (ongoing_calls c) = (if 0 < k \<and> k \<le> length calls then Some (fst (calls ! (k - 1)), False) else None)"
    using c by blast+
  have members: "i < 2 ^ 32 \<and> (name, args) \<in> set calls" if "(i, name, args) \<in> set (numbered 0 calls)" for i name args
  proof -
    from numbered_ids[OF that] have i: "0 < i" "i \<le> length calls" "calls ! (i - Suc 0) = (name, args)" by simp_all
    then have "(name, args) \<in> set calls" using nth_mem[of "i - Suc 0" calls] by simp
    then show ?thesis using i(2) calls(2) by simp
  qed
  show "\<forall>(i, name, args)\<in>set (numbered 0 calls). i < 2 ^ 32" using members by blast
  have "valid_object F (numbered_message x) \<and> depth (numbered_message x) \<le> limit_size" if "x \<in> set (numbered 0 calls)" for x
  proof -
    obtain i name args where x: "x = (i, name, args)" by (cases x) auto
    have "i < 2 ^ 32" "length name < 2 ^ 32" "sendable F args" using members[of i name args] that calls(1) unfolding x by auto
    then show ?thesis using call_message_parses unfolding x by simp
  qed
  then have "\<forall>msg\<in>set (map numbered_message (numbered 0 calls)). valid_object F msg \<and> depth msg \<le> limit_size" by simp
  from do_reads_packed[OF this c(1)]
  show "do_reads F requests unpacker_new = (map numbered_message (numbered 0 calls), Inr unpacker_new)" .
qed

lemma served_ids:
  assumes "list_all2 (\<lambda>(i, name, args) r. \<exists>s1 s2. dispatch funcs (call_message i name args) s1 = Inr (r, s2)) cs rs"
    and "\<forall>(i, name, args)\<in>set cs. i < 2 ^ 32"
  shows "map rs_id rs = map fst cs"
  using assms
proof (induction rule: list_all2_induct)
  case (Cons x xs y ys)
  then show ?case using dispatch_call_message by fastforce
qed simp

lemma served_response:
  assumes "list_all2 (\<lambda>(i, name, args) r. \<exists>s1 s2. dispatch funcs (call_message i name args) s1 = Inr (r, s2)) cs rs"
    and "(i, name, args) \<in> set cs"
  obtains r s1 s2 where "r \<in> set rs" "dispatch funcs (call_message i name args) s1 = Inr (r, s2)"
  using assms
proof (induction arbitrary: thesis rule: list_all2_induct)
  case (Cons x xs y ys)
  show ?case
  proof (cases "x = (i, name, args)")
    case True
    then show thesis using Cons.hyps(1) by (auto intro: Cons.prems(1)[of y])
  next
    case False
    then have "(i, name, args) \<in> set xs" using Cons.prems(2) by simp
    then show thesis by (rule Cons.IH[rotated]) (auto intro: Cons.prems(1))
  qed
qed simp

text \<open>An example: a server that counts, called twice; its threads take the calls in the other order.\<close>

definition tick :: "nat bound_function" where
  "tick args n = Inr (POSITIVE_INTEGER (n + 1), n + 1)"

definition example_calls :: "(string \<times> msgpack_object) list" where
  "example_calls = [(''tick'', ARRAY []), (''get'', ARRAY [])]"

definition example_client :: rpc_client where
  "example_client = client_new\<lparr>call_idx := 2, ongoing_calls := [(2, ''get'', False), (1, ''tick'', False)]\<rparr>"

definition example_funcs :: "nat func_table" where
  "example_funcs = [(''tick'', 0, tick)]"

definition example_responses :: "response list" where
  "example_responses =
     [response_init\<lparr>rs_id := 2, rs_error := Some (STRING (not_found_text ''get'' 0))\<rparr>, make_result 1 (POSITIVE_INTEGER 8)]"

lemma not_found_small: "length (not_found_text ''get'' 0) = 67"
  by code_simp

lemma example_sent:
  "client_calls (map (\<lambda>(name, args). (name, Inr (pack_object zero_floats args))) example_calls) client_new =
    Inr (concat (map (pack_object zero_floats) (map numbered_message (numbered 0 example_calls))), example_client)"
proof -
  have "pack_members [pack_unsigned_char 0, pack_int 1, pack_string ''tick'', Inr (pack_object zero_floats (ARRAY []))] =
      Inr (pack_object zero_floats (call_message (Suc 0) ''tick'' (ARRAY [])))"
    using call_packed[of "Suc 0" "''tick''" zero_floats "ARRAY []"] by simp
  moreover have "pack_members [pack_unsigned_char 0, pack_int 2, pack_string ''get'', Inr (pack_object zero_floats (ARRAY []))] =
      Inr (pack_object zero_floats (call_message (Suc (Suc 0)) ''get'' (ARRAY [])))"
    using call_packed[of 2 "''get''" zero_floats "ARRAY []"] by (simp flip: numeral_2_eq_2)
  ultimately show ?thesis
    by (simp add: example_calls_def example_client_def client_new_def numbered_def async_call_def call_buffer_def get_next_call_idx_def incr_call_idx_def
        client_post_def um_insert_def um_find_def Let_def to_int32_id to_unsigned_def)
qed

lemma example_served:
  "serve example_funcs (map numbered_message (rev (numbered 0 example_calls))) 7 = Inr (example_responses, 8)"
  by (simp add: example_calls_def numbered_def call_message_def example_funcs_def dispatch_def via_size_def
      server_dispatch_call_def convert_call_message[unfolded call_message_def] um_find_def run_bound_def
      enforce_arg_count_def tick_def make_error_def object_string_def make_result_def response_init_def example_responses_def
      checked_get_container_size_def not_found_small)

lemma example_responses_ok: "\<forall>r\<in>set example_responses. response_ok zero_floats r"
  by (auto simp: example_responses_def response_ok_def response_init_def make_result_def not_found_small)

section \<open>Properties\<close>

text \<open>A client settles the promise of the call whose number a response carries: however the responses of its
  pending calls are ordered and cut into reads, every one of these calls receives the outcome of the response
  with its number, no other call is touched, and the answered calls leave the table.\<close>

theorem responses_settle_calls:
  assumes "client_ok c" and "pac c = unpacker_new" and "distinct (map rs_id rs)"
    and "\<forall>r\<in>set rs. response_ok F r \<and> um_find (rs_id r) (ongoing_calls c) \<noteq> None"
    and "write_all F rs = Inr (concat chunks)"
  shows "\<exists>c'. client_reads F chunks c = Inr c' \<and> client_ok c' \<and> pac c' = unpacker_new \<and>
    settled c' = settled c @ map (\<lambda>r. (rs_id r, outcome_of (call_name c (rs_id r)) r)) rs \<and>
    (\<forall>k. um_find k (ongoing_calls c') = (if k \<in> rs_id ` set rs then None else um_find k (ongoing_calls c)))"
  by (rule client_reads_responses[OF assms])

theorem responses_settle_calls_witness:
  "\<exists>bs c'. write_all zero_floats example_responses = Inr bs \<and>
    client_reads zero_floats [take 5 bs, drop 5 bs] example_client = Inr c' \<and>
    settled c' = [(2, RpcError ''get'' (STRING (not_found_text ''get'' 0))), (1, Value (POSITIVE_INTEGER 8))]"
proof -
  let ?bs = "concat (map (pack_object zero_floats) (map response_message example_responses))"
  have w: "write_all zero_floats example_responses = Inr ?bs"
    by (rule write_all_packed) (use example_responses_ok in \<open>simp add: response_ok_def\<close>)
  have "\<exists>c'. client_reads zero_floats [take 5 ?bs, drop 5 ?bs] example_client = Inr c' \<and> client_ok c' \<and>
      pac c' = unpacker_new \<and>
      settled c' = settled example_client @
        map (\<lambda>r. (rs_id r, outcome_of (call_name example_client (rs_id r)) r)) example_responses \<and>
      (\<forall>k. um_find k (ongoing_calls c') =
        (if k \<in> rs_id ` set example_responses then None else um_find k (ongoing_calls example_client)))"
  proof (rule responses_settle_calls)
    show "client_ok example_client" "pac example_client = unpacker_new"
      by (simp_all add: example_client_def client_ok_def client_new_def)
    show "distinct (map rs_id example_responses)"
      by (simp add: example_responses_def make_result_def response_init_def)
    show "\<forall>r\<in>set example_responses. response_ok zero_floats r \<and> um_find (rs_id r) (ongoing_calls example_client) \<noteq> None"
      using example_responses_ok
      by (auto simp: example_responses_def make_result_def response_init_def example_client_def um_find_def)
    show "write_all zero_floats example_responses = Inr (concat [take 5 ?bs, drop 5 ?bs])" using w by simp
  qed
  then obtain c' where c': "client_reads zero_floats [take 5 ?bs, drop 5 ?bs] example_client = Inr c'"
    "settled c' = settled example_client @
        map (\<lambda>r. (rs_id r, outcome_of (call_name example_client (rs_id r)) r)) example_responses"
    by blast
  have "settled c' = [(2, RpcError ''get'' (STRING (not_found_text ''get'' 0))), (1, Value (POSITIVE_INTEGER 8))]"
    unfolding c'(2)
    by (simp add: example_client_def client_new_def example_responses_def call_name_def um_find_def outcome_of_def
        make_result_def response_init_def Let_def)
  with w c'(1) show ?thesis by blast
qed

text \<open>Every call is answered, exactly once, by its own response: a client makes any number of calls, their bytes
  are cut into reads anywhere, the threads of the server take the messages in any order, the responses are
  written in any order and cut into reads anywhere. Then each future receives one outcome, that of
  dispatching the message of its own call, and no call stays pending.\<close>

theorem every_call_answered:
  assumes calls: "\<forall>(name, args)\<in>set calls. length name < 2 ^ 32 \<and> sendable F args" "length calls < 2 ^ 31"
    and sent: "client_calls (map (\<lambda>(name, args). (name, Inr (pack_object F args))) calls) client_new = Inr (concat requests, c)"
    and order: "mset order = mset (fst (do_reads F requests unpacker_new))"
    and served: "serve funcs order s = Inr (resps, s')" "\<forall>r\<in>set resps. response_ok F r"
    and written: "mset ws = mset resps" "write_all F ws = Inr (concat answers)"
  shows "\<exists>c'. client_reads F answers c = Inr c' \<and> ongoing_calls c' = [] \<and>
    distinct (map fst (settled c')) \<and> fst ` set (settled c') = {1..length calls} \<and>
    (\<forall>k<length calls. \<exists>s1 s2 r. dispatch funcs (call_message (Suc k) (fst (calls ! k)) (snd (calls ! k))) s1 = Inr (r, s2) \<and>
       (Suc k, outcome_of (fst (calls ! k)) r) \<in> set (settled c'))"
proof -
  note sent = requests_parse[OF calls sent]
  have "mset order = mset (map numbered_message (numbered 0 calls))" using order sent(1) by simp
  then obtain cs where cs: "mset cs = mset (numbered 0 calls)" "order = map numbered_message cs"
    by (rule executed_calls[OF _ sent(6)])
  have small: "\<forall>(i, name, args)\<in>set cs. i < 2 ^ 32" using sent(6) mset_eq_setD[OF cs(1)] by simp
  have ran: "list_all2 (\<lambda>(i, name, args) r. \<exists>s1 s2. dispatch funcs (call_message i name args) s1 = Inr (r, s2)) cs resps"
    using served(1) cs(2) by (intro serve_calls[OF small]) simp
  have "mset (map rs_id ws) = mset (map fst (numbered 0 calls))"
    using written(1) cs(1) served_ids[OF ran small] by (metis mset_map)
  then have ids: "mset (map rs_id ws) = mset [1..<Suc (length calls)]" by (simp add: map_fst_numbered)
  have distinct: "distinct (map rs_id ws)" by (simp only: mset_eq_imp_distinct_iff[OF ids] distinct_upt)
  have range: "rs_id ` set ws = {1..length calls}" using mset_eq_setD[OF ids] by (auto simp: atLeastLessThanSuc_atLeastAtMost)
  have set_ws: "set ws = set resps" using written(1) by (rule mset_eq_setD)
  have "\<forall>r\<in>set ws. response_ok F r \<and> um_find (rs_id r) (ongoing_calls c) \<noteq> None"
  proof
    fix r assume r: "r \<in> set ws"
    then have "rs_id r \<in> {1..length calls}" using range by blast
    then show "response_ok F r \<and> um_find (rs_id r) (ongoing_calls c) \<noteq> None"
      using served(2) set_ws r sent(5)[of "rs_id r"] by auto
  qed
  from client_reads_responses[OF sent(2,3) distinct this written(2)] obtain c' where c': "client_reads F answers c = Inr c'"
    "settled c' = map (\<lambda>r. (rs_id r, outcome_of (call_name c (rs_id r)) r)) ws"
    "\<forall>k. um_find k (ongoing_calls c') = (if k \<in> rs_id ` set ws then None else um_find k (ongoing_calls c))"
    using sent(4) by auto
  have "ongoing_calls c' = []" by (rule empty_calls) (use c'(3) sent(5) range in auto)
  moreover have "\<exists>s1 s2 r. dispatch funcs (call_message (Suc k) (fst (calls ! k)) (snd (calls ! k))) s1 = Inr (r, s2) \<and>
      (Suc k, outcome_of (fst (calls ! k)) r) \<in> set (settled c')" if k: "k < length calls" for k
  proof -
    have "(Suc k, fst (calls ! k), snd (calls ! k)) \<in> set cs" using numbered_nth[OF k] mset_eq_setD[OF cs(1)] by simp
    from served_response[OF ran this] obtain r s1 s2 where r: "r \<in> set resps"
      "dispatch funcs (call_message (Suc k) (fst (calls ! k)) (snd (calls ! k))) s1 = Inr (r, s2)" .
    have "rs_id r = Suc k" using dispatch_call_message[OF _ r(2)] k calls(2) by simp
    moreover have "call_name c (Suc k) = fst (calls ! k)" using sent(5)[of "Suc k"] k by (simp add: call_name_def)
    ultimately have "(Suc k, outcome_of (fst (calls ! k)) r) \<in> set (settled c')"
      using r(1) set_ws c'(2) by (metis (no_types, lifting) image_eqI list.set_map)
    with r(2) show ?thesis by blast
  qed
  ultimately show ?thesis
    using c'(1,2) distinct range by (intro exI[of _ c']) (simp add: comp_def image_image)
qed

theorem every_call_answered_witness:
  "\<exists>requests answers c'. client_calls (map (\<lambda>(name, args). (name, Inr (pack_object zero_floats args))) example_calls) client_new =
      Inr (requests, example_client) \<and>
    write_all zero_floats (rev example_responses) = Inr answers \<and>
    client_reads zero_floats [answers] example_client = Inr c' \<and> ongoing_calls c' = []"
proof -
  let ?requests = "concat (map (pack_object zero_floats) (map numbered_message (numbered 0 example_calls)))"
  let ?answers = "concat (map (pack_object zero_floats) (map response_message (rev example_responses)))"
  have calls: "\<forall>(name, args)\<in>set example_calls. length name < 2 ^ 32 \<and> sendable zero_floats args"
    "length example_calls < 2 ^ 31"
    by (simp_all add: example_calls_def sendable_def limit_size_def)
  have sent: "client_calls (map (\<lambda>(name, args). (name, Inr (pack_object zero_floats args))) example_calls) client_new =
      Inr (concat [?requests], example_client)"
    using example_sent by simp
  have w: "write_all zero_floats (rev example_responses) = Inr ?answers"
    by (rule write_all_packed) (use example_responses_ok in \<open>simp add: response_ok_def\<close>)
  have "\<exists>c'. client_reads zero_floats [?answers] example_client = Inr c' \<and> ongoing_calls c' = [] \<and>
    distinct (map fst (settled c')) \<and> fst ` set (settled c') = {1..length example_calls} \<and>
    (\<forall>k<length example_calls. \<exists>s1 s2 r.
       dispatch example_funcs (call_message (Suc k) (fst (example_calls ! k)) (snd (example_calls ! k))) s1 = Inr (r, s2) \<and>
       (Suc k, outcome_of (fst (example_calls ! k)) r) \<in> set (settled c'))"
  proof (rule every_call_answered[OF calls sent _ example_served example_responses_ok])
    show "mset (map numbered_message (rev (numbered 0 example_calls))) =
        mset (fst (do_reads zero_floats [?requests] unpacker_new))"
      unfolding requests_parse(1)[OF calls sent] by (simp flip: rev_map)
    show "mset (rev example_responses) = mset example_responses" by simp
    show "write_all zero_floats (rev example_responses) = Inr (concat [?answers])" using w by simp
  qed
  then show ?thesis using sent w by auto
qed

end
