(* ===== verification/Transport.thy ===== *)
theory Transport
  imports Channel Rpc_Session
begin

text \<open>
  A client and its session, put together: the callers and their numbers, the two directions of the connection
  (\<open>Channel\<close>), the threads of the server that take the messages, and the strand that writes the responses
  (\<open>client.inl\<close>, \<open>client.cc\<close>, \<open>server_session.cc\<close> with \<open>async_writer.h\<close> and the input buffers below them). In
  \<open>Rpc_Session\<close> the phases follow each other; here they are steps that interleave in any way.

  A caller takes its number in two steps: \<open>get_next_call_idx\<close> increments the counter and then reads it. The action of the
  first step carries how many other callers are between their two steps; a run in which this is always 0 is one
  where only one thread at a time makes a call, as in HFetch, where \<open>RPC::call\<close> makes a client for each call.
\<close>

section \<open>The link\<close>

record 's link =
  lk_client :: rpc_client
  lk_counted :: "(string \<times> msgpack_object) list"
  lk_posted :: "(int \<times> string \<times> bytes) list"
  lk_up :: channel
  lk_tasks :: "msgpack_object list"
  lk_state :: 's
  lk_strand :: "response list"
  lk_down :: channel

definition link_new :: "memory \<Rightarrow> 's \<Rightarrow> 's link res" where
  "link_new mem s =
     rbind (channel_new mem) (\<lambda>up. rbind (channel_new mem) (\<lambda>down.
       Inr \<lparr>lk_client = client_new, lk_counted = [], lk_posted = [], lk_up = up, lk_tasks = [], lk_state = s,
            lk_strand = [], lk_down = down\<rparr>))"

datatype link_action =
    Counts nat string msgpack_object
  | Takes int
  | Posts int
  | Up channel_action
  | Handles msgpack_object
  | Responds response
  | Down channel_action
  | Forgets nat

text \<open>A task of the strand of the client is taken from anywhere in its queue, which has more runs than the order in which the
  tasks were posted.\<close>

inductive link_step :: "memory \<Rightarrow> float_bits \<Rightarrow> 's func_table \<Rightarrow> 's link \<Rightarrow> link_action \<Rightarrow> 's link \<Rightarrow> bool"
  for mem :: memory and F :: float_bits and funcs :: "'s func_table" where
  counts: "link_step mem F funcs l (Counts (length (lk_counted l)) name args)
    (l\<lparr>lk_client := incr_call_idx (lk_client l), lk_counted := lk_counted l @ [(name, args)]\<rparr>)"
| takes: "lk_counted l = cs1 @ (name, args) # cs2 \<Longrightarrow> idx = call_idx (lk_client l) \<Longrightarrow>
    call_buffer idx name (Inr (pack_object F args)) = Inr buffer \<Longrightarrow>
    link_step mem F funcs l (Takes idx) (l\<lparr>lk_counted := cs1 @ cs2, lk_posted := lk_posted l @ [(idx, name, buffer)]\<rparr>)"
| posts: "lk_posted l = ps1 @ (idx, name, buffer) # ps2 \<Longrightarrow> channel_step mem F (lk_up l) (Sent buffer) up \<Longrightarrow>
    link_step mem F funcs l (Posts idx)
      (l\<lparr>lk_client := client_post idx name (lk_client l), lk_posted := ps1 @ ps2, lk_up := up\<rparr>)"
| up_moves: "\<forall>data. a \<noteq> Sent data \<Longrightarrow> channel_step mem F (lk_up l) a up \<Longrightarrow>
    link_step mem F funcs l (Up a) (l\<lparr>lk_up := up, lk_tasks := lk_tasks l @ parsed_of a\<rparr>)"
| handles: "lk_tasks l = ts1 @ m # ts2 \<Longrightarrow> dispatch funcs m (lk_state l) = Inr (r, s) \<Longrightarrow>
    link_step mem F funcs l (Handles m)
      (l\<lparr>lk_tasks := ts1 @ ts2, lk_state := s, lk_strand := lk_strand l @ (if rs_empty r then [] else [r])\<rparr>)"
| responds: "lk_strand l = r # rs \<Longrightarrow> response_get_data F r = Inr bs \<Longrightarrow> channel_step mem F (lk_down l) (Sent bs) down \<Longrightarrow>
    link_step mem F funcs l (Responds r) (l\<lparr>lk_strand := rs, lk_down := down\<rparr>)"
| down_moves: "\<forall>data. a \<noteq> Sent data \<Longrightarrow> channel_step mem F (lk_down l) a down \<Longrightarrow>
    rfold handle_response (parsed_of a) (lk_client l) = Inr c \<Longrightarrow>
    link_step mem F funcs l (Down a) (l\<lparr>lk_down := down, lk_client := c\<rparr>)"
| forgets: "ongoing_calls (lk_client l) = xs @ (i, name, True) # ys \<Longrightarrow>
    link_step mem F funcs l (Forgets i) (l\<lparr>lk_client := (lk_client l)\<lparr>ongoing_calls := xs @ ys\<rparr>\<rparr>)"

inductive link_path :: "memory \<Rightarrow> float_bits \<Rightarrow> 's func_table \<Rightarrow> 's link \<Rightarrow> link_action list \<Rightarrow> 's link \<Rightarrow> bool"
  for mem :: memory and F :: float_bits and funcs :: "'s func_table" and l :: "'s link" where
  link_start: "link_path mem F funcs l [] l"
| link_next: "link_path mem F funcs l tr l1 \<Longrightarrow> link_step mem F funcs l1 a l2 \<Longrightarrow> link_path mem F funcs l (tr @ [a]) l2"

fun calls_of :: "link_action \<Rightarrow> (string \<times> msgpack_object) list" where
  "calls_of (Counts n name args) = [(name, args)]"
| "calls_of _ = []"

text \<open>No other thread is taking a number.\<close>

fun one_caller :: "link_action \<Rightarrow> bool" where
  "one_caller (Counts n name args) \<longleftrightarrow> n = 0"
| "one_caller _ \<longleftrightarrow> True"

text \<open>The steps that bring a call to its response: all but new calls, the destruction of messages and the clearing of the
  table.\<close>

fun working :: "link_action \<Rightarrow> bool" where
  "working (Counts n name args) = False"
| "working (Up a) = moving a"
| "working (Down a) = moving a"
| "working (Forgets i) = False"
| "working _ = True"

section \<open>The way of a call\<close>

text \<open>Where the calls of a run are: those that have their number, then those in the queue of the strand, sent, read by the
  server, handled, answered and read by the client.\<close>

record whereabouts =
  g_begun :: "(string \<times> msgpack_object) list"
  g_queue :: "(nat \<times> string \<times> msgpack_object) list"
  g_sent :: "(nat \<times> string \<times> msgpack_object) list"
  g_read :: nat
  g_tasks :: "(nat \<times> string \<times> msgpack_object) list"
  g_handled :: "(nat \<times> string \<times> msgpack_object) list"
  g_done :: "response list"
  g_settled :: nat

definition posting :: "float_bits \<Rightarrow> nat \<times> string \<times> msgpack_object \<Rightarrow> int \<times> string \<times> bytes" where
  "posting F c = (case c of (i, name, args) \<Rightarrow> (int i, name, pack_object F (call_message i name args)))"

definition ran :: "float_bits \<Rightarrow> nat \<Rightarrow> 's func_table \<Rightarrow> nat \<times> string \<times> msgpack_object \<Rightarrow> response \<Rightarrow> bool" where
  "ran F B funcs c r \<longleftrightarrow> (case c of (i, name, args) \<Rightarrow>
     response_ok F r \<and> length (pack_object F (response_message r)) \<le> B \<and> rs_id r = i \<and>
     (\<exists>s s'. dispatch funcs (call_message i name args) s = Inr (r, s')))"

definition settlement :: "nat \<times> string \<times> msgpack_object \<Rightarrow> response \<Rightarrow> nat \<times> call_outcome" where
  "settlement c r = (case c of (i, name, args) \<Rightarrow> (i, outcome_of name r))"

definition caller_side :: "float_bits \<Rightarrow> (string \<times> msgpack_object) list \<Rightarrow> whereabouts \<Rightarrow> 's link \<Rightarrow> bool" where
  "caller_side F calls g l \<longleftrightarrow>
     call_idx (lk_client l) = int (length calls) \<and> length (lk_counted l) \<le> 1 \<and> calls = g_begun g @ lk_counted l \<and>
     lk_posted l = map (posting F) (g_queue g) \<and> mset (g_queue g) + mset (g_sent g) = mset (numbered 0 (g_begun g))"

definition server_side :: "memory \<Rightarrow> float_bits \<Rightarrow> nat \<Rightarrow> 's func_table \<Rightarrow> whereabouts \<Rightarrow> 's link \<Rightarrow> bool" where
  "server_side mem F B funcs g l \<longleftrightarrow>
     channel_ok mem F (map numbered_message (g_sent g)) (map numbered_message (take (g_read g) (g_sent g))) (lk_up l) \<and>
     lk_tasks l = map numbered_message (g_tasks g) \<and> mset (g_tasks g) + mset (g_handled g) = mset (take (g_read g) (g_sent g)) \<and>
     list_all2 (ran F B funcs) (g_handled g) (g_done g @ lk_strand l)"

definition entry_ok :: "(nat \<times> string \<times> bool) list \<Rightarrow> nat set \<Rightarrow> nat \<times> string \<times> msgpack_object \<Rightarrow> bool" where
  "entry_ok table answered c \<longleftrightarrow> (case c of (i, name, args) \<Rightarrow>
     if i \<in> answered then um_find i table \<in> {None, Some (name, True)} else um_find i table = Some (name, False))"

lemma entry_ok_cong:
  "um_find (fst c) table = um_find (fst c) table' \<Longrightarrow> fst c \<in> answered \<longleftrightarrow> fst c \<in> answered' \<Longrightarrow>
    entry_ok table answered c = entry_ok table' answered' c"
  by (cases c) (simp add: entry_ok_def)

definition client_side :: "memory \<Rightarrow> float_bits \<Rightarrow> whereabouts \<Rightarrow> 's link \<Rightarrow> bool" where
  "client_side mem F g l \<longleftrightarrow>
     channel_ok mem F (map response_message (g_done g)) (map response_message (take (g_settled g) (g_done g))) (lk_down l) \<and>
     settled (lk_client l) = map2 settlement (take (g_settled g) (g_handled g)) (take (g_settled g) (g_done g)) \<and>
     distinct (map fst (ongoing_calls (lk_client l))) \<and>
     (\<forall>c\<in>set (g_sent g). entry_ok (ongoing_calls (lk_client l)) (fst ` set (take (g_settled g) (g_handled g))) c) \<and>
     (\<forall>i. i \<notin> fst ` set (g_sent g) \<longrightarrow> um_find i (ongoing_calls (lk_client l)) = None)"

definition link_inv ::
  "memory \<Rightarrow> float_bits \<Rightarrow> nat \<Rightarrow> 's func_table \<Rightarrow> (string \<times> msgpack_object) list \<Rightarrow> whereabouts \<Rightarrow> 's link \<Rightarrow> bool" where
  "link_inv mem F B funcs calls g l \<longleftrightarrow>
     caller_side F calls g l \<and> server_side mem F B funcs g l \<and> client_side mem F g l \<and>
     g_settled g \<le> length (g_done g) \<and> g_read g \<le> length (g_sent g)"

text \<open>Calls that can be sent, and whose handlers return an answer that can be sent; no message has more than \<open>B\<close> bytes.\<close>

definition answerable :: "float_bits \<Rightarrow> nat \<Rightarrow> 's func_table \<Rightarrow> (string \<times> msgpack_object) list \<Rightarrow> bool" where
  "answerable F B funcs calls \<longleftrightarrow> length calls < 2 ^ 31 \<and> length calls * B < 2 ^ 63 \<and>
     (\<forall>(name, args)\<in>set calls. length name < 2 ^ 32 \<and> sendable F args \<and>
        (\<forall>i<2 ^ 32. length (pack_object F (call_message i name args)) \<le> B \<and>
           (\<forall>s. \<exists>r s'. dispatch funcs (call_message i name args) s = Inr (r, s') \<and> response_ok F r \<and>
              length (pack_object F (response_message r)) \<le> B)))"

lemma answerableD:
  assumes "answerable F B funcs calls" and "(i, name, args) \<in> set (numbered 0 calls)"
  shows "0 < i" and "i < 2 ^ 31" and "length name < 2 ^ 32" and "sendable F args"
    and "length (pack_object F (call_message i name args)) \<le> B"
    and "\<exists>r s'. dispatch funcs (call_message i name args) s = Inr (r, s') \<and> response_ok F r \<and>
      length (pack_object F (response_message r)) \<le> B"
proof -
  have i: "0 < i" "i \<le> length calls" "calls ! (i - Suc 0) = (name, args)" using numbered_ids[OF assms(2)] by simp_all
  then have "(name, args) \<in> set calls" using nth_mem[of "i - Suc 0" calls] by simp
  then have "length name < 2 ^ 32 \<and> sendable F args \<and>
      (\<forall>i<2 ^ 32. length (pack_object F (call_message i name args)) \<le> B \<and>
         (\<forall>s. \<exists>r s'. dispatch funcs (call_message i name args) s = Inr (r, s') \<and> response_ok F r \<and>
            length (pack_object F (response_message r)) \<le> B))"
    and n: "length calls < 2 ^ 31"
    using assms(1) by (auto simp: answerable_def)
  moreover have "i < 2 ^ 32" using i(2) n by simp
  ultimately show "length name < 2 ^ 32" "sendable F args" "length (pack_object F (call_message i name args)) \<le> B"
    "\<exists>r s'. dispatch funcs (call_message i name args) s = Inr (r, s') \<and> response_ok F r \<and>
      length (pack_object F (response_message r)) \<le> B"
    by blast+
  show "0 < i" "i < 2 ^ 31" using i n by simp_all
qed

lemma answerable_prefix: "answerable F B funcs (calls @ calls') \<Longrightarrow> answerable F B funcs calls"
  by (auto simp: answerable_def add_mult_distrib)

lemma numbered_snoc: "numbered 0 (calls @ [c]) = numbered 0 calls @ [(Suc (length calls), c)]"
  by (simp add: numbered_def enumerate_append_eq)

lemma distinct_numbered: "distinct (map fst (numbered 0 calls))"
  by (simp add: map_fst_numbered del: upt_Suc)

lemma whereabouts_ids:
  assumes "caller_side F calls g l" and "server_side mem F B funcs g l"
  shows "distinct (map fst (g_queue g @ g_sent g))" and "set (g_queue g) \<union> set (g_sent g) = set (numbered 0 (g_begun g))"
    and "distinct (map fst (g_tasks g @ g_handled g))" and "set (g_tasks g) \<union> set (g_handled g) = set (take (g_read g) (g_sent g))"
    and "map rs_id (g_done g @ lk_strand l) = map fst (g_handled g)"
proof -
  have m: "mset (g_queue g @ g_sent g) = mset (numbered 0 (g_begun g))" using assms(1) by (simp add: caller_side_def)
  then have "mset (map fst (g_queue g @ g_sent g)) = mset (map fst (numbered 0 (g_begun g)))" by (simp only: mset_map)
  then show d: "distinct (map fst (g_queue g @ g_sent g))" using distinct_numbered mset_eq_imp_distinct_iff by blast
  show "set (g_queue g) \<union> set (g_sent g) = set (numbered 0 (g_begun g))" using mset_eq_setD[OF m] by simp
  have m': "mset (g_tasks g @ g_handled g) = mset (take (g_read g) (g_sent g))" using assms(2) by (simp add: server_side_def)
  then have "mset (map fst (g_tasks g @ g_handled g)) = mset (map fst (take (g_read g) (g_sent g)))" by (simp only: mset_map)
  moreover have "distinct (map fst (take (g_read g) (g_sent g)))" using d by (simp add: distinct_take flip: take_map)
  ultimately show "distinct (map fst (g_tasks g @ g_handled g))" using mset_eq_imp_distinct_iff by blast
  show "set (g_tasks g) \<union> set (g_handled g) = set (take (g_read g) (g_sent g))" using mset_eq_setD[OF m'] by simp
  have "list_all2 (ran F B funcs) (g_handled g) (g_done g @ lk_strand l)" using assms(2) by (simp add: server_side_def)
  then show "map rs_id (g_done g @ lk_strand l) = map fst (g_handled g)"
    by (induction rule: list_all2_induct) (auto simp: ran_def)
qed

text \<open>What was parsed last is what follows in the list of messages.\<close>

lemma parsed_take:
  assumes "prefix (map f (take k xs) @ ys) (map f xs)" and "k \<le> length xs"
  shows "ys = map f (take (length ys) (drop k xs))" and "map f (take k xs) @ ys = map f (take (k + length ys) xs)"
    and "k + length ys \<le> length xs"
proof -
  from assms(1) obtain zs where "map f xs = map f (take k xs) @ ys @ zs" by (auto simp: prefix_def)
  moreover have "map f xs = map f (take k xs) @ map f (drop k xs)" by (metis append_take_drop_id map_append)
  ultimately have d: "map f (drop k xs) = ys @ zs" by simp
  then have "take (length ys) (map f (drop k xs)) = ys" by simp
  then show ys: "ys = map f (take (length ys) (drop k xs))" by (simp add: take_map)
  have "length (drop k xs) = length (ys @ zs)" using arg_cong[OF d, of length] by simp
  then show "k + length ys \<le> length xs" using assms(2) by simp
  have "map f (take (k + length ys) xs) = map f (take k xs) @ map f (take (length ys) (drop k xs))"
    by (simp add: take_add)
  then show "map f (take k xs) @ ys = map f (take (k + length ys) xs)" using ys by simp
qed

lemma parsable_requests:
  assumes "caller_side F calls g l" and "server_side mem F B funcs g l" and "answerable F B funcs calls"
  shows "parsable F (map numbered_message (g_sent g))"
proof -
  have begun: "answerable F B funcs (g_begun g)"
    using assms(1,3) answerable_prefix unfolding caller_side_def by metis
  have m: "mset (g_queue g) + mset (g_sent g) = mset (numbered 0 (g_begun g))" using assms(1) by (simp add: caller_side_def)
  have "size (mset (g_queue g)) + size (mset (g_sent g)) = size (mset (numbered 0 (g_begun g)))"
    using arg_cong[OF m, of size] by (simp only: size_union)
  then have "length (g_sent g) \<le> length (numbered 0 (g_begun g))" by simp
  moreover have "length (numbered 0 (g_begun g)) < 2 ^ 31" using begun by (simp add: answerable_def numbered_def)
  moreover have "valid_object F (numbered_message c) \<and> depth (numbered_message c) \<le> limit_size" if "c \<in> set (g_sent g)" for c
  proof -
    obtain i name args where c: "c = (i, name, args)" by (cases c)
    have "(i, name, args) \<in> set (numbered 0 (g_begun g))" using that whereabouts_ids(2)[OF assms(1,2)] c by blast
    from answerableD[OF begun this] show ?thesis using call_message_parses[of i name F args] c by simp
  qed
  ultimately show ?thesis by (auto simp: parsable_def)
qed

lemma parsable_responses:
  assumes "caller_side F calls g l" and "server_side mem F B funcs g l" and "answerable F B funcs calls"
  shows "parsable F (map response_message (g_done g))" and "\<forall>r\<in>set (g_done g @ lk_strand l). response_ok F r"
proof -
  have all: "list_all2 (ran F B funcs) (g_handled g) (g_done g @ lk_strand l)" using assms(2) by (simp add: server_side_def)
  then show ok: "\<forall>r\<in>set (g_done g @ lk_strand l). response_ok F r"
    by (induction rule: list_all2_induct) (auto simp: ran_def)
  have "size (mset (g_tasks g)) + size (mset (g_handled g)) = size (mset (take (g_read g) (g_sent g)))"
    using assms(2) unfolding server_side_def by (metis size_union)
  then have "length (g_handled g) \<le> length (g_sent g)" by simp
  moreover have "length (g_done g) \<le> length (g_handled g)" using list_all2_lengthD[OF all] by simp
  moreover have "length (g_sent g) + 3 < 2 ^ 32" using parsable_requests[OF assms] by (simp add: parsable_def)
  ultimately show "parsable F (map response_message (g_done g))"
    using ok response_message_parses by (auto simp: parsable_def)
qed

text \<open>No direction carries more bytes than fit.\<close>

lemma written_bytes:
  assumes "\<forall>obj\<in>set objs. length (pack_object F obj) \<le> B" and "length objs \<le> n" and "n * B < 2 ^ 63"
  shows "length (concat (map (pack_object F) objs)) < 2 ^ 63"
proof -
  have "length (concat (map (pack_object F) objs)) \<le> length objs * B" using assms(1) by (induction objs) auto
  also have "\<dots> \<le> n * B" using assms(2) by simp
  finally show ?thesis using assms(3) by simp
qed

lemma written_sizes:
  assumes "caller_side F calls g l" and "server_side mem F B funcs g l" and "answerable F B funcs calls"
  shows "length (concat (map (pack_object F) (map numbered_message (g_sent g)))) < 2 ^ 63"
    and "length (concat (map (pack_object F) (map response_message (g_done g)))) < 2 ^ 63"
proof -
  have begun: "answerable F B funcs (g_begun g)"
    using assms(1,3) answerable_prefix unfolding caller_side_def by metis
  have m: "mset (g_queue g) + mset (g_sent g) = mset (numbered 0 (g_begun g))" using assms(1) by (simp add: caller_side_def)
  have "size (mset (g_queue g)) + size (mset (g_sent g)) = size (mset (numbered 0 (g_begun g)))"
    using arg_cong[OF m, of size] by (simp only: size_union)
  then have few: "length (g_sent g) \<le> length (g_begun g)" by (simp add: numbered_def)
  have "length (pack_object F (numbered_message c)) \<le> B" if "c \<in> set (g_sent g)" for c
  proof -
    obtain i name args where c: "c = (i, name, args)" by (cases c)
    have "(i, name, args) \<in> set (numbered 0 (g_begun g))" using that whereabouts_ids(2)[OF assms(1,2)] c by blast
    from answerableD(5)[OF begun this] show ?thesis by (simp add: c del: pack_object.simps)
  qed
  then show "length (concat (map (pack_object F) (map numbered_message (g_sent g)))) < 2 ^ 63"
    using few begun by (intro written_bytes[of _ F B "length (g_begun g)"]) (auto simp: answerable_def)
  have all: "list_all2 (ran F B funcs) (g_handled g) (g_done g @ lk_strand l)" using assms(2) by (simp add: server_side_def)
  then have "\<forall>r\<in>set (g_done g @ lk_strand l). length (pack_object F (response_message r)) \<le> B"
    by (induction rule: list_all2_induct) (auto simp: ran_def)
  moreover have "size (mset (g_tasks g)) + size (mset (g_handled g)) = size (mset (take (g_read g) (g_sent g)))"
    using assms(2) unfolding server_side_def by (metis size_union)
  then have "length (g_done g) \<le> length (g_begun g)" using few list_all2_lengthD[OF all] by simp
  ultimately show "length (concat (map (pack_object F) (map response_message (g_done g)))) < 2 ^ 63"
    using begun by (intro written_bytes[of _ F B "length (g_begun g)"]) (auto simp: answerable_def)
qed

lemma reads_small:
  assumes "channel_step mem F ch a ch'" and "channel_ok mem F objs got ch"
    and "length (concat (map (pack_object F) objs)) < 2 ^ 63"
  shows "ch_read ch' < 2 ^ 63"
  using channel_step_read[OF assms(1)] channel_read_bound[OF assms(2)] assms(3) by linarith

text \<open>What is left to do, the earlier parts of the way first.\<close>

definition efforts :: "float_bits \<Rightarrow> (whereabouts \<times> 's link \<Rightarrow> nat) list" where
  "efforts F =
     [\<lambda>(g, l). length (lk_counted l), \<lambda>(g, l). length (lk_posted l),
      \<lambda>(g, l). remaining F (map numbered_message (g_sent g)) (map numbered_message (take (g_read g) (g_sent g))) (lk_up l),
      \<lambda>(g, l). length (lk_tasks l), \<lambda>(g, l). length (lk_strand l),
      \<lambda>(g, l). remaining F (map response_message (g_done g)) (map response_message (take (g_settled g) (g_done g))) (lk_down l)]"

section \<open>Every step keeps the whereabouts\<close>

lemma counts_keeps:
  assumes "link_inv mem F B funcs calls g l" and "lk_counted l = []" and "length calls + 1 < 2 ^ 31"
  shows "link_inv mem F B funcs (calls @ [(name, args)]) g
    (l\<lparr>lk_client := incr_call_idx (lk_client l), lk_counted := lk_counted l @ [(name, args)]\<rparr>)"
  using assms
  by (simp add: link_inv_def caller_side_def server_side_def client_side_def incr_call_idx_def to_int32_id)

lemma takes_keeps:
  assumes "link_inv mem F B funcs calls g l" and "lk_counted l = cs1 @ (name, args) # cs2" and "answerable F B funcs calls"
    and "call_buffer (call_idx (lk_client l)) name (Inr (pack_object F args)) = Inr buffer"
    and "l' = l\<lparr>lk_counted := cs1 @ cs2, lk_posted := lk_posted l @ [(call_idx (lk_client l), name, buffer)]\<rparr>"
  shows "\<exists>g'. link_inv mem F B funcs calls g' l' \<and> ((g', l'), (g, l)) \<in> measures (efforts F)"
proof -
  have c: "call_idx (lk_client l) = int (length calls)" "calls = g_begun g @ lk_counted l" "length (lk_counted l) \<le> 1"
    "lk_posted l = map (posting F) (g_queue g)" "mset (g_queue g) + mset (g_sent g) = mset (numbered 0 (g_begun g))"
    using assms(1) by (simp_all add: link_inv_def caller_side_def)
  then have calls: "calls = g_begun g @ [(name, args)]" "cs1 = []" "cs2 = []"
    using assms(2) by (simp_all add: append_eq_Cons_conv)
  then have "(length calls, name, args) \<in> set (numbered 0 calls)" by (simp add: numbered_snoc)
  note a = answerableD[OF assms(3) this]
  have "buffer = pack_object F (call_message (length calls) name args)"
    using assms(4) call_packed[OF a(2,3), of F args] c(1) by (simp add: call_buffer_def)
  moreover have "mset (numbered 0 calls) = add_mset (length calls, name, args) (mset (numbered 0 (g_begun g)))"
    using calls(1) by (simp add: numbered_snoc)
  ultimately have "caller_side F calls (g\<lparr>g_begun := calls, g_queue := g_queue g @ [(length calls, name, args)]\<rparr>) l'"
    using c(1,4) c(5)[symmetric] calls(2,3) by (simp add: caller_side_def posting_def assms(5))
  then show ?thesis
    using assms(1,2) by (intro exI[of _ "g\<lparr>g_begun := calls, g_queue := g_queue g @ [(length calls, name, args)]\<rparr>"])
      (simp add: link_inv_def server_side_def client_side_def efforts_def assms(5))
qed

lemma posts_keeps:
  assumes inv: "link_inv mem F B funcs calls g l" and posted: "lk_posted l = ps1 @ (idx, name, buffer) # ps2"
    and sent: "channel_step mem F (lk_up l) (Sent buffer) up" and ans: "answerable F B funcs calls"
    and l': "l' = l\<lparr>lk_client := client_post idx name (lk_client l), lk_posted := ps1 @ ps2, lk_up := up\<rparr>"
  shows "\<exists>g'. link_inv mem F B funcs calls g' l' \<and> ((g', l'), (g, l)) \<in> measures (efforts F)"
proof -
  have sides: "caller_side F calls g l" "server_side mem F B funcs g l" "client_side mem F g l"
    and bounds: "g_settled g \<le> length (g_done g)" "g_read g \<le> length (g_sent g)"
    using inv by (simp_all add: link_inv_def)
  note ids = whereabouts_ids[OF sides(1,2)]
  have "map (posting F) (g_queue g) = ps1 @ (idx, name, buffer) # ps2"
    using sides(1) posted by (simp add: caller_side_def)
  then obtain q1 i args q2 where q: "g_queue g = q1 @ (i, name, args) # q2" "ps1 = map (posting F) q1" "ps2 = map (posting F) q2"
    "idx = int i" "buffer = pack_object F (call_message i name args)"
    by (auto simp: posting_def map_eq_append_conv map_eq_Cons_conv)
  let ?c = "(i, name, args)"
  let ?g = "g\<lparr>g_queue := q1 @ q2, g_sent := g_sent g @ [?c]\<rparr>"
  let ?l = "l\<lparr>lk_client := client_post idx name (lk_client l), lk_posted := ps1 @ ps2, lk_up := up\<rparr>"
  have "answerable F B funcs (g_begun g)" using sides(1) ans answerable_prefix unfolding caller_side_def by metis
  moreover have "?c \<in> set (numbered 0 (g_begun g))" using ids(2) q(1) by auto
  ultimately have "i < 2 ^ 31" using answerableD(2) by blast
  then have key: "to_unsigned 32 idx = i" using q(4) by (simp add: to_unsigned_def)
  have fresh: "i \<notin> fst ` set (g_sent g)" using ids(1) q(1) by auto
  have "set (take (g_settled g) (g_handled g)) \<subseteq> set (g_sent g)" using ids(4) set_take_subset by fast
  then have unanswered: "i \<notin> fst ` set (take (g_settled g) (g_handled g))" using fresh by blast
  have find: "um_find k (ongoing_calls (lk_client ?l)) =
      (if k = i then Some (name, False) else um_find k (ongoing_calls (lk_client l)))" for k
    using sides(3) fresh by (simp add: client_side_def client_post_def key um_find_insert)
  have "caller_side F calls ?g ?l" using sides(1) q(1-3) by (auto simp: caller_side_def client_post_def)
  moreover have "server_side mem F B funcs ?g ?l"
  proof -
    obtain w where w: "queue_write buffer (ch_writer (lk_up l)) = Inr w" "up = (lk_up l)\<lparr>ch_writer := w\<rparr>"
      using sent by (cases rule: channel_step.cases) auto
    have "channel_ok mem F (map numbered_message (g_sent g)) (map numbered_message (take (g_read g) (g_sent g))) (lk_up l)"
      using sides(2) by (simp add: server_side_def)
    from channel_ok_sends[OF this w(1)[unfolded q(5)]] show ?thesis
      using sides(2) w(2) bounds(2) by (simp add: server_side_def)
  qed
  moreover have "client_side mem F ?g ?l"
  proof -
    have entries: "entry_ok (ongoing_calls (lk_client ?l)) (fst ` set (take (g_settled g) (g_handled g))) c"
      if "c \<in> set (g_sent ?g)" for c
    proof (cases "c = ?c")
      case True
      then show ?thesis using unanswered find by (simp add: entry_ok_def)
    next
      case False
      then have "c \<in> set (g_sent g)" using that by simp
      then have old: "entry_ok (ongoing_calls (lk_client l)) (fst ` set (take (g_settled g) (g_handled g))) c" "fst c \<noteq> i"
        using sides(3) fresh by (auto simp: client_side_def)
      have "um_find (fst c) (ongoing_calls (lk_client ?l)) = um_find (fst c) (ongoing_calls (lk_client l))"
        unfolding find using old(2) by simp
      from entry_ok_cong[OF this refl] old(1) show ?thesis by blast
    qed
    have "distinct (map fst (ongoing_calls (lk_client ?l)))"
      using sides(3) by (simp add: client_side_def client_post_def distinct_um_insert)
    moreover have "settled (lk_client ?l) = settled (lk_client l)" by (simp add: client_post_def)
    moreover have "\<forall>k. k \<notin> fst ` set (g_sent ?g) \<longrightarrow> um_find k (ongoing_calls (lk_client ?l)) = None"
      using sides(3) unfolding find by (simp add: client_side_def)
    ultimately show ?thesis using sides(3) entries by (simp add: client_side_def)
  qed
  ultimately have "link_inv mem F B funcs calls ?g ?l" using bounds by (simp add: link_inv_def)
  moreover have "((?g, ?l), (g, l)) \<in> measures (efforts F)" by (simp add: efforts_def posted)
  ultimately show ?thesis unfolding l' by blast
qed

lemma up_keeps:
  assumes inv: "link_inv mem F B funcs calls g l" and step: "channel_step mem F (lk_up l) a up" "\<forall>data. a \<noteq> Sent data"
    and ans: "answerable F B funcs calls" and mem: "\<forall>n. mem n"
    and l': "l' = l\<lparr>lk_up := up, lk_tasks := lk_tasks l @ parsed_of a\<rparr>"
  shows "\<exists>g'. link_inv mem F B funcs calls g' l' \<and> (moving a \<longrightarrow> ((g', l'), (g, l)) \<in> measures (efforts F))"
proof -
  have sides: "caller_side F calls g l" "server_side mem F B funcs g l" "client_side mem F g l"
    and bounds: "g_settled g \<le> length (g_done g)" "g_read g \<le> length (g_sent g)"
    using inv by (simp_all add: link_inv_def)
  let ?m = numbered_message and ?n = "length (parsed_of a)"
  have old: "channel_ok mem F (map ?m (g_sent g)) (map ?m (take (g_read g) (g_sent g))) (lk_up l)"
    using sides(2) by (simp add: server_side_def)
  note ok = channel_ok_moves[OF step old parsable_requests[OF sides(1,2) ans] mem
    reads_small[OF step(1) old written_sizes(1)[OF sides(1,2) ans]]]
  then have "prefix (map ?m (take (g_read g) (g_sent g)) @ parsed_of a) (map ?m (g_sent g))" by (simp add: channel_ok_def)
  note new = parsed_take[OF this bounds(2)]
  let ?new = "take ?n (drop (g_read g) (g_sent g))"
  let ?g = "g\<lparr>g_read := g_read g + ?n, g_tasks := g_tasks g @ ?new\<rparr>"
  have "mset (g_tasks g @ ?new) + mset (g_handled g) = mset (take (g_read g + ?n) (g_sent g))"
    using sides(2) by (simp add: server_side_def take_add union_assoc union_commute union_lcomm)
  then have "server_side mem F B funcs ?g l'"
    using sides(2) ok new(1,2) by (simp add: server_side_def l')
  then have "link_inv mem F B funcs calls ?g l'"
    using sides(1,3) bounds new(3) by (simp add: link_inv_def caller_side_def client_side_def l')
  moreover have "((?g, l'), (g, l)) \<in> measures (efforts F)" if "moving a"
    using moving_decreases[OF step(1) that old ok] new(2) by (simp add: efforts_def l')
  ultimately show ?thesis by blast
qed

lemma handled_response:
  assumes "answerable F B funcs calls" and "(i, name, args) \<in> set (numbered 0 calls)"
    and "dispatch funcs (call_message i name args) s = Inr (r, s')"
  shows "ran F B funcs (i, name, args) r" and "\<not> rs_empty r"
proof -
  note a = answerableD[OF assms(1,2)]
  have "i < 2 ^ 32" using a(2) by simp
  from dispatch_call_message[OF this assms(3)] show "\<not> rs_empty r" and "ran F B funcs (i, name, args) r"
    using a(6)[of s] assms(3) by (auto simp: ran_def)
qed

lemma handles_keeps:
  assumes inv: "link_inv mem F B funcs calls g l" and task: "lk_tasks l = ts1 @ m # ts2"
    and run: "dispatch funcs m (lk_state l) = Inr (r, s)" and ans: "answerable F B funcs calls"
    and l': "l' = l\<lparr>lk_tasks := ts1 @ ts2, lk_state := s, lk_strand := lk_strand l @ (if rs_empty r then [] else [r])\<rparr>"
  shows "\<exists>g'. link_inv mem F B funcs calls g' l' \<and> ((g', l'), (g, l)) \<in> measures (efforts F)"
proof -
  have sides: "caller_side F calls g l" "server_side mem F B funcs g l" "client_side mem F g l"
    and bounds: "g_settled g \<le> length (g_done g)" "g_read g \<le> length (g_sent g)"
    using inv by (simp_all add: link_inv_def)
  note ids = whereabouts_ids[OF sides(1,2)]
  have "map numbered_message (g_tasks g) = ts1 @ m # ts2" using sides(2) task by (simp add: server_side_def)
  then obtain t1 c t2 where t: "g_tasks g = t1 @ c # t2" "ts1 = map numbered_message t1" "m = numbered_message c"
    "ts2 = map numbered_message t2"
    by (auto simp: map_eq_append_conv map_eq_Cons_conv)
  obtain i name args where c: "c = (i, name, args)" by (cases c)
  have "answerable F B funcs (g_begun g)" using sides(1) ans answerable_prefix unfolding caller_side_def by metis
  moreover have "c \<in> set (g_sent g)" using ids(4) t(1) set_take_subset by fastforce
  then have "c \<in> set (numbered 0 (g_begun g))" using ids(2) by blast
  ultimately have r: "ran F B funcs c r" "\<not> rs_empty r"
    using handled_response[of F B funcs "g_begun g" i name args "lk_state l" r s] run t(3) by (simp_all add: c)
  let ?g = "g\<lparr>g_tasks := t1 @ t2, g_handled := g_handled g @ [c]\<rparr>"
  let ?l = "l\<lparr>lk_tasks := ts1 @ ts2, lk_state := s, lk_strand := lk_strand l @ (if rs_empty r then [] else [r])\<rparr>"
  have served: "list_all2 (ran F B funcs) (g_handled g) (g_done g @ lk_strand l)" using sides(2) by (simp add: server_side_def)
  then have "list_all2 (ran F B funcs) (g_handled g @ [c]) ((g_done g @ lk_strand l) @ [r])"
    using r(1) by (intro list_all2_appendI) simp_all
  then have "server_side mem F B funcs ?g ?l" using sides(2) t r(2) by (simp add: server_side_def)
  moreover have "g_settled g \<le> length (g_handled g)" using bounds(1) list_all2_lengthD[OF served] by simp
  ultimately have "link_inv mem F B funcs calls ?g ?l"
    using sides(1,3) bounds by (simp add: link_inv_def caller_side_def client_side_def)
  moreover have "((?g, ?l), (g, l)) \<in> measures (efforts F)" by (simp add: efforts_def task)
  ultimately show ?thesis unfolding l' by blast
qed

lemma responds_keeps:
  assumes inv: "link_inv mem F B funcs calls g l" and strand: "lk_strand l = r # rs"
    and data: "response_get_data F r = Inr bs" and sent: "channel_step mem F (lk_down l) (Sent bs) down"
    and ans: "answerable F B funcs calls" and l': "l' = l\<lparr>lk_strand := rs, lk_down := down\<rparr>"
  shows "\<exists>g'. link_inv mem F B funcs calls g' l' \<and> ((g', l'), (g, l)) \<in> measures (efforts F)"
proof -
  have sides: "caller_side F calls g l" "server_side mem F B funcs g l" "client_side mem F g l"
    and bounds: "g_settled g \<le> length (g_done g)" "g_read g \<le> length (g_sent g)"
    using inv by (simp_all add: link_inv_def)
  have "rs_id r < 2 ^ 32" using parsable_responses(2)[OF sides(1,2) ans] strand by (simp add: response_ok_def)
  then have bs: "bs = pack_object F (response_message r)" using data response_packed[of r F] by simp
  obtain w where w: "queue_write bs (ch_writer (lk_down l)) = Inr w" "down = (lk_down l)\<lparr>ch_writer := w\<rparr>"
    using sent by (cases rule: channel_step.cases) auto
  have "channel_ok mem F (map response_message (g_done g)) (map response_message (take (g_settled g) (g_done g))) (lk_down l)"
    using sides(3) by (simp add: client_side_def)
  from channel_ok_sends[OF this w(1)[unfolded bs]] show ?thesis
    using sides bounds w(2) strand
    by (intro exI[of _ "g\<lparr>g_done := g_done g @ [r]\<rparr>"])
      (simp add: link_inv_def caller_side_def server_side_def client_side_def efforts_def l')
qed

text \<open>The response the client reads next is the first answer to a pending call.\<close>

lemma next_response:
  assumes inv: "link_inv mem F B funcs calls g l" and more: "g_settled g < length (g_done g)"
  obtains i name args where "g_settled g < length (g_handled g)" and "g_handled g ! g_settled g = (i, name, args)"
    and "(i, name, args) \<in> set (g_sent g)" and "i \<notin> fst ` set (take (g_settled g) (g_handled g))"
    and "handle_response (response_message (g_done g ! g_settled g)) (lk_client l) =
      Inr ((lk_client l)\<lparr>ongoing_calls := um_insert i (name, True) (um_erase i (ongoing_calls (lk_client l))),
        settled := settled (lk_client l) @ [(i, outcome_of name (g_done g ! g_settled g))]\<rparr>)"
proof -
  have sides: "caller_side F calls g l" "server_side mem F B funcs g l" "client_side mem F g l"
    using inv by (simp_all add: link_inv_def)
  note ids = whereabouts_ids[OF sides(1,2)]
  let ?j = "g_settled g" and ?t = "ongoing_calls (lk_client l)"
  let ?r = "g_done g ! ?j" and ?answered = "fst ` set (take ?j (g_handled g))"
  have served: "list_all2 (ran F B funcs) (g_handled g) (g_done g @ lk_strand l)" using sides(2) by (simp add: server_side_def)
  then have j: "?j < length (g_handled g)" using more list_all2_lengthD[OF served] by simp
  obtain i name args where h: "g_handled g ! ?j = (i, name, args)" by (cases "g_handled g ! ?j")
  have "ran F B funcs (i, name, args) ?r" using list_all2_nthD[OF served j] h more by (simp add: nth_append)
  then have r: "rs_id ?r = i" "rs_id ?r < 2 ^ 32" by (auto simp: ran_def response_ok_def)
  have "(i, name, args) \<in> set (g_handled g)" using nth_mem[OF j] h by simp
  then have sent: "(i, name, args) \<in> set (g_sent g)" using ids(4) set_take_subset by fast
  have "distinct (map fst (take (Suc ?j) (g_handled g)))" using ids(3) by (simp add: distinct_take flip: take_map)
  then have new: "i \<notin> ?answered" using h by (simp add: take_Suc_conv_app_nth[OF j])
  moreover have "entry_ok ?t ?answered (i, name, args)" using sides(3) sent by (simp add: client_side_def)
  ultimately have "um_find (rs_id ?r) ?t = Some (name, False)" by (simp add: entry_ok_def r(1))
  from that[OF j h sent new] handle_known[OF r(2) this] show thesis unfolding r(1) by blast
qed

lemma settles_keeps:
  assumes inv: "link_inv mem F B funcs calls g l"
    and more: "g_settled g < length (g_done g)"
    and ok: "channel_ok mem F (map response_message (g_done g))
      (map response_message (take (Suc (g_settled g)) (g_done g))) down"
    and handled: "handle_response (response_message (g_done g ! g_settled g)) (lk_client l) = Inr c"
  shows "link_inv mem F B funcs calls (g\<lparr>g_settled := Suc (g_settled g)\<rparr>) (l\<lparr>lk_down := down, lk_client := c\<rparr>)"
proof -
  have sides: "caller_side F calls g l" "server_side mem F B funcs g l" "client_side mem F g l"
    and bounds: "g_settled g \<le> length (g_done g)" "g_read g \<le> length (g_sent g)"
    using inv by (simp_all add: link_inv_def)
  note ids = whereabouts_ids[OF sides(1,2)]
  let ?j = "g_settled g" and ?t = "ongoing_calls (lk_client l)"
  let ?r = "g_done g ! ?j" and ?answered = "\<lambda>j. fst ` set (take j (g_handled g))"
  obtain i name args where j: "?j < length (g_handled g)" and h: "g_handled g ! ?j = (i, name, args)"
    and sent: "(i, name, args) \<in> set (g_sent g)"
    and c: "c = (lk_client l)\<lparr>ongoing_calls := um_insert i (name, True) (um_erase i ?t),
      settled := settled (lk_client l) @ [(i, outcome_of name ?r)]\<rparr>"
    by (rule next_response[OF inv more]) (use handled in simp)
  have find: "um_find k (ongoing_calls c) = (if k = i then Some (name, True) else um_find k ?t)" for k
    by (simp add: c um_find_insert um_find_erase)
  have take_h: "take (Suc ?j) (g_handled g) = take ?j (g_handled g) @ [(i, name, args)]"
    using take_Suc_conv_app_nth[OF j] h by simp
  have take_d: "take (Suc ?j) (g_done g) = take ?j (g_done g) @ [?r]" by (rule take_Suc_conv_app_nth[OF more])
  have entries: "entry_ok (ongoing_calls c) (?answered (Suc ?j)) x" if x: "x \<in> set (g_sent g)" for x
  proof (cases "fst x = i")
    case True
    have "inj_on fst (set (g_sent g))" using ids(1) by (simp add: distinct_map)
    from inj_onD[OF this _ x sent] have "x = (i, name, args)" using True by simp
    then show ?thesis by (simp add: entry_ok_def find take_h)
  next
    case False
    then have "fst x \<in> ?answered (Suc ?j) \<longleftrightarrow> fst x \<in> ?answered ?j" by (simp add: take_h)
    moreover have "um_find (fst x) (ongoing_calls c) = um_find (fst x) ?t" using False by (simp add: find)
    moreover have "entry_ok ?t (?answered ?j) x" using sides(3) x by (simp add: client_side_def)
    ultimately show ?thesis using entry_ok_cong by blast
  qed
  have "settled c = map2 settlement (take (Suc ?j) (g_handled g)) (take (Suc ?j) (g_done g))"
    using sides(3) j more by (simp add: client_side_def c take_h take_d settlement_def)
  moreover have "distinct (map fst (ongoing_calls c))"
    using sides(3) by (simp add: c client_side_def distinct_um_insert distinct_um_erase)
  moreover have "\<forall>k. k \<notin> fst ` set (g_sent g) \<longrightarrow> um_find k (ongoing_calls c) = None"
    using sides(3) sent unfolding find by (force simp: client_side_def)
  ultimately have "client_side mem F (g\<lparr>g_settled := Suc ?j\<rparr>) (l\<lparr>lk_down := down, lk_client := c\<rparr>)"
    using ok entries by (simp add: client_side_def)
  then show ?thesis
    using sides(1,2) more bounds(2) by (simp add: link_inv_def caller_side_def server_side_def c)
qed

lemma down_ok:
  assumes inv: "link_inv mem F B funcs calls g l" and step: "channel_step mem F (lk_down l) a down" "\<forall>data. a \<noteq> Sent data"
    and ans: "answerable F B funcs calls" and mem: "\<forall>n. mem n"
  obtains (moved) "parsed_of a = []" and
      "channel_ok mem F (map response_message (g_done g)) (map response_message (take (g_settled g) (g_done g))) down"
  | (response) "g_settled g < length (g_done g)" and "parsed_of a = [response_message (g_done g ! g_settled g)]" and
      "channel_ok mem F (map response_message (g_done g)) (map response_message (take (Suc (g_settled g)) (g_done g))) down"
proof -
  have sides: "caller_side F calls g l" "server_side mem F B funcs g l" "client_side mem F g l"
    and bounds: "g_settled g \<le> length (g_done g)"
    using inv by (simp_all add: link_inv_def)
  have old: "channel_ok mem F (map response_message (g_done g)) (map response_message (take (g_settled g) (g_done g))) (lk_down l)"
    using sides(3) by (simp add: client_side_def)
  note ok = channel_ok_moves[OF step old parsable_responses(1)[OF sides(1,2) ans] mem
    reads_small[OF step(1) old written_sizes(2)[OF sides(1,2) ans]]]
  then have "prefix (map response_message (take (g_settled g) (g_done g)) @ parsed_of a) (map response_message (g_done g))"
    by (simp add: channel_ok_def)
  note new = parsed_take[OF this bounds]
  have "parsed_of a = [] \<or> length (parsed_of a) = 1" by (cases a rule: parsed_of.cases) simp_all
  then show thesis
  proof
    assume one: "length (parsed_of a) = 1"
    then have more: "g_settled g < length (g_done g)" using new(3) by simp
    then have "take 1 (drop (g_settled g) (g_done g)) = [g_done g ! g_settled g]"
      by (simp add: take_Suc_conv_app_nth)
    then show thesis using response[OF more] new(1,2) ok one by simp
  qed (use ok moved in simp)
qed

lemma down_keeps:
  assumes inv: "link_inv mem F B funcs calls g l" and step: "channel_step mem F (lk_down l) a down" "\<forall>data. a \<noteq> Sent data"
    and ans: "answerable F B funcs calls" and mem: "\<forall>n. mem n"
    and handled: "rfold handle_response (parsed_of a) (lk_client l) = Inr c"
    and l': "l' = l\<lparr>lk_down := down, lk_client := c\<rparr>"
  shows "\<exists>g'. link_inv mem F B funcs calls g' l' \<and> (moving a \<longrightarrow> ((g', l'), (g, l)) \<in> measures (efforts F))"
proof -
  have old: "channel_ok mem F (map response_message (g_done g)) (map response_message (take (g_settled g) (g_done g))) (lk_down l)"
    using inv by (simp add: link_inv_def client_side_def)
  from inv step ans mem show ?thesis
  proof (cases rule: down_ok)
    case moved
    then have "link_inv mem F B funcs calls g l'"
      using inv handled by (simp add: link_inv_def caller_side_def server_side_def client_side_def l')
    moreover have "((g, l'), (g, l)) \<in> measures (efforts F)" if "moving a"
      using moving_decreases[OF step(1) that old] moved by (simp add: efforts_def l')
    ultimately show ?thesis by blast
  next
    case response
    then have "handle_response (response_message (g_done g ! g_settled g)) (lk_client l) = Inr c"
      using handled by (simp add: rbind_Inr_iff)
    from settles_keeps[OF inv response(1,3) this]
    have "link_inv mem F B funcs calls (g\<lparr>g_settled := Suc (g_settled g)\<rparr>) l'" unfolding l' .
    moreover have "map response_message (take (Suc (g_settled g)) (g_done g)) =
        map response_message (take (g_settled g) (g_done g)) @ parsed_of a"
      by (simp add: response(2) take_Suc_conv_app_nth[OF response(1)])
    then have "((g\<lparr>g_settled := Suc (g_settled g)\<rparr>, l'), (g, l)) \<in> measures (efforts F)" if "moving a"
      using moving_decreases[OF step(1) that old] response(3) by (simp add: efforts_def l')
    ultimately show ?thesis by blast
  qed
qed

lemma forgets_keeps:
  assumes inv: "link_inv mem F B funcs calls g l" and table: "ongoing_calls (lk_client l) = xs @ (i, name, True) # ys"
  shows "link_inv mem F B funcs calls g (l\<lparr>lk_client := (lk_client l)\<lparr>ongoing_calls := xs @ ys\<rparr>\<rparr>)"
proof -
  have side: "client_side mem F g l" using inv by (simp add: link_inv_def)
  let ?answered = "fst ` set (take (g_settled g) (g_handled g))" and ?t = "ongoing_calls (lk_client l)"
  have d: "distinct (map fst ?t)" using side by (simp add: client_side_def)
  have "map_of ?t i = Some (name, True)" by (rule map_of_is_SomeI[OF d]) (simp add: table)
  then have i: "um_find i ?t = Some (name, True)" by (simp add: um_find_def)
  have "\<forall>x\<in>set xs \<union> set ys. fst x \<noteq> i" using d by (force simp: table)
  then have "xs @ ys = um_erase i ?t" by (simp add: table um_erase_def)
  then have find: "um_find k (xs @ ys) = (if k = i then None else um_find k ?t)" for k by (simp add: um_find_erase)
  have "entry_ok (xs @ ys) ?answered x" if "x \<in> set (g_sent g)" for x
  proof (cases "fst x = i")
    case True
    have "entry_ok ?t ?answered x" using side that by (simp add: client_side_def)
    then show ?thesis using True i by (cases x) (simp add: entry_ok_def find split: if_splits)
  next
    case False
    have "entry_ok ?t ?answered x" using side that by (simp add: client_side_def)
    moreover have "um_find (fst x) (xs @ ys) = um_find (fst x) ?t" using False by (simp add: find)
    ultimately show ?thesis using entry_ok_cong[OF _ refl] by blast
  qed
  then have "client_side mem F g (l\<lparr>lk_client := (lk_client l)\<lparr>ongoing_calls := xs @ ys\<rparr>\<rparr>)"
    using side d by (auto simp: client_side_def table find)
  then show ?thesis using inv by (simp add: link_inv_def caller_side_def server_side_def)
qed

lemma link_step_keeps:
  assumes step: "link_step mem F funcs l a l'" and inv: "link_inv mem F B funcs calls g l" and one: "one_caller a"
    and ans: "answerable F B funcs (calls @ calls_of a)" and mem: "\<forall>n. mem n"
  shows "\<exists>g'. link_inv mem F B funcs (calls @ calls_of a) g' l' \<and> (working a \<longrightarrow> ((g', l'), (g, l)) \<in> measures (efforts F))"
  using step
proof (cases rule: link_step.cases)
  case (counts name args)
  then have "lk_counted l = []" using one by simp
  moreover have "length calls + 1 < 2 ^ 31" using ans by (simp add: counts(1) answerable_def)
  ultimately show ?thesis using counts_keeps[OF inv, of name args] counts by auto
next
  case (takes cs1 name args cs2 idx buffer)
  then show ?thesis using takes_keeps[OF inv takes(3) _ takes(5)[unfolded takes(4)]] ans by simp
next
  case (posts ps1 idx name buffer ps2 up)
  then show ?thesis using posts_keeps[OF inv posts(3,4)] ans by simp
next
  case (up_moves b up)
  then show ?thesis using up_keeps[OF inv up_moves(4,3) _ mem] ans by simp
next
  case (handles ts1 m ts2 r s)
  then show ?thesis using handles_keeps[OF inv handles(3,4)] ans by simp
next
  case (responds r rs bs down)
  then show ?thesis using responds_keeps[OF inv responds(3-5)] ans by simp
next
  case (down_moves b down c)
  then show ?thesis using down_keeps[OF inv down_moves(4,3) _ mem down_moves(5)] ans by simp
next
  case (forgets xs i name ys)
  then show ?thesis using forgets_keeps[OF inv forgets(3)] by auto
qed

lemma link_new_inv:
  assumes "link_new mem s = Inr l"
  shows "link_inv mem F B funcs [] \<lparr>g_begun = [], g_queue = [], g_sent = [], g_read = 0, g_tasks = [], g_handled = [],
    g_done = [], g_settled = 0\<rparr> l"
proof -
  obtain up where up: "channel_new mem = Inr up" "l = \<lparr>lk_client = client_new, lk_counted = [], lk_posted = [], lk_up = up,
      lk_tasks = [], lk_state = s, lk_strand = [], lk_down = up\<rparr>"
    using assms by (auto simp: link_new_def rbind_Inr_iff)
  show ?thesis
    using channel_new_ok[OF up(1), of F]
    by (simp add: up(2) link_inv_def caller_side_def server_side_def client_side_def numbered_def client_new_def um_find_def)
qed

lemma link_path_inv:
  assumes "link_path mem F funcs l0 tr l" and "link_new mem s = Inr l0" and "list_all one_caller tr"
    and "answerable F B funcs (concat (map calls_of tr))" and "\<forall>n. mem n"
  shows "\<exists>g. link_inv mem F B funcs (concat (map calls_of tr)) g l"
  using assms(1,3,4)
proof (induction tr l rule: link_path.induct)
  case link_start
  then show ?case using link_new_inv[OF assms(2), of F B funcs] by auto
next
  case (link_next tr l1 a l2)
  then obtain g where "link_inv mem F B funcs (concat (map calls_of tr)) g l1"
    using answerable_prefix[of F B funcs "concat (map calls_of tr)"] by auto
  from link_step_keeps[OF link_next.hyps(2) this _ _ assms(5)] link_next.prems show ?case by auto
qed

section \<open>Nothing waits for ever\<close>

lemma channel_can_send:
  assumes "channel_ok mem F objs got ch"
  shows "\<exists>ch'. channel_step mem F ch (Sent data) ch'"
proof -
  obtain popped part where "progress (map (pack_object F) objs) False (ch_writer ch) popped part"
    using channel_ok_writer[OF assms] by (auto simp: writer_ok_def)
  from queue_write_ok[OF this, of data] show ?thesis using sends by blast
qed

text \<open>A link none of whose parts can take a step has answered every call.\<close>

lemma link_quiet:
  assumes inv: "link_inv mem F B funcs calls g l" and ans: "answerable F B funcs calls" and mem: "\<forall>n. mem n"
    and quiet: "\<And>a l'. working a \<Longrightarrow> \<not> link_step mem F funcs l a l'"
  shows "lk_counted l = []" and "g_queue g = []" and "g_read g = length (g_sent g)" and "g_tasks g = []"
    and "lk_strand l = []" and "g_settled g = length (g_done g)"
proof -
  have sides: "caller_side F calls g l" "server_side mem F B funcs g l" "client_side mem F g l"
    and bounds: "g_settled g \<le> length (g_done g)" "g_read g \<le> length (g_sent g)"
    using inv by (simp_all add: link_inv_def)
  note ids = whereabouts_ids[OF sides(1,2)] and sizes = written_sizes[OF sides(1,2) ans]
  have begun: "answerable F B funcs (g_begun g)"
    using sides(1) ans answerable_prefix unfolding caller_side_def by metis
  have up: "channel_ok mem F (map numbered_message (g_sent g)) (map numbered_message (take (g_read g) (g_sent g))) (lk_up l)"
    using sides(2) by (simp add: server_side_def)
  have down: "channel_ok mem F (map response_message (g_done g)) (map response_message (take (g_settled g) (g_done g))) (lk_down l)"
    using sides(3) by (simp add: client_side_def)
  show "lk_counted l = []"
  proof (rule ccontr)
    assume "lk_counted l \<noteq> []"
    then obtain name args where c: "lk_counted l = [] @ (name, args) # []"
      using sides(1) by (cases "lk_counted l") (auto simp: caller_side_def)
    then have calls: "calls = g_begun g @ [(name, args)]" "call_idx (lk_client l) = int (length calls)"
      using sides(1) by (simp_all add: caller_side_def)
    then have "(length calls, name, args) \<in> set (numbered 0 calls)" by (simp add: numbered_snoc)
    note a = answerableD[OF ans this]
    have "call_buffer (call_idx (lk_client l)) name (Inr (pack_object F args)) =
        Inr (pack_object F (call_message (length calls) name args))"
      using call_packed[OF a(2,3)] by (simp add: call_buffer_def calls(2))
    from takes[OF c refl this] show False using quiet working.simps by blast
  qed
  show "g_queue g = []"
  proof (cases "g_queue g")
    case (Cons c q)
    then have "lk_posted l = [] @ posting F c # map (posting F) q" using sides(1) by (simp add: caller_side_def)
    moreover obtain idx name buffer where "posting F c = (idx, name, buffer)" by (cases "posting F c")
    moreover obtain ch' where "channel_step mem F (lk_up l) (Sent buffer) ch'" using channel_can_send[OF up] by blast
    ultimately show ?thesis using posts[of l "[]" idx name buffer] quiet working.simps by metis
  qed
  show "g_read g = length (g_sent g)"
  proof (rule ccontr)
    assume "g_read g \<noteq> length (g_sent g)"
    then have "map numbered_message (take (g_read g) (g_sent g)) \<noteq> map numbered_message (g_sent g)"
      using bounds(2) by (metis length_map length_take min.absorb2)
    moreover have "ch_read (lk_up l) < 2 ^ 63" using channel_read_bound[OF up] sizes(1) by linarith
    ultimately obtain a ch' where "moving a" "channel_step mem F (lk_up l) a ch'"
      using channel_progress[OF up parsable_requests[OF sides(1,2) ans] mem] by blast
    moreover from this have "\<forall>data. a \<noteq> Sent data" by auto
    ultimately show False using up_moves[of a mem F l ch' funcs] quiet[of "Up a"] by auto
  qed
  show "g_tasks g = []"
  proof (cases "g_tasks g")
    case (Cons c t)
    obtain i name args where c: "c = (i, name, args)" by (cases c)
    have "c \<in> set (numbered 0 (g_begun g))" using ids(2,4) Cons set_take_subset by fastforce
    then obtain r s where "dispatch funcs (numbered_message c) (lk_state l) = Inr (r, s)"
      using answerableD(6)[OF begun, of i name args "lk_state l"] by (auto simp: c)
    moreover have "lk_tasks l = [] @ numbered_message c # map numbered_message t"
      using sides(2) Cons by (simp add: server_side_def)
    ultimately show ?thesis using handles[of l "[]"] quiet[of "Handles (numbered_message c)"] by force
  qed
  show "lk_strand l = []"
  proof (cases "lk_strand l")
    case (Cons r rs)
    then have "rs_id r < 2 ^ 32" using parsable_responses(2)[OF sides(1,2) ans] by (simp add: response_ok_def)
    from response_packed[OF this] obtain bs where "response_get_data F r = Inr bs" by blast
    moreover obtain ch' where "channel_step mem F (lk_down l) (Sent bs) ch'" using channel_can_send[OF down] by blast
    ultimately show ?thesis using responds[OF Cons, of F bs mem ch' funcs] quiet[of "Responds r"] by auto
  qed
  show "g_settled g = length (g_done g)"
  proof (rule ccontr)
    assume "g_settled g \<noteq> length (g_done g)"
    then have more: "g_settled g < length (g_done g)" using bounds(1) by simp
    have "length (take (g_settled g) (g_done g)) < length (g_done g)" using more by simp
    then have "map response_message (take (g_settled g) (g_done g)) \<noteq> map response_message (g_done g)"
      by (metis length_map less_irrefl)
    moreover have "ch_read (lk_down l) < 2 ^ 63" using channel_read_bound[OF down] sizes(2) by linarith
    ultimately obtain a ch' where a: "moving a" "channel_step mem F (lk_down l) a ch'"
      using channel_progress[OF down parsable_responses(1)[OF sides(1,2) ans] mem] by blast
    then have ns: "\<forall>data. a \<noteq> Sent data" by auto
    have "\<exists>c. rfold handle_response (parsed_of a) (lk_client l) = Inr c"
      using inv a(2) ns ans mem
    proof (cases rule: down_ok)
      case response
      then show ?thesis by (auto intro: next_response[OF inv more])
    qed simp
    then show False using down_moves[OF ns a(2)] quiet[of "Down a"] a(1) by auto
  qed
qed

lemma settled_answers:
  assumes inv: "link_inv mem F B funcs calls g l"
  shows "map fst (settled (lk_client l)) = map fst (take (g_settled g) (g_handled g))"
    and "(i, out) \<in> set (settled (lk_client l)) \<Longrightarrow> \<exists>name args r s s'. (i, name, args) \<in> set (numbered 0 (g_begun g)) \<and>
      dispatch funcs (call_message i name args) s = Inr (r, s') \<and> out = outcome_of name r"
proof -
  have sides: "caller_side F calls g l" "server_side mem F B funcs g l" "client_side mem F g l"
    and bounds: "g_settled g \<le> length (g_done g)"
    using inv by (simp_all add: link_inv_def)
  note ids = whereabouts_ids[OF sides(1,2)]
  let ?h = "take (g_settled g) (g_handled g)" and ?d = "take (g_settled g) (g_done g)"
  have served: "list_all2 (ran F B funcs) (g_handled g) (g_done g @ lk_strand l)" using sides(2) by (simp add: server_side_def)
  from list_all2_takeI[OF this, of "g_settled g"] have first: "list_all2 (ran F B funcs) ?h ?d" using bounds by simp
  have settled: "settled (lk_client l) = map2 settlement ?h ?d" using sides(3) by (simp add: client_side_def)
  have len: "length ?h = length ?d" using first by (rule list_all2_lengthD)
  then have "map fst (map2 settlement ?h ?d) = map fst ?h"
    by (induction rule: list_induct2) (auto simp: settlement_def)
  then show "map fst (settled (lk_client l)) = map fst ?h" by (simp only: settled)
  assume "(i, out) \<in> set (settled (lk_client l))"
  then obtain c r where cr: "(c, r) \<in> set (zip ?h ?d)" "settlement c r = (i, out)" by (auto simp: settled)
  then have "ran F B funcs c r" using first by (auto simp: list_all2_iff)
  moreover have "c \<in> set (numbered 0 (g_begun g))"
    using set_zip_leftD[OF cr(1)] ids(2,4) set_take_subset by fast
  moreover obtain name args where "c = (i, name, args)" "out = outcome_of name r"
    using cr(2) by (cases c) (auto simp: settlement_def)
  ultimately show "\<exists>name args r s s'. (i, name, args) \<in> set (numbered 0 (g_begun g)) \<and>
      dispatch funcs (call_message i name args) s = Inr (r, s') \<and> out = outcome_of name r"
    unfolding ran_def by blast
qed

text \<open>From every state of a run, the parts come to rest.\<close>

lemma link_inv_accp:
  assumes "answerable F B funcs calls" and "\<forall>n. mem n"
  shows "link_inv mem F B funcs calls g l \<Longrightarrow>
    Wellfounded.accp (\<lambda>l' l. \<exists>a. working a \<and> link_step mem F funcs l a l') l"
proof -
  have "link_inv mem F B funcs calls (fst x) (snd x) \<Longrightarrow>
      Wellfounded.accp (\<lambda>l' l. \<exists>a. working a \<and> link_step mem F funcs l a l') (snd x)" for x :: "whereabouts \<times> 'a link"
  proof (induction x rule: wf_induct_rule[OF wf_measures[of "efforts F"]])
    case (1 x)
    show ?case
    proof (rule accpI)
      fix l' assume "\<exists>a. working a \<and> link_step mem F funcs (snd x) a l'"
      then obtain a where a: "working a" "link_step mem F funcs (snd x) a l'" by blast
      have "calls_of a = []" "one_caller a" using a(1) by (cases a; simp)+
      with link_step_keeps[OF a(2) 1(2) _ _ assms(2)] assms(1) a(1) obtain g' where
        "link_inv mem F B funcs calls g' l'" "((g', l'), x) \<in> measures (efforts F)" by auto
      with 1(1)[of "(g', l')"] show "Wellfounded.accp (\<lambda>l' l. \<exists>a. working a \<and> link_step mem F funcs l a l') l'" by simp
    qed
  qed
  from this[of "(g, l)"] show "link_inv mem F B funcs calls g l \<Longrightarrow> ?thesis" by simp
qed

section \<open>Two callers at a time\<close>

lemma writer_takes:
  assumes "writer_ok datas broken w"
  shows "\<exists>w'. queue_write data w = Inr w' \<and> writer_ok (datas @ [data]) broken w'"
  using assms queue_write_ok unfolding writer_ok_def by metis

lemma handle_settled:
  assumes "rs_id r < 2 ^ 32" and "um_find (rs_id r) (ongoing_calls c) = Some (name, True)"
  shows "handle_response (response_message r) c = Inl Abort"
  using response_read_back[OF assms(1)] assms(2) by (auto simp: handle_response_def Let_def)

text \<open>Both increments come before both reads.\<close>

lemma same_number_run:
  assumes idx: "call_idx (lk_client l) = int n" and calm: "lk_counted l = []" and small: "n + 2 < 2 ^ 31"
    and names: "length name1 < 2 ^ 32" "length name2 < 2 ^ 32"
    and up: "writer_ok datas broken (ch_writer (lk_up l))" and fresh: "um_find (n + 2) (ongoing_calls (lk_client l)) = None"
  shows "\<exists>l'. link_path mem F funcs l
      [Counts 0 name1 args1, Counts 1 name2 args2, Takes (int (n + 2)), Takes (int (n + 2)), Posts (int (n + 2)), Posts (int (n + 2))] l' \<and>
    um_find (n + 2) (ongoing_calls (lk_client l')) = Some (name1, False)"
proof -
  let ?i = "int (n + 2)" and ?step = "link_step mem F funcs"
  let ?buf = "\<lambda>name args. pack_object F (call_message (n + 2) name args)"
  let ?c2 = "(lk_client l)\<lparr>call_idx := ?i\<rparr>"
  let ?p1 = "(?i, name1, ?buf name1 args1)" and ?p2 = "(?i, name2, ?buf name2 args2)"
  obtain w1 where w1: "queue_write (?buf name1 args1) (ch_writer (lk_up l)) = Inr w1"
    "writer_ok (datas @ [?buf name1 args1]) broken w1"
    using writer_takes[OF up] by blast
  obtain w2 where w2: "queue_write (?buf name2 args2) w1 = Inr w2" using writer_takes[OF w1(2)] by blast
  let ?l1 = "l\<lparr>lk_client := incr_call_idx (lk_client l), lk_counted := [(name1, args1)]\<rparr>"
  let ?l2 = "l\<lparr>lk_client := ?c2, lk_counted := [(name1, args1), (name2, args2)]\<rparr>"
  let ?l3 = "l\<lparr>lk_client := ?c2, lk_counted := [(name2, args2)], lk_posted := lk_posted l @ [?p1]\<rparr>"
  let ?l4 = "l\<lparr>lk_client := ?c2, lk_counted := [], lk_posted := lk_posted l @ [?p1, ?p2]\<rparr>"
  let ?l5 = "?l4\<lparr>lk_client := client_post ?i name1 ?c2, lk_posted := lk_posted l @ [?p2], lk_up := (lk_up l)\<lparr>ch_writer := w1\<rparr>\<rparr>"
  let ?l6 = "?l5\<lparr>lk_client := client_post ?i name2 (lk_client ?l5), lk_posted := lk_posted l,
      lk_up := (lk_up l)\<lparr>ch_writer := w2\<rparr>\<rparr>"
  have 1: "?step l (Counts 0 name1 args1) ?l1" using counts[of mem F funcs l name1 args1] calm by simp
  have "incr_call_idx (incr_call_idx (lk_client l)) = ?c2"
    using idx small by (simp add: incr_call_idx_def to_int32_id)
  then have 2: "?step ?l1 (Counts 1 name2 args2) ?l2" using counts[of mem F funcs ?l1 name2 args2] by simp
  have packed: "call_buffer ?i name (Inr (pack_object F args)) = Inr (?buf name args)" if "length name < 2 ^ 32" for name args
    using call_packed[OF small that] by (simp only: call_buffer_def)
  have 3: "?step ?l2 (Takes ?i) ?l3"
    using takes[of ?l2 "[]" name1 args1 "[(name2, args2)]" ?i F _ mem funcs] packed[OF names(1)] by simp
  have 4: "?step ?l3 (Takes ?i) ?l4"
    using takes[of ?l3 "[]" name2 args2 "[]" ?i F _ mem funcs] packed[OF names(2)] by simp
  have 5: "?step ?l4 (Posts ?i) ?l5"
    using posts[of ?l4 "lk_posted l" ?i name1 _ "[?p2]" mem F] sends[OF w1(1)] by simp
  have "channel_step mem F (lk_up ?l5) (Sent (?buf name2 args2)) ((lk_up l)\<lparr>ch_writer := w2\<rparr>)"
    using sends[of "?buf name2 args2" "(lk_up l)\<lparr>ch_writer := w1\<rparr>" w2 mem F] w2 by simp
  then have 6: "?step ?l5 (Posts ?i) ?l6"
    using posts[of ?l5 "lk_posted l" ?i name2 "?buf name2 args2" "[]" mem F] by simp
  have "to_unsigned 32 ?i = n + 2" using small by (simp add: to_unsigned_def nat_eq_iff)
  then have "um_find (n + 2) (ongoing_calls (lk_client ?l6)) = Some (name1, False)"
    using fresh by (simp add: client_post_def um_find_insert)
  then show ?thesis
    using link_next[OF link_next[OF link_next[OF link_next[OF link_next[OF link_next[OF link_start 1] 2] 3] 4] 5] 6] by auto
qed

text \<open>An example: a function that returns nothing, called once.\<close>

definition ping :: "unit bound_function" where
  "ping args s = Inr (NIL, s)"

definition ping_funcs :: "unit func_table" where
  "ping_funcs = [(''ping'', 0, ping)]"

definition example_link :: "unit link" where
  "example_link = \<lparr>lk_client = client_new, lk_counted = [], lk_posted = [],
     lk_up = example_written\<lparr>ch_writer := writer_new\<rparr>, lk_tasks = [], lk_state = (), lk_strand = [],
     lk_down = example_written\<lparr>ch_writer := writer_new\<rparr>\<rparr>"

definition example_called :: "unit link" where
  "example_called = example_link\<lparr>lk_client := incr_call_idx client_new, lk_counted := [(''ping'', ARRAY [])]\<rparr>"

lemma example_link_new: "link_new (\<lambda>_. True) () = Inr example_link"
  by (simp add: link_new_def example_channel_written(1) example_link_def)

lemma example_link_path:
  "link_path (\<lambda>_. True) zero_floats ping_funcs example_link [Counts 0 ''ping'' (ARRAY [])] example_called"
proof -
  have "link_step (\<lambda>_. True) zero_floats ping_funcs example_link (Counts 0 ''ping'' (ARRAY [])) example_called"
    using counts[of "\<lambda>_. True" zero_floats ping_funcs example_link "''ping''" "ARRAY []"]
    by (simp add: example_link_def example_called_def)
  from link_next[OF link_start this] show ?thesis by simp
qed

lemma uint_length: "length (pack_imp_uint64 n) \<le> 9"
  by (simp add: pack_imp_uint64_def)

lemma ping_answerable: "answerable zero_floats 32 ping_funcs [(''ping'', ARRAY [])]"
proof -
  have "length (pack_object zero_floats (call_message i ''ping'' (ARRAY []))) \<le> 32" for i
    using uint_length[of 0] uint_length[of i] by (simp add: call_message_def pack_array_def pack_str_def pack_body_def)
  moreover have "length (pack_object zero_floats (response_message (make_result i NIL))) \<le> 32" for i
    using uint_length[of 1] uint_length[of i]
    by (simp add: response_message_def make_result_def response_init_def pack_array_def pack_nil_def)
  moreover have "dispatch ping_funcs (call_message i ''ping'' (ARRAY [])) s = Inr (make_result i NIL, s)" if "i < 2 ^ 32" for i s
    using convert_call_message[OF that, of "''ping''" "ARRAY []"]
    by (simp add: dispatch_def via_size_def call_message_def server_dispatch_call_def ping_funcs_def um_find_def run_bound_def
        enforce_arg_count_def ping_def)
  moreover have "response_ok zero_floats (make_result i NIL)" if "i < 2 ^ 32" for i
    using that by (simp add: response_ok_def make_result_def response_init_def)
  moreover have "sendable zero_floats (ARRAY [])" by (simp add: sendable_def limit_size_def)
  ultimately show ?thesis by (simp add: answerable_def)
qed

section \<open>Properties\<close>







end
