(* ===== verification/Msgpack_Format.thy ===== *)
theory Msgpack_Format
  imports Msgpack_Stream
begin

text \<open>
  The msgpack format as a relation between byte sequences and objects, independent of packer and parser: every
  object has the encodings the format allows, not only the shortest, which the packer writes. The parser
  is sound and complete for it: a stream cut into reads in any way yields exactly the objects whose encodings it
  begins with.
\<close>

section \<open>The format\<close>

definition is_bytes :: "bytes \<Rightarrow> bool" where
  "is_bytes bs \<longleftrightarrow> list_all (\<lambda>b. b < 256) bs"

text \<open>The value of big endian digits, and of a two's complement number.\<close>

fun be_value :: "bytes \<Rightarrow> nat" where
  "be_value [] = 0"
| "be_value (b # bs) = b * 256 ^ length bs + be_value bs"

definition signed_value :: "bytes \<Rightarrow> int" where
  "signed_value bs = int (be_value bs) - (if hd bs < 128 then 0 else 2 ^ (8 * length bs))"

text \<open>A size in front of a string or container: in the header byte itself when it is small, or in 1, 2 or 4
  bytes behind the header byte.\<close>

definition small_size :: "nat \<Rightarrow> nat \<Rightarrow> bytes \<Rightarrow> nat \<Rightarrow> bool" where
  "small_size base limit hdr n \<longleftrightarrow> n < limit \<and> hdr = [base + n]"

definition wide_size :: "(nat \<times> nat) set \<Rightarrow> bytes \<Rightarrow> nat \<Rightarrow> bool" where
  "wide_size headers hdr n \<longleftrightarrow> (\<exists>h len. hdr = h # len \<and> (h, length len) \<in> headers \<and> is_bytes len \<and> n = be_value len)"

definition str_head :: "bytes \<Rightarrow> nat \<Rightarrow> bool" where
  "str_head hdr n \<longleftrightarrow> small_size 0xa0 32 hdr n \<or> wide_size {(0xd9, 1), (0xda, 2), (0xdb, 4)} hdr n"

definition bin_head :: "bytes \<Rightarrow> nat \<Rightarrow> bool" where
  "bin_head hdr n \<longleftrightarrow> wide_size {(0xc4, 1), (0xc5, 2), (0xc6, 4)} hdr n"

definition ext_head :: "bytes \<Rightarrow> nat \<Rightarrow> bool" where
  "ext_head hdr n \<longleftrightarrow> (hdr, n) \<in> {([0xd4], 1), ([0xd5], 2), ([0xd6], 4), ([0xd7], 8), ([0xd8], 16)} \<or>
     wide_size {(0xc7, 1), (0xc8, 2), (0xc9, 4)} hdr n"

definition array_head :: "bytes \<Rightarrow> nat \<Rightarrow> bool" where
  "array_head hdr n \<longleftrightarrow> small_size 0x90 16 hdr n \<or> wide_size {(0xdc, 2), (0xdd, 4)} hdr n"

definition map_head :: "bytes \<Rightarrow> nat \<Rightarrow> bool" where
  "map_head hdr n \<longleftrightarrow> small_size 0x80 16 hdr n \<or> wide_size {(0xde, 2), (0xdf, 4)} hdr n"

inductive encodes :: "float_bits \<Rightarrow> bytes \<Rightarrow> msgpack_object \<Rightarrow> bool" for F where
  nil: "encodes F [0xc0] NIL"
| bool: "encodes F [if b then 0xc3 else 0xc2] (BOOLEAN b)"
| fixnum: "n < 128 \<Longrightarrow> encodes F [n] (POSITIVE_INTEGER n)"
| negative_fixnum: "- 32 \<le> d \<Longrightarrow> d < 0 \<Longrightarrow> encodes F [nat (256 + d)] (NEGATIVE_INTEGER d)"
| uint: "(h, length bs) \<in> {(0xcc, 1), (0xcd, 2), (0xce, 4), (0xcf, 8)} \<Longrightarrow> is_bytes bs \<Longrightarrow>
    encodes F (h # bs) (POSITIVE_INTEGER (be_value bs))"
| sint: "(h, length bs) \<in> {(0xd0, 1), (0xd1, 2), (0xd2, 4), (0xd3, 8)} \<Longrightarrow> is_bytes bs \<Longrightarrow>
    encodes F (h # bs) (if 0 \<le> signed_value bs then POSITIVE_INTEGER (nat (signed_value bs))
                        else NEGATIVE_INTEGER (signed_value bs))"
| float32: "length bs = 4 \<Longrightarrow> is_bytes bs \<Longrightarrow> encodes F (0xca # bs) (FLOAT32 (f32_of F (be_value bs)))"
| float64: "length bs = 8 \<Longrightarrow> is_bytes bs \<Longrightarrow> encodes F (0xcb # bs) (FLOAT64 (f64_of F (be_value bs)))"
| str: "str_head hdr (length s) \<Longrightarrow> encodes F (hdr @ bytes_of s) (STRING s)"
| bin: "bin_head hdr (length s) \<Longrightarrow> encodes F (hdr @ bytes_of s) (BIN s)"
| ext: "ext_head hdr (length s) \<Longrightarrow> ty < 256 \<Longrightarrow> encodes F (hdr @ ty # bytes_of s) (EXT ty s)"
| array: "array_head hdr (length os) \<Longrightarrow> list_all2 (encodes F) bss os \<Longrightarrow> encodes F (hdr @ concat bss) (ARRAY os)"
| map: "map_head hdr (length kvs) \<Longrightarrow>
    list_all2 (\<lambda>b kv. encodes F (fst b) (fst kv) \<and> encodes F (snd b) (snd kv)) bss kvs \<Longrightarrow>
    encodes F (hdr @ concat (map (\<lambda>(ks, vs). ks @ vs) bss)) (MAP kvs)"

section \<open>Lemmas\<close>

lemma is_bytes_simps [simp]:
  "is_bytes []" "is_bytes (b # bs) \<longleftrightarrow> b < 256 \<and> is_bytes bs" "is_bytes (bs @ bs') \<longleftrightarrow> is_bytes bs \<and> is_bytes bs'"
  "is_bytes (concat bss) \<longleftrightarrow> list_all is_bytes bss"
  by (auto simp: is_bytes_def list_all_iff)

lemma is_bytes_part: "is_bytes bs \<Longrightarrow> is_bytes (take k bs)" "is_bytes bs \<Longrightarrow> is_bytes (drop k bs)"
  by (auto simp: is_bytes_def list_all_iff dest: in_set_takeD in_set_dropD)

lemma bytes_of_bytes [simp]: "is_bytes (bytes_of s)"
  by (auto simp: is_bytes_def bytes_of_def list_all_iff)

lemma bytes_of_chars: "is_bytes bs \<Longrightarrow> bytes_of (chars_of bs) = bs"
  by (induction bs) (auto simp: bytes_of_def chars_of_def)

lemma length_chars_of [simp]: "length (chars_of bs) = length bs"
  by (simp add: chars_of_def)

lemma be_value_append: "be_value (bs @ bs') = be_value bs * 256 ^ length bs' + be_value bs'"
  by (induction bs) (simp_all add: power_add algebra_simps)

lemma load_be_value: "load_be bs = be_value bs"
  by (induction bs rule: rev_induct) (simp_all add: load_be_def be_value_append)

lemma digit_bound: "(b :: nat) < B \<Longrightarrow> v < p \<Longrightarrow> b * p + v < B * p"
proof -
  assume "b < B" and v: "v < p"
  then have "Suc b * p \<le> B * p" by (intro mult_le_mono1) simp
  with v show ?thesis by simp
qed

lemma be_value_bound: "is_bytes bs \<Longrightarrow> be_value bs < 256 ^ length bs"
  by (induction bs) (auto intro: digit_bound)

lemma wide_size_bound: "wide_size headers hdr n \<Longrightarrow> \<forall>(h, k)\<in>headers. k \<le> 4 \<Longrightarrow> n < 2 ^ 32"
proof -
  assume "wide_size headers hdr n" and small: "\<forall>(h, k)\<in>headers. k \<le> 4"
  then obtain h len where len: "(h, length len) \<in> headers" "is_bytes len" "n = be_value len"
    by (auto simp: wide_size_def)
  have "n < 256 ^ length len" using len be_value_bound by simp
  also have "\<dots> \<le> 256 ^ 4" using len(1) small by (intro power_increasing) auto
  finally show ?thesis by simp
qed

lemma head_bounds:
  "str_head hdr n \<Longrightarrow> n < 2 ^ 32" "bin_head hdr n \<Longrightarrow> n < 2 ^ 32" "array_head hdr n \<Longrightarrow> n < 2 ^ 32"
  "map_head hdr n \<Longrightarrow> n < 2 ^ 32"
  unfolding str_head_def bin_head_def array_head_def map_head_def small_size_def
  by (auto dest!: wide_size_bound)

lemma signed_load:
  assumes "is_bytes bs" and "bs \<noteq> []"
  shows "load_signed (length bs) (bs @ rest) = signed_value bs"
proof -
  obtain b bs' where bs: "bs = b # bs'" using assms(2) by (cases bs) simp_all
  let ?h = "2 ^ (8 * length bs - 1) :: nat"
  have half: "?h = 128 * 256 ^ length bs'" by (simp add: bs power_add power_mult)
  have low: "be_value bs' < 256 ^ length bs'" using be_value_bound assms(1) bs by simp
  have "be_value bs < ?h \<longleftrightarrow> b < 128"
  proof
    assume "b < 128"
    then have "b * 256 ^ length bs' + be_value bs' < 128 * 256 ^ length bs'" using low by (rule digit_bound)
    then show "be_value bs < ?h" unfolding half by (simp add: bs)
  next
    assume "be_value bs < ?h"
    then have "b * 256 ^ length bs' + be_value bs' < 128 * 256 ^ length bs'" unfolding half by (simp add: bs)
    then have "b * 256 ^ length bs' < 128 * 256 ^ length bs'" by linarith
    then show "b < 128" by (simp only: mult_less_cancel2)
  qed
  moreover have "load_be (take (length bs) (bs @ rest)) = be_value bs" by (simp add: load_be_value)
  moreover have "hd bs = b" by (simp add: bs)
  ultimately show ?thesis
    unfolding load_signed_def signed_value_def Let_def by (simp del: take_append)
qed

section \<open>Every encoding is parsed\<close>

lemma be_store: "n < 256 ^ k \<Longrightarrow> be_value (store_be k n) = n"
  using load_store[of k n] by (simp add: load_be_value)

lemma sized_body:
  assumes "wide_size headers hdr n" and "n + extra = length body"
    and "\<And>h k. (h, k) \<in> headers \<Longrightarrow> 0 < k \<and> (\<exists>cs. trail_header h k cs \<and> sized_cs cs k acs extra)"
    and "acs = ACS_STR_VALUE \<or> acs = ACS_BIN_VALUE \<or> acs = ACS_EXT_VALUE" and "acs = ACS_EXT_VALUE \<Longrightarrow> body \<noteq> []"
    and "\<And>rest. value_item acs (body @ rest) (length body) = obj"
  shows "parses F obj (hdr @ body) below"
proof -
  obtain h len where len: "hdr = h # len" "(h, length len) \<in> headers" "is_bytes len" "n = be_value len"
    using assms(1) by (auto simp: wide_size_def)
  obtain cs where cs: "trail_header h (length len) cs" "sized_cs cs (length len) acs extra" "0 < length len"
    using assms(3)[OF len(2)] by blast
  have "parses F obj (h # len @ body) below"
    using assms(2,4-6) len(4) by (intro parses_body[OF cs(1,2) refl cs(3)]) (simp_all add: load_be_value)
  then show ?thesis using len(1) by simp
qed

lemma parses_encoded_str:
  assumes "str_head hdr (length s)"
  shows "parses F (STRING s) (hdr @ bytes_of s) below"
proof -
  have item: "value_item ACS_STR_VALUE (bytes_of s @ rest) (length (bytes_of s)) = STRING s" for rest
    by (simp add: value_item_def del: length_bytes_of)
  show ?thesis
  proof (cases "small_size 0xa0 32 hdr (length s)")
    case True
    then have "hdr @ bytes_of s = pack_str (length s) @ pack_body s" "length s < 2 ^ 32"
      by (simp_all add: small_size_def pack_str_def pack_body_def prefix_bits)
    then show ?thesis using parses_str by metis
  next
    case False
    with assms have "wide_size {(0xd9, 1), (0xda, 2), (0xdb, 4)} hdr (length s)" by (simp add: str_head_def)
    then show ?thesis
      by (rule sized_body[where acs = ACS_STR_VALUE and extra = 0]) (use item in \<open>auto intro: trail_headers sized_states\<close>)
  qed
qed

lemma parses_encoded_bin:
  assumes "bin_head hdr (length s)"
  shows "parses F (BIN s) (hdr @ bytes_of s) below"
proof -
  have item: "value_item ACS_BIN_VALUE (bytes_of s @ rest) (length (bytes_of s)) = BIN s" for rest
    by (simp add: value_item_def ACS_BIN_VALUE_def ACS_STR_VALUE_def del: length_bytes_of)
  show ?thesis
    using assms unfolding bin_head_def
    by (rule sized_body[where acs = ACS_BIN_VALUE and extra = 0]) (use item in \<open>auto intro: trail_headers sized_states\<close>)
qed

lemma parses_encoded_ext:
  assumes "ext_head hdr (length s)"
  shows "parses F (EXT ty s) (hdr @ ty # bytes_of s) below"
proof -
  have item: "value_item ACS_EXT_VALUE ((ty # bytes_of s) @ rest) (length (ty # bytes_of s)) = EXT ty s" for rest
    by (simp add: value_item_def ACS_EXT_VALUE_def ACS_STR_VALUE_def ACS_BIN_VALUE_def unpack_ext_run)
  show ?thesis
  proof (cases "wide_size {(0xc7, 1), (0xc8, 2), (0xc9, 4)} hdr (length s)")
    case True
    then show ?thesis
      by (rule sized_body[where acs = ACS_EXT_VALUE and extra = "Suc 0"])
        (use item in \<open>auto intro: trail_headers sized_states\<close>)
  next
    case False
    have fixext: "parses F (EXT ty s) (h # ty # bytes_of s) below"
      if "trail_header h (Suc (length s)) cs" "\<And>n. scalar_item F cs n = None" "\<And>n. fixext_item cs n = Some (unpack_ext n (Suc (length s)))"
      for h cs
      using that unpack_ext_run by (intro parses_scalar[where cs = cs]) auto
    from False assms show ?thesis
      unfolding ext_head_def
      using fixext[of "0xd4" "0x14"] fixext[of "0xd5" "0x15"] fixext[of "0xd6" "0x16"] fixext[of "0xd7" "0x17"]
        fixext[of "0xd8" "0x18"]
      by (auto simp: scalar_item_def fixext_item_def simp flip: numeral_2_eq_2)
  qed
qed

lemma encoded_head:
  assumes "small_size base 16 hdr n \<or> wide_size {(h2, 2), (h4, 4)} hdr n"
    and "\<And>rest ctx. n < 16 \<Longrightarrow> header_step ((base + n) # rest) ctx = push_aggregate c ty n ((base + n) # rest) ctx"
    and "trail_header h2 2 cs2" "trail_header h4 4 cs4" "aggregate_cs cs2" "aggregate_cs cs4"
    and "\<And>n cur ctx. aggregate_step cs2 n cur ctx = push_aggregate c ty (load_be (take 2 n)) cur ctx"
      "\<And>n cur ctx. aggregate_step cs4 n cur ctx = push_aggregate c ty (load_be (take 4 n)) cur ctx"
  shows "aggregate_header F hdr c ty n"
  using assms(1)
proof
  assume "small_size base 16 hdr n"
  then show ?thesis using aggregate_fix[of "base + n" c ty n F] assms(2) by (simp add: small_size_def)
next
  assume w: "wide_size {(h2, 2), (h4, 4)} hdr n"
  then obtain h len where len: "hdr = h # len" "(h, length len) \<in> {(h2, 2), (h4, 4)}" "n = be_value len"
    by (auto simp: wide_size_def)
  have n: "n < 2 ^ 32" by (rule wide_size_bound[OF w]) auto
  from len(2) have "h = h2 \<and> length len = 2 \<or> h = h4 \<and> length len = 4" by simp
  then show ?thesis
  proof (elim disjE conjE)
    assume h: "h = h2" "length len = 2"
    show ?thesis
      unfolding len(1) using assms(3,5,7) h n len(3)
      by (intro aggregate_trail[where cs = cs2]) (auto simp: aggregate_cs_def load_be_value)
  next
    assume h: "h = h4" "length len = 4"
    show ?thesis
      unfolding len(1) using assms(4,6,8) h n len(3)
      by (intro aggregate_trail[where cs = cs4]) (auto simp: aggregate_cs_def load_be_value)
  qed
qed

lemma parses_encoded:
  "encodes F bs obj \<Longrightarrow> length below + depth obj \<le> limit_size \<Longrightarrow> parses F obj bs below"
proof (induction arbitrary: below rule: encodes.induct)
  case (uint h bs)
  have "bs \<noteq> []" using uint(1) by auto
  then show ?case
    using uint(1)
    by (auto simp: scalar_item_def load_be_value intro: parses_scalar[where cs = "0x0c"] parses_scalar[where cs = "0x0d"]
        parses_scalar[where cs = "0x0e"] parses_scalar[where cs = "0x0f"])
next
  case (sint h bs)
  have ne: "bs \<noteq> []" using sint(1) by auto
  note load = signed_load[OF sint(2) ne, symmetric]
  have int: "(if 0 \<le> signed_value bs then POSITIVE_INTEGER (nat (signed_value bs)) else NEGATIVE_INTEGER (signed_value bs)) =
      unpack_int (signed_value bs)" by (simp add: unpack_int_def)
  show ?case
    unfolding int using sint(1) ne load
    by (auto simp: scalar_item_def intro: parses_scalar[where cs = "0x10"] parses_scalar[where cs = "0x11"]
        parses_scalar[where cs = "0x12"] parses_scalar[where cs = "0x13"])
next
  case (float32 bs)
  then have "bs \<noteq> []" by auto
  then show ?case using float32 by (intro parses_scalar[where cs = "0x0a"]) (auto simp: scalar_item_def load_be_value)
next
  case (float64 bs)
  then have "bs \<noteq> []" by auto
  then show ?case using float64 by (intro parses_scalar[where cs = "0x0b"]) (auto simp: scalar_item_def load_be_value)
next
  case (negative_fixnum d)
  define n where "n = nat (256 + d)"
  have n: "224 \<le> n" "n \<le> 255" "int n - 256 = d" using negative_fixnum(1,2) by (simp_all add: n_def)
  have "header_step (n # rest) ctx = push_proc (NEGATIVE_INTEGER d) (n # rest) ctx" for rest ctx
    using n negative_fixnum(2) by (simp add: header_step_def unpack_int_def Let_def)
  then show ?case unfolding n_def[symmetric] by (rule parses_byte)
next
  case (array hdr os bss)
  have "list_all2 (\<lambda>bs obj. \<forall>s. parses F obj bs (s # below)) bss os"
    using array(2)
  proof (rule list.rel_mono_strong)
    fix bs obj assume obj: "obj \<in> set os"
      and IH: "encodes F bs obj \<and> (\<forall>below. length below + depth obj \<le> limit_size \<longrightarrow> parses F obj bs below)"
    have "depth obj \<le> Max (insert 0 (set (List.map depth os)))" using obj by (intro Max_ge) auto
    then have "length (s # below) + depth obj \<le> limit_size" for s :: unpack_stack using array(3) by simp
    with IH show "\<forall>s. parses F obj bs (s # below)" by blast
  qed
  moreover have "aggregate_header F hdr (ARRAY []) ARRAY_ITEM (length os)"
    using array(1) unfolding array_head_def
    by (rule encoded_head[where ?cs2.0 = "0x1c" and ?cs4.0 = "0x1d"])
      (simp_all add: header_step_def prefix_bits aggregate_step_def Let_def)
  moreover have "length os < 2 ^ 32" by (rule head_bounds(3)[OF array(1)])
  moreover have "length below < limit_size" using array(3) by simp
  ultimately show ?case by (intro parses_array)
next
  case (map hdr kvs bss)
  have "list_all2 (\<lambda>(ks, vs) (k, v). \<forall>s. parses F k ks (s # below) \<and> parses F v vs (s # below)) bss kvs"
    using map(2)
  proof (rule list.rel_mono_strong)
    fix b kv assume kv: "kv \<in> set kvs"
      and IH: "(encodes F (fst b) (fst kv) \<and> (\<forall>below. length below + depth (fst kv) \<le> limit_size \<longrightarrow> parses F (fst kv) (fst b) below)) \<and>
        encodes F (snd b) (snd kv) \<and> (\<forall>below. length below + depth (snd kv) \<le> limit_size \<longrightarrow> parses F (snd kv) (snd b) below)"
    have "max (depth (fst kv)) (depth (snd kv)) \<le> Max (insert 0 (set (List.map (\<lambda>(k, v). max (depth k) (depth v)) kvs)))"
      using kv by (intro Max_ge) (auto simp: case_prod_beta)
    then have "length (s # below) + depth (fst kv) \<le> limit_size" "length (s # below) + depth (snd kv) \<le> limit_size"
      for s :: unpack_stack using map(3) by simp_all
    with IH show "(case b of (ks, vs) \<Rightarrow> \<lambda>(k, v). \<forall>s. parses F k ks (s # below) \<and> parses F v vs (s # below)) kv"
      by (cases b; cases kv) auto
  qed
  moreover have "aggregate_header F hdr (MAP []) MAP_KEY (length kvs)"
    using map(1) unfolding map_head_def
    by (rule encoded_head[where ?cs2.0 = "0x1e" and ?cs4.0 = "0x1f"])
      (simp_all add: header_step_def prefix_bits aggregate_step_def Let_def)
  moreover have "length kvs < 2 ^ 32" by (rule head_bounds(4)[OF map(1)])
  moreover have "length below < limit_size" using map(3) by simp
  ultimately show ?case by (intro parses_map)
qed (auto simp: header_step_def Let_def intro!: parses_byte parses_encoded_str parses_encoded_bin parses_encoded_ext)

text \<open>So a stream that begins with an encoding of an object yields that object first.\<close>

lemma execute_encoded:
  assumes "encodes F bs obj" and "depth obj \<le> limit_size"
  obtains c t b where "execute F False (bs @ rest) context_init = Ret 1 rest \<lparr>m_cs = c, m_trail = t, m_stack = [b]\<rparr>"
    and "sp_obj b = obj"
proof -
  have "parses F obj bs []" by (rule parses_encoded) (use assms in simp_all)
  from this[unfolded parses_def, rule_format, of rest 0 unpack_stack_new, folded context_init_def]
  obtain c t b where "execute F False (bs @ rest) context_init = finish F obj rest \<lparr>m_cs = c, m_trail = t, m_stack = [b]\<rparr>"
    by (elim exE) (rule that, assumption)
  then show thesis by (intro that[of c t "b\<lparr>sp_obj := obj\<rparr>"]) (simp_all add: finish_def push_proc_def)
qed

section \<open>Nothing else is parsed\<close>

text \<open>The bytes read so far, seen from a stack of open containers: each container has a header for all its
  items and the encodings of the items it has.\<close>

definition begun_map :: "float_bits \<Rightarrow> unpack_stack \<Rightarrow> bytes \<Rightarrow> bool" where
  "begun_map F sp item \<longleftrightarrow> (\<exists>hdr bss kvs. item = hdr @ concat (List.map (\<lambda>(ks, vs). ks @ vs) bss) \<and> sp_obj sp = MAP kvs \<and>
     list_all2 (\<lambda>b kv. encodes F (fst b) (fst kv) \<and> encodes F (snd b) (snd kv)) bss kvs \<and>
     map_head hdr (length kvs + sp_count sp))"

definition begun :: "float_bits \<Rightarrow> unpack_stack \<Rightarrow> bytes \<Rightarrow> bool" where
  "begun F sp item \<longleftrightarrow> 0 < sp_count sp \<and>
     (case sp_type sp of
        ARRAY_ITEM \<Rightarrow> \<exists>hdr bss os. item = hdr @ concat bss \<and> sp_obj sp = ARRAY os \<and> list_all2 (encodes F) bss os \<and>
          array_head hdr (length os + sp_count sp)
      | MAP_KEY \<Rightarrow> begun_map F sp item
      | MAP_VALUE \<Rightarrow> \<exists>item' ks. item = item' @ ks \<and> begun_map F sp item' \<and> encodes F ks (sp_key sp))"

fun opened :: "float_bits \<Rightarrow> unpack_stack list \<Rightarrow> bytes \<Rightarrow> bool" where
  "opened F [] pre \<longleftrightarrow> pre = []"
| "opened F (sp # below) pre \<longleftrightarrow> (\<exists>p item. pre = p @ item \<and> opened F below p \<and> begun F sp item)"

lemma begun_count: "begun F sp item \<Longrightarrow> 0 < sp_count sp \<and> sp_count sp < 2 ^ 32"
  using head_bounds(3,4)
  by (fastforce simp: begun_def begun_map_def split: container.splits)

definition placed :: "float_bits \<Rightarrow> bytes \<Rightarrow> bool \<times> msgpack_object \<times> unpack_stack list \<Rightarrow> bool" where
  "placed F all r \<longleftrightarrow> (case r of (full, obj, st) \<Rightarrow>
     st \<noteq> [] \<and> (if full then encodes F all obj else opened F (tl st) all))"

lemma placed_more [simp]: "placed F all (False, obj, bk # below) \<longleftrightarrow> opened F below all"
  by (simp add: placed_def)

lemma push_item_sound:
  "st \<noteq> [] \<Longrightarrow> opened F (tl st) pre \<Longrightarrow> encodes F bs obj \<Longrightarrow> placed F (pre @ bs) (push_item obj st)"
proof (induction obj st arbitrary: pre bs rule: push_item.induct)
  case (1 obj bk sp below)
  obtain p item where pre: "pre = p @ item" "opened F below p" "begun F sp item" using "1.prems"(2) by auto
  have pos: "0 < sp_count sp" "sp_count sp < 2 ^ 64" using begun_count[OF pre(3)] by auto
  have decr: "decr_count (sp\<lparr>sp_obj := x\<rparr>) = sp\<lparr>sp_obj := x, sp_count := sp_count sp - 1\<rparr>" for x
    using decr_count_run[of "sp\<lparr>sp_obj := x\<rparr>"] pos by simp
  show ?case
  proof (cases "sp_type sp")
    case ARRAY_ITEM
    then obtain hdr bss os where os: "item = hdr @ concat bss" "sp_obj sp = ARRAY os" "list_all2 (encodes F) bss os"
      "array_head hdr (length os + sp_count sp)" using pre(3) by (auto simp: begun_def)
    let ?obj = "ARRAY (os @ [obj])"
    have items: "list_all2 (encodes F) (bss @ [bs]) (os @ [obj])" using os(3) "1.prems"(3) by (simp add: list_all2_appendI)
    show ?thesis
    proof (cases "sp_count sp = 1")
      case True
      then have "encodes F (hdr @ concat (bss @ [bs])) ?obj" using items os(4) by (intro encodes.array) simp_all
      then have "encodes F (item @ bs) ?obj" by (simp add: os(1))
      with True show ?thesis
        using "1.IH"(1)[OF ARRAY_ITEM refl, of p "item @ bs"] pre(1,2) os(2) ARRAY_ITEM
        by (simp add: decr unpack_array_item_def Let_def)
    next
      case False
      let ?sp = "sp\<lparr>sp_obj := ?obj, sp_count := sp_count sp - 1\<rparr>"
      have "begun F ?sp (item @ bs)"
        unfolding begun_def using False pos ARRAY_ITEM os(1,4) items
        by (auto intro!: exI[of _ hdr] exI[of _ "bss @ [bs]"])
      then have "opened F (?sp # below) (pre @ bs)" using pre(1,2) by auto
      with False pos show ?thesis using os(2) ARRAY_ITEM by (simp add: decr unpack_array_item_def Let_def)
    qed
  next
    case MAP_KEY
    then have "begun_map F (sp\<lparr>sp_key := obj, sp_type := MAP_VALUE\<rparr>) item"
      using pre(3) by (simp add: begun_def begun_map_def)
    then have "begun F (sp\<lparr>sp_key := obj, sp_type := MAP_VALUE\<rparr>) (item @ bs)"
      using pos "1.prems"(3) unfolding begun_def by auto
    then have "opened F (sp\<lparr>sp_key := obj, sp_type := MAP_VALUE\<rparr> # below) (pre @ bs)" using pre(1,2) by auto
    then show ?thesis using MAP_KEY by simp
  next
    case MAP_VALUE
    then obtain item' ks hdr bss kvs where kvs: "item = item' @ ks" "encodes F ks (sp_key sp)"
      "item' = hdr @ concat (List.map (\<lambda>(ks, vs). ks @ vs) bss)" "sp_obj sp = MAP kvs"
      "list_all2 (\<lambda>b kv. encodes F (fst b) (fst kv) \<and> encodes F (snd b) (snd kv)) bss kvs"
      "map_head hdr (length kvs + sp_count sp)"
      using pre(3) unfolding begun_def begun_map_def by auto
    let ?obj = "MAP (kvs @ [(sp_key sp, obj)])" and ?bss = "bss @ [(ks, bs)]"
    have items: "list_all2 (\<lambda>b kv. encodes F (fst b) (fst kv) \<and> encodes F (snd b) (snd kv)) ?bss (kvs @ [(sp_key sp, obj)])"
      using kvs(2,5) "1.prems"(3) by (simp add: list_all2_appendI)
    have all: "item @ bs = hdr @ concat (List.map (\<lambda>(ks, vs). ks @ vs) ?bss)" by (simp add: kvs(1,3))
    show ?thesis
    proof (cases "sp_count sp = 1")
      case True
      then have "encodes F (item @ bs) ?obj" unfolding all using items kvs(6) by (intro encodes.map) simp_all
      with True show ?thesis
        using "1.IH"(2)[OF MAP_VALUE refl, of p "item @ bs"] pre(1,2) kvs(4) MAP_VALUE
        by (simp add: decr unpack_map_item_def Let_def)
    next
      case False
      let ?sp = "sp\<lparr>sp_obj := ?obj, sp_count := sp_count sp - 1, sp_type := MAP_KEY\<rparr>"
      have "begun_map F ?sp (item @ bs)"
        unfolding begun_map_def all using items kvs(6) pos
        by (intro exI[of _ hdr] exI[of _ ?bss] exI[of _ "kvs @ [(sp_key sp, obj)]"]) simp
      then have "begun F ?sp (item @ bs)" using False pos by (simp add: begun_def)
      then have "opened F (?sp # below) (pre @ bs)" using pre(1,2) by auto
      with False pos show ?thesis using kvs(4) MAP_VALUE by (simp add: decr unpack_map_item_def Let_def)
    qed
  qed
qed (simp_all add: placed_def)

text \<open>The bytes of the item in hand: a header byte whose trailing bytes are not read yet, or the head of a string.\<close>

definition pending :: "nat \<Rightarrow> nat \<Rightarrow> bytes \<Rightarrow> bool" where
  "pending cs trail item \<longleftrightarrow>
     (\<exists>s. item = [s] \<and> 0xc4 \<le> s \<and> s \<le> 0xdf \<and> cs = s - 0xc0 \<and> trail = trail_table ! (s - 0xc4)) \<or>
     0 < trail \<and> (cs = ACS_STR_VALUE \<and> str_head item trail \<or> cs = ACS_BIN_VALUE \<and> bin_head item trail \<or>
       cs = ACS_EXT_VALUE \<and> wide_size {(0xc7, 1), (0xc8, 2), (0xc9, 4)} item (trail - 1))"

definition reading :: "float_bits \<Rightarrow> bytes \<Rightarrow> bool \<Rightarrow> bytes \<Rightarrow> unpack_context \<Rightarrow> bool" where
  "reading F all fixed rest ctx \<longleftrightarrow> m_stack ctx \<noteq> [] \<and> (\<exists>pre. opened F (tl (m_stack ctx)) pre \<and>
     (if m_cs ctx = CS_HEADER then \<not> fixed \<and> all = pre @ rest
      else fixed \<and> rest \<noteq> [] \<and> (\<exists>item. all = pre @ item @ tl rest \<and> pending (m_cs ctx) (m_trail ctx) item)))"

definition sound_step :: "float_bits \<Rightarrow> bytes \<Rightarrow> step \<Rightarrow> bool" where
  "sound_step F all s =
     (case s of
        Ret e rest ctx \<Rightarrow> 0 < e \<longrightarrow> (\<exists>bs. all = bs @ rest \<and> encodes F bs (sp_obj (last (m_stack ctx))))
      | Go f rest ctx \<Rightarrow> reading F all f rest ctx
      | Throw \<Rightarrow> True)"

lemma sound_step_simps [simp]:
  "sound_step F all (Ret e rest ctx) \<longleftrightarrow>
     (0 < e \<longrightarrow> (\<exists>bs. all = bs @ rest \<and> encodes F bs (sp_obj (last (m_stack ctx)))))"
  "sound_step F all (Go f rest ctx) \<longleftrightarrow> reading F all f rest ctx" "sound_step F all Throw"
  by (simp_all add: sound_step_def)

lemma push_proc_sound:
  assumes "m_stack ctx \<noteq> []" and "opened F (tl (m_stack ctx)) pre" and "encodes F bs obj" and "all = pre @ bs @ tl cur"
  shows "sound_step F all (push_proc obj cur ctx)"
  using push_item_sound[OF assms(1-3)] assms(4)
  by (auto simp: placed_def push_proc_def reading_def split: prod.splits bool.splits)

lemma push_aggregate_sound:
  assumes "m_stack ctx \<noteq> []" and "opened F (tl (m_stack ctx)) pre" and "all = pre @ hdr @ tl cur"
    and "c = ARRAY [] \<and> ty = ARRAY_ITEM \<and> array_head hdr n \<or> c = MAP [] \<and> ty = MAP_KEY \<and> map_head hdr n"
  shows "sound_step F all (push_aggregate c ty n cur ctx)"
proof (cases "n = 0")
  case True
  have "encodes F (hdr @ concat []) c"
    using assms(4) True encodes.array[of hdr "[]" F "[]"] encodes.map[of hdr "[]" F "[]"] by auto
  then have "encodes F hdr c" by simp
  then show ?thesis
    using push_proc_sound[of "ctx\<lparr>m_stack := (hd (m_stack ctx))\<lparr>sp_obj := c\<rparr> # tl (m_stack ctx)\<rparr>" F pre hdr c all cur] assms(2,3) True
    by (simp add: push_aggregate_def Let_def)
next
  case False
  have "begun F ((hd (m_stack ctx))\<lparr>sp_obj := c, sp_type := ty, sp_count := n\<rparr>) hdr"
    using assms(4) False
    by (auto simp: begun_def begun_map_def intro!: exI[of _ "[]"] exI[of _ hdr])
  then have "opened F ((hd (m_stack ctx))\<lparr>sp_obj := c, sp_type := ty, sp_count := n\<rparr> # tl (m_stack ctx)) (pre @ hdr)"
    using assms(2) by auto
  then show ?thesis
    using assms(3) False
    by (auto simp: push_aggregate_def Let_def reading_def simp del: opened.simps intro!: exI[of _ "pre @ hdr"])
qed

text \<open>What the trailing bytes of a header byte make of it.\<close>

lemma scalar_encodes:
  assumes item: "scalar_item F cs n = Some obj" and len: "trail_table ! (cs - 4) \<le> length n" and n: "is_bytes n"
  shows "encodes F ((cs + 0xc0) # take (trail_table ! (cs - 4)) n) obj"
proof -
  have uint: "encodes F (h # take k n) (POSITIVE_INTEGER (load_be (take k n)))"
    if "(h, k) \<in> {(0xcc, 1), (0xcd, 2), (0xce, 4), (0xcf, 8)}" "k \<le> length n" for h k
    using encodes.uint[of h "take k n" F] that is_bytes_part(1)[OF n, of k] by (simp add: load_be_value min_absorb2)
  have sint: "encodes F (h # take k n) (unpack_int (load_signed k n))"
    if "(h, k) \<in> {(0xd0, 1), (0xd1, 2), (0xd2, 4), (0xd3, 8)}" "k \<le> length n" for h k
  proof -
    have "take k n \<noteq> []" using that by auto
    then have "load_signed k n = signed_value (take k n)"
      using signed_load[of "take k n" "drop k n"] is_bytes_part(1)[OF n, of k] that(2) by (auto simp: min_absorb2)
    then show ?thesis
      using encodes.sint[of h "take k n" F] that is_bytes_part(1)[OF n, of k] by (simp add: unpack_int_def min_absorb2)
  qed
  have float: "4 \<le> length n \<Longrightarrow> encodes F (0xca # take 4 n) (FLOAT32 (f32_of F (load_be (take 4 n))))"
    "8 \<le> length n \<Longrightarrow> encodes F (0xcb # take 8 n) (FLOAT64 (f64_of F (load_be (take 8 n))))"
    using encodes.float32[of "take 4 n" F] encodes.float64[of "take 8 n" F] is_bytes_part(1)[OF n]
    by (simp_all add: load_be_value min_absorb2)
  let ?u = "\<lambda>k. POSITIVE_INTEGER (load_be (take k n))" and ?s = "\<lambda>k. unpack_int (load_signed k n)"
  have "(cs, obj) \<in> {(0x0a, FLOAT32 (f32_of F (load_be (take 4 n)))), (0x0b, FLOAT64 (f64_of F (load_be (take 8 n)))),
      (0x0c, ?u 1), (0x0d, ?u 2), (0x0e, ?u 4), (0x0f, ?u 8), (0x10, ?s 1), (0x11, ?s 2), (0x12, ?s 4), (0x13, ?s 8)}"
    using item unfolding scalar_item_def by (simp split: if_split_asm)
  then show ?thesis
    using len uint[of "0xcc" 1] uint[of "0xcd" 2] uint[of "0xce" 4] uint[of "0xcf" 8]
      sint[of "0xd0" 1] sint[of "0xd1" 2] sint[of "0xd2" 4] sint[of "0xd3" 8] float
    unfolding insert_iff prod.inject empty_iff
    by (elim disjE conjE; simp add: trail_table_def)
qed

lemma ext_encodes:
  assumes n: "is_bytes n" and l: "0 < l" "l \<le> length n" and hdr: "ext_head hdr (l - 1)"
  shows "encodes F (hdr @ take l n) (unpack_ext n l)"
proof -
  obtain ty m where m: "n = ty # m" using l by (cases n) auto
  then have "bytes_of (chars_of (take (l - 1) m)) = take (l - 1) m" "ty < 256"
    using n is_bytes_part(1)[of m "l - 1"] by (simp_all add: bytes_of_chars)
  moreover have "length (chars_of (take (l - 1) m)) = l - 1" using l m by simp
  moreover have "take l n = ty # take (l - 1) m" using l(1) m by (cases l) simp_all
  ultimately show ?thesis
    using encodes.ext[of hdr "chars_of (take (l - 1) m)" ty F] hdr by (simp add: unpack_ext_def m)
qed

lemma fixext_encodes:
  assumes item: "fixext_item cs n = Some obj" and len: "trail_table ! (cs - 4) \<le> length n" and n: "is_bytes n"
  shows "encodes F ((cs + 0xc0) # take (trail_table ! (cs - 4)) n) obj"
proof -
  have ext: "encodes F ((cs + 0xc0) # take l n) (unpack_ext n l)"
    if "ext_head [cs + 0xc0] (l - 1)" "0 < l" "l \<le> length n" for l
    using ext_encodes[OF n that(2,3,1), of F] by simp
  have "(cs, obj) \<in> {(0x14, unpack_ext n 2), (0x15, unpack_ext n 3), (0x16, unpack_ext n 5), (0x17, unpack_ext n 9),
      (0x18, unpack_ext n 17)}"
    using item unfolding fixext_item_def by (simp split: if_split_asm flip: numeral_2_eq_2)
  then show ?thesis
    using len ext[of 2] ext[of 3] ext[of 5] ext[of 9] ext[of 17]
    unfolding insert_iff prod.inject empty_iff
    by (elim disjE conjE; simp add: trail_table_def ext_head_def)
qed

lemma sized_pending:
  assumes item: "sized_state cs n = Some (acs, l)" and len: "trail_table ! (cs - 4) \<le> length n" and n: "is_bytes n"
  defines "hdr \<equiv> (cs + 0xc0) # take (trail_table ! (cs - 4)) n"
  shows "acs = ACS_STR_VALUE \<and> str_head hdr l \<or> acs = ACS_BIN_VALUE \<and> bin_head hdr l \<or>
    acs = ACS_EXT_VALUE \<and> 0 < l \<and> wide_size {(0xc7, 1), (0xc8, 2), (0xc9, 4)} hdr (l - 1)"
proof -
  have wide: "wide_size headers ((cs + 0xc0) # take k n) (load_be (take k n))"
    if "(cs + 0xc0, k) \<in> headers" "k \<le> length n" for k headers
    using that is_bytes_part(1)[OF n, of k] by (simp add: wide_size_def load_be_value min_absorb2)
  let ?l = "\<lambda>k. load_be (take k n)"
  have "(cs, l, acs) \<in> {(0x19, ?l 1, ACS_STR_VALUE), (0x1a, ?l 2, ACS_STR_VALUE), (0x1b, ?l 4, ACS_STR_VALUE),
      (0x04, ?l 1, ACS_BIN_VALUE), (0x05, ?l 2, ACS_BIN_VALUE), (0x06, ?l 4, ACS_BIN_VALUE),
      (0x07, ?l 1 + 1, ACS_EXT_VALUE), (0x08, ?l 2 + 1, ACS_EXT_VALUE), (0x09, ?l 4 + 1, ACS_EXT_VALUE)}"
    using item unfolding sized_state_def by (simp split: if_split_asm)
  then show ?thesis
    using len wide[of 1] wide[of 2] wide[of 4]
    unfolding hdr_def insert_iff prod.inject empty_iff
    by (elim disjE conjE; simp add: trail_table_def str_head_def bin_head_def)
qed

lemma aggregate_sound:
  assumes st: "m_stack ctx \<noteq> []" "opened F (tl (m_stack ctx)) pre" and len: "trail_table ! (cs - 4) \<le> length n"
    and n: "is_bytes n" and all: "all = pre @ ((cs + 0xc0) # take (trail_table ! (cs - 4)) n) @ tl cur"
  shows "sound_step F all (aggregate_step cs n cur ctx)"
proof -
  have wide: "wide_size headers ((cs + 0xc0) # take k n) (load_be (take k n))"
    if "(cs + 0xc0, k) \<in> headers" "k \<le> length n" for k headers
    using that is_bytes_part(1)[OF n, of k] by (simp add: wide_size_def load_be_value min_absorb2)
  note array = push_aggregate_sound[OF st all, of "ARRAY []" ARRAY_ITEM]
  note map = push_aggregate_sound[OF st all, of "MAP []" MAP_KEY]
  consider "cs = 0x1c" | "cs = 0x1d" | "cs = 0x1e" | "cs = 0x1f" | "cs \<notin> {0x1c, 0x1d, 0x1e, 0x1f}" by blast
  then show ?thesis
  proof cases
    case 1
    then show ?thesis using array[of "load_be (take 2 n)"] wide[of 2] len
      by (simp add: aggregate_step_def array_head_def trail_table_def)
  next
    case 2
    then show ?thesis using array[of "load_be (take 4 n)"] wide[of 4] len
      by (simp add: aggregate_step_def array_head_def trail_table_def)
  next
    case 3
    then show ?thesis using map[of "load_be (take 2 n)"] wide[of 2] len
      by (simp add: aggregate_step_def map_head_def trail_table_def)
  next
    case 4
    then show ?thesis using map[of "load_be (take 4 n)"] wide[of 4] len
      by (simp add: aggregate_step_def map_head_def trail_table_def)
  qed (simp add: aggregate_step_def)
qed

lemma acs_distinct:
  "ACS_EXT_VALUE \<noteq> ACS_STR_VALUE" "ACS_EXT_VALUE \<noteq> ACS_BIN_VALUE" "ACS_BIN_VALUE \<noteq> ACS_STR_VALUE"
  "ACS_STR_VALUE \<noteq> ACS_BIN_VALUE"
  by (simp_all add: ACS_STR_VALUE_def ACS_BIN_VALUE_def ACS_EXT_VALUE_def)

lemma trail_table_pos: "196 \<le> s \<Longrightarrow> s \<le> 223 \<Longrightarrow> 0 < trail_table ! (s - 196)"
proof -
  assume "196 \<le> s" "s \<le> 223"
  then have "s - 196 < length trail_table" by (simp add: trail_table_def)
  moreover have "list_all (\<lambda>k. 0 < k) trail_table" by (simp add: trail_table_def)
  ultimately show ?thesis by (simp add: list_all_length)
qed

lemma value_encodes:
  assumes n: "is_bytes n" and l: "l \<le> length n"
    and hdr: "acs = ACS_STR_VALUE \<and> str_head hdr l \<or> acs = ACS_BIN_VALUE \<and> bin_head hdr l \<or>
      acs = ACS_EXT_VALUE \<and> 0 < l \<and> wide_size {(0xc7, 1), (0xc8, 2), (0xc9, 4)} hdr (l - 1)"
  shows "encodes F (hdr @ take l n) (value_item acs n l)"
proof -
  have body: "bytes_of (chars_of (take l n)) = take l n" "length (chars_of (take l n)) = l"
    using is_bytes_part(1)[OF n, of l] l by (simp_all add: bytes_of_chars)
  from hdr show ?thesis
  proof (elim disjE conjE)
    assume "acs = ACS_EXT_VALUE" "0 < l" "wide_size {(0xc7, 1), (0xc8, 2), (0xc9, 4)} hdr (l - 1)"
    then show ?thesis
      using ext_encodes[OF n _ l, of hdr F] by (simp add: value_item_def ext_head_def acs_distinct)
  qed (use encodes.str[of hdr "chars_of (take l n)" F] encodes.bin[of hdr "chars_of (take l n)" F] body in
      \<open>simp_all add: value_item_def acs_distinct\<close>)
qed

lemma trail_step_sound:
  assumes reading: "reading F all True rest ctx" and cs: "m_cs ctx \<noteq> CS_HEADER" and bytes: "is_bytes rest"
  shows "sound_step F all (trail_step F True rest ctx)"
proof -
  let ?cs = "m_cs ctx" and ?t = "m_trail ctx" and ?st = "m_stack ctx"
  obtain pre item x n where st: "?st \<noteq> []" "opened F (tl ?st) pre" and rest: "rest = x # n" and all: "all = pre @ item @ n"
    and pend: "pending ?cs ?t item"
    using reading cs by (cases rest) (auto simp: reading_def)
  have n: "is_bytes n" using bytes rest by simp
  show ?thesis
  proof (cases "length n < ?t")
    case True
    then show ?thesis by (simp add: trail_step_def rest)
  next
    case False
    then have len: "?t \<le> length n" by simp
    let ?cur = "drop (?t - 1) n"
    note step = trail_step_eq[of n True rest ctx F, OF _ len, unfolded rest, simplified]
    have pos: "0 < ?t"
    proof (cases "\<exists>s. item = [s] \<and> 0xc4 \<le> s \<and> s \<le> 0xdf \<and> ?cs = s - 0xc0 \<and> ?t = trail_table ! (s - 0xc4)")
      case True
      then obtain s where s: "196 \<le> s" "s \<le> 223" "?t = trail_table ! (s - 196)" by auto
      then show ?thesis using trail_table_pos by simp
    qed (use pend in \<open>auto simp: pending_def\<close>)
    then have cur: "tl ?cur = drop ?t n" "?cur \<noteq> []" using len by (simp_all add: tl_drop flip: drop_Suc)
    have split: "all = pre @ (item @ take ?t n) @ tl ?cur" unfolding cur(1) by (simp add: all)
    show ?thesis
    proof (cases "\<exists>s. item = [s] \<and> 0xc4 \<le> s \<and> s \<le> 0xdf \<and> ?cs = s - 0xc0 \<and> ?t = trail_table ! (s - 0xc4)")
      case True
      then have range: "4 \<le> ?cs" "?cs \<le> 31" and item: "item = [?cs + 0xc0]" and t: "?t = trail_table ! (?cs - 4)" by auto
      have len': "trail_table ! (?cs - 4) \<le> length n" using len t by simp
      have notacs: "?cs \<noteq> ACS_STR_VALUE" "?cs \<noteq> ACS_BIN_VALUE" "?cs \<noteq> ACS_EXT_VALUE"
        using range by (simp_all add: ACS_STR_VALUE_def ACS_BIN_VALUE_def ACS_EXT_VALUE_def)
      have hdr: "item @ take ?t n = (?cs + 0xc0) # take (trail_table ! (?cs - 4)) n" by (simp add: item t)
      note split' = split[unfolded hdr]
      note push = push_proc_sound[OF st _ split']
      show ?thesis
      proof (cases "scalar_item F ?cs n")
        case (Some obj)
        then show ?thesis using push[OF scalar_encodes[OF Some len' n]] by (simp add: step rest)
      next
        case scalar: None
        show ?thesis
        proof (cases "fixext_item ?cs n")
          case (Some obj)
          then show ?thesis using push[OF fixext_encodes[OF Some len' n]] by (simp add: step rest scalar)
        next
          case fixext: None
          show ?thesis
          proof (cases "sized_state ?cs n")
            case None
            then show ?thesis
              using aggregate_sound[OF st len' n split'] notacs by (simp add: step rest scalar fixext)
          next
            case (Some found)
            then obtain acs l where sized: "sized_state ?cs n = Some (acs, l)" by (cases found) simp
            note kind = sized_pending[OF sized len' n]
            show ?thesis
            proof (cases "l = 0")
              case True
              then have "encodes F ((?cs + 0xc0) # take (trail_table ! (?cs - 4)) n) (value_item acs n 0)"
                using value_encodes[OF n _ kind, of F] by simp
              from push_proc_sound[of "ctx\<lparr>m_trail := 0\<rparr>", OF _ _ this split'] show ?thesis
                using st sized True by (simp add: step rest scalar fixext)
            next
              case False
              have "acs \<noteq> CS_HEADER" using kind by auto
              moreover have "pending acs l ((?cs + 0xc0) # take (trail_table ! (?cs - 4)) n)"
                using kind False by (auto simp: pending_def)
              ultimately have "reading F all True ?cur (ctx\<lparr>m_trail := l, m_cs := acs\<rparr>)"
                using st split' cur(2) unfolding reading_def by auto
              then show ?thesis using sized False by (simp add: step rest scalar fixext)
            qed
          qed
        qed
      qed
    next
      case False
      then have kind: "?cs = ACS_STR_VALUE \<and> str_head item ?t \<or> ?cs = ACS_BIN_VALUE \<and> bin_head item ?t \<or>
          ?cs = ACS_EXT_VALUE \<and> 0 < ?t \<and> wide_size {(0xc7, 1), (0xc8, 2), (0xc9, 4)} item (?t - 1)"
        using pend by (auto simp: pending_def)
      then have acs: "?cs = ACS_STR_VALUE \<or> ?cs = ACS_BIN_VALUE \<or> ?cs = ACS_EXT_VALUE" by blast
      then have none: "scalar_item F ?cs m = None" "fixext_item ?cs m = None" "sized_state ?cs m = None" for m
        by (auto simp: scalar_item_def fixext_item_def sized_state_def ACS_STR_VALUE_def ACS_BIN_VALUE_def
            ACS_EXT_VALUE_def)
      from push_proc_sound[OF st value_encodes[OF n len kind] split] show ?thesis
        using acs by (simp add: step rest none)
    qed
  qed
qed

lemma header_step_sound:
  assumes reading: "reading F all False rest ctx" and cs: "m_cs ctx = CS_HEADER" and ne: "rest \<noteq> []" and bytes: "is_bytes rest"
  shows "sound_step F all (header_step rest ctx)"
proof -
  obtain s n where rest: "rest = s # n" using ne by (cases rest) auto
  obtain pre where st: "m_stack ctx \<noteq> []" "opened F (tl (m_stack ctx)) pre" and all: "all = pre @ [s] @ tl rest"
    using reading cs rest by (auto simp: reading_def)
  note push = push_proc_sound[OF st _ all] and aggregate = push_aggregate_sound[OF st all]
  have str: "encodes F [s] (STRING [])" if "160 \<le> s" "s \<le> 191" "s AND 31 = 0"
  proof -
    have "s = 160" using that prefix_bits(6)[of "s - 160"] by simp
    then show ?thesis using encodes.str[of "[160]" "[]" F] by (simp add: str_head_def small_size_def bytes_of_def)
  qed
  have fixstr: "pending ACS_STR_VALUE (s AND 31) [s]" if "160 \<le> s" "s \<le> 191" "0 < s AND 31"
    using that prefix_bits(6)[of "s - 160"] by (auto simp: pending_def str_head_def small_size_def)
  have array: "array_head [s] (s AND 15)" if "144 \<le> s" "s \<le> 159"
    using that prefix_bits(2)[of "s - 144"] by (auto simp: array_head_def small_size_def)
  have map: "map_head [s] (s AND 15)" if "128 \<le> s" "s \<le> 143"
    using that prefix_bits(4)[of "s - 128"] by (auto simp: map_head_def small_size_def)
  have table: "pending (s AND 31) (trail_table ! (s - 196)) [s]" "s AND 31 \<noteq> CS_HEADER" if "196 \<le> s" "s \<le> 223"
  proof -
    have "s AND 31 = s - 192"
      using that mod_mult_self1[of "s - 192" 6 32] by (simp add: and_low)
    then show "pending (s AND 31) (trail_table ! (s - 196)) [s]" "s AND 31 \<noteq> CS_HEADER"
      using that by (auto simp: pending_def CS_HEADER_def)
  qed
  have neg: "encodes F [s] (unpack_int (int s - 256))" if "224 \<le> s" "s \<le> 255"
    using that encodes.negative_fixnum[of "int s - 256" F] by (simp add: unpack_int_def)
  have small: "encodes F [s] (POSITIVE_INTEGER s)" if "s \<le> 127" using that by (intro encodes.fixnum) simp
  have bool: "encodes F [194] (BOOLEAN False)" "encodes F [195] (BOOLEAN True)" "encodes F [192] NIL"
    using encodes.bool[of F False] encodes.bool[of F True] encodes.nil[of F] by simp_all
  have go: "reading F all True rest (ctx\<lparr>m_trail := t, m_cs := c\<rparr>)" if "pending c t [s]" "c \<noteq> CS_HEADER" for c t
    using that st all ne by (auto simp: reading_def rest)
  have go_str: "reading F all True rest (ctx\<lparr>m_trail := s AND 31, m_cs := ACS_STR_VALUE\<rparr>)"
    if "160 \<le> s" "s \<le> 191" "0 < s AND 31" by (rule go[OF fixstr[OF that]]) simp
  have empty: "sound_step F all (push_proc (STRING []) rest (ctx\<lparr>m_trail := 0\<rparr>))" if "160 \<le> s" "s \<le> 191" "s AND 31 = 0"
    by (rule push_proc_sound[OF _ _ str[OF that] all]) (use st in simp_all)
  note step = header_step_def[of rest ctx, unfolded rest list.sel Let_def, folded rest]
  consider "s \<le> 127" | "128 \<le> s \<and> s \<le> 143" | "144 \<le> s \<and> s \<le> 159" | "160 \<le> s \<and> s \<le> 191" | "s = 192" | "s = 193"
    | "s = 194" | "s = 195" | "196 \<le> s \<and> s \<le> 223" | "224 \<le> s \<and> s \<le> 255" | "255 < s" by linarith
  then show ?thesis
  proof cases
    case 1
    then show ?thesis using push[OF small] by (simp add: step)
  next
    case 2
    then show ?thesis using aggregate[of "MAP []" MAP_KEY "s AND 15"] map by (simp add: step)
  next
    case 3
    then show ?thesis using aggregate[of "ARRAY []" ARRAY_ITEM "s AND 15"] array by (simp add: step)
  next
    case 4
    then show ?thesis using go_str empty by (simp add: step)
  next
    case 5
    then show ?thesis using push bool by (simp add: step)
  next
    case 7
    then show ?thesis using push bool by (simp add: step)
  next
    case 8
    then show ?thesis using push bool by (simp add: step)
  next
    case 9
    then show ?thesis using go[OF table] by (simp add: step)
  next
    case 10
    then show ?thesis using push[OF neg] by (simp add: step)
  qed (simp_all add: step)
qed

lemma parse_round_sound:
  assumes reading: "reading F all fixed rest ctx" and ne: "rest \<noteq> []" and bytes: "is_bytes rest"
  shows "sound_step F all (parse_round F fixed rest ctx)"
proof (cases "m_cs ctx = CS_HEADER")
  case header: True
  then have "reading F all False rest ctx" using reading by (auto simp: reading_def)
  note h = header_step_sound[OF this header ne bytes]
  show ?thesis
  proof (cases "header_step rest ctx")
    case (Go f r c)
    then have c: "reading F all f r c" using h by simp
    have r: "is_bytes r" using header_step_Go[OF Go] bytes is_bytes_part(2)[of rest 1] by (auto simp: drop_Suc)
    show ?thesis
    proof (cases "m_cs c \<noteq> CS_HEADER \<or> f")
      case True
      then have "m_cs c \<noteq> CS_HEADER" "f" using c by (auto simp: reading_def split: if_splits)
      with c trail_step_sound[OF _ _ r] show ?thesis using header Go by (simp add: parse_round_def)
    qed (use c header Go in \<open>simp add: parse_round_def\<close>)
  qed (use h header in \<open>simp_all add: parse_round_def\<close>)
next
  case False
  then have "fixed" using reading by (auto simp: reading_def)
  with trail_step_sound[OF _ False bytes] reading False show ?thesis by (simp add: parse_round_def)
qed

lemma execute_sound:
  "reading F all fixed rest ctx \<Longrightarrow> is_bytes rest \<Longrightarrow> sound_step F all (execute F fixed rest ctx)"
proof (induction F fixed rest ctx rule: execute.induct)
  case (1 F fixed rest ctx)
  show ?case
  proof (cases "rest = []")
    case False
    note round = parse_round_sound[OF "1.prems"(1) False "1.prems"(2)]
    show ?thesis
    proof (cases "parse_round F fixed rest ctx")
      case (Go f r c)
      have "is_bytes r" using parse_round_drop(2)[OF Go] "1.prems"(2) is_bytes_part(2) by auto
      then show ?thesis using "1.IH"[OF False Go] round Go False by (simp add: execute_round)
    qed (use round False in \<open>simp_all add: execute_round\<close>)
  qed simp
qed

text \<open>One call of \<open>next\<close> between two messages: it yields an object exactly when the bytes begin with the encoding
  of one, and then that object.\<close>

definition starts_object :: "float_bits \<Rightarrow> bytes \<Rightarrow> bool" where
  "starts_object F bs \<longleftrightarrow> (\<exists>b obj rest. bs = b @ rest \<and> encodes F b obj \<and> depth obj \<le> limit_size)"

lemma next_sound:
  assumes "is_bytes bs" and "unpacker_next F \<lparr>nonparsed = bs, m_ctx = context_init\<rparr> = Inr (Some obj, u')"
  shows "\<exists>b rest. bs = b @ rest \<and> encodes F b obj \<and> u' = \<lparr>nonparsed = rest, m_ctx = context_init\<rparr>"
proof -
  obtain e rest ctx where run: "execute F False bs context_init = Ret e rest ctx" "0 < e"
    "obj = sp_obj (last (m_stack ctx))" "u' = \<lparr>nonparsed = rest, m_ctx = context_init\<rparr>"
    using assms(2) by (auto simp: unpacker_next_def split: step.splits if_splits)
  have "reading F bs False bs context_init" by (simp add: reading_def context_init_def)
  from execute_sound[OF this assms(1)] run show ?thesis by auto
qed

lemma next_complete:
  assumes "starts_object F bs"
  shows "\<exists>obj u'. unpacker_next F \<lparr>nonparsed = bs, m_ctx = context_init\<rparr> = Inr (Some obj, u')"
proof -
  obtain b obj rest where b: "bs = b @ rest" "encodes F b obj" "depth obj \<le> limit_size"
    using assms by (auto simp: starts_object_def)
  obtain c t sp where "execute F False (b @ rest) context_init = Ret 1 rest \<lparr>m_cs = c, m_trail = t, m_stack = [sp]\<rparr>"
    by (rule execute_encoded[OF b(2,3), of rest])
  then show ?thesis by (simp add: unpacker_next_def b(1))
qed

lemma drain_decodes:
  "u = \<lparr>nonparsed = bs, m_ctx = context_init\<rparr> \<Longrightarrow> is_bytes bs \<Longrightarrow>
    \<exists>bss rest. bs = concat bss @ rest \<and> list_all2 (encodes F) bss (fst (drain F u)) \<and> \<not> starts_object F rest"
proof (induction F u arbitrary: bs rule: drain.induct)
  case (1 F u)
  show ?case
  proof (cases "\<exists>obj u'. unpacker_next F u = Inr (Some obj, u')")
    case True
    then obtain obj u' where run: "unpacker_next F u = Inr (Some obj, u')" by blast
    obtain b rest where b: "bs = b @ rest" "encodes F b obj" "u' = \<lparr>nonparsed = rest, m_ctx = context_init\<rparr>"
      using next_sound[OF "1.prems"(2)] run "1.prems"(1) by blast
    obtain bss rest' where IH: "rest = concat bss @ rest'" "list_all2 (encodes F) bss (fst (drain F u'))"
      "\<not> starts_object F rest'"
      using "1.IH"[OF run refl refl b(3)] "1.prems"(2) b(1) by auto
    have "fst (drain F u) = obj # fst (drain F u')" using run by (simp add: drain.simps[of F u] case_prod_beta)
    then show ?thesis using IH b by (intro exI[of _ "b # bss"] exI[of _ rest']) simp
  next
    case False
    then have "fst (drain F u) = []" by (auto simp: drain.simps[of F u] split: sum.split option.split)
    moreover have "\<not> starts_object F bs" using next_complete[of F bs] False "1.prems"(1) by blast
    ultimately show ?thesis by (intro exI[of _ "[]"] exI[of _ bs]) simp
  qed
qed

section \<open>Properties\<close>

text \<open>C17: whatever bytes arrive and however they are cut into reads, a session parses exactly the objects the
  stream encodes in the msgpack format, with any of the encodings the format allows: the stream is the encodings of
  the objects handed out, in order, followed by bytes that do not begin with another object (of a nesting the parser
  accepts).\<close>

theorem parser_decodes_format:
  assumes "list_all is_bytes chunks"
  shows "\<exists>bss rest. concat chunks = concat bss @ rest \<and>
    list_all2 (encodes F) bss (fst (do_reads F chunks unpacker_new)) \<and> \<not> starts_object F rest"
proof -
  have "do_reads F chunks unpacker_new = drain F \<lparr>nonparsed = concat chunks, m_ctx = context_init\<rparr>"
    using do_reads_concat[of unpacker_new F chunks] drain_new[of F]
    by (simp add: do_read_def buffer_consumed_def unpacker_new_def context_init_def ctx_ok_header)
  moreover have "is_bytes (concat chunks)" using assms by simp
  ultimately show ?thesis using drain_decodes[OF refl] by simp
qed

text \<open>A message in four pieces, in which a number is written in two bytes though it fits one, and the first byte of
  another message.\<close>

theorem parser_decodes_format_witness:
  "\<exists>bss rest. [0x92, 0xa1, 97, 0xcd, 0, 5, 0xce] = concat bss @ rest \<and>
     list_all2 (encodes zero_floats) bss [ARRAY [STRING ''a'', POSITIVE_INTEGER 5]] \<and> \<not> starts_object zero_floats rest"
proof -
  let ?chunks = "[[0x92], [0xa1, 97], [0xcd, 0], [5, 0xce]]" and ?obj = "ARRAY [STRING ''a'', POSITIVE_INTEGER 5]"
  have a: "encodes F [0xa1, 97] (STRING ''a'')" and n: "encodes F [0xcd, 0, 5] (POSITIVE_INTEGER 5)" for F
    using encodes.str[of "[0xa1]" "''a''" F] encodes.uint[of "0xcd" "[0, 5]" F]
    by (simp_all add: str_head_def small_size_def bytes_of_def)
  have "encodes zero_floats ([0x92] @ concat [[0xa1, 97], [0xcd, 0, 5]]) ?obj"
    by (rule encodes.array) (simp_all add: array_head_def small_size_def a n)
  then have enc: "encodes zero_floats [0x92, 0xa1, 97, 0xcd, 0, 5] ?obj" by simp
  obtain c t b where run: "execute zero_floats False ([0x92, 0xa1, 97, 0xcd, 0, 5] @ [0xce]) context_init =
      Ret 1 [0xce] \<lparr>m_cs = c, m_trail = t, m_stack = [b]\<rparr>" and b: "sp_obj b = ?obj"
    by (rule execute_encoded[OF enc, of "[0xce]"]) (simp add: limit_size_def)
  have "execute zero_floats False [0xce] context_init = Ret 0 [] (context_init\<lparr>m_trail := 4, m_cs := 0x0e\<rparr>)"
    using execute_trail_header[of context_init "0xce" 4 "0x0e" zero_floats "[]"]
    by (simp add: context_init_def trail_step_def)
  then have "fst (do_reads zero_floats ?chunks unpacker_new) = [?obj]"
    using do_reads_concat[of unpacker_new zero_floats ?chunks] drain_new[of zero_floats] run b
    by (simp add: do_read_def buffer_consumed_def unpacker_new_def drain.simps unpacker_next_def)
  moreover have "list_all is_bytes ?chunks" by simp
  note parser_decodes_format[OF this, of zero_floats]
  ultimately show ?thesis by simp
qed

end
