(* ===== verification/Auditor_Races.thy ===== *)
theory Auditor_Races
  imports Auditor_Properties
begin

text \<open>
  \<open>MarkFileSegmentsActive\<close> and \<open>MarkFileSegmentsInactive\<close> of \<open>src/src/server/file_segment_auditor.cpp\<close> read the count of a file
  and write it back in a second operation on a distributed map that all servers share. Each of the two
  operations holds the lock of the map, the pair of them does not. Here the two operations are separate steps of
  a call, and calls of any number of workers on any servers interleave.

  \<open>IncreaseFileSegmentFrequency\<close> queries the segments a read overlaps and then replaces them one by one, without a lock
  that spans the calls. Here the query and the replacement of each segment are steps; a replacement is several operations
  of the code, so that every run of this model is a run of the code in which the workers switch between elements only.
\<close>

section \<open>Calls in two steps\<close>

datatype mark_state = Called | Got "nat option" | Marked

record marker =
  mk_server :: nat
  mk_event :: Event
  mk_state :: mark_state

definition marker_read :: "env \<Rightarrow> marker \<Rightarrow> auditor \<Rightarrow> nat option res" where
  "marker_read e m a = DHM_Get (file_active_status_d e) (mk_server m) (ev_filename (mk_event m)) (file_active_status a)"

definition marker_write :: "env \<Rightarrow> marker \<Rightarrow> nat option \<Rightarrow> auditor \<Rightarrow> auditor res" where
  "marker_write e m iter a =
     (let put = (\<lambda>n. rbind (DHM_Put (file_active_status_d e) (mk_server m) (ev_filename (mk_event m)) n (file_active_status a))
                       (\<lambda>(_, s). Inr (a\<lparr>file_active_status := s\<rparr>)))
      in if event_type (mk_event m) = FILE_OPEN then put (case iter of Some n \<Rightarrow> (n + 1) mod 2 ^ 32 | None \<Rightarrow> 1)
         else case iter of Some n \<Rightarrow> put ((n + 2 ^ 32 - 1) mod 2 ^ 32) | None \<Rightarrow> Inr a)"

text \<open>The two steps in a row are the calls of the auditor.\<close>

lemma marker_is_call:
  "rbind (marker_read e m a) (\<lambda>iter. marker_write e m iter a) =
     (if event_type (mk_event m) = FILE_OPEN then MarkFileSegmentsActive e (mk_server m) (mk_event m) a
      else MarkFileSegmentsInactive e (mk_server m) (mk_event m) a)"
  by (simp add: marker_read_def marker_write_def MarkFileSegmentsActive_def MarkFileSegmentsInactive_def Let_def
      cong: option.case_cong)

inductive marking_step :: "env \<Rightarrow> auditor \<times> marker list \<Rightarrow> auditor \<times> marker list \<Rightarrow> bool" for e :: env where
  mark_read: "mk_state m = Called \<Longrightarrow> marker_read e m a = Inr iter \<Longrightarrow>
    marking_step e (a, ms1 @ m # ms2) (a, ms1 @ m\<lparr>mk_state := Got iter\<rparr> # ms2)"
| mark_write: "mk_state m = Got iter \<Longrightarrow> marker_write e m iter a = Inr a' \<Longrightarrow>
    marking_step e (a, ms1 @ m # ms2) (a', ms1 @ m\<lparr>mk_state := Marked\<rparr> # ms2)"

inductive_cases marking_stepE: "marking_step e s s'"

inductive marking_run :: "env \<Rightarrow> auditor \<times> marker list \<Rightarrow> auditor \<times> marker list \<Rightarrow> bool" for e :: env and s where
  run_start: "marking_run e s s"
| run_step: "marking_run e s s1 \<Longrightarrow> marking_step e s1 s2 \<Longrightarrow> marking_run e s s2"

section \<open>Concurrent opens\<close>

definition count_of :: "nat option \<Rightarrow> nat" where
  "count_of iter = (case iter of Some n \<Rightarrow> n | None \<Rightarrow> 0)"

definition marked :: "marker list \<Rightarrow> nat" where
  "marked ms = length (filter (\<lambda>m. mk_state m = Marked) ms)"

lemma marked_simps [simp]:
  "marked [] = 0" "marked (m # ms) = (if mk_state m = Marked then 1 else 0) + marked ms"
  "marked (ms @ ms') = marked ms + marked ms'"
  by (simp_all add: marked_def)

lemma marked_le: "marked ms \<le> length ms"
  by (simp add: marked_def)

text \<open>From a count of \<open>c\<close>: what the calls in progress know of it, and the count itself.\<close>

definition opening_ok :: "env \<Rightarrow> string \<Rightarrow> nat \<Rightarrow> auditor \<times> marker list \<Rightarrow> bool" where
  "opening_ok e f c s \<longleftrightarrow>
     (case s of (a, ms) \<Rightarrow>
        auditor_invar e a \<and> c + length ms < 2 ^ 32 \<and>
        c + (if marked ms = 0 then 0 else 1) \<le> count_of (active_count e a f) \<and>
        count_of (active_count e a f) \<le> c + marked ms \<and>
        (\<forall>m\<in>set ms. event_type (mk_event m) = FILE_OPEN \<and> ev_filename (mk_event m) = f \<and>
           (\<forall>iter. mk_state m = Got iter \<longrightarrow> c \<le> count_of iter \<and> count_of iter \<le> c + marked ms)))"

lemma marker_read_run: "auditor_invar e a \<Longrightarrow> marker_read e m a = Inr (active_count e a (ev_filename (mk_event m)))"
  by (simp add: marker_read_def active_Get active_count_def)

lemma marker_open_run:
  assumes "auditor_invar e a" and "event_type (mk_event m) = FILE_OPEN" and "count_of iter + 1 < 2 ^ 32"
  shows "\<exists>a'. marker_write e m iter a = Inr a' \<and> auditor_invar e a' \<and>
    active_count e a' = (active_count e a)(ev_filename (mk_event m) \<mapsto> count_of iter + 1)"
proof -
  have v: "(case iter of Some n \<Rightarrow> (n + 1) mod 2 ^ 32 | None \<Rightarrow> 1) = count_of iter + 1"
    using assms(3) by (auto simp: count_of_def split: option.splits)
  obtain s where "DHM_Put (file_active_status_d e) (mk_server m) (ev_filename (mk_event m)) (count_of iter + 1)
      (file_active_status a) = Inr (True, s)"
    "auditor_invar e (a\<lparr>file_active_status := s\<rparr>)"
    "dhm_lookup (file_active_status_d e) s =
       (dhm_lookup (file_active_status_d e) (file_active_status a))(ev_filename (mk_event m) \<mapsto> count_of iter + 1)"
    using auditor_invar_active[OF assms(1)] by blast
  then show ?thesis
    using assms(2) by (intro exI[of _ "a\<lparr>file_active_status := s\<rparr>"])
      (simp add: marker_write_def v active_count_def fun_eq_iff del: One_nat_def)
qed

lemma marking_step_ok:
  assumes "marking_step e s s'" and "opening_ok e f c s"
  shows "opening_ok e f c s'"
  using assms
proof (cases rule: marking_step.cases)
  case (mark_read m a iter ms1 ms2)
  then have "iter = active_count e a f" using assms(2) by (simp add: opening_ok_def marker_read_run)
  then show ?thesis using mark_read assms(2) by (auto simp: opening_ok_def)
next
  case (mark_write m iter a a' ms1 ms2)
  have m: "event_type (mk_event m) = FILE_OPEN" "ev_filename (mk_event m) = f" "c \<le> count_of iter"
    "count_of iter \<le> c + (marked ms1 + marked ms2)" and inv: "auditor_invar e a"
    and room: "c + (length ms1 + Suc (length ms2)) < 2 ^ 32"
    using mark_write assms(2) by (auto simp: opening_ok_def)
  have "count_of iter + 1 < 2 ^ 32" using m(4) room marked_le[of ms1] marked_le[of ms2] by linarith
  then obtain a1 where "marker_write e m iter a = Inr a1" "auditor_invar e a1"
    "active_count e a1 = (active_count e a)(f \<mapsto> count_of iter + 1)"
    using marker_open_run[OF inv m(1)] m(2) by blast
  then have a': "auditor_invar e a'" "count_of (active_count e a' f) = count_of iter + 1"
    using mark_write by (simp_all add: count_of_def)
  have others: "\<forall>m'\<in>set (ms1 @ ms2). event_type (mk_event m') = FILE_OPEN \<and> ev_filename (mk_event m') = f \<and>
      (\<forall>iter. mk_state m' = Got iter \<longrightarrow> c \<le> count_of iter \<and> count_of iter \<le> c + (marked ms1 + marked ms2))"
    using mark_write assms(2) by (auto simp: opening_ok_def)
  then show ?thesis
    using mark_write(2) a' m room unfolding opening_ok_def by (auto simp: le_SucI)
qed

lemma marking_run_ok: "marking_run e s s' \<Longrightarrow> opening_ok e f c s \<Longrightarrow> opening_ok e f c s'"
  by (induction rule: marking_run.induct) (auto dest: marking_step_ok)

lemma marking_step_length: "marking_step e s s' \<Longrightarrow> length (snd s') = length (snd s)"
  by (induction rule: marking_step.induct) simp_all

lemma marking_run_length: "marking_run e s s' \<Longrightarrow> length (snd s') = length (snd s)"
  by (induction rule: marking_run.induct) (simp_all add: marking_step_length)

lemma marked_none: "\<forall>m\<in>set ms. mk_state m = Called \<Longrightarrow> marked ms = 0"
  by (induction ms) simp_all

lemma marked_all: "\<forall>m\<in>set ms. mk_state m = Marked \<Longrightarrow> marked ms = length ms"
  by (induction ms) simp_all

text \<open>A call that is not disturbed.\<close>

definition caller :: "nat \<Rightarrow> Event \<Rightarrow> marker" where
  "caller me event = \<lparr>mk_server = me, mk_event = event, mk_state = Called\<rparr>"

section \<open>Concurrent reads\<close>

datatype read_state = To_read | Updating nat "(Segment \<times> seg_info) list" | Unknown_file

record reader =
  rd_server :: nat
  rd_event :: Event
  rd_state :: read_state

inductive reading_step :: "env \<Rightarrow> auditor \<times> reader list \<Rightarrow> auditor \<times> reader list \<Rightarrow> bool" for e :: env where
  read_unknown: "rd_state r = To_read \<Longrightarrow> um_find (ev_filename (rd_event r)) (file_segment_map a (rd_server r)) = None \<Longrightarrow>
    reading_step e (a, rs1 @ r # rs2) (a, rs1 @ r\<lparr>rd_state := Unknown_file\<rparr> # rs2)"
| read_contains: "rd_state r = To_read \<Longrightarrow> um_find (ev_filename (rd_event r)) (file_segment_map a (rd_server r)) = Some i \<Longrightarrow>
    DM_Contains Segment_less Segment_Contains (offset_map_d e i) (rd_server r) (ev_segment (rd_event r)) (offsetMaps a i) =
      Inr allDatas \<Longrightarrow>
    reading_step e (a, rs1 @ r # rs2) (a, rs1 @ r\<lparr>rd_state := Updating i allDatas\<rparr> # rs2)"
| read_element: "rd_state r = Updating i (elements # rest) \<Longrightarrow>
    increase_element e i (rd_server r) (rd_event r) elements a = Inr a' \<Longrightarrow>
    reading_step e (a, rs1 @ r # rs2) (a', rs1 @ r\<lparr>rd_state := Updating i rest\<rparr> # rs2)"

inductive reading_run :: "env \<Rightarrow> auditor \<times> reader list \<Rightarrow> auditor \<times> reader list \<Rightarrow> bool" for e :: env and s where
  reading_start: "reading_run e s s"
| reading_next: "reading_run e s s1 \<Longrightarrow> reading_step e s1 s2 \<Longrightarrow> reading_run e s s2"

definition reader_of :: "nat \<Rightarrow> Event \<Rightarrow> reader" where
  "reader_of me event = \<lparr>rd_server = me, rd_event = event, rd_state = To_read\<rparr>"

text \<open>A reader that is not disturbed does what the call of the auditor does.\<close>

lemma reading_elements:
  "rfold (increase_element e i (rd_server r) (rd_event r)) xs a = Inr a' \<Longrightarrow>
    reading_run e s (a, [r\<lparr>rd_state := Updating i xs\<rparr>]) \<Longrightarrow> reading_run e s (a', [r\<lparr>rd_state := Updating i []\<rparr>])"
proof (induction xs arbitrary: a)
  case (Cons x xs)
  then obtain a1 where a1: "increase_element e i (rd_server r) (rd_event r) x a = Inr a1"
    "rfold (increase_element e i (rd_server r) (rd_event r)) xs a1 = Inr a'"
    by (auto simp: rbind_Inr_iff)
  have "reading_step e (a, [] @ r\<lparr>rd_state := Updating i (x # xs)\<rparr> # [])
      (a1, [] @ r\<lparr>rd_state := Updating i (x # xs), rd_state := Updating i xs\<rparr> # [])"
    by (rule read_element, simp, simp add: a1(1))
  from reading_next[OF _ this[simplified]] Cons.prems(2) have "reading_run e s (a1, [r\<lparr>rd_state := Updating i xs\<rparr>])" by simp
  then show ?case by (rule Cons.IH[OF a1(2)])
qed simp

lemma reader_is_call:
  assumes "IncreaseFileSegmentFrequency e me event a = Inr a'"
  shows "\<exists>st. reading_run e (a, [reader_of me event]) (a', [(reader_of me event)\<lparr>rd_state := st\<rparr>]) \<and>
    (st = Unknown_file \<or> (\<exists>i. st = Updating i []))"
proof (cases "um_find (ev_filename event) (file_segment_map a me)")
  case None
  then have "reading_step e (a, [] @ reader_of me event # []) (a, [] @ (reader_of me event)\<lparr>rd_state := Unknown_file\<rparr> # [])"
    by (intro read_unknown) (simp_all add: reader_of_def)
  with None assms show ?thesis
    using reading_next[OF reading_start] by (fastforce simp: IncreaseFileSegmentFrequency_def)
next
  case (Some i)
  then obtain xs where xs: "DM_Contains Segment_less Segment_Contains (offset_map_d e i) me (ev_segment event) (offsetMaps a i) =
      Inr xs" "rfold (increase_element e i me event) xs a = Inr a'"
    using assms by (auto simp: IncreaseFileSegmentFrequency_def rbind_Inr_iff)
  have "reading_step e (a, [] @ reader_of me event # []) (a, [] @ (reader_of me event)\<lparr>rd_state := Updating i xs\<rparr> # [])"
    by (rule read_contains) (use Some xs(1) in \<open>simp_all add: reader_of_def\<close>)
  from reading_elements[where r = "reader_of me event" and i = i, OF _ reading_next[OF reading_start this[simplified]]] xs(2)
  show ?thesis by (auto simp: reader_of_def)
qed

text \<open>Elements that start elsewhere survive the replacement of an element that may no longer be there.\<close>

lemma equivalent_start: "equivalent Segment_less a b \<longleftrightarrow> seg_start a = seg_start b"
  by (auto simp: equivalent_def Segment_less_def)

lemma segmap_put_keeps:
  assumes "env_wf e" and "i < max_num_files e" and "dm_invar Segment_less (offset_map_d e i) st"
    and "segmap_put e i me c v st = Inr st'"
  shows "dm_invar Segment_less (offset_map_d e i) st' \<and> (c, v) \<in> dm_set st' \<and>
    (\<forall>x\<in>dm_set st. seg_start (fst x) \<noteq> seg_start c \<longrightarrow> x \<in> dm_set st')"
proof -
  have st': "st' = st(owner (offset_map_d e i) c := DM_Put_local Segment_less c v (st (owner (offset_map_d e i) c)))"
    using assms(4) by (simp add: segmap_put_run[OF assms(1,2)])
  show ?thesis
    unfolding st' seg_order.dm_set_Put[OF assms(3)]
    using seg_order.dm_invar_Put[OF assms(3)] by (auto simp: equivalent_start)
qed

lemma put_all_keeps:
  assumes "env_wf e" and "i < max_num_files e"
  shows "dm_invar Segment_less (offset_map_d e i) st \<Longrightarrow> rfold (\<lambda>c. segmap_put e i me c v) cs st = Inr st' \<Longrightarrow>
    dm_invar Segment_less (offset_map_d e i) st' \<and>
    (\<forall>x\<in>dm_set st. seg_start (fst x) \<notin> seg_start ` set cs \<longrightarrow> x \<in> dm_set st')"
proof (induction cs arbitrary: st)
  case (Cons c cs)
  then obtain st1 where st1: "segmap_put e i me c v st = Inr st1" "rfold (\<lambda>c. segmap_put e i me c v) cs st1 = Inr st'"
    by (auto simp: rbind_Inr_iff)
  with segmap_put_keeps[OF assms Cons.prems(1) st1(1)] Cons.IH[OF _ st1(2)] show ?case by auto
qed simp

lemma replace_segment_keeps:
  assumes "env_wf e" and "i < max_num_files e" and "dm_invar Segment_less (offset_map_d e i) st"
    and "replace_segment e i me seg k v v' st = Inr st'"
  shows "(Segment_Intersect seg k, v') \<in> dm_set st' \<and>
    (\<forall>x\<in>dm_set st. seg_start (fst x) \<notin> seg_start ` ({k, Segment_Intersect seg k} \<union> set (Segment_Substract k seg)) \<longrightarrow>
       x \<in> dm_set st')"
proof -
  obtain b st1 st2 where st: "DM_Erase Segment_less (offset_map_d e i) me k st = Inr (b, st1)"
    "rfold (\<lambda>c. segmap_put e i me c v) (Segment_Substract k seg) st1 = Inr st2"
    "segmap_put e i me (Segment_Intersect seg k) v' st2 = Inr st'"
    using assms(4) by (auto simp: replace_segment_def rbind_Inr_iff)
  have st1: "st1 = st(owner (offset_map_d e i) k := om_erase Segment_less k (st (owner (offset_map_d e i) k)))"
    using st(1) by (simp add: DM_Erase_run[OF env_wf_dists(5)[OF assms(1,2)]])
  have inv1: "dm_invar Segment_less (offset_map_d e i) st1"
    unfolding st1 by (rule seg_order.dm_invar_Erase[OF assms(3)])
  have kept1: "x \<in> dm_set st1" if "x \<in> dm_set st" "seg_start (fst x) \<noteq> seg_start k" for x
    unfolding st1 seg_order.dm_set_Erase[OF assms(3)] using that by (simp add: equivalent_start)
  from put_all_keeps[OF assms(1,2) inv1 st(2)]
  have st2: "dm_invar Segment_less (offset_map_d e i) st2"
    "\<forall>x\<in>dm_set st1. seg_start (fst x) \<notin> seg_start ` set (Segment_Substract k seg) \<longrightarrow> x \<in> dm_set st2" by simp_all
  from segmap_put_keeps[OF assms(1,2) st2(1) st(3)] st2(2) kept1 show ?thesis by auto
qed

lemma increase_element_run:
  assumes "auditor_invar e a" and "layer_index event \<in> layer_id ` set (layers e)" and "i < max_num_files e"
  shows "\<exists>a'. increase_element e i me event (k, (f, s)) a = Inr a' \<and> auditor_invar e a' \<and>
    file_segment_map a' = file_segment_map a \<and>
    replace_segment e i me (ev_segment event) k (f, s) (f, bump_score (ev_time event) s) (offsetMaps a i) =
      Inr (offsetMaps a' i)"
proof -
  have score: "score_invar e a" using assms(1) by (simp add: auditor_invar_def)
  obtain a' st m where a': "increase_element e i me event (k, (f, s)) a = Inr a'" "score_invar e a'"
    "dm_invar Segment_less (offset_map_d e i) (offsetMaps a' i)" "a' = (set_offset_map i st a)\<lparr>layer_score_map := m\<rparr>"
    using increase.loop_total[OF assms(2,3) score auditor_store[OF assms(1,3)], of me "[(k, (f, s))]"]
    by (auto simp: rbind_Inr_iff)
  obtain st' where st': "replace_segment e i me (ev_segment event) k (f, s) (f, bump_score (ev_time event) s) (offsetMaps a i) =
      Inr st'"
    and rescored: "update_layer_score e me (layer_id (pf_layer f)) (GetScore s) (ev_filename event) k
        (GetScore (bump_score (ev_time event) s))
        (rbind (new_posix_file e (ev_filename event) (Segment_Intersect (ev_segment event) k) (layer_index event))
          (\<lambda>sub_source. Inr (sub_source, f\<lparr>pf_segment := Segment_Intersect (ev_segment event) k\<rparr>)))
        (set_offset_map i st' a) = Inr a'"
    using a'(1) by (auto simp: increase_element_def rbind_Inr_iff Let_def)
  obtain m' where "a' = (set_offset_map i st' a)\<lparr>layer_score_map := m'\<rparr>"
    using update_layer_score_frame[OF rescored] by blast
  then have "offsetMaps a' i = st'" "file_segment_map a' = file_segment_map a" by (simp_all add: set_offset_map_def)
  with a'(1) st' auditor_invar_loop[OF assms(1) a'(4,2,3)] show ?thesis by blast
qed

section \<open>Properties\<close>

text \<open>C21: When several calls of \<open>fopen\<close> on one file are recorded at the same time, on any servers and in any interleaving
  of their reads and writes, the count of the file grows by at least one and by at most the number of the calls.\<close>

theorem concurrent_opens_bounds:
  assumes "marking_run e (a, ms) (a', ms')" and "auditor_invar e a" and "ms \<noteq> []"
    and "count_of (active_count e a f) + length ms < 2 ^ 32"
    and "\<forall>m\<in>set ms. mk_state m = Called \<and> event_type (mk_event m) = FILE_OPEN \<and> ev_filename (mk_event m) = f"
    and "\<forall>m\<in>set ms'. mk_state m = Marked"
  shows "count_of (active_count e a f) + 1 \<le> count_of (active_count e a' f) \<and>
    count_of (active_count e a' f) \<le> count_of (active_count e a f) + length ms"
proof -
  have "opening_ok e f (count_of (active_count e a f)) (a, ms)"
    using assms(2,4,5) marked_none[of ms] by (simp add: opening_ok_def)
  from marking_run_ok[OF assms(1) this]
  have "opening_ok e f (count_of (active_count e a f)) (a', ms')" .
  moreover have "marked ms' = length ms" using marked_all[OF assms(6)] marking_run_length[OF assms(1)] by simp
  ultimately show ?thesis using assms(3) by (auto simp: opening_ok_def)
qed

text \<open>Both reads before both writes.\<close>

lemma lost_open_run:
  assumes "auditor_invar e a" and "count_of (active_count e a f) + 1 < 2 ^ 32"
    and "event_type ev1 = FILE_OPEN" "ev_filename ev1 = f" and "event_type ev2 = FILE_OPEN" "ev_filename ev2 = f"
  shows "\<exists>a'. marking_run e (a, [caller me1 ev1, caller me2 ev2])
      (a', [(caller me1 ev1)\<lparr>mk_state := Marked\<rparr>, (caller me2 ev2)\<lparr>mk_state := Marked\<rparr>]) \<and> auditor_invar e a' \<and>
    active_count e a' f = Some (count_of (active_count e a f) + 1)"
proof -
  let ?n = "active_count e a f"
  let ?m1 = "caller me1 ev1" and ?m2 = "caller me2 ev2"
  have r1: "marking_step e (a, [] @ ?m1 # [?m2]) (a, [] @ ?m1\<lparr>mk_state := Got ?n\<rparr> # [?m2])"
    using assms by (intro mark_read) (simp_all add: caller_def marker_read_run)
  have r2: "marking_step e (a, [?m1\<lparr>mk_state := Got ?n\<rparr>] @ ?m2 # [])
      (a, [?m1\<lparr>mk_state := Got ?n\<rparr>] @ ?m2\<lparr>mk_state := Got ?n\<rparr> # [])"
    using assms by (intro mark_read) (simp_all add: caller_def marker_read_run)
  obtain a1 where a1: "marker_write e (?m1\<lparr>mk_state := Got ?n\<rparr>) ?n a = Inr a1" "auditor_invar e a1"
    using marker_open_run[OF assms(1), of "?m1\<lparr>mk_state := Got ?n\<rparr>" ?n] assms(2-4) by (auto simp: caller_def)
  obtain a2 where a2: "marker_write e (?m2\<lparr>mk_state := Got ?n\<rparr>) ?n a1 = Inr a2" "auditor_invar e a2"
    "active_count e a2 f = Some (count_of ?n + 1)"
    using marker_open_run[OF a1(2), of "?m2\<lparr>mk_state := Got ?n\<rparr>" ?n] assms(2,5,6) by (auto simp: caller_def)
  have w1: "marking_step e (a, [] @ ?m1\<lparr>mk_state := Got ?n\<rparr> # [?m2\<lparr>mk_state := Got ?n\<rparr>])
      (a1, [] @ ?m1\<lparr>mk_state := Got ?n, mk_state := Marked\<rparr> # [?m2\<lparr>mk_state := Got ?n\<rparr>])"
    by (rule mark_write[OF _ a1(1)]) simp
  have w2: "marking_step e (a1, [?m1\<lparr>mk_state := Marked\<rparr>] @ ?m2\<lparr>mk_state := Got ?n\<rparr> # [])
      (a2, [?m1\<lparr>mk_state := Marked\<rparr>] @ ?m2\<lparr>mk_state := Got ?n, mk_state := Marked\<rparr> # [])"
    by (rule mark_write[OF _ a2(1)]) simp
  have "marking_run e (a, [?m1, ?m2]) (a2, [?m1\<lparr>mk_state := Marked\<rparr>, ?m2\<lparr>mk_state := Marked\<rparr>])"
    using run_step[OF run_step[OF run_step[OF run_step[OF run_start[of e "(a, [?m1, ?m2])"] r1[simplified]]
          r2[simplified]] w1[simplified]] w2[simplified]] .
  with a2 show ?thesis by blast
qed

theorem concurrent_opens_bounds_witness:
  "\<exists>a'. active_count example_env a' ''ab'' = Some 1 \<and> auditor_invar example_env a' \<and>
     1 \<le> count_of (active_count example_env a' ''ab'') \<and> count_of (active_count example_env a' ''ab'') \<le> 2"
proof -
  let ?ev = "example_event FILE_OPEN"
  have none: "active_count example_env example_auditor ''ab'' = None"
    using FileSegmentAuditor_ok[OF example_env_wf, of 0]
    by (auto simp: example_auditor_def active_count_def auditor_init_def)
  have ev: "event_type ?ev = FILE_OPEN" "ev_filename ?ev = ''ab''" by (simp_all add: example_event_def)
  obtain a' where a': "marking_run example_env (example_auditor, [caller 0 ?ev, caller 1 ?ev])
      (a', [(caller 0 ?ev)\<lparr>mk_state := Marked\<rparr>, (caller 1 ?ev)\<lparr>mk_state := Marked\<rparr>])" "auditor_invar example_env a'"
    "active_count example_env a' ''ab'' = Some 1"
    using lost_open_run[OF example_auditor_invar _ ev ev, of 0 1] none by (auto simp: count_of_def)
  have "count_of (active_count example_env example_auditor ''ab'') = 0" by (simp add: none count_of_def)
  with concurrent_opens_bounds[OF a'(1) example_auditor_invar, of "''ab''"] a'(2,3) ev show ?thesis
    by (intro exI[of _ a']) (simp add: caller_def)
qed

text \<open>So an open can be lost: two servers that record an open at the same time can leave the count at one, and when
  the first of the two applications closes the file, every server reports it inactive although the other still
  has it open.\<close>

theorem open_file_reported_inactive:
  assumes "auditor_invar e a" and "active_count e a (pf_filename file) = None"
    and "event_type ev1 = FILE_OPEN" "ev_filename ev1 = pf_filename file"
    and "event_type ev2 = FILE_OPEN" "ev_filename ev2 = pf_filename file"
    and "event_type ev3 = FILE_CLOSE" "ev_filename ev3 = pf_filename file"
  shows "\<exists>a1 a2 m1 m2. marking_run e (a, [caller me1 ev1, caller me2 ev2]) (a1, [m1, m2]) \<and>
    mk_state m1 = Marked \<and> mk_state m2 = Marked \<and>
    MarkFileSegmentsInactive e me1 ev3 a1 = Inr a2 \<and> CheckIfFileActive e me file a2 = Inr False"
proof -
  obtain a1 where a1: "marking_run e (a, [caller me1 ev1, caller me2 ev2])
      (a1, [(caller me1 ev1)\<lparr>mk_state := Marked\<rparr>, (caller me2 ev2)\<lparr>mk_state := Marked\<rparr>])" "auditor_invar e a1"
    "active_count e a1 (pf_filename file) = Some 1"
    using lost_open_run[OF assms(1) _ assms(3-6), of me1 me2] assms(2) by (auto simp: count_of_def)
  obtain a2 where a2: "MarkFileSegmentsInactive e me1 ev3 a1 = Inr a2" "auditor_invar e a2"
    "\<forall>n. active_count e a2 n = active_spec n ev3 (active_count e a1 n)"
    using MarkInactive_ok[OF a1(2) assms(7)] by blast
  have "active_count e a2 (pf_filename file) = Some 0"
    using a2(3) a1(3) assms(7,8) by (simp add: active_spec_def)
  then have "CheckIfFileActive e me file a2 = Inr False"
    by (simp add: CheckIfFileActive_def active_Get[OF a2(2)] active_count_def[symmetric])
  with a1(1) a2(1) show ?thesis
    by (intro exI[of _ a1] exI[of _ a2] exI[of _ "(caller me1 ev1)\<lparr>mk_state := Marked\<rparr>"]
        exI[of _ "(caller me2 ev2)\<lparr>mk_state := Marked\<rparr>"]) simp
qed

theorem open_file_reported_inactive_witness:
  "\<exists>a1 a2 m1 m2. marking_run example_env (example_auditor, [caller 0 (example_event FILE_OPEN), caller 1 (example_event FILE_OPEN)])
       (a1, [m1, m2]) \<and> mk_state m1 = Marked \<and> mk_state m2 = Marked \<and>
     MarkFileSegmentsInactive example_env 0 (example_event FILE_CLOSE) a1 = Inr a2 \<and>
     CheckIfFileActive example_env 1 example_file a2 = Inr False"
proof -
  have "active_count example_env example_auditor (pf_filename example_file) = None"
    using FileSegmentAuditor_ok[OF example_env_wf, of 0]
    by (auto simp: example_auditor_def active_count_def auditor_init_def)
  from open_file_reported_inactive[OF example_auditor_invar this] show ?thesis
    by (simp add: example_event_def example_file_def)
qed

text \<open>C33: Two reads of one file that are recorded at the same time break the map of the file: when both workers query
  the map before either changes it, and they read two parts of one element with a gap between them, the element of the second
  read ends up inside an element the first worker put back, so that the offsets of the second read are
  described twice, with the old score and with the new one, and the elements overlap.\<close>

theorem concurrent_reads_break_tiling:
  assumes "auditor_invar e a" and "me1 < env_servers e" and "me2 < env_servers e"
    and "layer_index ev1 \<in> layer_id ` set (layers e)" and "layer_index ev2 \<in> layer_id ` set (layers e)"
    and "um_find (ev_filename ev1) (file_segment_map a me1) = Some i"
    and "um_find (ev_filename ev2) (file_segment_map a me2) = Some i"
    and "dm_set (offsetMaps a i) = {(k, (f, s))}"
    and "ev_segment ev1 = \<lparr>seg_start = p, seg_end = q\<rparr>" and "ev_segment ev2 = \<lparr>seg_start = t, seg_end = u\<rparr>"
    and "seg_start k \<le> p" and "p \<le> q" and "q + 1 < t" and "t \<le> u" and "u \<le> seg_end k"
  shows "\<exists>a' r1 r2. reading_run e (a, [reader_of me1 ev1, reader_of me2 ev2]) (a', [r1, r2]) \<and>
    rd_state r1 = Updating i [] \<and> rd_state r2 = Updating i [] \<and> auditor_invar e a' \<and>
    seg_val (offsetMaps a' i) t (f, s) \<and> seg_val (offsetMaps a' i) t (f, bump_score (ev_time ev2) s) \<and>
    \<not> seg_tiling (offsetMaps a' i)"
proof -
  note env = auditor_env[OF assms(1)] and i = auditor_index[OF assms(1,6)]
  note inv = auditor_store[OF assms(1) i]
  let ?x = "(k, (f, s))" and ?d = "offset_map_d e i"
  have query: "DM_Contains Segment_less Segment_Contains ?d me seg (offsetMaps a i) = Inr [?x]"
    if me: "me < env_servers e" for me seg
  proof -
    obtain xs where xs: "DM_Contains Segment_less Segment_Contains ?d me seg (offsetMaps a i) = Inr xs" "set xs = {?x}"
      using Contains_single[OF env i inv assms(8) me] by blast
    moreover have "distinct xs" by (rule Contains_entries(1)[OF env i inv xs(1)])
    ultimately show ?thesis by (cases xs; cases "tl xs") auto
  qed
  let ?r1 = "reader_of me1 ev1" and ?r2 = "reader_of me2 ev2"
  have s1: "reading_step e (a, [] @ ?r1 # [?r2]) (a, [] @ ?r1\<lparr>rd_state := Updating i [?x]\<rparr> # [?r2])"
    by (rule read_contains) (use assms(6) query[OF assms(2)] in \<open>simp_all add: reader_of_def\<close>)
  have s2: "reading_step e (a, [?r1\<lparr>rd_state := Updating i [?x]\<rparr>] @ ?r2 # [])
      (a, [?r1\<lparr>rd_state := Updating i [?x]\<rparr>] @ ?r2\<lparr>rd_state := Updating i [?x]\<rparr> # [])"
    by (rule read_contains) (use assms(7) query[OF assms(3)] in \<open>simp_all add: reader_of_def\<close>)
  obtain a1 where a1: "increase_element e i me1 ev1 ?x a = Inr a1" "auditor_invar e a1"
    "replace_segment e i me1 (ev_segment ev1) k (f, s) (f, bump_score (ev_time ev1) s) (offsetMaps a i) = Inr (offsetMaps a1 i)"
    using increase_element_run[OF assms(1,4) i] by blast
  obtain a2 where a2: "increase_element e i me2 ev2 ?x a1 = Inr a2" "auditor_invar e a2"
    "replace_segment e i me2 (ev_segment ev2) k (f, s) (f, bump_score (ev_time ev2) s) (offsetMaps a1 i) = Inr (offsetMaps a2 i)"
    using increase_element_run[OF a1(2) assms(5) i] by blast
  have s3: "reading_step e (a, [] @ ?r1\<lparr>rd_state := Updating i [?x]\<rparr> # [?r2\<lparr>rd_state := Updating i [?x]\<rparr>])
      (a1, [] @ ?r1\<lparr>rd_state := Updating i [?x], rd_state := Updating i []\<rparr> # [?r2\<lparr>rd_state := Updating i [?x]\<rparr>])"
    by (rule read_element, simp, simp add: reader_of_def a1(1))
  have s4: "reading_step e (a1, [?r1\<lparr>rd_state := Updating i []\<rparr>] @ ?r2\<lparr>rd_state := Updating i [?x]\<rparr> # [])
      (a2, [?r1\<lparr>rd_state := Updating i []\<rparr>] @ ?r2\<lparr>rd_state := Updating i [?x], rd_state := Updating i []\<rparr> # [])"
    by (rule read_element, simp, simp add: reader_of_def a2(1))
  have run: "reading_run e (a, [?r1, ?r2]) (a2, [?r1\<lparr>rd_state := Updating i []\<rparr>, ?r2\<lparr>rd_state := Updating i []\<rparr>])"
    using reading_next[OF reading_next[OF reading_next[OF reading_next[OF reading_start[of e "(a, [?r1, ?r2])"]
      s1[simplified]] s2[simplified]] s3[simplified]] s4[simplified]] .
  let ?left = "k\<lparr>seg_start := q + 1\<rparr>" and ?new = "\<lparr>seg_start = t, seg_end = u\<rparr>"
  have wf: "seg_store_wf ?d (offsetMaps a i)"
    using inv assms(8,11-15) by (simp add: seg_store_wf_def seg_tiling_def Segment_GetSize_def)
  have "overlaps k (ev_segment ev1)" using assms(9,11-15) by (auto simp: overlaps_def seg_set_def)
  from replace_segment_store[OF env i wf _ this, of "(f, s)" me1 "(f, bump_score (ev_time ev1) s)"]
  have "dm_set (offsetMaps a1 i) = seg_pieces (ev_segment ev1) k (f, s) (f, bump_score (ev_time ev1) s)"
    using a1(3) assms(8) by auto
  then have left: "(?left, (f, s)) \<in> dm_set (offsetMaps a1 i)"
    using assms(9,11-15) by (auto simp: seg_pieces_def Segment_Substract_def)
  have "Segment_Intersect (ev_segment ev2) k = ?new"
    "seg_start ` set (Segment_Substract k (ev_segment ev2)) \<subseteq> {seg_start k, u + 1}"
    using assms(10-15) by (auto simp: Segment_Intersect_def Segment_Substract_def Let_def)
  with replace_segment_keeps[OF env i auditor_store[OF a1(2) i] a2(3)] left
  have both: "(?left, (f, s)) \<in> dm_set (offsetMaps a2 i)" "(?new, (f, bump_score (ev_time ev2) s)) \<in> dm_set (offsetMaps a2 i)"
    using assms(11-15) by fastforce+
  have "seg_val (offsetMaps a2 i) t (f, s)" "seg_val (offsetMaps a2 i) t (f, bump_score (ev_time ev2) s)"
    using both assms(13-15) unfolding seg_val_def by (force simp: seg_set_def)+
  moreover have "\<not> seg_tiling (offsetMaps a2 i)"
  proof
    assume "seg_tiling (offsetMaps a2 i)"
    moreover have "overlaps ?left ?new" using assms(13-15) by (auto simp: overlaps_def seg_set_def)
    ultimately have "?left = ?new" using seg_tilingD(2)[OF _ both] by fastforce
    then show False using assms(13) by (cases k) simp
  qed
  ultimately show ?thesis using run a2(2) by (intro exI[of _ a2] exI conjI) (assumption | simp)+
qed

theorem concurrent_reads_break_tiling_witness:
  "\<exists>a a' i f r1 r2. reading_run example_env
       (a, [reader_of 0 ((example_event FILE_READ)\<lparr>ev_segment := \<lparr>seg_start = 0, seg_end = 9\<rparr>\<rparr>),
            reader_of 0 ((example_event FILE_READ)\<lparr>ev_segment := \<lparr>seg_start = 50, seg_end = 59\<rparr>\<rparr>)]) (a', [r1, r2]) \<and>
     seg_val (offsetMaps a' i) 50 (f, SegmentScore_default) \<and>
     seg_val (offsetMaps a' i) 50 (f, bump_score 0 SegmentScore_default)"
proof -
  let ?ev = "\<lambda>p q. (example_event FILE_READ)\<lparr>ev_segment := \<lparr>seg_start = p, seg_end = q\<rparr>\<rparr>"
  obtain a i f where a: "auditor_invar example_env a" "um_find ''ab'' (file_segment_map a 0) = Some i"
    "dm_set (offsetMaps a i) = {(\<lparr>seg_start = 0, seg_end = 99\<rparr>, (f, SegmentScore_default))}"
    by (rule example_opened)
  have ev: "layer_index (?ev p q) \<in> layer_id ` set (layers example_env)"
    "um_find (ev_filename (?ev p q)) (file_segment_map a 0) = Some i" "ev_segment (?ev p q) = \<lparr>seg_start = p, seg_end = q\<rparr>"
    "ev_time (?ev p q) = 0" for p q
    using example_event_layer a(2) by (simp_all add: example_event_def)
  have me: "0 < env_servers example_env" by (simp add: example_env_def)
  from concurrent_reads_break_tiling[OF a(1) me me ev(1) ev(1) ev(2) ev(2) a(3) ev(3) ev(3), of 0 9 50 59]
  show ?thesis unfolding ev(4) by auto
qed

end
