(* ===== verification/Rpc_Server.thy ===== *)
theory Rpc_Server
  imports Rpc_Session Async_Writer
begin

text \<open>
  The server of rpclib around \<open>Rpc_Session\<close>: what a handler can ask for through \<open>this_handler\<close>, \<open>this_session\<close> and
  \<open>this_server\<close> (\<open>src/external/rpclib/lib/rpc/this_handler.cc\<close>, \<open>this_session.cc\<close>, \<open>this_server.cc\<close>), what becomes of its
  response (\<open>detail/server_session.cc\<close>), and the life of sessions (\<open>server.cc\<close>). HFetch's own handlers only return.

  \<^item> A bound function ends in one of the ways \<open>fn_exit\<close> lists and leaves the wishes it expressed in \<open>wishes\<close>.
  \<^item> Sessions are numbered. A session has its writer, its strand (the jobs posted to it, which run one at a time in the
    order they were posted), whether a read is pending, and the messages its threads still have to handle.
  \<^item> The handler of a read, a job and the posting of a handler's jobs are one step each. \<open>sessions_\<close> has no lock in the
    code; here the steps that change it do not overlap.
  \<^item> A session that was closed stays in the model, so that its pending tasks and jobs still run on it. In the code they hold a raw
    \<open>this\<close> (\<open>server_session.cc:63\<close>), while \<open>close_session\<close> drops the pointer that owns the session: what they do then is undefined,
    and the runs below show what happens as long as the memory of the session is not given to something else.
\<close>

section \<open>Handlers and their responses\<close>

record wishes =
  w_error :: msgpack_object
  w_resp :: msgpack_object
  w_enabled :: bool
  w_exit_session :: bool
  w_stop_server :: bool

text \<open>\<open>clear\<close> of the handler and of the session, and \<open>cancel_stop\<close>.\<close>

definition wishes_clear :: wishes where
  "wishes_clear = \<lparr>w_error = NIL, w_resp = NIL, w_enabled = True, w_exit_session = False, w_stop_server = False\<rparr>"

datatype fn_exit =
    Returns msgpack_object
  | Client_error string
  | Std_exception string
  | Handler_error
  | Handler_spec_response
  | Other_exception

definition respond_error :: "msgpack_object \<Rightarrow> wishes \<Rightarrow> fn_exit \<times> wishes" where
  "respond_error obj w = (Handler_error, w\<lparr>w_error := obj\<rparr>)"

definition respond :: "msgpack_object \<Rightarrow> wishes \<Rightarrow> wishes" where
  "respond obj w = w\<lparr>w_resp := obj\<rparr>"

definition disable_response :: "wishes \<Rightarrow> wishes" where "disable_response w = w\<lparr>w_enabled := False\<rparr>"
definition enable_response :: "wishes \<Rightarrow> wishes" where "enable_response w = w\<lparr>w_enabled := True\<rparr>"
definition post_exit :: "wishes \<Rightarrow> wishes" where "post_exit w = w\<lparr>w_exit_session := True\<rparr>"
definition stop_server :: "wishes \<Rightarrow> wishes" where "stop_server w = w\<lparr>w_stop_server := True\<rparr>"

definition std_exception_text :: "string \<Rightarrow> nat \<Rightarrow> string \<Rightarrow> string" where
  "std_exception_text name n what =
     ''rpclib: function '' @ [CHR 39] @ name @ [CHR 39] @ '' (called with '' @ to_string n @
     '' arg(s)) threw an exception. The exception contained this information: '' @ what @ ''.''"

definition other_exception_text :: "string \<Rightarrow> nat \<Rightarrow> string" where
  "other_exception_text name n =
     ''rpclib: function '' @ [CHR 39] @ name @ [CHR 39] @ '' (called with '' @ to_string n @
     '' arg(s)) threw an exception. The exception is not derived from std::exception. No further information available.''"

text \<open>\<open>dispatch_call\<close> once the function was found and has ended. The two exceptions of \<open>this_handler\<close> leave the \<open>try\<close>
  block and reach the response for a function that was not found.\<close>

definition call_response :: "bool \<Rightarrow> nat \<Rightarrow> string \<Rightarrow> nat \<Rightarrow> fn_exit \<Rightarrow> response res" where
  "call_response suppress_exceptions i name n ex =
     (case ex of
        Returns result \<Rightarrow> Inr (make_result i result)
      | Client_error what \<Rightarrow> make_error i (''rpclib: '' @ what)
      | Std_exception what \<Rightarrow> if suppress_exceptions then make_error i (std_exception_text name n what) else Inl Abort
      | Other_exception \<Rightarrow> if suppress_exceptions then make_error i (other_exception_text name n) else Inl Abort
      | _ \<Rightarrow> make_error i (not_found_text name n))"

definition notification_response :: "bool \<Rightarrow> fn_exit \<Rightarrow> response res" where
  "notification_response suppress_exceptions ex =
     (case ex of
        Returns _ \<Rightarrow> Inr response_empty
      | Handler_error \<Rightarrow> Inr response_empty
      | Handler_spec_response \<Rightarrow> Inr response_empty
      | _ \<Rightarrow> if suppress_exceptions then Inr response_empty else Inl Abort)"

text \<open>\<open>capture_error\<close> means to create the handle and creates a null pointer.\<close>

definition capture_result :: "msgpack_object \<Rightarrow> response \<Rightarrow> response" where
  "capture_result obj r = r\<lparr>rs_result := Some obj\<rparr>"

definition capture_error :: "msgpack_object \<Rightarrow> response \<Rightarrow> response res" where
  "capture_error obj r =
     (case rs_error r of None \<Rightarrow> Inl (Undefined NullPointer) | Some _ \<Rightarrow> Inr (r\<lparr>rs_error := Some obj\<rparr>))"

datatype job = Write_response response | Set_exit | Close_sessions | Close_socket

text \<open>What a session posts to its strand when a handler has ended.\<close>

definition after_dispatch :: "wishes \<Rightarrow> response \<Rightarrow> job list res" where
  "after_dispatch w resp =
     (if \<not> w_enabled w then Inr []
      else
        rbind (if w_error w \<noteq> NIL then capture_error (w_error w) resp
               else if w_resp w \<noteq> NIL then Inr (capture_result (w_resp w) resp)
               else Inr resp) (\<lambda>resp.
          Inr ((if rs_empty resp then [] else [Write_response resp]) @ (if w_exit_session w then [Set_exit] else []) @
               (if w_stop_server w then [Close_sessions] else []))))"

definition answer_call :: "bool \<Rightarrow> nat \<Rightarrow> string \<Rightarrow> nat \<Rightarrow> fn_exit \<times> wishes \<Rightarrow> job list res" where
  "answer_call suppress_exceptions i name n ended =
     rbind (call_response suppress_exceptions i name n (fst ended)) (after_dispatch (snd ended))"

definition answer_notification :: "bool \<Rightarrow> fn_exit \<times> wishes \<Rightarrow> job list res" where
  "answer_notification suppress_exceptions ended =
     rbind (notification_response suppress_exceptions (fst ended)) (after_dispatch (snd ended))"

section \<open>Sessions\<close>

record session =
  ss_writer :: writer
  ss_strand :: "job list"
  ss_reading :: bool
  ss_tasks :: "msgpack_object list"

record rpc_server =
  sv_sessions :: "nat list"
  sv_all :: "nat \<Rightarrow> session option"
  sv_next :: nat

definition server_new :: rpc_server where
  "server_new = \<lparr>sv_sessions = [], sv_all = \<lambda>_. None, sv_next = 0\<rparr>"

text \<open>A new session; \<open>start\<close> begins to read.\<close>

definition session_new :: session where
  "session_new = \<lparr>ss_writer = writer_new, ss_strand = [], ss_reading = True, ss_tasks = []\<rparr>"

definition set_session :: "nat \<Rightarrow> session \<Rightarrow> rpc_server \<Rightarrow> rpc_server" where
  "set_session i s sv = sv\<lparr>sv_all := (sv_all sv)(i \<mapsto> s)\<rparr>"

definition ss_exiting :: "session \<Rightarrow> bool" where
  "ss_exiting s = exiting (ss_writer s)"

definition request_exit :: "session \<Rightarrow> session" where
  "request_exit s = s\<lparr>ss_writer := (ss_writer s)\<lparr>exiting := True\<rparr>\<rparr>"

definition session_close :: "session \<Rightarrow> session" where
  "session_close s = (request_exit s)\<lparr>ss_strand := ss_strand s @ [Close_socket]\<rparr>"

definition accept_connection :: "rpc_server \<Rightarrow> rpc_server" where
  "accept_connection sv =
     (set_session (sv_next sv) session_new sv)\<lparr>sv_sessions := sv_sessions sv @ [sv_next sv], sv_next := Suc (sv_next sv)\<rparr>"

definition close_session :: "nat \<Rightarrow> rpc_server \<Rightarrow> rpc_server" where
  "close_session i sv = sv\<lparr>sv_sessions := remove1 i (sv_sessions sv)\<rparr>"

definition close_sessions :: "rpc_server \<Rightarrow> rpc_server" where
  "close_sessions sv =
     sv\<lparr>sv_all := (\<lambda>i. if i \<in> set (sv_sessions sv) then map_option session_close (sv_all sv i) else sv_all sv i),
        sv_sessions := []\<rparr>"

datatype read_outcome = Data "msgpack_object list" | Eof_or_reset | Other_error

text \<open>The handler of a read.\<close>

definition read_handler :: "read_outcome \<Rightarrow> session \<Rightarrow> session" where
  "read_handler ec s =
     (if ss_exiting s then s\<lparr>ss_reading := False\<rparr>
      else case ec of
             Data msgs \<Rightarrow> s\<lparr>ss_tasks := ss_tasks s @ msgs\<rparr>
           | Eof_or_reset \<Rightarrow> session_close (s\<lparr>ss_reading := False\<rparr>)
           | Other_error \<Rightarrow> s\<lparr>ss_reading := False\<rparr>)"

definition run_job :: "float_bits \<Rightarrow> nat \<Rightarrow> job \<Rightarrow> session \<Rightarrow> rpc_server \<Rightarrow> rpc_server res" where
  "run_job F i j s sv =
     (case j of
        Write_response r \<Rightarrow>
          rbind (response_get_data F r) (\<lambda>data. rbind (queue_write data (ss_writer s)) (\<lambda>w.
            Inr (set_session i (s\<lparr>ss_writer := w\<rparr>) sv)))
      | Set_exit \<Rightarrow> Inr (set_session i (request_exit s) sv)
      | Close_sessions \<Rightarrow> Inr (close_sessions (set_session i s sv))
      | Close_socket \<Rightarrow> Inr (close_session i (set_session i (s\<lparr>ss_writer := (ss_writer s)\<lparr>socket_open := False\<rparr>\<rparr>) sv)))"

datatype server_action =
    Accepted
  | Read nat read_outcome
  | Handled nat msgpack_object "job list"
  | Job nat job
  | Network nat writer_action

inductive rpc_step :: "float_bits \<Rightarrow> rpc_server \<Rightarrow> server_action \<Rightarrow> rpc_server \<Rightarrow> bool" for F :: float_bits where
  accepted: "rpc_step F sv Accepted (accept_connection sv)"
| read: "sv_all sv i = Some s \<Longrightarrow> ss_reading s \<Longrightarrow> rpc_step F sv (Read i ec) (set_session i (read_handler ec s) sv)"
| handled: "sv_all sv i = Some s \<Longrightarrow> ss_tasks s = ts @ msg # ts' \<Longrightarrow> after_dispatch w resp = Inr jobs \<Longrightarrow>
    rpc_step F sv (Handled i msg jobs) (set_session i (s\<lparr>ss_tasks := ts @ ts', ss_strand := ss_strand s @ jobs\<rparr>) sv)"
| job: "sv_all sv i = Some s \<Longrightarrow> ss_strand s = j # js \<Longrightarrow> run_job F i j (s\<lparr>ss_strand := js\<rparr>) sv = Inr sv' \<Longrightarrow>
    rpc_step F sv (Job i j) sv'"
| network: "sv_all sv i = Some s \<Longrightarrow> network a \<or> a = Failed \<Longrightarrow> writer_step (ss_writer s) a w \<Longrightarrow>
    rpc_step F sv (Network i a) (set_session i (s\<lparr>ss_writer := w\<rparr>) sv)"

inductive rpc_path :: "float_bits \<Rightarrow> rpc_server \<Rightarrow> server_action list \<Rightarrow> rpc_server \<Rightarrow> bool" for F and sv where
  rpc_start: "rpc_path F sv [] sv"
| rpc_next: "rpc_path F sv tr sv1 \<Longrightarrow> rpc_step F sv1 a sv2 \<Longrightarrow> rpc_path F sv (tr @ [a]) sv2"

section \<open>Lemmas\<close>

lemma set_session_all [simp]:
  "sv_all (set_session i s sv) = (sv_all sv)(i \<mapsto> s)" "sv_sessions (set_session i s sv) = sv_sessions sv"
  "sv_next (set_session i s sv) = sv_next sv"
  by (simp_all add: set_session_def)

lemma queue_write_flags: "queue_write data w = Inr w' \<Longrightarrow> exiting w' = exiting w \<and> socket_open w' = socket_open w"
  by (auto simp: queue_write_def do_write_def Let_def split: if_splits list.splits)

lemma do_write_open: "do_write w = Inr w' \<Longrightarrow> exiting w' = exiting w \<and> socket_open w' = socket_open w"
  by (auto simp: do_write_def split: if_splits list.splits)

lemma pop_front_open: "pop_front w = Inr w' \<Longrightarrow> exiting w' = exiting w \<and> socket_open w' = socket_open w"
  by (auto simp: pop_front_def split: list.splits)

lemma write_handler_open:
  assumes "write_handler ec w = Inr w'"
  shows "socket_open w' = (socket_open w \<and> \<not> exiting w)"
proof -
  obtain w1 where w1: "exiting w1 = exiting w" "socket_open w1 = socket_open w"
    and w': "w' = (if exiting w1 then w1\<lparr>socket_open := False\<rparr> else w1)"
  proof (cases ec)
    case True
    then show thesis using that[of w] assms by (simp add: write_handler_def)
  next
    case False
    then obtain w0 w1 where "pop_front w = Inr w0"
      "(if length (write_queue w0) > 0 \<and> \<not> exiting w0 then do_write w0 else Inr w0) = Inr w1"
      "w' = (if exiting w1 then w1\<lparr>socket_open := False\<rparr> else w1)"
      using assms by (auto simp: write_handler_def rbind_Inr_iff simp del: length_greater_0_conv)
    moreover from this have "exiting w1 = exiting w0 \<and> socket_open w1 = socket_open w0"
      using do_write_open[of w0 w1] by (metis sum.inject(2))
    ultimately show thesis using that[of w1] pop_front_open[of w w0] by simp
  qed
  then show ?thesis by simp
qed

lemma network_flags:
  assumes "writer_step w a w'" and "network a \<or> a = Failed"
  shows "exiting w' = exiting w \<and> (socket_open w' \<longrightarrow> socket_open w) \<and> (socket_open w \<and> \<not> exiting w \<longrightarrow> socket_open w')"
proof -
  have "exiting w' = exiting w" using exiting_step[OF assms(1)] assms(2) by (auto simp: network_def)
  moreover have "(socket_open w' \<longrightarrow> socket_open w) \<and> (socket_open w \<and> \<not> exiting w \<longrightarrow> socket_open w')"
    using assms(1)
  proof (cases rule: writer_step.cases)
    case (finished ops ops')
    then show ?thesis using write_handler_open[OF finished(3)] by simp
  qed (use assms(2) in \<open>auto simp: write_handler_def network_def split: if_splits\<close>)
  ultimately show ?thesis by blast
qed

text \<open>What a step does to the sessions: it adds one, changes one, or closes all that are listed.\<close>

definition changed :: "session \<Rightarrow> session \<Rightarrow> bool" where
  "changed s s' \<longleftrightarrow>
     (ss_exiting s \<longrightarrow> ss_exiting s') \<and> (socket_open (ss_writer s') \<longrightarrow> socket_open (ss_writer s)) \<and>
     (socket_open (ss_writer s) \<and> \<not> ss_exiting s' \<longrightarrow> socket_open (ss_writer s')) \<and>
     (ss_reading s' \<longrightarrow> ss_reading s) \<and>
     (Close_socket \<in> set (ss_strand s) \<longrightarrow> Close_socket \<in> set (ss_strand s')) \<and>
     (Close_socket \<in> set (ss_strand s') \<and> Close_socket \<notin> set (ss_strand s) \<longrightarrow>
        ss_exiting s' \<and> ss_reading s \<and> \<not> ss_exiting s)"

definition socket_closed :: "session \<Rightarrow> session \<Rightarrow> bool" where
  "socket_closed s s' \<longleftrightarrow> Close_socket \<in> set (ss_strand s) \<and> ss_exiting s' = ss_exiting s \<and>
     ss_reading s' = ss_reading s \<and> \<not> socket_open (ss_writer s') \<and> set (ss_strand s') \<subseteq> set (ss_strand s)"

lemma after_dispatch_jobs: "after_dispatch w resp = Inr jobs \<Longrightarrow> Close_socket \<notin> set jobs"
  by (auto simp: after_dispatch_def rbind_Inr_iff split: if_splits)

lemma read_handler_changed: "ss_reading s \<Longrightarrow> changed s (read_handler ec s)"
  by (auto simp: changed_def read_handler_def session_close_def request_exit_def ss_exiting_def split: read_outcome.split)

inductive_cases job_stepE: "rpc_step F sv (Job i j) sv'"

lemma rpc_step_cases:
  assumes "rpc_step F sv a sv'"
  obtains
    (new) "sv' = accept_connection sv"
  | (one) i s s' where "sv_all sv i = Some s" "sv' = set_session i s' sv" "changed s s'"
  | (all) i s s' where "sv_all sv i = Some s" "changed s s'" "sv' = close_sessions (set_session i s' sv)"
      "a = Job i Close_sessions"
  | (closed) i s s' where "sv_all sv i = Some s" "socket_closed s s'" "sv' = close_session i (set_session i s' sv)"
  using assms
proof (cases rule: rpc_step.cases)
  case accepted
  then show ?thesis using new by blast
next
  case (read i s ec)
  then show ?thesis using one read_handler_changed by blast
next
  case (handled i s ts msg ts' w resp jobs)
  have "changed s (s\<lparr>ss_tasks := ts @ ts', ss_strand := ss_strand s @ jobs\<rparr>)"
    using after_dispatch_jobs[OF handled(5)] by (auto simp: changed_def ss_exiting_def)
  then show ?thesis using one handled(2,3) by blast
next
  case (network i s a' w)
  have "changed s (s\<lparr>ss_writer := w\<rparr>)"
    using network_flags[OF network(5,4)] by (auto simp: changed_def ss_exiting_def)
  then show ?thesis using one network(2,3) by blast
next
  case (job i s j js)
  show ?thesis
  proof (cases j)
    case (Write_response r)
    then obtain data w where "queue_write data (ss_writer s) = Inr w"
      "sv' = set_session i (s\<lparr>ss_strand := js, ss_writer := w\<rparr>) sv"
      using job by (auto simp: run_job_def rbind_Inr_iff)
    moreover from this have "changed s (s\<lparr>ss_strand := js, ss_writer := w\<rparr>)"
      using queue_write_flags job(3) Write_response by (auto simp: changed_def ss_exiting_def)
    ultimately show ?thesis using one job(2) by blast
  next
    case Set_exit
    then have "changed s (request_exit (s\<lparr>ss_strand := js\<rparr>))"
      using job(3) by (auto simp: changed_def ss_exiting_def request_exit_def)
    then show ?thesis using one job(2,4) Set_exit by (auto simp: run_job_def)
  next
    case Close_sessions
    then have "changed s (s\<lparr>ss_strand := js\<rparr>)" using job(3) by (auto simp: changed_def ss_exiting_def)
    then show ?thesis using all[OF job(2)] job(1,4) Close_sessions by (auto simp: run_job_def)
  next
    case Close_socket
    then have "socket_closed s (s\<lparr>ss_strand := js, ss_writer := (ss_writer s)\<lparr>socket_open := False\<rparr>\<rparr>)"
      using job(3) by (auto simp: socket_closed_def ss_exiting_def)
    then show ?thesis using closed[OF job(2)] job(4) Close_socket by (auto simp: run_job_def)
  qed
qed

text \<open>A session that is not exiting is open and listed; one that is not listed is closed, or its strand will close it.\<close>

definition session_ok :: "bool \<Rightarrow> session \<Rightarrow> bool" where
  "session_ok listed s \<longleftrightarrow>
     (socket_open (ss_writer s) \<or> ss_exiting s) \<and> (Close_socket \<in> set (ss_strand s) \<longrightarrow> ss_exiting s) \<and>
     (\<not> listed \<longrightarrow> ss_exiting s \<and> (Close_socket \<in> set (ss_strand s) \<or> \<not> socket_open (ss_writer s)))"

definition server_ok :: "rpc_server \<Rightarrow> bool" where
  "server_ok sv \<longleftrightarrow> distinct (sv_sessions sv) \<and> (\<forall>i. sv_all sv i \<noteq> None \<longleftrightarrow> i < sv_next sv) \<and>
     (\<forall>i\<in>set (sv_sessions sv). i < sv_next sv) \<and>
     (\<forall>i s. sv_all sv i = Some s \<longrightarrow> session_ok (i \<in> set (sv_sessions sv)) s)"

lemma session_ok_steps:
  "changed s s' \<Longrightarrow> session_ok l s \<Longrightarrow> session_ok l s'"
  "socket_closed s s' \<Longrightarrow> session_ok l s \<Longrightarrow> session_ok False s'"
  "session_ok l s \<Longrightarrow> session_ok False (session_close s)"
  "session_ok True session_new"
  by (auto simp: changed_def socket_closed_def session_ok_def session_close_def request_exit_def ss_exiting_def
      session_new_def writer_new_def)

lemma known_session: "server_ok sv \<Longrightarrow> sv_all sv i = Some s \<Longrightarrow> i < sv_next sv \<and> session_ok (i \<in> set (sv_sessions sv)) s"
  by (auto simp: server_ok_def)

lemma set_session_ok:
  assumes "server_ok sv" and "sv_all sv i = Some s" and "changed s s'"
  shows "server_ok (set_session i s' sv)"
  using assms known_session[OF assms(1,2)] session_ok_steps(1)[OF assms(3)] by (auto simp: server_ok_def)

lemma close_sessions_ok:
  assumes "server_ok sv"
  shows "server_ok (close_sessions sv)"
proof -
  have "session_ok False s'" if closing: "sv_all (close_sessions sv) i = Some s'" for i s'
  proof (cases "i \<in> set (sv_sessions sv)")
    case True
    then obtain s where "sv_all sv i = Some s" "s' = session_close s"
      using closing by (auto simp: close_sessions_def)
    then show ?thesis using known_session[OF assms] session_ok_steps(3) by blast
  next
    case False
    then show ?thesis using closing known_session[OF assms, of i s'] by (simp add: close_sessions_def)
  qed
  moreover have "sv_all (close_sessions sv) i \<noteq> None \<longleftrightarrow> i < sv_next sv" for i
    using assms by (auto simp: close_sessions_def server_ok_def)
  ultimately show ?thesis by (simp add: server_ok_def close_sessions_def)
qed

lemma rpc_step_ok: "rpc_step F sv a sv' \<Longrightarrow> server_ok sv \<Longrightarrow> server_ok sv'"
proof (elim rpc_step_cases)
  assume ok: "server_ok sv" and sv': "sv' = accept_connection sv"
  have "sv_next sv \<notin> set (sv_sessions sv)" using ok by (auto simp: server_ok_def)
  then show "server_ok sv'"
    using ok session_ok_steps(4) unfolding sv' by (auto simp: server_ok_def accept_connection_def less_Suc_eq)
next
  fix i s s'
  assume "server_ok sv" "sv_all sv i = Some s" "sv' = set_session i s' sv" "changed s s'"
  then show "server_ok sv'" using set_session_ok by simp
next
  fix i s s'
  assume "server_ok sv" "sv_all sv i = Some s" "changed s s'" "sv' = close_sessions (set_session i s' sv)"
  then show "server_ok sv'" using close_sessions_ok set_session_ok by simp
next
  fix i s s'
  assume ok: "server_ok sv" and s: "sv_all sv i = Some s" "socket_closed s s'" and sv': "sv' = close_session i (set_session i s' sv)"
  have "session_ok False s'" using session_ok_steps(2)[OF s(2)] known_session[OF ok s(1)] by blast
  moreover have "i < sv_next sv" "distinct (sv_sessions sv)" using known_session[OF ok s(1)] ok by (simp_all add: server_ok_def)
  ultimately show "server_ok sv'"
    using ok unfolding sv' by (auto simp: server_ok_def close_session_def set_remove1_eq dest: in_set_remove1)
qed

lemma rpc_path_ok: "rpc_path F sv tr sv' \<Longrightarrow> server_ok sv \<Longrightarrow> server_ok sv'"
  by (induction tr sv' rule: rpc_path.induct) (auto dest: rpc_step_ok)

lemma server_new_ok: "server_ok server_new"
  by (simp add: server_ok_def server_new_def)

text \<open>A listed session that nothing will close: it does not read, or stops at its next read, and its strand has no job
  that closes it.\<close>

definition orphaned :: "nat \<Rightarrow> rpc_server \<Rightarrow> bool" where
  "orphaned i sv \<longleftrightarrow> i \<in> set (sv_sessions sv) \<and>
     (\<exists>s. sv_all sv i = Some s \<and> Close_socket \<notin> set (ss_strand s) \<and> (\<not> ss_reading s \<or> ss_exiting s))"

lemma orphaned_step:
  assumes "rpc_step F sv a sv'" and "server_ok sv" and "orphaned i sv" and "\<forall>k. a \<noteq> Job k Close_sessions"
  shows "orphaned i sv'"
  using assms(1)
proof (cases rule: rpc_step_cases)
  case new
  then show ?thesis using assms(2,3) by (auto simp: orphaned_def accept_connection_def server_ok_def)
next
  case (one k s s')
  then show ?thesis using assms(3) by (auto simp: orphaned_def changed_def)
next
  case (all k s s')
  then show ?thesis using assms(4) by simp
next
  case (closed k s s')
  then have "k \<noteq> i" using assms(3) by (auto simp: orphaned_def socket_closed_def)
  then show ?thesis using closed assms(3) by (auto simp: orphaned_def close_session_def in_set_remove1)
qed

lemma orphaned_path:
  "rpc_path F sv tr sv' \<Longrightarrow> server_ok sv \<Longrightarrow> orphaned i sv \<Longrightarrow> \<forall>k. Job k Close_sessions \<notin> set tr \<Longrightarrow> orphaned i sv'"
proof (induction tr sv' rule: rpc_path.induct)
  case (rpc_next tr sv1 a sv2)
  then show ?case using orphaned_step[OF rpc_next.hyps(2) rpc_path_ok[OF rpc_next.hyps(1)]] by auto
qed

text \<open>A session whose strand closes it.\<close>

definition leaving :: "nat \<Rightarrow> rpc_server \<Rightarrow> bool" where
  "leaving i sv \<longleftrightarrow>
     (\<exists>s. sv_all sv i = Some s \<and>
        (Close_socket \<in> set (ss_strand s) \<or> i \<notin> set (sv_sessions sv) \<and> \<not> socket_open (ss_writer s)))"

lemma leaving_step:
  assumes "rpc_step F sv a sv'" and "server_ok sv" and "leaving i sv"
  shows "leaving i sv'"
  using assms(1)
proof (cases rule: rpc_step_cases)
  case new
  then show ?thesis using assms(2,3) by (auto simp: leaving_def accept_connection_def server_ok_def)
next
  case (one k s s')
  then show ?thesis using assms(3) by (auto simp: leaving_def changed_def)
next
  case (all k s s')
  then show ?thesis using assms(3) by (auto simp: leaving_def changed_def close_sessions_def session_close_def)
next
  case (closed k s s')
  have "distinct (sv_sessions sv)" using assms(2) by (simp add: server_ok_def)
  then show ?thesis using closed assms(3) by (auto simp: leaving_def close_session_def socket_closed_def in_set_remove1)
qed

lemma leaving_path: "rpc_path F sv tr sv' \<Longrightarrow> server_ok sv \<Longrightarrow> leaving i sv \<Longrightarrow> leaving i sv'"
proof (induction tr sv' rule: rpc_path.induct)
  case (rpc_next tr sv1 a sv2)
  then show ?case using leaving_step[OF rpc_next.hyps(2) rpc_path_ok[OF rpc_next.hyps(1)]] by auto
qed

section \<open>Properties\<close>

text \<open>The jobs a handler asks for beside its response.\<close>

definition requested :: "wishes \<Rightarrow> job list" where
  "requested w = (if w_exit_session w then [Set_exit] else []) @ (if w_stop_server w then [Close_sessions] else [])"

text \<open>A handler decides what its caller gets: an error it responds with is sent as the error of the call, a special
  response replaces the value returned, and when it disables the response nothing is sent. Disabling the
  response also drops the exit of the session and the stop of the server it asked for.\<close>

theorem handler_decides_response:
  assumes "obj \<noteq> NIL" and "length (not_found_text name n) < 2 ^ 32" and "w_enabled w" and "w_error w = NIL"
  shows "(\<exists>r. answer_call suppress i name n (respond_error obj w) = Inr (Write_response r # requested w) \<and>
      rs_id r = i \<and> rs_error r = Some obj) \<and>
    answer_call suppress i name n (Returns result, respond obj w) = Inr (Write_response (make_result i obj) # requested w) \<and>
    answer_call suppress i name n (Returns result, disable_response (post_exit (stop_server w))) = Inr []"
  using assms
  by (simp add: answer_call_def call_response_def respond_error_def respond_def after_dispatch_def make_error_def
      object_string_def checked_get_container_size_def capture_error_def capture_result_def make_result_def
      response_init_def disable_response_def post_exit_def stop_server_def requested_def)

theorem handler_decides_response_witness:
  "answer_call False 7 ''f'' 1 (Returns (POSITIVE_INTEGER 2), respond (STRING ''x'') (post_exit wishes_clear)) =
     Inr [Write_response (make_result 7 (STRING ''x'')), Set_exit]"
proof -
  have "length (not_found_text ''f'' 1) < 2 ^ 32" by (simp add: not_found_text_def to_string.simps)
  from handler_decides_response[OF _ this, of "STRING ''x''" "post_exit wishes_clear"] show ?thesis
    by (simp add: post_exit_def wishes_clear_def requested_def)
qed

text \<open>An error response in the handler of a notification dereferences a null pointer: the empty response of a
  notification has no error object, and \<open>capture_error\<close> does not create one.\<close>

theorem notification_error_faults:
  "obj \<noteq> NIL \<Longrightarrow> w_enabled w \<Longrightarrow>
    answer_notification suppress (respond_error obj w) = Inl (Undefined NullPointer)"
  by (simp add: answer_notification_def notification_response_def respond_error_def after_dispatch_def
      capture_error_def response_empty_def response_init_def)

theorem notification_error_faults_witness:
  "answer_notification True (respond_error (STRING ''bad'') wishes_clear) = Inl (Undefined NullPointer)"
  by (rule notification_error_faults) (simp_all add: wishes_clear_def)

text \<open>C18: In every run, a session that nobody asked to exit is open and listed by the server, and a session that is no
  longer listed is closed or has the job that closes it in its strand. A client that disconnects is forgotten: once the
  strand of its session has run, the session is closed and not listed any more.\<close>

theorem disconnected_sessions_close:
  assumes "rpc_path F server_new tr sv"
  shows "(\<forall>i s. sv_all sv i = Some s \<longrightarrow> session_ok (i \<in> set (sv_sessions sv)) s) \<and>
    (\<forall>i sv1 tr' sv2 s2. rpc_step F sv (Read i Eof_or_reset) sv1 \<and> (\<exists>s. sv_all sv i = Some s \<and> \<not> ss_exiting s) \<and>
       rpc_path F sv1 tr' sv2 \<and> sv_all sv2 i = Some s2 \<and> ss_strand s2 = [] \<longrightarrow>
       i \<notin> set (sv_sessions sv2) \<and> \<not> socket_open (ss_writer s2))"
proof -
  have ok: "server_ok sv" using rpc_path_ok[OF assms server_new_ok] .
  have "i \<notin> set (sv_sessions sv2) \<and> \<not> socket_open (ss_writer s2)"
    if step: "rpc_step F sv (Read i Eof_or_reset) sv1" and s: "sv_all sv i = Some s" "\<not> ss_exiting s"
      and path: "rpc_path F sv1 tr' sv2" and s2: "sv_all sv2 i = Some s2" "ss_strand s2 = []" for i sv1 tr' sv2 s2 s
  proof -
    have "sv1 = set_session i (read_handler Eof_or_reset s) sv" using step s(1) by (auto elim: rpc_step.cases)
    then have "leaving i sv1" using s(2) by (auto simp: leaving_def read_handler_def session_close_def)
    from leaving_path[OF path rpc_step_ok[OF step ok] this] s2 show ?thesis by (simp add: leaving_def)
  qed
  then show ?thesis using known_session[OF ok] by blast
qed

text \<open>Other sessions leak: a session whose read fails otherwise than by a disconnect, or that exits at the wish of its
  handler, stays listed in every run in which the server does not close all its sessions.\<close>

theorem exited_sessions_leak:
  assumes "rpc_path F server_new tr sv" and "sv_all sv i = Some s" and "\<not> ss_exiting s"
    and "a \<in> {Read i Other_error, Job i Set_exit}" and "rpc_step F sv a sv1" and "rpc_path F sv1 tr' sv2"
    and "\<forall>k. Job k Close_sessions \<notin> set tr'"
  shows "i \<in> set (sv_sessions sv2)"
proof -
  have ok: "server_ok sv" using rpc_path_ok[OF assms(1) server_new_ok] .
  have s: "i \<in> set (sv_sessions sv)" "Close_socket \<notin> set (ss_strand s)"
    using known_session[OF ok assms(2)] assms(3) by (auto simp: session_ok_def)
  have "orphaned i sv1"
  proof (cases "a = Read i Other_error")
    case True
    then have "sv1 = set_session i (read_handler Other_error s) sv" using assms(2,5) by (auto elim: rpc_step.cases)
    then show ?thesis using s assms(3) by (simp add: orphaned_def read_handler_def)
  next
    case False
    then have "rpc_step F sv (Job i Set_exit) sv1" using assms(4,5) by simp
    then obtain js where "ss_strand s = Set_exit # js" "sv1 = set_session i (request_exit (s\<lparr>ss_strand := js\<rparr>)) sv"
      using assms(2) by (auto elim!: job_stepE simp: run_job_def)
    then show ?thesis using s by (simp add: orphaned_def request_exit_def ss_exiting_def)
  qed
  from orphaned_path[OF assms(6) rpc_step_ok[OF assms(5) ok] this assms(7)] show ?thesis by (simp add: orphaned_def)
qed

definition example_server :: rpc_server where
  "example_server = accept_connection server_new"

lemma example_server_path: "rpc_path F server_new ([] @ [Accepted]) example_server"
  unfolding example_server_def by (rule rpc_next[OF rpc_start accepted])

lemma example_session [simp]: "sv_all example_server 0 = Some session_new" "\<not> ss_exiting session_new"
  by (simp_all add: example_server_def accept_connection_def server_new_def set_session_def session_new_def
      ss_exiting_def writer_new_def)

theorem disconnected_sessions_close_witness:
  "0 \<notin> set (sv_sessions (close_session 0 (set_session 0
      (session_new\<lparr>ss_reading := False, ss_writer := writer_new\<lparr>exiting := True, socket_open := False\<rparr>\<rparr>) example_server)))"
proof -
  let ?s1 = "session_new\<lparr>ss_reading := False, ss_writer := writer_new\<lparr>exiting := True\<rparr>, ss_strand := [Close_socket]\<rparr>"
  let ?s2 = "session_new\<lparr>ss_reading := False, ss_writer := writer_new\<lparr>exiting := True, socket_open := False\<rparr>\<rparr>"
  have "read_handler Eof_or_reset session_new = ?s1"
    by (simp add: read_handler_def session_close_def request_exit_def session_new_def ss_exiting_def writer_new_def)
  moreover have "ss_reading session_new" by (simp add: session_new_def)
  ultimately have step: "rpc_step zero_floats example_server (Read 0 Eof_or_reset) (set_session 0 ?s1 example_server)"
    using read[OF example_session(1)] by metis
  have "rpc_step zero_floats (set_session 0 ?s1 example_server) (Job 0 Close_socket)
      (close_session 0 (set_session 0 ?s2 (set_session 0 ?s1 example_server)))"
    by (rule job[where s = ?s1 and js = "[]"]) (simp_all add: run_job_def session_new_def)
  then have path: "rpc_path zero_floats (set_session 0 ?s1 example_server) ([] @ [Job 0 Close_socket])
      (close_session 0 (set_session 0 ?s2 example_server))"
    by (intro rpc_next[OF rpc_start]) (simp add: set_session_def)
  have "sv_all (close_session 0 (set_session 0 ?s2 example_server)) 0 = Some ?s2" "ss_strand ?s2 = []"
    by (simp_all add: close_session_def session_new_def)
  with disconnected_sessions_close[OF example_server_path] step path show ?thesis
    using example_session by blast
qed

theorem exited_sessions_leak_witness:
  "0 \<in> set (sv_sessions (accept_connection (set_session 0 (session_new\<lparr>ss_reading := False\<rparr>) example_server)))"
proof -
  have "rpc_step zero_floats example_server (Read 0 Other_error) (set_session 0 (read_handler Other_error session_new) example_server)"
    by (rule read) (simp_all add: session_new_def)
  then have step: "rpc_step zero_floats example_server (Read 0 Other_error)
      (set_session 0 (session_new\<lparr>ss_reading := False\<rparr>) example_server)"
    by (simp add: read_handler_def)
  from exited_sessions_leak[OF example_server_path example_session _ step rpc_next[OF rpc_start accepted]]
  show ?thesis by simp
qed

end
