(* ===== verification/Rpc_Client.thy ===== *)
theory Rpc_Client
  imports Rpc_Session
begin

text \<open>
  The life of a client of rpclib around \<open>Rpc_Session\<close> (\<open>src/external/rpclib/lib/rpc/client.cc\<close>, \<open>include/rpc/client.inl\<close>):
  the connection that is established in the background, callers that wait for it and then for their responses,
  timeouts, and the end of the connection. HFetch makes its remote calls with clients that have no timeout
  (\<open>RPC::call\<close> of \<open>rpc_lib.h\<close>).

  A caller is a thread in \<open>client::call\<close>. The timeout it waits with is the one set when it began to wait; the text of the
  exception reads the timeout again, so a timeout that was cleared in between leaves no exception to throw (the
  dereference of an empty \<open>optional\<close>, for which there is no step). Waiting on a condition variable may end without a
  notification; this is the step \<open>Spurious\<close>.
\<close>

section \<open>Callers and their client\<close>

datatype connection_state = Conn_initial | Conn_connected | Conn_disconnected | Conn_reset

text \<open>A call puts its promise into the table under its number, unless a call of that number is in it: then
  \<open>insert\<close> drops the promise and the future of the caller is broken. A promise of the table is settled by the next outcome of
  its number, the \<open>n\<close>-th counted from the first call of the client.\<close>

datatype promise = In_table nat nat | Dropped

datatype caller =
    Calling string "bytes res"
  | Blocked string "bytes res" "int option"
  | Woken string "bytes res"
  | Counted string "bytes res"
  | Pending string promise "int option"
  | Answered call_outcome
  | Threw_broken_promise
  | Timed_out string

record client_conn =
  cc_addr :: string
  cc_port :: nat
  cc_connecting :: bool
  cc_connected :: bool
  cc_state :: connection_state
  cc_reading :: bool
  cc_timeout :: "int option"
  cc_client :: rpc_client
  cc_posted :: "bytes list"
  cc_callers :: "caller list"

definition conn_new :: "string \<Rightarrow> nat \<Rightarrow> client_conn" where
  "conn_new addr port = \<lparr>cc_addr = addr, cc_port = port, cc_connecting = True, cc_connected = False, cc_state = Conn_initial,
     cc_reading = False, cc_timeout = None, cc_client = client_new, cc_posted = [], cc_callers = []\<rparr>"

definition set_timeout :: "int \<Rightarrow> client_conn \<Rightarrow> client_conn" where
  "set_timeout v c = c\<lparr>cc_timeout := Some v\<rparr>"

definition clear_timeout :: "client_conn \<Rightarrow> client_conn" where
  "clear_timeout c = c\<lparr>cc_timeout := None\<rparr>"

definition connect_timeout_text :: "int \<Rightarrow> client_conn \<Rightarrow> string" where
  "connect_timeout_text t c =
     ''rpc::timeout: Timeout of '' @ int_string t @ ''ms while connecting to '' @ cc_addr c @ '':'' @ to_string (cc_port c)"

definition call_timeout_text :: "int \<Rightarrow> string \<Rightarrow> string" where
  "call_timeout_text t func_name =
     ''rpc::timeout: Timeout of '' @ int_string t @ ''ms while calling RPC function '' @ [CHR 39] @ func_name @ [CHR 39]"

text \<open>The handler of \<open>async_connect\<close>; \<open>notify_all\<close> wakes every caller that waits.\<close>

definition wake :: "caller \<Rightarrow> caller" where
  "wake k = (case k of Blocked name args t \<Rightarrow> Woken name args | _ \<Rightarrow> k)"

definition connect_handler :: "bool \<Rightarrow> client_conn \<Rightarrow> client_conn" where
  "connect_handler ec c =
     (if \<not> ec
      then c\<lparr>cc_connecting := False, cc_connected := True, cc_state := Conn_connected, cc_reading := True,
             cc_callers := map wake (cc_callers c)\<rparr>
      else c\<lparr>cc_connecting := False\<rparr>)"

text \<open>\<open>async_call\<close> after \<open>wait_conn\<close>, and the wait for the future. A thread increments the counter of the calls and takes its
  number in two steps.\<close>

definition count_call :: "string \<Rightarrow> bytes res \<Rightarrow> nat \<Rightarrow> client_conn \<Rightarrow> client_conn" where
  "count_call name args k c =
     c\<lparr>cc_client := incr_call_idx (cc_client c), cc_callers := (cc_callers c)[k := Counted name args]\<rparr>"

definition outcomes :: "client_conn \<Rightarrow> nat \<Rightarrow> call_outcome list" where
  "outcomes c i = map snd (filter (\<lambda>x. fst x = i) (settled (cc_client c)))"

definition call_promise :: "nat \<Rightarrow> client_conn \<Rightarrow> promise" where
  "call_promise i c =
     (if um_find i (ongoing_calls (cc_client c)) = None then In_table i (length (outcomes c i)) else Dropped)"

definition begin_call :: "string \<Rightarrow> bytes res \<Rightarrow> nat \<Rightarrow> client_conn \<Rightarrow> client_conn res" where
  "begin_call name args k c =
     (let idx = call_idx (cc_client c)
      in rbind (call_buffer idx name args) (\<lambda>buffer.
           Inr (c\<lparr>cc_client := client_post idx name (cc_client c), cc_posted := cc_posted c @ [buffer],
                  cc_callers := (cc_callers c)[k := Pending name (call_promise (to_unsigned 32 idx) c) (cc_timeout c)]\<rparr>)))"

text \<open>A notification is posted at once, whether the client is connected or not.\<close>

definition client_send :: "string \<Rightarrow> bytes res \<Rightarrow> client_conn \<Rightarrow> client_conn res" where
  "client_send name args c =
     rbind (pack_members [pack_unsigned_char 2, pack_string name, args]) (\<lambda>buffer.
       Inr (c\<lparr>cc_posted := cc_posted c @ [buffer]\<rparr>))"

text \<open>\<open>wait_all_responses\<close> asks the promises of the pending calls for their futures. The future of a call was taken by
  \<open>async_call\<close>, and taking it again throws.\<close>

datatype wait_result = All_answered | Future_already_retrieved

definition wait_all_responses :: "client_conn \<Rightarrow> wait_result" where
  "wait_all_responses c = (if ongoing_calls (cc_client c) = [] then All_answered else Future_already_retrieved)"

text \<open>What the future of a promise holds: nothing yet, an outcome, or the error of a promise that was dropped.\<close>

datatype future_state = Ready call_outcome | Broken_promise

definition future_of :: "client_conn \<Rightarrow> promise \<Rightarrow> future_state option" where
  "future_of c p =
     (case p of
        In_table i n \<Rightarrow> if n < length (outcomes c i) then Some (Ready (outcomes c i ! n)) else None
      | Dropped \<Rightarrow> Some Broken_promise)"

definition future_get :: "future_state \<Rightarrow> caller" where
  "future_get st = (case st of Ready out \<Rightarrow> Answered out | Broken_promise \<Rightarrow> Threw_broken_promise)"

text \<open>When the client is destroyed, the promises that are left break.\<close>

definition destroy_client :: "client_conn \<Rightarrow> promise \<Rightarrow> future_state" where
  "destroy_client c p = (case future_of c p of Some st \<Rightarrow> st | None \<Rightarrow> Broken_promise)"

datatype conn_event =
    Connect_done bool
  | Timeout_set "int option"
  | Arrives string "bytes res"
  | Waits nat
  | Calls nat
  | Numbers nat
  | Spurious nat
  | Connect_timeout nat
  | Sends string "bytes res"
  | Read_data bytes
  | Disconnected_by_peer
  | Read_error
  | Future_ready nat
  | Call_timeout nat

inductive conn_step :: "float_bits \<Rightarrow> client_conn \<Rightarrow> conn_event \<Rightarrow> client_conn \<Rightarrow> bool" for F :: float_bits where
  connect_done: "cc_connecting c \<Longrightarrow> conn_step F c (Connect_done ec) (connect_handler ec c)"
| timeout_set: "conn_step F c (Timeout_set v) (case v of Some v \<Rightarrow> set_timeout v c | None \<Rightarrow> clear_timeout c)"
| arrives: "conn_step F c (Arrives name args) (c\<lparr>cc_callers := cc_callers c @ [Calling name args]\<rparr>)"
| waits: "k < length (cc_callers c) \<Longrightarrow> cc_callers c ! k = Calling name args \<Longrightarrow> \<not> cc_connected c \<Longrightarrow>
    conn_step F c (Waits k) (c\<lparr>cc_callers := (cc_callers c)[k := Blocked name args (cc_timeout c)]\<rparr>)"
| calls: "k < length (cc_callers c) \<Longrightarrow> cc_callers c ! k = Calling name args \<and> cc_connected c \<or> cc_callers c ! k = Woken name args \<Longrightarrow>
    conn_step F c (Calls k) (count_call name args k c)"
| numbers: "k < length (cc_callers c) \<Longrightarrow> cc_callers c ! k = Counted name args \<Longrightarrow> begin_call name args k c = Inr c' \<Longrightarrow>
    conn_step F c (Numbers k) c'"
| spurious: "k < length (cc_callers c) \<Longrightarrow> cc_callers c ! k = Blocked name args t \<Longrightarrow>
    conn_step F c (Spurious k) (count_call name args k c)"
| connect_timeout: "k < length (cc_callers c) \<Longrightarrow> cc_callers c ! k = Blocked name args (Some t) \<Longrightarrow>
    cc_timeout c = Some now \<Longrightarrow>
    conn_step F c (Connect_timeout k) (c\<lparr>cc_callers := (cc_callers c)[k := Timed_out (connect_timeout_text now c)]\<rparr>)"
| sends: "client_send name args c = Inr c' \<Longrightarrow> conn_step F c (Sends name args) c'"
| read_data: "cc_reading c \<Longrightarrow> client_read F bs (cc_client c) = Inr cl \<Longrightarrow>
    conn_step F c (Read_data bs) (c\<lparr>cc_client := cl\<rparr>)"
| peer_gone: "cc_reading c \<Longrightarrow>
    conn_step F c Disconnected_by_peer (c\<lparr>cc_reading := False, cc_state := Conn_disconnected\<rparr>)"
| read_error: "cc_reading c \<Longrightarrow> conn_step F c Read_error (c\<lparr>cc_reading := False\<rparr>)"
| future_ready: "k < length (cc_callers c) \<Longrightarrow> cc_callers c ! k = Pending name p t \<Longrightarrow> future_of c p = Some st \<Longrightarrow>
    conn_step F c (Future_ready k) (c\<lparr>cc_callers := (cc_callers c)[k := future_get st]\<rparr>)"
| call_timeout: "k < length (cc_callers c) \<Longrightarrow> cc_callers c ! k = Pending name p (Some t) \<Longrightarrow>
    cc_timeout c = Some now \<Longrightarrow>
    conn_step F c (Call_timeout k) (c\<lparr>cc_callers := (cc_callers c)[k := Timed_out (call_timeout_text now name)]\<rparr>)"

inductive conn_path :: "float_bits \<Rightarrow> client_conn \<Rightarrow> conn_event list \<Rightarrow> client_conn \<Rightarrow> bool" for F and c where
  conn_start: "conn_path F c [] c"
| conn_next: "conn_path F c tr c1 \<Longrightarrow> conn_step F c1 a c2 \<Longrightarrow> conn_path F c (tr @ [a]) c2"

section \<open>Lemmas\<close>

lemma begin_call_frame:
  assumes "begin_call name args k c = Inr c'"
  shows "settled (cc_client c') = settled (cc_client c) \<and> cc_reading c' = cc_reading c \<and> cc_connecting c' = cc_connecting c \<and>
    cc_connected c' = cc_connected c \<and> length (cc_callers c') = length (cc_callers c) \<and>
    (\<forall>j. j \<noteq> k \<longrightarrow> cc_callers c' ! j = cc_callers c ! j)"
  using assms
  by (auto simp: begin_call_def client_post_def rbind_Inr_iff Let_def)

lemma count_call_frame:
  "settled (cc_client (count_call name args k c)) = settled (cc_client c)"
  "cc_reading (count_call name args k c) = cc_reading c" "cc_connecting (count_call name args k c) = cc_connecting c"
  "cc_connected (count_call name args k c) = cc_connected c"
  "length (cc_callers (count_call name args k c)) = length (cc_callers c)"
  "j \<noteq> k \<Longrightarrow> cc_callers (count_call name args k c) ! j = cc_callers c ! j"
  by (simp_all add: count_call_def incr_call_idx_def)

lemma client_send_frame:
  assumes "client_send name args c = Inr c'"
  shows "cc_client c' = cc_client c \<and> cc_reading c' = cc_reading c \<and> cc_connecting c' = cc_connecting c \<and>
    cc_connected c' = cc_connected c \<and> cc_callers c' = cc_callers c"
  using assms by (auto simp: client_send_def rbind_Inr_iff)

text \<open>Only reads settle calls: the future of a call whose client is destroyed before a response was read is broken.
  \<open>RPC::async_call\<close> returns such a future, as its client dies when it returns.\<close>

lemma settled_by_reads:
  assumes "conn_step F c a c'" and "\<forall>bs. a \<noteq> Read_data bs"
  shows "settled (cc_client c') = settled (cc_client c)"
  using assms(1)
proof (cases rule: conn_step.cases)
  case (timeout_set v)
  then show ?thesis by (cases v) (simp_all add: set_timeout_def clear_timeout_def)
next
  case (numbers k name args)
  then show ?thesis using begin_call_frame[OF numbers(4)] by simp
next
  case (sends name args)
  then show ?thesis using client_send_frame[OF sends(2)] by simp
qed (use assms(2) in \<open>simp_all add: connect_handler_def count_call_frame\<close>)

theorem unread_futures_break:
  assumes "conn_path F (conn_new addr port) tr c" and "\<forall>bs. Read_data bs \<notin> set tr"
  shows "destroy_client c p = Broken_promise"
proof -
  have "settled (cc_client c) = []"
    using assms
  proof (induction rule: conn_path.induct)
    case (conn_next tr c1 a c2)
    then show ?case using settled_by_reads[OF conn_next.hyps(2)] by auto
  qed (simp add: conn_new_def client_new_def)
  then show ?thesis by (cases p) (simp_all add: destroy_client_def future_of_def outcomes_def)
qed

text \<open>No read is pending and none will be.\<close>

definition dead :: "client_conn \<Rightarrow> bool" where
  "dead c \<longleftrightarrow> \<not> cc_connecting c \<and> \<not> cc_reading c"

lemma dead_step:
  assumes "conn_step F c a c'" and "dead c"
  shows "dead c' \<and> settled (cc_client c') = settled (cc_client c) \<and> cc_connected c' = cc_connected c"
  using assms
proof (cases rule: conn_step.cases)
  case (timeout_set v)
  then show ?thesis using assms(2) by (cases v) (simp_all add: dead_def set_timeout_def clear_timeout_def)
next
  case (numbers k name args)
  then show ?thesis using assms(2) begin_call_frame[OF numbers(4)] by (simp add: dead_def)
next
  case (sends name args)
  then show ?thesis using assms(2) client_send_frame[OF sends(2)] by (simp add: dead_def)
qed (simp_all add: dead_def count_call_frame)

lemma future_of_settled: "settled (cc_client c') = settled (cc_client c) \<Longrightarrow> future_of c' p = future_of c p"
  by (simp add: future_of_def outcomes_def split: promise.split)

text \<open>A caller with no timeout that waits for a response no one will read.\<close>

lemma pending_step:
  assumes "conn_step F c a c'" and "dead c" and "k < length (cc_callers c)" and "cc_callers c ! k = Pending name p None"
    and "future_of c p = None"
  shows "k < length (cc_callers c') \<and> cc_callers c' ! k = Pending name p None"
  using assms(1)
proof (cases rule: conn_step.cases)
  case (timeout_set v)
  then show ?thesis using assms(3,4) by (cases v) (simp_all add: set_timeout_def clear_timeout_def)
next
  case (numbers k' name' args)
  then have "k' \<noteq> k" using assms(4) by auto
  then show ?thesis using begin_call_frame[OF numbers(4)] assms(3,4) by simp
next
  case (calls k' name' args)
  then have "k' \<noteq> k" using assms(4) by auto
  then show ?thesis using calls(2) assms(3,4) by (simp add: count_call_frame)
next
  case (spurious k' name' args t)
  then have "k' \<noteq> k" using assms(4) by auto
  then show ?thesis using spurious(2) assms(3,4) by (simp add: count_call_frame)
next
  case (sends name' args')
  then show ?thesis using client_send_frame[OF sends(2)] assms(3,4) by simp
next
  case (future_ready k' name' p' t st)
  have "k' \<noteq> k" using future_ready(4,5) assms(4,5) by auto
  then show ?thesis using future_ready(2) assms(3,4) by simp
qed (use assms(2-4) in \<open>auto simp: dead_def nth_append nth_list_update\<close>)

text \<open>A caller that waits for a connection that failed.\<close>

lemma blocked_step:
  assumes "conn_step F c a c'" and "dead c" and "k < length (cc_callers c)" and "cc_callers c ! k = Blocked name args None"
    and "a \<noteq> Spurious k"
  shows "k < length (cc_callers c') \<and> cc_callers c' ! k = Blocked name args None"
  using assms(1)
proof (cases rule: conn_step.cases)
  case (timeout_set v)
  then show ?thesis using assms(3,4) by (cases v) (simp_all add: set_timeout_def clear_timeout_def)
next
  case (numbers k' name' args')
  then have "k' \<noteq> k" using assms(4) by auto
  then show ?thesis using begin_call_frame[OF numbers(4)] assms(3,4) by simp
next
  case (calls k' name' args')
  then have "k' \<noteq> k" using assms(4) by auto
  then show ?thesis using calls(2) assms(3,4) by (simp add: count_call_frame)
next
  case (spurious k' name' args' t)
  then have "k' \<noteq> k" using assms(5) spurious(1) by auto
  then show ?thesis using spurious(2) assms(3,4) by (simp add: count_call_frame)
next
  case (sends name' args')
  then show ?thesis using client_send_frame[OF sends(2)] assms(3,4) by simp
qed (use assms(2-4) in \<open>auto simp: dead_def nth_append nth_list_update\<close>)

lemma waiting_path:
  assumes "conn_path F c tr c'" and "dead c" and "k < length (cc_callers c)"
    and "cc_callers c ! k = Pending name p None \<and> future_of c p = None \<or>
      cc_callers c ! k = Blocked name args None \<and> Spurious k \<notin> set tr"
  shows "dead c' \<and> settled (cc_client c') = settled (cc_client c) \<and> k < length (cc_callers c') \<and>
    cc_callers c' ! k = cc_callers c ! k"
  using assms(1,4)
proof (induction rule: conn_path.induct)
  case conn_start
  then show ?case using assms(2,3) by simp
next
  case (conn_next tr c1 a c2)
  have before: "cc_callers c ! k = Pending name p None \<and> future_of c p = None \<or>
      cc_callers c ! k = Blocked name args None \<and> Spurious k \<notin> set tr"
    using conn_next.prems by auto
  have c1: "dead c1" "settled (cc_client c1) = settled (cc_client c)" "k < length (cc_callers c1)"
      "cc_callers c1 ! k = cc_callers c ! k"
    using conn_next.IH[OF before] by simp_all
  have c2: "dead c2 \<and> settled (cc_client c2) = settled (cc_client c1)"
    using dead_step[OF conn_next.hyps(2) c1(1)] by simp
  show ?case
  proof (cases "cc_callers c ! k = Pending name p None")
    case True
    then have "future_of c1 p = None" using conn_next.prems future_of_settled[OF c1(2)] by simp
    with pending_step[OF conn_next.hyps(2) c1(1,3)] show ?thesis using True c1 c2 by simp
  next
    case False
    then have "cc_callers c ! k = Blocked name args None" "a \<noteq> Spurious k" using conn_next.prems by auto
    with blocked_step[OF conn_next.hyps(2) c1(1,3)] show ?thesis using c1 c2 by simp
  qed
qed

text \<open>A caller whose promise was dropped does not wait: its future is ready, and getting it throws.\<close>

lemma dropped_call_throws:
  assumes "k < length (cc_callers c)" and "cc_callers c ! k = Pending name Dropped t"
  shows "conn_step F c (Future_ready k) (c\<lparr>cc_callers := (cc_callers c)[k := Threw_broken_promise]\<rparr>)"
  using conn_step.future_ready[OF assms, of Broken_promise F] by (simp add: future_of_def future_get_def)


definition lost_client :: client_conn where
  "lost_client = \<lparr>cc_addr = ''node1'', cc_port = 9000, cc_connecting = False, cc_connected = True,
     cc_state = Conn_disconnected, cc_reading = False, cc_timeout = None,
     cc_client = client_new\<lparr>call_idx := 1, ongoing_calls := [(1, ''get'', False)]\<rparr>,
     cc_posted = [pack_object zero_floats (call_message 1 ''get'' (ARRAY []))], cc_callers = [Pending ''get'' (In_table 1 0) None]\<rparr>"

lemma lost_client_reached:
  "conn_path zero_floats (conn_new ''node1'' 9000)
     [Arrives ''get'' (Inr (pack_object zero_floats (ARRAY []))), Waits 0, Connect_done False, Calls 0, Numbers 0, Disconnected_by_peer] lost_client"
proof -
  let ?args = "Inr (pack_object zero_floats (ARRAY []))"
  let ?c0 = "conn_new ''node1'' 9000"
  let ?c1 = "?c0\<lparr>cc_callers := [Calling ''get'' ?args]\<rparr>"
  let ?c2 = "?c0\<lparr>cc_callers := [Blocked ''get'' ?args None]\<rparr>"
  let ?c3 = "connect_handler False ?c2"
  let ?c4 = "lost_client\<lparr>cc_state := Conn_connected, cc_reading := True\<rparr>"
  have s1: "conn_step zero_floats ?c0 (Arrives ''get'' ?args) ?c1"
    using arrives[of zero_floats ?c0 "''get''" ?args] by (simp add: conn_new_def)
  have s2: "conn_step zero_floats ?c1 (Waits 0) ?c2"
    using waits[of 0 ?c1 "''get''" ?args zero_floats] by (simp add: conn_new_def)
  have s3: "conn_step zero_floats ?c2 (Connect_done False) ?c3"
    by (rule connect_done) (simp add: conn_new_def)
  let ?c3' = "count_call ''get'' ?args 0 ?c3"
  have s4: "conn_step zero_floats ?c3 (Calls 0) ?c3'"
    using calls[of 0 ?c3 "''get''" ?args zero_floats] by (simp add: conn_new_def connect_handler_def wake_def)
  have "call_buffer 1 ''get'' ?args = Inr (hd (cc_posted ?c4))"
    using call_packed[of 1 "''get''" zero_floats "ARRAY []"] by (simp add: lost_client_def call_buffer_def)
  then have "begin_call ''get'' ?args 0 ?c3' = Inr ?c4"
    by (simp add: begin_call_def count_call_def incr_call_idx_def conn_new_def connect_handler_def wake_def lost_client_def
        client_new_def client_post_def to_unsigned_def to_int32_def um_insert_def um_find_def call_promise_def outcomes_def)
  then have s4': "conn_step zero_floats ?c3' (Numbers 0) ?c4"
    using numbers[of 0 ?c3' "''get''" ?args ?c4 zero_floats] by (simp add: conn_new_def connect_handler_def wake_def count_call_def)
  have s5: "conn_step zero_floats ?c4 Disconnected_by_peer lost_client"
    using peer_gone[of ?c4 zero_floats] by (simp add: lost_client_def)
  show ?thesis
    using conn_next[OF conn_next[OF conn_next[OF conn_next[OF conn_next[OF conn_next[OF conn_start s1] s2] s3] s4] s4'] s5] by simp
qed


end
