(* ===== verification/Spec2Isabelle.thy ===== *)
theory Spec2Isabelle
  imports Benchmarks Test_Library Hardware_Monitor Distributed_MultiMap Transport Msgpack_Format Auditor_Races Rpc_Server
    Rpc_Client
begin

text \<open>
  HFetch is a hierarchical data prefetcher. An application is linked with a library that wraps the C file calls
  (\<open>src/src/lib\<close>). Every wrapper pushes an event to the server of its node; the worker threads of a server
  (\<open>src/src/server/server.h\<close>) pop events in batches and hand them to the event manager, which lets the file
  segment auditor record them, asks the placement engine where hot segments belong in the hierarchy of storage
  layers, lets the data manager move the data there, and tells the auditor. A later read of the application asks the
  auditor where the bytes are and reads them from that layer. Servers share their state through distributed
  containers (\<open>src/src/common/distributed_ds\<close>): every key has an owner, an operation on another server's keys is a
  remote call of rpclib (\<open>src/external/rpclib\<close>), and rpclib packs calls in the msgpack format.

  The theories, in the order of their imports. Definitions carry the names of the functions they translate.

  \<^item> \<open>Prelude\<close>: outcomes of fallible code (\<open>'a res\<close>: \<open>Inl\<close> an exception, a failed assertion or undefined
    behaviour, \<open>Inr\<close> a value), conversions between integer widths, loops (\<open>rfold\<close>), generic lemmas.
  \<^item> \<open>Ordered_Containers\<close>: the operations of \<open>std::map\<close>, \<open>std::multimap\<close> and \<open>std::unordered_map\<close> the sources use,
    with the locale \<open>strict_weak_order\<close> for comparators.
  \<^item> \<open>Data_Structure\<close> (\<open>data_structure.h\<close>, \<open>enumerations.h\<close>, \<open>constants.h\<close>): segments, scores, events, layers, files,
    and when the arithmetic of segments is exact.
  \<^item> \<open>Rpc_Lib\<close> (\<open>rpc_lib.h\<close>, \<open>dispatcher.cc\<close>): binding of names, calls as HFetch makes them, the server list.
  \<^item> \<open>Msgpack\<close>, \<open>Msgpack_Stream\<close>, \<open>Serialization\<close>, \<open>Rpc_Session\<close> (rpclib and the adaptors of \<open>data_structure.h\<close>): what a
    call is on the wire. The packer and the parser are inverse; a stream is parsed the same however it is cut into
    reads; the values of HFetch survive packing except two members their adaptors drop; every call is answered by
    its own response. Together they justify that the other theories take a remote call as one step which runs the
    bound function on the arguments and returns its result.
  \<^item> \<open>Msgpack_Format\<close>: the msgpack format as an inductive relation between objects and bytes, written from the format and not
    from the code; the parser returns an object exactly for its encodings.
  \<^item> \<open>Sbuffer\<close>, \<open>Unpacker_Buffer\<close> (\<open>sbuffer.hpp\<close>, \<open>unpack.hpp\<close>): the memory below the wire format. The buffer of the packer
    grows by doubling. The input buffer of a connection is a chunk of a heap with a reference count, shared with the
    zones of the messages handed out; a connection with this buffer refines the parser of \<open>Msgpack_Stream\<close>, never
    touches freed memory, leaves the bytes of living messages alone and frees every chunk once.
  \<^item> \<open>Async_Writer\<close> (\<open>async_writer.h\<close>), \<open>Rpc_Server\<close> (\<open>server.cc\<close>, \<open>server_session.cc\<close>, \<open>this_handler.cc\<close>), \<open>Rpc_Client\<close>
    (\<open>client.cc\<close>): the life of connections as step relations. Messages are written one after the other; a bound function
    decides its response; sessions are opened, closed and forgotten (or not, when they end otherwise than by a
    disconnect); callers wait for connections and responses, with timeouts or for ever.
  \<^item> \<open>Channel\<close>, \<open>Transport\<close>: the parts put together. A channel is a write queue, the network and the input buffer of the peer;
    its specification is a queue of objects. A link is a client and its session: callers that number their calls, the
    strand of the client, both channels, the tasks of the server and the strand of the responses, as steps that
    interleave in any way.
  \<^item> \<open>Distributed_HashMap\<close>, \<open>Distributed_Map\<close>, \<open>Distributed_MultiMap\<close>, \<open>Distributed_Queue\<close>, \<open>Global_Counters\<close>: the distributed
    containers. The state of one is a function from servers to what each holds in its shared memory; the server a
    call is made on is an argument. The locales \<open>kv_store\<close> and \<open>fifo_queue\<close> are what the clients rely on.
  \<^item> \<open>Configuration\<close> (\<open>configuration_manager.h\<close>) and \<open>Util\<close> (\<open>util.h\<close>): the command line and the hierarchy built from it. The
    record \<open>env\<close> collects what does not change after start-up.
  \<^item> \<open>Io_Clients\<close> (\<open>io_clients/\<close>): storage in shared files, local files and shared memory; the locale \<open>io_client\<close> is their
    common contract.
  \<^item> \<open>File_Segment_Auditor\<close>, \<open>Auditor_Properties\<close> (\<open>file_segment_auditor.cpp\<close>): the maps from the segments of a file to their
    place and score, refined by functions on single offsets (locale \<open>segment_update\<close>), and their invariant.
    \<open>Auditor_Races\<close> splits the counting of opens and the recording of reads into steps and runs them concurrently.
  \<^item> \<open>Data_Manager\<close> (\<open>data_manager.h\<close>), \<open>Max_Bw_DPE\<close> (\<open>max_bw_dpe.cpp\<close>), \<open>Event_Manager\<close> (\<open>event_manager.cpp\<close>): moves, placement and the
    handling of a batch; the record \<open>hstate\<close> is the state they share.
  \<^item> \<open>Server\<close> (\<open>server.h\<close>) and \<open>Hardware_Monitor\<close>: the threads as labelled step relations, with runs and invariants by rule
    induction.
  \<^item> \<open>Hfetch_Lib\<close> (\<open>hfetch.cpp\<close>, \<open>metadata_manager.cpp\<close>): the wrappers of the application.
  \<^item> \<open>Startup\<close> (\<open>singleton.h\<close>, \<open>macros.h\<close>, \<open>test/util.h\<close>, \<open>main.cpp\<close>): singletons, the loop that waits for shared memory, the
    preparation of the directories of the layers by a shell, the main program up to the start of its threads.
  \<^item> \<open>Tracing\<close> (\<open>debug.h\<close>, \<open>data_structures.cpp\<close>): timers, traces of calls and the text of the data structures.
  \<^item> \<open>Benchmarks\<close> (\<open>src/test\<close>): the programs that use the library: reading and replaying traces, preparing files, the reads of the
    synthetic reader.
  \<^item> \<open>Test_Library\<close> (\<open>src/test/library\<close>): the test of the distributed structures, in which clients, daemons and engines on all
    servers pass events on through two queues, the sequence and the hash map; a schedule is a list of moves.
  \<^item> This theory: properties of the whole path from an application through the server and back.

  What the lemmas show. For every container: a lookup after an update, untouched keys, invariants. For the auditor: a
  read or a move acts offset by offset, the offsets it misses or hits by mistake included, with the condition under which these
  are none; no operation faults as long as the events name layers of the hierarchy, and one that does not faults; files are
  active while they are open. For placement: pieces cover the segment, and what happens when the code tries to displace colder data. For
  the server: no event is lost or invented, \<open>stop\<close> returns after everything was handled, the invariants of
  storage and auditor hold along every run. For the transport: every call is answered by its own response, first with
  abstract buffers and phases that follow each other, then with reference counted chunks, write queues that drain and every
  step interleaved; there the invariant says where each call is on its way, a lexicographic measure shows that the
  parts come to rest, and at rest every call is settled. Where the code does not do what it is meant to, the theorem states
  what it does: the overlap query and the subtraction of segments have exactness conditions, the file clients
  lose the last byte, \<open>MakeCapacity\<close> never makes room, displacing dereferences \<open>end()\<close>, concurrent opens can be
  lost, concurrent reads leave overlapping segments, threads that call at the same time can get one number, a failed write
  blocks its queue, a lost server blocks its callers, an engine of the queue test can ask for an event before it is stored, and starting a server erases the
  files in the directories of its layers on disk.

  Conventions and bounds.
  \<^item> Counters wrap at the width they have in the code; \<open>long\<close> is \<open>int\<close> with overflow undefined, so lemmas carry
    \<open>in_long\<close> bounds; \<open>float\<close> and \<open>double\<close> scores are real numbers, the time of an event is a number.
  \<^item> No definition needs fuel: recursion is on lists, on the chain of layers, or has a termination proof by a
    measure. Loops that wait for other threads are single steps that may repeat; the loop that waits for a shared
    memory object may run for ever and is a \<open>partial_function\<close> with an option, with a theorem on when it returns.
  \<^item> Buffers: which allocations succeed is an argument (\<open>memory\<close>); \<open>realloc\<close> always moves its block; the small allocations
    of zones succeed. The stretches of a chunk that messages point into are kept as ghost state. A connection carries fewer than
    \<open>2 ^ 63\<close> bytes and \<open>2 ^ 32\<close> messages, which the counters of the code need; a link carries fewer than \<open>2 ^ 31\<close> calls, whose
    numbers are an \<open>int\<close>, and \<open>B\<close> bounds the size of one message.
  \<^item> Values the code takes from outside are arguments: \<open>std::hash\<close>, the answer of \<open>du\<close>, \<open>atof\<close>, \<open>getopt\<close> and \<open>getenv\<close>, the
    clock, addresses of streams, the bit patterns of floating point numbers.
  \<^item> Undefined behaviour is a value (\<open>Undefined\<close>), so that a theorem about \<open>Inr\<close> excludes it.

  Not modelled. C streams are unbuffered. A call of \<open>handle\<close> is one step: two workers of one server exclude each other
  in the model and not in the code, except for opens and reads of the auditor (\<open>Auditor_Races\<close>). The sockets and threads of asio
  are steps that may happen in any order; the order in which asio runs ready handlers, its resolver, and the formatting and
  logging libraries of rpclib are left out, as are adaptors for types HFetch does not send, and MPI beyond the ranks and sizes it returns. A session stays
  alive in the model while tasks and jobs that hold a pointer to it are pending; \<open>close_session\<close> frees it, and the code uses the freed
  session then. The input of the parser is the list of the stored bytes, so that a read behind them cannot be expressed. The shell of
  \<open>Startup\<close> compares files by the text of their paths. Of the programs under
  \<open>src/test\<close>, the variants on the C library and the output are left out. Code that is commented out, or behind a return that is always taken, has no
  definition.
\<close>

section \<open>From the application to the server and back\<close>



end
